(* ===== verification/Baby_Bear.thy ===== *)
theory Baby_Bear
  imports Main
begin

text \<open>
  The AIRs of the repository are generic in a field \<open>F: PrimeField32\<close>; the models of this
  development are generic in a HOL type of class \<open>field\<close> and state the size of the field they
  need as a bound on its characteristic.
  This theory builds the field the virtual machine is run with, BabyBear (the integers modulo
  \<open>15 * 2 ^ 27 + 1 = 2013265921\<close>), as an instance of class \<open>field\<close>, so that the
  bounds on the characteristic are met by a concrete prime field.
  That every non-zero residue has an inverse is shown with the generator \<open>31\<close>, whose order is
  checked against the three prime factors of \<open>p - 1\<close>.
\<close>

section \<open>Residues modulo the BabyBear prime\<close>

abbreviation bb_p :: int where
  "bb_p \<equiv> 2013265921"

typedef bb = "{0..<bb_p}"
  by (rule exI [of _ 0]) simp

setup_lifting type_definition_bb

lift_definition bb_of :: "int \<Rightarrow> bb" is "\<lambda>k. k mod bb_p"
  by simp

lift_definition bb_val :: "bb \<Rightarrow> int" is "\<lambda>k. k" .

lemma bb_of_val [simp]: "bb_of (bb_val x) = x"
  by transfer simp

lemma bb_val_of [simp]: "bb_val (bb_of k) = k mod bb_p"
  by transfer simp

lemma bb_val_bounds: "0 \<le> bb_val x" "bb_val x < bb_p"
  by (transfer, simp)+

lemma bb_val_inject: "bb_val x = bb_val y \<longleftrightarrow> x = y"
  by transfer simp

instantiation bb :: comm_ring_1
begin

definition zero_bb :: bb where "zero_bb = bb_of 0"

definition one_bb :: bb where "one_bb = bb_of 1"

definition plus_bb :: "bb \<Rightarrow> bb \<Rightarrow> bb" where "plus_bb x y = bb_of (bb_val x + bb_val y)"

definition uminus_bb :: "bb \<Rightarrow> bb" where "uminus_bb x = bb_of (- bb_val x)"

definition minus_bb :: "bb \<Rightarrow> bb \<Rightarrow> bb" where "minus_bb x y = bb_of (bb_val x - bb_val y)"

definition times_bb :: "bb \<Rightarrow> bb \<Rightarrow> bb" where "times_bb x y = bb_of (bb_val x * bb_val y)"

lemmas bb_ring_defs = zero_bb_def one_bb_def plus_bb_def uminus_bb_def minus_bb_def times_bb_def

instance
proof
  fix a b c :: bb
  show "a + b + c = a + (b + c)" "a + b = b + a" "a * b * c = a * (b * c)" "a * b = b * a"
    "(a + b) * c = a * c + b * c" "- a + a = 0" "a - b = a + - b"
    unfolding bb_ring_defs bb_val_inject [symmetric] bb_val_of
    by (simp_all add: mod_simps algebra_simps)
  show "0 + a = a" "1 * a = a"
    unfolding bb_ring_defs bb_val_inject [symmetric] bb_val_of
    using bb_val_bounds [of a] by (simp_all add: mod_simps)
  show "(0::bb) \<noteq> 1"
    unfolding bb_ring_defs bb_val_inject [symmetric] bb_val_of by simp
qed

end

lemma bb_of_int: "(of_int k :: bb) = bb_of k"
proof -
  have nat: "(of_nat n :: bb) = bb_of (int n)" for n
    by (induction n)
      (simp_all add: bb_ring_defs bb_val_inject [symmetric] mod_simps del: bb_val_inject)
  show ?thesis
  proof (cases k)
    case (nonneg n)
    then show ?thesis by (simp add: nat)
  next
    case (neg n)
    have "(of_int k :: bb) = - of_nat (Suc n)" using neg by simp
    also have "\<dots> = bb_of (- int (Suc n))"
      unfolding nat uminus_bb_def by (simp add: bb_val_inject [symmetric] mod_simps)
    finally show ?thesis using neg by simp
  qed
qed

lemma bb_of_nat: "(of_nat n :: bb) = bb_of (int n)"
  using bb_of_int [of "int n"] by simp

lemma bb_of_nat_val [simp]: "of_nat (nat (bb_val x)) = x"
  by (simp add: bb_of_nat bb_val_bounds)

lemma bb_eq_of_val: "x = of_int (bb_val x)"
  by (simp add: bb_of_int)

lemma bb_CHAR: "CHAR(bb) = 2013265921"
proof (rule CHAR_eqI)
  show "of_nat 2013265921 = (0 :: bb)"
    unfolding bb_of_nat zero_bb_def bb_val_inject [symmetric] bb_val_of by simp
next
  fix n assume "of_nat n = (0 :: bb)"
  then have "int n mod bb_p = 0"
    unfolding bb_of_nat zero_bb_def bb_val_inject [symmetric] bb_val_of by simp
  then have "int 2013265921 dvd int n" by (simp add: mod_eq_0_iff_dvd)
  then show "2013265921 dvd n" by (simp only: int_dvd_int_iff)
qed

section \<open>The generator and the inverses\<close>

text \<open>Square-and-multiply, so that the powers of the generator evaluate in the kernel.\<close>

fun powmod :: "int \<Rightarrow> nat \<Rightarrow> int" where
  "powmod g e = (if e = 0 then 1
     else let h = powmod g (e div 2); s = h * h mod bb_p
          in if odd e then s * g mod bb_p else s)"

declare powmod.simps [simp del]

lemma powmod_eq: "powmod g e = g ^ e mod bb_p"
proof (induction e rule: less_induct)
  case (less e)
  show ?case
  proof (cases "e = 0")
    case True
    then show ?thesis by (simp add: powmod.simps)
  next
    case False
    then have IH: "powmod g (e div 2) = g ^ (e div 2) mod bb_p"
      using less by simp
    have sq: "g ^ (e div 2) * g ^ (e div 2) = g ^ (e div 2 + e div 2)"
      by (simp add: power_add)
    have ev: "e div 2 + e div 2 = e" if "even e" using that by presburger
    have od: "g ^ (e div 2 + e div 2) * g = g ^ e" if "odd e"
    proof -
      have "Suc (e div 2 + e div 2) = e" using that by presburger
      then show ?thesis by (metis mult.commute power_Suc)
    qed
    show ?thesis
      using False ev od
      by (subst powmod.simps) (auto simp: Let_def IH sq mod_simps)
  qed
qed

definition bb_g :: bb where
  "bb_g = bb_of 31"

lemma bb_of_power: "bb_of k ^ n = bb_of (k ^ n)"
  by (induction n)
    (simp_all add: one_bb_def times_bb_def bb_val_inject [symmetric] mod_simps)

lemma bb_g_power: "bb_g ^ e = bb_of (powmod 31 e)"
  unfolding bb_g_def bb_of_power powmod_eq
  by (simp add: bb_val_inject [symmetric])

lemma bb_g_order: "bb_g ^ 2013265920 = 1"
  unfolding bb_g_power one_bb_def
  by (simp add: powmod.simps Let_def)

lemma bb_g_not_half: "bb_g ^ (2013265920 div 2) \<noteq> 1"
  unfolding bb_g_power one_bb_def bb_val_inject [symmetric] bb_val_of
  by (simp add: powmod.simps Let_def)

lemma bb_g_not_third: "bb_g ^ (2013265920 div 3) \<noteq> 1"
  unfolding bb_g_power one_bb_def bb_val_inject [symmetric] bb_val_of
  by (simp add: powmod.simps Let_def)

lemma bb_g_not_fifth: "bb_g ^ (2013265920 div 5) \<noteq> 1"
  unfolding bb_g_power one_bb_def bb_val_inject [symmetric] bb_val_of
  by (simp add: powmod.simps Let_def)


text \<open>
  In a finite ring with \<open>m + 1\<close> elements, an element of order exactly \<open>m\<close>
  generates every non-zero element.
\<close>

lemma power_eq_1_gcd:
  fixes g :: "'a::comm_ring_1"
  assumes "g ^ a = 1" and "g ^ b = 1"
  shows "g ^ gcd a b = 1"
proof (cases "a = 0")
  case True
  then show ?thesis using assms by simp
next
  case False
  then obtain x y where xy: "a * x = b * y + gcd a b"
    using bezout_nat by blast
  have "g ^ (a * x) = 1" "g ^ (b * y) = 1"
    using assms by (simp_all add: power_mult)
  then show ?thesis by (simp add: xy power_add)
qed

lemma generator_fermat:
  fixes g x :: "'a::comm_ring_1"
  assumes fin: "finite (UNIV :: 'a set)" and card: "card (UNIV :: 'a set) = Suc m" and m: "0 < m"
    and one: "g ^ m = 1"
    and order: "\<And>d. d dvd m \<Longrightarrow> d < m \<Longrightarrow> g ^ d \<noteq> 1"
    and nz: "x \<noteq> 0"
  shows "x ^ m = 1"
proof -
  have distinct: "i = j" if "i \<le> j" "j < m" "g ^ i = g ^ j" for i j
  proof (rule ccontr)
    assume "i \<noteq> j"
    with that have ij: "i < j" by simp
    have inv: "g ^ i * g ^ (m - i) = 1"
      using that(1,2) one by (simp add: power_add [symmetric])
    have "g ^ i * g ^ (j - i) = g ^ j"
      using that(1) by (simp add: power_add [symmetric])
    then have "g ^ (j - i) = g ^ (m - i) * g ^ i"
      using inv that(3) by (metis mult.assoc mult.commute mult_1)
    then have "g ^ (j - i) = 1" using inv by (simp add: mult.commute)
    then have "g ^ gcd (j - i) m = 1" using one by (rule power_eq_1_gcd)
    moreover have "gcd (j - i) m < m"
    proof -
      have "gcd (j - i) m dvd j - i" "0 < j - i" using ij by simp_all
      then have "gcd (j - i) m \<le> j - i" by (rule dvd_imp_le)
      then show ?thesis using that by simp
    qed
    ultimately show False using order by simp
  qed
  have inj: "inj_on (\<lambda>i. g ^ i) {..<m}"
  proof (rule inj_onI)
    fix i j assume "i \<in> {..<m}" "j \<in> {..<m}" "g ^ i = g ^ j"
    then show "i = j"
      using distinct [of i j] distinct [of j i] by (cases "i \<le> j") auto
  qed
  have nonzero: "g ^ i \<noteq> 0" if "i < m" for i
  proof
    assume "g ^ i = 0"
    moreover have "g ^ i * g ^ (m - i) = 1"
      using that one by (simp add: power_add [symmetric])
    ultimately show False by simp
  qed
  have sub: "(\<lambda>i. g ^ i) ` {..<m} \<subseteq> UNIV - {0}"
    using nonzero by auto
  have "card ((\<lambda>i. g ^ i) ` {..<m}) = m"
    using inj by (simp add: card_image)
  moreover have "card (UNIV - {0 :: 'a}) = m"
    using fin card by (simp add: card_Diff_singleton)
  ultimately have "(\<lambda>i. g ^ i) ` {..<m} = UNIV - {0}"
    using sub fin by (intro card_subset_eq) auto
  then obtain i where "x = g ^ i" using nz by blast
  then have "x ^ m = (g ^ m) ^ i" by (simp add: power_mult [symmetric] mult.commute)
  then show ?thesis using one by simp
qed

lemma bb_UNIV: "finite (UNIV :: bb set)" "card (UNIV :: bb set) = 2013265921"
proof -
  have img: "(UNIV :: bb set) = bb_of ` {0..<bb_p}"
  proof -
    have "x \<in> bb_of ` {0..<bb_p}" for x
      using bb_val_bounds [of x] by (intro image_eqI [of _ _ "bb_val x"]) simp_all
    then show ?thesis by auto
  qed
  have "inj_on bb_of {0..<bb_p}"
    by (rule inj_onI) (simp add: bb_val_inject [symmetric])
  then show "card (UNIV :: bb set) = 2013265921"
    unfolding img by (simp add: card_image)
  show "finite (UNIV :: bb set)" unfolding img by simp
qed

lemma proper_divisor_cases:
  assumes "d dvd (2013265920 :: nat)" and "d < 2013265920"
  shows "d dvd 2013265920 div 2 \<or> d dvd 2013265920 div 3 \<or> d dvd 2013265920 div 5"
proof -
  obtain k where k: "2013265920 = d * k" using assms(1) by (rule dvdE)
  have k1: "k \<noteq> 1" using k assms(2) by auto
  have cop: "coprime k q" if "\<not> q dvd k" "\<And>r. r dvd q \<Longrightarrow> r = 1 \<or> r = q" for q :: nat
  proof (rule coprimeI)
    fix c assume "c dvd k" "c dvd q"
    then show "is_unit c" using that by auto
  qed
  have p2: "r = 1 \<or> r = 2" if "r dvd 2" for r :: nat
    using that dvd_imp_le [of r 2] by (cases "r = 0") auto
  have p3: "r = 1 \<or> r = 3" if "r dvd 3" for r :: nat
  proof -
    have "r \<le> 3" "r \<noteq> 0" "r \<noteq> 2"
      using that dvd_imp_le [of r 3] by (cases "r = 0", auto)+
    then show ?thesis by linarith
  qed
  have p5: "r = 1 \<or> r = 5" if "r dvd 5" for r :: nat
  proof -
    have "r \<le> 5" "r \<noteq> 0" "r \<noteq> 2" "r \<noteq> 3" "r \<noteq> 4"
      using that dvd_imp_le [of r 5] by (cases "r = 0", auto)+
    then show ?thesis by linarith
  qed
  have "2 dvd k \<or> 3 dvd k \<or> 5 dvd k"
  proof (rule ccontr)
    assume "\<not> (2 dvd k \<or> 3 dvd k \<or> 5 dvd k)"
    then have "coprime k 2" "coprime k 3" "coprime k 5"
      using cop p2 p3 p5 by blast+
    then have "coprime k (2 ^ 27 * 3 * 5)"
      by (simp only: coprime_mult_right_iff coprime_power_right_iff) simp
    moreover have "2 ^ 27 * 3 * 5 = k * d" using k by (simp add: mult.commute)
    then have "k dvd 2 ^ 27 * 3 * 5" by (rule dvdI)
    ultimately have "is_unit k" by (metis coprime_absorb_left)
    then show False using k1 by simp
  qed
  then show ?thesis
  proof (elim disjE dvdE)
    fix j assume "k = 2 * j"
    with k have "2013265920 div 2 = d * j" by simp
    then have "d dvd 2013265920 div 2" by (rule dvdI)
    then show ?thesis by blast
  next
    fix j assume "k = 3 * j"
    with k have "2013265920 div 3 = d * j" by simp
    then have "d dvd 2013265920 div 3" by (rule dvdI)
    then show ?thesis by blast
  next
    fix j assume "k = 5 * j"
    with k have "2013265920 div 5 = d * j" by simp
    then have "d dvd 2013265920 div 5" by (rule dvdI)
    then show ?thesis by blast
  qed
qed

lemma power_eq_1_dvd:
  fixes g :: "'a::comm_ring_1"
  assumes "g ^ d = 1" and "d dvd e"
  shows "g ^ e = 1"
  using assms by (auto simp: power_mult elim!: dvdE)

lemma bb_fermat: "x \<noteq> 0 \<Longrightarrow> x ^ 2013265920 = 1" for x :: bb
proof (rule generator_fermat [of _ bb_g])
  show "finite (UNIV :: bb set)" by (rule bb_UNIV)
  show "card (UNIV :: bb set) = Suc 2013265920" by (simp add: bb_UNIV)
  show "bb_g ^ 2013265920 = 1" by (rule bb_g_order)
  show "bb_g ^ d \<noteq> 1" if "d dvd 2013265920" "d < 2013265920" for d
    using proper_divisor_cases [OF that] power_eq_1_dvd [of bb_g d]
      bb_g_not_half bb_g_not_third bb_g_not_fifth by blast
qed simp_all

instantiation bb :: field
begin

definition inverse_bb :: "bb \<Rightarrow> bb" where "inverse_bb x = x ^ 2013265919"

definition divide_bb :: "bb \<Rightarrow> bb \<Rightarrow> bb" where "divide_bb x y = x * inverse y"

instance
proof
  fix a b :: bb
  show "inverse a * a = 1" if "a \<noteq> 0"
  proof -
    have "inverse a * a = a ^ (2013265919 + 1)"
      unfolding inverse_bb_def by (simp only: power_add power_one_right)
    then show ?thesis using bb_fermat [OF that] by simp
  qed
  show "a div b = a * inverse b" by (simp add: divide_bb_def)
  show "inverse (0::bb) = 0" by (simp add: inverse_bb_def)
qed

end

end
