(* ===== verification/Prelude.thy ===== *)
theory Prelude
  imports Main "HOL-Library.Word"
begin

unbundle bit_operations_syntax

text \<open>
  Shared vocabulary of the development: fixed-width unsigned arithmetic (Rust's \<open>u8\<close>,
  \<open>u16\<close>, \<open>u32\<close>, on naturals with the wrap-around written out), little-endian limb
  lists (the arrays \<open>[u8; NUM_LIMBS]\<close> and \<open>[u32; NUM_LIMBS]\<close> the chips work on), and
  the lemmas that carry an equation of a large field down to the integers, which every
  soundness proof of a circuit uses.
\<close>

named_theorems width_defs \<open>definitions of the fixed-width operations\<close>
named_theorems limb_simps \<open>evaluation of limb lists\<close>
named_theorems air_defs \<open>definitions unfolded to reach the constraints of an AIR\<close>

lemma ball_atLeastLessThan0 [simp]: "(\<forall>i\<in>{0..<n}. P i) \<longleftrightarrow> (\<forall>i<n. P i)" for n :: nat
  by auto

section \<open>Fixed-width unsigned integers\<close>

text \<open>
  A value of an unsigned Rust type of \<open>w\<close> bits is a natural number below \<open>2 ^ w\<close>.
  The operations wrap around as the release build does; \<open>wrap w x\<close> is the cast
  \<open>x as u<w>\<close>.
\<close>

definition wrap :: "nat \<Rightarrow> nat \<Rightarrow> nat" where [width_defs]:
  "wrap w x = x mod 2 ^ w"

definition wadd :: "nat \<Rightarrow> nat \<Rightarrow> nat \<Rightarrow> nat" where [width_defs]:
  "wadd w x y = (x + y) mod 2 ^ w"

definition wsub :: "nat \<Rightarrow> nat \<Rightarrow> nat \<Rightarrow> nat" where [width_defs]:
  "wsub w x y = (x + (2 ^ w - y mod 2 ^ w)) mod 2 ^ w"

definition wmul :: "nat \<Rightarrow> nat \<Rightarrow> nat \<Rightarrow> nat" where [width_defs]:
  "wmul w x y = x * y mod 2 ^ w"

definition wshl :: "nat \<Rightarrow> nat \<Rightarrow> nat \<Rightarrow> nat" where [width_defs]:
  "wshl w x k = x * 2 ^ k mod 2 ^ w"

definition wshr :: "nat \<Rightarrow> nat \<Rightarrow> nat" where [width_defs]:
  "wshr x k = x div 2 ^ k"

text \<open>
  \<open><<\<close> and \<open>>>\<close> of a release build take the shift amount modulo the width. An integer
  literal without another type is an \<open>i32\<close>: \<open>i32_val\<close> reads 32 bits as two's complement.
\<close>

definition shl_rel :: "nat \<Rightarrow> nat \<Rightarrow> nat \<Rightarrow> nat" where [width_defs]:
  "shl_rel w x k = wshl w x (k mod w)"

definition shr_rel :: "nat \<Rightarrow> nat \<Rightarrow> nat \<Rightarrow> nat" where [width_defs]:
  "shr_rel w x k = wshr x (k mod w)"

definition i32_val :: "nat \<Rightarrow> int" where
  "i32_val x = (let r = x mod 2 ^ 32 in if r < 2 ^ 31 then int r else int r - 2 ^ 32)"

lemma wrap_small [simp]: "x < 2 ^ w \<Longrightarrow> wrap w x = x"
  by (simp add: wrap_def)

lemma wadd_small: "x + y < 2 ^ w \<Longrightarrow> wadd w x y = x + y"
  by (simp add: wadd_def)

lemma wsub_small: "y \<le> x \<Longrightarrow> x < 2 ^ w \<Longrightarrow> wsub w x y = x - y"
proof -
  assume le: "y \<le> x" and lt: "x < 2 ^ w"
  then have "y mod 2 ^ w = y" by simp
  moreover have "x + (2 ^ w - y) = x - y + 2 ^ w" using le lt by simp
  ultimately have "wsub w x y = (x - y + 2 ^ w) mod 2 ^ w" by (simp only: wsub_def)
  then show ?thesis using lt by simp
qed

lemma wmul_small: "x * y < 2 ^ w \<Longrightarrow> wmul w x y = x * y"
  by (simp add: wmul_def)

lemma wshl_small: "x * 2 ^ k < 2 ^ w \<Longrightarrow> wshl w x k = x * 2 ^ k"
  by (simp add: wshl_def)

lemma shl_rel_one: "k < w \<Longrightarrow> shl_rel w 1 k = 2 ^ k"
  by (simp add: shl_rel_def wshl_def)

lemma shr_rel_small: "k < w \<Longrightarrow> shr_rel w x k = x div 2 ^ k"
  by (simp add: shr_rel_def wshr_def)

lemma mask_rel: "k < w \<Longrightarrow> wsub w (shl_rel w 1 k) 1 = 2 ^ k - 1"
  by (simp add: shl_rel_one [unfolded One_nat_def] wsub_small)

lemma i32_val_small: "x < 2 ^ 31 \<Longrightarrow> i32_val x = int x"
  by (simp add: i32_val_def)

lemma pow_le_256: "lb \<le> 8 \<Longrightarrow> (2::nat) ^ lb \<le> 256"
  using power_increasing [of lb 8 "2::nat"] by simp

lemma mask_eq_mod: "x AND (2 ^ k - 1) = x mod 2 ^ k" for x :: nat
  by (metis mask_eq_exp_minus_1 take_bit_eq_mask take_bit_eq_mod)

section \<open>Bits of naturals\<close>

lemma bit_bound_nat: "(\<And>i. k \<le> i \<Longrightarrow> \<not> bit x i) \<Longrightarrow> x < 2 ^ k" for x :: nat
proof -
  assume h: "\<And>i. k \<le> i \<Longrightarrow> \<not> bit x i"
  have "take_bit k x = x"
  proof (rule bit_eqI)
    fix n show "bit (take_bit k x) n = bit x n"
      using h [of n] by (cases "k \<le> n") (auto simp: bit_take_bit_iff)
  qed
  then show ?thesis by (metis take_bit_nat_less_exp)
qed

lemma bit_ge_exp_nat: "x < 2 ^ k \<Longrightarrow> k \<le> i \<Longrightarrow> \<not> bit x i" for x :: nat
  by (metis bit_take_bit_iff not_less take_bit_nat_eq_self)

lemma xor_lt_exp: "x < 2 ^ k \<Longrightarrow> y < 2 ^ k \<Longrightarrow> x XOR y < 2 ^ k" for x y :: nat
  by (rule bit_bound_nat) (auto simp: bit_simps dest: bit_ge_exp_nat)

lemma or_lt_exp: "x < 2 ^ k \<Longrightarrow> y < 2 ^ k \<Longrightarrow> x OR y < 2 ^ k" for x y :: nat
  by (rule bit_bound_nat) (auto simp: bit_simps dest: bit_ge_exp_nat)

lemma and_lt_exp: "x < 2 ^ k \<Longrightarrow> x AND y < 2 ^ k" for x y :: nat
  by (rule bit_bound_nat) (auto simp: bit_simps dest: bit_ge_exp_nat)

text \<open>The two identities the ALU chip derives OR and AND from an XOR lookup with.\<close>

lemma add_eq_xor_and: "x + y = (x XOR y) + 2 * (x AND y)" for x y :: nat
proof (induction x arbitrary: y rule: less_induct)
  case (less x)
  show ?case
  proof (cases "x = 0")
    case True
    then show ?thesis by simp
  next
    case False
    then have IH: "x div 2 + y div 2 = (x div 2 XOR y div 2) + 2 * (x div 2 AND y div 2)"
      using less by simp
    have "x + y = 2 * (x div 2 + y div 2) + of_bool (odd x) + of_bool (odd y)"
      by (cases "odd x"; cases "odd y") (auto elim!: oddE evenE)
    then show ?thesis
      unfolding IH
      by (subst xor_rec [of x y], subst and_rec [of x y]) (auto simp: algebra_simps)
  qed
qed

lemma or_eq_xor_add: "2 * (x OR y) = x + y + (x XOR y)" for x y :: nat
proof -
  have "x OR y = (x XOR y) + (x AND y)"
  proof -
    have "(x XOR y) + (x AND y) = (x XOR y) OR (x AND y)"
      by (rule disjunctive_add_eq_or, rule bit_eqI) (auto simp: bit_simps)
    also have "\<dots> = x OR y" by (rule bit_eqI) (auto simp: bit_simps)
    finally show ?thesis by simp
  qed
  then show ?thesis using add_eq_xor_and [of x y] by simp
qed

section \<open>Little-endian limb lists\<close>

abbreviation limbs_ok :: "nat \<Rightarrow> nat list \<Rightarrow> bool" where
  "limbs_ok lb xs \<equiv> list_all (\<lambda>x. x < 2 ^ lb) xs"

primrec limbs_val :: "nat \<Rightarrow> nat list \<Rightarrow> nat" where
  "limbs_val lb [] = 0"
| "limbs_val lb (x # xs) = x + 2 ^ lb * limbs_val lb xs"

primrec to_limbs :: "nat \<Rightarrow> nat \<Rightarrow> nat \<Rightarrow> nat list" where
  "to_limbs lb 0 v = []"
| "to_limbs lb (Suc n) v = v mod 2 ^ lb # to_limbs lb n (v div 2 ^ lb)"

lemma length_to_limbs [simp]: "length (to_limbs lb n v) = n"
  by (induction n arbitrary: v) simp_all

lemma limbs_ok_to_limbs [simp]: "limbs_ok lb (to_limbs lb n v)"
  by (induction n arbitrary: v) simp_all

lemma limbs_okD: "limbs_ok lb xs \<Longrightarrow> i < length xs \<Longrightarrow> xs ! i < 2 ^ lb"
  by (simp add: list_all_length)

lemma limbs_val_bound: "limbs_ok lb xs \<Longrightarrow> limbs_val lb xs < 2 ^ (lb * length xs)"
proof (induction xs)
  case Nil
  then show ?case by simp
next
  case (Cons x xs)
  then have x: "x < 2 ^ lb" and "limbs_val lb xs + 1 \<le> 2 ^ (lb * length xs)" by simp_all
  then have "2 ^ lb * (limbs_val lb xs + 1) \<le> 2 ^ lb * 2 ^ (lb * length xs)"
    by (intro mult_le_mono2)
  with x show ?case by (simp add: power_add [symmetric] algebra_simps)
qed

lemma mod_mult_exp: "v mod 2 ^ (a + b) = v mod 2 ^ a + 2 ^ a * (v div 2 ^ a mod 2 ^ b)" for v :: nat
  by (simp add: power_add mod_mult2_eq add.commute)

lemma limbs_val_to_limbs: "limbs_val lb (to_limbs lb n v) = v mod 2 ^ (lb * n)"
  by (induction n arbitrary: v) (simp_all add: mod_mult_exp)

lemma to_limbs_val: "limbs_ok lb xs \<Longrightarrow> to_limbs lb (length xs) (limbs_val lb xs) = xs"
  by (induction xs) simp_all

lemma limbs_val_inject:
  assumes "limbs_ok lb xs" "limbs_ok lb ys" "length xs = length ys"
    and "limbs_val lb xs = limbs_val lb ys"
  shows "xs = ys"
  using assms by (metis to_limbs_val)

lemma limbs_eq_to_limbs:
  assumes "limbs_ok lb xs" and "limbs_val lb xs = v mod 2 ^ (lb * length xs)"
  shows "xs = to_limbs lb (length xs) v"
  by (rule limbs_val_inject [of lb]) (simp_all add: assms limbs_val_to_limbs)

lemma nth_to_limbs: "i < n \<Longrightarrow> to_limbs lb n v ! i = v div 2 ^ (lb * i) mod 2 ^ lb"
proof (induction n arbitrary: v i)
  case 0
  then show ?case by simp
next
  case (Suc n)
  then show ?case by (cases i) (simp_all add: div_mult2_eq [symmetric] power_add [symmetric])
qed

lemma limbs_val_append:
  "limbs_val lb (xs @ ys) = limbs_val lb xs + 2 ^ (lb * length xs) * limbs_val lb ys"
  by (induction xs) (simp_all add: power_add algebra_simps)

lemma limbs_val_sum: "limbs_val lb xs = (\<Sum>i<length xs. xs ! i * 2 ^ (lb * i))"
proof (induction xs)
  case Nil
  then show ?case by simp
next
  case (Cons x xs)
  then show ?case
    by (simp add: sum.lessThan_Suc_shift power_add sum_distrib_left algebra_simps
        del: sum.lessThan_Suc)
qed

lemma limbs_val_take_Suc:
  "i < length xs \<Longrightarrow>
   limbs_val lb (take (Suc i) xs) = limbs_val lb (take i xs) + xs ! i * 2 ^ (lb * i)"
  by (simp add: take_Suc_conv_app_nth limbs_val_append min_def)

lemma bit_limb_cons:
  "x < 2 ^ lb \<Longrightarrow> bit (x + 2 ^ lb * a) n \<longleftrightarrow> (if n < lb then bit x n else bit a (n - lb))"
  for x a :: nat
proof -
  assume x: "x < 2 ^ lb"
  have "x + 2 ^ lb * a = x OR push_bit lb a"
    unfolding push_bit_eq_mult mult.commute [of a]
    by (rule disjunctive_add_eq_or, rule bit_eqI)
      (use x in \<open>auto simp: bit_simps push_bit_eq_mult [symmetric] mult.commute [of _ a]
        dest: bit_ge_exp_nat\<close>)
  then show ?thesis using x by (auto simp: bit_simps not_less dest: bit_ge_exp_nat)
qed

lemma limbs_val_bitop:
  assumes len: "length xs = length ys" and ok: "limbs_ok lb xs" "limbs_ok lb ys"
    and f: "\<And>x y n. bit (f x y) n = g (bit x n) (bit y n)" and g: "g False False = False"
  shows "limbs_val lb (map2 f xs ys) = f (limbs_val lb xs) (limbs_val lb ys)"
  using len ok
proof (induction xs ys rule: list_induct2)
  case Nil
  show ?case by (simp, rule bit_eqI) (simp add: f g)
next
  case (Cons x xs y ys)
  have fxy: "f x y < 2 ^ lb"
  proof (rule bit_bound_nat)
    fix i assume "lb \<le> i"
    then have "\<not> bit x i" "\<not> bit y i" using Cons.prems bit_ge_exp_nat by auto
    then show "\<not> bit (f x y) i" by (simp add: f g)
  qed
  have IH: "limbs_val lb (map2 f xs ys) = f (limbs_val lb xs) (limbs_val lb ys)"
    using Cons by simp
  show ?case
    by (rule bit_eqI) (use Cons.prems fxy in \<open>simp add: IH bit_limb_cons f\<close>)
qed

lemmas limbs_val_xor = limbs_val_bitop [of _ _ _ "(XOR)" "(\<noteq>)", simplified bit_simps, simplified]
  and limbs_val_or = limbs_val_bitop [of _ _ _ "(OR)" "(\<or>)", simplified bit_simps, simplified]
  and limbs_val_and = limbs_val_bitop [of _ _ _ "(AND)" "(\<and>)", simplified bit_simps, simplified]

section \<open>From a large field to the integers\<close>

lemma of_int_eq_0_charD:
  assumes "of_int k = (0 :: 'f::ring_1)" and "\<bar>k\<bar> < int CHAR('f)"
  shows "k = 0"
proof -
  have "of_nat (nat \<bar>k\<bar>) = (0 :: 'f)"
    using assms(1) by (cases "0 \<le> k") (simp_all add: of_nat_nat)
  then have "CHAR('f) dvd nat \<bar>k\<bar>" by (simp only: of_nat_eq_0_iff_char_dvd)
  then have "nat \<bar>k\<bar> = 0" using assms(2) by (metis dvd_imp_le nat_less_iff abs_ge_zero not_le neq0_conv)
  then show ?thesis by simp
qed

lemma of_int_eq_charD:
  assumes "of_int k = (of_int l :: 'f::ring_1)" and "\<bar>k - l\<bar> < int CHAR('f)"
  shows "k = l"
  using of_int_eq_0_charD [of "k - l", where 'f = 'f] assms by simp

lemma of_nat_eq_iff_char:
  assumes "a < CHAR('f)" "b < CHAR('f)"
  shows "of_nat a = (of_nat b :: 'f::ring_1) \<longleftrightarrow> a = b"
proof
  assume "of_nat a = (of_nat b :: 'f)"
  then have "of_int (int a) = (of_int (int b) :: 'f)" by simp
  then have "int a = int b" by (rule of_int_eq_charD) (use assms in simp)
  then show "a = b" by simp
qed simp

lemma of_nat_eq_0_char: "a < CHAR('f) \<Longrightarrow> of_nat a = (0 :: 'f::ring_1) \<longleftrightarrow> a = 0"
  using of_nat_eq_iff_char [of a 0, where 'f = 'f] by simp

lemma two_power_neq_0_char:
  "2 ^ k < CHAR('f) \<Longrightarrow> (2 ^ k :: 'f::ring_1) \<noteq> 0"
  using of_nat_eq_0_char [of "2 ^ k", where 'f = 'f] by simp

lemma bool_field_iff: "x * (x - 1) = 0 \<longleftrightarrow> x = 0 \<or> x = (1 :: 'f::field)"
  by simp

abbreviation fels :: "nat list \<Rightarrow> 'f::semiring_1 list" where
  "fels xs \<equiv> map of_nat xs"

lemma fels_inject:
  assumes "list_all (\<lambda>x. x < CHAR('f)) xs" "list_all (\<lambda>x. x < CHAR('f)) ys"
    and "(fels xs :: 'f::ring_1 list) = fels ys"
  shows "xs = ys"
proof (rule nth_equalityI)
  show len: "length xs = length ys" using assms(3) by (metis length_map)
  fix i assume i: "i < length xs"
  have "(fels xs :: 'f list) ! i = fels ys ! i" using assms(3) by simp
  then have "of_nat (xs ! i) = (of_nat (ys ! i) :: 'f)" using i len by simp
  then show "xs ! i = ys ! i"
    using assms(1,2) i len by (simp add: list_all_length of_nat_eq_iff_char)
qed

lemma fels_inject_limbs:
  assumes "limbs_ok lb xs" "limbs_ok lb ys" "2 ^ lb < CHAR('f)" "(fels xs :: 'f::ring_1 list) = fels ys"
  shows "xs = ys"
  by (rule fels_inject [where 'f = 'f]) (use assms in \<open>auto simp: list_all_iff intro: less_trans [OF _ assms(3)]\<close>)


lemma bool_list_fels:
  assumes "\<And>i. i < length bs \<Longrightarrow> bs ! i = 0 \<or> bs ! i = (1 :: 'f::field)"
  obtains ns where "bs = fels ns" "limbs_ok 1 ns" "length ns = length bs"
proof
  let ?ns = "map (\<lambda>b. if b = 0 then 0 else 1 :: nat) bs"
  show "bs = fels ?ns"
    by (rule nth_equalityI) (use assms in \<open>force simp: \<close>)+
  show "limbs_ok 1 ?ns" by (auto simp: list_all_iff)
qed simp


lemma list_all_concat_map: "list_all P (concat (map f xs)) \<longleftrightarrow> (\<forall>x\<in>set xs. list_all P (f x))"
  by (induction xs) auto

section \<open>Carry chains\<close>

text \<open>
  A limb equation with a carry in and a carry out, for every limb, is one equation between the
  numbers. It is the arithmetic behind the adder, the subtractor, the multipliers and the
  divider.
\<close>

lemma carry_chain:
  fixes s a k :: "nat \<Rightarrow> nat"
  assumes "\<And>i. i < n \<Longrightarrow> s i + (if i = 0 then 0 else k (i - 1)) = a i + 2 ^ lb * k i"
  shows "(\<Sum>i<n. s i * 2 ^ (lb * i)) =
         (\<Sum>i<n. a i * 2 ^ (lb * i)) + 2 ^ (lb * n) * (if n = 0 then 0 else k (n - 1))"
  using assms
proof (induction n)
  case 0
  then show ?case by simp
next
  case (Suc n)
  then have IH: "(\<Sum>i<n. s i * 2 ^ (lb * i)) =
      (\<Sum>i<n. a i * 2 ^ (lb * i)) + 2 ^ (lb * n) * (if n = 0 then 0 else k (n - 1))"
    by simp
  let ?P = "2 ^ (lb * n) :: nat" and ?k = "if n = 0 then 0 else k (n - 1)"
  have step: "s n * ?P + ?k * ?P = a n * ?P + 2 ^ lb * k n * ?P"
    using Suc.prems [of n] by (metis add_mult_distrib lessI)
  have "(\<Sum>i<Suc n. s i * 2 ^ (lb * i)) =
      (\<Sum>i<n. a i * 2 ^ (lb * i)) + (s n * ?P + ?k * ?P)"
    using IH by (simp add: mult.commute)
  also have "\<dots> = (\<Sum>i<n. a i * 2 ^ (lb * i)) + (a n * ?P + 2 ^ lb * k n * ?P)"
    by (simp only: step)
  finally show ?case by (simp add: power_add)
qed

lemma field_carry_step:
  fixes lb :: nat
  assumes "of_nat k = inverse (2 ^ lb) * (of_nat s - of_nat a + of_nat k' :: 'f::field)"
    and "2 ^ lb < CHAR('f)" "s + k' < CHAR('f)" "a + 2 ^ lb * k < CHAR('f)"
  shows "s + k' = a + 2 ^ lb * k"
proof -
  have "2 ^ lb * of_nat k = (of_nat s - of_nat a + of_nat k' :: 'f)"
    unfolding assms(1) using two_power_neq_0_char [OF assms(2)] by simp
  then have "of_nat (s + k') = (of_nat (a + 2 ^ lb * k) :: 'f)" by (simp add: algebra_simps)
  then show ?thesis using assms(3,4) by (simp only: of_nat_eq_iff_char)
qed

section \<open>One-hot flags\<close>

lemma sum_list_1_one_hot:
  "sum_list ns = (1 :: nat) \<Longrightarrow> \<exists>j<length ns. ns ! j = 1 \<and> (\<forall>i<length ns. i \<noteq> j \<longrightarrow> ns ! i = 0)"
proof (induction ns)
  case Nil
  then show ?case by simp
next
  case (Cons m ns)
  then consider "m = 1" "sum_list ns = 0" | "m = 0" "sum_list ns = 1" by fastforce
  then show ?case
  proof cases
    case 1
    then show ?thesis by (intro exI [of _ 0]) (auto simp: nth_Cons split: nat.splits)
  next
    case 2
    then obtain j where "j < length ns" "ns ! j = 1" "\<forall>i<length ns. i \<noteq> j \<longrightarrow> ns ! i = 0"
      using Cons.IH by blast
    with 2 show ?thesis by (intro exI [of _ "Suc j"]) (auto simp: nth_Cons split: nat.splits)
  qed
qed

lemma sum_list_fels: "sum_list (fels ns :: 'f::semiring_1 list) = of_nat (sum_list ns)"
  by (induction ns) simp_all

lemma one_hot_flags:
  assumes bool: "\<And>i. i < length fs \<Longrightarrow> fs ! i = 0 \<or> fs ! i = (1 :: 'f::field)"
    and sum: "sum_list fs = 1" and len: "length fs < CHAR('f)" "1 < CHAR('f)"
  obtains j where "j < length fs" "fs ! j = 1" "\<And>i. i < length fs \<Longrightarrow> i \<noteq> j \<Longrightarrow> fs ! i = 0"
proof -
  obtain ns where ns: "fs = fels ns" "limbs_ok 1 ns" "length ns = length fs"
    using bool_list_fels bool by blast
  have "sum_list ns \<le> length ns"
    using ns(2) by (induction ns) (auto simp: list_all_iff less_2_cases_iff)
  then have "sum_list ns < CHAR('f)" using len ns(3) by simp
  moreover have "of_nat (sum_list ns) = (of_nat 1 :: 'f)" using sum ns(1) by (simp add: sum_list_fels)
  ultimately have "sum_list ns = 1" using len(2) by (simp only: of_nat_eq_iff_char)
  then obtain j where j: "j < length ns" "ns ! j = 1" "\<forall>i<length ns. i \<noteq> j \<longrightarrow> ns ! i = 0"
    using sum_list_1_one_hot by blast
  show ?thesis
  proof (rule that [of j])
    show "j < length fs" using j(1) ns(3) by simp
    show "fs ! j = 1" unfolding ns(1) using j(1,2) by simp
    show "fs ! i = 0" if "i < length fs" "i \<noteq> j" for i
      using that j(3) ns(3) by (subst ns(1)) simp
  qed
qed

section \<open>Field elements of the trace fillers\<close>

definition from_bool :: "bool \<Rightarrow> 'f::field" where
  "from_bool b = (if b then 1 else 0)"

lemma from_bool_simps [simp]: "from_bool True = 1" "from_bool False = 0"
  by (simp_all add: from_bool_def)

text \<open>
  \<open>PrimeField32::as_canonical_u32\<close> belongs to the field crate: it is a parameter
  \<open>canon\<close> of the definitions that call it. The crate documents that it returns the
  representative below the modulus.
\<close>

definition canonical_u32 :: "('f::field \<Rightarrow> nat) \<Rightarrow> bool" where
  "canonical_u32 canon \<longleftrightarrow> (\<forall>n<CHAR('f). canon (of_nat n) = n)"

lemma canonical_u32D: "canonical_u32 canon \<Longrightarrow> n < CHAR('f::field) \<Longrightarrow> canon (of_nat n :: 'f) = n"
  by (simp add: canonical_u32_def)

end
