(* ===== verification/Air.thy ===== *)
theory Air
  imports Prelude
begin

text \<open>
  What an \<open>Air::eval\<close> of the repository hands to its builder, as data.
  The builder itself (\<open>AirBuilder\<close>, \<open>InteractionBuilder\<close>, \<open>LookupBus\<close>) belongs to
  the proof-system crates outside the repository: an AIR is modelled by the list of assertions
  and the list of interactions its \<open>eval\<close> makes, in the order it makes them, and the meaning
  the crates document for an assertion and for a bus is what \<open>satisfied\<close> and
  \<open>bus_balanced\<close> say.
  From \<open>crates/vm/src/arch/integration_api.rs\<close> it holds the interface between the core of
  a chip and its adapter.
\<close>

section \<open>Assertions\<close>

text \<open>
  The methods of the builder that the AIRs call; \<open>When c a\<close> is \<open>builder.when(c)\<close>
  followed by the assertion, \<open>When_ne x y a\<close> is \<open>builder.when_ne(x, y)\<close>.
\<close>

datatype 'f assertion =
    assert_zero 'f
  | assert_one 'f
  | assert_bool 'f
  | assert_eq 'f 'f
  | When 'f "'f assertion"
  | When_ne 'f 'f "'f assertion"

fun satisfied :: "'f::field assertion \<Rightarrow> bool" where
  "satisfied (assert_zero x) \<longleftrightarrow> x = 0"
| "satisfied (assert_one x) \<longleftrightarrow> x = 1"
| "satisfied (assert_bool x) \<longleftrightarrow> x = 0 \<or> x = 1"
| "satisfied (assert_eq x y) \<longleftrightarrow> x = y"
| "satisfied (When c a) \<longleftrightarrow> c = 0 \<or> satisfied a"
| "satisfied (When_ne x y a) \<longleftrightarrow> x = y \<or> satisfied a"

definition all_satisfied :: "'f::field assertion list \<Rightarrow> bool" where
  "all_satisfied as \<longleftrightarrow> list_all satisfied as"

lemma all_satisfied_simps [simp]:
  "all_satisfied []"
  "all_satisfied (a # as) \<longleftrightarrow> satisfied a \<and> all_satisfied as"
  "all_satisfied (as @ bs) \<longleftrightarrow> all_satisfied as \<and> all_satisfied bs"
  by (simp_all add: all_satisfied_def)

lemma all_satisfied_map [simp]:
  "all_satisfied (map f xs) \<longleftrightarrow> (\<forall>x\<in>set xs. satisfied (f x))"
  by (simp add: all_satisfied_def list_all_iff)

lemma all_satisfied_concat_map [simp]:
  "all_satisfied (concat (map f xs)) \<longleftrightarrow> (\<forall>x\<in>set xs. all_satisfied (f x))"
  by (auto simp add: all_satisfied_def list_all_iff)

text \<open>
  An AIR over a window of two rows also asks where in the trace the window stands
  (\<open>when_first_row\<close>, \<open>when_transition\<close>, \<open>when_last_row\<close>). The window of the last row
  wraps around to the first.
\<close>

datatype 'f row_assertion =
    Every_row "'f assertion"
  | First_row "'f assertion"
  | Transition "'f assertion"
  | Last_row "'f assertion"

fun satisfied_at :: "nat \<Rightarrow> nat \<Rightarrow> 'f::field row_assertion \<Rightarrow> bool" where
  "satisfied_at h i (Every_row a) \<longleftrightarrow> satisfied a"
| "satisfied_at h i (First_row a) \<longleftrightarrow> i \<noteq> 0 \<or> satisfied a"
| "satisfied_at h i (Transition a) \<longleftrightarrow> Suc i = h \<or> satisfied a"
| "satisfied_at h i (Last_row a) \<longleftrightarrow> Suc i \<noteq> h \<or> satisfied a"

definition trace_satisfied :: "('r \<Rightarrow> 'r \<Rightarrow> 'f::field row_assertion list) \<Rightarrow> 'r list \<Rightarrow> bool" where
  "trace_satisfied ev rows \<longleftrightarrow> (\<forall>i<length rows.
     list_all (satisfied_at (length rows) i) (ev (rows ! i) (rows ! (Suc i mod length rows))))"

lemma trace_satisfied_window:
  "trace_satisfied ev rows \<Longrightarrow> Suc i < length rows \<Longrightarrow>
   list_all (satisfied_at (length rows) i) (ev (rows ! i) (rows ! Suc i))"
  by (auto simp: trace_satisfied_def dest: spec [of _ i])

lemma trace_satisfied_row:
  "trace_satisfied ev rows \<Longrightarrow> i < length rows \<Longrightarrow>
   list_all (satisfied_at (length rows) i) (ev (rows ! i) (rows ! (Suc i mod length rows)))"
  by (simp add: trace_satisfied_def)

section \<open>Interactions and buses\<close>

text \<open>
  \<open>Lookup_key\<close> and \<open>Add_key\<close> are the calls \<open>lookup_key\<close> and
  \<open>add_key_with_lookups\<close> of a \<open>LookupBus\<close>; \<open>Send\<close> and \<open>Receive\<close> those of a
  \<open>PermutationCheckBus\<close>. Each carries the bus index, the message and its multiplicity.
\<close>

datatype 'f interaction =
    Lookup_key nat "'f list" 'f
  | Add_key nat "'f list" 'f
  | Send nat "'f list" 'f
  | Receive nat "'f list" 'f

text \<open>What one interaction adds to the running total of a message on a bus.\<close>

fun contribution :: "nat \<Rightarrow> 'f list \<Rightarrow> 'f::field interaction \<Rightarrow> 'f" where
  "contribution b k (Lookup_key b' k' c) = (if b = b' \<and> k = k' then c else 0)"
| "contribution b k (Add_key b' k' c) = (if b = b' \<and> k = k' then - c else 0)"
| "contribution b k (Send b' k' c) = (if b = b' \<and> k = k' then c else 0)"
| "contribution b k (Receive b' k' c) = (if b = b' \<and> k = k' then - c else 0)"

definition bus_balanced :: "nat \<Rightarrow> 'f::field interaction list \<Rightarrow> bool" where
  "bus_balanced b is \<longleftrightarrow> (\<forall>k. sum_list (map (contribution b k) is) = 0)"

text \<open>Interactions of multiplicity zero leave every bus as it is.\<close>

fun multiplicity :: "'f interaction \<Rightarrow> 'f" where
  "multiplicity (Lookup_key _ _ c) = c"
| "multiplicity (Add_key _ _ c) = c"
| "multiplicity (Send _ _ c) = c"
| "multiplicity (Receive _ _ c) = c"

definition active :: "'f::field interaction list \<Rightarrow> 'f interaction list" where
  "active is = filter (\<lambda>i. multiplicity i \<noteq> 0) is"

lemma active_simps [simp]:
  "active [] = []" "active (is @ js) = active is @ active js"
  "active (i # is) = (if multiplicity i \<noteq> 0 then [i] else []) @ active is"
  by (simp_all add: active_def)

lemma sum_contribution_active:
  "sum_list (map (contribution b k) (active is)) = sum_list (map (contribution b k) is)"
proof (induction "is")
  case (Cons i "is")
  then show ?case by (cases i) auto
qed simp

text \<open>
  \<open>lookups_ok T is\<close>: every active lookup of \<open>is\<close> finds its key in the table the predicate
  \<open>T\<close> gives for the bus.
\<close>

fun lookup_ok :: "(nat \<Rightarrow> 'f list \<Rightarrow> bool) \<Rightarrow> 'f::field interaction \<Rightarrow> bool" where
  "lookup_ok T (Lookup_key b k c) \<longleftrightarrow> c = 0 \<or> T b k"
| "lookup_ok T (Add_key b k c) \<longleftrightarrow> True"
| "lookup_ok T (Send b k c) \<longleftrightarrow> True"
| "lookup_ok T (Receive b k c) \<longleftrightarrow> True"

definition lookups_ok :: "(nat \<Rightarrow> 'f list \<Rightarrow> bool) \<Rightarrow> 'f::field interaction list \<Rightarrow> bool" where
  "lookups_ok T is \<longleftrightarrow> list_all (lookup_ok T) is"

lemma lookups_ok_simps [simp]:
  "lookups_ok T []"
  "lookups_ok T (i # is) \<longleftrightarrow> lookup_ok T i \<and> lookups_ok T is"
  "lookups_ok T (is @ js) \<longleftrightarrow> lookups_ok T is \<and> lookups_ok T js"
  by (simp_all add: lookups_ok_def)

lemma lookups_ok_map [simp]:
  "lookups_ok T (map f xs) \<longleftrightarrow> (\<forall>x\<in>set xs. lookup_ok T (f x))"
  by (simp add: lookups_ok_def list_all_iff)

lemma lookups_ok_concat_map [simp]:
  "lookups_ok T (concat (map f xs)) \<longleftrightarrow> (\<forall>x\<in>set xs. lookups_ok T (f x))"
  by (auto simp add: lookups_ok_def list_all_iff)

lemma lookups_ok_active: "lookups_ok T (active is) \<longleftrightarrow> lookups_ok T is"
proof (induction "is")
  case (Cons i "is")
  then show ?case by (cases i) auto
qed simp

subsection \<open>A balanced bus serves its lookups\<close>

text \<open>
  The table AIRs add keys, the chips look keys up with boolean multiplicities. When the bus
  balances and there are fewer lookups than the characteristic of the field, every key that is
  looked up was added by a row of a table.
\<close>

fun bool_lookup :: "nat \<Rightarrow> 'f::field interaction \<Rightarrow> bool" where
  "bool_lookup b (Lookup_key b' k c) \<longleftrightarrow> (b = b' \<longrightarrow> c = 0 \<or> c = 1)"
| "bool_lookup b (Add_key b' k c) \<longleftrightarrow> True"
| "bool_lookup b (Send b' k c) \<longleftrightarrow> b \<noteq> b'"
| "bool_lookup b (Receive b' k c) \<longleftrightarrow> b \<noteq> b'"

lemma sum_contribution_lookups:
  assumes "list_all (bool_lookup b) is"
    and none: "\<And>c. Add_key b k c \<in> set is \<Longrightarrow> c = 0"
  shows "\<exists>n \<le> length is. sum_list (map (contribution b k) is) = of_nat n \<and>
           ((\<exists>c. c \<noteq> 0 \<and> Lookup_key b k c \<in> set is) \<longrightarrow> 0 < n)"
  using assms
proof (induction "is")
  case Nil
  then show ?case by simp
next
  case (Cons i "is")
  then have hd: "bool_lookup b i" and tl: "list_all (bool_lookup b) is" by simp_all
  from Cons.IH [OF tl] Cons.prems(2) obtain n where n: "n \<le> length is"
      "sum_list (map (contribution b k) is) = of_nat n"
      "(\<exists>c. c \<noteq> 0 \<and> Lookup_key b k c \<in> set is) \<longrightarrow> 0 < n"
    by auto
  have "contribution b k i = 0 \<or> contribution b k i = 1"
    using hd Cons.prems(2) by (cases i) auto
  then show ?case
  proof
    assume 0: "contribution b k i = 0"
    then have "i \<noteq> Lookup_key b k c" if "c \<noteq> 0" for c using that by auto
    with 0 n show ?thesis by (intro exI [of _ n]) auto
  next
    assume 1: "contribution b k i = 1"
    with n show ?thesis by (intro exI [of _ "Suc n"]) simp
  qed
qed

locale lookup_bus =
  fixes table :: "'f::field list \<Rightarrow> bool"
    and eval_interactions :: "'r \<Rightarrow> 'f interaction list"
    and valid_trace :: "'r list \<Rightarrow> bool"
    and bus :: nat
  assumes table_sound:
    "valid_trace rows \<Longrightarrow> r \<in> set rows \<Longrightarrow> Add_key bus k c \<in> set (eval_interactions r) \<Longrightarrow>
     c \<noteq> 0 \<Longrightarrow> table k"
begin

text \<open>
  A client of the bus: its interactions \<open>client\<close> add no key to the bus themselves.
\<close>

lemma lookup_served:
  assumes valid: "valid_trace rows"
    and bal: "bus_balanced bus (client @ concat (map eval_interactions rows))"
    and bool: "list_all (bool_lookup bus) (client @ concat (map eval_interactions rows))"
    and noadd: "\<And>k c. Add_key bus k c \<notin> set client"
    and small: "length (client @ concat (map eval_interactions rows)) < CHAR('f)"
    and mem: "Lookup_key bus k c \<in> set client" and act: "c \<noteq> 0"
  shows "table k"
proof (rule ccontr)
  assume not: "\<not> table k"
  let ?is = "client @ concat (map eval_interactions rows)"
  have none: "d = 0" if "Add_key bus k d \<in> set ?is" for d
    using that not noadd table_sound [OF valid] by fastforce
  obtain n where n: "n \<le> length ?is" "sum_list (map (contribution bus k) ?is) = of_nat n"
      "(\<exists>c. c \<noteq> 0 \<and> Lookup_key bus k c \<in> set ?is) \<longrightarrow> 0 < n"
    using sum_contribution_lookups [OF bool none] by blast
  have "of_nat n = (0 :: 'f)"
    using bal n(2) by (simp add: bus_balanced_def)
  moreover have "0 < n" using n(3) mem act by auto
  moreover have "n < CHAR('f)" using n(1) small by simp
  ultimately show False by (simp add: of_nat_eq_0_char)
qed

end

section \<open>The interface between a core and its adapter\<close>

text \<open>\<open>MinimalInstruction\<close>, \<open>ImmInstruction\<close> and \<open>SignedImmInstruction\<close> as one record.\<close>

record 'f minimal_instruction =
  is_valid :: 'f
  opcode :: 'f

record 'f imm_instruction = "'f minimal_instruction" +
  immediate :: 'f

record ('f, 'i) adapter_air_context =
  to_pc :: "'f option"
  reads :: "'f list list"
  writes :: "'f list list"
  instruction :: 'i

text \<open>\<open>VmCoreAir::expr_to_global_expr\<close>: local opcode plus the offset of the chip.\<close>

definition expr_to_global_expr :: "nat \<Rightarrow> 'f::field \<Rightarrow> 'f" where
  "expr_to_global_expr start_offset local_expr = of_nat start_offset + local_expr"

text \<open>A row of a core chip: the assertions, the interactions and the context it hands over.\<close>

type_synonym ('f, 'i) core_eval =
  "'f assertion list \<times> 'f interaction list \<times> ('f, 'i) adapter_air_context"

text \<open>
  \<open>accepts T e\<close>: the row satisfies its assertions and its active lookups find their keys in
  the tables \<open>T\<close>; \<open>core_ctx e\<close> is the context the row hands to the adapter.
\<close>

definition accepts :: "(nat \<Rightarrow> 'f list \<Rightarrow> bool) \<Rightarrow> ('f::field, 'i) core_eval \<Rightarrow> bool" where
  "accepts T e \<longleftrightarrow> all_satisfied (fst e) \<and> lookups_ok T (fst (snd e))"

abbreviation core_ctx :: "('f, 'i) core_eval \<Rightarrow> ('f, 'i) adapter_air_context" where
  "core_ctx e \<equiv> snd (snd e)"

subsection \<open>What a core chip promises\<close>

text \<open>
  A core chip implements a set of operations: \<open>ctx_of x\<close> is the context of the
  operation and operands \<open>x\<close>. Every valid row the AIR accepts carries such a context, the row
  the filler makes is accepted and carries it, and the context is determined by the operands and
  the instruction. \<open>wf\<close> is what the adapter guarantees about a row: the operands it read from
  memory are limbs in range.
\<close>

locale core_chip =
  fixes T :: "nat \<Rightarrow> 'f::field list \<Rightarrow> bool"
    and eval :: "'c \<Rightarrow> ('f, ('f, 'e) minimal_instruction_scheme) core_eval"
    and wf :: "'c \<Rightarrow> bool"
    and dom :: "'x \<Rightarrow> bool"
    and ctx_of :: "'x \<Rightarrow> ('f, ('f, 'e) minimal_instruction_scheme) adapter_air_context"
    and fill :: "'x \<Rightarrow> 'c"
  assumes sound:
      "wf cols \<Longrightarrow> accepts T (eval cols) \<Longrightarrow> is_valid (instruction (core_ctx (eval cols))) = 1 \<Longrightarrow>
       \<exists>x. dom x \<and> core_ctx (eval cols) = ctx_of x"
    and complete: "dom x \<Longrightarrow> accepts T (eval (fill x)) \<and> core_ctx (eval (fill x)) = ctx_of x"
    and ctx_functional:
      "dom x \<Longrightarrow> dom y \<Longrightarrow> reads (ctx_of x) = reads (ctx_of y) \<Longrightarrow>
       instruction (ctx_of x) = instruction (ctx_of y) \<Longrightarrow> ctx_of x = ctx_of y"
begin

text \<open>
  The columns of a row leave a prover no freedom: two accepted rows for the same instruction on
  the same operands write the same result.
\<close>

lemma deterministic:
  assumes "wf r" "accepts T (eval r)" "is_valid (instruction (core_ctx (eval r))) = 1"
    and "wf s" "accepts T (eval s)"
    and "reads (core_ctx (eval r)) = reads (core_ctx (eval s))"
    and "instruction (core_ctx (eval r)) = instruction (core_ctx (eval s))"
  shows "core_ctx (eval r) = core_ctx (eval s)"
proof -
  obtain x y where "dom x" "core_ctx (eval r) = ctx_of x" "dom y" "core_ctx (eval s) = ctx_of y"
    using sound [of r] sound [of s] assms by auto
  then show ?thesis using ctx_functional assms(6,7) by metis
qed

text \<open>Every accepted row agrees with the row the filler would have made.\<close>

lemma accepted_is_filled:
  assumes "wf r" "accepts T (eval r)" "is_valid (instruction (core_ctx (eval r))) = 1"
  shows "\<exists>x. dom x \<and> core_ctx (eval r) = core_ctx (eval (fill x))"
  using sound [OF assms] complete by metis

end

end
