(* ===== verification/Rv32_Opcodes.thy ===== *)
theory Rv32_Opcodes
  imports Air
begin

text \<open>
  The opcode enums of \<open>extensions/rv32im/transpiler/src/instructions.rs\<close> with their class
  offsets and discriminants, the \<open>LocalOpcode\<close> and \<open>VmOpcode\<close> conversions of
  \<open>crates/toolchain/instructions/src/lib.rs\<close>, the instruction word of
  \<open>instruction.rs\<close> and the address-space constants of \<open>riscv.rs\<close>.
\<close>

section \<open>Constants of \<open>riscv.rs\<close> and \<open>program.rs\<close>\<close>

definition RV32_REGISTER_NUM_LIMBS :: nat where "RV32_REGISTER_NUM_LIMBS = 4"
definition RV32_CELL_BITS :: nat where "RV32_CELL_BITS = 8"
definition RV32_IMM_AS :: nat where "RV32_IMM_AS = 0"
definition RV32_REGISTER_AS :: nat where "RV32_REGISTER_AS = 1"
definition RV32_MEMORY_AS :: nat where "RV32_MEMORY_AS = 2"
definition DEFAULT_PC_STEP :: nat where "DEFAULT_PC_STEP = 4"

lemmas rv32_consts = RV32_REGISTER_NUM_LIMBS_def RV32_CELL_BITS_def RV32_IMM_AS_def
  RV32_REGISTER_AS_def RV32_MEMORY_AS_def DEFAULT_PC_STEP_def

section \<open>Opcode enums\<close>

datatype BaseAluOpcode = Alu_ADD | Alu_SUB | Alu_XOR | Alu_OR | Alu_AND
datatype ShiftOpcode = SLL | SRL | SRA
datatype LessThanOpcode = SLT | SLTU
datatype Rv32LoadStoreOpcode =
  LOADW | LOADBU | LOADHU | STOREW | STOREH | STOREB | LOADB | LOADH
datatype BranchEqualOpcode = BEQ | BNE
datatype BranchLessThanOpcode = BLT | BLTU | BGE | BGEU
datatype Rv32JalLuiOpcode = JAL | LUI
datatype Rv32JalrOpcode = JALR
datatype Rv32AuipcOpcode = AUIPC
datatype MulOpcode = MUL
datatype MulHOpcode = MULH | MULHSU | MULHU
datatype DivRemOpcode = DIV | DIVU | REM | REMU

text \<open>
  \<open>EnumIter\<close> lists the variants in the order of their discriminants; \<open>from_usize\<close> of the
  derive macro is \<open>from_repr\<close> and panics on any other value, here \<open>None\<close>.
\<close>

definition from_repr :: "'o list \<Rightarrow> nat \<Rightarrow> 'o option" where
  "from_repr variants v = (if v < length variants then Some (variants ! v) else None)"

fun repr_of :: "'o list \<Rightarrow> 'o \<Rightarrow> nat" where
  "repr_of [] x = 0"
| "repr_of (v # vs) x = (if v = x then 0 else Suc (repr_of vs x))"

lemma repr_of_nth: "distinct vs \<Longrightarrow> i < length vs \<Longrightarrow> repr_of vs (vs ! i) = i"
proof (induction vs arbitrary: i)
  case (Cons v vs)
  then show ?case by (cases i) auto
qed simp

lemma repr_of_bound: "x \<in> set vs \<Longrightarrow> repr_of vs x < length vs \<and> vs ! repr_of vs x = x"
  by (induction vs) auto

lemma from_repr_repr_of: "x \<in> set vs \<Longrightarrow> from_repr vs (repr_of vs x) = Some x"
  using repr_of_bound [of x vs] by (simp add: from_repr_def)

text \<open>Opcodes of one class have different field elements.\<close>

lemma opcode_inject:
  assumes eq: "(of_nat (off + repr_of vs x) :: 'f::ring_1) = of_nat (off + repr_of vs y)"
    and mem: "x \<in> set vs" "y \<in> set vs" and off: "off + length vs \<le> CHAR('f)"
  shows "x = y"
proof -
  have "repr_of vs x < length vs" "repr_of vs y < length vs" using repr_of_bound mem by fast+
  then have "off + repr_of vs x < CHAR('f)" "off + repr_of vs y < CHAR('f)" using off by linarith+
  then have "off + repr_of vs x = off + repr_of vs y" using eq by (simp only: of_nat_eq_iff_char)
  then have "repr_of vs x = repr_of vs y" by simp
  then show ?thesis using repr_of_bound [OF mem(1)] repr_of_bound [OF mem(2)] by metis
qed

definition alu_opcodes :: "BaseAluOpcode list" where
  "alu_opcodes = [Alu_ADD, Alu_SUB, Alu_XOR, Alu_OR, Alu_AND]"
definition shift_opcodes :: "ShiftOpcode list" where
  "shift_opcodes = [SLL, SRL, SRA]"
definition less_than_opcodes :: "LessThanOpcode list" where
  "less_than_opcodes = [SLT, SLTU]"
definition load_store_opcodes :: "Rv32LoadStoreOpcode list" where
  "load_store_opcodes = [LOADW, LOADBU, LOADHU, STOREW, STOREH, STOREB, LOADB, LOADH]"
definition branch_equal_opcodes :: "BranchEqualOpcode list" where
  "branch_equal_opcodes = [BEQ, BNE]"
definition branch_less_than_opcodes :: "BranchLessThanOpcode list" where
  "branch_less_than_opcodes = [BLT, BLTU, BGE, BGEU]"
definition jal_lui_opcodes :: "Rv32JalLuiOpcode list" where
  "jal_lui_opcodes = [JAL, LUI]"
definition mulh_opcodes :: "MulHOpcode list" where
  "mulh_opcodes = [MULH, MULHSU, MULHU]"
definition divrem_opcodes :: "DivRemOpcode list" where
  "divrem_opcodes = [DIV, DIVU, REM, REMU]"

lemmas opcode_lists = alu_opcodes_def shift_opcodes_def less_than_opcodes_def
  load_store_opcodes_def branch_equal_opcodes_def branch_less_than_opcodes_def
  jal_lui_opcodes_def mulh_opcodes_def divrem_opcodes_def

text \<open>\<open>CLASS_OFFSET\<close> of each enum.\<close>

definition alu_offset :: nat where "alu_offset = 0x200"
definition shift_offset :: nat where "shift_offset = 0x205"
definition less_than_offset :: nat where "less_than_offset = 0x208"
definition load_store_offset :: nat where "load_store_offset = 0x210"
definition branch_equal_offset :: nat where "branch_equal_offset = 0x220"
definition branch_less_than_offset :: nat where "branch_less_than_offset = 0x225"
definition jal_lui_offset :: nat where "jal_lui_offset = 0x230"
definition jalr_offset :: nat where "jalr_offset = 0x235"
definition auipc_offset :: nat where "auipc_offset = 0x240"
definition mul_offset :: nat where "mul_offset = 0x250"
definition mulh_offset :: nat where "mulh_offset = 0x251"
definition divrem_offset :: nat where "divrem_offset = 0x254"

lemmas opcode_offsets = alu_offset_def shift_offset_def less_than_offset_def
  load_store_offset_def branch_equal_offset_def branch_less_than_offset_def jal_lui_offset_def
  jalr_offset_def auipc_offset_def mul_offset_def mulh_offset_def divrem_offset_def

text \<open>\<open>local_opcode_idx\<close> subtracts the offset (\<open>usize\<close>, so it wraps below it).\<close>

definition local_opcode_idx :: "nat \<Rightarrow> nat \<Rightarrow> nat" where
  "local_opcode_idx opc offset = wsub 64 opc offset"

text \<open>
  The opcode expression of a core AIR: \<open>flags.iter().zip(Opcode::iter()).fold(...)\<close>, a sum of
  each flag times the discriminant of its variant.
\<close>

definition expected_opcode :: "'f::field list \<Rightarrow> 'o list \<Rightarrow> 'f" where
  "expected_opcode flags variants =
     fold (\<lambda>(flag, i) acc. acc + flag * of_nat i) (zip flags [0..<length variants]) 0"

lemma fold_add_eq_sum:
  "fold (\<lambda>x acc. acc + g x) xs (s :: 'f::field) = s + sum_list (map g xs)"
  by (induction xs arbitrary: s) (simp_all add: algebra_simps)

lemma expected_opcode_one_hot:
  fixes flags :: "'f::field list"
  assumes "length flags = length variants" "j < length flags" "flags ! j = 1"
    and "\<And>i. i < length flags \<Longrightarrow> i \<noteq> j \<Longrightarrow> flags ! i = 0"
  shows "expected_opcode flags variants = of_nat j"
proof -
  have "expected_opcode flags variants =
      (\<Sum>(flag, i)\<leftarrow>zip flags [0..<length variants]. flag * of_nat i)"
    unfolding expected_opcode_def
    using fold_add_eq_sum [of "\<lambda>(flag :: 'f, i). flag * of_nat i"] by (simp add: case_prod_unfold)
  also have "\<dots> = (\<Sum>i<length flags. flags ! i * of_nat i)"
    using assms(1) by (simp add: sum_list_sum_nth atLeast0LessThan)
  also have "\<dots> = (\<Sum>i<length flags. if i = j then of_nat j else 0)"
    using assms(3,4) by (intro sum.cong) auto
  finally show ?thesis using assms(2) by simp
qed

text \<open>
  Boolean flags with sum 1 select one opcode. \<open>opcode_flags vs op\<close> are the flags a filler
  writes for \<open>op\<close>.
\<close>

definition opcode_flags :: "'o list \<Rightarrow> 'o \<Rightarrow> 'f::field list" where
  "opcode_flags vs op = map (\<lambda>v. from_bool (op = v)) vs"

lemma flags_select:
  fixes fs :: "'f::field list"
  assumes "length fs = length vs" "distinct vs" "\<And>x. x \<in> set fs \<Longrightarrow> x = 0 \<or> x = 1"
    and "fold (\<lambda>flag acc. acc + flag) fs 0 = 1" "length vs < CHAR('f)" "1 < CHAR('f)"
  obtains op where "op \<in> set vs" "fs = opcode_flags vs op"
proof -
  have sum: "sum_list fs = 1" using assms(4) fold_add_eq_sum [of "\<lambda>x. x" fs 0] by simp
  have bool: "fs ! i = 0 \<or> fs ! i = 1" if "i < length fs" for i
    using assms(3) that by (simp add: nth_mem)
  obtain j where j: "j < length fs" "fs ! j = 1" "\<And>i. i < length fs \<Longrightarrow> i \<noteq> j \<Longrightarrow> fs ! i = 0"
    using one_hot_flags [OF bool sum] assms(1,5,6) by auto
  show ?thesis
  proof (rule that [of "vs ! j"])
    show "fs = opcode_flags vs (vs ! j)"
      by (rule nth_equalityI)
        (use j assms(1,2) in \<open>auto simp: opcode_flags_def from_bool_def nth_eq_iff_index_eq\<close>)
  qed (use j assms(1) in auto)
qed

lemma expected_opcode_flags:
  assumes "distinct vs" "op \<in> set vs"
  shows "expected_opcode (opcode_flags vs op) vs = (of_nat (repr_of vs op) :: 'f::field)"
proof (rule expected_opcode_one_hot)
  note r = repr_of_bound [OF assms(2)]
  show "repr_of vs op < length (opcode_flags vs op :: 'f list)" using r by (simp add: opcode_flags_def)
  show "opcode_flags vs op ! repr_of vs op = (1 :: 'f)" using r by (simp add: opcode_flags_def)
  show "opcode_flags vs op ! i = (0 :: 'f)"
    if "i < length (opcode_flags vs op :: 'f list)" "i \<noteq> repr_of vs op" for i
    using that repr_of_nth [OF assms(1), of i] by (auto simp: opcode_flags_def from_bool_def)
qed (simp add: opcode_flags_def)

section \<open>Instructions\<close>

text \<open>\<open>Instruction<F>\<close>: the global opcode and seven operands.\<close>

record 'f instr =
  i_opcode :: nat
  i_a :: 'f
  i_b :: 'f
  i_c :: 'f
  i_d :: 'f
  i_e :: 'f
  i_f :: 'f
  i_g :: 'f

end
