(* ===== verification/Lookup_Chips.thy ===== *)
theory Lookup_Chips
  imports Air Baby_Bear
begin

unbundle bit_operations_syntax

text \<open>
  The three table chips of \<open>crates/circuits/primitives/src\<close> that every instruction chip relies
  on: \<open>bitwise_op_lookup\<close> (range checks of a pair and XOR), \<open>var_range\<close> (range checks of
  a variable number of bits) and \<open>range_tuple\<close> (range checks of a tuple). For each: the bus,
  the AIR, the counters of the chip with the requests that bump them, and the trace it
  generates. The theorems: a trace that satisfies the AIR serves only keys of the table, and the
  generated trace satisfies the AIR and balances exactly the requests that were made.
\<close>

section \<open>Helpers of \<open>utils.rs\<close>\<close>

definition not_f :: "'f::field \<Rightarrow> 'f" where [air_defs]:
  "not_f a = 1 - a"

definition select :: "'f::field \<Rightarrow> 'f \<Rightarrow> 'f \<Rightarrow> 'f" where [air_defs]:
  "select c a b = c * a + (1 - c) * b"

text \<open>\<open>compose\<close>: limbs of \<open>limb_size\<close> bits into one field element.\<close>

definition compose :: "'f::field list \<Rightarrow> nat \<Rightarrow> 'f" where
  "compose a limb_size =
     fold (\<lambda>(i, x) acc. acc + x * of_nat (2 ^ (i * limb_size))) (enumerate 0 a) 0"

lemma fold_enumerate_add:
  "fold (\<lambda>(i, x) acc. acc + f i x) (enumerate m xs) (s :: 'f::field) =
   s + (\<Sum>i<length xs. f (m + i) (xs ! i))"
proof (induction xs arbitrary: m s)
  case Nil
  then show ?case by simp
next
  case (Cons x xs)
  then show ?case
    by (simp add: sum.lessThan_Suc_shift add.assoc del: sum.lessThan_Suc)
qed

lemma compose_sum: "compose a k = (\<Sum>i<length a. a ! i * of_nat (2 ^ (i * k)))"
  unfolding compose_def using fold_enumerate_add [of "\<lambda>i x. x * of_nat (2 ^ (i * k))" 0 a 0]
  by simp

lemma compose_fels: "compose (fels xs) k = of_nat (limbs_val k xs)"
  by (simp add: compose_sum limbs_val_sum mult.commute)

section \<open>Counters\<close>

text \<open>
  A vector of \<open>AtomicU32\<close> counters; \<open>bump\<close> is \<open>fetch_add(1)\<close>, which wraps, and the
  index is checked (out of range the code panics, here \<open>None\<close>).
\<close>

definition bump :: "nat list \<Rightarrow> nat \<Rightarrow> nat list option" where
  "bump cs i = (if i < length cs then Some (cs[i := wadd 32 (cs ! i) 1]) else None)"

fun bumps :: "nat list \<Rightarrow> nat list \<Rightarrow> nat list option" where
  "bumps cs [] = Some cs"
| "bumps cs (i # is) = Option.bind (bump cs i) (\<lambda>cs'. bumps cs' is)"

lemma bumps_counts:
  assumes "list_all (\<lambda>i. i < length cs) is"
    and "\<And>i. i < length cs \<Longrightarrow> cs ! i + length is < 2 ^ 32"
  shows "bumps cs is = Some (map (\<lambda>i. cs ! i + count_list is i) [0..<length cs])"
  using assms
proof (induction "is" arbitrary: cs)
  case Nil
  then show ?case by (simp add: map_nth)
next
  case (Cons i "is")
  let ?cs = "cs[i := wadd 32 (cs ! i) 1]"
  from Cons.prems have i: "i < length cs" by simp
  have small: "cs ! j + Suc (length is) < 2 ^ 32" if "j < length cs" for j
    using Cons.prems(2) [OF that] by simp
  have w: "wadd 32 (cs ! i) 1 = cs ! i + 1"
    using small [OF i] by (simp add: wadd_small)
  have nth: "?cs ! j = (if j = i then cs ! i + 1 else cs ! j)" if "j < length cs" for j
    using that by (simp add: nth_list_update w [simplified])
  have bnd: "?cs ! j + length is < 2 ^ 32" if "j < length ?cs" for j
  proof -
    have j: "j < length cs" using that by simp
    show ?thesis using small [OF j] nth [OF j] i by (cases "j = i") simp_all
  qed
  have "bumps ?cs is = Some (map (\<lambda>j. ?cs ! j + count_list is j) [0..<length ?cs])"
  proof (rule Cons.IH)
    show "list_all (\<lambda>i. i < length ?cs) is" using Cons.prems(1) by simp
  qed (rule bnd)
  then show ?case using i
    by (auto simp: bump_def nth_list_update w [simplified] intro!: map_cong)
qed

text \<open>Requests for the keys \<open>f i\<close> balance a table that adds \<open>f i\<close> as often as asked.\<close>

lemma sum_requests_eq_counts:
  assumes "list_all (\<lambda>i. i < N) is"
  shows "(\<Sum>i\<leftarrow>is. if k = f i then 1 else 0 :: 'f::field) =
         (\<Sum>i\<leftarrow>[0..<N]. if k = f i then of_nat (count_list is i) else 0)"
  using assms
proof (induction "is")
  case Nil
  have "(\<Sum>i\<leftarrow>[0..<N]. if k = f i then of_nat (count_list [] i) else 0 :: 'f) = 0"
    by (induction N) auto
  then show ?case by simp
next
  case (Cons j "is")
  then have j: "j < N" by simp
  have single: "(\<Sum>i\<leftarrow>[0..<N]. if k = f i \<and> i = j then 1 else 0 :: 'f) = (if k = f j then 1 else 0)"
  proof -
    have "(\<lambda>i. if k = f i \<and> i = j then 1 else 0 :: 'f) =
        (\<lambda>i. if i = j then (if k = f j then 1 else 0) else 0)"
      by auto
    then show ?thesis using j by (simp add: interv_sum_list_conv_sum_set_nat)
  qed
  have "(\<Sum>i\<leftarrow>[0..<N]. if k = f i then of_nat (count_list (j # is) i) else 0 :: 'f) =
      (\<Sum>i\<leftarrow>[0..<N]. (if k = f i \<and> i = j then 1 else 0) +
                         (if k = f i then of_nat (count_list is i) else 0))"
    by (rule arg_cong [where f = sum_list]) (auto intro!: map_cong)
  also have "\<dots> = (if k = f j then 1 else 0) +
      (\<Sum>i\<leftarrow>[0..<N]. if k = f i then of_nat (count_list is i) else 0)"
    by (simp add: sum_list_addf single)
  finally show ?case using Cons by simp
qed

lemma sum_list_concat_map: "sum_list (map g (concat (map f xs))) = (\<Sum>x\<leftarrow>xs. sum_list (map g (f x)))"
  for g :: "'b \<Rightarrow> 'c::comm_monoid_add"
  by (induction xs) simp_all

lemma counted_table_balance:
  fixes reqs :: "'f::field interaction list"
  assumes bnd: "list_all (\<lambda>i. i < N) is"
    and key: "\<And>i. i < N \<Longrightarrow> ev i = [Add_key b (key i) (of_nat (count_list is i))]"
    and req: "\<And>k. sum_list (map (contribution b k) reqs) = (\<Sum>i\<leftarrow>is. if k = key i then 1 else 0)"
  shows "bus_balanced b (reqs @ concat (map ev [0..<N]))"
  unfolding bus_balanced_def
proof
  fix k :: "'f list"
  have "sum_list (map (contribution b k) (concat (map ev [0..<N]))) =
      (\<Sum>i\<leftarrow>[0..<N]. - (if k = key i then of_nat (count_list is i) else 0))"
    unfolding sum_list_concat_map by (rule arg_cong [where f = sum_list], rule map_cong) (simp_all add: key)
  also have "\<dots> = - (\<Sum>i\<leftarrow>[0..<N]. if k = key i then of_nat (count_list is i) else 0)"
    by (simp add: uminus_sum_list_map comp_def)
  finally show "sum_list (map (contribution b k) (reqs @ concat (map ev [0..<N]))) = 0"
    by (simp add: req sum_requests_eq_counts [OF bnd])
qed


section \<open>\<open>bitwise_op_lookup\<close>\<close>

subsection \<open>The bus\<close>

definition bitwise_push :: "nat \<Rightarrow> 'f::field \<Rightarrow> 'f \<Rightarrow> 'f \<Rightarrow> 'f \<Rightarrow> bool \<Rightarrow> 'f \<Rightarrow> 'f interaction" where
  [air_defs]: "bitwise_push b x y z op is_lookup count =
     (if is_lookup then Lookup_key b [x, y, z, op] count else Add_key b [x, y, z, op] count)"

definition send_range :: "nat \<Rightarrow> 'f::field \<Rightarrow> 'f \<Rightarrow> 'f \<Rightarrow> 'f interaction" where [air_defs]:
  "send_range b x y count = bitwise_push b x y 0 0 True count"

definition send_xor :: "nat \<Rightarrow> 'f::field \<Rightarrow> 'f \<Rightarrow> 'f \<Rightarrow> 'f \<Rightarrow> 'f interaction" where [air_defs]:
  "send_xor b x y z count = bitwise_push b x y z 1 True count"

definition bitwise_receive :: "nat \<Rightarrow> 'f::field \<Rightarrow> 'f \<Rightarrow> 'f \<Rightarrow> 'f \<Rightarrow> 'f \<Rightarrow> 'f interaction" where
  [air_defs]: "bitwise_receive b x y z op count = bitwise_push b x y z op False count"

text \<open>The table the chip serves: what a successful lookup tells its client.\<close>

definition bitwise_table :: "nat \<Rightarrow> 'f::field list \<Rightarrow> bool" where
  "bitwise_table nb k \<longleftrightarrow> (\<exists>x < 2 ^ nb. \<exists>y < 2 ^ nb.
     k = [of_nat x, of_nat y, 0, 0] \<or> k = [of_nat x, of_nat y, of_nat (x XOR y), 1])"

lemma bitwise_table_range:
  "bitwise_table nb [u, v, 0, 0] \<longleftrightarrow> (\<exists>x < 2 ^ nb. \<exists>y < 2 ^ nb. u = of_nat x \<and> v = of_nat y)"
  by (auto simp: bitwise_table_def)

lemma bitwise_table_xor:
  "bitwise_table nb [u, v, w, 1] \<longleftrightarrow>
   (\<exists>x < 2 ^ nb. \<exists>y < 2 ^ nb. u = of_nat x \<and> v = of_nat y \<and> w = of_nat (x XOR y))"
  by (auto simp: bitwise_table_def)

subsection \<open>The AIR\<close>

record 'f bitwise_cols =
  x_bits :: "'f list"
  y_bits :: "'f list"
  mult_range :: 'f
  mult_xor :: 'f

definition reconstruct :: "'f::field list \<Rightarrow> 'f" where
  "reconstruct bits = fold (\<lambda>(i, b) acc. acc + b * of_nat (2 ^ i)) (enumerate 0 bits) 0"

definition z_xor_reconstructed :: "'f::field list \<Rightarrow> 'f list \<Rightarrow> 'f" where
  "z_xor_reconstructed xs ys =
     fold (\<lambda>(i, xb, yb) acc. acc + (xb + yb - 2 * xb * yb) * of_nat (2 ^ i))
       (enumerate 0 (zip xs ys)) 0"

definition bitwise_eval ::
  "nat \<Rightarrow> nat \<Rightarrow> 'f::field bitwise_cols \<Rightarrow> 'f bitwise_cols \<Rightarrow>
   'f row_assertion list \<times> 'f interaction list" where
  "bitwise_eval num_bits b loc nxt =
     (let x = reconstruct (x_bits loc);
          y = reconstruct (y_bits loc);
          z = z_xor_reconstructed (x_bits loc) (y_bits loc);
          combined_idx = x * of_nat (2 ^ num_bits) + y;
          next_combined_idx =
            reconstruct (x_bits nxt) * of_nat (2 ^ num_bits) + reconstruct (y_bits nxt)
      in (concat (map (\<lambda>i. [Every_row (assert_bool (x_bits loc ! i)),
                             Every_row (assert_bool (y_bits loc ! i))]) [0..<num_bits]) @
          [Transition (assert_one (next_combined_idx - combined_idx)),
           First_row (assert_zero combined_idx),
           Last_row (assert_eq combined_idx (of_nat (2 ^ (2 * num_bits) - 1)))],
          [bitwise_receive b x y 0 0 (mult_range loc),
           bitwise_receive b x y z 1 (mult_xor loc)]))"

subsection \<open>The chip\<close>

record bitwise_chip =
  count_range :: "nat list"
  count_xor :: "nat list"

text \<open>
  \<open>num_rows\<close> of the constructor is an \<open>i32\<close>, which wraps around; the range up to a negative number is
  empty.
\<close>

definition bitwise_new :: "nat \<Rightarrow> bitwise_chip" where
  "bitwise_new num_bits =
     (let num_rows = nat (i32_val (wmul 32 (shl_rel 32 1 num_bits) (shl_rel 32 1 num_bits)))
      in \<lparr>count_range = replicate num_rows 0, count_xor = replicate num_rows 0\<rparr>)"

definition bitwise_idx :: "nat \<Rightarrow> nat \<Rightarrow> nat \<Rightarrow> nat" where
  "bitwise_idx num_bits x y = wadd 32 (wmul 32 x (shl_rel 32 1 num_bits)) y"

definition request_range :: "nat \<Rightarrow> bitwise_chip \<Rightarrow> nat \<Rightarrow> nat \<Rightarrow> bitwise_chip option" where
  "request_range num_bits ch x y =
     map_option (\<lambda>cs. ch\<lparr>count_range := cs\<rparr>) (bump (count_range ch) (bitwise_idx num_bits x y))"

definition request_xor :: "nat \<Rightarrow> bitwise_chip \<Rightarrow> nat \<Rightarrow> nat \<Rightarrow> (bitwise_chip \<times> nat) option" where
  "request_xor num_bits ch x y =
     map_option (\<lambda>cs. (ch\<lparr>count_xor := cs\<rparr>, x XOR y))
       (bump (count_xor ch) (bitwise_idx num_bits x y))"

definition bitwise_clear :: "bitwise_chip \<Rightarrow> bitwise_chip" where
  "bitwise_clear ch =
     \<lparr>count_range = map (\<lambda>_. 0) (count_range ch), count_xor = map (\<lambda>_. 0) (count_xor ch)\<rparr>"

definition bitwise_row :: "nat \<Rightarrow> bitwise_chip \<Rightarrow> nat \<Rightarrow> 'f::field bitwise_cols" where
  "bitwise_row num_bits ch n =
     (let x = n div 2 ^ num_bits; y = n mod 2 ^ num_bits in
      \<lparr>x_bits = map (\<lambda>i. of_nat (wshr x i AND 1)) [0..<num_bits],
       y_bits = map (\<lambda>i. of_nat (wshr y i AND 1)) [0..<num_bits],
       mult_range = of_nat (count_range ch ! n),
       mult_xor = of_nat (count_xor ch ! n)\<rparr>)"

definition bitwise_generate_trace ::
  "nat \<Rightarrow> bitwise_chip \<Rightarrow> 'f::field bitwise_cols list \<times> bitwise_chip" where
  "bitwise_generate_trace num_bits ch =
     (map (bitwise_row num_bits ch) [0..<2 ^ num_bits * 2 ^ num_bits], bitwise_clear ch)"


subsection \<open>Soundness of the AIR\<close>

lemma reconstruct_compose: "reconstruct bits = compose bits 1"
  by (simp add: reconstruct_def compose_def)

lemma reconstruct_fels: "reconstruct (fels ns) = of_nat (limbs_val 1 ns)"
  by (simp add: reconstruct_compose compose_fels)

lemma xor_bit_field:
  "x < 2 \<Longrightarrow> y < 2 \<Longrightarrow>
   of_nat x + of_nat y - 2 * of_nat x * of_nat y = (of_nat (x XOR y) :: 'f::field)" for x y :: nat
  by (auto simp: less_2_cases_iff)

lemma z_xor_reconstructed_fels:
  assumes "limbs_ok 1 xs" "limbs_ok 1 ys" "length xs = length ys"
  shows "z_xor_reconstructed (fels xs) (fels ys) =
         (of_nat (limbs_val 1 xs XOR limbs_val 1 ys) :: 'f::field)"
proof -
  have "z_xor_reconstructed (fels xs) (fels ys) =
      (\<Sum>i<length xs. of_nat (map2 (XOR) xs ys ! i) * of_nat (2 ^ i) :: 'f)"
    unfolding z_xor_reconstructed_def
    using fold_enumerate_add [of "\<lambda>i (xb, yb). (xb + yb - 2 * xb * yb) * of_nat (2 ^ i)" 0
        "zip (fels xs) (fels ys)" "0 :: 'f"] assms
    by (auto simp: case_prod_unfold list_all_length xor_bit_field intro!: sum.cong)
  also have "\<dots> = compose (fels (map2 (XOR) xs ys)) 1"
    using assms by (simp add: compose_sum)
  also have "\<dots> = of_nat (limbs_val 1 xs XOR limbs_val 1 ys)"
    by (simp only: compose_fels limbs_val_xor [OF assms(3,1,2)])
  finally show ?thesis .
qed

definition bitwise_shape :: "nat \<Rightarrow> 'f bitwise_cols \<Rightarrow> bool" where
  "bitwise_shape num_bits r \<longleftrightarrow> length (x_bits r) = num_bits \<and> length (y_bits r) = num_bits"

definition bitwise_valid :: "nat \<Rightarrow> nat \<Rightarrow> 'f::field bitwise_cols list \<Rightarrow> bool" where
  "bitwise_valid num_bits b rows \<longleftrightarrow> list_all (bitwise_shape num_bits) rows \<and>
     trace_satisfied (\<lambda>l n. fst (bitwise_eval num_bits b l n)) rows"

lemma bitwise_row_sound:
  fixes r :: "'f::field bitwise_cols"
  assumes shape: "bitwise_shape num_bits r"
    and bits: "\<And>i. i < num_bits \<Longrightarrow> (x_bits r ! i = 0 \<or> x_bits r ! i = 1) \<and>
                                     (y_bits r ! i = 0 \<or> y_bits r ! i = 1)"
    and mem: "Add_key b k c \<in> set (snd (bitwise_eval num_bits b r r))"
  shows "bitwise_table num_bits k"
proof -
  have len: "length (x_bits r) = num_bits" "length (y_bits r) = num_bits"
    using shape by (simp_all add: bitwise_shape_def)
  obtain xs where xs: "x_bits r = fels xs" "limbs_ok 1 xs" "length xs = num_bits"
    using bool_list_fels [of "x_bits r"] bits len(1) by metis
  obtain ys where ys: "y_bits r = fels ys" "limbs_ok 1 ys" "length ys = num_bits"
    using bool_list_fels [of "y_bits r"] bits len(2) by metis
  have "limbs_val 1 xs < 2 ^ num_bits" "limbs_val 1 ys < 2 ^ num_bits"
    using limbs_val_bound [OF xs(2)] limbs_val_bound [OF ys(2)] xs(3) ys(3) by simp_all
  moreover have "k = [of_nat (limbs_val 1 xs), of_nat (limbs_val 1 ys), 0, 0] \<or>
      k = [of_nat (limbs_val 1 xs), of_nat (limbs_val 1 ys),
           of_nat (limbs_val 1 xs XOR limbs_val 1 ys), 1]"
    using mem z_xor_reconstructed_fels [of xs ys, where 'f = 'f] xs ys
    by (auto simp: bitwise_eval_def Let_def air_defs reconstruct_fels)
  ultimately show ?thesis unfolding bitwise_table_def by blast
qed

lemma bitwise_valid_bits:
  assumes "bitwise_valid num_bits b rows" "r \<in> set rows" "i < num_bits"
  shows "(x_bits r ! i = 0 \<or> x_bits r ! i = 1) \<and> (y_bits r ! i = 0 \<or> y_bits r ! i = 1)"
proof -
  from assms(2) obtain j where "j < length rows" "rows ! j = r" by (auto simp: in_set_conv_nth)
  with assms(1,3) show ?thesis
    by (fastforce simp: bitwise_valid_def trace_satisfied_def bitwise_eval_def Let_def list_all_iff)
qed

interpretation bitwise: lookup_bus
  "bitwise_table num_bits" "\<lambda>r. snd (bitwise_eval num_bits b r r)" "bitwise_valid num_bits b" b
  for num_bits b
proof
  fix rows :: "'a bitwise_cols list" and r k c
  assume "bitwise_valid num_bits b rows" "r \<in> set rows"
    "Add_key b k c \<in> set (snd (bitwise_eval num_bits b r r))"
  then show "bitwise_table num_bits k"
    by (intro bitwise_row_sound bitwise_valid_bits) (auto simp: bitwise_valid_def list_all_iff)
qed


subsection \<open>The generated trace\<close>

lemma bit_digit: "wshr x i AND 1 = x div 2 ^ i mod 2" for x :: nat
  by (simp add: wshr_def and_one_eq)

lemma bits_to_limbs: "map (\<lambda>i. of_nat (wshr x i AND 1)) [0..<n] = fels (to_limbs 1 n x)"
  by (rule nth_equalityI) (simp_all add: bit_digit nth_to_limbs del: and_one_eq One_nat_def)

lemma bitwise_row_reconstruct:
  assumes "x < 2 ^ num_bits"
  shows "reconstruct (map (\<lambda>i. of_nat (wshr x i AND 1)) [0..<num_bits]) = (of_nat x :: 'f::field)"
  using assms by (simp only: bits_to_limbs reconstruct_fels limbs_val_to_limbs) simp

lemma bitwise_row_xor:
  assumes "x < 2 ^ num_bits" "y < 2 ^ num_bits"
  shows "z_xor_reconstructed (map (\<lambda>i. of_nat (wshr x i AND 1)) [0..<num_bits])
           (map (\<lambda>i. of_nat (wshr y i AND 1)) [0..<num_bits]) = (of_nat (x XOR y) :: 'f::field)"
  using assms
  by (simp only: bits_to_limbs z_xor_reconstructed_fels limbs_ok_to_limbs length_to_limbs
      limbs_val_to_limbs) simp

lemma bitwise_combined_idx:
  assumes "n < 2 ^ num_bits * 2 ^ num_bits"
  shows "reconstruct (x_bits (bitwise_row num_bits ch n)) * of_nat (2 ^ num_bits) +
         reconstruct (y_bits (bitwise_row num_bits ch n)) = (of_nat n :: 'f::field)"
proof -
  have "n div 2 ^ num_bits < 2 ^ num_bits" using assms by (simp add: less_mult_imp_div_less)
  then have "reconstruct (x_bits (bitwise_row num_bits ch n)) = (of_nat (n div 2 ^ num_bits) :: 'f)"
    "reconstruct (y_bits (bitwise_row num_bits ch n)) = (of_nat (n mod 2 ^ num_bits) :: 'f)"
    by (simp_all only: bitwise_row_def Let_def bitwise_cols.select_convs bitwise_row_reconstruct
        mod_less_divisor zero_less_power zero_less_numeral)
  then show ?thesis by (metis div_mult_mod_eq of_nat_add of_nat_mult)
qed

lemma bitwise_trace_valid:
  "bitwise_valid num_bits b (fst (bitwise_generate_trace num_bits ch) :: 'f::field bitwise_cols list)"
proof -
  let ?N = "2 ^ num_bits * 2 ^ num_bits :: nat"
  let ?row = "bitwise_row num_bits ch :: nat \<Rightarrow> 'f bitwise_cols"
  have shape: "bitwise_shape num_bits (?row n)" for n
    by (simp add: bitwise_shape_def bitwise_row_def Let_def)
  have bits: "satisfied (assert_bool (x_bits (?row n) ! i))" "satisfied (assert_bool (y_bits (?row n) ! i))"
    if "i < num_bits" for n i
    using that by (auto simp: bitwise_row_def Let_def mod2_eq_if)
  have "list_all (satisfied_at ?N n) (fst (bitwise_eval num_bits b (?row n) (?row (Suc n mod ?N))))"
    if n: "n < ?N" for n
  proof -
    note c = bitwise_combined_idx [OF n, of ch, where 'f = 'f]
    have tr: "reconstruct (x_bits (?row (Suc n mod ?N))) * of_nat (2 ^ num_bits) +
        reconstruct (y_bits (?row (Suc n mod ?N))) = of_nat (Suc n)" if "Suc n \<noteq> ?N"
      using that n by (subst bitwise_combined_idx) simp_all
    have "list_all (satisfied_at ?N n)
        (concat (map (\<lambda>i. [Every_row (assert_bool (x_bits (?row n) ! i)),
                             Every_row (assert_bool (y_bits (?row n) ! i))]) [0..<num_bits]))"
      using bits by (simp add: list_all_iff)
    moreover have "satisfied_at ?N n (Transition (assert_one
        (reconstruct (x_bits (?row (Suc n mod ?N))) * of_nat (2 ^ num_bits) +
         reconstruct (y_bits (?row (Suc n mod ?N))) - of_nat n)))"
      using tr by (cases "Suc n = ?N") simp_all
    moreover have "satisfied_at ?N n (First_row (assert_zero (of_nat n :: 'f)))"
      by (cases n) simp_all
    moreover have "satisfied_at ?N n (Last_row (assert_eq (of_nat n :: 'f) (of_nat (2 ^ (2 * num_bits) - 1))))"
    proof (cases "Suc n = ?N")
      case True
      then have "n = 2 ^ (2 * num_bits) - 1" by (simp add: power_add mult_2)
      then show ?thesis by simp
    qed simp
    ultimately show ?thesis
      unfolding bitwise_eval_def Let_def c fst_conv
      by (simp only: list_all_append list.pred_inject)
  qed
  then show ?thesis
    using shape by (simp add: bitwise_valid_def bitwise_generate_trace_def trace_satisfied_def list_all_iff)
qed


subsection \<open>Requests and the balance of the bus\<close>

text \<open>The calls the trace fillers make on the shared table chips, as values.\<close>

datatype lookup_request =
    Request_range nat nat
  | Request_xor nat nat
  | Add_count nat nat
  | Add_tuple "nat list"

text \<open>The lookup a row makes on the bus for a request it counted.\<close>

fun bitwise_lookup :: "nat \<Rightarrow> lookup_request \<Rightarrow> 'f::field interaction list" where
  "bitwise_lookup b (Request_range x y) = [Lookup_key b [of_nat x, of_nat y, 0, 0] 1]"
| "bitwise_lookup b (Request_xor x y) = [Lookup_key b [of_nat x, of_nat y, of_nat (x XOR y), 1] 1]"
| "bitwise_lookup b (Add_count _ _) = []"
| "bitwise_lookup b (Add_tuple _) = []"

fun bitwise_step :: "nat \<Rightarrow> bitwise_chip \<Rightarrow> lookup_request \<Rightarrow> bitwise_chip option" where
  "bitwise_step nb ch (Request_range x y) = request_range nb ch x y"
| "bitwise_step nb ch (Request_xor x y) = map_option fst (request_xor nb ch x y)"
| "bitwise_step nb ch (Add_count _ _) = Some ch"
| "bitwise_step nb ch (Add_tuple _) = Some ch"

fun bitwise_run :: "nat \<Rightarrow> bitwise_chip \<Rightarrow> lookup_request list \<Rightarrow> bitwise_chip option" where
  "bitwise_run nb ch [] = Some ch"
| "bitwise_run nb ch (q # qs) = Option.bind (bitwise_step nb ch q) (\<lambda>ch'. bitwise_run nb ch' qs)"

fun bitwise_request_ok :: "nat \<Rightarrow> lookup_request \<Rightarrow> bool" where
  "bitwise_request_ok nb (Request_range x y) \<longleftrightarrow> x < 2 ^ nb \<and> y < 2 ^ nb"
| "bitwise_request_ok nb (Request_xor x y) \<longleftrightarrow> x < 2 ^ nb \<and> y < 2 ^ nb"
| "bitwise_request_ok nb (Add_count _ _) \<longleftrightarrow> True"
| "bitwise_request_ok nb (Add_tuple _) \<longleftrightarrow> True"

fun range_idx :: "nat \<Rightarrow> lookup_request \<Rightarrow> nat list" where
  "range_idx nb (Request_range x y) = [x * 2 ^ nb + y]"
| "range_idx nb _ = []"

fun xor_idx :: "nat \<Rightarrow> lookup_request \<Rightarrow> nat list" where
  "xor_idx nb (Request_xor x y) = [x * 2 ^ nb + y]"
| "xor_idx nb _ = []"

lemma bitwise_idx_small:
  assumes "x < 2 ^ nb" "y < 2 ^ nb" "nb \<le> 15"
  shows "bitwise_idx nb x y = x * 2 ^ nb + y" "x * 2 ^ nb + y < 2 ^ nb * 2 ^ nb"
proof -
  have le: "(x + 1) * 2 ^ nb \<le> 2 ^ nb * 2 ^ nb" using assms(1) by (intro mult_le_mono1) simp
  then show lt: "x * 2 ^ nb + y < 2 ^ nb * 2 ^ nb"
    using assms(2) by (simp add: algebra_simps)
  have "(2::nat) ^ nb * 2 ^ nb = 2 ^ (nb + nb)" by (simp add: power_add)
  also have "\<dots> \<le> 2 ^ 32" using assms(3) by (intro power_increasing) simp_all
  finally have "x * 2 ^ nb + y < 2 ^ 32" using lt by linarith
  then show "bitwise_idx nb x y = x * 2 ^ nb + y"
    using shl_rel_one [of nb 32] assms(3) by (simp add: bitwise_idx_def wadd_def wmul_def)
qed

lemma bitwise_run_bumps:
  assumes "list_all (bitwise_request_ok nb) qs" "nb \<le> 15"
    and "bumps (count_range ch) (concat (map (range_idx nb) qs)) = Some cr"
    and "bumps (count_xor ch) (concat (map (xor_idx nb) qs)) = Some cx"
  shows "bitwise_run nb ch qs = Some \<lparr>count_range = cr, count_xor = cx\<rparr>"
  using assms
proof (induction qs arbitrary: ch)
  case Nil
  then show ?case by simp
next
  case (Cons q qs)
  then show ?case
    by (cases q)
      (auto simp: request_range_def request_xor_def bitwise_idx_small bind_eq_Some_conv)
qed

lemma length_concat_le:
  "(\<And>q. length (f q) \<le> 1) \<Longrightarrow> length (concat (map f qs)) \<le> length qs"
proof (induction qs)
  case (Cons q qs)
  then have "length (f q) \<le> 1" "length (concat (map f qs)) \<le> length qs" by simp_all
  then show ?case by simp
qed simp

lemma length_range_idx: "length (range_idx nb q) \<le> 1" and length_xor_idx: "length (xor_idx nb q) \<le> 1"
  by (cases q; simp)+

lemma bitwise_idx_list_bound:
  assumes "list_all (bitwise_request_ok nb) qs" "nb \<le> 15"
  shows "list_all (\<lambda>i. i < 2 ^ nb * 2 ^ nb) (concat (map (range_idx nb) qs))"
    and "list_all (\<lambda>i. i < 2 ^ nb * 2 ^ nb) (concat (map (xor_idx nb) qs))"
  using assms
proof (induction qs)
  case (Cons q qs)
  { case 1 with Cons show ?case by (cases q) (auto simp: bitwise_idx_small(2)) }
  { case 2 with Cons show ?case by (cases q) (auto simp: bitwise_idx_small(2)) }
qed simp_all

lemma bitwise_new_rows:
  assumes "nb \<le> 15"
  shows "bitwise_new nb = \<lparr>count_range = replicate (2 ^ nb * 2 ^ nb) 0, count_xor = replicate (2 ^ nb * 2 ^ nb) 0\<rparr>"
proof -
  have "(2::nat) ^ nb * 2 ^ nb = 2 ^ (nb + nb)" by (simp add: power_add)
  also have "\<dots> \<le> 2 ^ 30" using assms by (intro power_increasing) simp_all
  finally have le: "(2::nat) ^ nb * 2 ^ nb < 2 ^ 31" by simp
  then have "wmul 32 (2 ^ nb) (2 ^ nb) = 2 ^ nb * 2 ^ nb" by (intro wmul_small) simp
  then show ?thesis
    using i32_val_small [OF le] shl_rel_one [of nb 32] assms by (simp add: bitwise_new_def Let_def nat_mult_distrib nat_power_eq)
qed

text \<open>With 16 bits the number of rows wraps around to zero, and the chip cannot count anything.\<close>

lemma bitwise_new_16: "bitwise_new 16 = \<lparr>count_range = [], count_xor = []\<rparr>"
  by (simp add: bitwise_new_def width_defs i32_val_def)

lemma bitwise_run_counts:
  assumes ok: "list_all (bitwise_request_ok nb) qs" and nb: "nb \<le> 15" and len: "length qs < 2 ^ 32"
  shows "bitwise_run nb (bitwise_new nb) qs = Some
    \<lparr>count_range = map (count_list (concat (map (range_idx nb) qs))) [0..<2 ^ nb * 2 ^ nb],
     count_xor = map (count_list (concat (map (xor_idx nb) qs))) [0..<2 ^ nb * 2 ^ nb]\<rparr>"
proof (rule bitwise_run_bumps [OF ok nb])
  let ?N = "2 ^ nb * 2 ^ nb :: nat"
  have r: "length (concat (map (range_idx nb) qs)) < 2 ^ 32"
    using length_concat_le [of "range_idx nb" qs, OF length_range_idx] len by linarith
  have x: "length (concat (map (xor_idx nb) qs)) < 2 ^ 32"
    using length_concat_le [of "xor_idx nb" qs, OF length_xor_idx] len by linarith
  show "bumps (count_range (bitwise_new nb)) (concat (map (range_idx nb) qs)) =
      Some (map (count_list (concat (map (range_idx nb) qs))) [0..<?N])"
    using bumps_counts [of "replicate ?N 0" "concat (map (range_idx nb) qs)"] r
      bitwise_idx_list_bound(1) [OF ok nb]
    by (simp add: bitwise_new_rows [OF nb] cong: map_cong)
  show "bumps (count_xor (bitwise_new nb)) (concat (map (xor_idx nb) qs)) =
      Some (map (count_list (concat (map (xor_idx nb) qs))) [0..<?N])"
    using bumps_counts [of "replicate ?N 0" "concat (map (xor_idx nb) qs)"] x
      bitwise_idx_list_bound(2) [OF ok nb]
    by (simp add: bitwise_new_rows [OF nb] cong: map_cong)
qed


text \<open>The keys of row \<open>n\<close>, and the two sides of the bus as sums over them.\<close>

definition range_key :: "nat \<Rightarrow> nat \<Rightarrow> 'f::field list" where
  "range_key nb n = [of_nat (n div 2 ^ nb), of_nat (n mod 2 ^ nb), 0, 0]"

definition xor_key :: "nat \<Rightarrow> nat \<Rightarrow> 'f::field list" where
  "xor_key nb n = [of_nat (n div 2 ^ nb), of_nat (n mod 2 ^ nb),
                   of_nat ((n div 2 ^ nb) XOR (n mod 2 ^ nb)), 1]"

lemma bitwise_row_interactions:
  assumes "n < 2 ^ nb * 2 ^ nb"
  shows "snd (bitwise_eval nb b (bitwise_row nb ch n) (bitwise_row nb ch n :: 'f::field bitwise_cols)) =
    [Add_key b (range_key nb n) (of_nat (count_range ch ! n)),
     Add_key b (xor_key nb n) (of_nat (count_xor ch ! n))]"
proof -
  have "n div 2 ^ nb < 2 ^ nb" "n mod 2 ^ nb < 2 ^ nb"
    using assms by (simp_all add: less_mult_imp_div_less)
  then show ?thesis
    by (simp only: bitwise_eval_def Let_def snd_conv bitwise_row_def bitwise_cols.select_convs
        bitwise_row_reconstruct bitwise_row_xor range_key_def xor_key_def bitwise_receive_def
        bitwise_push_def if_False)
qed

lemma sum_list_neg_add: "(\<Sum>n\<leftarrow>xs. - (f n + g n)) = - ((\<Sum>n\<leftarrow>xs. f n) + (\<Sum>n\<leftarrow>xs. g n))"
  for f g :: "'b \<Rightarrow> 'c::ab_group_add"
  by (induction xs) (simp_all add: algebra_simps)

lemma bitwise_requests_sum:
  assumes "list_all (bitwise_request_ok nb) qs" "nb \<le> 15"
  shows "sum_list (map (contribution b k) (concat (map (bitwise_lookup b) qs))) =
    (\<Sum>i\<leftarrow>concat (map (range_idx nb) qs). if k = range_key nb i then 1 else 0 :: 'f::field) +
    (\<Sum>i\<leftarrow>concat (map (xor_idx nb) qs). if k = xor_key nb i then 1 else 0)"
  using assms
proof (induction qs)
  case Nil
  then show ?case by simp
next
  case (Cons q qs)
  have "sum_list (map (contribution b k) (bitwise_lookup b q)) =
      (\<Sum>i\<leftarrow>range_idx nb q. if k = range_key nb i then 1 else 0 :: 'f) +
      (\<Sum>i\<leftarrow>xor_idx nb q. if k = xor_key nb i then 1 else 0)"
    using Cons.prems by (cases q) (simp_all add: range_key_def xor_key_def)
  with Cons show ?case by (simp add: algebra_simps)
qed

lemma bitwise_balance:
  assumes ok: "list_all (bitwise_request_ok nb) qs" and nb: "nb \<le> 15" and len: "length qs < 2 ^ 32"
  obtains ch where "bitwise_run nb (bitwise_new nb) qs = Some ch"
    and "bus_balanced b (concat (map (bitwise_lookup b) qs) @
      concat (map (\<lambda>r. snd (bitwise_eval nb b r r))
        (fst (bitwise_generate_trace nb ch) :: 'f::field bitwise_cols list)))"
proof
  let ?N = "2 ^ nb * 2 ^ nb :: nat"
  let ?r = "concat (map (range_idx nb) qs)" and ?x = "concat (map (xor_idx nb) qs)"
  let ?ch = "\<lparr>count_range = map (count_list ?r) [0..<?N], count_xor = map (count_list ?x) [0..<?N]\<rparr>"
  show "bitwise_run nb (bitwise_new nb) qs = Some ?ch"
    by (rule bitwise_run_counts [OF ok nb len])
  show "bus_balanced b (concat (map (bitwise_lookup b) qs) @
      concat (map (\<lambda>r. snd (bitwise_eval nb b r r))
        (fst (bitwise_generate_trace nb ?ch) :: 'f bitwise_cols list)))"
    unfolding bus_balanced_def
  proof
    fix k :: "'f list"
    have "sum_list (map (contribution b k) (concat (map (\<lambda>r. snd (bitwise_eval nb b r r))
        (fst (bitwise_generate_trace nb ?ch) :: 'f bitwise_cols list)))) =
      (\<Sum>n\<leftarrow>[0..<?N]. - ((if k = range_key nb n then of_nat (count_list ?r n) else 0) +
                            (if k = xor_key nb n then of_nat (count_list ?x n) else 0)))"
      unfolding sum_list_concat_map bitwise_generate_trace_def fst_conv map_map
      by (rule arg_cong [where f = sum_list], rule map_cong) (simp_all add: bitwise_row_interactions)
    also have "\<dots> = - ((\<Sum>n\<leftarrow>[0..<?N]. if k = range_key nb n then of_nat (count_list ?r n) else 0) +
        (\<Sum>n\<leftarrow>[0..<?N]. if k = xor_key nb n then of_nat (count_list ?x n) else 0))"
      by (rule sum_list_neg_add)
    also have "\<dots> = - sum_list (map (contribution b k) (concat (map (bitwise_lookup b) qs)))"
      by (simp only: bitwise_requests_sum [OF ok nb]
          sum_requests_eq_counts [OF bitwise_idx_list_bound(1) [OF ok nb]]
          sum_requests_eq_counts [OF bitwise_idx_list_bound(2) [OF ok nb]])
    finally show "sum_list (map (contribution b k) (concat (map (bitwise_lookup b) qs) @
      concat (map (\<lambda>r. snd (bitwise_eval nb b r r))
        (fst (bitwise_generate_trace nb ?ch) :: 'f bitwise_cols list)))) = 0"
      by simp
  qed
qed

lemma lookups_ok_bitwise:
  assumes "list_all (bitwise_request_ok nb) qs" "\<And>k. bitwise_table nb k \<Longrightarrow> T b k"
  shows "lookups_ok T (concat (map (bitwise_lookup b) qs))"
  using assms(1)
proof (induction qs)
  case (Cons q qs)
  then show ?case using assms(2) by (cases q) (auto simp: bitwise_table_def)
qed simp


text \<open>
  C6. When the bitwise bus balances over the interactions of all clients and a trace of the
  bitwise chip that satisfies its AIR, every active lookup of a client is a true statement: a
  range check of two values below \<open>2 ^ NUM_BITS\<close>, or two such values and their XOR.
\<close>

theorem bitwise_lookups_sound:
  fixes client :: "'f::field interaction list"
  assumes "bitwise_valid num_bits b rows"
    and "bus_balanced b (client @ concat (map (\<lambda>r. snd (bitwise_eval num_bits b r r)) rows))"
    and "list_all (bool_lookup b) (client @ concat (map (\<lambda>r. snd (bitwise_eval num_bits b r r)) rows))"
    and "\<And>k c. Add_key b k c \<notin> set client"
    and "length (client @ concat (map (\<lambda>r. snd (bitwise_eval num_bits b r r)) rows)) < CHAR('f)"
    and "Lookup_key b k c \<in> set client" "c \<noteq> 0"
  shows "bitwise_table num_bits k"
  by (rule bitwise.lookup_served [OF assms])

text \<open>The chip sends only additions of keys, so the boolean condition is about its clients.\<close>

lemma bitwise_bool_lookup:
  "list_all (bool_lookup b) (concat (map (\<lambda>r. snd (bitwise_eval num_bits b r r)) rows))"
  by (simp add: list_all_iff bitwise_eval_def Let_def air_defs)

theorem bitwise_lookups_sound_witness:
  "bitwise_table 1 [of_nat 1, of_nat 0, of_nat (1 XOR 0), 1 :: bb]"
proof -
  obtain ch where "bitwise_run 1 (bitwise_new 1) [Request_xor 1 0] = Some ch"
    and bal: "bus_balanced 7 (concat (map (bitwise_lookup 7) [Request_xor 1 0]) @
      concat (map (\<lambda>r. snd (bitwise_eval 1 7 r r)) (fst (bitwise_generate_trace 1 ch) :: bb bitwise_cols list)))"
    by (rule bitwise_balance [of 1 "[Request_xor 1 0]" 7]) simp_all
  let ?rows = "fst (bitwise_generate_trace 1 ch) :: bb bitwise_cols list"
  have "length (concat (map (\<lambda>r. snd (bitwise_eval 1 7 r r)) ?rows)) = 8"
    by (simp add: bitwise_generate_trace_def length_concat comp_def bitwise_eval_def Let_def eval_nat_numeral)
  then show ?thesis
    by (intro bitwise_lookups_sound [OF bitwise_trace_valid bal, where c = 1])
      (simp_all add: bitwise_bool_lookup bb_CHAR)
qed

text \<open>
  C7. The bitwise chip accounts for every request: from a new chip of at most 15 bits (with 16, the
  constructor's count of rows wraps around to zero), any requests in range (fewer
  than \<open>2 ^ 32\<close> of them) are counted without an error, the trace it then generates satisfies
  its AIR, and the bus balances between the lookups of the requests and that trace.
\<close>

theorem bitwise_requests_balance:
  assumes "list_all (bitwise_request_ok nb) qs" "nb \<le> 15" "length qs < 2 ^ 32"
  shows "\<exists>ch. bitwise_run nb (bitwise_new nb) qs = Some ch \<and>
    bitwise_valid nb b (fst (bitwise_generate_trace nb ch) :: 'f::field bitwise_cols list) \<and>
    bus_balanced b (concat (map (bitwise_lookup b) qs) @
      concat (map (\<lambda>r. snd (bitwise_eval nb b r r))
        (fst (bitwise_generate_trace nb ch) :: 'f bitwise_cols list)))"
proof -
  obtain ch where "bitwise_run nb (bitwise_new nb) qs = Some ch"
    and "bus_balanced b (concat (map (bitwise_lookup b) qs) @
      concat (map (\<lambda>r. snd (bitwise_eval nb b r r))
        (fst (bitwise_generate_trace nb ch) :: 'f bitwise_cols list)))"
    by (rule bitwise_balance [OF assms])
  then show ?thesis using bitwise_trace_valid by blast
qed

theorem bitwise_requests_balance_witness:
  "\<exists>ch. bitwise_run 8 (bitwise_new 8) [Request_xor 200 100, Request_range 3 255] = Some ch \<and>
    bitwise_valid 8 0 (fst (bitwise_generate_trace 8 ch) :: bb bitwise_cols list) \<and>
    bus_balanced 0 (concat (map (bitwise_lookup 0) [Request_xor 200 100, Request_range 3 255]) @
      concat (map (\<lambda>r. snd (bitwise_eval 8 0 r r)) (fst (bitwise_generate_trace 8 ch) :: bb bitwise_cols list)))"
  by (rule bitwise_requests_balance) simp_all

end
