(* ===== verification/Executor.thy ===== *)
theory Executor
  imports Rv32_Opcodes Lookup_Chips
begin

text \<open>
  The traits of \<open>crates/vm/src/arch/integration_api.rs\<close> and \<open>execution.rs\<close> that a core
  executor is written against: the state an executor mutates, the adapter that reads its
  operands and writes its result, and the filler that later turns the adapter's record into
  columns. The source is generic in the adapter, so the model of a core takes it as an argument.
\<close>

section \<open>Errors and state\<close>

text \<open>
  \<open>ExecutionError\<close>, less the variants that only wrap an error of another type
  (\<open>Phantom\<close>, \<open>Inventory\<close>, \<open>Static\<close>); \<open>Panic\<close> is an aborted process (an
  \<open>unwrap\<close>, an \<open>assert!\<close> or an index out of range).
\<close>

datatype execution_error =
    Panic
  | Fail nat string
  | PcOutOfBounds nat
  | Unreachable nat
  | DisabledOperation nat nat
  | HintOutOfBounds nat
  | HintBufferZeroWords nat
  | HintBufferTooLarge nat nat nat
  | PublicValueIndexOutOfBounds nat nat nat
  | PublicValueNotEqual nat nat nat nat
  | PhantomNotFound nat nat
  | DidNotTerminate
  | FailedWithExitCode nat
  | TraceBufferOutOfBounds nat nat
  | InstretOverflow nat nat

text \<open>
  \<open>VmStateMut\<close>: program counter, memory, and the arena the records are allocated in. The
  streams and the random generator are not touched by the executors modelled here.
\<close>

record ('m, 'r) vm_state_mut =
  s_pc :: nat
  s_memory :: 'm
  s_arena :: "'r list"

section \<open>Adapters\<close>

record ('f, 'm, 'ar) adapter_trace_executor =
  a_start :: "nat \<Rightarrow> 'm \<Rightarrow> 'ar \<Rightarrow> 'ar"
  a_read :: "'m \<Rightarrow> 'f instr \<Rightarrow> 'ar \<Rightarrow> 'm \<times> 'ar \<times> nat list list"
  a_write :: "'m \<Rightarrow> 'f instr \<Rightarrow> nat list list \<Rightarrow> 'ar \<Rightarrow> 'm \<times> 'ar"

type_synonym ('mh, 'ar, 'ac) adapter_filler = "'mh \<Rightarrow> 'ar \<Rightarrow> 'ac \<times> lookup_request list"

end
