(* ===== verification/Base_Alu.thy ===== *)
theory Base_Alu
  imports Executor Baby_Bear
begin

unbundle bit_operations_syntax

text \<open>
  \<open>extensions/rv32im/circuit/src/base_alu/core.rs\<close>: the core chip for ADD, SUB, XOR, OR and
  AND on numbers of \<open>num_limbs\<close> limbs of \<open>limb_bits\<close> bits. Its executor, its trace
  filler and its AIR, and the theorems that tie the three together and to arithmetic modulo
  \<open>2 ^ (limb_bits * num_limbs)\<close>.
\<close>

section \<open>The model\<close>

subsection \<open>\<open>run_alu\<close>\<close>

fun run_add_loop :: "nat \<Rightarrow> nat \<Rightarrow> nat list \<Rightarrow> nat list \<Rightarrow> nat list" where
  "run_add_loop lb carry (x # xs) (y # ys) =
     (let overflow = wadd 16 (wadd 16 x y) carry;
          carry' = wrap 8 (wshr overflow lb);
          z = wrap 8 (overflow AND (wsub 16 (wshl 16 1 lb) 1))
      in z # run_add_loop lb carry' xs ys)"
| "run_add_loop lb carry _ _ = []"

definition run_add :: "nat \<Rightarrow> nat list \<Rightarrow> nat list \<Rightarrow> nat list" where
  "run_add lb x y = run_add_loop lb 0 x y"

fun run_subtract_loop :: "nat \<Rightarrow> nat \<Rightarrow> nat list \<Rightarrow> nat list \<Rightarrow> nat list" where
  "run_subtract_loop lb carry (x # xs) (y # ys) =
     (let rhs = wadd 16 y carry
      in if rhs \<le> x then wsub 8 x (wrap 8 rhs) # run_subtract_loop lb 0 xs ys
         else wrap 8 (wsub 16 (wadd 16 x (wshl 16 1 lb)) rhs) # run_subtract_loop lb 1 xs ys)"
| "run_subtract_loop lb carry _ _ = []"

definition run_subtract :: "nat \<Rightarrow> nat list \<Rightarrow> nat list \<Rightarrow> nat list" where
  "run_subtract lb x y = run_subtract_loop lb 0 x y"

definition run_xor :: "nat list \<Rightarrow> nat list \<Rightarrow> nat list" where
  "run_xor x y = map2 (XOR) x y"

definition run_or :: "nat list \<Rightarrow> nat list \<Rightarrow> nat list" where
  "run_or x y = map2 (OR) x y"

definition run_and :: "nat list \<Rightarrow> nat list \<Rightarrow> nat list" where
  "run_and x y = map2 (AND) x y"

fun run_alu :: "nat \<Rightarrow> BaseAluOpcode \<Rightarrow> nat list \<Rightarrow> nat list \<Rightarrow> nat list" where
  "run_alu lb Alu_ADD x y = run_add lb x y"
| "run_alu lb Alu_SUB x y = run_subtract lb x y"
| "run_alu lb Alu_XOR x y = run_xor x y"
| "run_alu lb Alu_OR x y = run_or x y"
| "run_alu lb Alu_AND x y = run_and x y"

subsection \<open>\<open>BaseAluCoreAir::eval\<close>\<close>

record 'f base_alu_cols =
  alu_a :: "'f list"
  alu_b :: "'f list"
  alu_c :: "'f list"
  opcode_add_flag :: 'f
  opcode_sub_flag :: 'f
  opcode_xor_flag :: 'f
  opcode_or_flag :: 'f
  opcode_and_flag :: 'f

record base_alu_air =
  alu_bus :: nat
  alu_air_offset :: nat

text \<open>\<open>carry[i] = carry_divide * (p[i] + q[i] - r[i] + carry[i - 1])\<close>, for ADD and SUB.\<close>

primrec alu_carry :: "'f::field \<Rightarrow> 'f list \<Rightarrow> 'f list \<Rightarrow> 'f list \<Rightarrow> nat \<Rightarrow> 'f" where
  "alu_carry carry_divide p q r 0 = carry_divide * (p ! 0 + q ! 0 - r ! 0 + 0)"
| "alu_carry carry_divide p q r (Suc i) =
     carry_divide * (p ! Suc i + q ! Suc i - r ! Suc i + alu_carry carry_divide p q r i)"

definition alu_flags :: "'f base_alu_cols \<Rightarrow> 'f list" where
  "alu_flags cols = [opcode_add_flag cols, opcode_sub_flag cols, opcode_xor_flag cols,
     opcode_or_flag cols, opcode_and_flag cols]"

definition base_alu_eval ::
  "nat \<Rightarrow> nat \<Rightarrow> base_alu_air \<Rightarrow> 'f::field base_alu_cols \<Rightarrow>
   ('f, 'f minimal_instruction) core_eval" where
  "base_alu_eval num_limbs limb_bits air cols =
     (let flags = alu_flags cols;
          valid = fold (\<lambda>flag acc. acc + flag) flags 0;
          a = alu_a cols; b = alu_b cols; c = alu_c cols;
          carry_divide = inverse (of_nat (2 ^ limb_bits));
          carry_add = alu_carry carry_divide b c a;
          carry_sub = alu_carry carry_divide a c b;
          bitwise = opcode_xor_flag cols + opcode_or_flag cols + opcode_and_flag cols
      in (map assert_bool flags @ [assert_bool valid] @
          concat (map (\<lambda>i. [When (opcode_add_flag cols) (assert_bool (carry_add i)),
                             When (opcode_sub_flag cols) (assert_bool (carry_sub i))])
                   [0..<num_limbs]),
          map (\<lambda>i.
            let x = not_f bitwise * a ! i + bitwise * b ! i;
                y = not_f bitwise * a ! i + bitwise * c ! i;
                x_xor_y = opcode_xor_flag cols * a ! i
                  + opcode_or_flag cols * (of_nat 2 * a ! i - b ! i - c ! i)
                  + opcode_and_flag cols * (b ! i + c ! i - of_nat 2 * a ! i)
            in send_xor (alu_bus air) x y x_xor_y valid) [0..<num_limbs],
          \<lparr>to_pc = None, reads = [b, c], writes = [a],
           instruction = \<lparr>is_valid = valid,
             opcode = expr_to_global_expr (alu_air_offset air) (expected_opcode flags alu_opcodes)\<rparr>\<rparr>))"

subsection \<open>The executor and the trace filler\<close>

record base_alu_record =
  alur_b :: "nat list"
  alur_c :: "nat list"
  alur_local_opcode :: nat

definition base_alu_execute ::
  "nat \<Rightarrow> ('f, 'm, 'ar) adapter_trace_executor \<Rightarrow> nat \<Rightarrow> 'ar \<Rightarrow>
   ('m, 'ar \<times> base_alu_record) vm_state_mut \<Rightarrow> 'f instr \<Rightarrow>
   execution_error + ('m, 'ar \<times> base_alu_record) vm_state_mut" where
  "base_alu_execute limb_bits A offset fresh s i =
     (let opc = local_opcode_idx (i_opcode i) offset in
      case from_repr alu_opcodes opc of
        None \<Rightarrow> Inl Panic
      | Some local_opcode \<Rightarrow>
         (let r0 = a_start A (s_pc s) (s_memory s) fresh;
              (m1, r1, data) = a_read A (s_memory s) i r0;
              b = data ! 0; c = data ! 1;
              rd = run_alu limb_bits local_opcode b c;
              core = \<lparr>alur_b = b, alur_c = c, alur_local_opcode = wrap 8 (repr_of alu_opcodes local_opcode)\<rparr>;
              (m2, r2) = a_write A m1 i [rd] r1
          in Inr (s\<lparr>s_memory := m2, s_arena := s_arena s @ [(r2, core)],
                    s_pc := wadd 32 (s_pc s) DEFAULT_PC_STEP\<rparr>)))"

definition base_alu_fill_core ::
  "nat \<Rightarrow> BaseAluOpcode \<Rightarrow> base_alu_record \<Rightarrow> 'f::field base_alu_cols \<times> lookup_request list" where
  "base_alu_fill_core limb_bits local_opcode rec =
     (let a = run_alu limb_bits local_opcode (alur_b rec) (alur_c rec)
      in (\<lparr>alu_a = fels a, alu_b = fels (alur_b rec), alu_c = fels (alur_c rec),
           opcode_add_flag = from_bool (local_opcode = Alu_ADD),
           opcode_sub_flag = from_bool (local_opcode = Alu_SUB),
           opcode_xor_flag = from_bool (local_opcode = Alu_XOR),
           opcode_or_flag = from_bool (local_opcode = Alu_OR),
           opcode_and_flag = from_bool (local_opcode = Alu_AND)\<rparr>,
          if local_opcode = Alu_ADD \<or> local_opcode = Alu_SUB
          then map (\<lambda>a_val. Request_xor a_val a_val) a
          else map (\<lambda>(b_val, c_val). Request_xor b_val c_val) (zip (alur_b rec) (alur_c rec))))"

definition base_alu_fill_trace_row ::
  "nat \<Rightarrow> ('mh, 'ar, 'ac) adapter_filler \<Rightarrow> 'mh \<Rightarrow> 'ar \<Rightarrow> base_alu_record \<Rightarrow>
   (('ac \<times> 'f::field base_alu_cols) \<times> lookup_request list) option" where
  "base_alu_fill_trace_row limb_bits fill mem_helper arec rec =
     (let (acols, areqs) = fill mem_helper arec in
      map_option (\<lambda>local_opcode.
          let (cols, reqs) = base_alu_fill_core limb_bits local_opcode rec
          in ((acols, cols), areqs @ reqs))
        (from_repr alu_opcodes (alur_local_opcode rec)))"


section \<open>\<open>run_alu\<close> is arithmetic modulo \<open>2 ^ (limb_bits * num_limbs)\<close>\<close>

text \<open>One iteration of each loop, as an equation between the limbs and the carries.\<close>

lemma run_add_step:
  assumes "x < 2 ^ lb" "y < 2 ^ lb" "carry \<le> 1" "lb \<le> 8"
  shows "\<exists>z k. run_add_loop lb carry (x # xs) (y # ys) = z # run_add_loop lb k xs ys \<and>
           x + y + carry = z + 2 ^ lb * k \<and> z < 2 ^ lb \<and> k \<le> 1"
proof (intro exI conjI)
  have le: "(2::nat) ^ lb \<le> 256" using assms(4) by (rule pow_le_256)
  define t where "t = x + y + carry"
  have t: "t < 2 ^ lb * 2" using assms by (simp add: t_def)
  have ov: "wadd 16 (wadd 16 x y) carry = t"
    using assms le by (simp add: wadd_def t_def)
  have k1: "t div 2 ^ lb \<le> 1" using t by (simp add: less_Suc_eq_le [symmetric] less_mult_imp_div_less mult.commute)
  then have k: "wrap 8 (wshr t lb) = t div 2 ^ lb" by (simp add: wshr_def wrap_def)
  have "wshl 16 1 lb = 2 ^ lb" using le by (simp add: wshl_def)
  then have mask: "wsub 16 (wshl 16 1 lb) 1 = 2 ^ lb - 1" using le by (simp add: wsub_small)
  have zl: "t mod 2 ^ lb < 2 ^ lb" by simp
  from less_le_trans [OF this le] have "t mod 2 ^ lb < 2 ^ 8" by simp
  then have z: "wrap 8 (t AND (2 ^ lb - 1)) = t mod 2 ^ lb"
    by (simp only: mask_eq_mod wrap_small)
  show "run_add_loop lb carry (x # xs) (y # ys) =
      t mod 2 ^ lb # run_add_loop lb (t div 2 ^ lb) xs ys"
    by (simp only: run_add_loop.simps ov Let_def k mask z)
  show "x + y + carry = t mod 2 ^ lb + 2 ^ lb * (t div 2 ^ lb)" by (simp add: t_def)
qed (use assms in \<open>simp_all add: less_Suc_eq_le [symmetric] less_mult_imp_div_less\<close>)

lemma run_subtract_step:
  assumes "x < 2 ^ lb" "y < 2 ^ lb" "carry \<le> 1" "lb \<le> 8"
  shows "\<exists>z k. run_subtract_loop lb carry (x # xs) (y # ys) = z # run_subtract_loop lb k xs ys \<and>
           z + y + carry = x + 2 ^ lb * k \<and> z < 2 ^ lb \<and> k \<le> 1"
proof -
  have le: "(2::nat) ^ lb \<le> 256" using assms(4) by (rule pow_le_256)
  have rhs: "wadd 16 y carry = y + carry" using assms le by (simp add: wadd_def)
  show ?thesis
  proof (cases "y + carry \<le> x")
    case True
    have "x < 2 ^ 8" using assms le by simp
    then show ?thesis using True assms
      by (intro exI [of _ "x - (y + carry)"] exI [of _ 0])
        (simp add: rhs Let_def wsub_small wrap_small)
  next
    case False
    have sh: "wshl 16 1 lb = 2 ^ lb" using le by (simp add: wshl_def)
    have add: "wadd 16 x (2 ^ lb) = x + 2 ^ lb" using assms le by (simp add: wadd_def)
    have sub: "wsub 16 (x + 2 ^ lb) (y + carry) = x + 2 ^ lb - (y + carry)"
      by (rule wsub_small) (use assms le in simp_all)
    have "x + 2 ^ lb - (y + carry) < 2 ^ 8" using False le by simp
    then have "wrap 8 (x + 2 ^ lb - (y + carry)) = x + 2 ^ lb - (y + carry)" by (rule wrap_small)
    then have "run_subtract_loop lb carry (x # xs) (y # ys) =
        (x + 2 ^ lb - (y + carry)) # run_subtract_loop lb 1 xs ys"
      using False by (simp only: run_subtract_loop.simps rhs Let_def sh add sub if_False)
    then show ?thesis using False assms
      by (intro exI [of _ "x + 2 ^ lb - (y + carry)"] exI [of _ 1]) simp
  qed
qed

text \<open>The whole loop: every limb obeys the carry equation, with carries at most 1.\<close>

definition carries_ok :: "nat \<Rightarrow> nat \<Rightarrow> nat list \<Rightarrow> nat list \<Rightarrow> nat list \<Rightarrow> (nat \<Rightarrow> nat) \<Rightarrow> bool" where
  "carries_ok lb carry ps qs rs k \<longleftrightarrow> (\<forall>i<length ps.
     (ps ! i + qs ! i) + (if i = 0 then carry else k (i - 1)) = rs ! i + 2 ^ lb * k i \<and> k i \<le> 1)"

lemma carries_ok_Cons:
  assumes "p + q + carry = r + 2 ^ lb * c" "c \<le> 1" "carries_ok lb c ps qs rs k"
  shows "carries_ok lb carry (p # ps) (q # qs) (r # rs) (\<lambda>i. if i = 0 then c else k (i - 1))"
  unfolding carries_ok_def
proof (intro allI impI)
  fix i assume "i < length (p # ps)"
  then show "(p # ps) ! i + (q # qs) ! i + (if i = 0 then carry else if i - 1 = 0 then c else k (i - 1 - 1)) =
      (r # rs) ! i + 2 ^ lb * (if i = 0 then c else k (i - 1)) \<and> (if i = 0 then c else k (i - 1)) \<le> 1"
    using assms by (cases i) (auto simp: carries_ok_def)
qed

lemma run_add_loop_carries:
  assumes "length xs = length ys" "limbs_ok lb xs" "limbs_ok lb ys" "carry \<le> 1" "lb \<le> 8"
  shows "\<exists>k. carries_ok lb carry xs ys (run_add_loop lb carry xs ys) k \<and>
    length (run_add_loop lb carry xs ys) = length xs \<and> limbs_ok lb (run_add_loop lb carry xs ys)"
  using assms
proof (induction xs ys arbitrary: carry rule: list_induct2)
  case Nil
  then show ?case by (simp add: carries_ok_def)
next
  case (Cons x xs y ys)
  then obtain z c where run: "run_add_loop lb carry (x # xs) (y # ys) = z # run_add_loop lb c xs ys"
      and eq: "x + y + carry = z + 2 ^ lb * c" and z: "z < 2 ^ lb" and c: "c \<le> 1"
    using run_add_step [of x lb y carry xs ys] by auto
  from Cons.IH [of c] c Cons.prems obtain k where
      k: "carries_ok lb c xs ys (run_add_loop lb c xs ys) k"
      "length (run_add_loop lb c xs ys) = length xs" "limbs_ok lb (run_add_loop lb c xs ys)"
    by auto
  show ?case unfolding run
    by (rule exI, rule conjI, rule carries_ok_Cons [OF eq c k(1)]) (use z k in simp)
qed

lemma run_subtract_loop_carries:
  assumes "length xs = length ys" "limbs_ok lb xs" "limbs_ok lb ys" "carry \<le> 1" "lb \<le> 8"
  shows "\<exists>k. carries_ok lb carry (run_subtract_loop lb carry xs ys) ys xs k \<and>
    length (run_subtract_loop lb carry xs ys) = length xs \<and>
    limbs_ok lb (run_subtract_loop lb carry xs ys)"
  using assms
proof (induction xs ys arbitrary: carry rule: list_induct2)
  case Nil
  then show ?case by (simp add: carries_ok_def)
next
  case (Cons x xs y ys)
  then obtain z c where run: "run_subtract_loop lb carry (x # xs) (y # ys) = z # run_subtract_loop lb c xs ys"
      and eq: "z + y + carry = x + 2 ^ lb * c" and z: "z < 2 ^ lb" and c: "c \<le> 1"
    using run_subtract_step [of x lb y carry xs ys] by auto
  from Cons.IH [of c] c Cons.prems obtain k where
      k: "carries_ok lb c (run_subtract_loop lb c xs ys) ys xs k"
      "length (run_subtract_loop lb c xs ys) = length xs" "limbs_ok lb (run_subtract_loop lb c xs ys)"
    by auto
  show ?case unfolding run
    by (rule exI, rule conjI, rule carries_ok_Cons [OF eq c k(1)]) (use z k in simp)
qed

lemma carries_ok_value:
  assumes "carries_ok lb 0 ps qs rs k" "length qs = length ps" "length rs = length ps"
  shows "\<exists>m. limbs_val lb ps + limbs_val lb qs = limbs_val lb rs + 2 ^ (lb * length ps) * m"
proof -
  have "(\<Sum>i<length ps. (ps ! i + qs ! i) * 2 ^ (lb * i)) = (\<Sum>i<length ps. rs ! i * 2 ^ (lb * i)) +
      2 ^ (lb * length ps) * (if length ps = 0 then 0 else k (length ps - 1))"
    by (rule carry_chain) (use assms(1) in \<open>simp add: carries_ok_def\<close>)
  then show ?thesis
    using assms(2,3) by (auto simp: limbs_val_sum add_mult_distrib sum.distrib)
qed

lemma add_value_mod:
  assumes "v + w = a + 2 ^ k * (m::nat)" "a < 2 ^ k"
  shows "a = nat ((int v + int w) mod 2 ^ k)"
proof -
  have "a = (v + w) mod 2 ^ k" unfolding assms(1) using assms(2) by simp
  then have "int a = (int v + int w) mod 2 ^ k" by (simp add: zmod_int)
  then show ?thesis by (metis nat_int)
qed

lemma sub_value_mod:
  assumes "a + w = v + 2 ^ k * (m::nat)" "a < 2 ^ k"
  shows "a = nat ((int v - int w) mod 2 ^ k)"
proof -
  have a: "int a < 2 ^ k" using assms(2) by (metis of_nat_less_iff of_nat_numeral of_nat_power)
  have "int (a + w) = int (v + 2 ^ k * m)" by (simp only: assms(1))
  then have "int v - int w = int a + 2 ^ k * (- int m)" by (simp add: algebra_simps)
  then have "(int v - int w) mod 2 ^ k = int a" using a by (simp only: mod_mult_self2) simp
  then show ?thesis by simp
qed

text \<open>The abstract operation on numbers below \<open>2 ^ k\<close>.\<close>

fun alu_spec :: "nat \<Rightarrow> BaseAluOpcode \<Rightarrow> nat \<Rightarrow> nat \<Rightarrow> nat" where
  "alu_spec k Alu_ADD x y = nat ((int x + int y) mod 2 ^ k)"
| "alu_spec k Alu_SUB x y = nat ((int x - int y) mod 2 ^ k)"
| "alu_spec k Alu_XOR x y = x XOR y"
| "alu_spec k Alu_OR x y = x OR y"
| "alu_spec k Alu_AND x y = x AND y"

lemma limbs_ok_map2:
  assumes "limbs_ok lb xs" "limbs_ok lb ys" "\<And>x y. x < 2 ^ lb \<Longrightarrow> y < 2 ^ lb \<Longrightarrow> f x y < 2 ^ lb"
  shows "limbs_ok lb (map2 f xs ys)"
  using assms by (auto simp: list_all_length)

lemma run_alu_shape:
  assumes "length xs = length ys" "limbs_ok lb xs" "limbs_ok lb ys" "lb \<le> 8"
  shows "length (run_alu lb op xs ys) = length xs \<and> limbs_ok lb (run_alu lb op xs ys)"
proof (cases op)
  case Alu_ADD
  then show ?thesis using run_add_loop_carries [OF assms(1-3), of 0] assms(4) by (auto simp: run_add_def)
next
  case Alu_SUB
  then show ?thesis using run_subtract_loop_carries [OF assms(1-3), of 0] assms(4)
    by (auto simp: run_subtract_def)
qed (use assms in \<open>auto simp: run_xor_def run_or_def run_and_def
      intro!: limbs_ok_map2 xor_lt_exp or_lt_exp and_lt_exp\<close>)

lemma run_alu_value:
  assumes "length xs = length ys" "limbs_ok lb xs" "limbs_ok lb ys" "lb \<le> 8"
  shows "limbs_val lb (run_alu lb op xs ys) =
         alu_spec (lb * length xs) op (limbs_val lb xs) (limbs_val lb ys)"
proof (cases op)
  case Alu_ADD
  let ?z = "run_add_loop lb 0 xs ys"
  obtain k where k: "carries_ok lb 0 xs ys ?z k" "length ?z = length xs" "limbs_ok lb ?z"
    using run_add_loop_carries [OF assms(1-3), of 0] assms(4) by auto
  obtain m where "limbs_val lb xs + limbs_val lb ys = limbs_val lb ?z + 2 ^ (lb * length xs) * m"
    using carries_ok_value [OF k(1)] k(2) assms(1) by auto
  then have "limbs_val lb ?z = nat ((int (limbs_val lb xs) + int (limbs_val lb ys)) mod 2 ^ (lb * length xs))"
    by (rule add_value_mod) (use limbs_val_bound [OF k(3)] k(2) in simp)
  then show ?thesis using Alu_ADD by (simp only: run_alu.simps run_add_def alu_spec.simps)
next
  case Alu_SUB
  let ?z = "run_subtract_loop lb 0 xs ys"
  obtain k where k: "carries_ok lb 0 ?z ys xs k" "length ?z = length xs" "limbs_ok lb ?z"
    using run_subtract_loop_carries [OF assms(1-3), of 0] assms(4) by auto
  obtain m where "limbs_val lb ?z + limbs_val lb ys = limbs_val lb xs + 2 ^ (lb * length xs) * m"
    using carries_ok_value [OF k(1)] k(2) assms(1) by auto
  then have "limbs_val lb ?z = nat ((int (limbs_val lb xs) - int (limbs_val lb ys)) mod 2 ^ (lb * length xs))"
    by (rule sub_value_mod) (use limbs_val_bound [OF k(3)] k(2) in simp)
  then show ?thesis using Alu_SUB by (simp only: run_alu.simps run_subtract_def alu_spec.simps)
qed (use assms in \<open>simp_all add: run_xor_def run_or_def run_and_def limbs_val_xor limbs_val_or
      limbs_val_and\<close>)

section \<open>Soundness of the AIR\<close>

lemma alu_carry_chain:
  assumes limbs: "limbs_ok lb ps" "limbs_ok lb qs" "limbs_ok lb rs"
    and len: "length ps = n" "length qs = n" "length rs = n"
    and char: "2 ^ (lb + 2) < CHAR('f::field)"
    and bool: "\<And>i. i < n \<Longrightarrow>
      alu_carry (inverse (of_nat (2 ^ lb))) (fels ps) (fels qs) (fels rs) i \<in> {0, 1 :: 'f}"
  shows "\<exists>k. limbs_val lb ps + limbs_val lb qs = limbs_val lb rs + 2 ^ (lb * n) * k"
proof -
  let ?c = "alu_carry (inverse (of_nat (2 ^ lb))) (fels ps) (fels qs) (fels rs) :: nat \<Rightarrow> 'f"
  define k where "k i = (if ?c i = 0 then 0 else 1 :: nat)" for i
  have k: "?c i = of_nat (k i)" "k i \<le> 1" if "i < n" for i
    using bool [OF that] by (auto simp: k_def)
  have small: "ps ! i < 2 ^ lb" "qs ! i < 2 ^ lb" "rs ! i < 2 ^ lb" if "i < n" for i
    using limbs len that by (simp_all add: list_all_length)
  have step: "(ps ! i + qs ! i) + (if i = 0 then 0 else k (i - 1)) = rs ! i + 2 ^ lb * k i"
    if i: "i < n" for i
  proof (rule field_carry_step [where 'f = 'f])
    show "of_nat (k i) = inverse (2 ^ lb) * (of_nat (ps ! i + qs ! i) - of_nat (rs ! i) +
        of_nat (if i = 0 then 0 else k (i - 1)) :: 'f)"
      using k(1) [OF i] k(1) [of "i - 1"] i len by (cases i) simp_all
    have kk: "(if i = 0 then 0 else k (i - 1)) \<le> 1" using k(2) [of "i - 1"] i by simp
    show "2 ^ lb < CHAR('f)" using char by simp
    show "ps ! i + qs ! i + (if i = 0 then 0 else k (i - 1)) < CHAR('f)"
      using small [OF i] kk char by simp
    show "rs ! i + 2 ^ lb * k i < CHAR('f)"
    proof -
      have "2 ^ lb * k i \<le> 2 ^ lb" using k(2) [OF i] by simp
      moreover have "4 * 2 ^ lb < CHAR('f)" using char by simp
      ultimately show ?thesis using small [OF i] by linarith
    qed
  qed
  have "(\<Sum>i<n. (ps ! i + qs ! i) * 2 ^ (lb * i)) =
      (\<Sum>i<n. rs ! i * 2 ^ (lb * i)) + 2 ^ (lb * n) * (if n = 0 then 0 else k (n - 1))"
    by (rule carry_chain) (rule step)
  then have "limbs_val lb ps + limbs_val lb qs =
      limbs_val lb rs + 2 ^ (lb * n) * (if n = 0 then 0 else k (n - 1))"
    using len by (simp add: limbs_val_sum add_mult_distrib sum.distrib)
  then show ?thesis by blast
qed

lemma alu_add_sound:
  assumes "limbs_ok lb bs" "limbs_ok lb cs" "limbs_ok lb as"
    and len: "length bs = n" "length cs = n" "length as = n"
    and eq: "limbs_val lb bs + limbs_val lb cs = limbs_val lb as + 2 ^ (lb * n) * k"
    and lb: "lb \<le> 8"
  shows "as = run_alu lb Alu_ADD bs cs"
proof (rule limbs_val_inject [of lb])
  show "limbs_val lb as = limbs_val lb (run_alu lb Alu_ADD bs cs)"
    using run_alu_value [of bs cs lb Alu_ADD] add_value_mod [OF eq] limbs_val_bound [OF assms(3)] assms
    by (simp only: alu_spec.simps)
qed (use run_alu_shape [of bs cs lb Alu_ADD] assms in simp_all)

lemma alu_sub_sound:
  assumes "limbs_ok lb bs" "limbs_ok lb cs" "limbs_ok lb as"
    and len: "length bs = n" "length cs = n" "length as = n"
    and eq: "limbs_val lb as + limbs_val lb cs = limbs_val lb bs + 2 ^ (lb * n) * k"
    and lb: "lb \<le> 8"
  shows "as = run_alu lb Alu_SUB bs cs"
proof (rule limbs_val_inject [of lb])
  show "limbs_val lb as = limbs_val lb (run_alu lb Alu_SUB bs cs)"
    using run_alu_value [of bs cs lb Alu_SUB] sub_value_mod [OF eq] limbs_val_bound [OF assms(3)] assms
    by (simp only: alu_spec.simps)
qed (use run_alu_shape [of bs cs lb Alu_SUB] assms in simp_all)

lemma alu_flags_one_hot:
  fixes cols :: "'f::field base_alu_cols"
  assumes "all_satisfied (map assert_bool (alu_flags cols))"
    and "fold (\<lambda>flag acc. acc + flag) (alu_flags cols) 0 = 1" and "8 < CHAR('f)"
  obtains j where "j < 5" "\<And>i. i < 5 \<Longrightarrow> alu_flags cols ! i = (if i = j then 1 else 0)"
proof -
  have sum: "sum_list (alu_flags cols) = 1"
    using assms(2) fold_add_eq_sum [of "\<lambda>x. x" "alu_flags cols" 0] by simp
  have bool: "alu_flags cols ! i = 0 \<or> alu_flags cols ! i = 1" if "i < length (alu_flags cols)" for i
    using assms(1) that by (simp add: nth_mem)
  have len: "length (alu_flags cols) = 5" by (simp add: alu_flags_def)
  obtain j where j: "j < length (alu_flags cols)" "alu_flags cols ! j = 1"
      "\<And>i. i < length (alu_flags cols) \<Longrightarrow> i \<noteq> j \<Longrightarrow> alu_flags cols ! i = 0"
    using one_hot_flags [OF bool sum] assms(3) len by auto
  then show ?thesis using that [of j] len by auto
qed

text \<open>What the two lookup expressions say about one limb of the result.\<close>

lemma alu_limb_or:
  assumes "2 * a - of_nat b - of_nat c = (of_nat (b XOR c) :: 'f::field)" "8 < CHAR('f)"
  shows "a = of_nat (b OR c)"
proof -
  have two: "(2 :: 'f) \<noteq> 0" using two_power_neq_0_char [of 1, where 'f = 'f] assms(2) by simp
  have "2 * a = (of_nat (b + c + (b XOR c)) :: 'f)"
    using assms(1) by (simp add: algebra_simps)
  also have "\<dots> = 2 * of_nat (b OR c)" by (simp only: or_eq_xor_add [symmetric]) simp
  finally show ?thesis using two by simp
qed

lemma alu_limb_and:
  assumes "of_nat b + of_nat c - 2 * a = (of_nat (b XOR c) :: 'f::field)" "8 < CHAR('f)"
  shows "a = of_nat (b AND c)"
proof -
  have two: "(2 :: 'f) \<noteq> 0" using two_power_neq_0_char [of 1, where 'f = 'f] assms(2) by simp
  have "2 * a + of_nat (b XOR c) = (of_nat (b + c) :: 'f)"
    using assms(1) by (simp add: algebra_simps)
  also have "\<dots> = of_nat (b XOR c) + 2 * of_nat (b AND c)"
    unfolding add_eq_xor_and [of b c] by simp
  finally show ?thesis using two by simp
qed

lemma fels_of_bounded:
  assumes "\<And>i. i < length fs \<Longrightarrow> \<exists>x < 2 ^ lb. fs ! i = (of_nat x :: 'f::semiring_1)"
  obtains xs where "fs = fels xs" "limbs_ok lb xs" "length xs = length fs"
proof -
  define xs where "xs = map (\<lambda>i. SOME x. x < 2 ^ lb \<and> fs ! i = of_nat x) [0..<length fs]"
  have xs: "xs ! i < 2 ^ lb \<and> fs ! i = of_nat (xs ! i)" if "i < length fs" for i
    using someI_ex [OF assms [OF that]] that by (simp add: xs_def)
  have len: "length xs = length fs" by (simp add: xs_def)
  show ?thesis
  proof (rule that [of xs])
    show "fs = fels xs" by (rule nth_equalityI) (use xs len in auto)
    show "limbs_ok lb xs" using xs len by (simp add: list_all_length)
  qed (rule len)
qed

text \<open>The context of an operation on given operands.\<close>

definition alu_ctx ::
  "nat \<Rightarrow> base_alu_air \<Rightarrow> BaseAluOpcode \<Rightarrow> nat list \<Rightarrow> nat list \<Rightarrow>
   ('f::field, 'f minimal_instruction) adapter_air_context" where
  "alu_ctx lb air op bs cs =
     \<lparr>to_pc = None, reads = [fels bs, fels cs], writes = [fels (run_alu lb op bs cs)],
      instruction = \<lparr>is_valid = 1, opcode = of_nat (alu_air_offset air + repr_of alu_opcodes op)\<rparr>\<rparr>"

lemma base_alu_eval_sound:
  fixes cols :: "'f::field base_alu_cols"
  assumes acc: "accepts T (base_alu_eval n lb air cols)"
    and table: "\<And>k. T (alu_bus air) k \<Longrightarrow> bitwise_table lb k"
    and valid: "is_valid (instruction (core_ctx (base_alu_eval n lb air cols))) = 1"
    and b: "alu_b cols = fels bs" "limbs_ok lb bs" "length bs = n"
    and c: "alu_c cols = fels cs" "limbs_ok lb cs" "length cs = n"
    and a: "length (alu_a cols) = n"
    and lb: "lb \<le> 8" and char: "2 ^ (lb + 3) < CHAR('f)"
  shows "\<exists>op. core_ctx (base_alu_eval n lb air cols) = alu_ctx lb air op bs cs"
proof -
  obtain as "is" ctx where ev: "base_alu_eval n lb air cols = (as, is, ctx)" by (metis prod.exhaust)
  have sat: "all_satisfied as" and look: "lookups_ok T is" and val: "is_valid (instruction ctx) = 1"
    using acc valid by (simp_all add: ev accepts_def)
  have "(2::nat) ^ 3 \<le> 2 ^ (lb + 3)" by (intro power_increasing) simp_all
  then have c8: "8 < CHAR('f)" using char by simp
  have c2: "2 ^ (lb + 2) < CHAR('f)" using char by (simp add: power_add)
  have v: "fold (\<lambda>flag acc. acc + flag) (alu_flags cols) 0 = 1"
    using ev val by (auto simp: base_alu_eval_def Let_def)
  obtain j where j: "j < 5" "\<And>i. i < 5 \<Longrightarrow> alu_flags cols ! i = (if i = j then 1 else 0)"
    by (rule alu_flags_one_hot [of cols]) (use ev sat v c8 in \<open>auto simp: base_alu_eval_def Let_def\<close>)
  have len: "length (alu_flags cols) = 5" "length alu_opcodes = 5"
    by (simp_all add: alu_flags_def alu_opcodes_def)
  have "expected_opcode (alu_flags cols) alu_opcodes = (of_nat j :: 'f)"
    by (rule expected_opcode_one_hot) (use j len in simp_all)
  then have opc: "opcode (instruction ctx) = of_nat (alu_air_offset air + j)"
    using ev by (auto simp: base_alu_eval_def Let_def expr_to_global_expr_def)
  have io: "to_pc ctx = None" "reads ctx = [fels bs, fels cs]" "writes ctx = [alu_a cols]"
    using ev b c by (auto simp: base_alu_eval_def Let_def)
  have carry: "\<forall>i<n.
      (opcode_add_flag cols = 0 \<or> alu_carry (inverse (2 ^ lb)) (fels bs) (fels cs) (alu_a cols) i = 0 \<or>
       alu_carry (inverse (2 ^ lb)) (fels bs) (fels cs) (alu_a cols) i = 1) \<and>
      (opcode_sub_flag cols = 0 \<or> alu_carry (inverse (2 ^ lb)) (alu_a cols) (fels cs) (fels bs) i = 0 \<or>
       alu_carry (inverse (2 ^ lb)) (alu_a cols) (fels cs) (fels bs) i = 1)"
    using ev sat b(1) c(1) by (clarsimp simp: base_alu_eval_def Let_def)
  have xor: "bitwise_table lb
      [not_f w * alu_a cols ! i + w * of_nat (bs ! i), not_f w * alu_a cols ! i + w * of_nat (cs ! i),
       opcode_xor_flag cols * alu_a cols ! i
         + opcode_or_flag cols * (2 * alu_a cols ! i - of_nat (bs ! i) - of_nat (cs ! i))
         + opcode_and_flag cols * (of_nat (bs ! i) + of_nat (cs ! i) - 2 * alu_a cols ! i), 1]"
    if "i < n" "w = opcode_xor_flag cols + opcode_or_flag cols + opcode_and_flag cols" for i w
    using ev look table that b c v
    by (auto simp: base_alu_eval_def Let_def send_xor_def bitwise_push_def)
  have flags: "opcode_add_flag cols = (if j = 0 then 1 else 0)"
    "opcode_sub_flag cols = (if j = 1 then 1 else 0)" "opcode_xor_flag cols = (if j = 2 then 1 else 0)"
    "opcode_or_flag cols = (if j = 3 then 1 else 0)" "opcode_and_flag cols = (if j = 4 then 1 else 0)"
    using j(2) [of 0] j(2) [of 1] j(2) [of 2] j(2) [of 3] j(2) [of 4]
    by (simp_all add: alu_flags_def)
  have arith: "\<exists>as. alu_a cols = fels as \<and> limbs_ok lb as \<and> length as = n"
    if "opcode_xor_flag cols = 0" "opcode_or_flag cols = 0" "opcode_and_flag cols = 0"
  proof -
    have "\<exists>x < 2 ^ lb. alu_a cols ! i = of_nat x" if "i < length (alu_a cols)" for i
      using xor [of i 0] \<open>opcode_xor_flag cols = 0\<close> \<open>opcode_or_flag cols = 0\<close>
        \<open>opcode_and_flag cols = 0\<close> that a
      by (auto simp: bitwise_table_xor not_f_def)
    then show ?thesis using a fels_of_bounded [of "alu_a cols" lb] by metis
  qed
  have bitwise: "z = of_nat (bs ! i XOR cs ! i)"
    if "bitwise_table lb [of_nat (bs ! i), of_nat (cs ! i), z :: 'f, 1]" "i < n" for i z
  proof -
    obtain x y where xy: "x < 2 ^ lb" "y < 2 ^ lb" "of_nat (bs ! i) = (of_nat x :: 'f)"
        "of_nat (cs ! i) = (of_nat y :: 'f)" "z = of_nat (x XOR y)"
      using \<open>bitwise_table _ _\<close> unfolding bitwise_table_xor by blast
    have "bs ! i < 2 ^ lb" "cs ! i < 2 ^ lb" using b c that(2) by (simp_all add: list_all_length)
    moreover have "2 ^ lb < CHAR('f)" using char by (simp add: power_add)
    ultimately show ?thesis using xy by (simp add: of_nat_eq_iff_char)
  qed
  have same: "alu_a cols = fels (run_alu lb (alu_opcodes ! j) bs cs)"
  proof -
    consider "j = 0" | "j = 1" | "j = 2" | "j = 3" | "j = 4" using j(1) by linarith
    then show ?thesis
    proof cases
      case 1
      then obtain as where as: "alu_a cols = fels as" "limbs_ok lb as" "length as = n"
        using arith flags by auto
      obtain k where "limbs_val lb bs + limbs_val lb cs = limbs_val lb as + 2 ^ (lb * n) * k"
        using alu_carry_chain [OF b(2) c(2) as(2) b(3) c(3) as(3) c2] carry as(1) flags 1 by force
      then have "as = run_alu lb Alu_ADD bs cs"
        by (rule alu_add_sound [OF b(2) c(2) as(2) b(3) c(3) as(3) _ lb])
      then show ?thesis using 1 as(1) by (simp add: alu_opcodes_def)
    next
      case 2
      then obtain as where as: "alu_a cols = fels as" "limbs_ok lb as" "length as = n"
        using arith flags by auto
      obtain k where "limbs_val lb as + limbs_val lb cs = limbs_val lb bs + 2 ^ (lb * n) * k"
        using alu_carry_chain [OF as(2) c(2) b(2) as(3) c(3) b(3) c2] carry as(1) flags 2 by force
      then have "as = run_alu lb Alu_SUB bs cs"
        by (rule alu_sub_sound [OF b(2) c(2) as(2) b(3) c(3) as(3) _ lb])
      then show ?thesis using 2 as(1) by (simp add: alu_opcodes_def)
    next
      case 3
      have "alu_a cols ! i = of_nat (bs ! i XOR cs ! i)" if "i < n" for i
        using bitwise [OF _ that] xor [OF that, of 1] flags 3 by (simp add: not_f_def)
      then show ?thesis using a b c 3
        by (intro nth_equalityI) (simp_all add: alu_opcodes_def run_xor_def)
    next
      case 4
      have "alu_a cols ! i = of_nat (bs ! i OR cs ! i)" if "i < n" for i
        by (rule alu_limb_or [OF _ c8], rule bitwise [OF _ that])
          (use xor [OF that, of 1] flags 4 in \<open>simp add: not_f_def\<close>)
      then show ?thesis using a b c 4
        by (intro nth_equalityI) (simp_all add: alu_opcodes_def run_or_def)
    next
      case 5
      have "alu_a cols ! i = of_nat (bs ! i AND cs ! i)" if "i < n" for i
        by (rule alu_limb_and [OF _ c8], rule bitwise [OF _ that])
          (use xor [OF that, of 1] flags 5 in \<open>simp add: not_f_def\<close>)
      then show ?thesis using a b c 5
        by (intro nth_equalityI) (simp_all add: alu_opcodes_def run_and_def)
    qed
  qed
  have "j = repr_of alu_opcodes (alu_opcodes ! j)"
    using j(1) by (subst repr_of_nth) (simp_all add: alu_opcodes_def)
  then have "ctx = alu_ctx lb air (alu_opcodes ! j) bs cs"
    using opc io same val by (simp add: alu_ctx_def)
  then show ?thesis unfolding ev by auto
qed


section \<open>Completeness of the trace filler\<close>

lemma alu_carry_of_carries:
  assumes "carries_ok lb 0 ps qs rs k" "length qs = length ps" "length rs = length ps"
    and "2 ^ lb < CHAR('f::field)" "i < length ps"
  shows "alu_carry (inverse (of_nat (2 ^ lb))) (fels ps) (fels qs) (fels rs) i = (of_nat (k i) :: 'f)"
  using assms(5)
proof (induction i)
  case 0
  have p: "(2 ^ lb :: 'f) \<noteq> 0" using assms(4) by (rule two_power_neq_0_char)
  have "ps ! 0 + qs ! 0 = rs ! 0 + 2 ^ lb * k 0" using assms(1) 0 by (auto simp: carries_ok_def)
  from arg_cong [OF this, of "of_nat :: nat \<Rightarrow> 'f"]
  have "(of_nat (ps ! 0) + of_nat (qs ! 0) :: 'f) = of_nat (rs ! 0) + 2 ^ lb * of_nat (k 0)"
    by simp
  then show ?case using 0 assms p by simp
next
  case (Suc i)
  have p: "(2 ^ lb :: 'f) \<noteq> 0" using assms(4) by (rule two_power_neq_0_char)
  have "ps ! Suc i + qs ! Suc i + k i = rs ! Suc i + 2 ^ lb * k (Suc i)"
    using assms(1) Suc.prems by (auto simp: carries_ok_def dest!: spec [of _ "Suc i"])
  from arg_cong [OF this, of "of_nat :: nat \<Rightarrow> 'f"]
  have "(of_nat (ps ! Suc i) + of_nat (qs ! Suc i) + of_nat (k i) :: 'f) =
      of_nat (rs ! Suc i) + 2 ^ lb * of_nat (k (Suc i))"
    by simp
  then have "of_nat (ps ! Suc i) + of_nat (qs ! Suc i) - of_nat (rs ! Suc i) + of_nat (k i) =
      2 ^ lb * (of_nat (k (Suc i)) :: 'f)"
    by (simp add: algebra_simps)
  then show ?case using Suc assms p by simp
qed

lemma alu_carry_bool:
  assumes "carries_ok lb 0 ps qs rs k" "length qs = length ps" "length rs = length ps"
    and "2 ^ lb < CHAR('f::field)" "i < length ps"
  shows "alu_carry (inverse (of_nat (2 ^ lb))) (fels ps) (fels qs) (fels rs) i \<in> {0, 1 :: 'f}"
proof -
  have "k i \<le> 1" using assms(1,5) by (simp add: carries_ok_def)
  then show ?thesis unfolding alu_carry_of_carries [OF assms] by (cases "k i") auto
qed

lemma or_xor_field: "2 * of_nat (x OR y) - of_nat x - of_nat y = (of_nat (x XOR y) :: 'f::field)"
  for x y :: nat
proof -
  have "of_nat (2 * (x OR y)) = (of_nat (x + y + (x XOR y)) :: 'f)" by (simp only: or_eq_xor_add)
  then show ?thesis by simp
qed

lemma and_xor_field: "of_nat x + of_nat y - 2 * of_nat (x AND y) = (of_nat (x XOR y) :: 'f::field)"
  for x y :: nat
proof -
  have "of_nat (x + y) = (of_nat ((x XOR y) + 2 * (x AND y)) :: 'f)" by (simp only: add_eq_xor_and [symmetric])
  then show ?thesis by simp
qed

lemma alu_opcodes_simps [simp]: "length alu_opcodes = 5" "op \<in> set alu_opcodes"
  by (cases op; simp add: alu_opcodes_def)+

lemma base_alu_fill_complete:
  fixes cols :: "'f::field base_alu_cols"
  assumes fill: "base_alu_fill_core lb op rec = (cols, reqs)"
    and ev: "base_alu_eval n lb air cols = (as, is, ctx)"
    and ok: "limbs_ok lb (alur_b rec)" "limbs_ok lb (alur_c rec)"
    and len: "length (alur_b rec) = n" "length (alur_c rec) = n"
    and lb: "lb \<le> 8" and char: "2 ^ lb < CHAR('f)"
  shows "all_satisfied as \<and> is = concat (map (bitwise_lookup (alu_bus air)) reqs) \<and>
    list_all (bitwise_request_ok lb) reqs \<and>
    ctx = alu_ctx lb air op (alur_b rec) (alur_c rec)"
proof -
  let ?b = "alur_b rec" and ?c = "alur_c rec"
  let ?a = "run_alu lb op ?b ?c"
  have cols: "cols = fst (base_alu_fill_core lb op rec)" and reqs: "reqs = snd (base_alu_fill_core lb op rec :: 'f base_alu_cols \<times> _)"
    using fill by simp_all
  have shape: "length ?a = n" "limbs_ok lb ?a"
    using run_alu_shape [of ?b ?c lb op] ok len lb by simp_all
  have ab: "?a ! i < 2 ^ lb" "?b ! i < 2 ^ lb" "?c ! i < 2 ^ lb" if "i < n" for i
    using that ok shape len by (simp_all add: list_all_length)
  have add: "\<exists>k. carries_ok lb 0 ?b ?c (run_add lb ?b ?c) k \<and> length (run_add lb ?b ?c) = n"
    using run_add_loop_carries [of ?b ?c lb 0] ok len lb by (auto simp: run_add_def)
  have sub: "\<exists>k. carries_ok lb 0 (run_subtract lb ?b ?c) ?c ?b k \<and> length (run_subtract lb ?b ?c) = n"
    using run_subtract_loop_carries [of ?b ?c lb 0] ok len lb by (auto simp: run_subtract_def)
  have sat: "all_satisfied as"
  proof (cases op)
    case Alu_ADD
    then show ?thesis using ev add alu_carry_bool [of lb ?b ?c, OF _ _ _ char] len
      unfolding cols by (auto simp: base_alu_eval_def base_alu_fill_core_def Let_def alu_flags_def)
  next
    case Alu_SUB
    then show ?thesis using ev sub alu_carry_bool [of lb _ ?c ?b, OF _ _ _ char] len
      unfolding cols by (auto simp: base_alu_eval_def base_alu_fill_core_def Let_def alu_flags_def)
  qed (use ev in \<open>auto simp: cols base_alu_eval_def base_alu_fill_core_def Let_def alu_flags_def\<close>)
  have look: "is = concat (map (bitwise_lookup (alu_bus air)) reqs)"
  proof (rule nth_equalityI)
    have "is = map (\<lambda>i. is ! i) [0..<n]" "length is = n"
      using ev by (auto simp: base_alu_eval_def Let_def)
    then show "length is = length (concat (map (bitwise_lookup (alu_bus air)) reqs))"
      using len shape(1) unfolding reqs
      by (cases op) (simp_all add: base_alu_fill_core_def Let_def comp_def case_prod_unfold concat_map_singleton)
    fix i assume "i < length is"
    then have i: "i < n" using \<open>length is = n\<close> by simp
    show "is ! i = concat (map (bitwise_lookup (alu_bus air)) reqs) ! i"
      using ev i len shape(1) unfolding cols reqs
      by (cases op) (auto simp: base_alu_eval_def base_alu_fill_core_def Let_def alu_flags_def
          air_defs comp_def case_prod_unfold concat_map_singleton or_xor_field and_xor_field run_xor_def run_or_def
          run_and_def)
  qed
  have req: "list_all (bitwise_request_ok lb) reqs"
    using ok shape len unfolding reqs by (auto simp: base_alu_fill_core_def Let_def list_all_length)
  have ctx: "ctx = alu_ctx lb air op ?b ?c"
    using ev unfolding cols alu_ctx_def
    by (cases op) (auto simp: base_alu_eval_def base_alu_fill_core_def Let_def alu_flags_def
        alu_opcodes_def expr_to_global_expr_def expected_opcode_def upt_rec)
  show ?thesis using sat look req ctx by blast
qed


lemma base_alu_complete:
  fixes rec :: base_alu_record
  assumes "limbs_ok lb (alur_b rec)" "limbs_ok lb (alur_c rec)"
    and "length (alur_b rec) = n" "length (alur_c rec) = n"
    and "lb \<le> 8" "2 ^ lb < CHAR('f::field)" "\<And>k. bitwise_table lb k \<Longrightarrow> T (alu_bus air) k"
  shows "accepts T (base_alu_eval n lb air (fst (base_alu_fill_core lb op rec) :: 'f base_alu_cols)) \<and>
    core_ctx (base_alu_eval n lb air (fst (base_alu_fill_core lb op rec) :: 'f base_alu_cols)) =
    alu_ctx lb air op (alur_b rec) (alur_c rec)"
proof -
  obtain cols :: "'f base_alu_cols" and reqs where f: "base_alu_fill_core lb op rec = (cols, reqs)"
    by (metis prod.exhaust)
  obtain as "is" ctx where e: "base_alu_eval n lb air cols = (as, is, ctx)" by (metis prod.exhaust)
  show ?thesis
    using base_alu_fill_complete [OF f e assms(1-6)] lookups_ok_bitwise [of lb reqs T] assms(7)
    by (simp add: f e accepts_def)
qed

definition alu_ops_ok :: "nat \<Rightarrow> nat \<Rightarrow> BaseAluOpcode \<times> nat list \<times> nat list \<Rightarrow> bool" where
  "alu_ops_ok n lb = (\<lambda>(op, bs, cs). limbs_ok lb bs \<and> limbs_ok lb cs \<and> length bs = n \<and> length cs = n)"

definition alu_row_wf :: "nat \<Rightarrow> nat \<Rightarrow> 'f::field base_alu_cols \<Rightarrow> bool" where
  "alu_row_wf n lb cols \<longleftrightarrow> length (alu_a cols) = n \<and>
     (\<exists>bs cs. alu_b cols = fels bs \<and> alu_c cols = fels cs \<and> limbs_ok lb bs \<and> limbs_ok lb cs \<and>
        length bs = n \<and> length cs = n)"

lemma alu_ctx_functional:
  assumes "alu_ops_ok n lb (op, bs, cs)" "alu_ops_ok n lb (op', bs', cs')"
    and char: "2 ^ (lb + 3) < CHAR('f::field)" and off: "alu_air_offset air + 5 < CHAR('f)"
    and eq: "reads (alu_ctx lb air op bs cs :: ('f, _) adapter_air_context) = reads (alu_ctx lb air op' bs' cs')"
      "instruction (alu_ctx lb air op bs cs :: ('f, _) adapter_air_context) = instruction (alu_ctx lb air op' bs' cs')"
  shows "op = op' \<and> bs = bs' \<and> cs = cs'"
proof -
  have lb: "2 ^ lb < CHAR('f)" using char by (simp add: power_add)
  have "(fels bs :: 'f list) = fels bs'" "(fels cs :: 'f list) = fels cs'"
    using eq(1) by (simp_all add: alu_ctx_def)
  then have bc: "bs = bs'" "cs = cs'"
    using fels_inject_limbs [OF _ _ lb] assms(1,2) by (auto simp: alu_ops_ok_def)
  have "op = op'"
    by (rule opcode_inject [where off = "alu_air_offset air" and vs = alu_opcodes and 'f = 'f])
      (use eq(2) off in \<open>simp_all add: alu_ctx_def\<close>)
  with bc show ?thesis by simp
qed

section \<open>The chip of the RV32 extension\<close>

text \<open>\<open>Rv32BaseAluAir\<close>: four limbs of eight bits over BabyBear, at its class offset.\<close>

definition rv32_alu_air :: "nat \<Rightarrow> base_alu_air" where
  "rv32_alu_air b = \<lparr>alu_bus = b, alu_air_offset = alu_offset\<rparr>"

interpretation rv32_alu: core_chip "\<lambda>_. bitwise_table 8" "base_alu_eval 4 8 (rv32_alu_air b)"
  "alu_row_wf 4 8 :: bb base_alu_cols \<Rightarrow> bool" "alu_ops_ok 4 8"
  "\<lambda>(op, bs, cs). alu_ctx 8 (rv32_alu_air b) op bs cs"
  "\<lambda>(op, bs, cs). fst (base_alu_fill_core 8 op
     \<lparr>alur_b = bs, alur_c = cs, alur_local_opcode = repr_of alu_opcodes op\<rparr>)"
  for b
proof (unfold_locales, goal_cases)
  case (1 cols)
  then obtain bs cs where r: "alu_b cols = fels bs" "alu_c cols = fels cs" "limbs_ok 8 bs"
      "limbs_ok 8 cs" "length bs = 4" "length cs = 4" "length (alu_a cols) = 4"
    by (auto simp: alu_row_wf_def)
  obtain op where "core_ctx (base_alu_eval 4 8 (rv32_alu_air b) cols) = alu_ctx 8 (rv32_alu_air b) op bs cs"
    using base_alu_eval_sound [OF 1(2) _ 1(3) r(1,3,5) r(2,4,6,7)] by (auto simp: bb_CHAR)
  with r show ?case by (intro exI [of _ "(op, bs, cs)"]) (simp add: alu_ops_ok_def)
next
  case (2 x)
  then show ?case
    using base_alu_complete [where lb = 8 and n = 4 and 'f = bb]
    by (auto simp: alu_ops_ok_def bb_CHAR split: prod.splits)
next
  case (3 x y)
  then show ?case
    using alu_ctx_functional [where n = 4 and lb = 8 and 'f = bb and air = "rv32_alu_air b"]
    by (fastforce simp: bb_CHAR rv32_alu_air_def alu_offset_def split: prod.splits)
qed

section \<open>Properties\<close>

text \<open>
  C1. A row of the ALU chip that satisfies its constraints and is marked valid carries one of the
  five opcodes, and the limbs it writes are in range and are the sum, difference, XOR, OR or AND
  of its operands modulo \<open>2 ^ (limb_bits * num_limbs)\<close>.
\<close>

theorem base_alu_air_sound:
  fixes cols :: "'f::field base_alu_cols"
  assumes "accepts T (base_alu_eval n lb air cols)"
    and "\<And>k. T (alu_bus air) k \<Longrightarrow> bitwise_table lb k"
    and "is_valid (instruction (core_ctx (base_alu_eval n lb air cols))) = 1"
    and "alu_b cols = fels bs" "limbs_ok lb bs" "length bs = n"
    and "alu_c cols = fels cs" "limbs_ok lb cs" "length cs = n"
    and "length (alu_a cols) = n" and "lb \<le> 8" and "2 ^ (lb + 3) < CHAR('f)"
  shows "\<exists>op as. core_ctx (base_alu_eval n lb air cols) =
      \<lparr>to_pc = None, reads = [fels bs, fels cs], writes = [fels as],
       instruction = \<lparr>is_valid = 1, opcode = of_nat (alu_air_offset air + repr_of alu_opcodes op)\<rparr>\<rparr> \<and>
    limbs_ok lb as \<and> length as = n \<and>
    limbs_val lb as = alu_spec (lb * n) op (limbs_val lb bs) (limbs_val lb cs)"
proof -
  obtain op where "core_ctx (base_alu_eval n lb air cols) = alu_ctx lb air op bs cs"
    using base_alu_eval_sound [OF assms] by blast
  moreover have "limbs_val lb (run_alu lb op bs cs) = alu_spec (lb * n) op (limbs_val lb bs) (limbs_val lb cs)"
    "length (run_alu lb op bs cs) = n" "limbs_ok lb (run_alu lb op bs cs)"
    using run_alu_value [of bs cs lb op] run_alu_shape [of bs cs lb op] assms by simp_all
  ultimately show ?thesis unfolding alu_ctx_def by blast
qed

theorem base_alu_air_sound_witness:
  "let r = \<lparr>alur_b = [1, 0, 0, 0], alur_c = [2, 0, 0, 0], alur_local_opcode = 1\<rparr>;
       cols = fst (base_alu_fill_core 8 Alu_SUB r) :: bb base_alu_cols
   in \<exists>op as. core_ctx (base_alu_eval 4 8 (rv32_alu_air 0) cols) =
      \<lparr>to_pc = None, reads = [fels [1, 0, 0, 0], fels [2, 0, 0, 0]], writes = [fels as],
       instruction = \<lparr>is_valid = 1,
         opcode = of_nat (alu_air_offset (rv32_alu_air 0) + repr_of alu_opcodes op)\<rparr>\<rparr> \<and>
    limbs_ok 8 as \<and> length as = 4 \<and> limbs_val 8 as = alu_spec (8 * 4) op 1 2"
proof -
  let ?r = "\<lparr>alur_b = [1, 0, 0, 0], alur_c = [2, 0, 0, 0], alur_local_opcode = 1\<rparr>"
  let ?cols = "fst (base_alu_fill_core 8 Alu_SUB ?r) :: bb base_alu_cols"
  have c: "accepts (\<lambda>_. bitwise_table 8) (base_alu_eval 4 8 (rv32_alu_air 0) ?cols) \<and>
      core_ctx (base_alu_eval 4 8 (rv32_alu_air 0) ?cols) =
      alu_ctx 8 (rv32_alu_air 0) Alu_SUB (alur_b ?r) (alur_c ?r)"
    by (rule base_alu_complete) (simp_all add: bb_CHAR)
  then have "is_valid (instruction (core_ctx (base_alu_eval 4 8 (rv32_alu_air 0) ?cols))) = 1"
    by (simp add: alu_ctx_def)
  then show ?thesis unfolding Let_def
    using base_alu_air_sound [OF conjunct1 [OF c], of "[1, 0, 0, 0]" "[2, 0, 0, 0]"]
    by (simp add: bb_CHAR base_alu_fill_core_def run_subtract_def Let_def)
qed

text \<open>
  C2. The row that \<open>fill_trace_row\<close> writes for a record of the executor satisfies every
  constraint, looks up on the bus exactly what the filler asked the bitwise chip to count, and
  hands over the operands, the result of \<open>run_alu\<close> and the opcode.
\<close>

theorem base_alu_filled_row:
  fixes cols :: "'f::field base_alu_cols"
  assumes "base_alu_fill_core lb op rec = (cols, reqs)"
    and "base_alu_eval n lb air cols = (as, is, ctx)"
    and "limbs_ok lb (alur_b rec)" "limbs_ok lb (alur_c rec)"
    and "length (alur_b rec) = n" "length (alur_c rec) = n"
    and "lb \<le> 8" "2 ^ lb < CHAR('f)"
  shows "all_satisfied as \<and> is = concat (map (bitwise_lookup (alu_bus air)) reqs) \<and>
    list_all (bitwise_request_ok lb) reqs \<and>
    ctx = \<lparr>to_pc = None, reads = [fels (alur_b rec), fels (alur_c rec)],
       writes = [fels (run_alu lb op (alur_b rec) (alur_c rec))],
       instruction = \<lparr>is_valid = 1, opcode = of_nat (alu_air_offset air + repr_of alu_opcodes op)\<rparr>\<rparr>"
  using base_alu_fill_complete [OF assms] unfolding alu_ctx_def .

theorem base_alu_filled_row_witness:
  "let r = \<lparr>alur_b = [250, 100, 100, 100], alur_c = [10, 20, 30, 40], alur_local_opcode = 0\<rparr>;
       (cols, reqs) = base_alu_fill_core 8 Alu_ADD r :: bb base_alu_cols \<times> _;
       (as, is, ctx) = base_alu_eval 4 8 (rv32_alu_air 0) cols
   in all_satisfied as \<and> is = concat (map (bitwise_lookup 0) reqs) \<and>
      writes ctx = [fels [4, 121, 130, 140]]"
proof -
  let ?r = "\<lparr>alur_b = [250, 100, 100, 100], alur_c = [10, 20, 30, 40], alur_local_opcode = 0\<rparr>"
  have run: "run_alu 8 Alu_ADD [250, 100, 100, 100] [10, 20, 30, 40] = [4, 121, 130, 140]"
    by (simp add: run_add_def width_defs Let_def)
  obtain cols :: "bb base_alu_cols" and reqs where f: "base_alu_fill_core 8 Alu_ADD ?r = (cols, reqs)"
    by (metis prod.exhaust)
  obtain as "is" ctx where e: "base_alu_eval 4 8 (rv32_alu_air 0) cols = (as, is, ctx)"
    by (metis prod.exhaust)
  show ?thesis
    using base_alu_filled_row [OF f e] run
    by (simp add: f e bb_CHAR) (simp add: rv32_alu_air_def)
qed

text \<open>
  \<open>run_alu\<close>, the function the executor and the filler share, computes on limbs what the
  operation computes on 32-bit (in general \<open>limb_bits * num_limbs\<close>-bit) numbers.
\<close>

theorem run_alu_computes:
  assumes "length xs = length ys" "limbs_ok lb xs" "limbs_ok lb ys" "lb \<le> 8"
  shows "run_alu lb op xs ys =
    to_limbs lb (length xs) (alu_spec (lb * length xs) op (limbs_val lb xs) (limbs_val lb ys))"
  using run_alu_value [OF assms, of op] run_alu_shape [OF assms, of op]
    to_limbs_val [of lb "run_alu lb op xs ys"]
  by simp

theorem run_alu_computes_witness:
  "run_alu 8 Alu_SUB [0, 0, 0, 0] [1, 0, 0, 0] = to_limbs 8 (length [0, 0, 0, 0 :: nat])
     (alu_spec (8 * length [0, 0, 0, 0 :: nat]) Alu_SUB (limbs_val 8 [0, 0, 0, 0]) (limbs_val 8 [1, 0, 0, 0])) \<and>
   run_alu 8 Alu_SUB [0, 0, 0, 0] [1, 0, 0, 0] = [255, 255, 255, 255]"
  by (rule conjI, rule run_alu_computes) (simp_all add: run_subtract_def width_defs Let_def)

end
