(* ===== verification/Compare.thy ===== *)
theory Compare
  imports Executor Baby_Bear
begin

text \<open>
  The comparison of two numbers in limbs that \<open>less_than/core.rs\<close>, \<open>branch_lt/core.rs\<close> and
  \<open>divrem/core.rs\<close> share: a marker on the most significant limb where the numbers differ, the
  difference there as a non-zero limb, and the top limb read as a signed field element. The
  constraint loop and its two directions are here once; the chips use them.
\<close>

section \<open>Signed and unsigned values\<close>

text \<open>The top limb as a signed digit, and a number in limbs as a signed integer.\<close>

definition msb_int :: "nat \<Rightarrow> bool \<Rightarrow> nat \<Rightarrow> int" where
  "msb_int lb sg x = int x - (if sg \<and> 2 ^ (lb - 1) \<le> x then 2 ^ lb else 0)"

definition sval :: "nat \<Rightarrow> bool \<Rightarrow> nat list \<Rightarrow> int" where
  "sval lb sg xs = int (limbs_val lb xs) -
     (if sg \<and> 2 ^ (lb - 1) \<le> xs ! (length xs - 1) then 2 ^ (lb * length xs) else 0)"

definition digit :: "nat \<Rightarrow> bool \<Rightarrow> nat list \<Rightarrow> nat \<Rightarrow> int" where
  "digit lb sg xs i = (if i = length xs - 1 then msb_int lb sg (xs ! i) else int (xs ! i))"

lemma sval_digits:
  assumes "xs \<noteq> []"
  shows "sval lb sg xs = (\<Sum>i<length xs. digit lb sg xs i * 2 ^ (lb * i))"
proof -
  obtain m where m: "length xs = Suc m" using assms by (cases xs) auto
  have "(\<Sum>i<length xs. digit lb sg xs i * 2 ^ (lb * i)) =
      (\<Sum>i<m. int (xs ! i) * 2 ^ (lb * i)) + msb_int lb sg (xs ! m) * 2 ^ (lb * m)"
    by (simp add: m digit_def)
  also have "\<dots> = (\<Sum>i<Suc m. int (xs ! i) * 2 ^ (lb * i)) -
      (if sg \<and> 2 ^ (lb - 1) \<le> xs ! m then 2 ^ (lb * Suc m) else 0)"
    by (simp add: msb_int_def algebra_simps power_add)
  also have "(\<Sum>i<Suc m. int (xs ! i) * 2 ^ (lb * i)) = int (limbs_val lb xs)"
    by (simp only: limbs_val_sum m of_nat_sum of_nat_mult of_nat_power of_nat_numeral)
  finally show ?thesis by (simp add: sval_def m)
qed

lemma sum_digits_bound:
  fixes X :: "nat \<Rightarrow> int"
  assumes "\<And>i. i < j \<Longrightarrow> 0 \<le> X i \<and> X i < B"
  shows "0 \<le> (\<Sum>i<j. X i * B ^ i) \<and> (\<Sum>i<j. X i * B ^ i) < B ^ j"
  using assms
proof (induction j)
  case 0
  then show ?case by simp
next
  case (Suc j)
  then have IH: "0 \<le> (\<Sum>i<j. X i * B ^ i)" "(\<Sum>i<j. X i * B ^ i) < B ^ j" by auto
  have X: "0 \<le> X j" "X j + 1 \<le> B" using Suc.prems [of j] by auto
  then have B: "0 \<le> B ^ j" using IH by simp
  have "(X j + 1) * B ^ j \<le> B * B ^ j" using X(2) B by (rule mult_right_mono)
  moreover have "0 \<le> X j * B ^ j" using X(1) B by simp
  moreover have "(X j + 1) * B ^ j = X j * B ^ j + B ^ j" by (simp add: algebra_simps)
  ultimately show ?case using IH by simp
qed

text \<open>Numbers compare as their most significant different digits do.\<close>

lemma digits_less:
  fixes X Y :: "nat \<Rightarrow> int"
  assumes j: "j < n" and above: "\<And>i. j < i \<Longrightarrow> i < n \<Longrightarrow> X i = Y i"
    and X: "\<And>i. i < j \<Longrightarrow> 0 \<le> X i \<and> X i < B" and Y: "\<And>i. i < j \<Longrightarrow> 0 \<le> Y i \<and> Y i < B"
    and less: "X j < Y j" and B: "0 < B"
  shows "(\<Sum>i<n. X i * B ^ i) < (\<Sum>i<n. Y i * B ^ i)"
proof -
  have split: "(\<Sum>i<n. Z i * B ^ i) = (\<Sum>i<j. Z i * B ^ i) + Z j * B ^ j + (\<Sum>i\<in>{Suc j..<n}. Z i * B ^ i)"
    for Z :: "nat \<Rightarrow> int"
  proof -
    have "{..<n} = {..<Suc j} \<union> {Suc j..<n}" "{..<Suc j} \<inter> {Suc j..<n} = {}" using j by auto
    then have "(\<Sum>i<n. Z i * B ^ i) = (\<Sum>i<Suc j. Z i * B ^ i) + (\<Sum>i\<in>{Suc j..<n}. Z i * B ^ i)"
      by (simp add: sum.union_disjoint del: sum.lessThan_Suc)
    then show ?thesis by simp
  qed
  have "(\<Sum>i\<in>{Suc j..<n}. X i * B ^ i) = (\<Sum>i\<in>{Suc j..<n}. Y i * B ^ i)"
    using above by (intro sum.cong) auto
  moreover have "X j * B ^ j + B ^ j \<le> Y j * B ^ j"
  proof -
    have "(X j + 1) * B ^ j \<le> Y j * B ^ j" using less B by (intro mult_right_mono) auto
    then show ?thesis by (simp add: algebra_simps)
  qed
  ultimately show ?thesis
    using split [of X] split [of Y] sum_digits_bound [of j X B, OF X] sum_digits_bound [of j Y B, OF Y]
    by linarith
qed

lemma digit_low:
  assumes "limbs_ok lb xs" "i < length xs - 1"
  shows "0 \<le> digit lb sg xs i \<and> digit lb sg xs i < 2 ^ lb"
proof -
  have "xs ! i < 2 ^ lb" using assms by (simp add: list_all_length)
  then have "int (xs ! i) < 2 ^ lb" by (metis of_nat_less_iff of_nat_numeral of_nat_power)
  then show ?thesis using assms(2) by (simp add: digit_def)
qed

lemma sval_less:
  assumes ok: "limbs_ok lb xs" "limbs_ok lb ys" and len: "length ys = length xs" and j: "j < length xs"
    and above: "\<And>i. j < i \<Longrightarrow> i < length xs \<Longrightarrow> digit lb sg xs i = digit lb sg ys i"
    and less: "digit lb sg xs j < digit lb sg ys j"
  shows "sval lb sg xs < sval lb sg ys"
proof -
  have "(\<Sum>i<length xs. digit lb sg xs i * (2 ^ lb) ^ i) <
      (\<Sum>i<length xs. digit lb sg ys i * (2 ^ lb) ^ i)"
    by (rule digits_less [where j = j and X = "digit lb sg xs" and Y = "digit lb sg ys"])
      (use digit_low [OF ok(1), of _ sg] digit_low [OF ok(2), of _ sg] len j above less in auto)
  moreover have "xs \<noteq> []" "ys \<noteq> []" using len j by auto
  ultimately show ?thesis by (simp add: sval_digits len power_mult)
qed

lemma sval_eq:
  assumes "length ys = length xs" "xs \<noteq> []"
    and "\<And>i. i < length xs \<Longrightarrow> digit lb sg xs i = digit lb sg ys i"
  shows "sval lb sg xs = sval lb sg ys"
proof -
  have "ys \<noteq> []" using assms(1,2) by auto
  then show ?thesis using assms sval_digits [of xs lb sg] sval_digits [of ys lb sg] by simp
qed

lemma sval_unsigned [simp]: "sval lb False xs = int (limbs_val lb xs)"
  by (simp add: sval_def)

section \<open>The constraint loop\<close>

text \<open>
  \<open>for i in (0..NUM_LIMBS).rev()\<close> over the differences \<open>d i\<close>: the assertions of each
  iteration and the final \<open>prefix_sum\<close>.
\<close>

fun diff_loop ::
  "(nat \<Rightarrow> 'f::field) \<Rightarrow> 'f \<Rightarrow> 'f list \<Rightarrow> 'f \<Rightarrow> 'f \<Rightarrow> nat list \<Rightarrow> 'f assertion list \<times> 'f" where
  "diff_loop d cmp marker diff_val prefix_sum [] = ([], prefix_sum)"
| "diff_loop d cmp marker diff_val prefix_sum (i # is) =
     (let diff = d i * (of_nat 2 * cmp - 1);
          prefix_sum = prefix_sum + marker ! i;
          (as, s) = diff_loop d cmp marker diff_val prefix_sum is
      in ([assert_bool (marker ! i), assert_zero (not_f prefix_sum * diff),
           When (marker ! i) (assert_eq diff_val diff)] @ as, s))"

text \<open>The difference of limb \<open>i\<close>: of the signed top limbs at the top, of the limbs elsewhere.\<close>

definition limb_diff :: "nat \<Rightarrow> 'f::field list \<Rightarrow> 'f list \<Rightarrow> 'f \<Rightarrow> 'f \<Rightarrow> nat \<Rightarrow> 'f" where
  "limb_diff n x y x_msb_f y_msb_f i = (if i = n - 1 then y_msb_f - x_msb_f else y ! i - x ! i)"

text \<open>\<open>b_diff * (2 ^ LIMB_BITS - b_diff) == 0\<close> for the top limb.\<close>

definition msb_assertion :: "nat \<Rightarrow> 'f::field \<Rightarrow> 'f \<Rightarrow> 'f assertion" where
  "msb_assertion lb x msb_f = assert_zero ((x - msb_f) * (of_nat (2 ^ lb) - (x - msb_f)))"

lemma diff_loop_cong:
  "(\<And>i. i \<in> set is \<Longrightarrow> d i = d' i) \<Longrightarrow>
   diff_loop d cmp marker dv p is = diff_loop d' cmp marker dv p is"
  by (induction "is" arbitrary: p) (simp_all add: Let_def)

lemma diff_loop_sum:
  assumes "diff_loop d cmp marker dv p is = (as, s)" "all_satisfied as"
  shows "\<exists>k \<le> length is. s = p + of_nat k"
  using assms
proof (induction "is" arbitrary: p as)
  case Nil
  then show ?case by simp
next
  case (Cons i "is")
  obtain as' where r: "diff_loop d cmp marker dv (p + marker ! i) is = (as', s)"
    and as': "all_satisfied as'" "marker ! i = 0 \<or> marker ! i = 1"
    using Cons.prems by (auto simp: Let_def split: prod.splits)
  obtain k where k: "k \<le> length is" "s = p + marker ! i + of_nat k" using Cons.IH [OF r as'(1)] by auto
  from as'(2) show ?case
  proof
    assume "marker ! i = 0"
    then show ?thesis using k by (intro exI [of _ k]) simp
  next
    assume "marker ! i = 1"
    then show ?thesis using k by (intro exI [of _ "Suc k"]) simp
  qed
qed

lemma two_neq_one [simp]: "(2 :: 'f::field) \<noteq> 1"
  by (metis add_cancel_right_right one_add_one zero_neq_one)

text \<open>Either no marker is set and every difference is zero, or the first marker decides.\<close>

lemma diff_loop_first:
  fixes d :: "nat \<Rightarrow> 'f::field"
  assumes "diff_loop d cmp marker dv 0 is = (as, s)" "all_satisfied as" "cmp = 0 \<or> cmp = 1"
  shows "(s = 0 \<and> (\<forall>i\<in>set is. d i = 0)) \<or>
    (\<exists>pre j post k. is = pre @ j # post \<and> (\<forall>i\<in>set pre. d i = 0) \<and>
       dv = d j * (of_nat 2 * cmp - 1) \<and> s = of_nat (Suc k) \<and> k \<le> length post)"
  using assms
proof (induction "is" arbitrary: as)
  case Nil
  then show ?case by simp
next
  case (Cons i "is")
  obtain as' where r: "diff_loop d cmp marker dv (marker ! i) is = (as', s)" and as': "all_satisfied as'"
    and m: "marker ! i = 0 \<or> marker ! i = 1" "not_f (marker ! i) * (d i * (of_nat 2 * cmp - 1)) = 0"
      "marker ! i = 0 \<or> dv = d i * (of_nat 2 * cmp - 1)"
    using Cons.prems by (auto simp: Let_def split: prod.splits)
  show ?case
  proof (cases "marker ! i = 0")
    case True
    then have "d i = 0" using m(2) Cons.prems(3) by (auto simp: not_f_def)
    moreover have "(s = 0 \<and> (\<forall>i\<in>set is. d i = 0)) \<or>
      (\<exists>pre j post k. is = pre @ j # post \<and> (\<forall>i\<in>set pre. d i = 0) \<and>
       dv = d j * (of_nat 2 * cmp - 1) \<and> s = of_nat (Suc k) \<and> k \<le> length post)"
      using Cons.IH [OF _ as'] r True Cons.prems(3) by simp
    ultimately show ?thesis
    proof (elim disjE exE conjE, goal_cases)
      case 1
      then show ?case by simp
    next
      case (2 pre j post k)
      then show ?case
        by (intro disjI2 exI [of _ "i # pre"] exI [of _ j] exI [of _ post] exI [of _ k]) simp
    qed
  next
    case False
    with m have "marker ! i = 1" "dv = d i * (of_nat 2 * cmp - 1)" by auto
    moreover obtain k where "k \<le> length is" "s = marker ! i + of_nat k"
      using diff_loop_sum [OF r as'] by auto
    ultimately show ?thesis
      by (intro disjI2 exI [of _ "[]"] exI [of _ i] exI [of _ "is"] exI [of _ k]) simp
  qed
qed

lemma field_digit_sign:
  fixes dv :: "'f::field"
  assumes dv: "of_int D * (of_nat 2 * from_bool c - 1) = dv" "dv - 1 = of_nat u"
    and u: "u < 2 ^ lb" and D: "\<bar>D\<bar> \<le> 2 ^ lb" and char: "2 ^ (lb + 2) < CHAR('f)"
  shows "(c \<longrightarrow> 0 < D) \<and> (\<not> c \<longrightarrow> D < 0)"
proof -
  let ?e = "if c then D else - D"
  have ch: "4 * 2 ^ lb < int CHAR('f)"
  proof -
    have "int (4 * 2 ^ lb) < int CHAR('f)" using char by (simp only: of_nat_less_iff) simp
    then show ?thesis by simp
  qed
  have ui: "int u < 2 ^ lb" using u by (metis of_nat_less_iff of_nat_numeral of_nat_power)
  have "of_int ?e = (of_int (int u + 1) :: 'f)"
  proof -
    have "dv = of_nat u + 1" using dv(2) by (simp add: algebra_simps)
    then show ?thesis using dv(1) by (cases c) auto
  qed
  then have "?e = int u + 1"
  proof (rule of_int_eq_charD)
    have "\<bar>?e\<bar> = \<bar>D\<bar>" by simp
    then show "\<bar>?e - (int u + 1)\<bar> < int CHAR('f)" using D ui ch by linarith
  qed
  then show ?thesis by (auto split: if_splits)
qed

text \<open>With \<open>h = 2 ^ (LIMB_BITS - 1)\<close> the facts about the top limb are linear.\<close>

lemma half_obtain:
  assumes "0 < lb"
  obtains h :: int where "(2::int) ^ lb = 2 * h" "1 \<le> h"
    "\<And>x. x < 2 ^ lb \<longleftrightarrow> int x < 2 * h"
    "\<And>sg x. msb_int lb sg x = int x - (if sg \<and> h \<le> int x then 2 * h else 0)"
    "of_nat (2 ^ (lb - 1)) = (of_int h :: 'f::ring_1)" "of_nat (2 ^ lb) = (of_int (2 * h) :: 'f)"
proof -
  let ?h = "2 ^ (lb - 1) :: int"
  have p: "(2::int) ^ lb = 2 * ?h" using assms by (cases lb) simp_all
  have i: "(x < 2 ^ lb) = (int x < 2 ^ lb)" "(2 ^ (lb - 1) \<le> x) = (?h \<le> int x)" for x
    by (simp_all only: of_nat_less_iff [symmetric, where 'a = int] of_nat_le_iff [symmetric, where 'a = int]
        of_nat_power of_nat_numeral)
  show ?thesis
  proof (rule that [of ?h])
    show "msb_int lb sg x = int x - (if sg \<and> ?h \<le> int x then 2 * ?h else 0)" for sg x
      by (simp only: msb_int_def i p)
    show "of_nat (2 ^ lb) = (of_int (2 * ?h) :: 'f)"
      by (simp only: p [symmetric] of_nat_power of_nat_numeral of_int_power of_int_numeral)
  qed (simp_all add: i p)
qed

lemma char_int:
  assumes "2 ^ (lb + k) < CHAR('f::field)"
  shows "2 ^ k * (2::int) ^ lb < int CHAR('f)"
proof -
  have "int (2 ^ (lb + k)) < int CHAR('f)" using assms by (simp only: of_nat_less_iff)
  moreover have "int (2 ^ (lb + k)) = 2 ^ k * 2 ^ lb" by (simp add: power_add mult.commute)
  ultimately show ?thesis by linarith
qed

text \<open>The signed top limb is forced by its assertion and its range check.\<close>

lemma msb_sound:
  fixes msb_f :: "'f::field"
  assumes x: "x < 2 ^ lb" and lb: "0 < lb" and char: "2 ^ (lb + 2) < CHAR('f)"
    and sat: "satisfied (msb_assertion lb (of_nat x) msb_f)"
    and range: "msb_f + of_nat (2 ^ (lb - 1)) * from_bool sg = of_nat u" "u < 2 ^ lb"
  shows "msb_f = of_int (msb_int lb sg x)"
proof -
  obtain h :: int where h: "(2::int) ^ lb = 2 * h" "1 \<le> h" "\<And>x. x < 2 ^ lb \<longleftrightarrow> int x < 2 * h"
    "\<And>sg x. msb_int lb sg x = int x - (if sg \<and> h \<le> int x then 2 * h else 0)"
    "of_nat (2 ^ (lb - 1)) = (of_int h :: 'f)" "of_nat (2 ^ lb) = (of_int (2 * h) :: 'f)"
    using half_obtain [OF lb] by blast
  have ch: "8 * h < int CHAR('f)" using char_int [OF char] by (simp add: h(1))
  have xi: "int x < 2 * h" "int u < 2 * h" using x range(2) by (simp_all only: h(3))
  obtain e where e: "msb_f = of_int (int x - e)" "e = 0 \<or> e = 2 * h"
  proof -
    have "of_nat x - msb_f = 0 \<or> of_int (2 * h) - (of_nat x - msb_f) = 0"
      using sat by (simp only: msb_assertion_def satisfied.simps mult_eq_0_iff h(6))
    then show ?thesis using that [of 0] that [of "2 * h"] by (auto simp: algebra_simps)
  qed
  have "of_int (int x - e + (if sg then h else 0)) = (of_int (int u) :: 'f)"
    using range(1) e(1) unfolding h(5) by (cases sg) simp_all
  then have "int x - e + (if sg then h else 0) = int u"
  proof (rule of_int_eq_charD)
    show "\<bar>int x - e + (if sg then h else 0) - int u\<bar> < int CHAR('f)"
      using e(2) xi h(2) ch by (cases sg) auto
  qed
  then have "int x - e = msb_int lb sg x"
    using e(2) xi unfolding h(4) by (cases sg) auto
  then show ?thesis using e(1) by simp
qed

lemma digit_diff_bound:
  assumes "limbs_ok lb xs" "limbs_ok lb ys" "length ys = length xs" "i < length xs" "0 < lb"
  shows "\<bar>digit lb sg ys i - digit lb sg xs i\<bar> \<le> 2 ^ lb"
proof -
  obtain h :: int where h: "(2::int) ^ lb = 2 * h" "1 \<le> h" "\<And>x. x < 2 ^ lb \<longleftrightarrow> int x < 2 * h"
    "\<And>sg x. msb_int lb sg x = int x - (if sg \<and> h \<le> int x then 2 * h else 0)"
    "of_nat (2 ^ (lb - 1)) = (of_int h :: int)" "of_nat (2 ^ lb) = (of_int (2 * h) :: int)"
    using half_obtain [OF assms(5), where 'f = int] by metis
  have "xs ! i < 2 ^ lb" "ys ! i < 2 ^ lb" using assms by (simp_all add: list_all_length)
  then have "int (xs ! i) < 2 * h" "int (ys ! i) < 2 * h" by (simp_all only: h(3))
  then have "\<bar>msb_int lb sg (ys ! i) - msb_int lb sg (xs ! i)\<bar> \<le> 2 * h"
    "\<bar>int (ys ! i) - int (xs ! i)\<bar> \<le> 2 * h"
    unfolding h(4) abs_le_iff by auto
  then show ?thesis unfolding digit_def h(1) assms(3) by (simp only: split: if_splits) simp
qed

lemma rev_upt_split:
  assumes "rev [0..<n] = pre @ j # post"
  shows "j < n" "j < i \<Longrightarrow> i < n \<Longrightarrow> i \<in> set pre" "i \<in> set pre \<Longrightarrow> i < n"
proof -
  have m: "set pre \<union> {j} \<union> set post = {0..<n}" using arg_cong [OF assms, of set] by auto
  then show "j < n" "i \<in> set pre \<Longrightarrow> i < n" by auto
  have "sorted_wrt (\<lambda>x y. y \<le> x) (pre @ j # post)"
    unfolding assms [symmetric] by (simp add: sorted_wrt_rev)
  then have "\<forall>x\<in>set post. x \<le> j" by (auto simp: sorted_wrt_append)
  then show "j < i \<Longrightarrow> i < n \<Longrightarrow> i \<in> set pre" using m by fastforce
qed

text \<open>
  The loop, its boolean sum and the range check of the difference decide the comparison of the
  two numbers.
\<close>

lemma diff_loop_sound:
  fixes dv :: "'f::field"
  assumes run: "diff_loop (limb_diff n (fels xs) (fels ys) (of_int (msb_int lb sg (xs ! (n - 1))))
        (of_int (msb_int lb sg (ys ! (n - 1))))) (from_bool c) marker dv 0 (rev [0..<n]) = (as, s)"
    and sat: "all_satisfied as" "s = 0 \<or> s = 1" "s = 0 \<longrightarrow> \<not> c"
    and range: "s \<noteq> 0 \<longrightarrow> (\<exists>u < 2 ^ lb. dv - 1 = of_nat u)"
    and ok: "limbs_ok lb xs" "limbs_ok lb ys" "length xs = n" "length ys = n"
    and n: "0 < n" "n < CHAR('f)" and lb: "0 < lb" and char: "2 ^ (lb + 2) < CHAR('f)"
  shows "c \<longleftrightarrow> sval lb sg xs < sval lb sg ys"
proof -
  let ?D = "\<lambda>i. digit lb sg ys i - digit lb sg xs i"
  have d: "limb_diff n (fels xs) (fels ys) (of_int (msb_int lb sg (xs ! (n - 1))))
      (of_int (msb_int lb sg (ys ! (n - 1)))) i = (of_int (?D i) :: 'f)" if "i < n" for i
    using that ok by (simp add: limb_diff_def digit_def)
  have bnd: "\<bar>?D i\<bar> \<le> 2 ^ lb" if "i < n" for i
    using digit_diff_bound [OF ok(1,2)] that ok lb by simp
  have ch: "4 * (2::int) ^ lb < int CHAR('f)" using char_int [OF char] by simp
  have zero: "digit lb sg xs i = digit lb sg ys i" if "of_int (?D i) = (0 :: 'f)" "i < n" for i
  proof -
    have "\<bar>?D i\<bar> < int CHAR('f)" using bnd [OF that(2)] ch by (smt (verit) zero_less_power)
    then show ?thesis using of_int_eq_0_charD [OF that(1)] by simp
  qed
  consider "s = 0" "\<forall>i\<in>set (rev [0..<n]). of_int (?D i) = (0 :: 'f)"
    | pre j post k where "rev [0..<n] = pre @ j # post" "\<forall>i\<in>set pre. of_int (?D i) = (0 :: 'f)"
      "dv = of_int (?D j) * (of_nat 2 * from_bool c - 1)" "s = of_nat (Suc k)" "k \<le> length post"
  proof -
    have "diff_loop (\<lambda>i. of_int (?D i)) (from_bool c) marker dv 0 (rev [0..<n]) = (as, s)"
      by (subst diff_loop_cong [where d' = "limb_diff n (fels xs) (fels ys)
          (of_int (msb_int lb sg (xs ! (n - 1)))) (of_int (msb_int lb sg (ys ! (n - 1))))"])
        (simp_all only: d set_rev set_upt atLeastLessThan_iff run)
    from diff_loop_first [OF this sat(1)] show ?thesis using that by (metis from_bool_def)
  qed
  then show ?thesis
  proof cases
    case 1
    then have "sval lb sg xs = sval lb sg ys" by (intro sval_eq) (use zero ok n in auto)
    then show ?thesis using 1 sat(3) by simp
  next
    case 2
    have "length (pre @ j # post) = n" unfolding 2(1) [symmetric] by simp
    then have "Suc k < CHAR('f)" using 2(5) n by simp
    then have "s \<noteq> 0" unfolding 2(4) by (simp only: of_nat_eq_0_char nat.distinct not_False_eq_True)
    then obtain u where u: "u < 2 ^ lb" "dv - 1 = of_nat u" using range by blast
    note j = rev_upt_split(1) [OF 2(1)] and above = rev_upt_split(2) [OF 2(1)]
    have sign: "(c \<longrightarrow> 0 < ?D j) \<and> (\<not> c \<longrightarrow> ?D j < 0)"
      by (rule field_digit_sign [OF 2(3) [symmetric] u(2,1) bnd [OF j] char])
    show ?thesis
    proof (cases c)
      case True
      then have "sval lb sg xs < sval lb sg ys"
        using sign above zero 2(2) j ok by (intro sval_less [of lb xs ys j]) auto
      then show ?thesis using True by simp
    next
      case False
      then have "sval lb sg ys < sval lb sg xs"
        using sign above zero [symmetric] 2(2) j ok by (intro sval_less [of lb ys xs j]) auto
      then show ?thesis using False by simp
    qed
  qed
qed

section \<open>The comparison the executors run\<close>

text \<open>
  \<open>for i in (0..NUM_LIMBS).rev() { if x[i] != y[i] { return ... } }\<close>: the most significant
  index below \<open>n\<close> where the lists differ.
\<close>

fun diff_idx :: "nat list \<Rightarrow> nat list \<Rightarrow> nat \<Rightarrow> nat option" where
  "diff_idx x y 0 = None"
| "diff_idx x y (Suc i) = (if x ! i \<noteq> y ! i then Some i else diff_idx x y i)"

text \<open>\<open>(x[NUM_LIMBS - 1] >> (LIMB_BITS - 1) == 1) && signed\<close>.\<close>

definition sign_of :: "nat \<Rightarrow> bool \<Rightarrow> nat list \<Rightarrow> bool" where
  "sign_of lb sg x \<longleftrightarrow> wshr (x ! (length x - 1)) (lb - 1) = 1 \<and> sg"

lemma diff_idx_numeral [simp]:
  "diff_idx x y (numeral k) = (if x ! pred_numeral k \<noteq> y ! pred_numeral k then Some (pred_numeral k)
     else diff_idx x y (pred_numeral k))"
  by (simp add: numeral_eq_Suc)

lemma diff_idx_None: "diff_idx x y n = None \<longleftrightarrow> (\<forall>i<n. x ! i = y ! i)"
  by (induction n) (auto simp: less_Suc_eq)

lemma diff_idx_Some:
  "diff_idx x y n = Some j \<Longrightarrow> j < n \<and> x ! j \<noteq> y ! j \<and> (\<forall>i. j < i \<longrightarrow> i < n \<longrightarrow> x ! i = y ! i)"
  by (induction n) (auto simp: less_Suc_eq split: if_splits)

lemma sign_of_iff:
  assumes "limbs_ok lb xs" "xs \<noteq> []" "0 < lb"
  shows "sign_of lb sg xs \<longleftrightarrow> sg \<and> 2 ^ (lb - 1) \<le> xs ! (length xs - 1)"
proof -
  have x: "xs ! (length xs - 1) < 2 * 2 ^ (lb - 1)"
    using assms power_Suc [of "2::nat" "lb - 1"] by (simp add: list_all_length)
  have "(xs ! (length xs - 1) div 2 ^ (lb - 1) = 1) = (2 ^ (lb - 1) \<le> xs ! (length xs - 1))"
    using x by (cases "2 ^ (lb - 1) \<le> xs ! (length xs - 1)") (simp_all add: le_div_geq)
  then show ?thesis by (auto simp: sign_of_def wshr_def)
qed

lemma digit_less_xor:
  assumes ok: "limbs_ok lb xs" "limbs_ok lb ys" and len: "length xs = n" "length ys = n"
    and lb: "0 < lb" and j: "j < n" "xs ! j \<noteq> ys ! j"
    and above: "\<forall>i. j < i \<longrightarrow> i < n \<longrightarrow> xs ! i = ys ! i"
  shows "digit lb sg xs j < digit lb sg ys j \<longleftrightarrow>
      (((xs ! j < ys ! j) \<noteq> sign_of lb sg xs) \<noteq> sign_of lb sg ys)"
    and "digit lb sg xs j \<noteq> digit lb sg ys j"
proof -
  have ne: "xs \<noteq> []" "ys \<noteq> []" using len j by auto
  note sx = sign_of_iff [OF ok(1) ne(1) lb, of sg] and sy = sign_of_iff [OF ok(2) ne(2) lb, of sg]
  obtain h :: int where h: "(2::int) ^ lb = 2 * h" "1 \<le> h" "\<And>x. x < 2 ^ lb \<longleftrightarrow> int x < 2 * h"
    "\<And>sg x. msb_int lb sg x = int x - (if sg \<and> h \<le> int x then 2 * h else 0)"
    "of_nat (2 ^ (lb - 1)) = (of_int h :: int)"
    using half_obtain [OF lb, where 'f = int] by metis
  have half: "(2 ^ (lb - 1) \<le> x) = (h \<le> int x)" for x
    using h(5) by (metis of_int_eq_id id_apply of_nat_le_iff)
  have "xs ! j < 2 ^ lb" "ys ! j < 2 ^ lb" using ok len j by (simp_all add: list_all_length)
  then have bi: "int (xs ! j) < 2 * h" "int (ys ! j) < 2 * h" by (simp_all only: h(3))
  show "digit lb sg xs j < digit lb sg ys j \<longleftrightarrow>
      (((xs ! j < ys ! j) \<noteq> sign_of lb sg xs) \<noteq> sign_of lb sg ys)"
  proof (cases "j = n - 1")
    case True
    show ?thesis unfolding sx sy digit_def h(4) half len True [symmetric] if_True
      using bi j(2) by auto
  next
    case False
    then have "xs ! (n - 1) = ys ! (n - 1)" using above j by auto
    then have "sign_of lb sg xs = sign_of lb sg ys" unfolding sx sy len by simp
    then show ?thesis using False len by (auto simp: digit_def)
  qed
  show "digit lb sg xs j \<noteq> digit lb sg ys j"
    using bi j(2) by (auto simp: digit_def h(4) len split: if_splits)
qed

lemma digit_cong: "xs ! i = ys ! i \<Longrightarrow> length xs = length ys \<Longrightarrow> digit lb sg xs i = digit lb sg ys i"
  by (auto simp: digit_def)

lemma diff_idx_compare:
  assumes ok: "limbs_ok lb xs" "limbs_ok lb ys" and len: "length xs = n" "length ys = n"
    and lb: "0 < lb" and n: "0 < n"
  shows "sval lb sg xs < sval lb sg ys \<longleftrightarrow> (case diff_idx xs ys n of
    None \<Rightarrow> False | Some j \<Rightarrow> ((xs ! j < ys ! j) \<noteq> sign_of lb sg xs) \<noteq> sign_of lb sg ys)"
proof (cases "diff_idx xs ys n")
  case None
  then have "sval lb sg xs = sval lb sg ys"
    using n len by (intro sval_eq digit_cong) (auto simp: diff_idx_None)
  then show ?thesis using None by simp
next
  case (Some j)
  note j = diff_idx_Some [OF Some]
  note lt = digit_less_xor [OF ok len lb, of j sg]
  have eq: "digit lb sg xs i = digit lb sg ys i" if "j < i" "i < n" for i
    using j len that by (intro digit_cong) simp_all
  consider "digit lb sg xs j < digit lb sg ys j" | "digit lb sg ys j < digit lb sg xs j"
    using lt(2) j by fastforce
  then show ?thesis
  proof cases
    case 1
    then have "sval lb sg xs < sval lb sg ys" using eq j len ok by (intro sval_less [of lb xs ys j]) auto
    then show ?thesis using 1 lt(1) j Some by simp
  next
    case 2
    then have "sval lb sg ys < sval lb sg xs"
      using eq [symmetric] j len ok by (intro sval_less [of lb ys xs j]) auto
    then show ?thesis using 2 lt(1) j Some by simp
  qed
qed

section \<open>The columns the fillers write satisfy the loop\<close>

lemma diff_loop_append:
  "diff_loop d c m dv p (is @ js) =
   (let (as, s) = diff_loop d c m dv p is; (bs, t) = diff_loop d c m dv s js in (as @ bs, t))"
  by (induction "is" arbitrary: p) (auto simp: Let_def split: prod.splits)

lemma diff_loop_zeros:
  "\<forall>i\<in>set is. m ! i = 0 \<and> (p = 0 \<longrightarrow> d i = 0) \<Longrightarrow> p = 0 \<or> p = 1 \<Longrightarrow>
   \<exists>as. diff_loop d c m dv p is = (as, p) \<and> all_satisfied as"
  by (induction "is") (auto simp: Let_def not_f_def split: prod.splits)

lemma diff_loop_complete:
  assumes m: "\<forall>i<n. m ! i = (if i = j then 1 else 0)"
    and d: "\<forall>i<n. (j < n \<longrightarrow> j < i) \<longrightarrow> d i = 0"
    and dv: "j < n \<Longrightarrow> dv = d j * (of_nat 2 * c - 1)"
  shows "\<exists>as. diff_loop d c m dv 0 (rev [0..<n]) = (as, if j < n then 1 else 0) \<and> all_satisfied as"
proof (cases "j < n")
  case True
  then have split: "rev [0..<n] = rev [Suc j..<n] @ j # rev [0..<j]"
  proof -
    have "[0..<n] = [0..<j] @ [j..<n]" using upt_add_eq_append [of 0 j "n - j"] True by simp
    then show ?thesis using upt_conv_Cons [OF True] by simp
  qed
  obtain as where as: "diff_loop d c m dv 0 (rev [Suc j..<n]) = (as, 0)" "all_satisfied as"
    using diff_loop_zeros [of "rev [Suc j..<n]" m 0 d c dv] m d True by auto
  obtain bs where bs: "diff_loop d c m dv 1 (rev [0..<j]) = (bs, 1)" "all_satisfied bs"
    using diff_loop_zeros [of "rev [0..<j]" m 1 d c dv] m True by auto
  show ?thesis unfolding split diff_loop_append using as bs m True dv
    by (simp add: Let_def not_f_def)
next
  case False
  then show ?thesis using diff_loop_zeros [of "rev [0..<n]" m 0 d c dv] m d by auto
qed

lemma msb_complete:
  "satisfied (msb_assertion lb (of_nat x) (of_int (msb_int lb sg x)) :: 'f::field assertion)"
  by (simp add: msb_assertion_def msb_int_def)

text \<open>The value both fillers write into \<open>diff_val\<close>; \<open>j\<close> is \<open>diff_idx\<close>.\<close>

definition diff_val_fill ::
  "nat \<Rightarrow> nat \<Rightarrow> bool \<Rightarrow> nat list \<Rightarrow> nat list \<Rightarrow> 'f::field \<Rightarrow> 'f \<Rightarrow> 'f" where
  "diff_val_fill n j cmp x y x_msb_f y_msb_f =
     (if j = n then 0
      else if j = n - 1 then (if cmp then y_msb_f - x_msb_f else x_msb_f - y_msb_f)
      else if cmp then of_nat (wsub 8 (y ! j) (x ! j))
      else of_nat (wsub 8 (x ! j) (y ! j)))"

lemma diff_val_fill_eq:
  assumes ok: "limbs_ok lb xs" "limbs_ok lb ys" and len: "length xs = n" "length ys = n"
    and lb: "lb \<le> 8" and j: "j < n" and cmp: "cmp \<longleftrightarrow> digit lb sg xs j < digit lb sg ys j"
  shows "diff_val_fill n j cmp xs ys (of_int (msb_int lb sg (xs ! (n - 1))))
      (of_int (msb_int lb sg (ys ! (n - 1)))) =
    (of_nat (nat \<bar>digit lb sg ys j - digit lb sg xs j\<bar>) :: 'f::field)"
proof (cases "j = n - 1")
  case True
  then show ?thesis using j len cmp by (auto simp: diff_val_fill_def digit_def)
next
  case False
  have b: "xs ! j < 256" "ys ! j < 256"
    using ok len j pow_le_256 [OF lb] by (auto simp: list_all_length intro: less_le_trans)
  have c: "cmp \<longleftrightarrow> xs ! j < ys ! j" using cmp False len by (simp add: digit_def)
  have w: "wsub 8 (ys ! j) (xs ! j) = ys ! j - xs ! j" if "xs ! j < ys ! j"
    using that b by (intro wsub_small) simp_all
  have w': "wsub 8 (xs ! j) (ys ! j) = xs ! j - ys ! j" if "\<not> xs ! j < ys ! j"
    using that b by (intro wsub_small) simp_all
  show ?thesis using False j len c w w' by (auto simp: diff_val_fill_def digit_def nat_diff_distrib' of_nat_diff)
qed

end
