(* ===== verification/Less_Than.thy ===== *)
theory Less_Than
  imports Compare
begin

text \<open>
  \<open>extensions/rv32im/circuit/src/less_than/core.rs\<close>: the core chip for SLT and SLTU. The
  executor, the filler and the AIR; an accepted row writes 1 exactly when the first operand is
  smaller, as signed or unsigned numbers.
\<close>

section \<open>The model\<close>

record 'f less_than_cols =
  lt_b :: "'f list"
  lt_c :: "'f list"
  lt_cmp_result :: 'f
  opcode_slt_flag :: 'f
  opcode_sltu_flag :: 'f
  lt_b_msb_f :: 'f
  lt_c_msb_f :: 'f
  lt_diff_marker :: "'f list"
  lt_diff_val :: 'f

record less_than_air =
  lt_bus :: nat
  lt_offset :: nat

definition less_than_eval ::
  "nat \<Rightarrow> nat \<Rightarrow> less_than_air \<Rightarrow> 'f::field less_than_cols \<Rightarrow>
   ('f, 'f minimal_instruction) core_eval" where
  "less_than_eval num_limbs limb_bits air cols =
     (let flags = [opcode_slt_flag cols, opcode_sltu_flag cols];
          valid = fold (\<lambda>flag acc. acc + flag) flags 0;
          b = lt_b cols; c = lt_c cols;
          (loop, prefix_sum) =
            diff_loop (limb_diff num_limbs b c (lt_b_msb_f cols) (lt_c_msb_f cols))
              (lt_cmp_result cols) (lt_diff_marker cols) (lt_diff_val cols) 0 (rev [0..<num_limbs]);
          half = of_nat (2 ^ (limb_bits - 1)) * opcode_slt_flag cols
      in (map assert_bool flags @ [assert_bool valid, assert_bool (lt_cmp_result cols),
            msb_assertion limb_bits (b ! (num_limbs - 1)) (lt_b_msb_f cols),
            msb_assertion limb_bits (c ! (num_limbs - 1)) (lt_c_msb_f cols)] @ loop @
          [assert_bool prefix_sum, When (not_f prefix_sum) (assert_zero (lt_cmp_result cols))],
          [send_range (lt_bus air) (lt_b_msb_f cols + half) (lt_c_msb_f cols + half) valid,
           send_range (lt_bus air) (lt_diff_val cols - 1) 0 prefix_sum],
          \<lparr>to_pc = None, reads = [b, c], writes = [(replicate num_limbs 0)[0 := lt_cmp_result cols]],
           instruction = \<lparr>is_valid = valid,
             opcode = expected_opcode flags less_than_opcodes + of_nat (lt_offset air)\<rparr>\<rparr>))"

text \<open>\<open>run_less_than\<close>: \<open>(cmp_result, diff_idx, x_sign, y_sign)\<close>.\<close>

definition run_less_than ::
  "nat \<Rightarrow> nat \<Rightarrow> bool \<Rightarrow> nat list \<Rightarrow> nat list \<Rightarrow> bool \<times> nat \<times> bool \<times> bool" where
  "run_less_than num_limbs limb_bits is_slt x y =
     (let x_sign = wshr (x ! (num_limbs - 1)) (limb_bits - 1) = 1 \<and> is_slt;
          y_sign = wshr (y ! (num_limbs - 1)) (limb_bits - 1) = 1 \<and> is_slt
      in case diff_idx x y num_limbs of
           Some i \<Rightarrow> (((x ! i < y ! i) \<noteq> x_sign) \<noteq> y_sign, i, x_sign, y_sign)
         | None \<Rightarrow> (False, num_limbs, x_sign, y_sign))"

record less_than_record =
  ltr_b :: "nat list"
  ltr_c :: "nat list"
  ltr_local_opcode :: nat

definition less_than_execute ::
  "nat \<Rightarrow> nat \<Rightarrow> ('f, 'm, 'ar) adapter_trace_executor \<Rightarrow> nat \<Rightarrow> 'ar \<Rightarrow>
   ('m, 'ar \<times> less_than_record) vm_state_mut \<Rightarrow> 'f instr \<Rightarrow>
   execution_error + ('m, 'ar \<times> less_than_record) vm_state_mut" where
  "less_than_execute num_limbs limb_bits A offset fresh s i =
     (let r0 = a_start A (s_pc s) (s_memory s) fresh;
          (m1, r1, data) = a_read A (s_memory s) i r0;
          rs1 = data ! 0; rs2 = data ! 1;
          core = \<lparr>ltr_b = rs1, ltr_c = rs2, ltr_local_opcode = wrap 8 (local_opcode_idx (i_opcode i) offset)\<rparr>;
          (cmp_result, _, _, _) = run_less_than num_limbs limb_bits
            (ltr_local_opcode core = repr_of less_than_opcodes SLT) rs1 rs2;
          output = (replicate num_limbs 0)[0 := of_bool cmp_result];
          (m2, r2) = a_write A m1 i [output] r1
      in Inr (s\<lparr>s_memory := m2, s_arena := s_arena s @ [(r2, core)],
                s_pc := wadd 32 (s_pc s) DEFAULT_PC_STEP\<rparr>))"

text \<open>The top limb as a field element, and the byte that is range checked for it.\<close>

definition less_than_msb :: "nat \<Rightarrow> bool \<Rightarrow> bool \<Rightarrow> nat \<Rightarrow> 'f::field \<times> nat" where
  "less_than_msb limb_bits is_slt sign x =
     (if sign
      then (- of_nat (wsub 16 (wshl 16 1 limb_bits) x), wsub 8 x (wshl 8 1 (limb_bits - 1)))
      else (of_nat x, wadd 8 x (wshl 8 (of_bool is_slt) (limb_bits - 1))))"

definition less_than_fill_core ::
  "nat \<Rightarrow> nat \<Rightarrow> ('f::field \<Rightarrow> nat) \<Rightarrow> less_than_record \<Rightarrow> 'f less_than_cols \<times> lookup_request list" where
  "less_than_fill_core num_limbs limb_bits canon rec =
     (let b = ltr_b rec; c = ltr_c rec;
          is_slt = (ltr_local_opcode rec = repr_of less_than_opcodes SLT);
          (cmp_result, idx, b_sign, c_sign) = run_less_than num_limbs limb_bits is_slt b c;
          (b_msb_f, b_msb_range) = less_than_msb limb_bits is_slt b_sign (b ! (num_limbs - 1));
          (c_msb_f, c_msb_range) = less_than_msb limb_bits is_slt c_sign (c ! (num_limbs - 1));
          dv = diff_val_fill num_limbs idx cmp_result b c b_msb_f c_msb_f
      in (\<lparr>lt_b = fels b, lt_c = fels c, lt_cmp_result = from_bool cmp_result,
           opcode_slt_flag = from_bool is_slt, opcode_sltu_flag = from_bool (\<not> is_slt),
           lt_b_msb_f = b_msb_f, lt_c_msb_f = c_msb_f,
           lt_diff_marker = (if idx \<noteq> num_limbs then (replicate num_limbs 0)[idx := 1]
                             else replicate num_limbs 0),
           lt_diff_val = dv\<rparr>,
          Request_range b_msb_range c_msb_range #
          (if idx \<noteq> num_limbs then [Request_range (wsub 32 (canon dv) 1) 0] else [])))"

definition less_than_fill_trace_row ::
  "nat \<Rightarrow> nat \<Rightarrow> ('f::field \<Rightarrow> nat) \<Rightarrow> ('mh, 'ar, 'ac) adapter_filler \<Rightarrow> 'mh \<Rightarrow> 'ar \<Rightarrow>
   less_than_record \<Rightarrow> ('ac \<times> 'f less_than_cols) \<times> lookup_request list" where
  "less_than_fill_trace_row num_limbs limb_bits canon fill mem_helper arec rec =
     (let (acols, areqs) = fill mem_helper arec;
          (cols, reqs) = less_than_fill_core num_limbs limb_bits canon rec
      in ((acols, cols), areqs @ reqs))"

section \<open>\<open>run_less_than\<close> compares\<close>

lemma run_less_than_signs:
  assumes "length xs = n" "length ys = n"
  shows "run_less_than n lb sg xs ys =
    (case diff_idx xs ys n of
       Some i \<Rightarrow> (((xs ! i < ys ! i) \<noteq> sign_of lb sg xs) \<noteq> sign_of lb sg ys, i, sign_of lb sg xs, sign_of lb sg ys)
     | None \<Rightarrow> (False, n, sign_of lb sg xs, sign_of lb sg ys))"
  using assms by (simp add: run_less_than_def sign_of_def Let_def split: option.splits)

lemma run_less_than_correct:
  assumes "limbs_ok lb xs" "limbs_ok lb ys" "length xs = n" "length ys = n" "0 < lb" "0 < n"
  shows "fst (run_less_than n lb sg xs ys) \<longleftrightarrow> sval lb sg xs < sval lb sg ys"
  unfolding run_less_than_signs [OF assms(3,4)] diff_idx_compare [OF assms]
  by (auto split: option.splits)

section \<open>Soundness\<close>

definition lt_ctx ::
  "nat \<Rightarrow> nat \<Rightarrow> less_than_air \<Rightarrow> LessThanOpcode \<Rightarrow> nat list \<Rightarrow> nat list \<Rightarrow>
   ('f::field, 'f minimal_instruction) adapter_air_context" where
  "lt_ctx n lb air op bs cs =
     \<lparr>to_pc = None, reads = [fels bs, fels cs],
      writes = [(replicate n 0)[0 := from_bool (sval lb (op = SLT) bs < sval lb (op = SLT) cs)]],
      instruction = \<lparr>is_valid = 1, opcode = of_nat (lt_offset air + repr_of less_than_opcodes op)\<rparr>\<rparr>"

lemma two_flags:
  assumes "x = 0 \<or> x = 1" "y = 0 \<or> y = (1 :: 'f::field)" "x + y = 1"
  obtains b where "x = from_bool b" "y = from_bool (\<not> b)"
  using assms by (cases "x = 1") (auto intro: that [of True] that [of False])

lemma less_than_eval_sound:
  fixes cols :: "'f::field less_than_cols"
  assumes acc: "accepts T (less_than_eval n lb air cols)"
    and table: "\<And>k. T (lt_bus air) k \<Longrightarrow> bitwise_table lb k"
    and valid: "is_valid (instruction (core_ctx (less_than_eval n lb air cols))) = 1"
    and b: "lt_b cols = fels bs" "limbs_ok lb bs" "length bs = n"
    and c: "lt_c cols = fels cs" "limbs_ok lb cs" "length cs = n"
    and n: "0 < n" "n < CHAR('f)" and lb: "0 < lb" and char: "2 ^ (lb + 2) < CHAR('f)"
  shows "\<exists>op. core_ctx (less_than_eval n lb air cols) = lt_ctx n lb air op bs cs"
proof -
  obtain loop s where loop: "diff_loop (limb_diff n (fels bs) (fels cs) (lt_b_msb_f cols) (lt_c_msb_f cols))
      (lt_cmp_result cols) (lt_diff_marker cols) (lt_diff_val cols) 0 (rev [0..<n]) = (loop, s)"
    by (metis prod.exhaust)
  note ev = less_than_eval_def [of n lb air cols, unfolded Let_def b(1) c(1) loop prod.case]
  have sat: "opcode_slt_flag cols = 0 \<or> opcode_slt_flag cols = 1" "opcode_sltu_flag cols = 0 \<or> opcode_sltu_flag cols = 1"
      "lt_cmp_result cols = 0 \<or> lt_cmp_result cols = 1" "all_satisfied loop" "s = 0 \<or> s = 1"
      "s \<noteq> 1 \<Longrightarrow> lt_cmp_result cols = 0"
      "satisfied (msb_assertion lb (of_nat (bs ! (n - 1))) (lt_b_msb_f cols))"
      "satisfied (msb_assertion lb (of_nat (cs ! (n - 1))) (lt_c_msb_f cols))"
    using acc n b(3) c(3) by (auto simp: accepts_def ev not_f_def)
  have v: "opcode_slt_flag cols + opcode_sltu_flag cols = 1" using valid by (simp add: ev)
  obtain sg where sg: "opcode_slt_flag cols = from_bool sg" "opcode_sltu_flag cols = from_bool (\<not> sg)"
    by (rule two_flags [OF sat(1,2) v])
  obtain r where r: "lt_cmp_result cols = from_bool r" using sat(3) by (metis from_bool_simps)
  have look: "bitwise_table lb [lt_b_msb_f cols + of_nat (2 ^ (lb - 1)) * from_bool sg,
        lt_c_msb_f cols + of_nat (2 ^ (lb - 1)) * from_bool sg, 0, 0]"
      "s \<noteq> 0 \<Longrightarrow> bitwise_table lb [lt_diff_val cols - 1, 0, 0, 0]"
    using acc table v sg by (auto simp: accepts_def ev air_defs)
  obtain u w where uw: "u < 2 ^ lb" "w < 2 ^ lb"
      "lt_b_msb_f cols + of_nat (2 ^ (lb - 1)) * from_bool sg = of_nat u"
      "lt_c_msb_f cols + of_nat (2 ^ (lb - 1)) * from_bool sg = of_nat w"
    using look(1) by (auto simp: bitwise_table_range)
  have msb: "lt_b_msb_f cols = of_int (msb_int lb sg (bs ! (n - 1)))"
      "lt_c_msb_f cols = of_int (msb_int lb sg (cs ! (n - 1)))"
    using msb_sound [OF limbs_okD [OF b(2)] lb char sat(7) uw(3,1)]
      msb_sound [OF limbs_okD [OF c(2)] lb char sat(8) uw(4,2)] b(3) c(3) n(1) by simp_all
  have "r \<longleftrightarrow> sval lb sg bs < sval lb sg cs"
  proof (rule diff_loop_sound [OF _ sat(4,5) _ _ b(2) c(2) b(3) c(3) n lb char])
    show "diff_loop (limb_diff n (fels bs) (fels cs) (of_int (msb_int lb sg (bs ! (n - 1))))
        (of_int (msb_int lb sg (cs ! (n - 1))))) (from_bool r) (lt_diff_marker cols) (lt_diff_val cols) 0
        (rev [0..<n]) = (loop, s)" using loop by (simp only: msb r)
    show "s = 0 \<longrightarrow> \<not> r" using sat(6) r by (auto simp: from_bool_def split: if_splits)
    show "s \<noteq> 0 \<longrightarrow> (\<exists>u<2 ^ lb. lt_diff_val cols - 1 = of_nat u)"
      using look(2) by (auto simp: bitwise_table_range)
  qed
  then have "core_ctx (less_than_eval n lb air cols) = lt_ctx n lb air (if sg then SLT else SLTU) bs cs"
    by (simp add: ev lt_ctx_def b c sg r expected_opcode_def less_than_opcodes_def upt_rec)
  then show ?thesis by blast
qed

section \<open>Completeness\<close>

lemma less_than_msb_eq:
  assumes x: "x < 2 ^ lb" and lb: "0 < lb" "lb \<le> 8" and sign: "sign \<longleftrightarrow> sg \<and> 2 ^ (lb - 1) \<le> x"
  shows "\<exists>u < 2 ^ lb. (less_than_msb lb sg sign x :: 'f::field \<times> nat) = (of_int (msb_int lb sg x), u) \<and>
    of_nat u = (of_int (msb_int lb sg x) + of_nat (2 ^ (lb - 1)) * from_bool sg :: 'f)"
proof -
  obtain k where k: "lb = Suc k" using lb(1) by (cases lb) auto
  have le: "(2::nat) ^ lb \<le> 256" using lb(2) by (rule pow_le_256)
  then have k8: "(2::nat) ^ k \<le> 128" by (simp add: k)
  have sh: "wshl 8 1 (lb - 1) = 2 ^ k" "wshl 16 1 lb = 2 ^ lb" "wshl 8 0 (lb - 1) = 0"
    using k8 le by (simp_all add: wshl_def k)
  have x2: "x < 2 * 2 ^ k" using x by (simp add: k)
  show ?thesis
  proof (cases sign)
    case True
    have "wsub 16 (2 ^ lb) x = 2 ^ lb - x" "wsub 8 x (2 ^ k) = x - 2 ^ k"
      using True sign x le x2 k8 by (simp_all add: wsub_small k)
    then have "(less_than_msb lb sg sign x :: 'f \<times> nat) = (- of_nat (2 ^ lb - x), x - 2 ^ k)"
      using True by (simp only: less_than_msb_def sh if_True)
    then show ?thesis using True sign x2 k
      by (intro exI [of _ "x - 2 ^ k"]) (simp add: msb_int_def of_nat_diff)
  next
    case False
    have "wadd 8 x (2 ^ k) = x + 2 ^ k" if sg
      using that False sign x2 k8 by (simp add: wadd_small k)
    moreover have "wadd 8 x 0 = x" using x le by (simp add: wadd_small)
    ultimately have "(less_than_msb lb sg sign x :: 'f \<times> nat) = (of_nat x, if sg then x + 2 ^ k else x)"
      using False sh by (cases sg) (simp_all only: less_than_msb_def if_False if_True of_bool_eq)
    then show ?thesis using False sign x2 k by (cases sg) (simp_all add: msb_int_def)
  qed
qed

text \<open>The comparison at the index \<open>run_less_than\<close> returns, in terms of the digits.\<close>

lemma run_less_than_digits:
  assumes ok: "limbs_ok lb xs" "limbs_ok lb ys" "length xs = n" "length ys = n" and lb: "0 < lb"
    and run: "run_less_than n lb sg xs ys = (r, j, p, q)"
  shows "j \<le> n" "\<And>i. i < n \<Longrightarrow> (j < n \<longrightarrow> j < i) \<Longrightarrow> digit lb sg xs i = digit lb sg ys i"
    "j < n \<Longrightarrow> (r \<longleftrightarrow> digit lb sg xs j < digit lb sg ys j) \<and> digit lb sg xs j \<noteq> digit lb sg ys j"
    "j = n \<Longrightarrow> \<not> r" "p = sign_of lb sg xs" "q = sign_of lb sg ys"
proof -
  show "p = sign_of lb sg xs" "q = sign_of lb sg ys"
    using run run_less_than_signs [OF ok(3,4), of lb sg] by (auto split: option.splits)
  have c: "(diff_idx xs ys n = None \<and> j = n \<and> \<not> r) \<or> (diff_idx xs ys n = Some j \<and>
      (r \<longleftrightarrow> ((xs ! j < ys ! j) \<noteq> sign_of lb sg xs) \<noteq> sign_of lb sg ys))"
    using run run_less_than_signs [OF ok(3,4), of lb sg] by (auto split: option.splits)
  then show "j \<le> n" "j = n \<Longrightarrow> \<not> r" by (auto dest: diff_idx_Some)
  show "digit lb sg xs i = digit lb sg ys i" if "i < n" "j < n \<longrightarrow> j < i" for i
  proof (rule digit_cong)
    show "xs ! i = ys ! i" using c that by (auto simp: diff_idx_None dest: diff_idx_Some)
  qed (simp add: ok)
  show "(r \<longleftrightarrow> digit lb sg xs j < digit lb sg ys j) \<and> digit lb sg xs j \<noteq> digit lb sg ys j" if "j < n"
  proof -
    from c that have j: "diff_idx xs ys n = Some j"
      "r \<longleftrightarrow> ((xs ! j < ys ! j) \<noteq> sign_of lb sg xs) \<noteq> sign_of lb sg ys" by auto
    show ?thesis using digit_less_xor [OF ok lb, of j sg] diff_idx_Some [OF j(1)] j(2) by auto
  qed
qed

text \<open>The difference that is looked up: a positive number of at most \<open>2 ^ LIMB_BITS\<close>.\<close>

lemma diff_val_request:
  assumes ok: "limbs_ok lb xs" "limbs_ok lb ys" "length xs = n" "length ys = n" and lb: "0 < lb" "lb \<le> 8"
    and j: "j < n" "r \<longleftrightarrow> digit lb sg xs j < digit lb sg ys j" "digit lb sg xs j \<noteq> digit lb sg ys j"
    and canon: "canonical_u32 canon" and char: "2 ^ (lb + 2) < CHAR('f::field)"
    and dv: "dv = diff_val_fill n j r xs ys (of_int (msb_int lb sg (xs ! (n - 1))))
      (of_int (msb_int lb sg (ys ! (n - 1))) :: 'f)"
  shows "wsub 32 (canon dv) 1 < 2 ^ lb" "of_nat (wsub 32 (canon dv) 1) = dv - 1"
    "dv = of_int (digit lb sg ys j - digit lb sg xs j) * (of_nat 2 * from_bool r - 1)"
proof -
  let ?D = "digit lb sg ys j - digit lb sg xs j"
  let ?m = "nat \<bar>?D\<bar>"
  have dv': "dv = of_nat ?m" unfolding dv by (rule diff_val_fill_eq [OF ok lb(2) j(1,2)])
  have "\<bar>?D\<bar> \<le> 2 ^ lb" using digit_diff_bound [OF ok(1,2)] ok(3,4) j(1) lb by simp
  then have "?m \<le> 2 ^ lb" by (simp add: nat_le_iff)
  moreover have "0 < ?m" using j(3) by simp
  moreover have "(4::nat) * 2 ^ lb < CHAR('f)" using char by (simp add: power_add)
  ultimately have m: "0 < ?m" "?m \<le> 2 ^ lb" "?m < CHAR('f)" by linarith+
  have "canon dv = ?m" unfolding dv' by (rule canonical_u32D [OF canon m(3)])
  moreover have "wsub 32 k 1 = k - 1" if "0 < k" "k \<le> 256" for k :: nat
    using that by (intro wsub_small) simp_all
  then have "wsub 32 ?m 1 = ?m - 1" using m(1) order.trans [OF m(2) pow_le_256 [OF lb(2)]] by blast
  ultimately have w: "wsub 32 (canon dv) 1 = ?m - 1" by simp
  show "wsub 32 (canon dv) 1 < 2 ^ lb" unfolding w using m(1,2) by linarith
  have "of_nat (?m - 1) = (of_nat ?m - of_nat 1 :: 'f)" by (rule of_nat_diff) (use m(1) in linarith)
  then show "of_nat (wsub 32 (canon dv) 1) = dv - 1" unfolding w by (simp only: dv' of_nat_1)
  show "dv = of_int ?D * (of_nat 2 * from_bool r - 1)"
    unfolding dv' using j(2,3) by (cases r) (simp_all add: of_nat_nat)
qed

text \<open>The columns a filler writes for a comparison satisfy the constraint loop.\<close>

lemma compare_filled:
  fixes dv :: "'f::field" and xs ys :: "nat list"
  defines "xm \<equiv> \<lambda>sg n lb. of_int (msb_int lb sg (xs ! (n - 1))) :: 'f"
    and "ym \<equiv> \<lambda>sg n lb. of_int (msb_int lb sg (ys ! (n - 1))) :: 'f"
  assumes ok: "limbs_ok lb xs" "limbs_ok lb ys" "length xs = n" "length ys = n"
    and lb: "0 < lb" "lb \<le> 8" and char: "2 ^ (lb + 2) < CHAR('f)"
    and canon: "canonical_u32 canon" and run: "run_less_than n lb sg xs ys = (r, j, p, q)"
    and dv: "dv = diff_val_fill n j r xs ys (xm sg n lb) (ym sg n lb)"
    and m: "marker = (if j \<noteq> n then (replicate n 0)[j := 1] else replicate n 0)"
  shows "\<exists>as. diff_loop (limb_diff n (fels xs) (fels ys) (xm sg n lb) (ym sg n lb)) (from_bool r) marker dv 0
      (rev [0..<n]) = (as, if j < n then 1 else 0) \<and> all_satisfied as"
    and "j < n \<Longrightarrow> wsub 32 (canon dv) 1 < 2 ^ lb \<and> of_nat (wsub 32 (canon dv) 1) = dv - 1"
proof -
  note D = run_less_than_digits [OF ok lb(1) run]
  have req: "wsub 32 (canon dv) 1 < 2 ^ lb \<and> of_nat (wsub 32 (canon dv) 1) = dv - 1 \<and>
      dv = of_int (digit lb sg ys j - digit lb sg xs j) * (of_nat 2 * from_bool r - 1)" if "j < n"
    using diff_val_request [OF ok lb that _ _ canon char dv [unfolded xm_def ym_def]] D(3) [OF that] by blast
  then show "j < n \<Longrightarrow> wsub 32 (canon dv) 1 < 2 ^ lb \<and> of_nat (wsub 32 (canon dv) 1) = dv - 1" by blast
  let ?d = "limb_diff n (fels xs) (fels ys) (xm sg n lb) (ym sg n lb)"
  have d: "?d i = of_int (digit lb sg ys i - digit lb sg xs i)" if "i < n" for i
    using that ok by (simp add: limb_diff_def digit_def xm_def ym_def)
  show "\<exists>as. diff_loop ?d (from_bool r) marker dv 0 (rev [0..<n]) = (as, if j < n then 1 else 0) \<and> all_satisfied as"
  proof (rule diff_loop_complete)
    show "\<forall>i<n. marker ! i = (if i = j then 1 else 0)" using D(1) by (auto simp: m)
    show "\<forall>i<n. (j < n \<longrightarrow> j < i) \<longrightarrow> ?d i = 0" using D(2) d by simp
    show "dv = ?d j * (of_nat 2 * from_bool r - 1)" if "j < n" using req [OF that] d [OF that] by simp
  qed
qed

lemma less_than_fill_complete:
  fixes cols :: "'f::field less_than_cols"
  assumes fill: "less_than_fill_core n lb canon rec = (cols, reqs)"
    and ok: "limbs_ok lb (ltr_b rec)" "limbs_ok lb (ltr_c rec)" "length (ltr_b rec) = n" "length (ltr_c rec) = n"
    and n: "0 < n" and lb: "0 < lb" "lb \<le> 8" and char: "2 ^ (lb + 2) < CHAR('f)"
    and canon: "canonical_u32 canon"
    and op: "op = (if ltr_local_opcode rec = 0 then SLT else SLTU)"
  shows "all_satisfied (fst (less_than_eval n lb air cols)) \<and>
    active (fst (snd (less_than_eval n lb air cols))) = concat (map (bitwise_lookup (lt_bus air)) reqs) \<and>
    list_all (bitwise_request_ok lb) reqs \<and>
    core_ctx (less_than_eval n lb air cols) = lt_ctx n lb air op (ltr_b rec) (ltr_c rec)"
proof -
  let ?b = "ltr_b rec" and ?c = "ltr_c rec"
  define sg where "sg \<longleftrightarrow> ltr_local_opcode rec = repr_of less_than_opcodes SLT"
  obtain r j p q where run: "run_less_than n lb sg ?b ?c = (r, j, p, q)" by (metis prod.exhaust)
  note D = run_less_than_digits [OF ok lb(1) run]
  have ne: "?b \<noteq> []" "?c \<noteq> []" using ok n by auto
  have top: "?b ! (n - 1) < 2 ^ lb" "?c ! (n - 1) < 2 ^ lb" using ok n by (simp_all add: list_all_length)
  obtain u where u: "u < 2 ^ lb" "less_than_msb lb sg p (?b ! (n - 1)) = (of_int (msb_int lb sg (?b ! (n - 1))) :: 'f, u)"
      "of_nat u = (of_int (msb_int lb sg (?b ! (n - 1))) + of_nat (2 ^ (lb - 1)) * from_bool sg :: 'f)"
    using less_than_msb_eq [OF top(1) lb, of p sg] D(5) sign_of_iff [OF ok(1) ne(1) lb(1), of sg] ok(3) by auto
  obtain w where w: "w < 2 ^ lb" "less_than_msb lb sg q (?c ! (n - 1)) = (of_int (msb_int lb sg (?c ! (n - 1))) :: 'f, w)"
      "of_nat w = (of_int (msb_int lb sg (?c ! (n - 1))) + of_nat (2 ^ (lb - 1)) * from_bool sg :: 'f)"
    using less_than_msb_eq [OF top(2) lb, of q sg] D(6) sign_of_iff [OF ok(2) ne(2) lb(1), of sg] ok(4) by auto
  define dv :: 'f where "dv = diff_val_fill n j r ?b ?c (of_int (msb_int lb sg (?b ! (n - 1))))
      (of_int (msb_int lb sg (?c ! (n - 1))))"
  define marker :: "'f list" where
    "marker = (if j \<noteq> n then (replicate n 0)[j := 1] else replicate n 0)"
  have cols: "cols = \<lparr>lt_b = fels ?b, lt_c = fels ?c, lt_cmp_result = from_bool r,
      opcode_slt_flag = from_bool sg, opcode_sltu_flag = from_bool (\<not> sg),
      lt_b_msb_f = of_int (msb_int lb sg (?b ! (n - 1))), lt_c_msb_f = of_int (msb_int lb sg (?c ! (n - 1))),
      lt_diff_marker = marker, lt_diff_val = dv\<rparr>"
    and reqs: "reqs = Request_range u w # (if j \<noteq> n then [Request_range (wsub 32 (canon dv) 1) 0] else [])"
    using fill unfolding less_than_fill_core_def Let_def sg_def [symmetric]
    by (simp_all only: run u(2) w(2) prod.case dv_def marker_def prod.inject)
  note filled = compare_filled [OF ok lb char canon run dv_def marker_def]
  obtain as where loop: "diff_loop (limb_diff n (fels ?b) (fels ?c) (of_int (msb_int lb sg (?b ! (n - 1))))
      (of_int (msb_int lb sg (?c ! (n - 1))))) (from_bool r) marker dv 0 (rev [0..<n]) = (as, if j < n then 1 else 0)"
      "all_satisfied as"
    using filled(1) by blast
  have cmp: "r \<longleftrightarrow> sval lb sg ?b < sval lb sg ?c"
    using run_less_than_correct [OF ok lb(1) n, of sg] run by simp
  have top_f: "(fels ?b :: 'f list) ! (n - 1) = of_nat (?b ! (n - 1))" "(fels ?c :: 'f list) ! (n - 1) = of_nat (?c ! (n - 1))"
    using ok n by simp_all
  note ev = less_than_eval_def [of n lb air cols, unfolded Let_def cols less_than_cols.select_convs loop(1) prod.case top_f]
  have "all_satisfied (fst (less_than_eval n lb air cols))"
    unfolding ev [folded cols] using loop(2) msb_complete D(4) D(1) by (auto simp: not_f_def from_bool_def)
  moreover have "active (fst (snd (less_than_eval n lb air cols))) = concat (map (bitwise_lookup (lt_bus air)) reqs)"
    unfolding ev [folded cols] reqs using u(3) w(3) filled(2) D(1) by (auto simp: air_defs from_bool_def)
  moreover have "list_all (bitwise_request_ok lb) reqs"
    unfolding reqs using u(1) w(1) filled(2) D(1) by auto
  moreover have "core_ctx (less_than_eval n lb air cols) = lt_ctx n lb air op ?b ?c"
    unfolding ev [folded cols] lt_ctx_def op using cmp
    by (auto simp: sg_def expected_opcode_def less_than_opcodes_def upt_rec)
  ultimately show ?thesis by blast
qed

lemma less_than_complete:
  fixes rec :: less_than_record
  assumes "limbs_ok lb (ltr_b rec)" "limbs_ok lb (ltr_c rec)"
    and "length (ltr_b rec) = n" "length (ltr_c rec) = n"
    and "0 < n" "0 < lb" "lb \<le> 8" "2 ^ (lb + 2) < CHAR('f::field)"
    and "canonical_u32 (canon :: 'f \<Rightarrow> nat)"
    and "op = (if ltr_local_opcode rec = 0 then SLT else SLTU)"
    and "\<And>k. bitwise_table lb k \<Longrightarrow> T (lt_bus air) k"
  shows "accepts T (less_than_eval n lb air (fst (less_than_fill_core n lb canon rec))) \<and>
    core_ctx (less_than_eval n lb air (fst (less_than_fill_core n lb canon rec))) =
    lt_ctx n lb air op (ltr_b rec) (ltr_c rec)"
proof -
  obtain cols :: "'f less_than_cols" and reqs where f: "less_than_fill_core n lb canon rec = (cols, reqs)"
    by (metis prod.exhaust)
  note c = less_than_fill_complete [OF f assms(1-10), of air]
  have "lookups_ok T (active (fst (snd (less_than_eval n lb air cols))))"
    using c lookups_ok_bitwise [of lb reqs T] assms(11) by simp
  then have "lookups_ok T (fst (snd (less_than_eval n lb air cols)))" by (simp only: lookups_ok_active)
  then show ?thesis using c by (simp add: f accepts_def)
qed

section \<open>The chip of the RV32 extension\<close>

definition rv32_less_than_air :: "nat \<Rightarrow> less_than_air" where
  "rv32_less_than_air b = \<lparr>lt_bus = b, lt_offset = less_than_offset\<rparr>"

definition lt_row_wf :: "nat \<Rightarrow> nat \<Rightarrow> 'f::field less_than_cols \<Rightarrow> bool" where
  "lt_row_wf n lb cols \<longleftrightarrow> (\<exists>bs cs. lt_b cols = fels bs \<and> lt_c cols = fels cs \<and>
     limbs_ok lb bs \<and> limbs_ok lb cs \<and> length bs = n \<and> length cs = n)"

definition two_operands_ok :: "nat \<Rightarrow> nat \<Rightarrow> 'o \<times> nat list \<times> nat list \<Rightarrow> bool" where
  "two_operands_ok n lb = (\<lambda>(op, bs, cs). limbs_ok lb bs \<and> limbs_ok lb cs \<and> length bs = n \<and> length cs = n)"

lemma lt_ctx_functional:
  assumes "two_operands_ok n lb (op, bs, cs)" "two_operands_ok n lb (op', bs', cs')"
    and lb: "2 ^ lb < CHAR('f::field)" and off: "lt_offset air + 2 \<le> CHAR('f)"
    and eq: "reads (lt_ctx n lb air op bs cs :: ('f, _) adapter_air_context) = reads (lt_ctx n lb air op' bs' cs')"
      "instruction (lt_ctx n lb air op bs cs :: ('f, _) adapter_air_context) = instruction (lt_ctx n lb air op' bs' cs')"
  shows "op = op' \<and> bs = bs' \<and> cs = cs'"
proof -
  have "(fels bs :: 'f list) = fels bs'" "(fels cs :: 'f list) = fels cs'"
    using eq(1) by (simp_all add: lt_ctx_def)
  moreover have "op = op'"
    by (rule opcode_inject [where off = "lt_offset air" and vs = less_than_opcodes and 'f = 'f])
      (use eq(2) off in \<open>cases op; cases op'; simp add: lt_ctx_def less_than_opcodes_def\<close>)+
  ultimately show ?thesis
    using fels_inject_limbs [OF _ _ lb] assms(1,2) by (auto simp: two_operands_ok_def)
qed

lemma canonical_bb: "canonical_u32 (\<lambda>x. nat (bb_val x))"
  by (simp add: canonical_u32_def bb_CHAR bb_of_nat)

interpretation rv32_less_than: core_chip "\<lambda>_. bitwise_table 8" "less_than_eval 4 8 (rv32_less_than_air b)"
  "lt_row_wf 4 8 :: bb less_than_cols \<Rightarrow> bool" "two_operands_ok 4 8"
  "\<lambda>(op, bs, cs). lt_ctx 4 8 (rv32_less_than_air b) op bs cs"
  "\<lambda>(op, bs, cs). fst (less_than_fill_core 4 8 (\<lambda>x. nat (bb_val x))
     \<lparr>ltr_b = bs, ltr_c = cs, ltr_local_opcode = repr_of less_than_opcodes op\<rparr>)"
  for b
proof (unfold_locales, goal_cases)
  case (1 cols)
  then obtain bs cs where r: "lt_b cols = fels bs" "lt_c cols = fels cs" "limbs_ok 8 bs"
      "limbs_ok 8 cs" "length bs = 4" "length cs = 4"
    by (auto simp: lt_row_wf_def)
  obtain op where "core_ctx (less_than_eval 4 8 (rv32_less_than_air b) cols) =
      lt_ctx 4 8 (rv32_less_than_air b) op bs cs"
    using less_than_eval_sound [OF 1(2) _ 1(3) r(1,3,5) r(2,4,6)] by (auto simp: bb_CHAR)
  with r show ?case by (intro exI [of _ "(op, bs, cs)"]) (simp add: two_operands_ok_def)
next
  case (2 x)
  obtain op bs cs where x: "x = (op, bs, cs)" by (cases x) auto
  show ?case unfolding x prod.case
    using less_than_complete [where lb = 8 and n = 4 and canon = "\<lambda>x. nat (bb_val x)" and op = op
        and rec = "\<lparr>ltr_b = bs, ltr_c = cs, ltr_local_opcode = repr_of less_than_opcodes op\<rparr>"
        and air = "rv32_less_than_air b"] 2
    by (cases op) (simp_all add: x two_operands_ok_def bb_CHAR canonical_bb less_than_opcodes_def)
next
  case (3 x y)
  then show ?case
    using lt_ctx_functional [where n = 4 and lb = 8 and 'f = bb and air = "rv32_less_than_air b"]
    by (fastforce simp: bb_CHAR rv32_less_than_air_def less_than_offset_def split: prod.splits)
qed

section \<open>Properties\<close>

text \<open>
  C4. An accepted valid row of the SLT/SLTU chip writes the limbs of 1 when the first operand is
  smaller than the second, as two's-complement numbers for SLT and as unsigned numbers for SLTU,
  and the limbs of 0 otherwise.
\<close>

theorem less_than_air_sound:
  fixes cols :: "'f::field less_than_cols"
  assumes "accepts T (less_than_eval n lb air cols)"
    and "\<And>k. T (lt_bus air) k \<Longrightarrow> bitwise_table lb k"
    and "is_valid (instruction (core_ctx (less_than_eval n lb air cols))) = 1"
    and "lt_b cols = fels bs" "limbs_ok lb bs" "length bs = n"
    and "lt_c cols = fels cs" "limbs_ok lb cs" "length cs = n"
    and "0 < n" "n < CHAR('f)" "0 < lb" "2 ^ (lb + 2) < CHAR('f)"
  shows "\<exists>op. core_ctx (less_than_eval n lb air cols) =
    \<lparr>to_pc = None, reads = [fels bs, fels cs],
     writes = [(replicate n 0)[0 := if sval lb (op = SLT) bs < sval lb (op = SLT) cs then 1 else 0]],
     instruction = \<lparr>is_valid = 1, opcode = of_nat (lt_offset air + repr_of less_than_opcodes op)\<rparr>\<rparr>"
  using less_than_eval_sound [OF assms] unfolding lt_ctx_def from_bool_def .

theorem less_than_air_sound_witness:
  "let cols = fst (less_than_fill_core 4 8 (\<lambda>x. nat (bb_val x))
         \<lparr>ltr_b = [255, 255, 255, 255], ltr_c = [1, 0, 0, 0], ltr_local_opcode = 0\<rparr>)
   in \<exists>op. core_ctx (less_than_eval 4 8 (rv32_less_than_air 0) cols) =
    \<lparr>to_pc = None, reads = [fels [255, 255, 255, 255], fels [1, 0, 0, 0]],
     writes = [(replicate 4 0)[0 := if sval 8 (op = SLT) [255, 255, 255, 255] < sval 8 (op = SLT) [1, 0, 0, 0]
       then 1 else 0]],
     instruction = \<lparr>is_valid = 1, opcode = of_nat (lt_offset (rv32_less_than_air 0) + repr_of less_than_opcodes op)\<rparr>\<rparr>"
proof -
  let ?r = "\<lparr>ltr_b = [255, 255, 255, 255], ltr_c = [1, 0, 0, 0], ltr_local_opcode = 0\<rparr>"
  let ?cols = "fst (less_than_fill_core 4 8 (\<lambda>x. nat (bb_val x)) ?r)"
  have c: "accepts (\<lambda>_. bitwise_table 8) (less_than_eval 4 8 (rv32_less_than_air 0) ?cols) \<and>
      core_ctx (less_than_eval 4 8 (rv32_less_than_air 0) ?cols) =
      lt_ctx 4 8 (rv32_less_than_air 0) SLT (ltr_b ?r) (ltr_c ?r)"
    by (rule less_than_complete) (simp_all add: bb_CHAR canonical_bb)
  have cols: "lt_b ?cols = fels [255, 255, 255, 255]" "lt_c ?cols = fels [1, 0, 0, 0]"
    by (simp_all add: less_than_fill_core_def Let_def split: prod.splits)
  have "is_valid (instruction (core_ctx (less_than_eval 4 8 (rv32_less_than_air 0) ?cols))) = 1"
    using c by (simp add: lt_ctx_def)
  from less_than_air_sound [OF conjunct1 [OF c] _ this cols(1) _ _ cols(2)] show ?thesis
    unfolding Let_def by (simp add: bb_CHAR)
qed

text \<open>
  The row the SLT/SLTU filler writes satisfies every constraint, its active lookups are
  exactly the range checks the filler asked for, and it carries the comparison of the operands.
\<close>

theorem less_than_filled_row:
  fixes cols :: "'f::field less_than_cols"
  assumes "less_than_fill_core n lb canon rec = (cols, reqs)"
    and "less_than_eval n lb air cols = (as, is, ctx)"
    and "limbs_ok lb (ltr_b rec)" "limbs_ok lb (ltr_c rec)" "length (ltr_b rec) = n" "length (ltr_c rec) = n"
    and "0 < n" "0 < lb" "lb \<le> 8" "2 ^ (lb + 2) < CHAR('f)" and "canonical_u32 canon"
  shows "all_satisfied as \<and> active is = concat (map (bitwise_lookup (lt_bus air)) reqs) \<and>
    list_all (bitwise_request_ok lb) reqs \<and>
    writes ctx = [(replicate n 0)[0 := from_bool (fst (run_less_than n lb (ltr_local_opcode rec = 0) (ltr_b rec) (ltr_c rec)))]] \<and>
    is_valid (instruction ctx) = 1"
  using less_than_fill_complete [OF assms(1,3-11) refl, of air]
    run_less_than_correct [OF assms(3-6,8,7), of "ltr_local_opcode rec = 0"]
  by (auto simp: assms(2) lt_ctx_def)

theorem less_than_filled_row_witness:
  "let (cols, reqs) = less_than_fill_core 4 8 (\<lambda>x. nat (bb_val x))
         \<lparr>ltr_b = [255, 255, 255, 255], ltr_c = [1, 0, 0, 0], ltr_local_opcode = 1\<rparr>;
       (as, is, ctx) = less_than_eval 4 8 (rv32_less_than_air 0) cols
   in all_satisfied as \<and> writes ctx = [(replicate 4 0)[0 := 0]]"
proof -
  let ?r = "\<lparr>ltr_b = [255, 255, 255, 255], ltr_c = [1, 0, 0, 0], ltr_local_opcode = 1\<rparr>"
  obtain cols reqs where f: "less_than_fill_core 4 8 (\<lambda>x. nat (bb_val x)) ?r = (cols, reqs)"
    by (metis prod.exhaust)
  obtain as "is" ctx where e: "less_than_eval 4 8 (rv32_less_than_air 0) cols = (as, is, ctx)"
    by (metis prod.exhaust)
  show ?thesis
    using less_than_filled_row [OF f e]
    by (simp add: f [simplified] e bb_CHAR canonical_bb run_less_than_def)
qed

end
