(* ===== verification/Branch_Lt.thy ===== *)
theory Branch_Lt
  imports Less_Than
begin

text \<open>
  \<open>extensions/rv32im/circuit/src/branch_lt/core.rs\<close>: the core chip for BLT, BLTU, BGE and BGEU.
  An accepted row jumps by the immediate exactly when the comparison holds.
\<close>

section \<open>The model\<close>

record 'f branch_lt_cols =
  blt_a :: "'f list"
  blt_b :: "'f list"
  blt_cmp_result :: 'f
  blt_imm :: 'f
  opcode_blt_flag :: 'f
  opcode_bltu_flag :: 'f
  opcode_bge_flag :: 'f
  opcode_bgeu_flag :: 'f
  blt_a_msb_f :: 'f
  blt_b_msb_f :: 'f
  blt_cmp_lt :: 'f
  blt_diff_marker :: "'f list"
  blt_diff_val :: 'f

record branch_lt_air =
  blt_bus :: nat
  blt_offset :: nat

definition branch_lt_eval ::
  "nat \<Rightarrow> nat \<Rightarrow> branch_lt_air \<Rightarrow> 'f::field \<Rightarrow> 'f branch_lt_cols \<Rightarrow>
   ('f, 'f imm_instruction) core_eval" where
  "branch_lt_eval num_limbs limb_bits air from_pc cols =
     (let flags = [opcode_blt_flag cols, opcode_bltu_flag cols, opcode_bge_flag cols, opcode_bgeu_flag cols];
          valid = fold (\<lambda>flag acc. acc + flag) flags 0;
          lt = opcode_blt_flag cols + opcode_bltu_flag cols;
          ge = opcode_bge_flag cols + opcode_bgeu_flag cols;
          sg = opcode_blt_flag cols + opcode_bge_flag cols;
          a = blt_a cols; b = blt_b cols;
          (loop, prefix_sum) =
            diff_loop (limb_diff num_limbs a b (blt_a_msb_f cols) (blt_b_msb_f cols))
              (blt_cmp_lt cols) (blt_diff_marker cols) (blt_diff_val cols) 0 (rev [0..<num_limbs]);
          half = of_nat (2 ^ (limb_bits - 1)) * sg
      in (map assert_bool flags @ [assert_bool valid, assert_bool (blt_cmp_result cols),
            assert_eq (blt_cmp_lt cols)
              (blt_cmp_result cols * lt + not_f (blt_cmp_result cols) * ge),
            msb_assertion limb_bits (a ! (num_limbs - 1)) (blt_a_msb_f cols),
            msb_assertion limb_bits (b ! (num_limbs - 1)) (blt_b_msb_f cols)] @ loop @
          [assert_bool prefix_sum, When (not_f prefix_sum) (assert_zero (blt_cmp_lt cols))],
          [send_range (blt_bus air) (blt_a_msb_f cols + half) (blt_b_msb_f cols + half) valid,
           send_range (blt_bus air) (blt_diff_val cols - 1) 0 prefix_sum],
          \<lparr>to_pc = Some (from_pc + blt_cmp_result cols * blt_imm cols
                         + not_f (blt_cmp_result cols) * of_nat DEFAULT_PC_STEP),
           reads = [a, b], writes = [],
           instruction = \<lparr>is_valid = valid,
             opcode = expected_opcode flags branch_less_than_opcodes + of_nat (blt_offset air),
             immediate = blt_imm cols\<rparr>\<rparr>))"

text \<open>\<open>run_cmp\<close>: \<open>(cmp_result, diff_idx, x_sign, y_sign)\<close> for a raw local opcode.\<close>

definition run_cmp ::
  "nat \<Rightarrow> nat \<Rightarrow> nat \<Rightarrow> nat list \<Rightarrow> nat list \<Rightarrow> bool \<times> nat \<times> bool \<times> bool" where
  "run_cmp num_limbs limb_bits local_opcode x y =
     (let sg = (local_opcode = repr_of branch_less_than_opcodes BLT \<or>
                 local_opcode = repr_of branch_less_than_opcodes BGE);
          ge_op = (local_opcode = repr_of branch_less_than_opcodes BGE \<or>
                   local_opcode = repr_of branch_less_than_opcodes BGEU);
          x_sign = wshr (x ! (num_limbs - 1)) (limb_bits - 1) = 1 \<and> sg;
          y_sign = wshr (y ! (num_limbs - 1)) (limb_bits - 1) = 1 \<and> sg
      in case diff_idx x y num_limbs of
           Some i \<Rightarrow> ((((x ! i < y ! i) \<noteq> x_sign) \<noteq> y_sign) \<noteq> ge_op, i, x_sign, y_sign)
         | None \<Rightarrow> (ge_op, num_limbs, x_sign, y_sign))"

record branch_record =
  br_a :: "nat list"
  br_b :: "nat list"
  br_imm :: nat
  br_local_opcode :: nat

definition branch_lt_execute ::
  "nat \<Rightarrow> nat \<Rightarrow> ('f::field \<Rightarrow> nat) \<Rightarrow> ('f, 'm, 'ar) adapter_trace_executor \<Rightarrow> nat \<Rightarrow> 'ar \<Rightarrow>
   ('m, 'ar \<times> branch_record) vm_state_mut \<Rightarrow> 'f instr \<Rightarrow>
   execution_error + ('m, 'ar \<times> branch_record) vm_state_mut" where
  "branch_lt_execute num_limbs limb_bits canon A offset fresh s i =
     (let r0 = a_start A (s_pc s) (s_memory s) fresh;
          (m1, r1, data) = a_read A (s_memory s) i r0;
          rs1 = data ! 0; rs2 = data ! 1;
          core = \<lparr>br_a = rs1, br_b = rs2, br_imm = canon (i_c i),
                  br_local_opcode = wrap 8 (local_opcode_idx (i_opcode i) offset)\<rparr>
      in Inr (s\<lparr>s_memory := m1, s_arena := s_arena s @ [(r1, core)],
                s_pc := (if fst (run_cmp num_limbs limb_bits (br_local_opcode core) rs1 rs2)
                         then canon (of_nat (s_pc s) + i_c i)
                         else wadd 32 (s_pc s) DEFAULT_PC_STEP)\<rparr>))"

text \<open>The top limb as a field element and the number range checked for it, in \<open>u32\<close>.\<close>

definition branch_lt_msb :: "nat \<Rightarrow> bool \<Rightarrow> bool \<Rightarrow> nat \<Rightarrow> 'f::field \<times> nat" where
  "branch_lt_msb limb_bits sg sign x =
     (if sign
      then (- of_nat (wsub 32 (wshl 32 1 limb_bits) x), wsub 32 x (wshl 32 1 (limb_bits - 1)))
      else (of_nat x, wadd 32 x (wshl 32 (of_bool sg) (limb_bits - 1))))"

definition branch_lt_fill_core ::
  "nat \<Rightarrow> nat \<Rightarrow> ('f::field \<Rightarrow> nat) \<Rightarrow> branch_record \<Rightarrow> 'f branch_lt_cols \<times> lookup_request list" where
  "branch_lt_fill_core num_limbs limb_bits canon rec =
     (let a = br_a rec; b = br_b rec; opc = br_local_opcode rec;
          is_op = (\<lambda>op. opc = repr_of branch_less_than_opcodes op);
          sg = (is_op BLT \<or> is_op BGE);
          ge_op = (is_op BGE \<or> is_op BGEU);
          (cmp_result, idx, a_sign, b_sign) = run_cmp num_limbs limb_bits opc a b;
          cmp_lt = (cmp_result \<noteq> ge_op);
          (a_msb_f, a_msb_range) = branch_lt_msb limb_bits sg a_sign (a ! (num_limbs - 1));
          (b_msb_f, b_msb_range) = branch_lt_msb limb_bits sg b_sign (b ! (num_limbs - 1));
          dv = diff_val_fill num_limbs idx cmp_lt a b a_msb_f b_msb_f
      in (\<lparr>blt_a = fels a, blt_b = fels b, blt_cmp_result = from_bool cmp_result,
           blt_imm = of_nat (br_imm rec),
           opcode_blt_flag = from_bool (is_op BLT), opcode_bltu_flag = from_bool (is_op BLTU),
           opcode_bge_flag = from_bool (is_op BGE), opcode_bgeu_flag = from_bool (is_op BGEU),
           blt_a_msb_f = a_msb_f, blt_b_msb_f = b_msb_f, blt_cmp_lt = from_bool cmp_lt,
           blt_diff_marker = (if idx \<noteq> num_limbs then (replicate num_limbs 0)[idx := 1]
                              else replicate num_limbs 0),
           blt_diff_val = dv\<rparr>,
          Request_range a_msb_range b_msb_range #
          (if idx \<noteq> num_limbs then [Request_range (wsub 32 (canon dv) 1) 0] else [])))"

definition branch_lt_fill_trace_row ::
  "nat \<Rightarrow> nat \<Rightarrow> ('f::field \<Rightarrow> nat) \<Rightarrow> ('mh, 'ar, 'ac) adapter_filler \<Rightarrow> 'mh \<Rightarrow> 'ar \<Rightarrow>
   branch_record \<Rightarrow> ('ac \<times> 'f branch_lt_cols) \<times> lookup_request list" where
  "branch_lt_fill_trace_row num_limbs limb_bits canon fill mem_helper arec rec =
     (let (acols, areqs) = fill mem_helper arec;
          (cols, reqs) = branch_lt_fill_core num_limbs limb_bits canon rec
      in ((acols, cols), areqs @ reqs))"

section \<open>\<open>run_cmp\<close> compares\<close>

definition lt_signed :: "BranchLessThanOpcode \<Rightarrow> bool" where
  "lt_signed op \<longleftrightarrow> op = BLT \<or> op = BGE"

definition lt_ge :: "BranchLessThanOpcode \<Rightarrow> bool" where
  "lt_ge op \<longleftrightarrow> op = BGE \<or> op = BGEU"

text \<open>What the branch instructions test, on the values of the operands.\<close>

fun branch_cond :: "nat \<Rightarrow> BranchLessThanOpcode \<Rightarrow> nat list \<Rightarrow> nat list \<Rightarrow> bool" where
  "branch_cond lb BLT x y \<longleftrightarrow> sval lb True x < sval lb True y"
| "branch_cond lb BLTU x y \<longleftrightarrow> limbs_val lb x < limbs_val lb y"
| "branch_cond lb BGE x y \<longleftrightarrow> sval lb True y \<le> sval lb True x"
| "branch_cond lb BGEU x y \<longleftrightarrow> limbs_val lb y \<le> limbs_val lb x"

lemma branch_cond_iff: "branch_cond lb op x y \<longleftrightarrow> (sval lb (lt_signed op) x < sval lb (lt_signed op) y) \<noteq> lt_ge op"
  by (cases op) (auto simp: lt_signed_def lt_ge_def)

lemma blt_opcodes_simps [simp]:
  "repr_of branch_less_than_opcodes BLT = 0" "repr_of branch_less_than_opcodes BLTU = 1"
  "repr_of branch_less_than_opcodes BGE = 2" "repr_of branch_less_than_opcodes BGEU = 3"
  "distinct branch_less_than_opcodes" "op \<in> set branch_less_than_opcodes"
  "length branch_less_than_opcodes = 4"
  by (cases op; simp add: branch_less_than_opcodes_def)+

text \<open>\<open>run_cmp\<close> is \<open>run_less_than\<close> with the result flipped for the two GE opcodes.\<close>

lemma run_cmp_eq:
  "run_cmp n lb (repr_of branch_less_than_opcodes op) x y =
   (case run_less_than n lb (lt_signed op) x y of (r, j, p, q) \<Rightarrow> (r \<noteq> lt_ge op, j, p, q))"
  by (cases op) (auto simp: run_cmp_def run_less_than_def Let_def lt_signed_def lt_ge_def split: option.splits)

lemma run_cmp_correct:
  assumes "limbs_ok lb x" "limbs_ok lb y" "length x = n" "length y = n" "0 < lb" "0 < n"
  shows "fst (run_cmp n lb (repr_of branch_less_than_opcodes op) x y) \<longleftrightarrow> branch_cond lb op x y"
  using run_less_than_correct [OF assms, of "lt_signed op"]
  by (auto simp: run_cmp_eq branch_cond_iff split: prod.splits)

section \<open>Soundness\<close>

definition blt_ctx ::
  "nat \<Rightarrow> branch_lt_air \<Rightarrow> 'f \<Rightarrow> BranchLessThanOpcode \<Rightarrow> 'f \<Rightarrow> nat list \<Rightarrow> nat list \<Rightarrow>
   ('f::field, 'f imm_instruction) adapter_air_context" where
  "blt_ctx lb air from_pc op imm as bs =
     \<lparr>to_pc = Some (from_pc + (if branch_cond lb op as bs then imm else of_nat DEFAULT_PC_STEP)),
      reads = [fels as, fels bs], writes = [],
      instruction = \<lparr>is_valid = 1, opcode = of_nat (blt_offset air + repr_of branch_less_than_opcodes op),
        immediate = imm\<rparr>\<rparr>"

lemma branch_lt_eval_sound:
  fixes cols :: "'f::field branch_lt_cols"
  assumes acc: "accepts T (branch_lt_eval n lb air from_pc cols)"
    and table: "\<And>k. T (blt_bus air) k \<Longrightarrow> bitwise_table lb k"
    and valid: "is_valid (instruction (core_ctx (branch_lt_eval n lb air from_pc cols))) = 1"
    and a: "blt_a cols = fels as" "limbs_ok lb as" "length as = n"
    and b: "blt_b cols = fels bs" "limbs_ok lb bs" "length bs = n"
    and n: "0 < n" "n < CHAR('f)" and lb: "0 < lb" and char: "2 ^ (lb + 2) < CHAR('f)"
  shows "\<exists>op. core_ctx (branch_lt_eval n lb air from_pc cols) = blt_ctx lb air from_pc op (blt_imm cols) as bs"
proof -
  obtain loop s where loop: "diff_loop (limb_diff n (fels as) (fels bs) (blt_a_msb_f cols) (blt_b_msb_f cols))
      (blt_cmp_lt cols) (blt_diff_marker cols) (blt_diff_val cols) 0 (rev [0..<n]) = (loop, s)"
    by (metis prod.exhaust)
  note ev = branch_lt_eval_def [of n lb air from_pc cols, unfolded Let_def a(1) b(1) loop prod.case]
  let ?flags = "[opcode_blt_flag cols, opcode_bltu_flag cols, opcode_bge_flag cols, opcode_bgeu_flag cols]"
  have "(2::nat) ^ 3 \<le> 2 ^ (lb + 2)" using lb by (intro power_increasing) simp_all
  then have c4: "4 < CHAR('f)" using char by simp
  obtain op where op: "?flags = opcode_flags branch_less_than_opcodes op"
  proof (rule flags_select [of ?flags branch_less_than_opcodes])
    show "fold (\<lambda>flag acc. acc + flag) ?flags 0 = 1" using valid by (simp add: ev)
    show "x = 0 \<or> x = 1" if "x \<in> set ?flags" for x using acc that by (auto simp: accepts_def ev)
  qed (use c4 in simp_all)
  then have flags: "opcode_blt_flag cols = from_bool (op = BLT)" "opcode_bltu_flag cols = from_bool (op = BLTU)"
      "opcode_bge_flag cols = from_bool (op = BGE)" "opcode_bgeu_flag cols = from_bool (op = BGEU)"
    by (auto simp: opcode_flags_def branch_less_than_opcodes_def)
  have sg: "opcode_blt_flag cols + opcode_bge_flag cols = from_bool (lt_signed op)"
    unfolding flags by (cases op) (simp_all add: lt_signed_def)
  have "satisfied (assert_bool (blt_cmp_result cols))"
    using acc by (simp add: accepts_def ev)
  then obtain r where r: "blt_cmp_result cols = from_bool r"
    by (auto intro: that [of True] that [of False])
  have lt: "blt_cmp_lt cols = from_bool (r \<noteq> lt_ge op)"
  proof -
    have "blt_cmp_lt cols = blt_cmp_result cols * (opcode_blt_flag cols + opcode_bltu_flag cols) +
        not_f (blt_cmp_result cols) * (opcode_bge_flag cols + opcode_bgeu_flag cols)"
      using acc by (simp add: accepts_def ev)
    then show ?thesis unfolding r flags by (cases op; cases r) (simp_all add: lt_ge_def not_f_def)
  qed
  have sat: "all_satisfied loop" "s = 0 \<or> s = 1" "s \<noteq> 1 \<Longrightarrow> blt_cmp_lt cols = 0"
      "satisfied (msb_assertion lb (of_nat (as ! (n - 1))) (blt_a_msb_f cols))"
      "satisfied (msb_assertion lb (of_nat (bs ! (n - 1))) (blt_b_msb_f cols))"
    using acc n a(3) b(3) by (auto simp: accepts_def ev not_f_def)
  have look: "bitwise_table lb [blt_a_msb_f cols + of_nat (2 ^ (lb - 1)) * from_bool (lt_signed op),
        blt_b_msb_f cols + of_nat (2 ^ (lb - 1)) * from_bool (lt_signed op), 0, 0]"
      "s \<noteq> 0 \<Longrightarrow> bitwise_table lb [blt_diff_val cols - 1, 0, 0, 0]"
    using acc table valid by (auto simp: accepts_def ev air_defs sg)
  obtain u w where uw: "u < 2 ^ lb" "w < 2 ^ lb"
      "blt_a_msb_f cols + of_nat (2 ^ (lb - 1)) * from_bool (lt_signed op) = of_nat u"
      "blt_b_msb_f cols + of_nat (2 ^ (lb - 1)) * from_bool (lt_signed op) = of_nat w"
    using look(1) by (auto simp: bitwise_table_range)
  have msb: "blt_a_msb_f cols = of_int (msb_int lb (lt_signed op) (as ! (n - 1)))"
      "blt_b_msb_f cols = of_int (msb_int lb (lt_signed op) (bs ! (n - 1)))"
    using msb_sound [OF limbs_okD [OF a(2)] lb char sat(4) uw(3,1)]
      msb_sound [OF limbs_okD [OF b(2)] lb char sat(5) uw(4,2)] a(3) b(3) n(1) by simp_all
  have "(r \<noteq> lt_ge op) \<longleftrightarrow> sval lb (lt_signed op) as < sval lb (lt_signed op) bs"
  proof (rule diff_loop_sound [OF _ sat(1,2) _ _ a(2) b(2) a(3) b(3) n lb char])
    show "diff_loop (limb_diff n (fels as) (fels bs) (of_int (msb_int lb (lt_signed op) (as ! (n - 1))))
        (of_int (msb_int lb (lt_signed op) (bs ! (n - 1))))) (from_bool (r \<noteq> lt_ge op)) (blt_diff_marker cols)
        (blt_diff_val cols) 0 (rev [0..<n]) = (loop, s)" using loop by (simp only: msb lt)
    show "s = 0 \<longrightarrow> \<not> (r \<noteq> lt_ge op)" using sat(3) lt by (auto simp: from_bool_def split: if_splits)
    show "s \<noteq> 0 \<longrightarrow> (\<exists>u<2 ^ lb. blt_diff_val cols - 1 = of_nat u)"
      using look(2) by (auto simp: bitwise_table_range)
  qed
  then have cond: "r \<longleftrightarrow> branch_cond lb op as bs" unfolding branch_cond_iff by auto
  have opc: "expected_opcode ?flags branch_less_than_opcodes = (of_nat (repr_of branch_less_than_opcodes op) :: 'f)"
    unfolding op by (rule expected_opcode_flags) simp_all
  have "core_ctx (branch_lt_eval n lb air from_pc cols) = blt_ctx lb air from_pc op (blt_imm cols) as bs"
    using valid cond opc unfolding ev
    by (auto simp: blt_ctx_def r a b not_f_def)
  then show ?thesis by blast
qed

section \<open>Completeness\<close>

lemma branch_lt_msb_eq:
  assumes x: "x < 2 ^ lb" and lb: "0 < lb" "lb \<le> 8" and sign: "sign \<longleftrightarrow> sg \<and> 2 ^ (lb - 1) \<le> x"
  shows "(branch_lt_msb lb sg sign x :: 'f::field \<times> nat) = less_than_msb lb sg sign x"
proof -
  obtain k where k: "lb = Suc k" using lb(1) by (cases lb) auto
  have le: "(2::nat) ^ lb \<le> 256" using lb(2) by (rule pow_le_256)
  then have k8: "(2::nat) ^ k \<le> 128" by (simp add: k)
  have sh: "wshl w 1 (lb - 1) = 2 ^ k" "wshl w 0 (lb - 1) = 0" if "w = 8 \<or> w = 32" for w
    using k8 that by (auto simp: wshl_def k)
  have sh': "wshl w 1 lb = 2 ^ lb" if "w = 16 \<or> w = 32" for w
    using le that by (auto simp: wshl_def)
  have "wsub w (2 ^ lb) x = 2 ^ lb - x" if "w = 16 \<or> w = 32" for w
    by (rule wsub_small) (use x le lb(2) that in auto)
  moreover have "wsub w x (2 ^ k) = x - 2 ^ k" if "w = 8 \<or> w = 32" sign for w
    by (rule wsub_small) (use x le that sign in \<open>auto simp: k\<close>)
  moreover have "wadd w x (if sg then 2 ^ k else 0) = x + (if sg then 2 ^ k else 0)"
    if "w = 8 \<or> w = 32" "\<not> sign" for w
    by (rule wadd_small) (use x k8 le that sign in \<open>auto simp: k\<close>)
  ultimately show ?thesis using sh sh'
    by (cases sign; cases sg) (simp_all only: branch_lt_msb_def less_than_msb_def of_bool_eq if_True if_False
        simp_thms)
qed

lemma branch_lt_fill_complete:
  fixes cols :: "'f::field branch_lt_cols"
  assumes fill: "branch_lt_fill_core n lb canon rec = (cols, reqs)"
    and ok: "limbs_ok lb (br_a rec)" "limbs_ok lb (br_b rec)" "length (br_a rec) = n" "length (br_b rec) = n"
    and n: "0 < n" and lb: "0 < lb" "lb \<le> 8" and char: "2 ^ (lb + 2) < CHAR('f)"
    and canon: "canonical_u32 canon"
    and op: "br_local_opcode rec = repr_of branch_less_than_opcodes op"
  shows "all_satisfied (fst (branch_lt_eval n lb air from_pc cols)) \<and>
    active (fst (snd (branch_lt_eval n lb air from_pc cols))) =
      concat (map (bitwise_lookup (blt_bus air)) reqs) \<and>
    list_all (bitwise_request_ok lb) reqs \<and>
    core_ctx (branch_lt_eval n lb air from_pc cols) =
      blt_ctx lb air from_pc op (of_nat (br_imm rec)) (br_a rec) (br_b rec)"
proof -
  let ?a = "br_a rec" and ?b = "br_b rec"
  define sg where "sg = lt_signed op"
  obtain r j p q where run: "run_less_than n lb sg ?a ?b = (r, j, p, q)" by (metis prod.exhaust)
  have runc: "run_cmp n lb (br_local_opcode rec) ?a ?b = (r \<noteq> lt_ge op, j, p, q)"
    using run by (simp add: op run_cmp_eq sg_def)
  note D = run_less_than_digits [OF ok lb(1) run]
  have ne: "?a \<noteq> []" "?b \<noteq> []" using ok n by auto
  have top: "?a ! (n - 1) < 2 ^ lb" "?b ! (n - 1) < 2 ^ lb" using ok n by (simp_all add: list_all_length)
  have sp: "p \<longleftrightarrow> sg \<and> 2 ^ (lb - 1) \<le> ?a ! (n - 1)" "q \<longleftrightarrow> sg \<and> 2 ^ (lb - 1) \<le> ?b ! (n - 1)"
    using D(5,6) sign_of_iff [OF ok(1) ne(1) lb(1), of sg] sign_of_iff [OF ok(2) ne(2) lb(1), of sg] ok(3,4) by simp_all
  obtain u where u: "u < 2 ^ lb" "branch_lt_msb lb sg p (?a ! (n - 1)) = (of_int (msb_int lb sg (?a ! (n - 1))) :: 'f, u)"
      "of_nat u = (of_int (msb_int lb sg (?a ! (n - 1))) + of_nat (2 ^ (lb - 1)) * from_bool sg :: 'f)"
    using less_than_msb_eq [OF top(1) lb sp(1), where 'f = 'f] branch_lt_msb_eq [OF top(1) lb sp(1), where 'f = 'f] by auto
  obtain w where w: "w < 2 ^ lb" "branch_lt_msb lb sg q (?b ! (n - 1)) = (of_int (msb_int lb sg (?b ! (n - 1))) :: 'f, w)"
      "of_nat w = (of_int (msb_int lb sg (?b ! (n - 1))) + of_nat (2 ^ (lb - 1)) * from_bool sg :: 'f)"
    using less_than_msb_eq [OF top(2) lb sp(2), where 'f = 'f] branch_lt_msb_eq [OF top(2) lb sp(2), where 'f = 'f] by auto
  define dv :: 'f where "dv = diff_val_fill n j r ?a ?b (of_int (msb_int lb sg (?a ! (n - 1))))
      (of_int (msb_int lb sg (?b ! (n - 1))))"
  define marker :: "'f list" where
    "marker = (if j \<noteq> n then (replicate n 0)[j := 1] else replicate n 0)"
  have sgs: "(op = BLT \<or> op = BGE) = sg" "(op = BGE \<or> op = BGEU) = lt_ge op"
    "(br_local_opcode rec = repr_of branch_less_than_opcodes o') = (op = o')"
    "((r \<noteq> lt_ge op) \<noteq> lt_ge op) = r" for o'
    by (cases op; cases o'; simp add: op sg_def lt_signed_def lt_ge_def)+
  have cols: "cols = \<lparr>blt_a = fels ?a, blt_b = fels ?b, blt_cmp_result = from_bool (r \<noteq> lt_ge op),
      blt_imm = of_nat (br_imm rec), opcode_blt_flag = from_bool (op = BLT),
      opcode_bltu_flag = from_bool (op = BLTU), opcode_bge_flag = from_bool (op = BGE),
      opcode_bgeu_flag = from_bool (op = BGEU),
      blt_a_msb_f = of_int (msb_int lb sg (?a ! (n - 1))), blt_b_msb_f = of_int (msb_int lb sg (?b ! (n - 1))),
      blt_cmp_lt = from_bool r, blt_diff_marker = marker, blt_diff_val = dv\<rparr>"
    and reqs: "reqs = Request_range u w # (if j \<noteq> n then [Request_range (wsub 32 (canon dv) 1) 0] else [])"
    using fill unfolding branch_lt_fill_core_def Let_def
    by (simp_all only: runc prod.case sgs u(2) w(2) dv_def marker_def prod.inject)
  note filled = compare_filled [OF ok lb char canon run dv_def marker_def]
  obtain as where loop: "diff_loop (limb_diff n (fels ?a) (fels ?b) (of_int (msb_int lb sg (?a ! (n - 1))))
      (of_int (msb_int lb sg (?b ! (n - 1))))) (from_bool r) marker dv 0 (rev [0..<n]) = (as, if j < n then 1 else 0)"
      "all_satisfied as"
    using filled(1) by blast
  have cmp: "r = (branch_cond lb op ?a ?b \<noteq> lt_ge op)"
    using run_less_than_correct [OF ok lb(1) n, of sg] run
    by (cases "lt_ge op") (simp_all add: branch_cond_iff sg_def)
  have top_f: "(fels ?a :: 'f list) ! (n - 1) = of_nat (?a ! (n - 1))" "(fels ?b :: 'f list) ! (n - 1) = of_nat (?b ! (n - 1))"
    using ok n by simp_all
  note ev = branch_lt_eval_def [of n lb air from_pc cols, unfolded Let_def cols branch_lt_cols.select_convs loop(1) prod.case top_f]
  have sg2: "from_bool (op = BLT) + from_bool (op = BGE) = (from_bool sg :: 'f)"
    by (cases op) (simp_all add: sg_def lt_signed_def)
  have "all_satisfied (fst (branch_lt_eval n lb air from_pc cols))"
    unfolding ev [folded cols] using loop(2) msb_complete D(4) D(1)
    by (cases op; cases r) (auto simp: not_f_def lt_ge_def)
  moreover have "active (fst (snd (branch_lt_eval n lb air from_pc cols))) = concat (map (bitwise_lookup (blt_bus air)) reqs)"
    unfolding ev [folded cols] reqs sg2 using u(3) w(3) filled(2) D(1)
    by (cases op) (auto simp: air_defs)
  moreover have "list_all (bitwise_request_ok lb) reqs"
    unfolding reqs using u(1) w(1) filled(2) D(1) by auto
  moreover have "core_ctx (branch_lt_eval n lb air from_pc cols) = blt_ctx lb air from_pc op (of_nat (br_imm rec)) ?a ?b"
    unfolding ev [folded cols] blt_ctx_def using cmp
    by (cases op) (auto simp: not_f_def lt_ge_def expected_opcode_def upt_rec)
  ultimately show ?thesis by blast
qed

lemma branch_lt_complete:
  fixes rec :: branch_record
  assumes "limbs_ok lb (br_a rec)" "limbs_ok lb (br_b rec)"
    and "length (br_a rec) = n" "length (br_b rec) = n"
    and "0 < n" "0 < lb" "lb \<le> 8" "2 ^ (lb + 2) < CHAR('f::field)"
    and "canonical_u32 (canon :: 'f \<Rightarrow> nat)"
    and "br_local_opcode rec = repr_of branch_less_than_opcodes op"
    and "\<And>k. bitwise_table lb k \<Longrightarrow> T (blt_bus air) k"
  shows "accepts T (branch_lt_eval n lb air from_pc (fst (branch_lt_fill_core n lb canon rec))) \<and>
    core_ctx (branch_lt_eval n lb air from_pc (fst (branch_lt_fill_core n lb canon rec))) =
    blt_ctx lb air from_pc op (of_nat (br_imm rec)) (br_a rec) (br_b rec)"
proof -
  obtain cols :: "'f branch_lt_cols" and reqs where f: "branch_lt_fill_core n lb canon rec = (cols, reqs)"
    by (metis prod.exhaust)
  note c = branch_lt_fill_complete [OF f assms(1-10), of air from_pc]
  have "lookups_ok T (active (fst (snd (branch_lt_eval n lb air from_pc cols))))"
    using c lookups_ok_bitwise [of lb reqs T] assms(11) by simp
  then have "lookups_ok T (fst (snd (branch_lt_eval n lb air from_pc cols)))"
    by (simp only: lookups_ok_active)
  then show ?thesis using c by (simp add: f accepts_def)
qed

section \<open>The chip of the RV32 extension\<close>

definition rv32_branch_lt_air :: "nat \<Rightarrow> branch_lt_air" where
  "rv32_branch_lt_air b = \<lparr>blt_bus = b, blt_offset = branch_less_than_offset\<rparr>"

definition blt_row_wf :: "nat \<Rightarrow> nat \<Rightarrow> 'f::field branch_lt_cols \<Rightarrow> bool" where
  "blt_row_wf n lb cols \<longleftrightarrow> (\<exists>as bs. blt_a cols = fels as \<and> blt_b cols = fels bs \<and>
     limbs_ok lb as \<and> limbs_ok lb bs \<and> length as = n \<and> length bs = n)"

lemma blt_ctx_functional:
  assumes "two_operands_ok n lb (op, as, bs)" "two_operands_ok n lb (op', as', bs')"
    and lb: "2 ^ lb < CHAR('f::field)" and off: "blt_offset air + 4 \<le> CHAR('f)"
    and eq: "reads (blt_ctx lb air from_pc op imm as bs) = reads (blt_ctx lb air from_pc op' imm' as' bs')"
      "instruction (blt_ctx lb air from_pc op imm as bs) = instruction (blt_ctx lb air from_pc op' (imm' :: 'f) as' bs')"
  shows "op = op' \<and> imm = imm' \<and> as = as' \<and> bs = bs'"
proof -
  have "(fels as :: 'f list) = fels as'" "(fels bs :: 'f list) = fels bs'" "imm = imm'"
    using eq by (simp_all add: blt_ctx_def)
  moreover have "op = op'"
    by (rule opcode_inject [where off = "blt_offset air" and vs = branch_less_than_opcodes and 'f = 'f])
      (use eq(2) off in \<open>simp_all add: blt_ctx_def\<close>)
  ultimately show ?thesis
    using fels_inject_limbs [OF _ _ lb] assms(1,2) by (auto simp: two_operands_ok_def)
qed

interpretation rv32_branch_lt: core_chip "\<lambda>_. bitwise_table 8" "branch_lt_eval 4 8 (rv32_branch_lt_air b) from_pc"
  "blt_row_wf 4 8 :: bb branch_lt_cols \<Rightarrow> bool" "\<lambda>(op, imm, as, bs). two_operands_ok 4 8 (op, as, bs)"
  "\<lambda>(op, imm, as, bs). blt_ctx 8 (rv32_branch_lt_air b) from_pc op imm as bs"
  "\<lambda>(op, imm, as, bs). fst (branch_lt_fill_core 4 8 (\<lambda>x. nat (bb_val x))
     \<lparr>br_a = as, br_b = bs, br_imm = nat (bb_val imm), br_local_opcode = repr_of branch_less_than_opcodes op\<rparr>)"
  for b from_pc
proof (unfold_locales, goal_cases)
  case (1 cols)
  then obtain as bs where r: "blt_a cols = fels as" "blt_b cols = fels bs" "limbs_ok 8 as"
      "limbs_ok 8 bs" "length as = 4" "length bs = 4"
    by (auto simp: blt_row_wf_def)
  obtain op where "core_ctx (branch_lt_eval 4 8 (rv32_branch_lt_air b) from_pc cols) =
      blt_ctx 8 (rv32_branch_lt_air b) from_pc op (blt_imm cols) as bs"
    using branch_lt_eval_sound [OF 1(2) _ 1(3) r(1,3,5) r(2,4,6)] by (auto simp: bb_CHAR)
  with r show ?case by (intro exI [of _ "(op, blt_imm cols, as, bs)"]) (simp add: two_operands_ok_def)
next
  case (2 x)
  obtain op imm as bs where x: "x = (op, imm, as, bs)" by (cases x) auto
  show ?case unfolding x prod.case
    using branch_lt_complete [where lb = 8 and n = 4 and canon = "\<lambda>x. nat (bb_val x)" and op = op
        and rec = "\<lparr>br_a = as, br_b = bs, br_imm = nat (bb_val imm), br_local_opcode = repr_of branch_less_than_opcodes op\<rparr>"
        and air = "rv32_branch_lt_air b" and from_pc = from_pc and T = "\<lambda>_. bitwise_table 8"] 2
    by (simp add: x two_operands_ok_def bb_CHAR canonical_bb bb_of_nat_val)
next
  case (3 x y)
  then show ?case
    using blt_ctx_functional [where n = 4 and lb = 8 and 'f = bb and air = "rv32_branch_lt_air b"]
    by (fastforce simp: bb_CHAR rv32_branch_lt_air_def branch_less_than_offset_def split: prod.splits)
qed

section \<open>Properties\<close>

text \<open>
  C8. An accepted valid row of the BLT/BLTU/BGE/BGEU chip sets the next program counter to the
  current one plus the immediate when the signed or unsigned comparison of the opcode holds, and
  plus 4 otherwise.
\<close>

theorem branch_lt_air_sound:
  fixes cols :: "'f::field branch_lt_cols"
  assumes "accepts T (branch_lt_eval n lb air from_pc cols)"
    and "\<And>k. T (blt_bus air) k \<Longrightarrow> bitwise_table lb k"
    and "is_valid (instruction (core_ctx (branch_lt_eval n lb air from_pc cols))) = 1"
    and "blt_a cols = fels as" "limbs_ok lb as" "length as = n"
    and "blt_b cols = fels bs" "limbs_ok lb bs" "length bs = n"
    and "0 < n" "n < CHAR('f)" "0 < lb" "2 ^ (lb + 2) < CHAR('f)"
  shows "\<exists>op. core_ctx (branch_lt_eval n lb air from_pc cols) =
    \<lparr>to_pc = Some (from_pc + (if branch_cond lb op as bs then blt_imm cols else of_nat DEFAULT_PC_STEP)),
     reads = [fels as, fels bs], writes = [],
     instruction = \<lparr>is_valid = 1, opcode = of_nat (blt_offset air + repr_of branch_less_than_opcodes op),
       immediate = blt_imm cols\<rparr>\<rparr>"
  using branch_lt_eval_sound [OF assms] unfolding blt_ctx_def .

theorem branch_lt_air_sound_witness:
  "let cols = fst (branch_lt_fill_core 4 8 (\<lambda>x. nat (bb_val x))
         \<lparr>br_a = [255, 255, 255, 255], br_b = [1, 0, 0, 0], br_imm = 16, br_local_opcode = 2\<rparr>)
   in \<exists>op. core_ctx (branch_lt_eval 4 8 (rv32_branch_lt_air 0) 100 cols) =
    \<lparr>to_pc = Some (100 + (if branch_cond 8 op [255, 255, 255, 255] [1, 0, 0, 0] then blt_imm cols
        else of_nat DEFAULT_PC_STEP)),
     reads = [fels [255, 255, 255, 255], fels [1, 0, 0, 0]], writes = [],
     instruction = \<lparr>is_valid = 1,
       opcode = of_nat (blt_offset (rv32_branch_lt_air 0) + repr_of branch_less_than_opcodes op),
       immediate = blt_imm cols\<rparr>\<rparr>"
proof -
  let ?r = "\<lparr>br_a = [255, 255, 255, 255], br_b = [1, 0, 0, 0], br_imm = 16, br_local_opcode = 2\<rparr>"
  let ?cols = "fst (branch_lt_fill_core 4 8 (\<lambda>x. nat (bb_val x)) ?r)"
  have c: "accepts (\<lambda>_. bitwise_table 8) (branch_lt_eval 4 8 (rv32_branch_lt_air 0) 100 ?cols) \<and>
      core_ctx (branch_lt_eval 4 8 (rv32_branch_lt_air 0) 100 ?cols) =
      blt_ctx 8 (rv32_branch_lt_air 0) 100 BGE (of_nat (br_imm ?r)) (br_a ?r) (br_b ?r)"
    by (rule branch_lt_complete) (simp_all add: bb_CHAR canonical_bb)
  have cols: "blt_a ?cols = fels [255, 255, 255, 255]" "blt_b ?cols = fels [1, 0, 0, 0]"
    by (simp_all add: branch_lt_fill_core_def Let_def split: prod.splits)
  have "is_valid (instruction (core_ctx (branch_lt_eval 4 8 (rv32_branch_lt_air 0) 100 ?cols))) = 1"
    using c by (simp add: blt_ctx_def)
  from branch_lt_air_sound [OF conjunct1 [OF c] _ this cols(1) _ _ cols(2)] show ?thesis
    unfolding Let_def by (simp add: bb_CHAR)
qed

text \<open>
  C9. The row the branch filler writes satisfies every constraint, its active lookups are exactly
  the range checks the filler asked for, and it jumps exactly when \<open>run_cmp\<close>, which the
  executor runs, returns true.
\<close>

theorem branch_lt_filled_row:
  fixes cols :: "'f::field branch_lt_cols"
  assumes "branch_lt_fill_core n lb canon rec = (cols, reqs)"
    and "branch_lt_eval n lb air from_pc cols = (cs, is, ctx)"
    and "limbs_ok lb (br_a rec)" "limbs_ok lb (br_b rec)" "length (br_a rec) = n" "length (br_b rec) = n"
    and "0 < n" "0 < lb" "lb \<le> 8" "2 ^ (lb + 2) < CHAR('f)" "canonical_u32 canon"
    and "br_local_opcode rec = repr_of branch_less_than_opcodes op"
  shows "all_satisfied cs \<and> active is = concat (map (bitwise_lookup (blt_bus air)) reqs) \<and>
    list_all (bitwise_request_ok lb) reqs \<and> is_valid (instruction ctx) = 1 \<and>
    to_pc ctx = Some (from_pc + (if fst (run_cmp n lb (br_local_opcode rec) (br_a rec) (br_b rec))
      then of_nat (br_imm rec) else of_nat DEFAULT_PC_STEP))"
  using branch_lt_fill_complete [OF assms(1,3-12), of air from_pc] run_cmp_correct [OF assms(3-6,8,7), of op]
  by (auto simp: assms(2,12) blt_ctx_def)

theorem branch_lt_filled_row_witness:
  "let (cols, reqs) = branch_lt_fill_core 4 8 (\<lambda>x. nat (bb_val x))
         \<lparr>br_a = [255, 255, 255, 255], br_b = [9, 0, 0, 0], br_imm = 16, br_local_opcode = 0\<rparr>;
       (cs, is, ctx) = branch_lt_eval 4 8 (rv32_branch_lt_air 0) 100 cols
   in all_satisfied cs \<and> to_pc ctx = Some (116 :: bb)"
proof -
  let ?r = "\<lparr>br_a = [255, 255, 255, 255], br_b = [9, 0, 0, 0], br_imm = 16, br_local_opcode = 0\<rparr>"
  obtain cols reqs where f: "branch_lt_fill_core 4 8 (\<lambda>x. nat (bb_val x)) ?r = (cols, reqs)"
    by (metis prod.exhaust)
  obtain cs "is" ctx where e: "branch_lt_eval 4 8 (rv32_branch_lt_air 0) 100 cols = (cs, is, ctx)"
    by (metis prod.exhaust)
  show ?thesis
    using branch_lt_filled_row [OF f e, of BLT]
    by (simp add: f e bb_CHAR canonical_bb run_cmp_def wshr_def)
qed

end
