(* ===== verification/Branch_Eq.thy ===== *)
theory Branch_Eq
  imports Branch_Lt
begin

text \<open>
  \<open>extensions/rv32im/circuit/src/branch_eq/core.rs\<close>: the core chip for BEQ and BNE. Equality is
  refuted by the inverse of one non-zero difference.
\<close>

section \<open>The model\<close>

record 'f branch_eq_cols =
  beq_a :: "'f list"
  beq_b :: "'f list"
  beq_cmp_result :: 'f
  beq_imm :: 'f
  opcode_beq_flag :: 'f
  opcode_bne_flag :: 'f
  diff_inv_marker :: "'f list"

record branch_eq_air =
  beq_offset :: nat
  beq_pc_step :: nat

text \<open>\<open>sum += (a[i] - b[i]) * inv_marker[i]\<close> with the assertion of each iteration.\<close>

fun eq_loop ::
  "'f::field \<Rightarrow> 'f list \<Rightarrow> 'f list \<Rightarrow> 'f list \<Rightarrow> 'f \<Rightarrow> nat list \<Rightarrow> 'f assertion list \<times> 'f" where
  "eq_loop cmp_eq a b inv_marker s [] = ([], s)"
| "eq_loop cmp_eq a b inv_marker s (i # is) =
     (let (cs, s') = eq_loop cmp_eq a b inv_marker (s + (a ! i - b ! i) * inv_marker ! i) is
      in (assert_zero (cmp_eq * (a ! i - b ! i)) # cs, s'))"

definition branch_eq_eval ::
  "nat \<Rightarrow> branch_eq_air \<Rightarrow> 'f::field \<Rightarrow> 'f branch_eq_cols \<Rightarrow> ('f, 'f imm_instruction) core_eval" where
  "branch_eq_eval num_limbs air from_pc cols =
     (let flags = [opcode_beq_flag cols, opcode_bne_flag cols];
          valid = fold (\<lambda>flag acc. acc + flag) flags 0;
          a = beq_a cols; b = beq_b cols;
          cmp_eq = beq_cmp_result cols * opcode_beq_flag cols
                   + not_f (beq_cmp_result cols) * opcode_bne_flag cols;
          (loop, total) = eq_loop cmp_eq a b (diff_inv_marker cols) cmp_eq [0..<num_limbs]
      in (map assert_bool flags @ [assert_bool valid, assert_bool (beq_cmp_result cols)] @ loop @
          [When valid (assert_one total)],
          [],
          \<lparr>to_pc = Some (from_pc + beq_cmp_result cols * beq_imm cols
                         + not_f (beq_cmp_result cols) * of_nat (beq_pc_step air)),
           reads = [a, b], writes = [],
           instruction = \<lparr>is_valid = valid,
             opcode = expected_opcode flags branch_equal_opcodes + of_nat (beq_offset air),
             immediate = beq_imm cols\<rparr>\<rparr>))"

fun fast_run_eq :: "BranchEqualOpcode \<Rightarrow> nat list \<Rightarrow> nat list \<Rightarrow> bool" where
  "fast_run_eq BEQ x y \<longleftrightarrow> x = y"
| "fast_run_eq BNE x y \<longleftrightarrow> x \<noteq> y"

text \<open>\<open>run_eq\<close>: the result, an index where the operands differ, and the inverse of the difference.\<close>

definition run_eq :: "nat \<Rightarrow> bool \<Rightarrow> nat list \<Rightarrow> nat list \<Rightarrow> bool \<times> nat \<times> 'f::field" where
  "run_eq num_limbs is_beq x y =
     (case find (\<lambda>i. x ! i \<noteq> y ! i) [0..<num_limbs] of
        Some i \<Rightarrow> (\<not> is_beq, i, inverse (of_nat (x ! i) - of_nat (y ! i)))
      | None \<Rightarrow> (is_beq, 0, 0))"

definition branch_eq_execute ::
  "('f::field \<Rightarrow> nat) \<Rightarrow> ('f, 'm, 'ar) adapter_trace_executor \<Rightarrow> nat \<Rightarrow> nat \<Rightarrow> 'ar \<Rightarrow>
   ('m, 'ar \<times> branch_record) vm_state_mut \<Rightarrow> 'f instr \<Rightarrow>
   execution_error + ('m, 'ar \<times> branch_record) vm_state_mut" where
  "branch_eq_execute canon A offset pc_step fresh s i =
     (case from_repr branch_equal_opcodes (local_opcode_idx (i_opcode i) offset) of
        None \<Rightarrow> Inl Panic
      | Some branch_eq_opcode \<Rightarrow>
         (let r0 = a_start A (s_pc s) (s_memory s) fresh;
              (m1, r1, data) = a_read A (s_memory s) i r0;
              rs1 = data ! 0; rs2 = data ! 1;
              core = \<lparr>br_a = rs1, br_b = rs2, br_imm = canon (i_c i),
                      br_local_opcode = wrap 8 (repr_of branch_equal_opcodes branch_eq_opcode)\<rparr>
          in Inr (s\<lparr>s_memory := m1, s_arena := s_arena s @ [(r1, core)],
                    s_pc := (if fast_run_eq branch_eq_opcode rs1 rs2
                             then canon (of_nat (s_pc s) + i_c i)
                             else wadd 32 (s_pc s) pc_step)\<rparr>)))"

definition branch_eq_fill_core :: "nat \<Rightarrow> branch_record \<Rightarrow> 'f::field branch_eq_cols" where
  "branch_eq_fill_core num_limbs rec =
     (let is_op = (\<lambda>op. br_local_opcode rec = repr_of branch_equal_opcodes op);
          (cmp_result, idx, diff_inv_val) = run_eq num_limbs (is_op BEQ) (br_a rec) (br_b rec)
      in \<lparr>beq_a = fels (br_a rec), beq_b = fels (br_b rec), beq_cmp_result = from_bool cmp_result,
          beq_imm = of_nat (br_imm rec), opcode_beq_flag = from_bool (is_op BEQ),
          opcode_bne_flag = from_bool (is_op BNE),
          diff_inv_marker = (replicate num_limbs 0)[idx := diff_inv_val]\<rparr>)"

definition branch_eq_fill_trace_row ::
  "nat \<Rightarrow> ('mh, 'ar, 'ac) adapter_filler \<Rightarrow> 'mh \<Rightarrow> 'ar \<Rightarrow> branch_record \<Rightarrow>
   ('ac \<times> 'f::field branch_eq_cols) \<times> lookup_request list" where
  "branch_eq_fill_trace_row num_limbs fill mem_helper arec rec =
     (let (acols, areqs) = fill mem_helper arec
      in ((acols, branch_eq_fill_core num_limbs rec), areqs))"

section \<open>The loop\<close>

lemma eq_loop_sum:
  "snd (eq_loop e a b m s is) = s + (\<Sum>i\<leftarrow>is. (a ! i - b ! i) * m ! i)"
  by (induction "is" arbitrary: s) (auto simp: case_prod_unfold Let_def algebra_simps)

lemma eq_loop_sat:
  "all_satisfied (fst (eq_loop e a b m s is)) \<longleftrightarrow> (\<forall>i\<in>set is. e * (a ! i - b ! i) = 0)"
  by (induction "is" arbitrary: s) (auto simp: case_prod_unfold Let_def)

lemma branch_equal_opcodes_simps [simp]:
  "repr_of branch_equal_opcodes BEQ = 0" "repr_of branch_equal_opcodes BNE = 1"
  "op \<in> set branch_equal_opcodes" "length branch_equal_opcodes = 2" "distinct branch_equal_opcodes"
  by (cases op; simp add: branch_equal_opcodes_def)+

section \<open>Soundness\<close>

definition beq_ctx ::
  "branch_eq_air \<Rightarrow> 'f \<Rightarrow> BranchEqualOpcode \<Rightarrow> 'f \<Rightarrow> nat list \<Rightarrow> nat list \<Rightarrow>
   ('f::field, 'f imm_instruction) adapter_air_context" where
  "beq_ctx air from_pc op imm as bs =
     \<lparr>to_pc = Some (from_pc + (if fast_run_eq op as bs then imm else of_nat (beq_pc_step air))),
      reads = [fels as, fels bs], writes = [],
      instruction = \<lparr>is_valid = 1, opcode = of_nat (beq_offset air + repr_of branch_equal_opcodes op),
        immediate = imm\<rparr>\<rparr>"

lemma branch_eq_eval_sound:
  fixes cols :: "'f::field branch_eq_cols"
  assumes acc: "accepts T (branch_eq_eval n air from_pc cols)"
    and valid: "is_valid (instruction (core_ctx (branch_eq_eval n air from_pc cols))) = 1"
    and a: "beq_a cols = fels as" "limbs_ok lb as" "length as = n"
    and b: "beq_b cols = fels bs" "limbs_ok lb bs" "length bs = n"
    and char: "2 ^ lb < CHAR('f)"
  shows "\<exists>op. core_ctx (branch_eq_eval n air from_pc cols) = beq_ctx air from_pc op (beq_imm cols) as bs"
proof -
  let ?e = "beq_cmp_result cols * opcode_beq_flag cols + not_f (beq_cmp_result cols) * opcode_bne_flag cols"
  note ev = branch_eq_eval_def [of n air from_pc cols, unfolded Let_def a(1) b(1) case_prod_unfold]
  have v: "opcode_beq_flag cols + opcode_bne_flag cols = 1" using valid by (simp add: ev)
  obtain be where be: "opcode_beq_flag cols = from_bool be" "opcode_bne_flag cols = from_bool (\<not> be)"
    by (rule two_flags [of "opcode_beq_flag cols" "opcode_bne_flag cols"])
      (use acc v in \<open>auto simp: accepts_def ev\<close>)
  obtain r where r: "beq_cmp_result cols = from_bool r"
    using acc by (auto simp: accepts_def ev intro: that [of True] that [of False])
  have e: "?e = from_bool (r = be)" unfolding be r by (cases r; cases be) (simp_all add: not_f_def)
  have sum: "?e + (\<Sum>i\<leftarrow>[0..<n]. (fels as ! i - fels bs ! i) * diff_inv_marker cols ! i) = 1"
    and zero: "\<forall>i<n. ?e * (fels as ! i - fels bs ! i) = 0"
    using acc v by (auto simp: accepts_def ev eq_loop_sum eq_loop_sat)
  have "(r = be) \<longleftrightarrow> as = bs"
  proof
    assume "r = be"
    then have "(fels as :: 'f list) = fels bs"
      using zero e a b by (intro nth_equalityI) auto
    then show "as = bs" using fels_inject_limbs [OF a(2) b(2) char] by simp
  next
    assume eq: "as = bs"
    have "(\<Sum>i\<leftarrow>[0..<n]. (fels as ! i - fels bs ! i) * diff_inv_marker cols ! i) = 0"
      unfolding eq by (simp add: sum_list_0)
    then have "?e = 1" using sum by simp
    then show "r = be" using e by (auto simp: from_bool_def split: if_splits)
  qed
  then have cond: "r \<longleftrightarrow> fast_run_eq (if be then BEQ else BNE) as bs" by auto
  have "core_ctx (branch_eq_eval n air from_pc cols) =
      beq_ctx air from_pc (if be then BEQ else BNE) (beq_imm cols) as bs"
    using cond by (auto simp: ev beq_ctx_def a b r be not_f_def expected_opcode_def
        branch_equal_opcodes_def upt_rec)
  then show ?thesis by blast
qed

section \<open>Completeness\<close>

lemma run_eq_correct:
  assumes "length x = n" "length y = n"
  shows "fst (run_eq n b x y :: bool \<times> nat \<times> 'f::field) \<longleftrightarrow> (b \<longleftrightarrow> x = y)"
proof -
  have "find (\<lambda>i. x ! i \<noteq> y ! i) [0..<n] = None \<longleftrightarrow> x = y"
    using assms by (auto simp: find_None_iff list_eq_iff_nth_eq)
  then show ?thesis by (auto simp: run_eq_def split: option.splits)
qed

lemma sum_list_upt_single:
  "k < n \<Longrightarrow> (\<And>i. i < n \<Longrightarrow> i \<noteq> k \<Longrightarrow> f i = 0) \<Longrightarrow> (\<Sum>i\<leftarrow>[0..<n]. f i) = (f k :: 'f::field)"
  by (simp add: interv_sum_list_conv_sum_set_nat sum.remove [of "{0..<n}" k])

lemma branch_eq_complete:
  fixes rec :: branch_record and T :: "nat \<Rightarrow> 'f::field list \<Rightarrow> bool"
  assumes ok: "limbs_ok lb (br_a rec)" "limbs_ok lb (br_b rec)" "length (br_a rec) = n" "length (br_b rec) = n"
    and char: "2 ^ lb < CHAR('f)"
    and op: "br_local_opcode rec = repr_of branch_equal_opcodes op"
  shows "accepts T (branch_eq_eval n air from_pc (branch_eq_fill_core n rec)) \<and>
    core_ctx (branch_eq_eval n air from_pc (branch_eq_fill_core n rec)) =
    beq_ctx air from_pc op (of_nat (br_imm rec)) (br_a rec) (br_b rec)"
proof -
  let ?a = "br_a rec" and ?b = "br_b rec"
  define be where "be \<longleftrightarrow> op = BEQ"
  obtain r k v where run: "run_eq n be ?a ?b = (r, k, v :: 'f)" by (metis prod.exhaust)
  have r: "r \<longleftrightarrow> (be \<longleftrightarrow> ?a = ?b)" using run_eq_correct [OF ok(3,4), of be, where 'f = 'f] run by simp
  have opb: "(br_local_opcode rec = repr_of branch_equal_opcodes BEQ) = be"
    "(br_local_opcode rec = repr_of branch_equal_opcodes BNE) = (\<not> be)"
    by (cases op; simp add: op be_def)+
  have cols: "branch_eq_fill_core n rec = \<lparr>beq_a = fels ?a, beq_b = fels ?b, beq_cmp_result = from_bool r,
      beq_imm = of_nat (br_imm rec), opcode_beq_flag = from_bool be, opcode_bne_flag = from_bool (\<not> be),
      diff_inv_marker = (replicate n 0)[k := v]\<rparr>"
    unfolding branch_eq_fill_core_def Let_def opb run prod.case ..
  have e: "from_bool r * from_bool be + not_f (from_bool r) * from_bool (\<not> be) = (from_bool (?a = ?b) :: 'f)"
    using r by (cases r; cases be) (simp_all add: not_f_def)
  have sum: "from_bool (?a = ?b) +
      (\<Sum>i\<leftarrow>[0..<n]. (fels ?a ! i - fels ?b ! i) * (replicate n 0)[k := v] ! i) = (1 :: 'f)"
  proof (cases "?a = ?b")
    case True
    then show ?thesis by (simp add: sum_list_0)
  next
    case False
    then obtain i where f: "find (\<lambda>i. ?a ! i \<noteq> ?b ! i) [0..<n] = Some i"
      using ok(3,4) by (cases "find (\<lambda>i. ?a ! i \<noteq> ?b ! i) [0..<n]") (auto simp: find_None_iff list_eq_iff_nth_eq)
    then have "i = k" "v = inverse (of_nat (?a ! k) - of_nat (?b ! k))"
      using run by (auto simp: run_eq_def)
    then have k: "k < n" "?a ! k \<noteq> ?b ! k" "v = inverse (of_nat (?a ! k) - of_nat (?b ! k))"
      using f by (auto simp: find_Some_iff)
    have "of_nat (?a ! k) \<noteq> (of_nat (?b ! k) :: 'f)"
      using k ok char by (simp add: of_nat_eq_iff_char list_all_length less_trans [OF _ char])
    then have "(\<Sum>i\<leftarrow>[0..<n]. (fels ?a ! i - fels ?b ! i) * (replicate n 0)[k := v] ! i) = (1 :: 'f)"
      by (subst sum_list_upt_single [of k]) (use k ok in auto)
    then show ?thesis using False by simp
  qed
  note ev = branch_eq_eval_def [of n air from_pc "branch_eq_fill_core n rec", unfolded cols Let_def
      branch_eq_cols.select_convs case_prod_unfold e]
  have "accepts T (branch_eq_eval n air from_pc (branch_eq_fill_core n rec))"
    unfolding ev [folded cols] accepts_def using sum ok
    by (auto simp: eq_loop_sum eq_loop_sat from_bool_def)
  moreover have "core_ctx (branch_eq_eval n air from_pc (branch_eq_fill_core n rec)) =
      beq_ctx air from_pc op (of_nat (br_imm rec)) ?a ?b"
    unfolding ev [folded cols] beq_ctx_def using r
    by (cases op) (auto simp: not_f_def be_def expected_opcode_def upt_rec)
  ultimately show ?thesis ..
qed

section \<open>The chip of the RV32 extension\<close>

definition rv32_branch_eq_air :: branch_eq_air where
  "rv32_branch_eq_air = \<lparr>beq_offset = branch_equal_offset, beq_pc_step = DEFAULT_PC_STEP\<rparr>"

definition beq_row_wf :: "nat \<Rightarrow> nat \<Rightarrow> 'f::field branch_eq_cols \<Rightarrow> bool" where
  "beq_row_wf n lb cols \<longleftrightarrow> (\<exists>as bs. beq_a cols = fels as \<and> beq_b cols = fels bs \<and>
     limbs_ok lb as \<and> limbs_ok lb bs \<and> length as = n \<and> length bs = n)"

lemma beq_ctx_functional:
  assumes "two_operands_ok n lb (op, as, bs)" "two_operands_ok n lb (op', as', bs')"
    and lb: "2 ^ lb < CHAR('f::field)" and off: "beq_offset air + 2 \<le> CHAR('f)"
    and eq: "reads (beq_ctx air from_pc op imm as bs) = reads (beq_ctx air from_pc op' imm' as' bs')"
      "instruction (beq_ctx air from_pc op imm as bs) = instruction (beq_ctx air from_pc op' (imm' :: 'f) as' bs')"
  shows "op = op' \<and> imm = imm' \<and> as = as' \<and> bs = bs'"
proof -
  have "(fels as :: 'f list) = fels as'" "(fels bs :: 'f list) = fels bs'" "imm = imm'"
    using eq by (simp_all add: beq_ctx_def)
  moreover have "op = op'"
    by (rule opcode_inject [where off = "beq_offset air" and vs = branch_equal_opcodes and 'f = 'f])
      (use eq(2) off in \<open>simp_all add: beq_ctx_def\<close>)
  ultimately show ?thesis
    using fels_inject_limbs [OF _ _ lb] assms(1,2) by (auto simp: two_operands_ok_def)
qed

interpretation rv32_branch_eq: core_chip "\<lambda>_ _. False" "branch_eq_eval 4 rv32_branch_eq_air from_pc"
  "beq_row_wf 4 8 :: bb branch_eq_cols \<Rightarrow> bool" "\<lambda>(op, imm, as, bs). two_operands_ok 4 8 (op, as, bs)"
  "\<lambda>(op, imm, as, bs). beq_ctx rv32_branch_eq_air from_pc op imm as bs"
  "\<lambda>(op, imm, as, bs). branch_eq_fill_core 4
     \<lparr>br_a = as, br_b = bs, br_imm = nat (bb_val imm), br_local_opcode = repr_of branch_equal_opcodes op\<rparr>"
  for from_pc
proof (unfold_locales, goal_cases)
  case (1 cols)
  then obtain as bs where r: "beq_a cols = fels as" "beq_b cols = fels bs" "limbs_ok 8 as"
      "limbs_ok 8 bs" "length as = 4" "length bs = 4"
    by (auto simp: beq_row_wf_def)
  obtain op where "core_ctx (branch_eq_eval 4 rv32_branch_eq_air from_pc cols) =
      beq_ctx rv32_branch_eq_air from_pc op (beq_imm cols) as bs"
    using branch_eq_eval_sound [OF 1(2,3) r(1,3,5) r(2,4,6)] by (auto simp: bb_CHAR)
  with r show ?case by (intro exI [of _ "(op, beq_imm cols, as, bs)"]) (simp add: two_operands_ok_def)
next
  case (2 x)
  obtain op imm as bs where x: "x = (op, imm, as, bs)" by (cases x) auto
  show ?case unfolding x prod.case
    using branch_eq_complete [where lb = 8 and n = 4 and op = op
        and rec = "\<lparr>br_a = as, br_b = bs, br_imm = nat (bb_val imm), br_local_opcode = repr_of branch_equal_opcodes op\<rparr>"
        and air = rv32_branch_eq_air and from_pc = from_pc and T = "\<lambda>_ _. False"] 2
    by (simp add: x two_operands_ok_def bb_CHAR)
next
  case (3 x y)
  then show ?case
    using beq_ctx_functional [where n = 4 and lb = 8 and 'f = bb and air = rv32_branch_eq_air]
    by (fastforce simp: bb_CHAR rv32_branch_eq_air_def branch_equal_offset_def split: prod.splits)
qed

section \<open>Properties\<close>

text \<open>
  C10. An accepted valid row of the BEQ/BNE chip jumps by the immediate exactly when the operands
  are equal (BEQ) or different (BNE), and steps by \<open>pc_step\<close> otherwise.
\<close>

theorem branch_eq_air_sound:
  fixes cols :: "'f::field branch_eq_cols"
  assumes "accepts T (branch_eq_eval n air from_pc cols)"
    and "is_valid (instruction (core_ctx (branch_eq_eval n air from_pc cols))) = 1"
    and "beq_a cols = fels as" "limbs_ok lb as" "length as = n"
    and "beq_b cols = fels bs" "limbs_ok lb bs" "length bs = n"
    and "2 ^ lb < CHAR('f)"
  shows "\<exists>op. core_ctx (branch_eq_eval n air from_pc cols) =
     \<lparr>to_pc = Some (from_pc + (if (limbs_val lb as = limbs_val lb bs) = (op = BEQ) then beq_imm cols
        else of_nat (beq_pc_step air))),
      reads = [fels as, fels bs], writes = [],
      instruction = \<lparr>is_valid = 1, opcode = of_nat (beq_offset air + repr_of branch_equal_opcodes op),
        immediate = beq_imm cols\<rparr>\<rparr>"
proof -
  have "fast_run_eq op as bs \<longleftrightarrow> (limbs_val lb as = limbs_val lb bs) = (op = BEQ)" for op
    using limbs_val_inject [of lb as bs] assms by (cases op) auto
  then show ?thesis using branch_eq_eval_sound [OF assms] unfolding beq_ctx_def by simp
qed

theorem branch_eq_air_sound_witness:
  "let cols = branch_eq_fill_core 4 \<lparr>br_a = [7, 0, 0, 0], br_b = [9, 0, 0, 0], br_imm = 16, br_local_opcode = 1\<rparr>
   in \<exists>op. core_ctx (branch_eq_eval 4 rv32_branch_eq_air 100 cols) =
     \<lparr>to_pc = Some (100 + (if (limbs_val 8 [7, 0, 0, 0] = limbs_val 8 [9, 0, 0, 0]) = (op = BEQ)
        then beq_imm cols else of_nat (beq_pc_step rv32_branch_eq_air) :: bb)),
      reads = [fels [7, 0, 0, 0], fels [9, 0, 0, 0]], writes = [],
      instruction = \<lparr>is_valid = 1, opcode = of_nat (beq_offset rv32_branch_eq_air + repr_of branch_equal_opcodes op),
        immediate = beq_imm cols\<rparr>\<rparr>"
proof -
  let ?r = "\<lparr>br_a = [7, 0, 0, 0], br_b = [9, 0, 0, 0], br_imm = 16, br_local_opcode = 1\<rparr>"
  let ?cols = "branch_eq_fill_core 4 ?r :: bb branch_eq_cols"
  have c: "accepts (\<lambda>_ _. False) (branch_eq_eval 4 rv32_branch_eq_air 100 ?cols) \<and>
      core_ctx (branch_eq_eval 4 rv32_branch_eq_air 100 ?cols) =
      beq_ctx rv32_branch_eq_air 100 BNE (of_nat (br_imm ?r)) (br_a ?r) (br_b ?r)"
    by (rule branch_eq_complete [where lb = 8]) (simp_all add: bb_CHAR)
  have cols: "beq_a ?cols = fels [7, 0, 0, 0]" "beq_b ?cols = fels [9, 0, 0, 0]"
    by (simp_all add: branch_eq_fill_core_def Let_def split: prod.splits)
  have "is_valid (instruction (core_ctx (branch_eq_eval 4 rv32_branch_eq_air 100 ?cols))) = 1"
    using c by (simp add: beq_ctx_def)
  from branch_eq_air_sound [OF conjunct1 [OF c] this cols(1) _ _ cols(2), of 8] show ?thesis
    unfolding Let_def by (simp add: bb_CHAR del: limbs_val.simps)
qed

text \<open>
  The row the BEQ/BNE filler writes satisfies every constraint, and its next program counter
  is the one the executor computes with \<open>fast_run_eq\<close>, although the filler uses the other
  routine, \<open>run_eq\<close>.
\<close>

theorem branch_eq_filled_row:
  fixes rec :: branch_record
  assumes "limbs_ok lb (br_a rec)" "limbs_ok lb (br_b rec)" "length (br_a rec) = n" "length (br_b rec) = n"
    and "2 ^ lb < CHAR('f::field)" and "br_local_opcode rec = repr_of branch_equal_opcodes op"
  shows "all_satisfied (fst (branch_eq_eval n air from_pc (branch_eq_fill_core n rec :: 'f branch_eq_cols))) \<and>
    to_pc (core_ctx (branch_eq_eval n air from_pc (branch_eq_fill_core n rec :: 'f branch_eq_cols))) =
      Some (from_pc + (if fast_run_eq op (br_a rec) (br_b rec) then of_nat (br_imm rec) else of_nat (beq_pc_step air))) \<and>
    fst (run_eq n (op = BEQ) (br_a rec) (br_b rec) :: bool \<times> nat \<times> 'f) = fast_run_eq op (br_a rec) (br_b rec)"
  using branch_eq_complete [OF assms, of "\<lambda>_ _. False" air from_pc] run_eq_correct [OF assms(3,4), of "op = BEQ", where 'f = 'f]
  by (cases op) (auto simp: accepts_def beq_ctx_def)

theorem branch_eq_filled_row_witness:
  "to_pc (core_ctx (branch_eq_eval 4 rv32_branch_eq_air 100 (branch_eq_fill_core 4
     \<lparr>br_a = [7, 0, 0, 0], br_b = [7, 0, 0, 0], br_imm = 16, br_local_opcode = 0\<rparr>))) = Some (116 :: bb)"
  using branch_eq_filled_row [of 8 "\<lparr>br_a = [7, 0, 0, 0], br_b = [7, 0, 0, 0], br_imm = 16, br_local_opcode = 0\<rparr>"
      4 BEQ rv32_branch_eq_air "100 :: bb"]
  by (simp add: bb_CHAR)

end
