(* ===== verification/Var_Range.thy ===== *)
theory Var_Range
  imports Lookup_Chips
begin

unbundle bit_operations_syntax

text \<open>
  \<open>crates/circuits/primitives/src/var_range\<close>: the table of all pairs (value, bits) with
  \<open>value < 2 ^ bits\<close> and \<open>bits \<le> range_max_bits\<close>. Its AIR enumerates the table by a monotonic
  sum; the theorems show that no other trace satisfies it, that the generated trace does, and
  that the counters balance the bus.
\<close>

section \<open>The model\<close>

record var_range_bus =
  vr_index :: nat
  range_max_bits :: nat

definition var_range_push :: "var_range_bus \<Rightarrow> 'f::field \<Rightarrow> 'f \<Rightarrow> bool \<Rightarrow> 'f \<Rightarrow> 'f interaction" where
  [air_defs]: "var_range_push bus v max_bits is_lookup count =
     (if is_lookup then Lookup_key (vr_index bus) [v, max_bits] count
      else Add_key (vr_index bus) [v, max_bits] count)"

definition var_range_send :: "var_range_bus \<Rightarrow> 'f::field \<Rightarrow> 'f \<Rightarrow> 'f \<Rightarrow> 'f interaction" where
  [air_defs]: "var_range_send bus v max_bits count = var_range_push bus v max_bits True count"

definition var_range_receive :: "var_range_bus \<Rightarrow> 'f::field \<Rightarrow> 'f \<Rightarrow> 'f \<Rightarrow> 'f interaction" where
  [air_defs]: "var_range_receive bus v max_bits count = var_range_push bus v max_bits False count"

definition range_check :: "var_range_bus \<Rightarrow> 'f::field \<Rightarrow> nat \<Rightarrow> 'f \<Rightarrow> 'f interaction" where
  [air_defs]: "range_check bus v max_bits count = var_range_push bus v (of_nat max_bits) True count"

record 'f var_range_cols =
  vr_value :: 'f
  vr_max_bits :: 'f
  vr_two_to_max_bits :: 'f
  vr_mult :: 'f

text \<open>The four constraints on consecutive rows.\<close>

definition var_range_transition ::
  "'f::field var_range_cols \<Rightarrow> 'f var_range_cols \<Rightarrow> 'f assertion list" where
  "var_range_transition loc nxt =
     (let max_bits_delta = vr_max_bits nxt - vr_max_bits loc
      in [assert_bool max_bits_delta,
          When (vr_value nxt) (assert_eq (vr_value nxt) (vr_value loc + 1)),
          assert_eq (vr_two_to_max_bits nxt) (vr_two_to_max_bits loc * (1 + max_bits_delta)),
          assert_eq (vr_value loc + vr_two_to_max_bits loc + 1)
                    (vr_value nxt + vr_two_to_max_bits nxt)])"

definition var_range_eval ::
  "var_range_bus \<Rightarrow> 'f::field var_range_cols \<Rightarrow> 'f var_range_cols \<Rightarrow>
   'f row_assertion list \<times> 'f interaction list" where
  "var_range_eval bus loc nxt =
     ([First_row (assert_zero (vr_value loc)),
       First_row (assert_zero (vr_max_bits loc)),
       First_row (assert_one (vr_two_to_max_bits loc))] @
      map Transition (var_range_transition loc nxt) @
      [Last_row (assert_zero (vr_value loc)),
       Last_row (assert_eq (vr_max_bits loc) (of_nat (range_max_bits bus + 1))),
       Last_row (assert_zero (vr_mult loc))],
      [var_range_receive bus (vr_value loc) (vr_max_bits loc) (vr_mult loc)])"

text \<open>
  The chip: one counter per row. The number of rows is an \<open>i32\<close> cast to \<open>usize\<close>.
\<close>

definition var_range_new :: "var_range_bus \<Rightarrow> nat list" where
  "var_range_new bus =
     (let num_rows = nat (i32_val (shl_rel 32 1 (range_max_bits bus + 1)) mod 2 ^ 64) in replicate num_rows 0)"

definition add_count :: "nat list \<Rightarrow> nat \<Rightarrow> nat \<Rightarrow> nat list option" where
  "add_count count v max_bits =
     (let idx = wsub 64 (wadd 64 (shl_rel 64 1 max_bits) v) 1 in bump count idx)"

definition var_range_clear :: "nat list \<Rightarrow> nat list" where
  "var_range_clear count = map (\<lambda>_. 0) count"

fun ilog2 :: "nat \<Rightarrow> nat" where
  "ilog2 n = (if n < 2 then 0 else Suc (ilog2 (n div 2)))"

declare ilog2.simps [simp del]

definition var_range_row :: "nat list \<Rightarrow> nat \<Rightarrow> 'f::field var_range_cols" where
  "var_range_row count i =
     (let max_bits = ilog2 (i + 1); two_to_max_bits = 2 ^ max_bits; v = i + 1 - two_to_max_bits
      in \<lparr>vr_value = of_nat v, vr_max_bits = of_nat max_bits,
          vr_two_to_max_bits = of_nat two_to_max_bits, vr_mult = of_nat (count ! i)\<rparr>)"

definition var_range_generate_trace :: "nat list \<Rightarrow> 'f::field var_range_cols list \<times> nat list" where
  "var_range_generate_trace count =
     (map (var_range_row count) [0..<length count], var_range_clear count)"

text \<open>
  \<open>decompose\<close>: the limbs of \<open>value\<close> and the requests for them, on \<open>u32\<close>. The debug assertions at
  its ends are not part of the release code.
\<close>

fun decompose :: "nat \<Rightarrow> nat \<Rightarrow> nat \<Rightarrow> nat \<Rightarrow> 'f::field list \<times> lookup_request list" where
  "decompose max_bits v bits_remaining 0 = ([], [])"
| "decompose max_bits v bits_remaining (Suc n) =
     (let mask = wsub 32 (shl_rel 32 1 max_bits) 1;
          limb = v AND mask;
          (limbs, reqs) = decompose max_bits (shr_rel 32 v max_bits) (bits_remaining - max_bits) n
      in (of_nat limb # limbs, Add_count limb (min bits_remaining max_bits) # reqs))"

section \<open>Soundness of the AIR\<close>

text \<open>The table, and what an accepted trace is.\<close>

definition var_range_table :: "nat \<Rightarrow> 'f::field list \<Rightarrow> bool" where
  "var_range_table m k \<longleftrightarrow> (\<exists>b \<le> m. \<exists>v < 2 ^ b. k = [of_nat v, of_nat b])"

definition var_range_valid :: "var_range_bus \<Rightarrow> 'f::field var_range_cols list \<Rightarrow> bool" where
  "var_range_valid bus rows \<longleftrightarrow> length rows < CHAR('f) \<and> 2 ^ (range_max_bits bus + 1) < CHAR('f) \<and>
     trace_satisfied (\<lambda>l n. fst (var_range_eval bus l n)) rows"

text \<open>
  Row \<open>i\<close> stands for a pair of naturals whose sum is \<open>i + 1\<close>. As a field element the value
  could only return to zero early when it equals \<open>two_to_max_bits - 1\<close>.
\<close>

definition vr_state :: "nat \<Rightarrow> 'f::field var_range_cols \<Rightarrow> nat \<Rightarrow> nat \<Rightarrow> bool" where
  "vr_state i r b v \<longleftrightarrow> i + 1 = 2 ^ b + v \<and> vr_value r = of_nat v \<and> vr_max_bits r = of_nat b \<and>
     vr_two_to_max_bits r = of_nat (2 ^ b)"

lemma vr_step:
  fixes r s :: "'f::field var_range_cols"
  assumes st: "vr_state i r b v" and i: "i + 2 < CHAR('f)"
    and all: "all_satisfied (var_range_transition r s)"
  shows "vr_state (Suc i) s b (Suc v) \<or> (Suc v = 2 ^ b \<and> vr_state (Suc i) s (Suc b) 0)"
proof -
  have tr: "satisfied (assert_bool (vr_max_bits s - vr_max_bits r))"
      "satisfied (When (vr_value s) (assert_eq (vr_value s) (vr_value r + 1)))"
      "satisfied (assert_eq (vr_two_to_max_bits s) (vr_two_to_max_bits r * (1 + (vr_max_bits s - vr_max_bits r))))"
      "satisfied (assert_eq (vr_value r + vr_two_to_max_bits r + 1) (vr_value s + vr_two_to_max_bits s))"
    using all by (simp_all add: var_range_transition_def Let_def)
  have st': "i + 1 = 2 ^ b + v" "vr_value r = of_nat v" "vr_max_bits r = of_nat b"
      "vr_two_to_max_bits r = of_nat (2 ^ b)"
    using st by (simp_all add: vr_state_def)
  consider "vr_max_bits s = of_nat b" | "vr_max_bits s = of_nat (Suc b)"
    using tr(1) by (auto simp: st' algebra_simps)
  then show ?thesis
  proof cases
    case 1
    then have "vr_two_to_max_bits s = of_nat (2 ^ b)" using tr(3) st' by simp
    moreover from this have "vr_value s = of_nat (Suc v)" using tr(4) st' by (simp add: algebra_simps)
    ultimately show ?thesis using 1 st' by (simp add: vr_state_def)
  next
    case 2
    then have t: "vr_two_to_max_bits s = of_nat (2 ^ Suc b)" using tr(3) st' by (simp add: mult.commute)
    then have v: "vr_value s + of_nat (2 ^ b) = of_nat (Suc v)"
      using tr(4) st' by (simp add: algebra_simps)
    have b: "2 ^ b < CHAR('f)" "Suc v < CHAR('f)" using st'(1) i by linarith+
    have "vr_value s = 0"
    proof (rule ccontr)
      assume "vr_value s \<noteq> 0"
      then have "vr_value s = of_nat (Suc v)" using tr(2) st' by simp
      then have "of_nat (2 ^ b) = (0 :: 'f)" using v by simp
      then show False using of_nat_eq_0_char [OF b(1)] by simp
    qed
    then have "of_nat (2 ^ b) = (of_nat (Suc v) :: 'f)" using v by simp
    then have "Suc v = 2 ^ b" using b by (simp only: of_nat_eq_iff_char)
    then show ?thesis using \<open>vr_value s = 0\<close> t 2 st'(1) by (simp add: vr_state_def)
  qed
qed

lemma vr_transition:
  fixes rows :: "'f::field var_range_cols list"
  assumes "var_range_valid bus rows" "Suc i < length rows" "vr_state i (rows ! i) b v"
  shows "vr_state (Suc i) (rows ! Suc i) b (Suc v) \<or> (Suc v = 2 ^ b \<and> vr_state (Suc i) (rows ! Suc i) (Suc b) 0)"
proof (rule vr_step [OF assms(3)])
  show "i + 2 < CHAR('f)" using assms(1,2) by (simp add: var_range_valid_def)
qed (use assms(1,2) trace_satisfied_window [of "\<lambda>l n. fst (var_range_eval bus l n)" rows i] in
    \<open>auto simp: var_range_valid_def var_range_eval_def var_range_transition_def Let_def\<close>)

lemma vr_first:
  fixes rows :: "'f::field var_range_cols list"
  assumes "var_range_valid bus rows" "rows \<noteq> []"
  shows "vr_state 0 (rows ! 0) 0 0"
  using assms by (auto simp: var_range_valid_def trace_satisfied_def var_range_eval_def var_range_transition_def Let_def vr_state_def)

lemma vr_states:
  assumes "var_range_valid bus rows" "i < length rows"
  shows "\<exists>b v. vr_state i (rows ! i) b v"
  using assms(2)
proof (induction i)
  case 0
  then show ?case using vr_first [OF assms(1)] by blast
next
  case (Suc i)
  then show ?case using vr_transition [OF assms(1)] by (metis Suc_lessD)
qed

text \<open>A value that has passed \<open>2 ^ bits\<close> never comes back.\<close>

lemma vr_runaway:
  assumes "var_range_valid bus rows" "vr_state i (rows ! i) b v" "2 ^ b \<le> v" "i + k < length rows"
  shows "\<exists>b v. vr_state (i + k) (rows ! (i + k)) b v \<and> 2 ^ b \<le> v"
  using assms(4)
proof (induction k)
  case 0
  then show ?case using assms by auto
next
  case (Suc k)
  then obtain b v where bv: "vr_state (i + k) (rows ! (i + k)) b v" "2 ^ b \<le> v" by auto
  then show ?case using vr_transition [OF assms(1) _ bv(1)] Suc.prems by fastforce
qed

lemma vr_last:
  fixes rows :: "'f::field var_range_cols list"
  assumes valid: "var_range_valid bus rows" and ne: "rows \<noteq> []"
    and st: "vr_state (length rows - 1) (rows ! (length rows - 1)) b v"
  shows "v = 0 \<and> b = range_max_bits bus + 1 \<and> vr_mult (rows ! (length rows - 1)) = 0 \<and>
    length rows = 2 ^ (range_max_bits bus + 1)"
proof -
  let ?r = "rows ! (length rows - 1)"
  have len: "length rows < CHAR('f)" "2 ^ (range_max_bits bus + 1) < CHAR('f)"
    using valid by (simp_all add: var_range_valid_def)
  have last: "vr_value ?r = 0" "vr_max_bits ?r = of_nat (range_max_bits bus + 1)" "vr_mult ?r = 0"
    using valid ne trace_satisfied_row [of "\<lambda>l n. fst (var_range_eval bus l n)" rows "length rows - 1"]
    by (auto simp: var_range_valid_def var_range_eval_def var_range_transition_def Let_def)
  have sum: "length rows = 2 ^ b + v" "of_nat v = (0 :: 'f)" "of_nat b = (of_nat (range_max_bits bus + 1) :: 'f)"
    using st last ne by (cases rows; simp add: vr_state_def)+
  have "b < 2 ^ b" "range_max_bits bus + 1 < 2 ^ (range_max_bits bus + 1)" by (rule less_exp)+
  then have "b = range_max_bits bus + 1" using sum(1,3) len
    by (subst (asm) of_nat_eq_iff_char) linarith+
  moreover have "v = 0" using sum(1,2) len(1) by (simp add: of_nat_eq_0_char)
  ultimately show ?thesis using sum(1) last(3) by simp
qed

lemma var_range_row_sound:
  fixes rows :: "'f::field var_range_cols list"
  assumes valid: "var_range_valid bus rows" and r: "r \<in> set rows"
    and mem: "Add_key (vr_index bus) k c \<in> set (snd (var_range_eval bus r r))" and c: "c \<noteq> 0"
  shows "var_range_table (range_max_bits bus) k"
proof -
  obtain i where i: "i < length rows" "rows ! i = r" using r by (auto simp: in_set_conv_nth)
  then have ne: "rows \<noteq> []" by auto
  obtain b v where st: "vr_state i r b v" using vr_states [OF valid i(1)] i(2) by auto
  have k: "k = [of_nat v, of_nat b]" "c = vr_mult r"
    using mem st by (simp_all add: var_range_eval_def var_range_transition_def Let_def air_defs vr_state_def)
  obtain b' v' where "vr_state (length rows - 1) (rows ! (length rows - 1)) b' v'"
    using vr_states [OF valid, of "length rows - 1"] ne by auto
  note last = vr_last [OF valid ne this]
  have "v < 2 ^ b"
  proof (rule ccontr)
    assume "\<not> v < 2 ^ b"
    then obtain b v where "vr_state (length rows - 1) (rows ! (length rows - 1)) b v" "2 ^ b \<le> v"
      using vr_runaway [OF valid, of i b v "length rows - 1 - i"] st i ne by auto
    then show False using vr_last [OF valid ne] by fastforce
  qed
  moreover have "b \<le> range_max_bits bus"
  proof -
    have "Suc i \<noteq> length rows"
    proof
      assume "Suc i = length rows"
      then have "rows ! (length rows - 1) = r" using i by (metis diff_Suc_1)
      then have "vr_mult r = 0" using last by metis
      then show False using k c by simp
    qed
    then have "i + 1 < 2 ^ (range_max_bits bus + 1)" using i(1) last by simp
    then have "(2::nat) ^ b < 2 ^ (range_max_bits bus + 1)" using st by (simp add: vr_state_def)
    then have "b < range_max_bits bus + 1" by (rule power_less_imp_less_exp [rotated]) simp
    then show ?thesis by simp
  qed
  ultimately show ?thesis unfolding var_range_table_def k(1) by blast
qed

interpretation var_range: lookup_bus "var_range_table (range_max_bits bus)"
  "\<lambda>r. snd (var_range_eval bus r r)" "var_range_valid bus" "vr_index bus"
  for bus
  by unfold_locales (rule var_range_row_sound)

section \<open>The generated trace\<close>

lemma ilog2_bounds: "0 < n \<Longrightarrow> 2 ^ ilog2 n \<le> n \<and> n < 2 ^ Suc (ilog2 n)"
proof (induction n rule: ilog2.induct)
  case (1 n)
  show ?case
  proof (cases "n < 2")
    case True
    then show ?thesis using 1 by (simp add: ilog2.simps [of n])
  next
    case False
    then have IH: "2 ^ ilog2 (n div 2) \<le> n div 2 \<and> n div 2 < 2 ^ Suc (ilog2 (n div 2))" using 1 by simp
    have "ilog2 n = Suc (ilog2 (n div 2))" using False by (simp add: ilog2.simps [of n])
    then show ?thesis using IH by auto
  qed
qed

lemma ilog2_eq: "2 ^ b \<le> n \<Longrightarrow> n < 2 ^ Suc b \<Longrightarrow> ilog2 n = b"
proof -
  assume b: "2 ^ b \<le> n" "n < 2 ^ Suc b"
  then have "0 < n" by (metis less_le_trans zero_less_numeral zero_less_power)
  note l = ilog2_bounds [OF this]
  have "(2::nat) ^ b < 2 ^ Suc (ilog2 n)" "(2::nat) ^ ilog2 n < 2 ^ Suc b" using b l by linarith+
  then have "b < Suc (ilog2 n)" "ilog2 n < Suc b"
    by (simp_all only: power_strict_increasing_iff one_less_numeral_iff num.distinct semiring_norm)
  then show ?thesis by simp
qed

lemma var_range_row_key:
  assumes "v < 2 ^ b"
  shows "var_range_row count (2 ^ b + v - 1) =
    \<lparr>vr_value = of_nat v, vr_max_bits = of_nat b, vr_two_to_max_bits = of_nat (2 ^ b),
     vr_mult = of_nat (count ! (2 ^ b + v - 1))\<rparr>"
proof -
  have e: "2 ^ b + v - 1 + 1 = 2 ^ b + v"
    using zero_less_power [of "2::nat" b] by linarith
  have "ilog2 (2 ^ b + v) = b" by (rule ilog2_eq) (use assms in simp_all)
  then show ?thesis unfolding var_range_row_def Let_def e by simp
qed

lemma var_range_row_split:
  obtains b v :: nat where "i = 2 ^ b + v - 1" "v < 2 ^ b" "i + 1 = 2 ^ b + v"
proof
  show "i = 2 ^ ilog2 (i + 1) + (i + 1 - 2 ^ ilog2 (i + 1)) - 1"
    "i + 1 - 2 ^ ilog2 (i + 1) < 2 ^ ilog2 (i + 1)"
    "i + 1 = 2 ^ ilog2 (i + 1) + (i + 1 - 2 ^ ilog2 (i + 1))"
    using ilog2_bounds [of "i + 1"] unfolding power_Suc by linarith+
qed

lemma var_range_window:
  "all_satisfied (var_range_transition (var_range_row count i) (var_range_row count (Suc i) :: 'f::field var_range_cols))"
proof -
  obtain b v where i: "i = 2 ^ b + v - 1" "v < 2 ^ b" "i + 1 = 2 ^ b + v" by (rule var_range_row_split)
  have r: "var_range_row count i = (\<lparr>vr_value = of_nat v, vr_max_bits = of_nat b,
      vr_two_to_max_bits = of_nat (2 ^ b), vr_mult = of_nat (count ! i)\<rparr> :: 'f var_range_cols)"
    using var_range_row_key [OF i(2), of count] i(1) by simp
  show ?thesis
  proof (cases "Suc v < 2 ^ b")
    case True
    have "Suc i = 2 ^ b + Suc v - 1" using i(3) by simp
    then have "var_range_row count (Suc i) = (\<lparr>vr_value = of_nat (Suc v), vr_max_bits = of_nat b,
      vr_two_to_max_bits = of_nat (2 ^ b), vr_mult = of_nat (count ! Suc i)\<rparr> :: 'f var_range_cols)"
      using var_range_row_key [OF True, of count] by simp
    then show ?thesis unfolding r by (simp add: var_range_transition_def Let_def algebra_simps)
  next
    case False
    then have v: "2 ^ b = Suc v" using i(2) by simp
    have "Suc i = 2 ^ Suc b + 0 - 1" using i(3) v by simp
    then have r': "var_range_row count (Suc i) = (\<lparr>vr_value = of_nat 0, vr_max_bits = of_nat (Suc b),
      vr_two_to_max_bits = of_nat (2 ^ Suc b), vr_mult = of_nat (count ! Suc i)\<rparr> :: 'f var_range_cols)"
      using var_range_row_key [of 0 "Suc b" count, where ?'a = 'f] by simp
    have "of_nat (2 ^ b) = (of_nat (Suc v) :: 'f)" by (simp only: v)
    then have "2 ^ b = (1 + of_nat v :: 'f)" by simp
    then show ?thesis unfolding r r' by (simp add: var_range_transition_def Let_def algebra_simps)
  qed
qed

lemma var_range_trace_valid:
  assumes len: "length count = 2 ^ (range_max_bits bus + 1)"
    and last: "count ! (2 ^ (range_max_bits bus + 1) - 1) = 0"
    and char: "2 ^ (range_max_bits bus + 1) < CHAR('f::field)"
  shows "var_range_valid bus (fst (var_range_generate_trace count) :: 'f var_range_cols list)"
proof -
  let ?N = "2 ^ (range_max_bits bus + 1) :: nat"
  let ?row = "var_range_row count :: nat \<Rightarrow> 'f var_range_cols"
  have "list_all (satisfied_at ?N i) (fst (var_range_eval bus (?row i) (?row (Suc i mod ?N))))" if i: "i < ?N" for i
  proof -
    have "list_all (satisfied_at ?N i) (map Transition (var_range_transition (?row i) (?row (Suc i mod ?N))))"
    proof (cases "Suc i = ?N")
      case False
      then have "Suc i mod ?N = Suc i" using i by simp
      then show ?thesis using var_range_window [of count i, where 'f = 'f]
        by (simp add: list_all_iff all_satisfied_def)
    qed (simp add: list_all_iff)
    moreover have "?row 0 = \<lparr>vr_value = 0, vr_max_bits = 0, vr_two_to_max_bits = 1, vr_mult = of_nat (count ! 0)\<rparr>"
      using var_range_row_key [of 0 0 count, where ?'a = 'f] by simp
    moreover have "?row (?N - 1) = \<lparr>vr_value = 0, vr_max_bits = of_nat (range_max_bits bus + 1),
        vr_two_to_max_bits = of_nat ?N, vr_mult = 0\<rparr>"
      using var_range_row_key [of 0 "range_max_bits bus + 1" count, where ?'a = 'f] last by simp
    moreover have "i = ?N - 1" if "Suc i = ?N" using that by simp
    ultimately show ?thesis by (cases i) (auto simp: var_range_eval_def)
  qed
  then show ?thesis using len char
    by (simp add: var_range_valid_def var_range_generate_trace_def trace_satisfied_def)
qed

section \<open>Requests and the balance of the bus\<close>

fun var_range_lookup :: "var_range_bus \<Rightarrow> lookup_request \<Rightarrow> 'f::field interaction list" where
  "var_range_lookup bus (Add_count v b) = [Lookup_key (vr_index bus) [of_nat v, of_nat b] 1]"
| "var_range_lookup bus _ = []"

fun var_range_step :: "nat list \<Rightarrow> lookup_request \<Rightarrow> nat list option" where
  "var_range_step count (Add_count v b) = add_count count v b"
| "var_range_step count _ = Some count"

fun var_range_run :: "nat list \<Rightarrow> lookup_request list \<Rightarrow> nat list option" where
  "var_range_run count [] = Some count"
| "var_range_run count (q # qs) = Option.bind (var_range_step count q) (\<lambda>c. var_range_run c qs)"

fun var_range_request_ok :: "nat \<Rightarrow> lookup_request \<Rightarrow> bool" where
  "var_range_request_ok m (Add_count v b) \<longleftrightarrow> b \<le> m \<and> v < 2 ^ b"
| "var_range_request_ok m _ \<longleftrightarrow> True"

fun var_range_idx :: "lookup_request \<Rightarrow> nat list" where
  "var_range_idx (Add_count v b) = [2 ^ b + v - 1]"
| "var_range_idx _ = []"

lemma add_count_bump:
  assumes "v < 2 ^ b" "b \<le> m" "m \<le> 29"
  shows "add_count count v b = bump count (2 ^ b + v - 1)" "2 ^ b + v - 1 < 2 ^ (m + 1) - 1"
proof -
  have "(2::nat) ^ b \<le> 2 ^ 29" by (rule power_increasing) (use assms(2,3) in simp_all)
  then have "(2::nat) ^ b \<le> 536870912" by simp
  moreover have "(2::nat) ^ b \<le> 2 ^ m" using assms(2) by (intro power_increasing) simp_all
  ultimately have b: "(2::nat) ^ b \<le> 536870912" "0 < (2::nat) ^ b" "(2::nat) ^ b \<le> 2 ^ m"
    by simp_all
  have "shl_rel 64 1 b = 2 ^ b" by (rule shl_rel_one) (use assms(2,3) in simp)
  moreover have "wadd 64 (2 ^ b) v = 2 ^ b + v" using b assms(1) by (simp add: wadd_small)
  moreover have "wsub 64 (2 ^ b + v) 1 = 2 ^ b + v - 1"
    by (rule wsub_small) (use b assms(1) in simp_all)
  ultimately show "add_count count v b = bump count (2 ^ b + v - 1)"
    by (simp only: add_count_def Let_def)
  show "2 ^ b + v - 1 < 2 ^ (m + 1) - 1"
    using b(2,3) assms(1) unfolding power_add power_one_right by linarith
qed

lemma var_range_run_bumps:
  assumes "list_all (var_range_request_ok m) qs" "m \<le> 29"
    and "bumps count (concat (map var_range_idx qs)) = Some c"
  shows "var_range_run count qs = Some c"
  using assms
proof (induction qs arbitrary: count)
  case (Cons q qs)
  then show ?case by (cases q) (auto simp: add_count_bump bind_eq_Some_conv)
qed simp

lemma var_range_idx_bound:
  assumes "list_all (var_range_request_ok m) qs" "m \<le> 29"
  shows "list_all (\<lambda>i. i < 2 ^ (m + 1) - 1) (concat (map var_range_idx qs))"
  using assms
proof (induction qs)
  case (Cons q qs)
  then show ?case using add_count_bump(2) by (cases q) auto
qed simp

lemma length_var_range_idx: "length (var_range_idx q) \<le> 1"
  by (cases q) simp_all

definition var_range_key :: "nat \<Rightarrow> 'f::field list" where
  "var_range_key i = [vr_value (var_range_row [] i), vr_max_bits (var_range_row [] i)]"

lemma var_range_requests_sum:
  assumes "list_all (var_range_request_ok m) qs"
  shows "sum_list (map (contribution (vr_index bus) k) (concat (map (var_range_lookup bus) qs))) =
    (\<Sum>i\<leftarrow>concat (map var_range_idx qs). if k = var_range_key i then 1 else 0 :: 'f::field)"
  using assms
proof (induction qs)
  case (Cons q qs)
  then show ?case
    by (cases q) (auto simp: var_range_key_def var_range_row_key [simplified])
qed simp

lemma var_range_new_rows:
  assumes "range_max_bits bus \<le> 29"
  shows "var_range_new bus = replicate (2 ^ (range_max_bits bus + 1)) 0"
proof -
  have "(2::nat) ^ (range_max_bits bus + 1) \<le> 2 ^ 30" using assms by (intro power_increasing) simp_all
  then have le: "(2::nat) ^ (range_max_bits bus + 1) < 2 ^ 31" by simp
  have "shl_rel 32 1 (range_max_bits bus + 1) = 2 ^ (range_max_bits bus + 1)" by (rule shl_rel_one) (use assms in simp)
  then have "i32_val (shl_rel 32 1 (range_max_bits bus + 1)) mod 2 ^ 64 = int (2 ^ (range_max_bits bus + 1)) mod 2 ^ 64"
    using i32_val_small [OF le] by simp
  also have "\<dots> = int (2 ^ (range_max_bits bus + 1) mod 2 ^ 64)" by (simp only: zmod_int of_nat_power of_nat_numeral)
  also have "\<dots> = int (2 ^ (range_max_bits bus + 1))" using le by simp
  finally show ?thesis by (simp only: var_range_new_def Let_def nat_int)
qed

lemma var_range_balance:
  assumes ok: "list_all (var_range_request_ok (range_max_bits bus)) qs"
    and m: "range_max_bits bus \<le> 29" and len: "length qs < 2 ^ 32"
  defines "is \<equiv> concat (map var_range_idx qs)"
  defines "c \<equiv> map (count_list is) [0..<2 ^ (range_max_bits bus + 1)]"
  shows "var_range_run (var_range_new bus) qs = Some c"
    and "c ! (2 ^ (range_max_bits bus + 1) - 1) = 0"
    and "bus_balanced (vr_index bus) (concat (map (var_range_lookup bus) qs) @
      concat (map (\<lambda>r. snd (var_range_eval bus r r))
        (fst (var_range_generate_trace c) :: 'f::field var_range_cols list)))"
proof -
  let ?N = "2 ^ (range_max_bits bus + 1) :: nat"
  note bnd = var_range_idx_bound [OF ok m, folded is_def]
  have bnd': "list_all (\<lambda>i. i < ?N) is" using bnd by (auto simp: list_all_iff)
  have l: "length is < 2 ^ 32"
    unfolding is_def using length_concat_le [of var_range_idx qs, OF length_var_range_idx] len by linarith
  have "bumps (var_range_new bus) is = Some c"
    using bumps_counts [of "replicate ?N 0" "is"] bnd' l
    by (simp add: var_range_new_rows [OF m] c_def cong: map_cong)
  then show "var_range_run (var_range_new bus) qs = Some c"
    unfolding is_def by (rule var_range_run_bumps [OF ok m])
  have "?N - 1 \<notin> set is" using bnd by (auto simp: list_all_iff)
  then show "c ! (?N - 1) = 0" by (simp add: c_def count_list_0_iff)
  have lc: "length c = ?N" by (simp add: c_def)
  show "bus_balanced (vr_index bus) (concat (map (var_range_lookup bus) qs) @
      concat (map (\<lambda>r. snd (var_range_eval bus r r)) (fst (var_range_generate_trace c) :: 'f var_range_cols list)))"
    unfolding var_range_generate_trace_def fst_conv map_map comp_def lc
    by (rule counted_table_balance [OF bnd' _ var_range_requests_sum [OF ok, folded is_def]])
      (simp add: var_range_eval_def air_defs var_range_key_def var_range_row_def Let_def c_def)
qed

lemma lookups_ok_var_range:
  assumes "list_all (var_range_request_ok m) qs" "\<And>k. var_range_table m k \<Longrightarrow> T (vr_index bus) k"
  shows "lookups_ok T (concat (map (var_range_lookup bus) qs))"
  using assms(1)
proof (induction qs)
  case (Cons q qs)
  then show ?case using assms(2) by (cases q) (auto simp: var_range_table_def)
qed simp

section \<open>\<open>decompose\<close>\<close>

text \<open>The limbs and requests as numbers; \<open>decompose\<close> computes them when the limbs are below 32 bits.\<close>

fun limb_requests :: "nat \<Rightarrow> nat \<Rightarrow> nat \<Rightarrow> nat \<Rightarrow> lookup_request list" where
  "limb_requests m v bits 0 = []"
| "limb_requests m v bits (Suc n) = Add_count (v mod 2 ^ m) (min bits m) # limb_requests m (v div 2 ^ m) (bits - m) n"

lemma decompose_eq: "m < 32 \<Longrightarrow> decompose m v bits n = (fels (to_limbs m n v), limb_requests m v bits n)"
proof (induction n arbitrary: v bits)
  case (Suc n)
  have "v AND wsub 32 (shl_rel 32 1 m) 1 = v mod 2 ^ m" using mask_rel [OF Suc.prems] by (simp only: mask_eq_mod)
  then show ?case using Suc by (simp add: Let_def shr_rel_small del: One_nat_def)
qed simp

lemma limb_requests_ok:
  assumes "v < 2 ^ bits"
  shows "list_all (var_range_request_ok m) (limb_requests m v bits n)"
  using assms
proof (induction n arbitrary: v bits)
  case (Suc n)
  have "v mod 2 ^ m < 2 ^ min bits m" using Suc.prems
    by (cases "bits \<le> m") (auto simp: min_def intro: le_less_trans [OF mod_less_eq_dividend])
  moreover have "v div 2 ^ m < 2 ^ (bits - m)"
  proof (cases "bits \<le> m")
    case True
    then have "v < 2 ^ m" using Suc.prems power_increasing [of bits m "2::nat"] by linarith
    then show ?thesis by simp
  next
    case False
    then have "(2::nat) ^ bits = 2 ^ (bits - m) * 2 ^ m" by (simp add: power_add [symmetric])
    then show ?thesis using Suc.prems by (simp add: less_mult_imp_div_less)
  qed
  ultimately show ?case using Suc.IH [of "v div 2 ^ m" "bits - m"] by simp
qed simp

lemma compose_to_limbs:
  assumes "v < 2 ^ bits" "bits \<le> m * n"
  shows "compose (fels (to_limbs m n v)) m = (of_nat v :: 'f::field)"
proof -
  have "(2::nat) ^ bits \<le> 2 ^ (m * n)" using assms(2) by (intro power_increasing) simp_all
  then have "v < 2 ^ (m * n)" using assms(1) by linarith
  then show ?thesis by (simp add: compose_fels limbs_val_to_limbs)
qed

section \<open>Properties\<close>

text \<open>
  C12. When the range bus balances over all clients and a trace of the variable range checker that
  satisfies its AIR, every active lookup of a client is a value below \<open>2 ^ bits\<close> with
  \<open>bits \<le> range_max_bits\<close>: the monotonic sum admits no other enumeration.
\<close>

theorem var_range_lookups_sound:
  fixes client :: "'f::field interaction list"
  assumes "var_range_valid bus rows"
    and "bus_balanced (vr_index bus) (client @ concat (map (\<lambda>r. snd (var_range_eval bus r r)) rows))"
    and "list_all (bool_lookup (vr_index bus)) (client @ concat (map (\<lambda>r. snd (var_range_eval bus r r)) rows))"
    and "\<And>k c. Add_key (vr_index bus) k c \<notin> set client"
    and "length (client @ concat (map (\<lambda>r. snd (var_range_eval bus r r)) rows)) < CHAR('f)"
    and "Lookup_key (vr_index bus) k c \<in> set client" "c \<noteq> 0"
  shows "\<exists>b \<le> range_max_bits bus. \<exists>v < 2 ^ b. k = [of_nat v, of_nat b]"
  using var_range.lookup_served [OF assms] unfolding var_range_table_def .

theorem var_range_lookups_sound_witness:
  "\<exists>b \<le> 1. \<exists>v < 2 ^ b. [of_nat 1, of_nat 1] = [of_nat v, of_nat b :: bb]"
proof -
  let ?bus = "\<lparr>vr_index = 7, range_max_bits = 1\<rparr>"
  let ?c = "map (count_list (concat (map var_range_idx [Add_count 1 1]))) [0..<2 ^ (range_max_bits ?bus + 1)]"
  let ?rows = "fst (var_range_generate_trace ?c) :: bb var_range_cols list"
  have bal: "?c ! (2 ^ (range_max_bits ?bus + 1) - 1) = 0"
    "bus_balanced (vr_index ?bus) (concat (map (var_range_lookup ?bus) [Add_count 1 1]) @
      concat (map (\<lambda>r. snd (var_range_eval ?bus r r)) ?rows))"
    by (rule var_range_balance [of ?bus "[Add_count 1 1]"]; simp)+
  have valid: "var_range_valid ?bus ?rows"
    by (rule var_range_trace_valid) (use bal(1) in \<open>simp_all add: bb_CHAR\<close>)
  have bool: "list_all (bool_lookup 7) (concat (map (\<lambda>r. snd (var_range_eval ?bus r r)) ?rows))"
    by (simp add: list_all_iff var_range_eval_def air_defs)
  have len: "length (concat (map (\<lambda>r. snd (var_range_eval ?bus r r)) ?rows)) = 4"
    by (simp add: var_range_generate_trace_def var_range_eval_def length_concat comp_def)
  from var_range_lookups_sound [OF valid bal(2), of "[of_nat 1, of_nat 1]" 1] show ?thesis
    using bool len by (simp add: bb_CHAR)
qed

text \<open>
  C13. From a new chip of at most 29 bits (the constructor shifts an \<open>i32\<close>, which turns negative with 30
  bits; a field of 31 bits excludes that already), requests \<open>add_count value bits\<close> with \<open>value < 2 ^ bits\<close> and
  \<open>bits \<le> range_max_bits\<close> never fail, the trace then generated satisfies the AIR, and the bus
  balances between the lookups of the requests and that trace.
\<close>

theorem var_range_requests_balance:
  assumes "list_all (var_range_request_ok (range_max_bits bus)) qs"
    and "range_max_bits bus \<le> 29" "length qs < 2 ^ 32" "2 ^ (range_max_bits bus + 1) < CHAR('f::field)"
  shows "\<exists>c. var_range_run (var_range_new bus) qs = Some c \<and>
    var_range_valid bus (fst (var_range_generate_trace c) :: 'f var_range_cols list) \<and>
    bus_balanced (vr_index bus) (concat (map (var_range_lookup bus) qs) @
      concat (map (\<lambda>r. snd (var_range_eval bus r r))
        (fst (var_range_generate_trace c) :: 'f var_range_cols list)))"
proof (intro exI conjI)
  let ?c = "map (count_list (concat (map var_range_idx qs))) [0..<2 ^ (range_max_bits bus + 1)]"
  show "var_range_run (var_range_new bus) qs = Some ?c"
    "bus_balanced (vr_index bus) (concat (map (var_range_lookup bus) qs) @
      concat (map (\<lambda>r. snd (var_range_eval bus r r)) (fst (var_range_generate_trace ?c) :: 'f var_range_cols list)))"
    by (rule var_range_balance [OF assms(1-3)])+
  show "var_range_valid bus (fst (var_range_generate_trace ?c) :: 'f var_range_cols list)"
    by (rule var_range_trace_valid [OF _ var_range_balance(2) [OF assms(1-3)] assms(4)]) simp
qed

theorem var_range_requests_balance_witness:
  "\<exists>c. var_range_run (var_range_new \<lparr>vr_index = 3, range_max_bits = 8\<rparr>) [Add_count 200 8, Add_count 0 0] = Some c \<and>
    var_range_valid \<lparr>vr_index = 3, range_max_bits = 8\<rparr> (fst (var_range_generate_trace c) :: bb var_range_cols list) \<and>
    bus_balanced (vr_index \<lparr>vr_index = 3, range_max_bits = 8\<rparr>)
      (concat (map (var_range_lookup \<lparr>vr_index = 3, range_max_bits = 8\<rparr>) [Add_count 200 8, Add_count 0 0]) @
       concat (map (\<lambda>r. snd (var_range_eval \<lparr>vr_index = 3, range_max_bits = 8\<rparr> r r))
         (fst (var_range_generate_trace c) :: bb var_range_cols list)))"
  by (rule var_range_requests_balance) (simp_all add: bb_CHAR)

text \<open>
  C14. \<open>decompose\<close> round trip: for a \<open>u32\<close> value of at most \<open>bits\<close> bits and limbs of fewer than 32 bits
  (the mask and the shift are \<open>u32\<close> too and wrap around from there on), the limbs it writes compose to the value again whenever there
  are enough of them, and each of the requests it makes is in range.
\<close>

theorem decompose_compose:
  assumes "v < 2 ^ bits" "bits \<le> m * n" "v < 2 ^ 32" "m < 32"
  shows "compose (fst (decompose m v bits n)) m = (of_nat v :: 'f::field) \<and>
    length (fst (decompose m v bits n) :: 'f list) = n \<and>
    list_all (var_range_request_ok m) (snd (decompose m v bits n :: 'f list \<times> _))"
  using compose_to_limbs [OF assms(1,2)] limb_requests_ok [OF assms(1)] by (simp add: decompose_eq [OF assms(4)])

theorem decompose_compose_witness:
  "compose (fst (decompose 8 70000 20 3)) 8 = (of_nat 70000 :: bb)"
  using decompose_compose [of 70000 20 8 3, where 'f = bb] by (simp del: decompose.simps of_nat_numeral)

end
