(* ===== verification/Range_Tuple.thy ===== *)
theory Range_Tuple
  imports Var_Range
begin

unbundle bit_operations_syntax

text \<open>
  \<open>crates/circuits/primitives/src/range_tuple\<close>: the table of all tuples below given sizes,
  enumerated like an odometer. The theorems show that each column of an accepted trace stays below
  its size, that the generated trace satisfies the constraints, the carry coupling included, and
  that the counters balance the bus.
\<close>

section \<open>The model\<close>

record range_tuple_bus =
  rt_index :: nat
  rt_sizes :: "nat list"

text \<open>\<open>RangeTupleCheckerBus::new\<close> fails when the number of rows overflows \<open>u32\<close>.\<close>

definition range_tuple_bus_new :: "nat \<Rightarrow> nat list \<Rightarrow> range_tuple_bus option" where
  "range_tuple_bus_new index sizes =
     (case fold (\<lambda>s prod. Option.bind prod (\<lambda>p. if p * s < 2 ^ 32 then Some (p * s) else None))
             sizes (Some 1) of
        None \<Rightarrow> None
      | Some _ \<Rightarrow> Some \<lparr>rt_index = index, rt_sizes = sizes\<rparr>)"

definition range_tuple_push :: "range_tuple_bus \<Rightarrow> 'f::field list \<Rightarrow> bool \<Rightarrow> 'f \<Rightarrow> 'f interaction" where
  [air_defs]: "range_tuple_push bus tuple is_lookup count =
     (if is_lookup then Lookup_key (rt_index bus) tuple count else Add_key (rt_index bus) tuple count)"

definition range_tuple_send :: "range_tuple_bus \<Rightarrow> 'f::field list \<Rightarrow> 'f \<Rightarrow> 'f interaction" where
  [air_defs]: "range_tuple_send bus tuple count = range_tuple_push bus tuple True count"

definition range_tuple_receive :: "range_tuple_bus \<Rightarrow> 'f::field list \<Rightarrow> 'f \<Rightarrow> 'f interaction" where
  [air_defs]: "range_tuple_receive bus tuple count = range_tuple_push bus tuple False count"

record 'f range_tuple_cols =
  rt_tuple :: "'f list"
  rt_mult :: 'f

text \<open>A column that may change by more than one has to wrap from \<open>size - 1\<close> to zero.\<close>

definition wrap_assertions :: "nat \<Rightarrow> 'f::field \<Rightarrow> 'f \<Rightarrow> ('f assertion \<Rightarrow> 'f assertion) \<Rightarrow> 'f assertion list" where
  "wrap_assertions s l n guard =
     [guard (assert_eq l (of_nat (s - 1))), guard (assert_eq n 0)]"

text \<open>The coupling of two neighbouring columns, of sizes \<open>s\<close> and \<open>s'\<close>, (T6).\<close>

definition coupling :: "nat \<Rightarrow> nat \<Rightarrow> 'f::field \<Rightarrow> 'f \<Rightarrow> 'f" where
  "coupling s s' x y =
     (let a = - of_nat (s - 1); b = - of_nat (s' - 1)
      in y * (y - 1) * (- x * (a + 1) + a) + x * x * (y * (b + b - 1) - b * b))"

definition range_tuple_eval ::
  "range_tuple_bus \<Rightarrow> 'f::field range_tuple_cols \<Rightarrow> 'f range_tuple_cols \<Rightarrow>
   'f row_assertion list \<times> 'f interaction list" where
  "range_tuple_eval bus loc nxt =
     (let N = length (rt_sizes bus); sz = (\<lambda>i. rt_sizes bus ! i);
          l = (\<lambda>i. rt_tuple loc ! i); n = (\<lambda>i. rt_tuple nxt ! i)
      in (concat (map (\<lambda>i. [First_row (assert_zero (l i)),
                            Last_row (assert_eq (l i) (of_nat (sz i - 1)))]) [0..<N]) @
          [Transition (assert_bool (n 0 - l 0))] @
          concat (map (\<lambda>i. map Every_row (wrap_assertions (sz i) (l i) (n i)
              (\<lambda>a. When_ne (n i - l i) 0 (When_ne (n i - l i) 1 a)))) [1..<N - 1]) @
          map Every_row (wrap_assertions (sz (N - 1)) (l (N - 1)) (n (N - 1))
              (\<lambda>a. When_ne (n (N - 1) - l (N - 1)) 1 a)) @
          map (\<lambda>i. Every_row (assert_zero (coupling (sz i) (sz (i + 1)) (n i - l i) (n (i + 1) - l (i + 1)))))
            [0..<N - 1],
          [range_tuple_receive bus (rt_tuple loc) (rt_mult loc)]))"

text \<open>\<open>RangeTupleCheckerChip::new\<close> with its three assertions; the state is the counters.\<close>

definition range_tuple_new :: "range_tuple_bus \<Rightarrow> nat list option" where
  "range_tuple_new bus =
     (let range_max = prod_list (rt_sizes bus)
      in if 1 < length (rt_sizes bus) \<and> list_all (\<lambda>s. 1 < s) (rt_sizes bus) \<and>
            0 < range_max \<and> range_max AND (range_max - 1) = 0
         then Some (replicate range_max 0) else None)"

definition range_tuple_index :: "nat list \<Rightarrow> nat list \<Rightarrow> nat" where
  "range_tuple_index sizes ids = fold (\<lambda>(id, sz) acc. wadd 32 (wmul 32 acc sz) id) (zip ids sizes) 0"

definition add_tuple :: "range_tuple_bus \<Rightarrow> nat list \<Rightarrow> nat list \<Rightarrow> nat list option" where
  "add_tuple bus count ids = bump count (range_tuple_index (rt_sizes bus) ids)"

definition range_tuple_clear :: "nat list \<Rightarrow> nat list" where
  "range_tuple_clear count = map (\<lambda>_. 0) count"

text \<open>\<open>for j in (0..N).rev()\<close>: the digits of the row index, least significant first.\<close>

fun rt_digits :: "nat list \<Rightarrow> nat \<Rightarrow> nat list" where
  "rt_digits [] tmp_idx = []"
| "rt_digits (s # ss) tmp_idx = tmp_idx mod s # rt_digits ss (tmp_idx div s)"

definition range_tuple_row :: "range_tuple_bus \<Rightarrow> nat list \<Rightarrow> nat \<Rightarrow> 'f::field range_tuple_cols" where
  "range_tuple_row bus count i =
     \<lparr>rt_tuple = fels (rev (rt_digits (rev (rt_sizes bus)) i)), rt_mult = of_nat (count ! i)\<rparr>"

definition range_tuple_generate_trace ::
  "range_tuple_bus \<Rightarrow> nat list \<Rightarrow> 'f::field range_tuple_cols list \<times> nat list" where
  "range_tuple_generate_trace bus count =
     (map (range_tuple_row bus count) [0..<length count], range_tuple_clear count)"

section \<open>Soundness of the AIR\<close>

definition range_tuple_table :: "nat list \<Rightarrow> 'f::field list \<Rightarrow> bool" where
  "range_tuple_table sizes k \<longleftrightarrow> (\<exists>vs. k = fels vs \<and> list_all2 (<) vs sizes)"

definition range_tuple_valid :: "range_tuple_bus \<Rightarrow> 'f::field range_tuple_cols list \<Rightarrow> bool" where
  "range_tuple_valid bus rows \<longleftrightarrow> 1 < length (rt_sizes bus) \<and>
     list_all (\<lambda>s. 1 < s \<and> s < CHAR('f)) (rt_sizes bus) \<and> length rows < CHAR('f) \<and>
     list_all (\<lambda>r. length (rt_tuple r) = length (rt_sizes bus)) rows \<and>
     trace_satisfied (\<lambda>l n. fst (range_tuple_eval bus l n)) rows"

text \<open>A column that may stay, step or wrap, and that ends at \<open>s - 1\<close>, stays below \<open>s\<close>.\<close>

lemma column_bounded:
  fixes x :: "nat \<Rightarrow> 'f::field"
  assumes first: "x 0 = 0" and last: "x (h - 1) = of_nat (s - 1)"
    and step: "\<And>i. Suc i < h \<Longrightarrow> x (Suc i) = x i \<or> x (Suc i) = x i + 1 \<or> (x i = of_nat (s - 1) \<and> x (Suc i) = 0)"
    and s: "0 < s" "s < CHAR('f)" and h: "h < CHAR('f)" and i: "i < h"
  shows "\<exists>v < s. x i = of_nat v"
proof -
  have all: "\<exists>v\<le>i. x i = of_nat v" if "i < h" for i
    using that
  proof (induction i)
    case 0
    then show ?case using first by simp
  next
    case (Suc i)
    then obtain v where v: "v \<le> i" "x i = of_nat v" by auto
    then consider "x (Suc i) = of_nat v" | "x (Suc i) = of_nat (Suc v)" | "x (Suc i) = of_nat 0"
      using step [OF Suc.prems] by (auto simp: add.commute)
    then show ?case using v(1) by cases (blast intro: le_SucI Suc_le_mono [THEN iffD2] le0)+
  qed
  have away: "\<exists>v\<le>i + k. s \<le> v \<and> x (i + k) = of_nat v" if "s \<le> v" "v \<le> i" "x i = of_nat v" "i + k < h" for k v
    using that(4)
  proof (induction k)
    case 0
    then show ?case using that by auto
  next
    case (Suc k)
    then obtain w where w: "w \<le> i + k" "s \<le> w" "x (i + k) = of_nat w" by auto
    have "w < CHAR('f)" "s - 1 < CHAR('f)" "w \<noteq> s - 1" using w s h Suc.prems by linarith+
    then have "x (i + k) \<noteq> of_nat (s - 1)" unfolding w(3) by (simp only: of_nat_eq_iff_char simp_thms)
    then consider "x (i + Suc k) = of_nat w" | "x (i + Suc k) = of_nat (Suc w)"
      using step [of "i + k"] Suc.prems w(3) by (auto simp: add.commute)
    then show ?case using w by cases (auto intro: exI [of _ w] exI [of _ "Suc w"])
  qed
  obtain v where v: "v \<le> i" "x i = of_nat v" using all [OF i] by auto
  have "v < s"
  proof (rule ccontr)
    assume "\<not> v < s"
    then obtain w where "w \<le> h - 1" "s \<le> w" "x (h - 1) = of_nat w"
      using away [of v "h - 1 - i"] v i by auto
    then have "of_nat w = (of_nat (s - 1) :: 'f)" using last by simp
    moreover have "w < CHAR('f)" "s - 1 < CHAR('f)" using \<open>w \<le> h - 1\<close> h s by linarith+
    ultimately have "w = s - 1" by (simp only: of_nat_eq_iff_char)
    then show False using \<open>s \<le> w\<close> s(1) by simp
  qed
  then show ?thesis using v(2) by blast
qed

lemma range_tuple_satisfied:
  "list_all (satisfied_at h i) (fst (range_tuple_eval bus loc nxt)) \<longleftrightarrow>
   (let N = length (rt_sizes bus); s = (\<lambda>i. rt_sizes bus ! i); l = (\<lambda>i. rt_tuple loc ! i); n = (\<lambda>i. rt_tuple nxt ! i)
    in (\<forall>j<N. (i = 0 \<longrightarrow> l j = 0) \<and> (Suc i = h \<longrightarrow> l j = of_nat (s j - 1))) \<and>
       (Suc i \<noteq> h \<longrightarrow> n 0 - l 0 = 0 \<or> n 0 - l 0 = 1) \<and>
       (\<forall>j. 1 \<le> j \<longrightarrow> j < N - 1 \<longrightarrow> n j - l j = 0 \<or> n j - l j = 1 \<or> (l j = of_nat (s j - 1) \<and> n j = 0)) \<and>
       (n (N - 1) - l (N - 1) = 1 \<or> (l (N - 1) = of_nat (s (N - 1) - 1) \<and> n (N - 1) = 0)) \<and>
       (\<forall>j<N - 1. coupling (s j) (s (j + 1)) (n j - l j) (n (j + 1) - l (j + 1)) = 0))"
  unfolding range_tuple_eval_def Let_def fst_conv list_all_append list_all_concat_map list.pred_map
  by (auto simp: wrap_assertions_def list_all_iff)

lemma range_tuple_row_sound:
  fixes rows :: "'f::field range_tuple_cols list"
  assumes valid: "range_tuple_valid bus rows" and r: "r \<in> set rows"
    and mem: "Add_key (rt_index bus) k c \<in> set (snd (range_tuple_eval bus r r))"
  shows "range_tuple_table (rt_sizes bus) k"
proof -
  let ?N = "length (rt_sizes bus)" and ?h = "length rows"
  have N: "1 < ?N" and sz: "\<And>i. i < ?N \<Longrightarrow> 1 < rt_sizes bus ! i \<and> rt_sizes bus ! i < CHAR('f)"
    and h: "?h < CHAR('f)" and tr: "trace_satisfied (\<lambda>l n. fst (range_tuple_eval bus l n)) rows"
    using valid by (simp_all add: range_tuple_valid_def list_all_length)
  obtain i where i: "i < ?h" "rows ! i = r" using r by (auto simp: in_set_conv_nth)
  have len: "length (rt_tuple r) = ?N" using valid r by (auto simp: range_tuple_valid_def list_all_iff)
  have k: "k = rt_tuple r" using mem by (simp add: range_tuple_eval_def Let_def air_defs)
  have col: "\<exists>v<rt_sizes bus ! j. rt_tuple r ! j = of_nat v" if j: "j < ?N" for j
  proof -
    let ?x = "\<lambda>i. rt_tuple (rows ! i) ! j"
    note row = trace_satisfied_row [OF tr, unfolded range_tuple_satisfied Let_def]
    have "?x 0 = 0" using row [of 0] i(1) j by (cases rows) auto
    moreover have "?x (?h - 1) = of_nat (rt_sizes bus ! j - 1)" using row [of "?h - 1"] i(1) j by (cases rows) auto
    moreover have "?x (Suc i) = ?x i \<or> ?x (Suc i) = ?x i + 1 \<or> (?x i = of_nat (rt_sizes bus ! j - 1) \<and> ?x (Suc i) = 0)"
      if w: "Suc i < ?h" for i
    proof -
      note all = trace_satisfied_window [OF tr w, unfolded range_tuple_satisfied Let_def]
      consider "j = 0" | "1 \<le> j" "j < ?N - 1" | "j = ?N - 1" using j by linarith
      then have "?x (Suc i) - ?x i = 0 \<or> ?x (Suc i) - ?x i = 1 \<or> (?x i = of_nat (rt_sizes bus ! j - 1) \<and> ?x (Suc i) = 0)"
        using all w by cases (blast | simp)+
      then show ?thesis by (auto simp: algebra_simps)
    qed
    ultimately have "\<exists>v<rt_sizes bus ! j. ?x i = of_nat v"
      by (rule column_bounded) (use sz [OF j] h i in auto)
    then show ?thesis using i(2) by simp
  qed
  then obtain f where f: "\<And>j. j < ?N \<Longrightarrow> f j < rt_sizes bus ! j \<and> rt_tuple r ! j = of_nat (f j)" by metis
  have "k = fels (map f [0..<?N])" unfolding k by (rule nth_equalityI) (use f len in auto)
  moreover have "list_all2 (<) (map f [0..<?N]) (rt_sizes bus)" using f by (simp add: list_all2_conv_all_nth)
  ultimately show ?thesis unfolding range_tuple_table_def by blast
qed

interpretation range_tuple: lookup_bus "range_tuple_table (rt_sizes bus)"
  "\<lambda>r. snd (range_tuple_eval bus r r)" "range_tuple_valid bus" "rt_index bus"
  for bus
  by unfold_locales (rule range_tuple_row_sound)

section \<open>The generated trace\<close>

text \<open>
  Two digit lists (least significant first) of which the second is the successor of the first: the
  digits below \<open>k\<close> wrap, digit \<open>k\<close> increments, the others stay. With \<open>k\<close> the number of digits all
  of them wrap.
\<close>

definition rt_next :: "nat list \<Rightarrow> nat list \<Rightarrow> nat list \<Rightarrow> nat \<Rightarrow> bool" where
  "rt_next ss ds es k \<longleftrightarrow> k \<le> length ss \<and> (\<forall>j<k. ds ! j = ss ! j - 1 \<and> es ! j = 0) \<and>
     (k < length ss \<longrightarrow> es ! k = ds ! k + 1) \<and> (\<forall>j. k < j \<longrightarrow> j < length ss \<longrightarrow> es ! j = ds ! j)"

lemma length_rt_digits [simp]: "length (rt_digits ss i) = length ss"
  by (induction ss i rule: rt_digits.induct) simp_all

lemma rt_digits_bound: "list_all (\<lambda>s. 1 < s) ss \<Longrightarrow> list_all2 (<) (rt_digits ss i) ss"
  by (induction ss i rule: rt_digits.induct) auto

lemma rt_digits_0: "rt_digits ss 0 = replicate (length ss) 0"
  by (induction ss) simp_all

lemma prod_list_pos: "list_all (\<lambda>s. 1 < s) ss \<Longrightarrow> 0 < prod_list ss" for ss :: "nat list"
  by (induction ss) auto

lemma rt_digits_max:
  "list_all (\<lambda>s. 1 < s) ss \<Longrightarrow> rt_digits ss (prod_list ss - 1) = map (\<lambda>s. s - 1) ss"
proof (induction ss)
  case (Cons s ss)
  then have "0 < prod_list ss" by (intro prod_list_pos) simp
  then obtain p where p: "prod_list ss = Suc p" by (cases "prod_list ss") auto
  have e: "s * prod_list ss - 1 = (s - 1) + s * p" using Cons.prems by (simp add: p algebra_simps)
  have s1: "s - 1 < s" using Cons.prems by simp
  have "(s - 1 + s * p) mod s = s - 1" "(s - 1 + s * p) div s = p"
    unfolding mod_mult_self2 div_mult_self2 [OF less_imp_neq [OF le_less_trans [OF le0 s1], symmetric]]
    by (simp_all only: mod_less [OF s1] div_less [OF s1] add_0_right)
  moreover have "rt_digits ss p = map (\<lambda>s. s - 1) ss" using Cons p by simp
  ultimately show ?case by (simp only: rt_digits.simps prod_list.Cons e list.map)
qed simp

lemma rt_next_Suc:
  assumes "list_all (\<lambda>s. 1 < s) ss"
  shows "\<exists>k. rt_next ss (rt_digits ss i) (rt_digits ss (Suc i)) k \<and> (Suc i < prod_list ss \<longrightarrow> k < length ss)"
  using assms
proof (induction ss arbitrary: i)
  case Nil
  then show ?case by (simp add: rt_next_def)
next
  case (Cons s ss)
  show ?case
  proof (cases "Suc (i mod s) = s")
    case False
    then have "Suc i mod s = Suc (i mod s)" "Suc i div s = i div s"
      using Cons.prems by (simp_all add: mod_Suc div_Suc)
    then show ?thesis by (intro exI [of _ 0]) (auto simp: rt_next_def nth_Cons split: nat.splits)
  next
    case True
    then have m: "Suc i mod s = 0" "Suc i div s = Suc (i div s)" "i mod s = s - 1"
      by (auto simp: mod_Suc div_Suc)
    obtain k where k: "rt_next ss (rt_digits ss (i div s)) (rt_digits ss (Suc (i div s))) k"
        "Suc (i div s) < prod_list ss \<longrightarrow> k < length ss"
      using Cons by fastforce
    have "Suc (i div s) < prod_list ss" if "Suc i < s * prod_list ss"
      using that m(2) by (metis less_mult_imp_div_less mult.commute)
    then show ?thesis using k m
      by (intro exI [of _ "Suc k"]) (auto simp: rt_next_def nth_Cons split: nat.splits)
  qed
qed

lemma rt_next_wrap:
  "list_all (\<lambda>s. 1 < s) ss \<Longrightarrow> rt_next ss (rt_digits ss (prod_list ss - 1)) (rt_digits ss 0) (length ss)"
  by (simp add: rt_digits_max [simplified] rt_digits_0 rt_next_def)

lemma coupling_zero:
  "y = 0 \<or> y = 1 \<Longrightarrow> coupling s s' 0 y = (0 :: 'f::field)"
  "coupling s s' 1 (- of_nat (s' - 1)) = (0 :: 'f)"
  "coupling s s' (- of_nat (s - 1)) (- of_nat (s' - 1)) = (0 :: 'f)"
  by (auto simp: coupling_def Let_def algebra_simps)

lemma range_tuple_window:
  fixes bus :: range_tuple_bus
  defines "ss \<equiv> rev (rt_sizes bus)"
  assumes sz: "list_all (\<lambda>s. 1 < s) (rt_sizes bus)" and N: "1 < length (rt_sizes bus)"
    and nx: "rt_next ss (rt_digits ss i) (rt_digits ss i') k" and k: "Suc i \<noteq> h \<longrightarrow> k < length ss"
    and h: "h = prod_list (rt_sizes bus)" and i0: "i = 0 \<or> Suc i = h \<or> (0 < i \<and> Suc i < h)"
  shows "list_all (satisfied_at h i)
    (fst (range_tuple_eval bus (range_tuple_row bus c i) (range_tuple_row bus c i' :: 'f::field range_tuple_cols)))"
proof -
  let ?N = "length (rt_sizes bus)"
  let ?d = "rt_digits ss i" and ?e = "rt_digits ss i'"
  let ?l = "\<lambda>j. rt_tuple (range_tuple_row bus c i :: 'f range_tuple_cols) ! j"
  let ?n = "\<lambda>j. rt_tuple (range_tuple_row bus c i' :: 'f range_tuple_cols) ! j"
  have len: "length ss = ?N" by (simp add: ss_def)
  have col: "?l j = of_nat (?d ! (?N - 1 - j))" "?n j = of_nat (?e ! (?N - 1 - j))"
    "ss ! (?N - 1 - j) = rt_sizes bus ! j" if "j < ?N" for j
    using that by (simp_all add: range_tuple_row_def rev_nth ss_def)
  have ss: "list_all (\<lambda>s. 1 < s) ss" using sz by (simp add: ss_def)
  have s1: "1 < rt_sizes bus ! j" if "j < ?N" for j using sz that by (simp add: list_all_length)
  have diff: "?n j - ?l j = 0" if "j < ?N" "k < ?N - 1 - j" for j
    using nx that col len by (simp add: rt_next_def)
  have diff1: "?n j - ?l j = 1" if "j < ?N" "k = ?N - 1 - j" for j
    using nx that col len by (simp add: rt_next_def)
  have wrap: "?l j = of_nat (rt_sizes bus ! j - 1) \<and> ?n j = 0" if "j < ?N" "?N - 1 - j < k" for j
    using nx that col [OF that(1)] by (simp add: rt_next_def)
  have first: "?l j = 0" if "i = 0" "j < ?N" for j
    using that col(1) [OF that(2)] by (simp add: rt_digits_0 len)
  have last: "?l j = of_nat (rt_sizes bus ! j - 1)" if "Suc i = h" "j < ?N" for j
  proof -
    have "i = prod_list ss - 1" using that(1) h by (simp add: ss_def)
    then show ?thesis using that(2) col [OF that(2)] rt_digits_max [OF ss] len by simp
  qed
  have couple: "coupling (rt_sizes bus ! j) (rt_sizes bus ! (j + 1)) (?n j - ?l j) (?n (j + 1) - ?l (j + 1)) = 0"
    if j: "j < ?N - 1" for j
  proof -
    have j': "j < ?N" "j + 1 < ?N" using j by simp_all
    consider "k < ?N - 1 - j" | "k = ?N - 1 - j" | "?N - 1 - j < k" by linarith
    then show ?thesis
    proof cases
      case 1
      then have "?n (j + 1) - ?l (j + 1) = 0 \<or> ?n (j + 1) - ?l (j + 1) = 1"
        using diff [OF j'(2)] diff1 [OF j'(2)] j by fastforce
      then show ?thesis unfolding diff [OF j'(1) 1] by (rule coupling_zero)
    next
      case 2
      then have "?n (j + 1) - ?l (j + 1) = - of_nat (rt_sizes bus ! (j + 1) - 1)"
        using wrap [OF j'(2)] j by simp
      then show ?thesis unfolding diff1 [OF j'(1) 2] by (simp only: coupling_zero(2))
    next
      case 3
      then have "?n (j + 1) - ?l (j + 1) = - of_nat (rt_sizes bus ! (j + 1) - 1)"
        "?n j - ?l j = - of_nat (rt_sizes bus ! j - 1)"
        using wrap [OF j'(2)] wrap [OF j'(1)] j by simp_all
      then show ?thesis by (simp only: coupling_zero(3))
    qed
  qed
  have any: "?n j - ?l j = 0 \<or> ?n j - ?l j = 1 \<or> (?l j = of_nat (rt_sizes bus ! j - 1) \<and> ?n j = 0)" if "j < ?N" for j
    using diff [OF that] diff1 [OF that] wrap [OF that] by (metis linorder_neqE_nat)
  have top: "?n 0 - ?l 0 = 0 \<or> ?n 0 - ?l 0 = 1" if "Suc i \<noteq> h"
    using diff [of 0] diff1 [of 0] k that N len by fastforce
  have low: "?n (?N - 1) - ?l (?N - 1) = 1 \<or> (?l (?N - 1) = of_nat (rt_sizes bus ! (?N - 1) - 1) \<and> ?n (?N - 1) = 0)"
    using diff1 [of "?N - 1"] wrap [of "?N - 1"] N by fastforce
  show ?thesis unfolding range_tuple_satisfied Let_def
    using first last couple any top low by (intro conjI allI impI) (blast | simp)+
qed

lemma range_tuple_trace_valid:
  assumes new: "range_tuple_new bus = Some c0" and len: "length count = prod_list (rt_sizes bus)"
    and sz: "list_all (\<lambda>s. s < CHAR('f::field)) (rt_sizes bus)" and char: "prod_list (rt_sizes bus) < CHAR('f)"
  shows "range_tuple_valid bus (fst (range_tuple_generate_trace bus count) :: 'f range_tuple_cols list)"
proof -
  let ?h = "prod_list (rt_sizes bus)" and ?ss = "rev (rt_sizes bus)"
  let ?row = "range_tuple_row bus count :: nat \<Rightarrow> 'f range_tuple_cols"
  have N: "1 < length (rt_sizes bus)" and s1: "list_all (\<lambda>s. 1 < s) (rt_sizes bus)"
    using new by (simp_all add: range_tuple_new_def Let_def split: if_splits)
  have ss: "list_all (\<lambda>s. 1 < s) ?ss" and ph: "prod_list ?ss = ?h" using s1 by simp_all
  have "list_all (satisfied_at ?h i) (fst (range_tuple_eval bus (?row i) (?row (Suc i mod ?h))))" if i: "i < ?h" for i
  proof (cases "Suc i = ?h")
    case True
    then have e: "i = prod_list ?ss - 1" "Suc i mod ?h = 0" using ph by simp_all
    have "rt_next ?ss (rt_digits ?ss i) (rt_digits ?ss 0) (length ?ss)"
      unfolding e(1) by (rule rt_next_wrap [OF ss])
    then show ?thesis unfolding e(2)
      by (rule range_tuple_window [OF s1 N]) (use True in auto)
  next
    case False
    then have lt: "Suc i < prod_list ?ss" "Suc i mod ?h = Suc i" using i ph by simp_all
    obtain k where "rt_next ?ss (rt_digits ?ss i) (rt_digits ?ss (Suc i)) k" "k < length ?ss"
      using rt_next_Suc [OF ss, of i] lt(1) by blast
    then show ?thesis unfolding lt(2)
      by (intro range_tuple_window [OF s1 N]) (use lt(1) in auto)
  qed
  moreover have "list_all (\<lambda>s. 1 < s \<and> s < CHAR('f)) (rt_sizes bus)"
    using s1 sz by (simp add: list_all_iff)
  ultimately show ?thesis using N len char
    by (simp add: range_tuple_valid_def range_tuple_generate_trace_def trace_satisfied_def
        list_all_iff [where P = "\<lambda>r. length (rt_tuple r) = _"] range_tuple_row_def)
qed

section \<open>Requests and the balance of the bus\<close>

text \<open>The index of a tuple in range is its value in the mixed radix of the sizes.\<close>

lemma range_tuple_index_digits:
  assumes "list_all2 (<) ids sizes" "prod_list sizes < 2 ^ 32"
  shows "range_tuple_index sizes ids < prod_list sizes \<and>
    rt_digits (rev sizes) (range_tuple_index sizes ids) = rev ids"
  using assms
proof (induction sizes arbitrary: ids rule: rev_induct)
  case Nil
  then show ?case by (simp add: range_tuple_index_def)
next
  case (snoc s ss)
  from snoc.prems(1) obtain i js where ids: "ids = js @ [i]" "i < s" "list_all2 (<) js ss"
    by (auto simp: list_all2_append2 list_all2_Cons2)
  let ?v = "range_tuple_index ss js"
  have "prod_list ss * s < 2 ^ 32" using snoc.prems(2) by simp
  then have "prod_list ss < 2 ^ 32" using ids(2) by (cases s) simp_all
  then have IH: "?v < prod_list ss" "rt_digits (rev ss) ?v = rev js"
    using snoc.IH [OF ids(3)] by simp_all
  have "?v * s + i < (?v + 1) * s" using ids(2) by simp
  also have "\<dots> \<le> prod_list ss * s" using IH(1) by (intro mult_right_mono) simp_all
  finally have lt: "?v * s + i < prod_list ss * s" .
  moreover have "prod_list ss * s < 2 ^ 32" using snoc.prems(2) by simp
  ultimately have "wmul 32 ?v s = ?v * s" "wadd 32 (?v * s) i = ?v * s + i"
    by (intro wmul_small wadd_small; linarith)+
  then have e: "range_tuple_index (ss @ [s]) ids = ?v * s + i"
    using ids(3) by (simp add: range_tuple_index_def ids(1) list_all2_lengthD)
  show ?case unfolding e using lt IH(2) ids(1,2) by simp
qed

fun range_tuple_lookup :: "range_tuple_bus \<Rightarrow> lookup_request \<Rightarrow> 'f::field interaction list" where
  "range_tuple_lookup bus (Add_tuple ids) = [Lookup_key (rt_index bus) (fels ids) 1]"
| "range_tuple_lookup bus _ = []"

fun range_tuple_step :: "range_tuple_bus \<Rightarrow> nat list \<Rightarrow> lookup_request \<Rightarrow> nat list option" where
  "range_tuple_step bus count (Add_tuple ids) = add_tuple bus count ids"
| "range_tuple_step bus count _ = Some count"

fun range_tuple_run :: "range_tuple_bus \<Rightarrow> nat list \<Rightarrow> lookup_request list \<Rightarrow> nat list option" where
  "range_tuple_run bus count [] = Some count"
| "range_tuple_run bus count (q # qs) =
     Option.bind (range_tuple_step bus count q) (\<lambda>c. range_tuple_run bus c qs)"

fun range_tuple_request_ok :: "nat list \<Rightarrow> lookup_request \<Rightarrow> bool" where
  "range_tuple_request_ok sizes (Add_tuple ids) \<longleftrightarrow> list_all2 (<) ids sizes"
| "range_tuple_request_ok sizes _ \<longleftrightarrow> True"

fun range_tuple_idx :: "nat list \<Rightarrow> lookup_request \<Rightarrow> nat list" where
  "range_tuple_idx sizes (Add_tuple ids) = [range_tuple_index sizes ids]"
| "range_tuple_idx sizes _ = []"

lemma range_tuple_run_bumps:
  "range_tuple_run bus count qs = bumps count (concat (map (range_tuple_idx (rt_sizes bus)) qs))"
proof (induction qs arbitrary: count)
  case (Cons q qs)
  then show ?case by (cases q) (auto simp: add_tuple_def)
qed simp

lemma range_tuple_idx_bound:
  assumes "list_all (range_tuple_request_ok sizes) qs" "prod_list sizes < 2 ^ 32"
  shows "list_all (\<lambda>i. i < prod_list sizes) (concat (map (range_tuple_idx sizes) qs))"
  using assms
proof (induction qs)
  case (Cons q qs)
  then show ?case using range_tuple_index_digits by (cases q) auto
qed simp

lemma length_range_tuple_idx: "length (range_tuple_idx sizes q) \<le> 1"
  by (cases q) simp_all

definition range_tuple_key :: "nat list \<Rightarrow> nat \<Rightarrow> 'f::field list" where
  "range_tuple_key sizes i = fels (rev (rt_digits (rev sizes) i))"

lemma range_tuple_requests_sum:
  assumes "list_all (range_tuple_request_ok (rt_sizes bus)) qs" "prod_list (rt_sizes bus) < 2 ^ 32"
  shows "sum_list (map (contribution (rt_index bus) k) (concat (map (range_tuple_lookup bus) qs))) =
    (\<Sum>i\<leftarrow>concat (map (range_tuple_idx (rt_sizes bus)) qs).
       if k = range_tuple_key (rt_sizes bus) i then 1 else 0 :: 'f::field)"
  using assms
proof (induction qs)
  case (Cons q qs)
  then show ?case
    by (cases q) (auto simp: range_tuple_key_def range_tuple_index_digits)
qed simp

lemma range_tuple_balance:
  assumes new: "range_tuple_new bus = Some c0"
    and ok: "list_all (range_tuple_request_ok (rt_sizes bus)) qs"
    and p: "prod_list (rt_sizes bus) < 2 ^ 32" and len: "length qs < 2 ^ 32"
  defines "is \<equiv> concat (map (range_tuple_idx (rt_sizes bus)) qs)"
  defines "c \<equiv> map (count_list is) [0..<prod_list (rt_sizes bus)]"
  shows "range_tuple_run bus c0 qs = Some c"
    and "bus_balanced (rt_index bus) (concat (map (range_tuple_lookup bus) qs) @
      concat (map (\<lambda>r. snd (range_tuple_eval bus r r))
        (fst (range_tuple_generate_trace bus c) :: 'f::field range_tuple_cols list)))"
proof -
  let ?N = "prod_list (rt_sizes bus)"
  have c0: "c0 = replicate ?N 0" using new by (simp add: range_tuple_new_def Let_def split: if_splits)
  note bnd = range_tuple_idx_bound [OF ok p, folded is_def]
  have l: "length is < 2 ^ 32"
    unfolding is_def using length_concat_le [of "range_tuple_idx (rt_sizes bus)" qs, OF length_range_tuple_idx] len by linarith
  show "range_tuple_run bus c0 qs = Some c"
    using bumps_counts [of "replicate ?N 0" "is"] bnd l
    by (simp add: range_tuple_run_bumps is_def [symmetric] c0 c_def cong: map_cong)
  have lc: "length c = ?N" by (simp add: c_def)
  show "bus_balanced (rt_index bus) (concat (map (range_tuple_lookup bus) qs) @
      concat (map (\<lambda>r. snd (range_tuple_eval bus r r))
        (fst (range_tuple_generate_trace bus c) :: 'f range_tuple_cols list)))"
    unfolding range_tuple_generate_trace_def fst_conv map_map comp_def lc
    by (rule counted_table_balance [OF bnd _ range_tuple_requests_sum [OF ok p, folded is_def]])
      (simp add: range_tuple_eval_def Let_def air_defs range_tuple_key_def range_tuple_row_def c_def)
qed

lemma lookups_ok_range_tuple:
  assumes "list_all (range_tuple_request_ok sizes) qs" "\<And>k. range_tuple_table sizes k \<Longrightarrow> T (rt_index bus) k"
  shows "lookups_ok T (concat (map (range_tuple_lookup bus) qs))"
  using assms(1)
proof (induction qs)
  case (Cons q qs)
  then show ?case using assms(2) by (cases q) (auto simp: range_tuple_table_def)
qed simp

lemma checked_product:
  fixes sizes :: "nat list"
  shows "fold (\<lambda>s prod. Option.bind prod (\<lambda>p. if p * s < 2 ^ 32 then Some (p * s) else None)) sizes a = Some p \<Longrightarrow>
   \<exists>a'. a = Some a' \<and> p = a' * prod_list sizes \<and> (sizes \<noteq> [] \<longrightarrow> p < 2 ^ 32)"
proof (induction sizes arbitrary: a)
  case (Cons s sizes)
  from Cons.IH [of "Option.bind a (\<lambda>p. if p * s < 2 ^ 32 then Some (p * s) else None)"] Cons.prems
  show ?case by (cases sizes) (auto simp: bind_eq_Some_conv mult.assoc split: if_splits)
qed simp

lemma range_tuple_bus_newD:
  assumes "range_tuple_bus_new index sizes = Some bus"
  shows "rt_sizes bus = sizes" "prod_list sizes < 2 ^ 32"
proof -
  obtain p where "fold (\<lambda>s prod. Option.bind prod (\<lambda>p. if p * s < 2 ^ 32 then Some (p * s) else None)) sizes (Some 1) = Some p"
    using assms unfolding range_tuple_bus_new_def by (auto split: option.splits)
  from checked_product [OF this] show "prod_list sizes < 2 ^ 32" by (cases "sizes = []") auto
  show "rt_sizes bus = sizes" using assms by (auto simp: range_tuple_bus_new_def split: option.splits)
qed

section \<open>Properties\<close>

text \<open>
  C15. When the tuple bus balances over all clients and a trace of the range tuple checker that
  satisfies its AIR, every active lookup of a client is a tuple of values below the sizes: each
  column of an accepted trace stays, steps by one, or wraps from its last value, and cannot escape.
\<close>

theorem range_tuple_lookups_sound:
  fixes client :: "'f::field interaction list"
  assumes "range_tuple_valid bus rows"
    and "bus_balanced (rt_index bus) (client @ concat (map (\<lambda>r. snd (range_tuple_eval bus r r)) rows))"
    and "list_all (bool_lookup (rt_index bus)) (client @ concat (map (\<lambda>r. snd (range_tuple_eval bus r r)) rows))"
    and "\<And>k c. Add_key (rt_index bus) k c \<notin> set client"
    and "length (client @ concat (map (\<lambda>r. snd (range_tuple_eval bus r r)) rows)) < CHAR('f)"
    and "Lookup_key (rt_index bus) k c \<in> set client" "c \<noteq> 0"
  shows "\<exists>vs. k = fels vs \<and> list_all2 (<) vs (rt_sizes bus)"
  using range_tuple.lookup_served [OF assms] unfolding range_tuple_table_def .

theorem range_tuple_lookups_sound_witness:
  "\<exists>vs. fels [1, 3] = (fels vs :: bb list) \<and> list_all2 (<) vs [2, 4]"
proof -
  let ?bus = "\<lparr>rt_index = 7, rt_sizes = [2, 4]\<rparr>"
  let ?c = "map (count_list (concat (map (range_tuple_idx (rt_sizes ?bus)) [Add_tuple [1, 3]]))) [0..<prod_list (rt_sizes ?bus)]"
  let ?rows = "fst (range_tuple_generate_trace ?bus ?c) :: bb range_tuple_cols list"
  have "(8::nat) AND 7 = 0" by code_simp
  then have new: "range_tuple_new ?bus = Some (replicate 8 0)" by (simp add: range_tuple_new_def)
  have bal: "bus_balanced (rt_index ?bus) (concat (map (range_tuple_lookup ?bus) [Add_tuple [1, 3]]) @
      concat (map (\<lambda>r. snd (range_tuple_eval ?bus r r)) ?rows))"
    by (rule range_tuple_balance(2) [OF new]) simp_all
  have valid: "range_tuple_valid ?bus ?rows"
    by (rule range_tuple_trace_valid [OF new]) (simp_all add: bb_CHAR)
  have bool: "list_all (bool_lookup 7) (concat (map (\<lambda>r. snd (range_tuple_eval ?bus r r)) ?rows))"
    by (simp add: list_all_iff range_tuple_eval_def Let_def air_defs)
  have len: "length (concat (map (\<lambda>r. snd (range_tuple_eval ?bus r r)) ?rows)) = 8"
    by (simp add: range_tuple_generate_trace_def range_tuple_eval_def Let_def length_concat comp_def)
  from range_tuple_lookups_sound [OF valid bal, of "fels [1, 3]" 1] show ?thesis
    using bool len by (simp add: bb_CHAR del: map_eq_Cons_conv Cons_eq_map_conv)
qed

text \<open>
  C16. On a bus and chip that \<open>new\<close> accepts, requests for tuples below the sizes never fail, the
  trace then generated satisfies the AIR, the carry coupling included, and the bus balances between
  the lookups of the requests and that trace.
\<close>

theorem range_tuple_requests_balance:
  assumes "range_tuple_bus_new index sizes = Some bus" "range_tuple_new bus = Some c0"
    and "list_all (range_tuple_request_ok sizes) qs" "length qs < 2 ^ 32"
    and "list_all (\<lambda>s. s < CHAR('f::field)) sizes" "prod_list sizes < CHAR('f)"
  shows "\<exists>c. range_tuple_run bus c0 qs = Some c \<and>
    range_tuple_valid bus (fst (range_tuple_generate_trace bus c) :: 'f range_tuple_cols list) \<and>
    bus_balanced (rt_index bus) (concat (map (range_tuple_lookup bus) qs) @
      concat (map (\<lambda>r. snd (range_tuple_eval bus r r))
        (fst (range_tuple_generate_trace bus c) :: 'f range_tuple_cols list)))"
proof (intro exI conjI)
  let ?c = "map (count_list (concat (map (range_tuple_idx (rt_sizes bus)) qs))) [0..<prod_list (rt_sizes bus)]"
  note bus = range_tuple_bus_newD [OF assms(1)]
  note all = range_tuple_balance [OF assms(2), of qs, unfolded bus(1), OF assms(3) bus(2) assms(4), folded bus(1)]
  show "range_tuple_run bus c0 qs = Some ?c"
    "bus_balanced (rt_index bus) (concat (map (range_tuple_lookup bus) qs) @
      concat (map (\<lambda>r. snd (range_tuple_eval bus r r)) (fst (range_tuple_generate_trace bus ?c) :: 'f range_tuple_cols list)))"
    using all by simp_all
  show "range_tuple_valid bus (fst (range_tuple_generate_trace bus ?c) :: 'f range_tuple_cols list)"
    by (rule range_tuple_trace_valid [OF assms(2)]) (use assms(5,6) bus(1) in simp_all)
qed

theorem range_tuple_requests_balance_witness:
  "\<exists>c. range_tuple_run \<lparr>rt_index = 3, rt_sizes = [2, 4]\<rparr> (replicate 8 0) [Add_tuple [1, 3], Add_tuple [0, 2]] = Some c \<and>
    range_tuple_valid \<lparr>rt_index = 3, rt_sizes = [2, 4]\<rparr>
      (fst (range_tuple_generate_trace \<lparr>rt_index = 3, rt_sizes = [2, 4]\<rparr> c) :: bb range_tuple_cols list) \<and>
    bus_balanced (rt_index \<lparr>rt_index = 3, rt_sizes = [2, 4]\<rparr>)
      (concat (map (range_tuple_lookup \<lparr>rt_index = 3, rt_sizes = [2, 4]\<rparr>) [Add_tuple [1, 3], Add_tuple [0, 2]]) @
       concat (map (\<lambda>r. snd (range_tuple_eval \<lparr>rt_index = 3, rt_sizes = [2, 4]\<rparr> r r))
         (fst (range_tuple_generate_trace \<lparr>rt_index = 3, rt_sizes = [2, 4]\<rparr> c) :: bb range_tuple_cols list)))"
proof (rule range_tuple_requests_balance)
  show "range_tuple_bus_new 3 [2, 4] = Some \<lparr>rt_index = 3, rt_sizes = [2, 4]\<rparr>"
    by (simp add: range_tuple_bus_new_def)
  have "(8::nat) AND 7 = 0" by code_simp
  then show "range_tuple_new \<lparr>rt_index = 3, rt_sizes = [2, 4]\<rparr> = Some (replicate 8 0)"
    by (simp add: range_tuple_new_def)
  show "list_all (range_tuple_request_ok [2, 4]) [Add_tuple [1, 3], Add_tuple [0, 2]]" by simp
qed (simp_all add: bb_CHAR)

end
