(* ===== verification/Core_Lemmas.thy ===== *)
theory Core_Lemmas
  imports Less_Than Range_Tuple "HOL-Library.Multiset"
begin

unbundle bit_operations_syntax

text \<open>
  What the shift, multiplication, division, jump and load cores share beside the comparisons:
  one-hot markers, the sign bit by an XOR lookup, range checks two limbs at a time, and the lookups
  that stand for a list of requests, up to their order.
\<close>

section \<open>Limbs and bits\<close>

lemma limbs_val_take_drop: "limbs_val lb xs = limbs_val lb (take i xs) + 2 ^ (lb * min i (length xs)) * limbs_val lb (drop i xs)"
  using limbs_val_append [of lb "take i xs" "drop i xs"] by (simp add: min.commute)

lemma limbs_val_replicate: "limbs_val lb (replicate n (2 ^ lb - 1)) = 2 ^ (lb * n) - 1"
proof (induction n)
  case (Suc n)
  have "0 < (2::nat) ^ lb" "0 < (2::nat) ^ (lb * n)" by simp_all
  then obtain p q where "(2::nat) ^ lb = Suc p" "(2::nat) ^ (lb * n) = Suc q" by (metis gr0_implies_Suc)
  then show ?case using Suc by (simp add: power_add)
qed simp

lemma wrap_mod_exp: "lb \<le> w \<Longrightarrow> wrap w (t mod 2 ^ lb) = t mod 2 ^ lb"
  by (simp add: wrap_def mod_mod_trivial mod_less_divisor min_def mod_exp_eq flip: take_bit_eq_mod)

lemma pow_minus_1_mod: "s \<le> lb \<Longrightarrow> (2 ^ lb - 1) mod 2 ^ s = (2 ^ s - 1 :: nat)"
proof -
  assume "s \<le> lb"
  then have pw: "(2::nat) ^ lb = 2 ^ s * 2 ^ (lb - s)" by (simp flip: power_add)
  obtain p q where pq: "(2::nat) ^ s = Suc p" "(2::nat) ^ (lb - s) = Suc q"
    by (metis gr0_implies_Suc zero_less_numeral zero_less_power)
  have "2 ^ lb - 1 = p + Suc p * q" unfolding pw pq by simp
  then show ?thesis unfolding pq by (simp only: mod_mult_self2 mod_less lessI diff_Suc_1)
qed

lemma top_bit_div: "x < 2 ^ lb \<Longrightarrow> 0 < lb \<Longrightarrow> x div 2 ^ (lb - 1) = of_bool (2 ^ (lb - 1) \<le> x)" for x :: nat
  by (cases lb) (auto simp: div_eq_0_iff intro: div_nat_eqI)

lemma or_disjoint: "y < 2 ^ s \<Longrightarrow> (x * 2 ^ s) OR y = x * 2 ^ s + y" for x y :: nat
proof -
  assume y: "y < 2 ^ s"
  have "(x * 2 ^ s) OR y = push_bit s x OR y" by (simp add: push_bit_eq_mult)
  also have "\<dots> = push_bit s x + y"
    by (rule disjunctive_add_eq_or [symmetric], rule bit_eqI) (use y in \<open>auto simp: bit_simps dest: bit_ge_exp_nat\<close>)
  finally show ?thesis by (simp add: push_bit_eq_mult)
qed

lemma xor_top_bit: "x < 2 ^ Suc k \<Longrightarrow> x XOR 2 ^ k = (if 2 ^ k \<le> x then x - 2 ^ k else x + 2 ^ k)" for x :: nat
proof -
  assume x: "x < 2 ^ Suc k"
  have "x div 2 ^ k < 2" using x by (simp add: less_mult_imp_div_less)
  then have "bit x k \<longleftrightarrow> 2 ^ k \<le> x"
    by (cases "2 ^ k \<le> x") (auto simp: bit_iff_odd div_eq_0_iff less_2_cases_iff)
  then have "x AND 2 ^ k = (if 2 ^ k \<le> x then 2 ^ k else 0)"
    by (intro bit_eqI) (auto simp: bit_simps)
  then show ?thesis using add_eq_xor_and [of x "2 ^ k"] by (auto split: if_splits)
qed

lemma to_limbs_4: "to_limbs lb 4 v = [v mod 2 ^ lb, v div 2 ^ lb mod 2 ^ lb, v div 2 ^ lb div 2 ^ lb mod 2 ^ lb,
    v div 2 ^ lb div 2 ^ lb div 2 ^ lb mod 2 ^ lb]"
proof -
  have "(4::nat) = Suc (Suc (Suc (Suc 0)))" by simp
  then show ?thesis by (simp only: to_limbs.simps)
qed

section \<open>One-hot markers\<close>

lemma marker_select:
  fixes m :: "'f::field list"
  assumes bool: "\<And>i. i < L \<Longrightarrow> m ! i = 0 \<or> m ! i = 1"
    and sum: "fold (\<lambda>i acc. acc + m ! i) [0..<L] 0 = 1" and L: "L < CHAR('f)" "1 < CHAR('f)"
  obtains j where "j < L" "m ! j = 1" "fold (\<lambda>i acc. acc + of_nat i * m ! i) [0..<L] 0 = of_nat j"
proof -
  let ?f = "map ((!) m) [0..<L]"
  have "sum_list ?f = 1" using sum by (simp add: fold_add_eq_sum)
  then obtain j where j: "j < L" "m ! j = 1" "\<And>i. i < L \<Longrightarrow> i \<noteq> j \<Longrightarrow> m ! i = 0"
    using one_hot_flags [of ?f] bool L by auto
  have "fold (\<lambda>i acc. acc + of_nat i * m ! i) [0..<L] 0 = (\<Sum>i\<leftarrow>[0..<L]. if i = j then of_nat j else 0)"
    unfolding fold_add_eq_sum using j by (simp, intro arg_cong [where f = sum_list] map_cong) auto
  also have "\<dots> = of_nat j" using j(1) by (simp add: interv_sum_list_conv_sum_set_nat)
  finally show ?thesis using j that by blast
qed

lemma marker_fold:
  assumes "j < L"
  shows "fold (\<lambda>i acc. acc + (replicate L 0)[j := 1] ! i) [0..<L] 0 = (1 :: 'f::field)"
    and "fold (\<lambda>i acc. acc + of_nat i * (replicate L 0)[j := 1] ! i) [0..<L] 0 = (of_nat j :: 'f::field)"
proof -
  have e: "map (\<lambda>i. g i * (replicate L 0)[j := 1] ! i) [0..<L] = map (\<lambda>i. if i = j then g j else (0 :: 'f)) [0..<L]" for g
    by (rule map_cong) (auto simp: nth_list_update)
  have s: "(\<Sum>i\<leftarrow>[0..<L]. if i = j then g j else (0 :: 'f)) = g j" for g
    using assms by (simp add: interv_sum_list_conv_sum_set_nat)
  show "fold (\<lambda>i acc. acc + (replicate L 0)[j := 1] ! i) [0..<L] 0 = (1 :: 'f)"
    unfolding fold_add_eq_sum e [of "\<lambda>_. 1", unfolded mult_1_left] using s [of "\<lambda>_. 1"] by simp
  show "fold (\<lambda>i acc. acc + of_nat i * (replicate L 0)[j := 1] ! i) [0..<L] 0 = (of_nat j :: 'f)"
    unfolding fold_add_eq_sum e s by simp
qed

section \<open>Lookups\<close>

text \<open>The lookup \<open>x XOR mask = x + mask - 2 * sign * mask\<close> makes \<open>sign\<close> the top bit of \<open>x\<close>.\<close>

lemma sign_lookup_sound:
  fixes s :: "'f::field"
  assumes "bitwise_table lb [of_nat x, of_nat (2 ^ (lb - 1)), of_nat x + of_nat (2 ^ (lb - 1)) - of_nat 2 * (s * of_nat (2 ^ (lb - 1))), 1]"
    and x: "x < 2 ^ lb" and lb: "0 < lb" and char: "2 ^ lb < CHAR('f)" and s: "s = 0 \<or> s = 1"
  shows "s = from_bool (2 ^ (lb - 1) \<le> x)"
proof -
  obtain k where k: "lb = Suc k" using lb by (cases lb) auto
  obtain x' y' where xy: "x' < 2 ^ lb" "y' < 2 ^ lb" "of_nat x = (of_nat x' :: 'f)" "of_nat (2 ^ k) = (of_nat y' :: 'f)"
      "of_nat x + of_nat (2 ^ k) - of_nat 2 * (s * of_nat (2 ^ k)) = (of_nat (x' XOR y') :: 'f)"
    using assms(1) unfolding bitwise_table_xor k by auto
  have "x < CHAR('f)" "x' < CHAR('f)" "y' < CHAR('f)" "2 ^ k < CHAR('f)" using x xy(1,2) char by (simp_all add: k)
  then have e: "x' = x" "y' = 2 ^ k" using xy(3,4) by (simp_all only: of_nat_eq_iff_char)
  have ne: "of_nat (2 * 2 ^ k) \<noteq> (0 :: 'f)" using char by (subst of_nat_eq_0_char) (simp_all add: k)
  have eq: "of_nat x + of_nat (2 ^ k) - of_nat 2 * (s * of_nat (2 ^ k)) = (of_nat (if 2 ^ k \<le> x then x - 2 ^ k else x + 2 ^ k) :: 'f)"
    using xy(5) xor_top_bit [of x k] x unfolding e by (simp add: k)
  show ?thesis using s
  proof
    assume "s = 0"
    with eq ne show ?thesis by (cases "2 ^ k \<le> x") (simp_all add: k of_nat_diff)
  next
    assume "s = 1"
    with eq ne show ?thesis by (cases "2 ^ k \<le> x") (simp_all add: k of_nat_diff)
  qed
qed

lemma sign_lookup_complete:
  assumes "x < 2 ^ lb" "0 < lb"
  shows "of_nat x + of_nat (2 ^ (lb - 1)) - of_nat 2 * (from_bool (2 ^ (lb - 1) \<le> x) * of_nat (2 ^ (lb - 1))) =
    (of_nat (x XOR 2 ^ (lb - 1)) :: 'f::field)"
  using assms by (cases lb) (simp_all add: xor_top_bit from_bool_def of_nat_diff)

text \<open>The other way to check a sign: twice the limb without its sign bit is a limb.\<close>

lemma sign_range_sound:
  fixes s :: "'f::field"
  assumes eq: "of_nat 2 * (of_nat x - s * of_nat (2 ^ (lb - 1))) = of_nat u" and u: "u < 2 ^ lb"
    and x: "x < 2 ^ lb" and lb: "0 < lb" and char: "2 ^ (lb + 1) < CHAR('f)" and s: "s = 0 \<or> s = 1"
  shows "s = from_bool (2 ^ (lb - 1) \<le> x)"
proof -
  obtain k where k: "lb = Suc k" using lb by (cases lb) auto
  have small: "2 * x < CHAR('f)" "u < CHAR('f)" "u + 2 ^ lb < CHAR('f)" using u x char by (simp_all add: power_add)
  show ?thesis using s
  proof
    assume s0: "s = 0"
    then have "of_nat (2 * x) = (of_nat u :: 'f)" using eq by simp
    then have "2 * x = u" using small by (simp only: of_nat_eq_iff_char)
    then show ?thesis using s0 u k by simp
  next
    assume s1: "s = 1"
    then have "of_nat (2 * x) = (of_nat (u + 2 ^ lb) :: 'f)" using eq by (simp add: k algebra_simps)
    then have "2 * x = u + 2 ^ lb" using small by (simp only: of_nat_eq_iff_char)
    then show ?thesis using s1 k by simp
  qed
qed

definition sign_range :: "nat \<Rightarrow> bool \<Rightarrow> nat \<Rightarrow> nat" where
  "sign_range limb_bits sign x = wshl 32 (wsub 32 x (if sign then 2 ^ (limb_bits - 1) else 0)) 1"

lemma sign_range_complete:
  assumes "x < 2 ^ lb" "0 < lb" "lb \<le> 8" "sign \<longleftrightarrow> 2 ^ (lb - 1) \<le> x"
  shows "sign_range lb sign x < 2 ^ lb"
    "of_nat (sign_range lb sign x) = (of_nat 2 * (of_nat x - from_bool sign * of_nat (2 ^ (lb - 1))) :: 'f::field)"
proof -
  obtain k where k: "lb = Suc k" using assms(2) by (cases lb) auto
  have x: "x < 256" using assms(1) pow_le_256 [OF assms(3)] by linarith
  let ?m = "if sign then 2 ^ (lb - 1) else 0"
  have "wsub 32 x ?m = x - ?m" by (rule wsub_small) (use assms(4) x in auto)
  moreover have "wshl 32 (x - ?m) 1 = (x - ?m) * 2"
  proof -
    have "(x - ?m) * 2 < 2 ^ 32" using x by (simp add: le_less_trans [of "(x - ?m) * 2" "x * 2"])
    then show ?thesis by (simp only: wshl_def power_one_right mod_less)
  qed
  ultimately have e: "sign_range lb sign x = 2 * (x - ?m)" by (simp only: sign_range_def mult.commute)
  show "sign_range lb sign x < 2 ^ lb" unfolding e using assms(1,4) k by auto
  show "of_nat (sign_range lb sign x) = (of_nat 2 * (of_nat x - from_bool sign * of_nat (2 ^ (lb - 1))) :: 'f)"
    unfolding e using assms(4) by (cases sign) (simp_all add: of_nat_diff)
qed

text \<open>Range checks of the limbs two by two give limbs in range.\<close>

lemma pair_lookups_limbs:
  fixes a :: "'f::field list"
  assumes "length a = n" "even n"
    and "\<And>i. i < n div 2 \<Longrightarrow> bitwise_table lb [a ! (i * 2), a ! (i * 2 + 1), 0, 0]"
  obtains as where "a = fels as" "limbs_ok lb as" "length as = n"
proof -
  have "\<exists>x < 2 ^ lb. a ! j = of_nat x" if "j < n" for j
  proof -
    have "j div 2 < n div 2" using that assms(2) by (elim evenE) (simp add: less_mult_imp_div_less mult.commute)
    moreover have "j = j div 2 * 2 \<or> j = j div 2 * 2 + 1" by presburger
    ultimately show ?thesis using assms(3) [of "j div 2"] by (auto simp: bitwise_table_range)
  qed
  then obtain f where f: "\<And>j. j < n \<Longrightarrow> f j < 2 ^ lb \<and> a ! j = of_nat (f j)" by metis
  show ?thesis
    by (rule that [of "map f [0..<n]"])
      (use f assms(1) in \<open>auto simp: list_all_iff intro!: nth_equalityI\<close>)
qed

text \<open>\<open>chunks_exact(2)\<close>.\<close>

fun chunks2 :: "nat list \<Rightarrow> (nat \<times> nat) list" where
  "chunks2 (x # y # xs) = (x, y) # chunks2 xs"
| "chunks2 _ = []"

lemma chunks2_nth: "even (length xs) \<Longrightarrow> chunks2 xs = map (\<lambda>i. (xs ! (i * 2), xs ! (i * 2 + 1))) [0..<length xs div 2]"
proof (induction xs rule: chunks2.induct)
  case (1 x y xs)
  then show ?case by (simp add: upt_conv_Cons map_Suc_upt [symmetric] del: upt_Suc)
qed simp_all

lemma range_lookups:
  "concat (map (bitwise_lookup b) (map (\<lambda>(x, y). Request_range x y) ps)) =
   map (\<lambda>(x, y). Lookup_key b [of_nat x, of_nat y, 0, 0] 1) ps"
  by (induction ps) auto

lemma count_lookups:
  "concat (map (var_range_lookup rb) (map (\<lambda>c. Add_count c s) cs)) =
   map (\<lambda>c. Lookup_key (vr_index rb) [of_nat c, of_nat s] 1) cs"
  by (induction cs) auto

lemma active_lookups:
  "active (concat (map (bitwise_lookup b) qs)) = concat (map (bitwise_lookup b) qs)"
  "active (concat (map (var_range_lookup rb) qs)) = concat (map (var_range_lookup rb) qs)"
proof (induction qs)
  case (Cons q qs)
  { case 1 show ?case using Cons by (cases q) simp_all }
  { case 2 show ?case using Cons by (cases q) simp_all }
qed simp_all

lemma active_range_tuple:
  "active (concat (map (range_tuple_lookup tb) qs)) = concat (map (range_tuple_lookup tb) qs)"
proof (induction qs)
  case (Cons q qs)
  then show ?case by (cases q) simp_all
qed simp

text \<open>Which lookups are served, and whether a bus balances, does not depend on their order.\<close>

lemma lookups_ok_mset: "mset xs = mset ys \<Longrightarrow> lookups_ok T xs \<longleftrightarrow> lookups_ok T ys"
  unfolding lookups_ok_def list_all_iff by (metis set_mset_mset)

lemma bus_balanced_mset: "mset xs = mset ys \<Longrightarrow> bus_balanced b xs \<longleftrightarrow> bus_balanced b ys"
  unfolding bus_balanced_def by (metis mset_map sum_mset_sum_list)

text \<open>
  The buses of the virtual machine (\<open>crates/vm/src/system/mod.rs\<close> and the extensions): the range
  checker has index 3 and 17 bits, the other lookup buses come later.
\<close>

definition vm_range_bus :: var_range_bus where
  "vm_range_bus = \<lparr>vr_index = 3, range_max_bits = 17\<rparr>"

definition rv32_tuple_bus :: "nat \<Rightarrow> range_tuple_bus" where
  "rv32_tuple_bus b = \<lparr>rt_index = b + 7, rt_sizes = [2 ^ 8, 8 * 2 ^ 8]\<rparr>"

definition rv32_tables :: "nat \<Rightarrow> 'f::field list \<Rightarrow> bool" where
  "rv32_tables i = (if i = vr_index vm_range_bus then var_range_table 17 else bitwise_table 8)"

end
