(* ===== verification/Shift.thy ===== *)
theory Shift
  imports Core_Lemmas
begin

unbundle bit_operations_syntax

text \<open>
  \<open>extensions/rv32im/circuit/src/shift/core.rs\<close>: the core chip for SLL, SRL and SRA. A shift is
  split into a shift by whole limbs and a shift by bits; both are selected by one-hot markers, and
  the bits that move from limb to limb are range checked columns.
\<close>

section \<open>The model\<close>

record 'f shift_cols =
  sh_a :: "'f list"
  sh_b :: "'f list"
  sh_c :: "'f list"
  opcode_sll_flag :: 'f
  opcode_srl_flag :: 'f
  opcode_sra_flag :: 'f
  bit_multiplier_left :: 'f
  bit_multiplier_right :: 'f
  sh_b_sign :: 'f
  bit_shift_marker :: "'f list"
  limb_shift_marker :: "'f list"
  bit_shift_carry :: "'f list"

record shift_air =
  sh_bus :: nat
  sh_range_bus :: var_range_bus
  sh_offset :: nat

definition right_shift :: "'f::field shift_cols \<Rightarrow> 'f" where
  "right_shift cols = opcode_srl_flag cols + opcode_sra_flag cols"

text \<open>The body of the loop over the bits of the shift.\<close>

definition bit_shift_assertions :: "'f::field shift_cols \<Rightarrow> nat \<Rightarrow> 'f assertion list" where
  "bit_shift_assertions cols i =
     (let m = bit_shift_marker cols ! i
      in [assert_bool m,
          When m (assert_eq (bit_multiplier_left cols) (of_nat (2 ^ i) * opcode_sll_flag cols)),
          When m (assert_eq (bit_multiplier_right cols) (of_nat (2 ^ i) * right_shift cols))])"

text \<open>The body of the inner loop over the limbs \<open>j\<close> of the result, for a shift by \<open>i\<close> limbs.\<close>

definition limb_shift_left :: "nat \<Rightarrow> 'f::field shift_cols \<Rightarrow> nat \<Rightarrow> nat \<Rightarrow> 'f assertion" where
  "limb_shift_left limb_bits cols i j =
     (let a = sh_a cols; b = sh_b cols; sll = opcode_sll_flag cols; carry = bit_shift_carry cols
      in if j < i then assert_zero (a ! j * sll)
         else assert_eq (a ! j * sll)
           ((if j - i = 0 then 0 else carry ! (j - i - 1) * sll) +
            b ! (j - i) * bit_multiplier_left cols -
            of_nat (2 ^ limb_bits) * carry ! (j - i) * sll))"

definition limb_shift_right :: "nat \<Rightarrow> nat \<Rightarrow> 'f::field shift_cols \<Rightarrow> nat \<Rightarrow> nat \<Rightarrow> 'f assertion" where
  "limb_shift_right num_limbs limb_bits cols i j =
     (let a = sh_a cols; b = sh_b cols; carry = bit_shift_carry cols
      in if j + i > num_limbs - 1
         then assert_eq (a ! j * right_shift cols) (sh_b_sign cols * of_nat (2 ^ limb_bits - 1))
         else assert_eq (a ! j * bit_multiplier_right cols)
           ((if j + i = num_limbs - 1 then sh_b_sign cols * (bit_multiplier_right cols - 1)
             else carry ! (j + i + 1) * right_shift cols) * of_nat (2 ^ limb_bits) +
            right_shift cols * (b ! (j + i) - carry ! (j + i))))"

definition limb_shift_assertions :: "nat \<Rightarrow> nat \<Rightarrow> 'f::field shift_cols \<Rightarrow> nat \<Rightarrow> 'f assertion list" where
  "limb_shift_assertions num_limbs limb_bits cols i =
     (let m = limb_shift_marker cols ! i
      in assert_bool m #
         concat (map (\<lambda>j. [When m (limb_shift_left limb_bits cols i j),
                           When m (limb_shift_right num_limbs limb_bits cols i j)]) [0..<num_limbs]))"

definition shift_eval ::
  "nat \<Rightarrow> nat \<Rightarrow> shift_air \<Rightarrow> 'f::field shift_cols \<Rightarrow> ('f, 'f minimal_instruction) core_eval" where
  "shift_eval num_limbs limb_bits air cols =
     (let flags = [opcode_sll_flag cols, opcode_srl_flag cols, opcode_sra_flag cols];
          valid = fold (\<lambda>flag acc. acc + flag) flags 0;
          a = sh_a cols; b = sh_b cols; c = sh_c cols;
          bit_marker_sum = fold (\<lambda>i acc. acc + bit_shift_marker cols ! i) [0..<limb_bits] 0;
          bit_shift = fold (\<lambda>i acc. acc + of_nat i * bit_shift_marker cols ! i) [0..<limb_bits] 0;
          limb_marker_sum = fold (\<lambda>i acc. acc + limb_shift_marker cols ! i) [0..<num_limbs] 0;
          limb_shift = fold (\<lambda>i acc. acc + of_nat i * limb_shift_marker cols ! i) [0..<num_limbs] 0;
          mask = of_nat (2 ^ (limb_bits - 1));
          b_msb = b ! (num_limbs - 1)
      in (map assert_bool flags @ [assert_bool valid] @
          concat (map (bit_shift_assertions cols) [0..<limb_bits]) @
          [When valid (assert_one bit_marker_sum)] @
          concat (map (limb_shift_assertions num_limbs limb_bits cols) [0..<num_limbs]) @
          [When valid (assert_one limb_marker_sum), assert_bool (sh_b_sign cols),
           When (not_f (opcode_sra_flag cols)) (assert_zero (sh_b_sign cols))],
          [range_check (sh_range_bus air)
             ((c ! 0 - limb_shift * of_nat limb_bits - bit_shift) * inverse (of_nat (num_limbs * limb_bits)))
             (limb_bits - ilog2 (num_limbs * limb_bits)) valid,
           send_xor (sh_bus air) b_msb mask (b_msb + mask - of_nat 2 * (sh_b_sign cols * mask)) (opcode_sra_flag cols)] @
          map (\<lambda>i. send_range (sh_bus air) (a ! (i * 2)) (a ! (i * 2 + 1)) valid) [0..<num_limbs div 2] @
          map (\<lambda>carry. var_range_send (sh_range_bus air) carry bit_shift valid) (bit_shift_carry cols),
          \<lparr>to_pc = None, reads = [b, c], writes = [a],
           instruction = \<lparr>is_valid = valid,
             opcode = expr_to_global_expr (sh_offset air) (expected_opcode flags shift_opcodes)\<rparr>\<rparr>))"

text \<open>\<open>get_shift\<close>, and the two shifts on \<open>u16\<close>: the result, the limb shift and the bit shift.\<close>

definition get_shift :: "nat \<Rightarrow> nat \<Rightarrow> nat list \<Rightarrow> nat \<times> nat" where
  "get_shift num_limbs limb_bits y =
     (let shift = y ! 0 mod (num_limbs * limb_bits) in (shift div limb_bits, shift mod limb_bits))"

definition run_shift_left :: "nat \<Rightarrow> nat \<Rightarrow> nat list \<Rightarrow> nat list \<Rightarrow> nat list \<times> nat \<times> nat" where
  "run_shift_left num_limbs limb_bits x y =
     (let (limb_shift, bit_shift) = get_shift num_limbs limb_bits y;
          limb = (\<lambda>i. wrap 8
            (if i > limb_shift
             then (wshl 16 (x ! (i - limb_shift)) bit_shift OR
                   wshr (x ! (i - limb_shift - 1)) (limb_bits - bit_shift)) mod wshl 16 1 limb_bits
             else wshl 16 (x ! (i - limb_shift)) bit_shift mod wshl 16 1 limb_bits))
      in (map (\<lambda>i. if limb_shift \<le> i then limb i else 0) [0..<num_limbs], limb_shift, bit_shift))"

definition shift_fill :: "nat \<Rightarrow> nat \<Rightarrow> bool \<Rightarrow> nat list \<Rightarrow> nat" where
  "shift_fill num_limbs limb_bits logical x =
     (if logical then 0
      else wmul 8 (wrap 8 (wsub 16 (wshl 16 1 limb_bits) 1)) (wshr (x ! (num_limbs - 1)) (limb_bits - 1)))"

definition run_shift_right :: "nat \<Rightarrow> nat \<Rightarrow> nat list \<Rightarrow> nat list \<Rightarrow> bool \<Rightarrow> nat list \<times> nat \<times> nat" where
  "run_shift_right num_limbs limb_bits x y logical =
     (let fill = shift_fill num_limbs limb_bits logical x;
          (limb_shift, bit_shift) = get_shift num_limbs limb_bits y;
          limb = (\<lambda>i. wrap 8
            ((wshr (x ! (i + limb_shift)) bit_shift OR
              wshl 16 (if i + limb_shift + 1 < num_limbs then x ! (i + limb_shift + 1) else fill)
                (limb_bits - bit_shift)) mod wshl 16 1 limb_bits))
      in (map (\<lambda>i. if i < num_limbs - limb_shift then limb i else fill) [0..<num_limbs],
          limb_shift, bit_shift))"

fun run_shift :: "nat \<Rightarrow> nat \<Rightarrow> ShiftOpcode \<Rightarrow> nat list \<Rightarrow> nat list \<Rightarrow> nat list \<times> nat \<times> nat" where
  "run_shift num_limbs limb_bits SLL x y = run_shift_left num_limbs limb_bits x y"
| "run_shift num_limbs limb_bits SRL x y = run_shift_right num_limbs limb_bits x y True"
| "run_shift num_limbs limb_bits SRA x y = run_shift_right num_limbs limb_bits x y False"

record shift_record =
  shr_b :: "nat list"
  shr_c :: "nat list"
  shr_local_opcode :: nat

definition shift_execute ::
  "nat \<Rightarrow> nat \<Rightarrow> ('f, 'm, 'ar) adapter_trace_executor \<Rightarrow> nat \<Rightarrow> 'ar \<Rightarrow>
   ('m, 'ar \<times> shift_record) vm_state_mut \<Rightarrow> 'f instr \<Rightarrow>
   execution_error + ('m, 'ar \<times> shift_record) vm_state_mut" where
  "shift_execute num_limbs limb_bits A offset fresh s i =
     (case from_repr shift_opcodes (local_opcode_idx (i_opcode i) offset) of
        None \<Rightarrow> Inl Panic
      | Some local_opcode \<Rightarrow>
         (let r0 = a_start A (s_pc s) (s_memory s) fresh;
              (m1, r1, data) = a_read A (s_memory s) i r0;
              rs1 = data ! 0; rs2 = data ! 1;
              (output, _, _) = run_shift num_limbs limb_bits local_opcode rs1 rs2;
              core = \<lparr>shr_b = rs1, shr_c = rs2, shr_local_opcode = wrap 8 (repr_of shift_opcodes local_opcode)\<rparr>;
              (m2, r2) = a_write A m1 i [output] r1
          in Inr (s\<lparr>s_memory := m2, s_arena := s_arena s @ [(r2, core)],
                    s_pc := wadd 32 (s_pc s) DEFAULT_PC_STEP\<rparr>)))"

definition shift_carry :: "nat \<Rightarrow> ShiftOpcode \<Rightarrow> nat \<Rightarrow> nat \<Rightarrow> nat" where
  "shift_carry limb_bits opc bit_shift x =
     (if bit_shift = 0 then 0
      else if opc = SLL then wshr x (limb_bits - bit_shift) else x mod wshl 8 1 bit_shift)"

definition shift_fill_core ::
  "nat \<Rightarrow> nat \<Rightarrow> ShiftOpcode \<Rightarrow> shift_record \<Rightarrow> 'f::field shift_cols \<times> lookup_request list" where
  "shift_fill_core num_limbs limb_bits opc rec =
     (let b = shr_b rec; c = shr_c rec;
          (a, limb_shift, bit_shift) = run_shift num_limbs limb_bits opc b c;
          num_bits_log = ilog2 (num_limbs * limb_bits);
          carries = map (shift_carry limb_bits opc bit_shift) b;
          b_msb = b ! (num_limbs - 1)
      in (\<lparr>sh_a = fels a, sh_b = fels b, sh_c = fels c,
           opcode_sll_flag = from_bool (opc = SLL), opcode_srl_flag = from_bool (opc = SRL),
           opcode_sra_flag = from_bool (opc = SRA),
           bit_multiplier_left = (if opc = SLL then of_nat (2 ^ bit_shift) else 0),
           bit_multiplier_right = (if opc = SLL then 0 else of_nat (2 ^ bit_shift)),
           sh_b_sign = (if opc = SRA then of_nat (wshr b_msb (limb_bits - 1)) else 0),
           bit_shift_marker = (replicate limb_bits 0)[bit_shift := 1],
           limb_shift_marker = (replicate num_limbs 0)[limb_shift := 1],
           bit_shift_carry = fels carries\<rparr>,
          map (\<lambda>(x, y). Request_range x y) (chunks2 a) @
          [Add_count (wrap 32 (wshr (wsub 64 (wsub 64 (c ! 0) bit_shift) (limb_shift * limb_bits)) num_bits_log))
             (limb_bits - num_bits_log)] @
          map (\<lambda>carry. Add_count carry bit_shift) carries @
          (if opc = SRA then [Request_xor b_msb (2 ^ (limb_bits - 1))] else [])))"

definition shift_fill_trace_row ::
  "nat \<Rightarrow> nat \<Rightarrow> ('mh, 'ar, 'ac) adapter_filler \<Rightarrow> 'mh \<Rightarrow> 'ar \<Rightarrow> shift_record \<Rightarrow>
   (('ac \<times> 'f::field shift_cols) \<times> lookup_request list) option" where
  "shift_fill_trace_row num_limbs limb_bits fill mem_helper arec rec =
     (let (acols, areqs) = fill mem_helper arec in
      map_option (\<lambda>opc.
          let (cols, reqs) = shift_fill_core num_limbs limb_bits opc rec
          in ((acols, cols), areqs @ reqs))
        (from_repr shift_opcodes (shr_local_opcode rec)))"

section \<open>Shifting numbers in limbs\<close>

lemma shift_left_value:
  assumes ok: "limbs_ok lb as" "length as = n" "length bs = n" "i < n"
    and low: "\<And>j. j < i \<Longrightarrow> as ! j = 0"
    and eq: "\<And>k. k < n - i \<Longrightarrow> bs ! k * 2 ^ s + (if k = 0 then 0 else c (k - 1)) = as ! (k + i) + 2 ^ lb * c k"
  shows "limbs_val lb as = limbs_val lb bs * 2 ^ (lb * i + s) mod 2 ^ (lb * n)"
proof -
  let ?m = "n - i" and ?r = "c (n - i - 1)"
  let ?t = "limbs_val lb (take ?m bs)" and ?d = "limbs_val lb (drop ?m bs)"
  have "take i as = replicate i 0" by (rule nth_equalityI) (use ok low in auto)
  then have "limbs_val lb (take i as) = 0" by (simp add: limbs_val_sum)
  then have a: "limbs_val lb as = 2 ^ (lb * i) * limbs_val lb (drop i as)"
    using limbs_val_take_drop [of lb as i] ok by simp
  have n: "(2::nat) ^ (lb * n) = 2 ^ (lb * i) * 2 ^ (lb * ?m)"
    using ok(4) by (simp flip: power_add add_mult_distrib2)
  have "(\<Sum>k<?m. bs ! k * 2 ^ s * 2 ^ (lb * k)) = (\<Sum>k<?m. as ! (k + i) * 2 ^ (lb * k)) +
      2 ^ (lb * ?m) * (if ?m = 0 then 0 else c (?m - 1))"
    by (rule carry_chain) (rule eq)
  moreover have "(\<Sum>k<?m. as ! (k + i) * 2 ^ (lb * k)) = limbs_val lb (drop i as)"
    using ok by (simp add: limbs_val_sum add.commute)
  moreover have "(\<Sum>k<?m. bs ! k * 2 ^ s * 2 ^ (lb * k)) = ?t * 2 ^ s"
    using ok by (simp add: limbs_val_sum sum_distrib_left sum_distrib_right ac_simps)
  ultimately have t: "?t * 2 ^ s = limbs_val lb (drop i as) + 2 ^ (lb * ?m) * ?r" using ok(4) by simp
  have "limbs_val lb bs * 2 ^ (lb * i + s) = (?t + 2 ^ (lb * ?m) * ?d) * (2 ^ (lb * i) * 2 ^ s)"
    using limbs_val_take_drop [of lb bs ?m] ok by (simp add: power_add)
  also have "\<dots> = 2 ^ (lb * i) * (?t * 2 ^ s) + 2 ^ (lb * n) * (?d * 2 ^ s)"
    unfolding n by (simp add: algebra_simps)
  also have "\<dots> = limbs_val lb as + 2 ^ (lb * n) * (?r + ?d * 2 ^ s)"
    unfolding t a n by (simp add: algebra_simps)
  finally show ?thesis using limbs_val_bound [OF ok(1)] ok(2) by simp
qed

lemma shift_right_chain:
  fixes c :: "nat \<Rightarrow> nat"
  assumes "\<And>j. j < m \<Longrightarrow> a j * 2 ^ s + c j = c (Suc j) * 2 ^ lb + b j"
  shows "(\<Sum>j<m. a j * 2 ^ (lb * j)) * 2 ^ s + c 0 = c m * 2 ^ (lb * m) + (\<Sum>j<m. b j * 2 ^ (lb * j))"
  using assms
proof (induction m)
  case (Suc m)
  have "a m * 2 ^ s + c m = c (Suc m) * 2 ^ lb + b m" using Suc.prems by simp
  then have "(a m * 2 ^ s + c m) * 2 ^ (lb * m) = (c (Suc m) * 2 ^ lb + b m) * 2 ^ (lb * m)" by (simp only:)
  then have "a m * 2 ^ (lb * m) * 2 ^ s + c m * 2 ^ (lb * m) = c (Suc m) * 2 ^ (lb * Suc m) + b m * 2 ^ (lb * m)"
    by (simp add: add_mult_distrib power_add mult.assoc mult.commute [of "2 ^ s"])
  then show ?case using Suc unfolding sum.lessThan_Suc add_mult_distrib by simp
qed simp

lemma shift_right_value:
  assumes ok: "limbs_ok lb as" "length as = n" "length bs = n" "limbs_ok lb bs" "i < n"
    and sgn: "\<sigma> = (0::nat) \<or> \<sigma> = 1" and ci: "c i < 2 ^ s"
    and high: "\<And>j. n - i \<le> j \<Longrightarrow> j < n \<Longrightarrow> as ! j = \<sigma> * (2 ^ lb - 1)"
    and eq: "\<And>j. j < n - i \<Longrightarrow> as ! j * 2 ^ s + c (j + i) =
      (if j + i = n - 1 then \<sigma> * (2 ^ s - 1) else c (j + i + 1)) * 2 ^ lb + bs ! (j + i)"
  shows "int (limbs_val lb as) = (int (limbs_val lb bs) - int \<sigma> * 2 ^ (lb * n)) div 2 ^ (lb * i + s) mod 2 ^ (lb * n)"
proof -
  let ?m = "n - i" and ?R = "2 ^ (lb * (n - i)) :: nat" and ?I = "2 ^ (lb * i) :: nat"
  let ?A = "limbs_val lb (take ?m as)"
  define d where "d = (\<lambda>j. if j = ?m then \<sigma> * (2 ^ s - 1) else c (j + i))"
  have "(\<Sum>j<?m. as ! j * 2 ^ (lb * j)) * 2 ^ s + d 0 = d ?m * 2 ^ (lb * ?m) + (\<Sum>j<?m. bs ! (j + i) * 2 ^ (lb * j))"
  proof (rule shift_right_chain)
    fix j assume j: "j < ?m"
    have "(j + i = n - 1) = (Suc j = ?m)" using ok(5) j by auto
    then show "as ! j * 2 ^ s + d j = d (Suc j) * 2 ^ lb + bs ! (j + i)" using eq [OF j] j by (simp add: d_def)
  qed
  moreover have "(\<Sum>j<?m. bs ! (j + i) * 2 ^ (lb * j)) = limbs_val lb (drop i bs)"
    using ok by (simp add: limbs_val_sum add.commute)
  moreover have "(\<Sum>j<?m. as ! j * 2 ^ (lb * j)) = ?A" using ok by (simp add: limbs_val_sum)
  ultimately have main: "?A * 2 ^ s + c i = \<sigma> * (2 ^ s - 1) * ?R + limbs_val lb (drop i bs)"
    using ok(5) by (simp add: d_def)
  have dvd: "limbs_val lb (drop i bs) = limbs_val lb bs div ?I"
  proof -
    have "limbs_ok lb (take i bs)" using ok(4) by (auto simp: list_all_iff dest: in_set_takeD)
    then have "limbs_val lb (take i bs) < ?I" using limbs_val_bound [of lb "take i bs"] ok by simp
    then show ?thesis using limbs_val_take_drop [of lb bs i] ok by simp
  qed
  have n: "(2::nat) ^ (lb * n) = ?I * ?R" using ok(5) by (simp flip: power_add add_mult_distrib2)
  then have ni: "(2::int) ^ (lb * n) = int ?I * int ?R" by (metis of_nat_mult of_nat_numeral of_nat_power)
  have top: "limbs_val lb (drop ?m as) = \<sigma> * (?I - 1)"
  proof -
    have "drop ?m as = replicate i (\<sigma> * (2 ^ lb - 1))" by (rule nth_equalityI) (use ok high in auto)
    then show ?thesis using sgn limbs_val_replicate [of lb i] by (auto simp: limbs_val_sum)
  qed
  have a: "limbs_val lb as = ?A + ?R * (\<sigma> * (?I - 1))"
    using limbs_val_take_drop [of lb as ?m] ok top by simp
  obtain p where "(2::nat) ^ s = Suc p" by (metis gr0_implies_Suc zero_less_numeral zero_less_power)
  then have "?A * 2 ^ s + c i + \<sigma> * ?R = \<sigma> * 2 ^ s * ?R + limbs_val lb (drop i bs)"
    using main by (simp add: algebra_simps)
  then have "int (?A * 2 ^ s + c i + \<sigma> * ?R) = int (\<sigma> * 2 ^ s * ?R + limbs_val lb (drop i bs))" by (simp only:)
  then have e: "int (limbs_val lb bs) div int ?I - int \<sigma> * int ?R = int (c i) + 2 ^ s * (int ?A - int \<sigma> * int ?R)"
    unfolding dvd by (simp add: zdiv_int algebra_simps)
  have "(int (limbs_val lb bs) - int \<sigma> * 2 ^ (lb * n)) div 2 ^ (lb * i + s) =
      (int (limbs_val lb bs) + int ?I * - (int \<sigma> * int ?R)) div int ?I div 2 ^ s"
  proof -
    have "int (limbs_val lb bs) - int \<sigma> * (int ?I * int ?R) = int (limbs_val lb bs) + int ?I * - (int \<sigma> * int ?R)"
      by (simp add: algebra_simps)
    moreover have "(2::int) ^ (lb * i + s) = int ?I * 2 ^ s" by (simp add: power_add)
    ultimately show ?thesis unfolding ni by (simp only: zdiv_zmult2_eq zero_le_power zero_le_numeral)
  qed
  also have "\<dots> = (int (limbs_val lb bs) div int ?I - int \<sigma> * int ?R) div 2 ^ s"
    by (subst div_mult_self2) simp_all
  also have "\<dots> = int ?A - int \<sigma> * int ?R"
    unfolding e using ci by (simp add: div_pos_pos_trivial)
  finally have q: "(int (limbs_val lb bs) - int \<sigma> * 2 ^ (lb * n)) div 2 ^ (lb * i + s) = int ?A - int \<sigma> * int ?R" .
  obtain q1 where q1: "?I = Suc q1" by (metis gr0_implies_Suc zero_less_numeral zero_less_power)
  have e1: "int ?A - int \<sigma> * int ?R = int (limbs_val lb as) + 2 ^ (lb * n) * (- int \<sigma>)"
    unfolding a ni q1 by (simp add: algebra_simps)
  have "int (limbs_val lb as) < 2 ^ (lb * n)"
    using limbs_val_bound [OF ok(1)] ok(2) by (metis of_nat_less_iff of_nat_numeral of_nat_power)
  then show ?thesis unfolding q e1 mod_mult_self2 by simp
qed

text \<open>What the three instructions compute, from the value and the low limb of the shift amount.\<close>

fun shift_spec :: "nat \<Rightarrow> nat \<Rightarrow> ShiftOpcode \<Rightarrow> nat list \<Rightarrow> nat \<Rightarrow> nat" where
  "shift_spec n lb SLL bs sh = limbs_val lb bs * 2 ^ sh mod 2 ^ (lb * n)"
| "shift_spec n lb SRL bs sh = limbs_val lb bs div 2 ^ sh"
| "shift_spec n lb SRA bs sh = nat (sval lb True bs div 2 ^ sh mod 2 ^ (lb * n))"

text \<open>
  The equations between the limbs of the operand, of the result and the moved bits that the
  constraints and the executor share.
\<close>

definition shift_limbs ::
  "nat \<Rightarrow> nat \<Rightarrow> ShiftOpcode \<Rightarrow> nat \<Rightarrow> nat \<Rightarrow> nat list \<Rightarrow> nat list \<Rightarrow> (nat \<Rightarrow> nat) \<Rightarrow> bool" where
  "shift_limbs n lb op i s bs as c \<longleftrightarrow> (\<forall>k<n. c k < 2 ^ s) \<and>
     (if op = SLL
      then (\<forall>j<i. as ! j = 0) \<and>
        (\<forall>k<n - i. bs ! k * 2 ^ s + (if k = 0 then 0 else c (k - 1)) = as ! (k + i) + 2 ^ lb * c k)
      else let \<sigma> = of_bool (op = SRA \<and> 2 ^ (lb - 1) \<le> bs ! (n - 1)) in
        (\<forall>j. n - i \<le> j \<longrightarrow> j < n \<longrightarrow> as ! j = \<sigma> * (2 ^ lb - 1)) \<and>
        (\<forall>j<n - i. as ! j * 2 ^ s + c (j + i) =
          (if j + i = n - 1 then \<sigma> * (2 ^ s - 1) else c (j + i + 1)) * 2 ^ lb + bs ! (j + i)))"

lemma shift_limbs_value:
  assumes "shift_limbs n lb op i s bs as c" and ok: "limbs_ok lb as" "length as = n" "length bs = n" "limbs_ok lb bs" "i < n"
  shows "limbs_val lb as = shift_spec n lb op bs (lb * i + s)"
proof (cases "op = SLL")
  case True
  with assms shift_left_value [OF ok(1-3,5), of s c] show ?thesis by (simp add: shift_limbs_def)
next
  case False
  define \<sigma> :: nat where "\<sigma> = of_bool (op = SRA \<and> 2 ^ (lb - 1) \<le> bs ! (n - 1))"
  have "int (limbs_val lb as) = (int (limbs_val lb bs) - int \<sigma> * 2 ^ (lb * n)) div 2 ^ (lb * i + s) mod 2 ^ (lb * n)"
    by (rule shift_right_value [OF ok, where c = c])
      (use assms(1) False ok(5) in \<open>auto simp: shift_limbs_def Let_def \<sigma>_def [symmetric]\<close>, auto simp: \<sigma>_def)
  moreover have "int (limbs_val lb bs) - int \<sigma> * 2 ^ (lb * n) = sval lb (op = SRA) bs"
    using ok by (auto simp: sval_def \<sigma>_def)
  ultimately have v: "int (limbs_val lb as) = sval lb (op = SRA) bs div 2 ^ (lb * i + s) mod 2 ^ (lb * n)" by simp
  show ?thesis
  proof (cases op)
    case SRL
    have "limbs_val lb bs div 2 ^ (lb * i + s) < 2 ^ (lb * n)"
      using limbs_val_bound [OF ok(4)] ok(3) by (meson div_le_dividend le_less_trans)
    then have "int (limbs_val lb bs div 2 ^ (lb * i + s)) < 2 ^ (lb * n)"
      by (metis of_nat_less_iff of_nat_numeral of_nat_power)
    then have "int (limbs_val lb bs) div 2 ^ (lb * i + s) mod 2 ^ (lb * n) = int (limbs_val lb bs div 2 ^ (lb * i + s))"
      by (simp add: zdiv_int pos_imp_zdiv_nonneg_iff)
    then show ?thesis using v SRL by (simp add: sval_def)
  qed (use v False in \<open>auto simp: nat_eq_iff2\<close>)
qed

section \<open>Soundness\<close>

definition shift_ctx ::
  "nat \<Rightarrow> nat \<Rightarrow> shift_air \<Rightarrow> ShiftOpcode \<Rightarrow> nat list \<Rightarrow> nat list \<Rightarrow>
   ('f::field, 'f minimal_instruction) adapter_air_context" where
  "shift_ctx n lb air op bs cs =
     \<lparr>to_pc = None, reads = [fels bs, fels cs],
      writes = [fels (to_limbs lb n (shift_spec n lb op bs (cs ! 0 mod (n * lb))))],
      instruction = \<lparr>is_valid = 1, opcode = of_nat (sh_offset air + repr_of shift_opcodes op)\<rparr>\<rparr>"

lemma shift_opcodes_simps [simp]:
  "repr_of shift_opcodes SLL = 0" "repr_of shift_opcodes SRL = 1" "repr_of shift_opcodes SRA = 2"
  "distinct shift_opcodes" "op \<in> set shift_opcodes" "length shift_opcodes = 3"
  by (cases op; simp add: shift_opcodes_def)+

text \<open>The lookup of the shift amount: the markers stand for \<open>c mod (NUM_LIMBS * LIMB_BITS)\<close>.\<close>

lemma shift_amount_sound:
  fixes c0 i s n lb m :: nat
  assumes tab: "var_range_table m [(of_nat c0 - of_nat i * of_nat lb - of_nat s) * inverse (of_nat (n * lb)),
      of_nat (lb - ilog2 (n * lb)) :: 'f::field]"
    and m: "m < CHAR('f)" and c0: "c0 < 2 ^ lb" and i: "i < n" and s: "s < lb" and nb: "n * lb \<le> 2 ^ lb"
    and char: "2 ^ (lb + 2) < CHAR('f)"
  shows "c0 mod (n * lb) = lb * i + s"
proof -
  let ?N = "n * lb"
  have N: "0 < ?N" using i s by simp
  note il = ilog2_bounds [OF N]
  have il_le: "ilog2 ?N \<le> lb"
    by (rule power_le_imp_le_exp [OF _ le_trans [OF conjunct1 [OF il] nb]]) simp
  have c4: "4 * 2 ^ lb < CHAR('f)" using char by (simp add: power_add)
  have lbC: "lb < CHAR('f)" using less_exp [of lb] c4 by linarith
  obtain b v where bv: "b \<le> m" "v < 2 ^ b" "of_nat (lb - ilog2 ?N) = (of_nat b :: 'f)"
      "(of_nat c0 - of_nat i * of_nat lb - of_nat s) * inverse (of_nat ?N) = (of_nat v :: 'f)"
    using tab unfolding var_range_table_def by auto
  have "lb - ilog2 ?N < CHAR('f)" "b < CHAR('f)" using lbC bv(1) m by simp_all
  then have b: "b = lb - ilog2 ?N" using bv(3) by (simp only: of_nat_eq_iff_char)
  have "?N * v \<le> 2 ^ Suc (ilog2 ?N) * 2 ^ (lb - ilog2 ?N)"
    by (rule mult_le_mono) (use il bv(2) b in simp_all)
  also have "\<dots> = 2 * 2 ^ lb" using il_le by (simp flip: power_add)
  finally have Nv: "?N * v \<le> 2 * 2 ^ lb" .
  have "i * lb + s < Suc i * lb" using s by simp
  also have "\<dots> \<le> ?N" using i by (intro mult_le_mono1) simp
  finally have sh: "i * lb + s < ?N" .
  have "of_nat ?N \<noteq> (0 :: 'f)" using N nb c4 by (subst of_nat_eq_0_char) simp_all
  then have "of_nat c0 - of_nat i * of_nat lb - of_nat s = (of_nat v * of_nat ?N :: 'f)"
    using bv(4) by (simp add: field_simps)
  then have "of_nat c0 = (of_nat (?N * v + (i * lb + s)) :: 'f)" by (simp add: algebra_simps)
  moreover have "c0 < CHAR('f)" "?N * v + (i * lb + s) < CHAR('f)" using c0 c4 Nv sh nb by linarith+
  ultimately have "c0 = ?N * v + (i * lb + s)" by (simp only: of_nat_eq_iff_char)
  then show ?thesis using sh by (simp add: mult.commute)
qed

lemma shift_bounds:
  fixes x y s lb C :: nat
  assumes "x < 2 ^ lb" "y < 2 ^ s" "s \<le> lb" "2 ^ (2 * lb) < C"
  shows "x * 2 ^ s + y < C" "x + 2 ^ lb * y < C"
proof -
  have le: "(2::nat) ^ s \<le> 2 ^ lb" using assms(3) by (intro power_increasing) simp_all
  have C: "2 ^ lb * 2 ^ lb < C" using assms(4) by (simp add: mult_2 power_add)
  have "x * 2 ^ s + y < (x + 1) * 2 ^ s" using assms(2) by simp
  also have "\<dots> \<le> 2 ^ lb * 2 ^ lb" by (rule mult_le_mono) (use assms(1) le in simp_all)
  finally show "x * 2 ^ s + y < C" using C by simp
  have "x + 2 ^ lb * y < 2 ^ lb * (y + 1)" using assms(1) by simp
  also have "\<dots> \<le> 2 ^ lb * 2 ^ lb" by (rule mult_le_mono) (use assms(2) le in linarith)+
  finally show "x + 2 ^ lb * y < C" using C by simp
qed

text \<open>With the markers, flags and carries decoded, the limb constraints are the limb equations.\<close>

lemma limb_shift_sound:
  fixes cols :: "'f::field shift_cols"
  assumes a: "sh_a cols = fels as" "limbs_ok lb as" "length as = n"
    and b: "sh_b cols = fels bs" "limbs_ok lb bs" "length bs = n"
    and carry: "\<And>k. k < n \<Longrightarrow> bit_shift_carry cols ! k = of_nat (c k) \<and> c k < 2 ^ s"
    and sll: "opcode_sll_flag cols = from_bool (op = SLL)" and rs: "right_shift cols = from_bool (op \<noteq> SLL)"
    and mult: "bit_multiplier_left cols = of_nat (2 ^ s) * from_bool (op = SLL)"
      "bit_multiplier_right cols = of_nat (2 ^ s) * from_bool (op \<noteq> SLL)"
    and sign: "sh_b_sign cols = from_bool (op = SRA \<and> 2 ^ (lb - 1) \<le> bs ! (n - 1))"
    and i: "i < n" and s: "s < lb" and char: "2 ^ (2 * lb) < CHAR('f)"
    and sat: "\<And>j. j < n \<Longrightarrow> satisfied (limb_shift_left lb cols i j) \<and> satisfied (limb_shift_right n lb cols i j)"
  shows "shift_limbs n lb op i s bs as c"
proof -
  let ?\<sigma> = "of_bool (op = SRA \<and> 2 ^ (lb - 1) \<le> bs ! (n - 1)) :: nat"
  note bnd = shift_bounds [where C = "CHAR('f)" and lb = lb and s = s, OF _ _ less_imp_le [OF s] char]
  have "2 ^ lb * 1 \<le> (2::nat) ^ lb * 2 ^ lb" by (rule mult_le_mono2) simp
  also have "\<dots> < CHAR('f)" using char by (simp add: mult_2 power_add)
  finally have lbC: "2 ^ lb < CHAR('f)" by simp
  have asC: "as ! j < CHAR('f)" if "j < n" for j
    using less_trans [OF limbs_okD [OF a(2)] lbC] that a(3) by simp
  have sg: "sh_b_sign cols = of_nat ?\<sigma>" unfolding sign by (simp add: from_bool_def)
  show ?thesis
  proof (cases "op = SLL")
    case True
    have "as ! j = 0" if "j < i" for j
    proof -
      have "of_nat (as ! j) = (0 :: 'f)"
        using sat [of j] that i a True sll by (simp add: limb_shift_left_def Let_def)
      then show ?thesis using of_nat_eq_0_char [OF asC [of j]] that i by simp
    qed
    moreover have "bs ! k * 2 ^ s + (if k = 0 then 0 else c (k - 1)) = as ! (k + i) + 2 ^ lb * c k" if k: "k < n - i" for k
    proof -
      have j: "k + i < n" "k < n" using k by simp_all
      have "satisfied (limb_shift_left lb cols i (k + i))" using sat j(1) by blast
      then have "of_nat (as ! (k + i)) = (if k = 0 then 0 else of_nat (c (k - 1))) +
          of_nat (bs ! k) * of_nat (2 ^ s) - of_nat (2 ^ lb) * (of_nat (c k) :: 'f)"
        using j a b carry [of k] carry [of "k - 1"] sll mult True
        by (simp add: limb_shift_left_def Let_def del: of_nat_power of_nat_numeral split: if_splits)
      then have "of_nat (bs ! k * 2 ^ s + (if k = 0 then 0 else c (k - 1))) = (of_nat (as ! (k + i) + 2 ^ lb * c k) :: 'f)"
        by (simp add: algebra_simps)
      moreover have "bs ! k * 2 ^ s + (if k = 0 then 0 else c (k - 1)) < CHAR('f)"
        by (rule bnd(1)) (use b j carry [of "k - 1"] in \<open>auto simp: list_all_length\<close>)
      moreover have "as ! (k + i) + 2 ^ lb * c k < CHAR('f)"
        by (rule bnd(2)) (use a j carry in \<open>auto simp: list_all_length\<close>)
      ultimately show ?thesis by (simp only: of_nat_eq_iff_char)
    qed
    ultimately show ?thesis using True carry by (simp add: shift_limbs_def)
  next
    case False
    have "as ! j = ?\<sigma> * (2 ^ lb - 1)" if "n - i \<le> j" "j < n" for j
    proof -
      have "n - 1 < j + i" using that i by simp
      then have "of_nat (as ! j) = (of_nat (?\<sigma> * (2 ^ lb - 1)) :: 'f)"
        using sat [of j] that a False rs sg by (simp add: limb_shift_right_def Let_def)
      moreover have "?\<sigma> * (2 ^ lb - 1) < CHAR('f)" using lbC by auto
      ultimately show ?thesis using asC [OF that(2)] by (simp only: of_nat_eq_iff_char)
    qed
    moreover have "as ! j * 2 ^ s + c (j + i) =
        (if j + i = n - 1 then ?\<sigma> * (2 ^ s - 1) else c (j + i + 1)) * 2 ^ lb + bs ! (j + i)" if j: "j < n - i" for j
    proof -
      let ?y = "if j + i = n - 1 then ?\<sigma> * (2 ^ s - 1) else c (j + i + 1)"
      have y: "?y < 2 ^ s" using carry [of "j + i + 1"] j by auto
      have ji: "j + i < n" "j < n" using j by simp_all
      have nt: "\<not> j + i > n - 1" using ji by simp
      have "satisfied (limb_shift_right n lb cols i j)" using sat ji by blast
      then have "of_nat (as ! j) * of_nat (2 ^ s) =
          (if j + i = n - 1 then sh_b_sign cols * (of_nat (2 ^ s) - 1) else bit_shift_carry cols ! (j + i + 1)) * of_nat (2 ^ lb) +
          (of_nat (bs ! (j + i)) - of_nat (c (j + i)))"
        unfolding limb_shift_right_def Let_def if_not_P [OF nt]
        using ji a(1,3) b(1,3) carry [of "j + i"] rs mult False by simp
      moreover have "(if j + i = n - 1 then sh_b_sign cols * (of_nat (2 ^ s) - 1) else bit_shift_carry cols ! (j + i + 1)) = of_nat ?y"
        using carry [of "j + i + 1"] ji unfolding sg by (cases "j + i = n - 1") (simp_all add: of_nat_diff)
      ultimately have "of_nat (as ! j) * of_nat (2 ^ s) = of_nat ?y * of_nat (2 ^ lb) + (of_nat (bs ! (j + i)) - of_nat (c (j + i)) :: 'f)"
        by (simp only:)
      then have "of_nat (as ! j * 2 ^ s + c (j + i)) = (of_nat (bs ! (j + i) + 2 ^ lb * ?y) :: 'f)"
        by (simp add: algebra_simps)
      moreover have "as ! j * 2 ^ s + c (j + i) < CHAR('f)"
        by (rule bnd(1)) (use a ji carry in \<open>auto simp: list_all_length\<close>)
      moreover have "bs ! (j + i) + 2 ^ lb * ?y < CHAR('f)"
        by (rule bnd(2)) (use b ji y in \<open>auto simp: list_all_length\<close>)
      ultimately have "as ! j * 2 ^ s + c (j + i) = bs ! (j + i) + 2 ^ lb * ?y" by (simp only: of_nat_eq_iff_char)
      then show ?thesis by (simp only: mult.commute add.commute)
    qed
    ultimately show ?thesis using False carry by (simp add: shift_limbs_def Let_def)
  qed
qed

lemma shift_eval_sound:
  fixes cols :: "'f::field shift_cols"
  assumes acc: "accepts T (shift_eval n lb air cols)"
    and table: "\<And>k. T (sh_bus air) k \<Longrightarrow> bitwise_table lb k"
      "\<And>k. T (vr_index (sh_range_bus air)) k \<Longrightarrow> var_range_table (range_max_bits (sh_range_bus air)) k"
    and valid: "is_valid (instruction (core_ctx (shift_eval n lb air cols))) = 1"
    and b: "sh_b cols = fels bs" "limbs_ok lb bs" "length bs = n"
    and c: "sh_c cols = fels cs" "limbs_ok lb cs" "length cs = n"
    and len: "length (sh_a cols) = n" "length (bit_shift_carry cols) = n"
    and n: "even n" "0 < n" "n * lb \<le> 2 ^ lb" and lb: "0 < lb"
    and char: "2 ^ (2 * lb) < CHAR('f)" "2 ^ (lb + 2) < CHAR('f)" "range_max_bits (sh_range_bus air) < CHAR('f)"
  shows "\<exists>op. core_ctx (shift_eval n lb air cols) = shift_ctx n lb air op bs cs"
proof -
  note ev = shift_eval_def [of n lb air cols, unfolded Let_def]
  let ?flags = "[opcode_sll_flag cols, opcode_srl_flag cols, opcode_sra_flag cols]"
  let ?m = "range_max_bits (sh_range_bus air)"
  have c4: "4 * 2 ^ lb < CHAR('f)" using char(2) by (simp add: power_add)
  have small: "n < CHAR('f)" "lb < CHAR('f)" "1 < CHAR('f)" "2 ^ lb < CHAR('f)" "3 < CHAR('f)"
  proof -
    have "n * 1 \<le> n * lb" using lb by (intro mult_le_mono2) simp
    moreover have "1 \<le> (2::nat) ^ lb" by simp
    ultimately show "n < CHAR('f)" "lb < CHAR('f)" "1 < CHAR('f)" "2 ^ lb < CHAR('f)" "3 < CHAR('f)"
      using n(3) c4 less_exp [of lb] by linarith+
  qed
  obtain op where op: "?flags = opcode_flags shift_opcodes op"
  proof (rule flags_select [of ?flags shift_opcodes])
    show "fold (\<lambda>flag acc. acc + flag) ?flags 0 = 1" using valid by (simp add: ev)
    show "x = 0 \<or> x = 1" if "x \<in> set ?flags" for x using acc that by (auto simp: accepts_def ev)
  qed (use small in simp_all)
  then have flags: "opcode_sll_flag cols = from_bool (op = SLL)" "opcode_srl_flag cols = from_bool (op = SRL)"
      "opcode_sra_flag cols = from_bool (op = SRA)"
    by (auto simp: opcode_flags_def shift_opcodes_def)
  have rs: "right_shift cols = from_bool (op \<noteq> SLL)" by (cases op) (simp_all add: right_shift_def flags)
  have v1: "fold (\<lambda>flag acc. acc + flag) ?flags 0 = 1" using valid by (simp add: ev)
  have sat: "all_satisfied (bit_shift_assertions cols i)" if "i < lb" for i
    using acc that by (simp add: accepts_def ev)
  have satl: "all_satisfied (limb_shift_assertions n lb cols i)" if "i < n" for i
    using acc that by (simp add: accepts_def ev)
  have sums: "fold (\<lambda>i acc. acc + bit_shift_marker cols ! i) [0..<lb] 0 = 1"
      "fold (\<lambda>i acc. acc + limb_shift_marker cols ! i) [0..<n] 0 = 1"
    using acc v1 by (simp_all add: accepts_def ev)
  obtain s where s: "s < lb" "bit_shift_marker cols ! s = 1"
      "fold (\<lambda>i acc. acc + of_nat i * bit_shift_marker cols ! i) [0..<lb] 0 = of_nat s"
    by (rule marker_select [OF _ sums(1)]) (use sat small in \<open>auto simp: bit_shift_assertions_def Let_def\<close>)
  obtain i where i: "i < n" "limb_shift_marker cols ! i = 1"
      "fold (\<lambda>i acc. acc + of_nat i * limb_shift_marker cols ! i) [0..<n] 0 = of_nat i"
    by (rule marker_select [OF _ sums(2)]) (use satl small in \<open>auto simp: limb_shift_assertions_def Let_def\<close>)
  have mult: "bit_multiplier_left cols = of_nat (2 ^ s) * from_bool (op = SLL)"
      "bit_multiplier_right cols = of_nat (2 ^ s) * from_bool (op \<noteq> SLL)"
    using sat [OF s(1)] by (simp_all add: bit_shift_assertions_def Let_def s(2) rs flags)
  have look: "lookups_ok T (fst (snd (shift_eval n lb air cols)))" using acc by (simp add: accepts_def)
  obtain as where a: "sh_a cols = fels as" "limbs_ok lb as" "length as = n"
  proof (rule pair_lookups_limbs [OF len(1) n(1)])
    show "bitwise_table lb [sh_a cols ! (i * 2), sh_a cols ! (i * 2 + 1), 0, 0]" if "i < n div 2" for i
      using look that table(1) v1 by (auto simp: ev air_defs)
  qed blast
  have "\<exists>v < 2 ^ s. bit_shift_carry cols ! k = of_nat v" if k: "k < n" for k
  proof -
    have "bit_shift_carry cols ! k \<in> set (bit_shift_carry cols)" using k len(2) by simp
    then have "var_range_table ?m [bit_shift_carry cols ! k, of_nat s]"
      using look table(2) v1 by (auto simp: ev s(3) air_defs)
    then obtain b v where bv: "b \<le> ?m" "v < 2 ^ b" "bit_shift_carry cols ! k = of_nat v" "of_nat s = (of_nat b :: 'f)"
      by (auto simp: var_range_table_def)
    have "s < CHAR('f)" "b < CHAR('f)" using s(1) small(2) bv(1) char(3) by linarith+
    then have "b = s" using bv(4) by (simp only: of_nat_eq_iff_char)
    then show ?thesis using bv by blast
  qed
  then obtain carry where carry: "\<And>k. k < n \<Longrightarrow> bit_shift_carry cols ! k = of_nat (carry k) \<and> carry k < 2 ^ s"
    by metis
  have amount: "cs ! 0 mod (n * lb) = lb * i + s"
  proof (rule shift_amount_sound [OF _ char(3) _ i(1) s(1) n(3) char(2)])
    show "var_range_table ?m [(of_nat (cs ! 0) - of_nat i * of_nat lb - of_nat s) * inverse (of_nat (n * lb)),
        of_nat (lb - ilog2 (n * lb)) :: 'f]"
      by (rule table(2)) (use look v1 c n(2) in \<open>auto simp: ev s(3) i(3) air_defs\<close>)
  qed (use c n(2) in \<open>simp add: list_all_length\<close>)
  have bm: "bs ! (n - 1) < 2 ^ lb" "sh_b cols ! (n - 1) = of_nat (bs ! (n - 1))"
    using b n(2) by (simp_all add: list_all_length)
  have sign: "sh_b_sign cols = from_bool (op = SRA \<and> 2 ^ (lb - 1) \<le> bs ! (n - 1))"
  proof (cases "op = SRA")
    case True
    have "satisfied (assert_bool (sh_b_sign cols))" using acc by (simp add: accepts_def ev)
    then have sb: "sh_b_sign cols = 0 \<or> sh_b_sign cols = 1" by simp
    have "bitwise_table lb [of_nat (bs ! (n - 1)), of_nat (2 ^ (lb - 1)),
        of_nat (bs ! (n - 1)) + of_nat (2 ^ (lb - 1)) - of_nat 2 * (sh_b_sign cols * of_nat (2 ^ (lb - 1))), 1]"
      unfolding bm(2) [symmetric] by (rule table(1)) (use look True in \<open>auto simp: ev air_defs flags\<close>)
    from sign_lookup_sound [OF this bm(1) lb small(4) sb] show ?thesis using True by simp
  next
    case False
    then show ?thesis using acc by (simp add: accepts_def ev flags not_f_def)
  qed
  have "shift_limbs n lb op i s bs as carry"
  proof (rule limb_shift_sound [OF a b carry flags(1) rs mult sign i(1) s(1) char(1)])
    show "satisfied (limb_shift_left lb cols i j) \<and> satisfied (limb_shift_right n lb cols i j)" if "j < n" for j
      using satl [OF i(1)] that i(2) by (auto simp: limb_shift_assertions_def Let_def)
  qed simp_all
  from shift_limbs_value [OF this a(2,3) b(3,2) i(1)]
  have val: "limbs_val lb as = shift_spec n lb op bs (cs ! 0 mod (n * lb))" unfolding amount .
  have "as = to_limbs lb n (shift_spec n lb op bs (cs ! 0 mod (n * lb)))"
    using to_limbs_val [OF a(2)] a(3) val by simp
  moreover have "expected_opcode ?flags shift_opcodes = (of_nat (repr_of shift_opcodes op) :: 'f)"
    unfolding op by (rule expected_opcode_flags) simp_all
  ultimately have "core_ctx (shift_eval n lb air cols) = shift_ctx n lb air op bs cs"
    using v1 unfolding ev by (simp add: shift_ctx_def a(1) b(1) c(1) expr_to_global_expr_def)
  then show ?thesis by blast
qed

section \<open>Completeness\<close>

lemma shift_left_limb:
  assumes "x < 2 ^ lb" "y < 2 ^ lb" "s < lb" "lb \<le> 8"
  shows "x * 2 ^ s + y div 2 ^ (lb - s) =
      wrap 8 ((wshl 16 x s OR wshr y (lb - s)) mod wshl 16 1 lb) + 2 ^ lb * (x div 2 ^ (lb - s))" (is ?eq)
    and "wrap 8 ((wshl 16 x s OR wshr y (lb - s)) mod wshl 16 1 lb) < 2 ^ lb" (is ?lt)
    and "x * 2 ^ s = wrap 8 (wshl 16 x s mod wshl 16 1 lb) + 2 ^ lb * (x div 2 ^ (lb - s))" (is ?first)
    and "wrap 8 (wshl 16 x s mod wshl 16 1 lb) < 2 ^ lb" (is ?first_lt)
proof -
  note le = pow_le_256 [OF assms(4)]
  have pw: "(2::nat) ^ lb = 2 ^ s * 2 ^ (lb - s)" using assms(3) by (simp flip: power_add)
  have s7: "(2::nat) ^ s \<le> 2 ^ 7" using assms(3,4) by (intro power_increasing) simp_all
  have "x * 2 ^ s \<le> 255 * 2 ^ 7" by (rule mult_le_mono) (use assms(1) le s7 in simp_all)
  then have sh: "wshl 16 x s = x * 2 ^ s" "wshl 16 1 lb = 2 ^ lb" using le by (simp_all add: wshl_def)
  note w = wrap_mod_exp [OF assms(4)]
  have y: "y div 2 ^ (lb - s) < 2 ^ s" using assms(2) by (simp add: pw less_mult_imp_div_less)
  have d: "(x * 2 ^ s + z) div 2 ^ lb = x div 2 ^ (lb - s)" if "z < 2 ^ s" for z
    using that by (simp add: pw div_mult2_eq)
  show ?eq unfolding sh w wshr_def or_disjoint [OF y] by (subst d [OF y, symmetric]) simp
  show ?first unfolding sh w using d [of 0] mod_mult_div_eq [of "x * 2 ^ s" "2 ^ lb"] by simp
  show ?lt ?first_lt unfolding sh w by simp_all
qed

lemma shift_right_limb:
  assumes "x < 2 ^ lb" "y < 2 ^ lb" "s < lb" "lb \<le> 8"
  defines "z \<equiv> wrap 8 ((wshr x s OR wshl 16 y (lb - s)) mod wshl 16 1 lb)"
  shows "z * 2 ^ s + x mod 2 ^ s = (y mod 2 ^ s) * 2 ^ lb + x" and "z < 2 ^ lb"
proof -
  note le = pow_le_256 [OF assms(4)]
  have pw: "(2::nat) ^ lb = 2 ^ (lb - s) * 2 ^ s" using assms(3) by (simp flip: power_add)
  have s8: "(2::nat) ^ (lb - s) \<le> 2 ^ 8" using assms(4) by (intro power_increasing) simp_all
  have "y * 2 ^ (lb - s) \<le> 255 * 2 ^ 8" by (rule mult_le_mono) (use assms(2) le s8 in simp_all)
  then have sh: "wshl 16 y (lb - s) = y * 2 ^ (lb - s)" "wshl 16 1 lb = 2 ^ lb" using le by (simp_all add: wshl_def)
  have x: "x div 2 ^ s < 2 ^ (lb - s)" using assms(1) by (simp add: pw less_mult_imp_div_less)
  let ?t = "y * 2 ^ (lb - s) + x div 2 ^ s"
  have zt: "z = ?t mod 2 ^ lb"
    unfolding z_def sh wshr_def or.commute [of "x div 2 ^ s"] or_disjoint [OF x] by (rule wrap_mod_exp [OF assms(4)])
  then show "z < 2 ^ lb" by simp
  have lbs: "lb = (lb - s) + s" using assms(3) by simp
  have "?t mod 2 ^ ((lb - s) + s) = x div 2 ^ s + 2 ^ (lb - s) * (y mod 2 ^ s)"
    unfolding mod_mult_exp using x by simp
  then have "z = x div 2 ^ s + 2 ^ (lb - s) * (y mod 2 ^ s)" using zt lbs by simp
  then have "z * 2 ^ s + x mod 2 ^ s = (y mod 2 ^ s) * (2 ^ (lb - s) * 2 ^ s) + (x div 2 ^ s * 2 ^ s + x mod 2 ^ s)"
    by (simp add: algebra_simps)
  then show "z * 2 ^ s + x mod 2 ^ s = (y mod 2 ^ s) * 2 ^ lb + x" by (simp only: pw div_mult_mod_eq)
qed

lemma shift_carry_eq:
  assumes "x < 2 ^ lb" "s < lb" "lb \<le> 8"
  shows "shift_carry lb op s x = (if op = SLL then x div 2 ^ (lb - s) else x mod 2 ^ s)"
    and "shift_carry lb op s x < 2 ^ s"
proof -
  have "(2::nat) ^ s \<le> 2 ^ 7" using assms(2,3) by (intro power_increasing) simp_all
  then show e: "shift_carry lb op s x = (if op = SLL then x div 2 ^ (lb - s) else x mod 2 ^ s)"
    using assms(1) by (auto simp: shift_carry_def wshl_def wshr_def)
  have "(2::nat) ^ lb = 2 ^ s * 2 ^ (lb - s)" using assms(2) by (simp flip: power_add)
  then show "shift_carry lb op s x < 2 ^ s" unfolding e using assms(1) by (simp add: less_mult_imp_div_less)
qed

lemma shift_fill_eq:
  assumes "limbs_ok lb bs" "length bs = n" "0 < n" "0 < lb" "lb \<le> 8"
  shows "shift_fill n lb lg bs = of_bool (\<not> lg \<and> 2 ^ (lb - 1) \<le> bs ! (n - 1)) * (2 ^ lb - 1)"
proof -
  have top: "bs ! (n - 1) < 2 ^ lb" using assms by (simp add: list_all_length)
  then have "bs ! (n - 1) div 2 ^ (lb - 1) = of_bool (2 ^ (lb - 1) \<le> bs ! (n - 1))"
    by (rule top_bit_div) (rule assms(4))
  moreover have "wsub 16 (2 ^ lb) 1 = 2 ^ lb - 1" "wshl 16 1 lb = 2 ^ lb" "wrap 8 (2 ^ lb - 1) = 2 ^ lb - 1"
    using pow_le_256 [OF assms(5)] by (simp_all add: wsub_small wshl_def)
  ultimately show ?thesis using pow_le_256 [OF assms(5)] by (simp add: shift_fill_def wshr_def wmul_def)
qed

lemma get_shift_bound:
  assumes "get_shift n lb cs = (i, s)" "0 < n" "0 < lb"
  shows "i < n" "s < lb" "cs ! 0 mod (n * lb) = lb * i + s"
proof -
  have e: "i = cs ! 0 mod (n * lb) div lb" "s = cs ! 0 mod (n * lb) mod lb"
    using assms(1) by (simp_all add: get_shift_def Let_def)
  have "cs ! 0 mod (n * lb) < n * lb" using assms by simp
  then show "i < n" unfolding e by (rule less_mult_imp_div_less)
  show "s < lb" "cs ! 0 mod (n * lb) = lb * i + s" unfolding e using assms(3) by simp_all
qed

lemma run_shift_limbs:
  assumes run: "run_shift n lb op bs cs = (as, i, s)"
    and b: "limbs_ok lb bs" "length bs = n" and n: "0 < n" and lb: "0 < lb" "lb \<le> 8"
  shows "get_shift n lb cs = (i, s)" "length as = n" "limbs_ok lb as"
    "shift_limbs n lb op i s bs as (\<lambda>k. shift_carry lb op s (bs ! k))"
proof -
  show g: "get_shift n lb cs = (i, s)"
    using run by (cases op) (auto simp: run_shift_left_def run_shift_right_def Let_def split: prod.splits)
  note gs = get_shift_bound [OF g n lb(1)]
  have bk: "bs ! k < 2 ^ lb" if "k < n" for k using b that by (simp add: list_all_length)
  note carry = shift_carry_eq [OF bk gs(2) lb(2)]
  show "length as = n"
    using run g by (cases op) (auto simp: run_shift_left_def run_shift_right_def Let_def)
  consider "op = SLL" | lg where "op \<noteq> SLL" "run_shift n lb op bs cs = run_shift_right n lb bs cs lg" "lg \<longleftrightarrow> op = SRL"
    by (cases op) auto
  then have "limbs_ok lb as \<and> shift_limbs n lb op i s bs as (\<lambda>k. shift_carry lb op s (bs ! k))"
  proof cases
    case 1
    note limb = shift_left_limb [OF bk bk gs(2) lb(2)]
    have a: "as = map (\<lambda>j. if i \<le> j then wrap 8 (if j > i
        then (wshl 16 (bs ! (j - i)) s OR wshr (bs ! (j - i - 1)) (lb - s)) mod wshl 16 1 lb
        else wshl 16 (bs ! (j - i)) s mod wshl 16 1 lb) else 0) [0..<n]"
      using run 1 g by (simp add: run_shift_left_def)
    have "as ! j < 2 ^ lb" if "j < n" for j
      using that limb(2) [of "j - i" "j - i - 1"] limb(4) [of "j - i" 0] n by (auto simp: a)
    moreover have "bs ! k * 2 ^ s + (if k = 0 then 0 else shift_carry lb op s (bs ! (k - 1))) =
        as ! (k + i) + 2 ^ lb * shift_carry lb op s (bs ! k)" if "k < n - i" for k
      using that limb(1) [of k "k - 1"] limb(3) [of k] n carry(1) [of k] carry(1) [of "k - 1"] 1
      by (cases k) (simp_all add: a)
    moreover have "as ! j = 0" if "j < i" for j using that gs(1) by (simp add: a)
    ultimately show ?thesis using carry(2)
      unfolding shift_limbs_def if_P [OF 1] list_all_length \<open>length as = n\<close> by blast
  next
    case (2 lg)
    let ?\<sigma> = "of_bool (op = SRA \<and> 2 ^ (lb - 1) \<le> bs ! (n - 1)) :: nat"
    have fill: "shift_fill n lb lg bs = ?\<sigma> * (2 ^ lb - 1)"
      using shift_fill_eq [OF b n lb] 2(1,3) by (cases op) simp_all
    let ?y = "\<lambda>j. if j + i + 1 < n then bs ! (j + i + 1) else ?\<sigma> * (2 ^ lb - 1)"
    have y: "?y j < 2 ^ lb" for j using bk by auto
    have a: "as = map (\<lambda>j. if j < n - i then wrap 8 ((wshr (bs ! (j + i)) s OR wshl 16 (?y j) (lb - s)) mod wshl 16 1 lb)
        else ?\<sigma> * (2 ^ lb - 1)) [0..<n]"
      using run g by (simp only: 2(2) run_shift_right_def Let_def prod.case fill prod.inject)
    note limb = shift_right_limb [OF bk y gs(2) lb(2)]
    have ysm: "?y j mod 2 ^ s = (if j + i = n - 1 then ?\<sigma> * (2 ^ s - 1) else shift_carry lb op s (bs ! (j + i + 1)))"
      if "j < n - i" for j
    proof (cases "j + i + 1 < n")
      case True
      then show ?thesis using carry(1) [of "j + i + 1"] 2(1) by simp
    next
      case False
      have "(2 ^ lb - 1 :: nat) mod 2 ^ s = 2 ^ s - 1"
        using gs(2) by (intro pow_minus_1_mod) simp
      then show ?thesis using False that by (auto simp: )
    qed
    have "as ! j < 2 ^ lb" if "j < n" for j using that limb(2) [of "j + i" j] y by (auto simp: a)
    moreover have "as ! j * 2 ^ s + shift_carry lb op s (bs ! (j + i)) =
        (if j + i = n - 1 then ?\<sigma> * (2 ^ s - 1) else shift_carry lb op s (bs ! (j + i + 1))) * 2 ^ lb + bs ! (j + i)"
      if j: "j < n - i" for j
    proof -
      have ji: "j + i < n" using j by simp
      have "as ! j = wrap 8 ((wshr (bs ! (j + i)) s OR wshl 16 (?y j) (lb - s)) mod wshl 16 1 lb)"
        unfolding a using j by simp
      then show ?thesis unfolding ysm [OF j, symmetric]
        using limb(1) [OF ji, of j] carry(1) [OF ji, of op] 2(1) by (simp only: if_False)
    qed
    moreover have "as ! j = ?\<sigma> * (2 ^ lb - 1)" if "n - i \<le> j" "j < n" for j using that by (simp add: a)
    ultimately show ?thesis using 2(1) carry(2) \<open>length as = n\<close>
      by (simp add: shift_limbs_def Let_def list_all_length)
  qed
  then show "limbs_ok lb as" "shift_limbs n lb op i s bs as (\<lambda>k. shift_carry lb op s (bs ! k))" by blast+
qed

lemma limb_shift_complete:
  fixes cols :: "'f::field shift_cols"
  assumes lim: "shift_limbs n lb op i s bs as c"
    and a: "sh_a cols = fels as" "length as = n" and b: "sh_b cols = fels bs" "length bs = n"
    and carry: "\<And>k. k < n \<Longrightarrow> bit_shift_carry cols ! k = of_nat (c k)"
    and sll: "opcode_sll_flag cols = from_bool (op = SLL)" and rs: "right_shift cols = from_bool (op \<noteq> SLL)"
    and mult: "bit_multiplier_left cols = of_nat (2 ^ s) * from_bool (op = SLL)"
      "bit_multiplier_right cols = of_nat (2 ^ s) * from_bool (op \<noteq> SLL)"
    and sign: "sh_b_sign cols = from_bool (op = SRA \<and> 2 ^ (lb - 1) \<le> bs ! (n - 1))"
    and i: "i < n" and j: "j < n"
  shows "satisfied (limb_shift_left lb cols i j) \<and> satisfied (limb_shift_right n lb cols i j)"
proof (cases "op = SLL")
  case True
  have "satisfied (limb_shift_left lb cols i j)"
  proof (cases "j < i")
    case True
    then show ?thesis using lim \<open>op = SLL\<close> a j by (simp add: limb_shift_left_def shift_limbs_def)
  next
    case False
    let ?k = "j - i"
    have "?k < n - i" using False j by simp
    then have "bs ! ?k * 2 ^ s + (if ?k = 0 then 0 else c (?k - 1)) = as ! (?k + i) + 2 ^ lb * c ?k"
      using lim unfolding shift_limbs_def if_P [OF \<open>op = SLL\<close>] by blast
    then have "of_nat (bs ! ?k * 2 ^ s + (if ?k = 0 then 0 else c (?k - 1))) = (of_nat (as ! j + 2 ^ lb * c ?k) :: 'f)"
      using False by simp
    then have "of_nat (as ! j) = (if ?k = 0 then 0 else of_nat (c (?k - 1))) + of_nat (bs ! ?k) * of_nat (2 ^ s) -
        of_nat (2 ^ lb) * (of_nat (c ?k) :: 'f)"
      by (cases "?k = 0") (simp_all add: algebra_simps)
    then show ?thesis using \<open>op = SLL\<close> False i j a b carry [of ?k] carry [of "?k - 1"] sll mult
      by (simp add: limb_shift_left_def Let_def)
  qed
  then show ?thesis using True rs mult sign by (simp add: limb_shift_right_def Let_def)
next
  case False
  let ?\<sigma> = "of_bool (op = SRA \<and> 2 ^ (lb - 1) \<le> bs ! (n - 1)) :: nat"
  have sg: "sh_b_sign cols = of_nat ?\<sigma>" unfolding sign by (simp add: from_bool_def)
  have "satisfied (limb_shift_right n lb cols i j)"
  proof (cases "j + i > n - 1")
    case True
    then have "as ! j = ?\<sigma> * (2 ^ lb - 1)" using lim \<open>op \<noteq> SLL\<close> j i by (simp add: shift_limbs_def Let_def)
    then have "sh_a cols ! j = of_nat ?\<sigma> * of_nat (2 ^ lb - 1)" using a j by (simp only: nth_map of_nat_mult)
    then show ?thesis unfolding limb_shift_right_def Let_def if_P [OF True] sg rs using False by simp
  next
    case nt: False
    let ?y = "if j + i = n - 1 then ?\<sigma> * (2 ^ s - 1) else c (j + i + 1)"
    have ji: "j + i < n" "j < n - i" using nt i j by linarith+
    have "as ! j * 2 ^ s + c (j + i) = ?y * 2 ^ lb + bs ! (j + i)"
      using lim \<open>op \<noteq> SLL\<close> ji(2) by (simp only: shift_limbs_def Let_def if_False)
    then have "of_nat (as ! j * 2 ^ s + c (j + i)) = (of_nat (?y * 2 ^ lb + bs ! (j + i)) :: 'f)" by (simp only:)
    then have e: "of_nat (as ! j) * of_nat (2 ^ s) = of_nat ?y * of_nat (2 ^ lb) + (of_nat (bs ! (j + i)) - of_nat (c (j + i)) :: 'f)"
      by (simp only: of_nat_add of_nat_mult) (simp add: algebra_simps)
    have y: "(if j + i = n - 1 then sh_b_sign cols * (of_nat (2 ^ s) - 1) else bit_shift_carry cols ! (j + i + 1)) = of_nat ?y"
      using carry [of "j + i + 1"] ji unfolding sg by (cases "j + i = n - 1") (simp_all add: of_nat_diff)
    have "bit_multiplier_right cols = of_nat (2 ^ s)" "right_shift cols = 1" using mult rs False by simp_all
    then show ?thesis unfolding limb_shift_right_def Let_def if_not_P [OF nt]
      using e a b ji j carry [of "j + i"] by (simp only: satisfied.simps mult_1_right mult_1_left y nth_map)
  qed
  then show ?thesis using False sll mult by (simp add: limb_shift_left_def Let_def)
qed

definition shift_lookups :: "shift_air \<Rightarrow> lookup_request list \<Rightarrow> 'f::field interaction list" where
  "shift_lookups air reqs =
     concat (map (bitwise_lookup (sh_bus air)) reqs) @ concat (map (var_range_lookup (sh_range_bus air)) reqs)"

lemma shift_amount_request:
  assumes "get_shift n lb cs = (i, s)" "n * lb = 2 ^ e" "e \<le> lb" "cs ! 0 < 2 ^ lb" "lb \<le> 8" "0 < n" "0 < lb"
  defines "v \<equiv> wrap 32 (wshr (wsub 64 (wsub 64 (cs ! 0) s) (i * lb)) (ilog2 (n * lb)))"
  shows "ilog2 (n * lb) = e" "v < 2 ^ (lb - e)" "cs ! 0 = n * lb * v + i * lb + s"
proof -
  let ?c = "cs ! 0"
  note gs = get_shift_bound [OF assms(1,6,7)]
  show il: "ilog2 (n * lb) = e" unfolding assms(2) by (rule ilog2_eq) simp_all
  have c8: "?c < 256" using assms(4) pow_le_256 [OF assms(5)] by linarith
  have c: "?c = n * lb * (?c div (n * lb)) + (lb * i + s)" unfolding gs(3) [symmetric] by simp
  then have le: "lb * i + s \<le> ?c" by linarith
  have "wsub 64 ?c s = ?c - s" by (rule wsub_small) (use le c8 in simp_all)
  moreover have "wsub 64 (?c - s) (i * lb) = ?c - s - i * lb"
    by (rule wsub_small) (use le c8 in \<open>simp_all add: mult.commute\<close>)
  moreover have "?c - s - i * lb = n * lb * (?c div (n * lb))" using c by (simp add: mult.commute [of i])
  moreover have "?c div (n * lb) < 2 ^ 32" by (rule le_less_trans [OF div_le_dividend]) (use c8 in simp)
  ultimately have v: "v = ?c div (n * lb)" unfolding v_def il wshr_def by (simp add: assms(2))
  have "(2::nat) ^ lb = 2 ^ (lb - e) * 2 ^ e" using assms(3) by (simp flip: power_add)
  then show "v < 2 ^ (lb - e)" unfolding v assms(2) using assms(4) by (simp add: less_mult_imp_div_less)
  show "?c = n * lb * v + i * lb + s" using c unfolding v by (simp add: mult.commute)
qed

lemma shift_fill_complete:
  fixes cols :: "'f::field shift_cols"
  assumes fill: "shift_fill_core n lb op rec = (cols, reqs)"
    and b: "limbs_ok lb (shr_b rec)" "length (shr_b rec) = n" and c: "limbs_ok lb (shr_c rec)" "length (shr_c rec) = n"
    and n: "even n" "0 < n" and lb: "0 < lb" "lb \<le> 8" and e: "n * lb = 2 ^ e" "e \<le> lb"
    and m: "lb \<le> range_max_bits (sh_range_bus air)" and char: "2 ^ lb < CHAR('f)"
  shows "all_satisfied (fst (shift_eval n lb air cols))"
    and "mset (active (fst (snd (shift_eval n lb air cols)))) = mset (shift_lookups air reqs)"
    and "list_all (bitwise_request_ok lb) reqs \<and> list_all (var_range_request_ok (range_max_bits (sh_range_bus air))) reqs"
    and "core_ctx (shift_eval n lb air cols) = shift_ctx n lb air op (shr_b rec) (shr_c rec)"
    and "sh_a cols = fels (fst (run_shift n lb op (shr_b rec) (shr_c rec)))"
proof -
  let ?b = "shr_b rec" and ?c = "shr_c rec"
  obtain as i s where run: "run_shift n lb op ?b ?c = (as, i, s)" by (metis prod.exhaust)
  note R = run_shift_limbs [OF run b n(2) lb]
  note G = get_shift_bound [OF R(1) n(2) lb(1)]
  define v where "v = wrap 32 (wshr (wsub 64 (wsub 64 (?c ! 0) s) (i * lb)) (ilog2 (n * lb)))"
  have c0: "?c ! 0 < 2 ^ lb" using c n(2) by (simp add: list_all_length)
  note V = shift_amount_request [OF R(1) e c0 lb(2) n(2) lb(1), folded v_def]
  let ?top = "?b ! (n - 1)"
  have top: "?top < 2 ^ lb" using b n(2) by (simp add: list_all_length)
  let ?sg = "from_bool (op = SRA \<and> 2 ^ (lb - 1) \<le> ?top) :: 'f"
  let ?carries = "map (shift_carry lb op s) ?b"
  have sg: "(if op = SRA then of_nat (wshr ?top (lb - 1)) else 0) = ?sg"
    using top_bit_div [OF top lb(1)] by (simp add: wshr_def from_bool_def)
  have cols: "cols = \<lparr>sh_a = fels as, sh_b = fels ?b, sh_c = fels ?c,
      opcode_sll_flag = from_bool (op = SLL), opcode_srl_flag = from_bool (op = SRL),
      opcode_sra_flag = from_bool (op = SRA),
      bit_multiplier_left = (if op = SLL then of_nat (2 ^ s) else 0),
      bit_multiplier_right = (if op = SLL then 0 else of_nat (2 ^ s)), sh_b_sign = ?sg,
      bit_shift_marker = (replicate lb 0)[s := 1], limb_shift_marker = (replicate n 0)[i := 1],
      bit_shift_carry = fels ?carries\<rparr>"
    and reqs: "reqs = map (\<lambda>(x, y). Request_range x y) (chunks2 as) @ [Add_count v (lb - e)] @
      map (\<lambda>carry. Add_count carry s) ?carries @ (if op = SRA then [Request_xor ?top (2 ^ (lb - 1))] else [])"
    using fill unfolding shift_fill_core_def Let_def run prod.case sg v_def V(1) by simp_all
  show "sh_a cols = fels (fst (run_shift n lb op ?b ?c))" by (simp add: cols run)
  note ev = shift_eval_def [of n lb air cols, unfolded Let_def]
  have f: "fold (\<lambda>i acc. acc + bit_shift_marker cols ! i) [0..<lb] 0 = 1"
      "fold (\<lambda>i acc. acc + of_nat i * bit_shift_marker cols ! i) [0..<lb] 0 = of_nat s"
      "fold (\<lambda>i acc. acc + limb_shift_marker cols ! i) [0..<n] 0 = 1"
      "fold (\<lambda>i acc. acc + of_nat i * limb_shift_marker cols ! i) [0..<n] 0 = of_nat i"
    using marker_fold [OF G(2), where 'f = 'f] marker_fold [OF G(1), where 'f = 'f] by (simp_all add: cols)
  have valid: "opcode_sll_flag cols + opcode_srl_flag cols + opcode_sra_flag cols = 1" by (cases op) (simp_all add: cols)
  have rs: "right_shift cols = from_bool (op \<noteq> SLL)" by (cases op) (simp_all add: cols right_shift_def)
  have limb: "satisfied (limb_shift_left lb cols i j) \<and> satisfied (limb_shift_right n lb cols i j)" if "j < n" for j
  proof (rule limb_shift_complete [OF R(4) _ R(2) _ b(2) _ _ rs _ _ _ G(1) that])
    show "bit_shift_carry cols ! k = of_nat (shift_carry lb op s (?b ! k))" if "k < n" for k
      using that b(2) by (simp add: cols)
  qed (simp_all add: cols)
  have mk: "bit_shift_marker cols ! j = (if j = s then 1 else 0)" if "j < lb" for j
    using that G(2) by (simp add: cols)
  have mkl: "limb_shift_marker cols ! j = (if j = i then 1 else 0)" if "j < n" for j
    using that G(1) by (simp add: cols)
  have ms: "bit_multiplier_left cols = of_nat (2 ^ s) * opcode_sll_flag cols"
      "bit_multiplier_right cols = of_nat (2 ^ s) * right_shift cols"
    using rs by (simp_all add: cols)
  have "all_satisfied (bit_shift_assertions cols j)" if "j < lb" for j
    by (simp add: bit_shift_assertions_def Let_def mk [OF that] ms)
  moreover have "all_satisfied (limb_shift_assertions n lb cols j)" if "j < n" for j
    using limb by (simp add: limb_shift_assertions_def Let_def mkl [OF that])
  ultimately show "all_satisfied (fst (shift_eval n lb air cols))"
    unfolding ev using f by (cases op) (auto simp: cols not_f_def from_bool_def)
  show "list_all (bitwise_request_ok lb) reqs \<and> list_all (var_range_request_ok (range_max_bits (sh_range_bus air))) reqs"
  proof -
    have "list_all (\<lambda>(x, y). x < 2 ^ lb \<and> y < 2 ^ lb) (chunks2 as)"
      using R(2,3) n(1) by (auto simp: chunks2_nth list_all_length elim!: evenE)
    moreover have "shift_carry lb op s x < 2 ^ s" if "x \<in> set ?b" for x
      using that b(1) shift_carry_eq(2) [OF _ G(2) lb(2)] by (auto simp: list_all_iff)
    moreover have "(2::nat) ^ (lb - 1) < 2 ^ lb" using lb by (intro power_strict_increasing) simp_all
    ultimately show ?thesis unfolding reqs using V(2) m G(2) top by (auto simp: list_all_iff)
  qed
  have nz: "of_nat (n * lb) \<noteq> (0 :: 'f)"
  proof -
    have "(2::nat) ^ e \<le> 2 ^ lb" using e(2) by (intro power_increasing) simp_all
    then have "n * lb < CHAR('f)" using e(1) char by linarith
    then show ?thesis using n(2) lb(1) by (subst of_nat_eq_0_char) simp_all
  qed
  have amount: "(of_nat (?c ! 0) - of_nat i * of_nat lb - of_nat s) * inverse (of_nat (n * lb)) = (of_nat v :: 'f)"
  proof -
    have "of_nat (?c ! 0) = (of_nat (n * lb * v + i * lb + s) :: 'f)" by (simp only: V(3) [symmetric])
    then have "of_nat (?c ! 0) - of_nat i * of_nat lb - of_nat s = (of_nat v * of_nat (n * lb) :: 'f)"
      by (simp add: algebra_simps)
    then show ?thesis by (simp only: mult.assoc right_inverse [OF nz] mult_1_right)
  qed
  show "core_ctx (shift_eval n lb air cols) = shift_ctx n lb air op ?b ?c"
  proof -
    have "as = to_limbs lb n (shift_spec n lb op ?b (?c ! 0 mod (n * lb)))"
      unfolding G(3) shift_limbs_value [OF R(4,3,2) b(2,1) G(1), symmetric]
      using to_limbs_val [OF R(3)] R(2) by simp
    then show ?thesis unfolding ev shift_ctx_def
      by (cases op) (simp_all add: cols expr_to_global_expr_def expected_opcode_def upt_rec)
  qed
  show "mset (active (fst (snd (shift_eval n lb air cols)))) = mset (shift_lookups air reqs)"
  proof -
    let ?bus = "sh_bus air" and ?rb = "sh_range_bus air"
    have pairs: "map (\<lambda>i. send_range ?bus (sh_a cols ! (i * 2)) (sh_a cols ! (i * 2 + 1)) (1 :: 'f)) [0..<n div 2] =
        concat (map (bitwise_lookup ?bus) (map (\<lambda>(x, y). Request_range x y) (chunks2 as)))"
      unfolding range_lookups by (rule nth_equalityI) (use R(2) n(1) in \<open>auto simp: chunks2_nth cols air_defs elim!: evenE\<close>)
    have carries: "map (\<lambda>carry. var_range_send ?rb carry (of_nat s) (1 :: 'f)) (bit_shift_carry cols) =
        concat (map (var_range_lookup ?rb) (map (\<lambda>carry. Add_count carry s) ?carries))"
      unfolding count_lookups by (simp add: cols air_defs)
    have key: "sh_b cols ! (n - 1) = of_nat ?top" "sh_c cols ! 0 = of_nat (?c ! 0)" using b(2) c(2) n(2) by (simp_all add: cols)
    have xor: "op = SRA \<Longrightarrow> of_nat ?top + of_nat (2 ^ (lb - 1)) - of_nat 2 * (sh_b_sign cols * of_nat (2 ^ (lb - 1))) = of_nat (?top XOR 2 ^ (lb - 1))"
      using sign_lookup_complete [OF top lb(1), where 'f = 'f] by (simp add: cols)
    have v1: "fold (\<lambda>flag acc. acc + flag) [opcode_sll_flag cols, opcode_srl_flag cols, opcode_sra_flag cols] 0 = 1"
      using valid by simp
    have none: "concat (map (var_range_lookup ?rb) (map (\<lambda>(x, y). Request_range x y) xs)) = ([] :: 'f interaction list)"
      "concat (map (bitwise_lookup ?bus) (map (\<lambda>carry. Add_count carry s) ys)) = ([] :: 'f interaction list)" for xs ys
      by (auto simp: comp_def)
    show ?thesis unfolding ev fst_conv snd_conv f v1 pairs carries key amount V(1) reqs shift_lookups_def
      using xor by (cases op) (auto simp: active_lookups none air_defs cols simp del: map_map)
  qed
qed

lemma shift_complete:
  fixes rec :: shift_record
  assumes "limbs_ok lb (shr_b rec)" "length (shr_b rec) = n" "limbs_ok lb (shr_c rec)" "length (shr_c rec) = n"
    and "even n" "0 < n" "0 < lb" "lb \<le> 8" "n * lb = 2 ^ e" "e \<le> lb"
    and "lb \<le> range_max_bits (sh_range_bus air)" "2 ^ lb < CHAR('f::field)"
    and T: "\<And>k. bitwise_table lb k \<Longrightarrow> T (sh_bus air) k"
      "\<And>k. var_range_table (range_max_bits (sh_range_bus air)) k \<Longrightarrow> T (vr_index (sh_range_bus air)) k"
  shows "accepts T (shift_eval n lb air (fst (shift_fill_core n lb op rec) :: 'f shift_cols)) \<and>
    core_ctx (shift_eval n lb air (fst (shift_fill_core n lb op rec) :: 'f shift_cols)) =
    shift_ctx n lb air op (shr_b rec) (shr_c rec)"
proof -
  obtain cols :: "'f shift_cols" and reqs where f: "shift_fill_core n lb op rec = (cols, reqs)"
    by (metis prod.exhaust)
  note c = shift_fill_complete [OF f assms(1-12)]
  have "lookups_ok T (shift_lookups air reqs :: 'f interaction list)"
    unfolding shift_lookups_def lookups_ok_simps
    using lookups_ok_bitwise [of lb reqs T] lookups_ok_var_range [of _ reqs T "sh_range_bus air"] c(3) T by blast
  then have "lookups_ok T (fst (snd (shift_eval n lb air cols)))"
    using lookups_ok_mset [OF c(2)] lookups_ok_active by blast
  then show ?thesis using c(1,4) by (simp add: f accepts_def)
qed

section \<open>The chip of the RV32 extension\<close>

definition rv32_shift_air :: "nat \<Rightarrow> shift_air" where
  "rv32_shift_air b = \<lparr>sh_bus = b + 6, sh_range_bus = vm_range_bus, sh_offset = shift_offset\<rparr>"

definition shift_row_wf :: "nat \<Rightarrow> nat \<Rightarrow> 'f::field shift_cols \<Rightarrow> bool" where
  "shift_row_wf n lb cols \<longleftrightarrow> length (sh_a cols) = n \<and> length (bit_shift_carry cols) = n \<and>
     (\<exists>bs cs. sh_b cols = fels bs \<and> sh_c cols = fels cs \<and>
       limbs_ok lb bs \<and> limbs_ok lb cs \<and> length bs = n \<and> length cs = n)"

lemma shift_ctx_functional:
  assumes "two_operands_ok n lb (op, bs, cs)" "two_operands_ok n lb (op', bs', cs')"
    and lb: "2 ^ lb < CHAR('f::field)" and off: "sh_offset air + 3 \<le> CHAR('f)"
    and eq: "reads (shift_ctx n lb air op bs cs :: ('f, _) adapter_air_context) = reads (shift_ctx n lb air op' bs' cs')"
      "instruction (shift_ctx n lb air op bs cs :: ('f, _) adapter_air_context) = instruction (shift_ctx n lb air op' bs' cs')"
  shows "op = op' \<and> bs = bs' \<and> cs = cs'"
proof -
  have "(fels bs :: 'f list) = fels bs'" "(fels cs :: 'f list) = fels cs'"
    using eq(1) by (simp_all add: shift_ctx_def)
  moreover have "op = op'"
    by (rule opcode_inject [where off = "sh_offset air" and vs = shift_opcodes and 'f = 'f])
      (use eq(2) off in \<open>simp_all add: shift_ctx_def\<close>)
  ultimately show ?thesis
    using fels_inject_limbs [OF _ _ lb] assms(1,2) by (auto simp: two_operands_ok_def)
qed

lemma rv32_shift_air_simps [simp]:
  "rv32_tables (sh_bus (rv32_shift_air b)) = (bitwise_table 8 :: 'f::field list \<Rightarrow> bool)"
  "rv32_tables (vr_index (sh_range_bus (rv32_shift_air b))) = (var_range_table 17 :: 'f list \<Rightarrow> bool)"
  "range_max_bits (sh_range_bus (rv32_shift_air b)) = 17" "sh_offset (rv32_shift_air b) = shift_offset"
  by (simp_all add: rv32_tables_def rv32_shift_air_def vm_range_bus_def)

interpretation rv32_shift: core_chip rv32_tables "shift_eval 4 8 (rv32_shift_air b)"
  "shift_row_wf 4 8 :: bb shift_cols \<Rightarrow> bool" "two_operands_ok 4 8"
  "\<lambda>(op, bs, cs). shift_ctx 4 8 (rv32_shift_air b) op bs cs"
  "\<lambda>(op, bs, cs). fst (shift_fill_core 4 8 op
     \<lparr>shr_b = bs, shr_c = cs, shr_local_opcode = repr_of shift_opcodes op\<rparr>)"
  for b
proof (unfold_locales, goal_cases)
  case (1 cols)
  then obtain bs cs where r: "sh_b cols = fels bs" "sh_c cols = fels cs" "limbs_ok 8 bs"
      "limbs_ok 8 cs" "length bs = 4" "length cs = 4" "length (sh_a cols) = 4" "length (bit_shift_carry cols) = 4"
    by (auto simp: shift_row_wf_def)
  obtain op where "core_ctx (shift_eval 4 8 (rv32_shift_air b) cols) = shift_ctx 4 8 (rv32_shift_air b) op bs cs"
    using shift_eval_sound [OF 1(2) _ _ 1(3) r(1,3,5) r(2,4,6) r(7,8)]
    by (auto simp: bb_CHAR)
  with r show ?case by (intro exI [of _ "(op, bs, cs)"]) (simp add: two_operands_ok_def)
next
  case (2 x)
  obtain op bs cs where x: "x = (op, bs, cs)" by (cases x) auto
  show ?case unfolding x prod.case
    using shift_complete [where lb = 8 and n = 4 and op = op and e = 5
        and rec = "\<lparr>shr_b = bs, shr_c = cs, shr_local_opcode = repr_of shift_opcodes op\<rparr>"
        and air = "rv32_shift_air b" and T = rv32_tables and 'f = bb] 2
    by (simp add: x two_operands_ok_def bb_CHAR)
next
  case (3 x y)
  then show ?case
    using shift_ctx_functional [where n = 4 and lb = 8 and 'f = bb and air = "rv32_shift_air b"]
    by (fastforce simp: bb_CHAR shift_offset_def split: prod.splits)
qed

section \<open>Properties\<close>

text \<open>
  C17. An accepted valid row of the shift chip writes the first operand shifted by the low limb of
  the second modulo the number of bits: to the left, to the right with zeros, or to the right with
  copies of the sign. The shift amount, the moved bits and the sign are all forced by the constraints.
\<close>

theorem shift_air_sound:
  fixes cols :: "'f::field shift_cols"
  assumes "accepts T (shift_eval n lb air cols)"
    and "\<And>k. T (sh_bus air) k \<Longrightarrow> bitwise_table lb k"
    and "\<And>k. T (vr_index (sh_range_bus air)) k \<Longrightarrow> var_range_table (range_max_bits (sh_range_bus air)) k"
    and "is_valid (instruction (core_ctx (shift_eval n lb air cols))) = 1"
    and "sh_b cols = fels bs" "limbs_ok lb bs" "length bs = n"
    and "sh_c cols = fels cs" "limbs_ok lb cs" "length cs = n"
    and "length (sh_a cols) = n" "length (bit_shift_carry cols) = n"
    and "even n" "0 < n" "n * lb \<le> 2 ^ lb" "0 < lb"
    and "2 ^ (2 * lb) < CHAR('f)" "2 ^ (lb + 2) < CHAR('f)" "range_max_bits (sh_range_bus air) < CHAR('f)"
  shows "\<exists>op. core_ctx (shift_eval n lb air cols) =
    \<lparr>to_pc = None, reads = [fels bs, fels cs],
     writes = [fels (to_limbs lb n
       (let sh = cs ! 0 mod (n * lb) in
        case op of SLL \<Rightarrow> limbs_val lb bs * 2 ^ sh mod 2 ^ (lb * n)
                 | SRL \<Rightarrow> limbs_val lb bs div 2 ^ sh
                 | SRA \<Rightarrow> nat (sval lb True bs div 2 ^ sh mod 2 ^ (lb * n))))],
     instruction = \<lparr>is_valid = 1, opcode = of_nat (sh_offset air + repr_of shift_opcodes op)\<rparr>\<rparr>"
proof -
  have "shift_spec n lb op bs sh = (case op of SLL \<Rightarrow> limbs_val lb bs * 2 ^ sh mod 2 ^ (lb * n)
      | SRL \<Rightarrow> limbs_val lb bs div 2 ^ sh | SRA \<Rightarrow> nat (sval lb True bs div 2 ^ sh mod 2 ^ (lb * n)))" for op sh
    by (cases op) simp_all
  then show ?thesis using shift_eval_sound [OF assms] unfolding shift_ctx_def Let_def by simp
qed

theorem shift_air_sound_witness:
  "let cols = fst (shift_fill_core 4 8 SRA \<lparr>shr_b = [0, 0, 0, 200], shr_c = [36, 0, 0, 0], shr_local_opcode = 2\<rparr>) :: bb shift_cols
   in \<exists>op. writes (core_ctx (shift_eval 4 8 (rv32_shift_air 0) cols)) =
     [fels (to_limbs 8 4 (let sh = 4 in
        case op of SLL \<Rightarrow> limbs_val 8 [0, 0, 0, 200] * 2 ^ sh mod 2 ^ 32
                 | SRL \<Rightarrow> limbs_val 8 [0, 0, 0, 200] div 2 ^ sh
                 | SRA \<Rightarrow> nat (sval 8 True [0, 0, 0, 200] div 2 ^ sh mod 2 ^ 32)))]"
proof -
  let ?r = "\<lparr>shr_b = [0, 0, 0, 200], shr_c = [36, 0, 0, 0], shr_local_opcode = 2\<rparr>"
  let ?cols = "fst (shift_fill_core 4 8 SRA ?r) :: bb shift_cols"
  let ?air = "rv32_shift_air 0"
  have c: "accepts rv32_tables (shift_eval 4 8 ?air ?cols) \<and>
      core_ctx (shift_eval 4 8 ?air ?cols) = shift_ctx 4 8 ?air SRA (shr_b ?r) (shr_c ?r)"
    by (rule shift_complete [where e = 5]) (simp_all add: bb_CHAR)
  obtain cols reqs where f: "shift_fill_core 4 8 SRA ?r = (cols :: bb shift_cols, reqs)" by (metis prod.exhaust)
  have cols: "sh_b ?cols = fels [0, 0, 0, 200]" "sh_c ?cols = fels [36, 0, 0, 0]" "length (bit_shift_carry ?cols) = 4"
    by (simp_all add: shift_fill_core_def Let_def split: prod.splits)
  have len: "length (sh_a ?cols) = 4" using c by (simp add: shift_eval_def Let_def shift_ctx_def)
  have "is_valid (instruction (core_ctx (shift_eval 4 8 ?air ?cols))) = 1" using c by (simp add: shift_ctx_def)
  from shift_air_sound [OF conjunct1 [OF c] _ _ this cols(1) _ _ cols(2) _ _ len cols(3)]
  have "\<exists>op. writes (core_ctx (shift_eval 4 8 ?air ?cols)) = [fels (to_limbs 8 4 (let sh = [36, 0, 0, 0] ! 0 mod (4 * 8) in
        case op of SLL \<Rightarrow> limbs_val 8 [0, 0, 0, 200] * 2 ^ sh mod 2 ^ (8 * 4)
                 | SRL \<Rightarrow> limbs_val 8 [0, 0, 0, 200] div 2 ^ sh
                 | SRA \<Rightarrow> nat (sval 8 True [0, 0, 0, 200] div 2 ^ sh mod 2 ^ (8 * 4))))]"
    by (auto simp: bb_CHAR)
  moreover have "[36, 0, 0, 0] ! 0 mod (4 * 8) = (4 :: nat)" "8 * 4 = (32 :: nat)" by simp_all
  ultimately show ?thesis unfolding Let_def by (simp only:)
qed

text \<open>
  C18. The row the shift filler writes satisfies every constraint, its active lookups are, up to their
  order, exactly the requests the filler made of the bitwise chip and the range checker, every
  request is one the chips serve, and it writes the result of \<open>run_shift\<close>, which the executor runs.
\<close>

theorem shift_filled_row:
  fixes cols :: "'f::field shift_cols"
  assumes "shift_fill_core n lb op rec = (cols, reqs)" "shift_eval n lb air cols = (as, is, ctx)"
    and "limbs_ok lb (shr_b rec)" "length (shr_b rec) = n" "limbs_ok lb (shr_c rec)" "length (shr_c rec) = n"
    and "even n" "0 < n" "0 < lb" "lb \<le> 8" "n * lb = 2 ^ e" "e \<le> lb"
    and "lb \<le> range_max_bits (sh_range_bus air)" "2 ^ lb < CHAR('f)"
  shows "all_satisfied as \<and> is_valid (instruction ctx) = 1 \<and>
    mset (active is) = mset (concat (map (bitwise_lookup (sh_bus air)) reqs) @
      concat (map (var_range_lookup (sh_range_bus air)) reqs)) \<and>
    list_all (bitwise_request_ok lb) reqs \<and> list_all (var_range_request_ok (range_max_bits (sh_range_bus air))) reqs \<and>
    writes ctx = [fels (fst (run_shift n lb op (shr_b rec) (shr_c rec)))]"
proof -
  note c = shift_fill_complete [OF assms(1,3-14)]
  have "writes ctx = [sh_a cols]" using assms(2) by (auto simp: shift_eval_def Let_def)
  then show ?thesis using c by (simp add: assms(2) shift_ctx_def shift_lookups_def)
qed

theorem shift_filled_row_witness:
  "let (cols, reqs) = shift_fill_core 4 8 SRA \<lparr>shr_b = [0, 0, 0, 200], shr_c = [36, 0, 0, 0], shr_local_opcode = 2\<rparr>;
       (as, is, ctx) = shift_eval 4 8 (rv32_shift_air 0) cols
   in all_satisfied as \<and> writes ctx = [fels [0, 0, 128, 252] :: bb list]"
proof -
  let ?r = "\<lparr>shr_b = [0, 0, 0, 200], shr_c = [36, 0, 0, 0], shr_local_opcode = 2\<rparr>"
  obtain cols reqs where f: "shift_fill_core 4 8 SRA ?r = (cols :: bb shift_cols, reqs)" by (metis prod.exhaust)
  obtain as "is" ctx where e: "shift_eval 4 8 (rv32_shift_air 0) cols = (as, is, ctx)" by (metis prod.exhaust)
  have r: "fst (run_shift 4 8 SRA [0, 0, 0, 200] [36, 0, 0, 0]) = [0, 0, 128, 252]"
    by (simp add: run_shift_right_def get_shift_def shift_fill_def width_defs upt_rec)
  show ?thesis
    using shift_filled_row [OF f e, of 5] r
    by (simp add: f e bb_CHAR)
qed

end
