(* ===== verification/Limb_Products.thy ===== *)
theory Limb_Products
  imports Core_Lemmas
begin

text \<open>
  Products of numbers in limbs, as \<open>mul/core.rs\<close>, \<open>mulh/core.rs\<close> and \<open>divrem/core.rs\<close> compute
  them: a sum of products per limb, reduced with a carry into the next. The AIR defines the carries
  by division in the field, the executor by a shift; both satisfy the same equations, which give the
  product modulo a power of the base.
\<close>

section \<open>Carries\<close>

text \<open>The array \<open>carry\<close> of the AIRs: \<open>s\<close> the expected limbs, \<open>a\<close> the columns, \<open>c\<close> the carry in.\<close>

fun carry_col :: "nat \<Rightarrow> (nat \<Rightarrow> 'f::field) \<Rightarrow> (nat \<Rightarrow> 'f) \<Rightarrow> 'f \<Rightarrow> nat \<Rightarrow> 'f" where
  "carry_col lb s a c 0 = inverse (of_nat (2 ^ lb)) * (c + s 0 - a 0)"
| "carry_col lb s a c (Suc i) = inverse (of_nat (2 ^ lb)) * (carry_col lb s a c i + s (Suc i) - a (Suc i))"

text \<open>
  The loop of the executors over limbs: \<open>acc i carry\<close> is the sum for limb \<open>i\<close> in \<open>u32\<close>; the limb and
  the next carry are its low and high part.
\<close>

fun limb_loop :: "nat \<Rightarrow> (nat \<Rightarrow> nat \<Rightarrow> nat) \<Rightarrow> nat \<Rightarrow> nat list \<Rightarrow> (nat \<times> nat) list" where
  "limb_loop lb acc carry [] = []"
| "limb_loop lb acc carry (i # is) =
     (let res = acc i carry; carry' = wshr res lb
      in (res mod wshl 32 1 lb, carry') # limb_loop lb acc carry' is)"

text \<open>What both satisfy.\<close>

definition carries :: "nat \<Rightarrow> nat \<Rightarrow> (nat \<Rightarrow> nat) \<Rightarrow> (nat \<Rightarrow> nat) \<Rightarrow> nat \<Rightarrow> (nat \<Rightarrow> nat) \<Rightarrow> bool" where
  "carries n lb S x c k \<longleftrightarrow> (\<forall>i<n. S i + (if i = 0 then c else k (i - 1)) = x i + 2 ^ lb * k i)"

lemma carries_cong:
  assumes "\<And>i. i < n \<Longrightarrow> S i = S' i" "\<And>i. i < n \<Longrightarrow> x i = x' i" "\<And>i. i < n \<Longrightarrow> k i = k' i"
  shows "carries n lb S x c k \<longleftrightarrow> carries n lb S' x' c k'"
  unfolding carries_def using assms by (intro all_cong) simp

lemma carry_col_unfold:
  "carry_col lb s a c i = inverse (of_nat (2 ^ lb)) * ((if i = 0 then c else carry_col lb s a c (i - 1)) + s i - a i)"
  by (cases i) simp_all

lemma carry_col_sound:
  fixes s a :: "nat \<Rightarrow> 'f::field"
  assumes s: "\<And>i. i < n \<Longrightarrow> s i = of_nat (S i)" and a: "\<And>i. i < n \<Longrightarrow> a i = of_nat (x i) \<and> x i < 2 ^ lb"
    and k: "\<And>i. i < n \<Longrightarrow> carry_col lb s a (of_nat c) i = of_nat (k i) \<and> k i < K" and c: "c < K"
    and S: "\<And>i. i < n \<Longrightarrow> S i \<le> M" and char: "M + K < CHAR('f)" "2 ^ lb * (K + 1) < CHAR('f)"
  shows "carries n lb S x c k"
  unfolding carries_def
proof (intro allI impI)
  fix i assume i: "i < n"
  let ?p = "if i = 0 then c else k (i - 1)"
  have "2 ^ lb * 1 \<le> (2::nat) ^ lb * (K + 1)" by (rule mult_le_mono2) simp
  then have lbC: "2 ^ lb < CHAR('f)" using char(2) by simp
  have p: "?p < K" using k [of "i - 1"] c i by simp
  have "of_nat (k i) = inverse (2 ^ lb) * (of_nat (S i) - of_nat (x i) + of_nat ?p :: 'f)"
    using carry_col_unfold [of lb s a "of_nat c" i] k [OF i] k [of "i - 1"] s [OF i] a [OF i] i
    by (cases "i = 0") (simp_all add: algebra_simps)
  moreover have "S i + ?p < CHAR('f)" using S [OF i] p char(1) by linarith
  moreover have "x i + 2 ^ lb * k i < CHAR('f)"
  proof -
    have "2 ^ lb * k i \<le> 2 ^ lb * K" using k [OF i] by (intro mult_le_mono2) simp
    then show ?thesis using a [OF i] char(2) unfolding add_mult_distrib2 by linarith
  qed
  ultimately show "S i + ?p = x i + 2 ^ lb * k i" using lbC by (intro field_carry_step [where 'f = 'f])
qed

lemma carry_col_complete:
  fixes s a :: "nat \<Rightarrow> 'f::field"
  assumes "carries n lb S x c k" and s: "\<And>i. i < n \<Longrightarrow> s i = of_nat (S i)" "\<And>i. i < n \<Longrightarrow> a i = of_nat (x i)"
    and char: "2 ^ lb < CHAR('f)" and i: "i < n"
  shows "carry_col lb s a (of_nat c) i = of_nat (k i)"
  using i
proof (induction i)
  case 0
  have "S 0 + c = x 0 + 2 ^ lb * k 0" using assms(1) 0 by (auto simp: carries_def)
  then have "of_nat (S 0 + c) = (of_nat (x 0 + 2 ^ lb * k 0) :: 'f)" by (simp only:)
  then show ?case using s [of 0] 0 two_power_neq_0_char [OF char] by (simp add: algebra_simps)
next
  case (Suc i)
  have "S (Suc i) + k i = x (Suc i) + 2 ^ lb * k (Suc i)" using assms(1) Suc.prems by (auto simp: carries_def)
  then have "of_nat (S (Suc i) + k i) = (of_nat (x (Suc i) + 2 ^ lb * k (Suc i)) :: 'f)" by (simp only:)
  then show ?case using Suc s [of "Suc i"] two_power_neq_0_char [OF char] by (simp add: algebra_simps)
qed

lemma limb_loop_carries:
  assumes acc: "\<And>i c. i < m + n \<Longrightarrow> c < K \<Longrightarrow> acc i c = S i + c"
    and S: "\<And>i. i < m + n \<Longrightarrow> S i + K \<le> 2 ^ lb * K" and c: "c < K" and lb: "lb < 32"
  defines "ps \<equiv> limb_loop lb acc c [m..<m + n]"
  shows "length ps = n \<and> (\<forall>p\<in>set ps. fst p < 2 ^ lb \<and> snd p < K) \<and>
    carries n lb (\<lambda>i. S (m + i)) (\<lambda>i. fst (ps ! i)) c (\<lambda>i. snd (ps ! i))"
  using acc S c unfolding ps_def
proof (induction n arbitrary: m c)
  case 0
  then show ?case by (simp add: carries_def)
next
  case (Suc n)
  let ?r = "S m + c"
  let ?c' = "?r div 2 ^ lb" and ?qs = "limb_loop lb acc (?r div 2 ^ lb) [Suc m..<Suc m + n]"
  have "wshl 32 1 lb = 2 ^ lb" using lb power_strict_increasing [of lb 32 "2::nat"] by (simp add: wshl_def)
  then have ps: "limb_loop lb acc c [m..<m + Suc n] = (?r mod 2 ^ lb, ?c') # ?qs"
    using Suc.prems(1) [of m c] Suc.prems(3) by (simp add: upt_conv_Cons Let_def wshr_def del: upt_Suc)
  have "?r < K * 2 ^ lb" using Suc.prems(2) [of m] Suc.prems(3) by (simp add: mult.commute)
  then have c': "?c' < K" by (rule less_mult_imp_div_less)
  have IH: "length ?qs = n \<and> (\<forall>p\<in>set ?qs. fst p < 2 ^ lb \<and> snd p < K) \<and>
      carries n lb (\<lambda>i. S (Suc m + i)) (\<lambda>i. fst (?qs ! i)) ?c' (\<lambda>i. snd (?qs ! i))"
    by (rule Suc.IH) (use Suc.prems c' in auto)
  have "carries (Suc n) lb (\<lambda>i. S (m + i)) (\<lambda>i. fst (((?r mod 2 ^ lb, ?c') # ?qs) ! i)) c
      (\<lambda>i. snd (((?r mod 2 ^ lb, ?c') # ?qs) ! i))"
    unfolding carries_def
  proof (intro allI impI)
    fix i assume i: "i < Suc n"
    show "S (m + i) + (if i = 0 then c else snd (((?r mod 2 ^ lb, ?c') # ?qs) ! (i - 1))) =
        fst (((?r mod 2 ^ lb, ?c') # ?qs) ! i) + 2 ^ lb * snd (((?r mod 2 ^ lb, ?c') # ?qs) ! i)"
    proof (cases i)
      case (Suc j)
      then show ?thesis using IH i by (cases j) (auto simp: carries_def)
    qed simp
  qed
  then show ?case unfolding ps using IH c' by simp
qed

lemma carries_value:
  assumes "carries n lb S x c k"
  shows "(\<Sum>i<n. S i * 2 ^ (lb * i)) + c = (\<Sum>i<n. x i * 2 ^ (lb * i)) + 2 ^ (lb * n) * (if n = 0 then c else k (n - 1))"
  using assms
proof (induction n)
  case (Suc n)
  let ?P = "2 ^ (lb * n) :: nat" and ?k = "if n = 0 then c else k (n - 1)"
  have "(\<Sum>i<n. S i * 2 ^ (lb * i)) + c = (\<Sum>i<n. x i * 2 ^ (lb * i)) + ?P * ?k"
    using Suc by (simp add: carries_def)
  moreover have "(S n + ?k) * ?P = (x n + 2 ^ lb * k n) * ?P" using Suc.prems by (simp add: carries_def)
  then have "S n * ?P + ?P * ?k = x n * ?P + 2 ^ (lb * Suc n) * k n"
    by (simp only: add_mult_distrib add_mult_distrib2 power_add mult_Suc_right ac_simps)
  ultimately show ?case by simp
qed simp

section \<open>The sums\<close>

definition nthz :: "nat list \<Rightarrow> nat \<Rightarrow> nat" where
  "nthz xs i = (if i < length xs then xs ! i else 0)"

definition conv :: "nat list \<Rightarrow> nat list \<Rightarrow> nat \<Rightarrow> nat" where
  "conv xs ys i = (\<Sum>k\<le>i. nthz xs k * nthz ys (i - k))"

lemma nthz_simps [simp]: "nthz [] i = 0" "nthz (x # xs) 0 = x" "nthz (x # xs) (Suc i) = nthz xs i"
  by (simp_all add: nthz_def)

lemma conv_simps:
  "conv [] ys i = 0" "conv (x # xs) ys i = x * nthz ys i + (if i = 0 then 0 else conv xs ys (i - 1))"
proof -
  show "conv (x # xs) ys i = x * nthz ys i + (if i = 0 then 0 else conv xs ys (i - 1))"
    by (cases i) (simp_all add: conv_def sum.atMost_Suc_shift del: sum.atMost_Suc)
qed (simp add: conv_def)

lemma nthz_value: "\<exists>m. limbs_val lb ys = (\<Sum>i<n. nthz ys i * 2 ^ (lb * i)) + 2 ^ (lb * n) * m"
proof (induction ys arbitrary: n)
  case Nil
  then show ?case by (intro exI [of _ 0]) simp
next
  case (Cons y ys)
  show ?case
  proof (cases n)
    case (Suc n')
    obtain m where m: "limbs_val lb ys = (\<Sum>i<n'. nthz ys i * 2 ^ (lb * i)) + 2 ^ (lb * n') * m"
      using Cons by blast
    show ?thesis unfolding Suc sum.lessThan_Suc_shift
      by (intro exI [of _ m]) (simp add: m power_add sum_distrib_left algebra_simps)
  qed simp
qed

text \<open>The sums of products give the product modulo \<open>2 ^ (lb * n)\<close>.\<close>

lemma conv_value: "\<exists>m. limbs_val lb xs * limbs_val lb ys = (\<Sum>i<n. conv xs ys i * 2 ^ (lb * i)) + 2 ^ (lb * n) * m"
proof (induction xs arbitrary: n)
  case Nil
  then show ?case by (simp add: conv_simps)
next
  case (Cons x xs)
  show ?case
  proof (cases n)
    case 0
    then show ?thesis by simp
  next
    case (Suc n')
    obtain m where m: "limbs_val lb xs * limbs_val lb ys = (\<Sum>i<n'. conv xs ys i * 2 ^ (lb * i)) + 2 ^ (lb * n') * m"
      using Cons by blast
    obtain m' where m': "limbs_val lb ys = (\<Sum>i<n. nthz ys i * 2 ^ (lb * i)) + 2 ^ (lb * n) * m'"
      using nthz_value by blast
    have "(\<Sum>i<n. conv (x # xs) ys i * 2 ^ (lb * i)) =
        (\<Sum>i<n. x * nthz ys i * 2 ^ (lb * i)) + (\<Sum>i<n. (if i = 0 then 0 else conv xs ys (i - 1)) * 2 ^ (lb * i))"
      by (simp add: conv_simps add_mult_distrib sum.distrib)
    also have "(\<Sum>i<n. (if i = 0 then 0 else conv xs ys (i - 1)) * 2 ^ (lb * i)) =
        2 ^ lb * (\<Sum>i<n'. conv xs ys i * 2 ^ (lb * i))"
      unfolding Suc sum.lessThan_Suc_shift by (simp add: sum_distrib_left power_add algebra_simps)
    also have "(\<Sum>i<n. x * nthz ys i * 2 ^ (lb * i)) = x * (\<Sum>i<n. nthz ys i * 2 ^ (lb * i))"
      by (simp add: sum_distrib_left mult.assoc)
    finally have s: "(\<Sum>i<n. conv (x # xs) ys i * 2 ^ (lb * i)) =
        x * (\<Sum>i<n. nthz ys i * 2 ^ (lb * i)) + 2 ^ lb * (\<Sum>i<n'. conv xs ys i * 2 ^ (lb * i))" .
    have "limbs_val lb (x # xs) * limbs_val lb ys = x * limbs_val lb ys + 2 ^ lb * (limbs_val lb xs * limbs_val lb ys)"
      by (simp add: algebra_simps)
    also have "\<dots> = (\<Sum>i<n. conv (x # xs) ys i * 2 ^ (lb * i)) + 2 ^ (lb * n) * (x * m' + m)"
      unfolding s m by (subst m') (simp add: Suc power_add algebra_simps)
    finally show ?thesis by blast
  qed
qed

lemma conv_bound:
  assumes "limbs_ok lb xs" "limbs_ok lb ys"
  shows "conv xs ys i \<le> Suc i * ((2 ^ lb - 1) * (2 ^ lb - 1))"
proof -
  have n: "nthz zs k \<le> 2 ^ lb - 1" if "limbs_ok lb zs" for zs k
    using that by (auto simp: nthz_def list_all_length less_eq_Suc_le [symmetric] Suc_diff_1 intro: Suc_leI le_diff_conv2 [THEN iffD2])
  have "conv xs ys i \<le> (\<Sum>k\<le>i. (2 ^ lb - 1) * (2 ^ lb - 1))"
    unfolding conv_def by (intro sum_mono mult_le_mono n assms)
  then show ?thesis by simp
qed

text \<open>The sums of an AIR and of an executor are these sums.\<close>

definition prod_sum :: "'f::field list \<Rightarrow> 'f list \<Rightarrow> nat \<Rightarrow> 'f" where
  "prod_sum b c i = fold (\<lambda>k acc. acc + b ! k * c ! (i - k)) [0..<Suc i] 0"

definition acc_products :: "nat list \<Rightarrow> nat list \<Rightarrow> nat \<Rightarrow> nat \<Rightarrow> nat" where
  "acc_products x y i res = fold (\<lambda>j res. wadd 32 res (wmul 32 (x ! j) (y ! (i - j)))) [0..<Suc i] res"

lemma prod_sum_fels:
  assumes "i < n" "length xs = n" "length ys = n"
  shows "prod_sum (fels xs) (fels ys) i = (of_nat (conv xs ys i) :: 'f::field)"
proof -
  have "prod_sum (fels xs) (fels ys) i = (\<Sum>k\<leftarrow>[0..<Suc i]. fels xs ! k * fels ys ! (i - k) :: 'f)"
    unfolding prod_sum_def fold_add_eq_sum by simp
  also have "\<dots> = (\<Sum>k\<le>i. of_nat (xs ! k * ys ! (i - k)))"
    unfolding interv_sum_list_conv_sum_set_nat atLeast0_lessThan_Suc lessThan_atLeast0 [symmetric] lessThan_Suc_atMost
    by (rule sum.cong) (use assms in auto)
  also have "\<dots> = of_nat (conv xs ys i)"
    unfolding conv_def of_nat_sum by (rule sum.cong) (use assms in \<open>auto simp: nthz_def\<close>)
  finally show ?thesis .
qed

text \<open>Accumulation in \<open>u32\<close> of products that do not overflow.\<close>

lemma acc_fold:
  assumes "res + (\<Sum>j\<leftarrow>js. f j * g j) < 2 ^ 32"
  shows "fold (\<lambda>j res. wadd 32 res (wmul 32 (f j) (g j))) js res = res + (\<Sum>j\<leftarrow>js. f j * g j)"
  using assms
proof (induction js arbitrary: res)
  case (Cons j js)
  have "res + f j * g j + (\<Sum>j\<leftarrow>js. f j * g j) < 2 ^ 32" using Cons.prems by simp
  moreover from this have "wadd 32 res (wmul 32 (f j) (g j)) = res + f j * g j"
    by (subst wmul_small) (linarith, subst wadd_small, linarith, simp)
  ultimately show ?case using Cons.IH [of "res + f j * g j"] by simp
qed simp

lemma acc_products_eq:
  assumes "i < n" "length xs = n" "length ys = n" "res + conv xs ys i < 2 ^ 32"
  shows "acc_products xs ys i res = conv xs ys i + res"
proof -
  have "(\<Sum>j\<leftarrow>[0..<Suc i]. xs ! j * ys ! (i - j)) = conv xs ys i"
    unfolding interv_sum_list_conv_sum_set_nat lessThan_atLeast0 [symmetric] lessThan_Suc_atMost conv_def
    by (rule sum.cong) (use assms in \<open>auto simp: nthz_def\<close>)
  then show ?thesis unfolding acc_products_def using assms(4) by (subst acc_fold) simp_all
qed

lemma square_bound: "m * ((2 ^ lb - 1) * (2 ^ lb - 1)) + m * 2 ^ lb \<le> 2 ^ lb * (m * 2 ^ lb :: nat)"
proof -
  obtain p where p: "(2::nat) ^ lb = Suc p" by (metis gr0_implies_Suc zero_less_numeral zero_less_power)
  show ?thesis unfolding p by (simp add: algebra_simps)
qed

text \<open>What a lookup of a limb and a carry in the tuple table says.\<close>

lemma range_tuple_pair:
  "range_tuple_table [s, t] [x, y] \<longleftrightarrow> (\<exists>u < s. \<exists>v < t. x = of_nat u \<and> y = of_nat v)"
proof
  show "range_tuple_table [s, t] [x, y]" if r: "\<exists>u < s. \<exists>v < t. x = of_nat u \<and> y = of_nat v"
  proof -
    from r obtain u v where "u < s" "v < t" "x = of_nat u" "y = of_nat v" by blast
    then show ?thesis unfolding range_tuple_table_def by (intro exI [of _ "[u, v]"]) simp
  qed
qed (auto simp: range_tuple_table_def list_all2_Cons2)

lemma pair_columns:
  fixes a k :: "nat \<Rightarrow> 'f::field"
  assumes "\<And>i. i < n \<Longrightarrow> range_tuple_table [s, t] [a i, k i]"
  obtains x c where "\<And>i. i < n \<Longrightarrow> a i = of_nat (x i) \<and> x i < s" "\<And>i. i < n \<Longrightarrow> k i = of_nat (c i) \<and> c i < t"
proof -
  have "\<exists>u. \<exists>v. u < s \<and> v < t \<and> a i = of_nat u \<and> k i = of_nat v" if "i < n" for i
    using assms [OF that] by (auto simp: range_tuple_pair)
  then obtain x c where "\<And>i. i < n \<Longrightarrow> x i < s \<and> c i < t \<and> a i = of_nat (x i) \<and> k i = of_nat (c i)" by metis
  then show ?thesis by (intro that [of x c]) auto
qed

section \<open>The high half of a product\<close>

text \<open>
  Limbs \<open>n\<close> to \<open>2 * n - 1\<close> of the product of two numbers extended by a constant limb: the sums
  of the AIRs and of the executors, and the extension as a list.
\<close>

definition high_sum :: "nat \<Rightarrow> 'f::field list \<Rightarrow> 'f list \<Rightarrow> 'f \<Rightarrow> 'f \<Rightarrow> nat \<Rightarrow> 'f" where
  "high_sum n b c b_ext c_ext j =
     fold (\<lambda>k acc. acc + b ! k * c ! (n + j - k)) [j + 1..<n] 0 +
     fold (\<lambda>k acc. acc + b ! k * c_ext + c ! k * b_ext) [0..<j + 1] 0"

definition acc_high :: "nat \<Rightarrow> nat list \<Rightarrow> nat list \<Rightarrow> nat \<Rightarrow> nat \<Rightarrow> nat \<Rightarrow> nat \<Rightarrow> nat" where
  "acc_high n x y x_ext y_ext i carry =
     (let x_prefix = fold (\<lambda>v acc. wadd 32 acc v) (take (i + 1) x) 0;
          y_prefix = fold (\<lambda>v acc. wadd 32 acc v) (take (i + 1) y) 0
      in fold (\<lambda>j res. wadd 32 res (wmul 32 (x ! j) (y ! (n + i - j)))) [i + 1..<n]
           (wadd 32 (wadd 32 carry (wmul 32 x_prefix y_ext)) (wmul 32 y_prefix x_ext)))"

abbreviation extended :: "nat \<Rightarrow> nat list \<Rightarrow> nat \<Rightarrow> nat list" where
  "extended n xs e \<equiv> xs @ replicate n e"

lemma conv_extend_low:
  assumes "i < n" "length xs = n" "length ys = n"
  shows "conv (extended n xs xe) (extended n ys ye) i = conv xs ys i"
  unfolding conv_def by (rule sum.cong) (use assms in \<open>auto simp: nthz_def nth_append\<close>)

lemma conv_extend_high:
  assumes j: "j < n" and len: "length xs = n" "length ys = n"
  shows "conv (extended n xs xe) (extended n ys ye) (n + j) =
    (\<Sum>k\<in>{j + 1..<n}. xs ! k * ys ! (n + j - k)) + ((\<Sum>k\<le>j. xs ! k) * ye + (\<Sum>k\<le>j. ys ! k) * xe)"
proof -
  let ?t = "\<lambda>k. nthz (extended n xs xe) k * nthz (extended n ys ye) (n + j - k)"
  have split: "{..n + j} = {..j} \<union> {j + 1..<n} \<union> {n..n + j}" using j by auto
  have "(\<Sum>k\<le>n + j. ?t k) = (\<Sum>k\<le>j. ?t k) + (\<Sum>k\<in>{j + 1..<n}. ?t k) + (\<Sum>k\<in>{n..n + j}. ?t k)"
    unfolding split using j by (subst sum.union_disjoint; (subst sum.union_disjoint)?; auto)
  also have "(\<Sum>k\<le>j. ?t k) = (\<Sum>k\<le>j. xs ! k) * ye"
    unfolding sum_distrib_right by (rule sum.cong) (use j len in \<open>auto simp: nthz_def nth_append\<close>)
  also have "(\<Sum>k\<in>{j + 1..<n}. ?t k) = (\<Sum>k\<in>{j + 1..<n}. xs ! k * ys ! (n + j - k))"
    by (rule sum.cong) (use j len in \<open>auto simp: nthz_def nth_append\<close>)
  also have "(\<Sum>k\<in>{n..n + j}. ?t k) = (\<Sum>k\<le>j. ys ! k * xe)"
    by (rule sum.reindex_bij_witness [of _ "\<lambda>k. n + j - k" "\<lambda>k. n + j - k"])
      (use j len in \<open>auto simp: nthz_def nth_append\<close>)
  finally show ?thesis by (simp add: conv_def sum_distrib_right)
qed

lemma sum_list_upt: "(\<Sum>k\<leftarrow>[a..<b]. f k) = (\<Sum>k\<in>{a..<b}. f k)"
  by (simp add: interv_sum_list_conv_sum_set_nat)

lemma high_sum_fels:
  assumes j: "j < n" and len: "length xs = n" "length ys = n"
  shows "high_sum n (fels xs) (fels ys) (of_nat xe) (of_nat ye) j = (of_nat (conv (extended n xs xe) (extended n ys ye) (n + j)) :: 'f::field)"
proof -
  have a: "(\<lambda>k acc. acc + fels xs ! k * of_nat ye + fels ys ! k * of_nat xe :: 'f) =
      (\<lambda>k acc. acc + (fels xs ! k * of_nat ye + fels ys ! k * of_nat xe))" by (simp add: add.assoc fun_eq_iff)
  have "(\<Sum>k\<in>{j + 1..<n}. fels xs ! k * fels ys ! (n + j - k) :: 'f) = (\<Sum>k\<in>{j + 1..<n}. of_nat (xs ! k * ys ! (n + j - k)))"
    by (rule sum.cong) (use j len in auto)
  moreover have "(\<Sum>k\<in>{0..<j + 1}. fels xs ! k * of_nat ye + fels ys ! k * of_nat xe :: 'f) =
      (\<Sum>k\<le>j. of_nat (xs ! k * ye + ys ! k * xe))"
    by (rule sum.cong) (use j len in auto)
  ultimately show ?thesis unfolding high_sum_def a fold_add_eq_sum sum_list_upt conv_extend_high [OF assms]
    by (simp add: sum.distrib sum_distrib_right)
qed

lemma wadd_fold:
  "a + sum_list vs < 2 ^ 32 \<Longrightarrow> fold (\<lambda>v acc. wadd 32 acc v) vs a = a + sum_list vs"
proof (induction vs arbitrary: a)
  case (Cons v vs)
  have "wadd 32 a v = a + v" by (rule wadd_small) (use Cons.prems in simp)
  then show ?case using Cons by simp
qed simp

lemma acc_high_eq:
  assumes j: "j < n" and len: "length xs = n" "length ys = n"
    and S: "c + conv (extended n xs xe) (extended n ys ye) (n + j) < 2 ^ 32" and e: "0 < xe \<or> (\<Sum>k\<le>j. ys ! k) < 2 ^ 32"
      "0 < ye \<or> (\<Sum>k\<le>j. xs ! k) < 2 ^ 32"
  shows "acc_high n xs ys xe ye j c = conv (extended n xs xe) (extended n ys ye) (n + j) + c"
proof -
  let ?X = "\<Sum>k\<le>j. xs ! k" and ?Y = "\<Sum>k\<le>j. ys ! k" and ?Z = "\<Sum>k\<in>{j + 1..<n}. xs ! k * ys ! (n + j - k)"
  note C = conv_extend_high [OF j len, of xe ye]
  have t: "c + ?X * ye + ?Y * xe + ?Z < 2 ^ 32" using S unfolding C by linarith
  have pre: "sum_list (take (j + 1) zs) = (\<Sum>k\<le>j. zs ! k)" if "length zs = n" for zs :: "nat list"
  proof -
    have l: "length (take (j + 1) zs) = Suc j" using that j by simp
    show ?thesis unfolding sum_list_sum_nth l lessThan_atLeast0 [symmetric] lessThan_Suc_atMost
      by (rule sum.cong) auto
  qed
  have XY: "?X < 2 ^ 32" "?Y < 2 ^ 32"
  proof -
    have "?X * 1 \<le> ?X * ye \<or> ?X < 2 ^ 32" using e(2) by (metis Suc_leI One_nat_def mult_le_mono2)
    then show "?X < 2 ^ 32" using t by linarith
    have "?Y * 1 \<le> ?Y * xe \<or> ?Y < 2 ^ 32" using e(1) by (metis Suc_leI One_nat_def mult_le_mono2)
    then show "?Y < 2 ^ 32" using t by linarith
  qed
  have px: "fold (\<lambda>v acc. wadd 32 acc v) (take (j + 1) xs) 0 = ?X" "fold (\<lambda>v acc. wadd 32 acc v) (take (j + 1) ys) 0 = ?Y"
    using XY pre [OF len(1)] pre [OF len(2)] by (simp_all add: wadd_fold del: take_Suc)
  have "wmul 32 ?X ye = ?X * ye" "wmul 32 ?Y xe = ?Y * xe" by (rule wmul_small; use t in linarith)+
  moreover have "wadd 32 c (?X * ye) = c + ?X * ye" "wadd 32 (c + ?X * ye) (?Y * xe) = c + ?X * ye + ?Y * xe"
    by (rule wadd_small; use t in linarith)+
  ultimately have "acc_high n xs ys xe ye j c = fold (\<lambda>j' res. wadd 32 res (wmul 32 (xs ! j') (ys ! (n + j - j')))) [j + 1..<n]
      (c + ?X * ye + ?Y * xe)"
    unfolding acc_high_def Let_def px by (simp only:)
  also have "\<dots> = c + ?X * ye + ?Y * xe + ?Z"
    by (subst acc_fold) (use t in \<open>simp_all only: sum_list_upt\<close>)
  finally show ?thesis unfolding C by simp
qed

lemma carries_append:
  assumes "carries n lb S x c k" "carries m lb (\<lambda>j. S (n + j)) y (if n = 0 then c else k (n - 1)) l"
  shows "carries (n + m) lb S (\<lambda>i. if i < n then x i else y (i - n)) c (\<lambda>i. if i < n then k i else l (i - n))"
  unfolding carries_def
proof (intro allI impI)
  fix i assume i: "i < n + m"
  show "S i + (if i = 0 then c else if i - 1 < n then k (i - 1) else l (i - 1 - n)) =
      (if i < n then x i else y (i - n)) + 2 ^ lb * (if i < n then k i else l (i - n))"
  proof (cases "i < n")
    case True
    then show ?thesis using assms(1) by (auto simp: carries_def)
  next
    case False
    then obtain j where j: "i = n + j" "j < m" using i by (metis add_less_cancel_left le_Suc_ex not_less)
    then have "S (n + j) + (if j = 0 then if n = 0 then c else k (n - 1) else l (j - 1)) = y j + 2 ^ lb * l j"
      using assms(2) by (auto simp: carries_def)
    then show ?thesis using j by (cases j) (auto split: if_splits)
  qed
qed

lemma to_limbs_add: "to_limbs lb (m + n) v = to_limbs lb m v @ to_limbs lb n (v div 2 ^ (lb * m))"
  by (induction m arbitrary: v) (simp_all add: div_mult2_eq [symmetric] power_add [symmetric])

text \<open>A sign-extended number, and the high half of a product of two of them.\<close>

lemma extend_value:
  fixes lb n :: nat and sg :: bool
  assumes "length xs = n"
  defines "\<sigma> \<equiv> of_bool (sg \<and> 2 ^ (lb - 1) \<le> xs ! (n - 1)) :: nat"
  shows "int (limbs_val lb (extended n xs (\<sigma> * (2 ^ lb - 1)))) = sval lb sg xs + int \<sigma> * 2 ^ (lb * (n + n))"
proof -
  have r: "limbs_val lb (replicate n (\<sigma> * (2 ^ lb - 1))) = \<sigma> * (2 ^ (lb * n) - 1)"
    using limbs_val_replicate [of lb n] by (cases "\<sigma> = 0") (auto simp: \<sigma>_def limbs_val_sum)
  have "sval lb sg xs = int (limbs_val lb xs) - int \<sigma> * 2 ^ (lb * n)" using assms(1) by (simp add: sval_def \<sigma>_def)
  moreover have "(2::int) ^ (lb * (n + n)) = 2 ^ (lb * n) * 2 ^ (lb * n)" by (simp add: add_mult_distrib2 power_add)
  moreover have "int (2 ^ (lb * n) - 1) = 2 ^ (lb * n) - 1" by (simp add: of_nat_diff)
  ultimately show ?thesis unfolding limbs_val_append r assms(1) of_nat_add of_nat_mult
    by (simp only: of_nat_power of_nat_numeral) (simp add: algebra_simps)
qed

lemma high_product:
  fixes xs ys :: "nat list" and lb n :: nat and sx sy :: bool
  assumes "length xs = n" "length ys = n"
  defines "xe \<equiv> of_bool (sx \<and> 2 ^ (lb - 1) \<le> xs ! (n - 1)) * (2 ^ lb - 1)"
    and "ye \<equiv> of_bool (sy \<and> 2 ^ (lb - 1) \<le> ys ! (n - 1)) * (2 ^ lb - 1)"
  shows "to_limbs lb n ((limbs_val lb (extended n xs xe) * limbs_val lb (extended n ys ye)) div 2 ^ (lb * n)) =
    to_limbs lb n (nat (sval lb sx xs * sval lb sy ys div 2 ^ (lb * n) mod 2 ^ (lb * n)))"
proof -
  let ?B = "2 ^ (lb * n) :: int" and ?p = "limbs_val lb (extended n xs xe) * limbs_val lb (extended n ys ye)"
  let ?x = "sval lb sx xs" and ?y = "sval lb sy ys"
  obtain s where s: "int (limbs_val lb (extended n xs xe)) = ?x + s * (?B * ?B)"
    using extend_value [OF assms(1), of lb sx] by (auto simp: xe_def add_mult_distrib2 power_add)
  obtain t where t: "int (limbs_val lb (extended n ys ye)) = ?y + t * (?B * ?B)"
    using extend_value [OF assms(2), of lb sy] by (auto simp: ye_def add_mult_distrib2 power_add)
  have "int ?p = ?x * ?y + ?B * (?B * (s * ?y + t * ?x + s * t * (?B * ?B)))"
    unfolding of_nat_mult s t by (simp add: algebra_simps)
  then have "int (?p div 2 ^ (lb * n)) = ?x * ?y div ?B + ?B * (s * ?y + t * ?x + s * t * (?B * ?B))"
    by (simp add: zdiv_int del: of_nat_mult)
  then have "int (?p div 2 ^ (lb * n)) mod ?B = ?x * ?y div ?B mod ?B" by simp
  then have "?p div 2 ^ (lb * n) mod 2 ^ (lb * n) = nat (?x * ?y div ?B mod ?B)"
    by (metis nat_int of_nat_mod of_nat_numeral of_nat_power)
  then have "limbs_val lb (to_limbs lb n (?p div 2 ^ (lb * n))) = limbs_val lb (to_limbs lb n (nat (?x * ?y div ?B mod ?B)))"
    unfolding limbs_val_to_limbs by (metis mod_mod_trivial)
  then show ?thesis by (intro limbs_val_inject [of lb]) simp_all
qed

end
