(* ===== verification/Mul.thy ===== *)
theory Mul
  imports Limb_Products
begin

text \<open>
  \<open>extensions/rv32im/circuit/src/mul/core.rs\<close>: the core chip for MUL, the low half of a product.
  Each limb of the result is looked up together with the carry out of it.
\<close>

section \<open>The model\<close>

record 'f mul_cols =
  mul_a :: "'f list"
  mul_b :: "'f list"
  mul_c :: "'f list"
  mul_is_valid :: 'f

record mul_air =
  mul_bus :: range_tuple_bus
  mul_air_offset :: nat

definition mul_carry :: "nat \<Rightarrow> 'f::field mul_cols \<Rightarrow> nat \<Rightarrow> 'f" where
  "mul_carry limb_bits cols = carry_col limb_bits (prod_sum (mul_b cols) (mul_c cols)) ((!) (mul_a cols)) 0"

definition mul_eval ::
  "nat \<Rightarrow> nat \<Rightarrow> mul_air \<Rightarrow> 'f::field mul_cols \<Rightarrow> ('f, 'f minimal_instruction) core_eval" where
  "mul_eval num_limbs limb_bits air cols =
     ([assert_bool (mul_is_valid cols)],
      map (\<lambda>i. range_tuple_send (mul_bus air) [mul_a cols ! i, mul_carry limb_bits cols i] (mul_is_valid cols))
        [0..<num_limbs],
      \<lparr>to_pc = None, reads = [mul_b cols, mul_c cols], writes = [mul_a cols],
       instruction = \<lparr>is_valid = mul_is_valid cols,
         opcode = expr_to_global_expr (mul_air_offset air) (of_nat (repr_of [MUL] MUL))\<rparr>\<rparr>)"

text \<open>\<open>run_mul\<close>: the limbs of the product and the carries.\<close>

definition run_mul :: "nat \<Rightarrow> nat \<Rightarrow> nat list \<Rightarrow> nat list \<Rightarrow> nat list \<times> nat list" where
  "run_mul num_limbs limb_bits x y =
     (let ps = limb_loop limb_bits (acc_products x y) 0 [0..<num_limbs]
      in (map (\<lambda>p. wrap 8 (fst p)) ps, map snd ps))"

record mul_record =
  mulr_b :: "nat list"
  mulr_c :: "nat list"

text \<open>The opcode is only checked by a debug assertion.\<close>

definition mul_execute ::
  "nat \<Rightarrow> nat \<Rightarrow> ('f, 'm, 'ar) adapter_trace_executor \<Rightarrow> 'ar \<Rightarrow>
   ('m, 'ar \<times> mul_record) vm_state_mut \<Rightarrow> 'f instr \<Rightarrow>
   execution_error + ('m, 'ar \<times> mul_record) vm_state_mut" where
  "mul_execute num_limbs limb_bits A fresh s i =
     (let r0 = a_start A (s_pc s) (s_memory s) fresh;
          (m1, r1, data) = a_read A (s_memory s) i r0;
          rs1 = data ! 0; rs2 = data ! 1;
          (a, _) = run_mul num_limbs limb_bits rs1 rs2;
          (m2, r2) = a_write A m1 i [a] r1
      in Inr (s\<lparr>s_memory := m2, s_arena := s_arena s @ [(r2, \<lparr>mulr_b = rs1, mulr_c = rs2\<rparr>)],
                s_pc := wadd 32 (s_pc s) DEFAULT_PC_STEP\<rparr>))"

definition mul_fill_core :: "nat \<Rightarrow> nat \<Rightarrow> mul_record \<Rightarrow> 'f::field mul_cols \<times> lookup_request list" where
  "mul_fill_core num_limbs limb_bits rec =
     (let (a, carry) = run_mul num_limbs limb_bits (mulr_b rec) (mulr_c rec)
      in (\<lparr>mul_a = fels a, mul_b = fels (mulr_b rec), mul_c = fels (mulr_c rec), mul_is_valid = 1\<rparr>,
          map (\<lambda>(a, carry). Add_tuple [a, carry]) (zip a carry)))"

definition mul_fill_trace_row ::
  "nat \<Rightarrow> nat \<Rightarrow> ('mh, 'ar, 'ac) adapter_filler \<Rightarrow> 'mh \<Rightarrow> 'ar \<Rightarrow> mul_record \<Rightarrow>
   ('ac \<times> 'f::field mul_cols) \<times> lookup_request list" where
  "mul_fill_trace_row num_limbs limb_bits fill mem_helper arec rec =
     (let (acols, areqs) = fill mem_helper arec;
          (cols, reqs) = mul_fill_core num_limbs limb_bits rec
      in ((acols, cols), areqs @ reqs))"

section \<open>Soundness\<close>

definition mul_ctx ::
  "nat \<Rightarrow> nat \<Rightarrow> mul_air \<Rightarrow> nat list \<Rightarrow> nat list \<Rightarrow> ('f::field, 'f minimal_instruction) adapter_air_context" where
  "mul_ctx n lb air bs cs =
     \<lparr>to_pc = None, reads = [fels bs, fels cs], writes = [fels (to_limbs lb n (limbs_val lb bs * limbs_val lb cs))],
      instruction = \<lparr>is_valid = 1, opcode = of_nat (mul_air_offset air)\<rparr>\<rparr>"

text \<open>Limbs and carries that satisfy the equations are the low half of the product.\<close>

lemma carries_product:
  assumes "carries n lb (conv bs cs) (\<lambda>i. as ! i) 0 k" "limbs_ok lb as" "length as = n"
  shows "as = to_limbs lb n (limbs_val lb bs * limbs_val lb cs)"
proof -
  obtain m where m: "limbs_val lb bs * limbs_val lb cs = (\<Sum>i<n. conv bs cs i * 2 ^ (lb * i)) + 2 ^ (lb * n) * m"
    using conv_value by blast
  have "(\<Sum>i<n. conv bs cs i * 2 ^ (lb * i)) = limbs_val lb as + 2 ^ (lb * n) * (if n = 0 then 0 else k (n - 1))"
    using carries_value [OF assms(1)] assms(3) by (simp add: limbs_val_sum)
  then have "limbs_val lb bs * limbs_val lb cs = limbs_val lb as + 2 ^ (lb * n) * ((if n = 0 then 0 else k (n - 1)) + m)"
    unfolding m by (simp add: algebra_simps)
  then have "limbs_val lb as = limbs_val lb bs * limbs_val lb cs mod 2 ^ (lb * length as)"
    using limbs_val_bound [OF assms(2)] assms(3) by simp
  then show ?thesis using limbs_eq_to_limbs [OF assms(2)] assms(3) by blast
qed

lemma conv_bound_n:
  assumes "limbs_ok lb bs" "limbs_ok lb cs" "i < n"
  shows "conv bs cs i \<le> n * ((2 ^ lb - 1) * (2 ^ lb - 1))"
  using order.trans [OF conv_bound [OF assms(1,2)] mult_le_mono1 [of "Suc i" n]] assms(3) by simp

lemma mul_eval_sound:
  fixes cols :: "'f::field mul_cols"
  assumes acc: "accepts T (mul_eval n lb air cols)"
    and table: "\<And>k. T (rt_index (mul_bus air)) k \<Longrightarrow> range_tuple_table [2 ^ lb, K] k"
    and valid: "is_valid (instruction (core_ctx (mul_eval n lb air cols))) = 1"
    and b: "mul_b cols = fels bs" "limbs_ok lb bs" "length bs = n"
    and c: "mul_c cols = fels cs" "limbs_ok lb cs" "length cs = n" and a: "length (mul_a cols) = n"
    and char: "n * (2 ^ lb * 2 ^ lb) + K < CHAR('f)" "2 ^ lb * (K + 1) < CHAR('f)" and K: "0 < K"
  shows "core_ctx (mul_eval n lb air cols) = mul_ctx n lb air bs cs"
proof -
  note ev = mul_eval_def [of n lb air cols]
  have v: "mul_is_valid cols = 1" using valid by (simp add: ev)
  have "range_tuple_table [2 ^ lb, K] [mul_a cols ! i, mul_carry lb cols i]" if "i < n" for i
    using acc table that by (simp add: accepts_def ev air_defs v)
  then obtain x k where x: "\<And>i. i < n \<Longrightarrow> mul_a cols ! i = of_nat (x i) \<and> x i < 2 ^ lb"
      and k: "\<And>i. i < n \<Longrightarrow> mul_carry lb cols i = of_nat (k i) \<and> k i < K"
    using pair_columns [of n "2 ^ lb" K "\<lambda>i. mul_a cols ! i" "mul_carry lb cols"] by blast
  let ?as = "map x [0..<n]"
  have as: "mul_a cols = fels ?as" by (rule nth_equalityI) (use x a in auto)
  have ok: "limbs_ok lb ?as" using x by (simp add: list_all_iff)
  have "(2 ^ lb - 1) * (2 ^ lb - 1) \<le> 2 ^ lb * (2 ^ lb :: nat)" by (intro mult_le_mono) simp_all
  then have M: "n * ((2 ^ lb - 1) * (2 ^ lb - 1)) + K < CHAR('f)"
    using char(1) mult_le_mono2 [of "(2 ^ lb - 1) * (2 ^ lb - 1)" "2 ^ lb * (2 ^ lb :: nat)" n] by linarith
  have "carries n lb (conv bs cs) x 0 k"
  proof (rule carry_col_sound [where K = K and M = "n * ((2 ^ lb - 1) * (2 ^ lb - 1))"])
    show "carry_col lb (prod_sum (mul_b cols) (mul_c cols)) ((!) (mul_a cols)) (of_nat 0) i = of_nat (k i) \<and> k i < K" if "i < n" for i
      using k [OF that] by (simp add: mul_carry_def)
  qed (use b c x M char(2) K conv_bound_n [OF b(2) c(2)] in \<open>auto simp: prod_sum_fels\<close>)
  then have "carries n lb (conv bs cs) (\<lambda>i. ?as ! i) 0 k" by (simp add: carries_def)
  from carries_product [OF this ok] have "?as = to_limbs lb n (limbs_val lb bs * limbs_val lb cs)" by simp
  then show ?thesis using as by (simp add: ev mul_ctx_def b c v expr_to_global_expr_def)
qed

section \<open>Completeness\<close>

lemma run_mul_carries:
  assumes b: "limbs_ok lb bs" "length bs = n" and c: "limbs_ok lb cs" "length cs = n"
    and n: "0 < n" "n * (2 ^ lb * 2 ^ lb) < 2 ^ 32" and lb: "lb \<le> 8" and run: "run_mul n lb bs cs = (as, ks)"
  shows "length as = n" "length ks = n" "limbs_ok lb as" "list_all (\<lambda>k. k < n * 2 ^ lb) ks"
    "carries n lb (conv bs cs) (\<lambda>i. as ! i) 0 (\<lambda>i. ks ! i)"
proof -
  let ?K = "n * 2 ^ lb" and ?ps = "limb_loop lb (acc_products bs cs) 0 [0..<0 + n]"
  have S: "conv bs cs i + ?K \<le> 2 ^ lb * ?K" if "i < n" for i
    using conv_bound_n [OF b(1) c(1) that] square_bound [of n lb] by linarith
  have L: "length ?ps = n \<and> (\<forall>p\<in>set ?ps. fst p < 2 ^ lb \<and> snd p < ?K) \<and>
    carries n lb (\<lambda>i. conv bs cs (0 + i)) (\<lambda>i. fst (?ps ! i)) 0 (\<lambda>i. snd (?ps ! i))"
  proof (rule limb_loop_carries)
    show "acc_products bs cs i c = conv bs cs i + c" if "i < 0 + n" "c < ?K" for i c
    proof (rule acc_products_eq [OF _ b(2) c(2)])
      have "2 ^ lb * ?K < 2 ^ 32" using n(2) by (simp add: ac_simps)
      then show "c + conv bs cs i < 2 ^ 32" using S [of i] that by simp
    qed (use that in simp)
  qed (use S n(1) lb in auto)
  have "wrap 8 (fst p) = fst p" if "p \<in> set ?ps" for p
  proof (rule wrap_small)
    have "fst p < 2 ^ lb" using L that by blast
    then show "fst p < 2 ^ 8" using pow_le_256 [OF lb] by simp
  qed
  then have e: "as = map fst ?ps" "ks = map snd ?ps" using run by (auto simp: run_mul_def Let_def)
  show "length as = n" "length ks = n" "limbs_ok lb as" "list_all (\<lambda>k. k < ?K) ks"
    using L unfolding e by (auto simp: list_all_iff)
  show "carries n lb (conv bs cs) (\<lambda>i. as ! i) 0 (\<lambda>i. ks ! i)"
    by (rule carries_cong [THEN iffD1, OF _ _ _ conjunct2 [OF conjunct2 [OF L]]]) (use L in \<open>simp_all add: e\<close>)
qed

lemma tuple_lookups:
  "concat (map (range_tuple_lookup tb) (map (\<lambda>(a, carry). Add_tuple [a, carry]) (map (\<lambda>i. (x i, k i)) js))) =
   map (\<lambda>i. Lookup_key (rt_index tb) [of_nat (x i), of_nat (k i)] 1) js"
  by (induction js) simp_all

lemma mul_fill_complete:
  fixes cols :: "'f::field mul_cols"
  assumes fill: "mul_fill_core n lb rec = (cols, reqs)"
    and b: "limbs_ok lb (mulr_b rec)" "length (mulr_b rec) = n" and c: "limbs_ok lb (mulr_c rec)" "length (mulr_c rec) = n"
    and n: "0 < n" "n * (2 ^ lb * 2 ^ lb) < 2 ^ 32" and lb: "lb \<le> 8" and K: "n * 2 ^ lb \<le> K" and char: "2 ^ lb < CHAR('f)"
  shows "all_satisfied (fst (mul_eval n lb air cols)) \<and>
    active (fst (snd (mul_eval n lb air cols))) = concat (map (range_tuple_lookup (mul_bus air)) reqs) \<and>
    list_all (range_tuple_request_ok [2 ^ lb, K]) reqs \<and>
    core_ctx (mul_eval n lb air cols) = mul_ctx n lb air (mulr_b rec) (mulr_c rec) \<and>
    mul_a cols = fels (fst (run_mul n lb (mulr_b rec) (mulr_c rec)))"
proof -
  obtain as ks where run: "run_mul n lb (mulr_b rec) (mulr_c rec) = (as, ks)" by (metis prod.exhaust)
  note R = run_mul_carries [OF b c n lb run]
  have cols: "cols = \<lparr>mul_a = fels as, mul_b = fels (mulr_b rec), mul_c = fels (mulr_c rec), mul_is_valid = 1\<rparr>"
    and reqs: "reqs = map (\<lambda>(a, carry). Add_tuple [a, carry]) (zip as ks)"
    using fill by (simp_all add: mul_fill_core_def run)
  have k: "mul_carry lb cols i = of_nat (ks ! i)" if "i < n" for i
    using carry_col_complete [OF R(5), of "prod_sum (mul_b cols) (mul_c cols)" "(!) (mul_a cols)"] that b c R(1) char
    by (simp add: mul_carry_def cols prod_sum_fels)
  have sel: "mul_is_valid cols = 1" "\<And>i. i < n \<Longrightarrow> mul_a cols ! i = of_nat (as ! i)"
    using R(1) by (simp_all add: cols)
  have zip: "zip as ks = map (\<lambda>i. (as ! i, ks ! i)) [0..<n]" by (rule nth_equalityI) (use R(1,2) in simp_all)
  have inter: "fst (snd (mul_eval n lb air cols)) = concat (map (range_tuple_lookup (mul_bus air)) reqs)"
    unfolding mul_eval_def fst_conv snd_conv reqs zip tuple_lookups
    by (rule map_cong) (simp_all add: sel k air_defs)
  have "active (concat (map (range_tuple_lookup (mul_bus air)) qs)) = (concat (map (range_tuple_lookup (mul_bus air)) qs) :: 'f interaction list)" for qs
    by (rule active_range_tuple)
  moreover have "list_all (range_tuple_request_ok [2 ^ lb, K]) reqs"
    unfolding reqs using R(1-4) K by (auto simp: list_all_length)
  moreover have "core_ctx (mul_eval n lb air cols) = mul_ctx n lb air (mulr_b rec) (mulr_c rec)"
    using carries_product [OF R(5,3,1)] by (simp add: mul_eval_def mul_ctx_def cols expr_to_global_expr_def)
  ultimately show ?thesis unfolding inter by (simp add: mul_eval_def cols run)
qed

lemma mul_complete:
  fixes rec :: mul_record
  assumes "limbs_ok lb (mulr_b rec)" "length (mulr_b rec) = n" "limbs_ok lb (mulr_c rec)" "length (mulr_c rec) = n"
    and "0 < n" "n * (2 ^ lb * 2 ^ lb) < 2 ^ 32" "lb \<le> 8" "n * 2 ^ lb \<le> K" "2 ^ lb < CHAR('f::field)"
    and T: "\<And>k. range_tuple_table [2 ^ lb, K] k \<Longrightarrow> T (rt_index (mul_bus air)) k"
  shows "accepts T (mul_eval n lb air (fst (mul_fill_core n lb rec) :: 'f mul_cols)) \<and>
    core_ctx (mul_eval n lb air (fst (mul_fill_core n lb rec) :: 'f mul_cols)) = mul_ctx n lb air (mulr_b rec) (mulr_c rec)"
proof -
  obtain cols :: "'f mul_cols" and reqs where f: "mul_fill_core n lb rec = (cols, reqs)" by (metis prod.exhaust)
  note c = mul_fill_complete [OF f assms(1-9), of air]
  have "lookups_ok T (concat (map (range_tuple_lookup (mul_bus air)) reqs) :: 'f interaction list)"
    using lookups_ok_range_tuple [of _ reqs T "mul_bus air"] c T by blast
  then have "lookups_ok T (fst (snd (mul_eval n lb air cols)))"
    using c by (metis lookups_ok_active)
  then show ?thesis using c by (simp add: f accepts_def)
qed

section \<open>The chip of the RV32 extension\<close>

definition rv32_mul_air :: "nat \<Rightarrow> mul_air" where
  "rv32_mul_air b = \<lparr>mul_bus = rv32_tuple_bus b, mul_air_offset = mul_offset\<rparr>"

definition mul_row_wf :: "nat \<Rightarrow> nat \<Rightarrow> 'f::field mul_cols \<Rightarrow> bool" where
  "mul_row_wf n lb cols \<longleftrightarrow> length (mul_a cols) = n \<and> (\<exists>bs cs. mul_b cols = fels bs \<and> mul_c cols = fels cs \<and>
     limbs_ok lb bs \<and> limbs_ok lb cs \<and> length bs = n \<and> length cs = n)"

interpretation rv32_mul: core_chip "\<lambda>_. range_tuple_table [256, 2048]" "mul_eval 4 8 (rv32_mul_air b)"
  "mul_row_wf 4 8 :: bb mul_cols \<Rightarrow> bool" "\<lambda>(bs, cs). two_operands_ok 4 8 (MUL, bs, cs)"
  "\<lambda>(bs, cs). mul_ctx 4 8 (rv32_mul_air b) bs cs"
  "\<lambda>(bs, cs). fst (mul_fill_core 4 8 \<lparr>mulr_b = bs, mulr_c = cs\<rparr>)"
  for b
proof (unfold_locales, goal_cases)
  case (1 cols)
  then obtain bs cs where r: "mul_b cols = fels bs" "mul_c cols = fels cs" "limbs_ok 8 bs"
      "limbs_ok 8 cs" "length bs = 4" "length cs = 4" "length (mul_a cols) = 4"
    by (auto simp: mul_row_wf_def)
  have "core_ctx (mul_eval 4 8 (rv32_mul_air b) cols) = mul_ctx 4 8 (rv32_mul_air b) bs cs"
    by (rule mul_eval_sound [OF 1(2) _ 1(3) r(1,3,5) r(2,4,6) r(7), where K = 2048]) (simp_all add: bb_CHAR)
  with r show ?case by (intro exI [of _ "(bs, cs)"]) (simp add: two_operands_ok_def)
next
  case (2 x)
  obtain bs cs where x: "x = (bs, cs)" by (cases x) auto
  show ?case unfolding x prod.case
    using mul_complete [where lb = 8 and n = 4 and K = 2048 and rec = "\<lparr>mulr_b = bs, mulr_c = cs\<rparr>"
        and air = "rv32_mul_air b" and T = "\<lambda>_. range_tuple_table [256, 2048]" and 'f = bb] 2
    by (simp add: x two_operands_ok_def bb_CHAR)
next
  case (3 x y)
  obtain bs cs bs' cs' where xy: "x = (bs, cs)" "y = (bs', cs')" by (metis prod.exhaust)
  have c: "2 ^ 8 < CHAR(bb)" by (simp add: bb_CHAR)
  have "bs = bs'" "cs = cs'"
    by (rule fels_inject_limbs [OF _ _ c]; use 3 in \<open>simp add: xy mul_ctx_def two_operands_ok_def\<close>)+
  then show ?case by (simp add: xy)
qed

section \<open>Properties\<close>

text \<open>
  C19. An accepted valid row of the MUL chip writes the product of its operands modulo
  \<open>2 ^ (limb bits * limbs)\<close>, when the first size of the tuple bus is exactly \<open>2 ^ limb bits\<close>: the range
  checks on limbs and carries leave one solution.
\<close>

theorem mul_air_sound:
  fixes cols :: "'f::field mul_cols"
  assumes "accepts T (mul_eval n lb air cols)"
    and "\<And>k. T (rt_index (mul_bus air)) k \<Longrightarrow> range_tuple_table [2 ^ lb, K] k"
    and "is_valid (instruction (core_ctx (mul_eval n lb air cols))) = 1"
    and "mul_b cols = fels bs" "limbs_ok lb bs" "length bs = n"
    and "mul_c cols = fels cs" "limbs_ok lb cs" "length cs = n" "length (mul_a cols) = n"
    and "n * (2 ^ lb * 2 ^ lb) + K < CHAR('f)" "2 ^ lb * (K + 1) < CHAR('f)" "0 < K"
  shows "core_ctx (mul_eval n lb air cols) =
    \<lparr>to_pc = None, reads = [fels bs, fels cs], writes = [fels (to_limbs lb n (limbs_val lb bs * limbs_val lb cs))],
     instruction = \<lparr>is_valid = 1, opcode = of_nat (mul_air_offset air)\<rparr>\<rparr>"
  using mul_eval_sound [OF assms] unfolding mul_ctx_def .

theorem mul_air_sound_witness:
  "let cols = fst (mul_fill_core 4 8 \<lparr>mulr_b = [255, 255, 255, 255], mulr_c = [2, 0, 0, 1]\<rparr>) :: bb mul_cols
   in writes (core_ctx (mul_eval 4 8 (rv32_mul_air 0) cols)) =
     [fels (to_limbs 8 4 (limbs_val 8 [255, 255, 255, 255] * limbs_val 8 [2, 0, 0, 1]))]"
proof -
  let ?r = "\<lparr>mulr_b = [255, 255, 255, 255], mulr_c = [2, 0, 0, 1]\<rparr>"
  let ?cols = "fst (mul_fill_core 4 8 ?r) :: bb mul_cols"
  let ?air = "rv32_mul_air 0"
  have c: "accepts (\<lambda>_. range_tuple_table [2 ^ 8, 2048]) (mul_eval 4 8 ?air ?cols) \<and>
      core_ctx (mul_eval 4 8 ?air ?cols) = mul_ctx 4 8 ?air (mulr_b ?r) (mulr_c ?r)"
    by (rule mul_complete) (simp_all add: bb_CHAR)
  have cols: "mul_b ?cols = fels [255, 255, 255, 255]" "mul_c ?cols = fels [2, 0, 0, 1]"
    by (simp_all add: mul_fill_core_def split: prod.splits)
  have len: "length (mul_a ?cols) = 4" using c by (simp add: mul_eval_def mul_ctx_def)
  have "is_valid (instruction (core_ctx (mul_eval 4 8 ?air ?cols))) = 1" using c by (simp add: mul_ctx_def)
  from mul_air_sound [OF conjunct1 [OF c] _ this cols(1) _ _ cols(2) _ _ len] show ?thesis
    unfolding Let_def by (simp add: bb_CHAR)
qed

text \<open>
  C20. The row the MUL filler writes satisfies every constraint, its active lookups are exactly the
  pairs of limb and carry it asked for, all within the sizes of the tuple chip, and it writes the
  result of \<open>run_mul\<close>: the \<open>u32\<close> accumulation never overflows.
\<close>

theorem mul_filled_row:
  fixes cols :: "'f::field mul_cols"
  assumes "mul_fill_core n lb rec = (cols, reqs)" "mul_eval n lb air cols = (as, is, ctx)"
    and "limbs_ok lb (mulr_b rec)" "length (mulr_b rec) = n" "limbs_ok lb (mulr_c rec)" "length (mulr_c rec) = n"
    and "0 < n" "n * (2 ^ lb * 2 ^ lb) < 2 ^ 32" "lb \<le> 8" "n * 2 ^ lb \<le> K" "2 ^ lb < CHAR('f)"
  shows "all_satisfied as \<and> active is = concat (map (range_tuple_lookup (mul_bus air)) reqs) \<and>
    list_all (range_tuple_request_ok [2 ^ lb, K]) reqs \<and> is_valid (instruction ctx) = 1 \<and>
    writes ctx = [fels (fst (run_mul n lb (mulr_b rec) (mulr_c rec)))] \<and>
    fst (run_mul n lb (mulr_b rec) (mulr_c rec)) = to_limbs lb n (limbs_val lb (mulr_b rec) * limbs_val lb (mulr_c rec))"
proof -
  note c = mul_fill_complete [OF assms(1,3-11), of air]
  obtain xs ks where run: "run_mul n lb (mulr_b rec) (mulr_c rec) = (xs, ks)" by (metis prod.exhaust)
  note R = run_mul_carries [OF assms(3-9) run]
  show ?thesis using c carries_product [OF R(5,3,1)] assms(2) by (auto simp: run mul_ctx_def mul_eval_def)
qed

theorem mul_filled_row_witness:
  "let (cols, reqs) = mul_fill_core 4 8 \<lparr>mulr_b = [255, 255, 255, 255], mulr_c = [2, 0, 0, 1]\<rparr>;
       (as, is, ctx) = mul_eval 4 8 (rv32_mul_air 0) cols
   in all_satisfied as \<and> writes ctx = [fels [254, 255, 255, 254] :: bb list]"
proof -
  let ?r = "\<lparr>mulr_b = [255, 255, 255, 255], mulr_c = [2, 0, 0, 1]\<rparr>"
  obtain cols reqs where f: "mul_fill_core 4 8 ?r = (cols :: bb mul_cols, reqs)" by (metis prod.exhaust)
  obtain as "is" ctx where e: "mul_eval 4 8 (rv32_mul_air 0) cols = (as, is, ctx)" by (metis prod.exhaust)
  show ?thesis
    using mul_filled_row [OF f e, of 2048] by (simp add: f [simplified] e bb_CHAR to_limbs_4)
qed

text \<open>
  The first size of the tuple bus matters: \<open>Rv32M\<close> reuses any tuple checker whose sizes are at least
  those it needs. With a first size of 512 the row that writes \<open>[256, 0, 0, 0]\<close> for 16 times 16 is
  accepted.
\<close>

lemma mul_wide_tuple_bus:
  "let air = rv32_mul_air 0;
       cols = \<lparr>mul_a = fels [256, 0, 0, 0], mul_b = fels [16, 0, 0, 0], mul_c = fels [16, 0, 0, 0], mul_is_valid = 1\<rparr> :: bb mul_cols
   in accepts (\<lambda>_. range_tuple_table [512, 2048]) (mul_eval 4 8 air cols)"
proof -
  have "range_tuple_table [512, 2048] [of_nat u, of_nat v :: bb]" if "u < 512" "v < 2048" for u v
    using that by (auto simp: range_tuple_pair)
  from this [of 256 0] this [of 0 0] show ?thesis
    by (simp add: Let_def accepts_def mul_eval_def mul_carry_def air_defs prod_sum_def eval_nat_numeral)
qed

end
