(* ===== verification/MulH.thy ===== *)
theory MulH
  imports Mul
begin

text \<open>
  \<open>extensions/rv32im/circuit/src/mulh/core.rs\<close>: the core chip for MULH, MULHSU and MULHU, the high
  half of a product of two signed, a signed and an unsigned, or two unsigned numbers.
\<close>

section \<open>The model\<close>

record 'f mulh_cols =
  mh_a :: "'f list"
  mh_b :: "'f list"
  mh_c :: "'f list"
  mh_a_mul :: "'f list"
  mh_b_ext :: 'f
  mh_c_ext :: 'f
  opcode_mulh_flag :: 'f
  opcode_mulhsu_flag :: 'f
  opcode_mulhu_flag :: 'f

record mulh_air =
  mh_bitwise_bus :: nat
  mh_tuple_bus :: range_tuple_bus

definition mulh_carry_mul :: "nat \<Rightarrow> 'f::field mulh_cols \<Rightarrow> nat \<Rightarrow> 'f" where
  "mulh_carry_mul limb_bits cols = carry_col limb_bits (prod_sum (mh_b cols) (mh_c cols)) ((!) (mh_a_mul cols)) 0"

definition mulh_carry :: "nat \<Rightarrow> nat \<Rightarrow> 'f::field mulh_cols \<Rightarrow> nat \<Rightarrow> 'f" where
  "mulh_carry num_limbs limb_bits cols =
     carry_col limb_bits (high_sum num_limbs (mh_b cols) (mh_c cols) (mh_b_ext cols) (mh_c_ext cols))
       ((!) (mh_a cols)) (mulh_carry_mul limb_bits cols (num_limbs - 1))"

definition mulh_eval ::
  "nat \<Rightarrow> nat \<Rightarrow> mulh_air \<Rightarrow> 'f::field mulh_cols \<Rightarrow> ('f, 'f minimal_instruction) core_eval" where
  "mulh_eval num_limbs limb_bits air cols =
     (let flags = [opcode_mulh_flag cols, opcode_mulhsu_flag cols, opcode_mulhu_flag cols];
          valid = fold (\<lambda>flag acc. acc + flag) flags 0;
          b = mh_b cols; c = mh_c cols;
          sign_mask = of_nat (2 ^ (limb_bits - 1));
          ext_inv = inverse (of_nat (2 ^ limb_bits - 1));
          b_sign = mh_b_ext cols * ext_inv; c_sign = mh_c_ext cols * ext_inv
      in (map assert_bool flags @ [assert_bool valid] @
          [assert_bool b_sign, assert_bool c_sign,
           When (opcode_mulhu_flag cols) (assert_zero b_sign),
           When (opcode_mulhu_flag cols + opcode_mulhsu_flag cols) (assert_zero c_sign)],
          map (\<lambda>i. range_tuple_send (mh_tuple_bus air) [mh_a_mul cols ! i, mulh_carry_mul limb_bits cols i] valid) [0..<num_limbs] @
          map (\<lambda>i. range_tuple_send (mh_tuple_bus air) [mh_a cols ! i, mulh_carry num_limbs limb_bits cols i] valid) [0..<num_limbs] @
          [send_range (mh_bitwise_bus air)
             (of_nat 2 * (b ! (num_limbs - 1) - b_sign * sign_mask))
             ((opcode_mulh_flag cols + 1) * (c ! (num_limbs - 1) - c_sign * sign_mask))
             (opcode_mulh_flag cols + opcode_mulhsu_flag cols)],
          \<lparr>to_pc = None, reads = [b, c], writes = [mh_a cols],
           instruction = \<lparr>is_valid = valid,
             opcode = expr_to_global_expr mulh_offset (expected_opcode flags mulh_opcodes)\<rparr>\<rparr>))"

text \<open>\<open>run_mulh\<close>: the high limbs, the low limbs, all carries, and the two extension limbs.\<close>

definition run_mulh ::
  "nat \<Rightarrow> nat \<Rightarrow> MulHOpcode \<Rightarrow> nat list \<Rightarrow> nat list \<Rightarrow> nat list \<times> nat list \<times> nat list \<times> nat \<times> nat" where
  "run_mulh num_limbs limb_bits opc x y =
     (let ps = limb_loop limb_bits (acc_products x y) 0 [0..<num_limbs];
          max_limb = wsub 32 (wshl 32 1 limb_bits) 1;
          x_ext = wmul 32 (wshr (x ! (num_limbs - 1)) (limb_bits - 1)) (if opc = MULHU then 0 else max_limb);
          y_ext = wmul 32 (wshr (y ! (num_limbs - 1)) (limb_bits - 1)) (if opc = MULH then max_limb else 0);
          qs = limb_loop limb_bits (acc_high num_limbs x y x_ext y_ext) (snd (ps ! (num_limbs - 1))) [0..<num_limbs]
      in (map fst qs, map fst ps, map snd ps @ map snd qs, x_ext, y_ext))"

record mulh_record =
  mhr_b :: "nat list"
  mhr_c :: "nat list"
  mhr_local_opcode :: nat

definition mulh_execute ::
  "nat \<Rightarrow> nat \<Rightarrow> ('f, 'm, 'ar) adapter_trace_executor \<Rightarrow> 'ar \<Rightarrow>
   ('m, 'ar \<times> mulh_record) vm_state_mut \<Rightarrow> 'f instr \<Rightarrow>
   execution_error + ('m, 'ar \<times> mulh_record) vm_state_mut" where
  "mulh_execute num_limbs limb_bits A fresh s i =
     (let r0 = a_start A (s_pc s) (s_memory s) fresh;
          local_opcode = wrap 8 (local_opcode_idx (i_opcode i) mulh_offset)
      in case from_repr mulh_opcodes local_opcode of
           None \<Rightarrow> Inl Panic
         | Some mulh_opcode \<Rightarrow>
            (let (m1, r1, data) = a_read A (s_memory s) i r0;
                 core = \<lparr>mhr_b = data ! 0, mhr_c = data ! 1, mhr_local_opcode = local_opcode\<rparr>;
                 (a, _, _, _, _) = run_mulh num_limbs limb_bits mulh_opcode (mhr_b core) (mhr_c core);
                 (m2, r2) = a_write A m1 i [map (wrap 8) a] r1
             in Inr (s\<lparr>s_memory := m2, s_arena := s_arena s @ [(r2, core)],
                       s_pc := wadd 32 (s_pc s) DEFAULT_PC_STEP\<rparr>)))"

definition mulh_fill_core ::
  "nat \<Rightarrow> nat \<Rightarrow> MulHOpcode \<Rightarrow> mulh_record \<Rightarrow> 'f::field mulh_cols \<times> lookup_request list" where
  "mulh_fill_core num_limbs limb_bits opc rec =
     (let b = mhr_b rec; c = mhr_c rec;
          (a, a_mul, carry, b_ext, c_ext) = run_mulh num_limbs limb_bits opc b c;
          mask = (\<lambda>ext. if ext = 0 then 0 else 2 ^ (limb_bits - 1))
      in (\<lparr>mh_a = fels a, mh_b = fels b, mh_c = fels c, mh_a_mul = fels a_mul,
           mh_b_ext = of_nat b_ext, mh_c_ext = of_nat c_ext,
           opcode_mulh_flag = from_bool (opc = MULH), opcode_mulhsu_flag = from_bool (opc = MULHSU),
           opcode_mulhu_flag = from_bool (opc = MULHU)\<rparr>,
          concat (map (\<lambda>i. [Add_tuple [a_mul ! i, carry ! i], Add_tuple [a ! i, carry ! (num_limbs + i)]]) [0..<num_limbs]) @
          (if opc \<noteq> MULHU
           then [Request_range (wshl 32 (wsub 32 (b ! (num_limbs - 1)) (mask b_ext)) 1)
                   (wshl 32 (wsub 32 (c ! (num_limbs - 1)) (mask c_ext)) (of_bool (opc = MULH)))]
           else [])))"

definition mulh_fill_trace_row ::
  "nat \<Rightarrow> nat \<Rightarrow> ('mh, 'ar, 'ac) adapter_filler \<Rightarrow> 'mh \<Rightarrow> 'ar \<Rightarrow> mulh_record \<Rightarrow>
   (('ac \<times> 'f::field mulh_cols) \<times> lookup_request list) option" where
  "mulh_fill_trace_row num_limbs limb_bits fill mem_helper arec rec =
     (let (acols, areqs) = fill mem_helper arec in
      map_option (\<lambda>opc.
          let (cols, reqs) = mulh_fill_core num_limbs limb_bits opc rec
          in ((acols, cols), areqs @ reqs))
        (from_repr mulh_opcodes (mhr_local_opcode rec)))"

section \<open>Soundness\<close>

definition mulh_spec :: "nat \<Rightarrow> nat \<Rightarrow> MulHOpcode \<Rightarrow> nat list \<Rightarrow> nat list \<Rightarrow> nat" where
  "mulh_spec n lb op bs cs =
     nat (sval lb (op \<noteq> MULHU) bs * sval lb (op = MULH) cs div 2 ^ (lb * n) mod 2 ^ (lb * n))"

definition mulh_ctx ::
  "nat \<Rightarrow> nat \<Rightarrow> MulHOpcode \<Rightarrow> nat list \<Rightarrow> nat list \<Rightarrow> ('f::field, 'f minimal_instruction) adapter_air_context" where
  "mulh_ctx n lb op bs cs =
     \<lparr>to_pc = None, reads = [fels bs, fels cs], writes = [fels (to_limbs lb n (mulh_spec n lb op bs cs))],
      instruction = \<lparr>is_valid = 1, opcode = of_nat (mulh_offset + repr_of mulh_opcodes op)\<rparr>\<rparr>"

lemma mulh_opcodes_simps [simp]:
  "repr_of mulh_opcodes MULH = 0" "repr_of mulh_opcodes MULHSU = 1" "repr_of mulh_opcodes MULHU = 2"
  "distinct mulh_opcodes" "op \<in> set mulh_opcodes" "length mulh_opcodes = 3"
  by (cases op; simp add: mulh_opcodes_def)+

text \<open>The extension limb of an operand.\<close>

definition ext_limb :: "nat \<Rightarrow> nat \<Rightarrow> bool \<Rightarrow> nat list \<Rightarrow> nat" where
  "ext_limb n lb sg xs = of_bool (sg \<and> 2 ^ (lb - 1) \<le> xs ! (n - 1)) * (2 ^ lb - 1)"

text \<open>Two carry chains over the extended operands give the high half of the product.\<close>

lemma carries_high_product:
  fixes bs cs :: "nat list"
  defines "be \<equiv> \<lambda>n lb sb. ext_limb n lb sb bs" and "ce \<equiv> \<lambda>n lb sc. ext_limb n lb sc cs"
  assumes b: "length bs = n" and c: "length cs = n"
    and low: "carries n lb (conv bs cs) (\<lambda>i. ms ! i) 0 k" "limbs_ok lb ms" "length ms = n"
    and high: "carries n lb (\<lambda>j. conv (extended n bs (be n lb sb)) (extended n cs (ce n lb sc)) (n + j)) (\<lambda>i. as ! i) (k (n - 1)) l"
      "limbs_ok lb as" "length as = n" and n: "0 < n"
  shows "as = to_limbs lb n (nat (sval lb sb bs * sval lb sc cs div 2 ^ (lb * n) mod 2 ^ (lb * n)))"
proof -
  let ?bs = "extended n bs (be n lb sb)" and ?cs = "extended n cs (ce n lb sc)"
  have "carries n lb (conv ?bs ?cs) (\<lambda>i. ms ! i) 0 k"
    by (rule carries_cong [THEN iffD1, OF _ _ _ low(1)]) (simp_all add: conv_extend_low b c)
  then have "carries (n + n) lb (conv ?bs ?cs) (\<lambda>i. if i < n then ms ! i else as ! (i - n)) 0 (\<lambda>i. if i < n then k i else l (i - n))"
    by (rule carries_append) (use high(1) n in simp)
  then have "carries (n + n) lb (conv ?bs ?cs) (\<lambda>i. (ms @ as) ! i) 0 (\<lambda>i. if i < n then k i else l (i - n))"
    by (rule carries_cong [THEN iffD1, rotated -1]) (simp_all add: nth_append low(3))
  from carries_product [OF this] have "ms @ as = to_limbs lb (n + n) (limbs_val lb ?bs * limbs_val lb ?cs)"
    using low(2,3) high(2,3) by simp
  then have "as = to_limbs lb n (limbs_val lb ?bs * limbs_val lb ?cs div 2 ^ (lb * n))"
    unfolding to_limbs_add using low(3) by simp
  then show ?thesis unfolding be_def ce_def ext_limb_def high_product [OF b c] .
qed

lemma ext_limb_bound: "ext_limb n lb sg xs \<le> 2 ^ lb - 1" "ext_limb n lb sg xs < 2 ^ lb"
  by (simp_all add: ext_limb_def)

lemma conv_extend_bound:
  assumes "limbs_ok lb bs" "limbs_ok lb cs" "j < n"
  shows "conv (extended n bs (ext_limb n lb sb bs)) (extended n cs (ext_limb n lb sc cs)) (n + j) \<le>
    2 * n * ((2 ^ lb - 1) * (2 ^ lb - 1))"
proof -
  have "conv (extended n bs (ext_limb n lb sb bs)) (extended n cs (ext_limb n lb sc cs)) (n + j) \<le> Suc (n + j) * ((2 ^ lb - 1) * (2 ^ lb - 1))"
    by (rule conv_bound) (use assms ext_limb_bound in \<open>auto simp: list_all_iff\<close>)
  also have "\<dots> \<le> 2 * n * ((2 ^ lb - 1) * (2 ^ lb - 1))" by (rule mult_le_mono1) (use assms(3) in simp)
  finally show ?thesis .
qed

lemma ext_of_sign:
  fixes e :: "'f::field"
  assumes "e * inverse (of_nat (2 ^ lb - 1)) = from_bool b" "of_nat (2 ^ lb - 1) \<noteq> (0 :: 'f)"
  shows "e = of_nat (of_bool b * (2 ^ lb - 1))"
proof -
  have "e * inverse (of_nat (2 ^ lb - 1)) * of_nat (2 ^ lb - 1) = from_bool b * (of_nat (2 ^ lb - 1) :: 'f)" by (simp only: assms(1))
  then have "e = from_bool b * of_nat (2 ^ lb - 1)" by (simp only: mult.assoc left_inverse [OF assms(2)] mult_1_right)
  then show ?thesis by (cases b) simp_all
qed

lemma max_limb_neq_0:
  assumes "2 ^ lb < CHAR('f::field)" "0 < lb"
  shows "of_nat (2 ^ lb - 1) \<noteq> (0 :: 'f)"
proof -
  have "1 < (2::nat) ^ lb" using assms(2) by (intro one_less_power) simp_all
  then show ?thesis using assms(1) by (subst of_nat_eq_0_char) linarith+
qed

lemma mulh_eval_sound:
  fixes cols :: "'f::field mulh_cols"
  assumes acc: "accepts T (mulh_eval n lb air cols)"
    and table: "\<And>k. T (mh_bitwise_bus air) k \<Longrightarrow> bitwise_table lb k"
      "\<And>k. T (rt_index (mh_tuple_bus air)) k \<Longrightarrow> range_tuple_table [2 ^ lb, K] k"
    and valid: "is_valid (instruction (core_ctx (mulh_eval n lb air cols))) = 1"
    and b: "mh_b cols = fels bs" "limbs_ok lb bs" "length bs = n"
    and c: "mh_c cols = fels cs" "limbs_ok lb cs" "length cs = n"
    and a: "length (mh_a cols) = n" "length (mh_a_mul cols) = n"
    and char: "2 * n * (2 ^ lb * 2 ^ lb) + K < CHAR('f)" "2 ^ lb * (K + 1) < CHAR('f)" and K: "0 < K"
    and n: "0 < n" and lb: "0 < lb"
  shows "\<exists>op. core_ctx (mulh_eval n lb air cols) = mulh_ctx n lb op bs cs"
proof -
  note ev = mulh_eval_def [of n lb air cols, unfolded Let_def]
  let ?flags = "[opcode_mulh_flag cols, opcode_mulhsu_flag cols, opcode_mulhu_flag cols]"
  have v1: "fold (\<lambda>flag acc. acc + flag) ?flags 0 = 1" using valid by (simp add: ev)
  have L2: "2 \<le> (2::nat) ^ lb" using power_increasing [of 1 lb "2::nat"] lb by simp
  have c2: "2 ^ (lb + 1) < CHAR('f)" "2 ^ lb < CHAR('f)" "3 < CHAR('f)"
  proof -
    have "2 ^ lb * 2 \<le> (2::nat) ^ lb * (K + 1)" using K by (intro mult_le_mono2) simp
    then have "2 ^ lb * 2 < CHAR('f)" using char(2) by linarith
    then show "2 ^ (lb + 1) < CHAR('f)" "2 ^ lb < CHAR('f)" "3 < CHAR('f)" using L2 by simp_all
  qed
  note E = max_limb_neq_0 [OF c2(2) lb]
  obtain op where op: "?flags = opcode_flags mulh_opcodes op"
  proof (rule flags_select [of ?flags mulh_opcodes])
    show "x = 0 \<or> x = 1" if "x \<in> set ?flags" for x using acc that by (auto simp: accepts_def ev)
  qed (use c2 v1 in simp_all)
  then have flags: "opcode_mulh_flag cols = from_bool (op = MULH)" "opcode_mulhsu_flag cols = from_bool (op = MULHSU)"
      "opcode_mulhu_flag cols = from_bool (op = MULHU)"
    by (auto simp: opcode_flags_def mulh_opcodes_def)
  define s where "s = mh_b_ext cols * inverse (of_nat (2 ^ lb - 1))"
  define t where "t = mh_c_ext cols * inverse (of_nat (2 ^ lb - 1))"
  note ev' = ev [folded s_def t_def]
  have sat: "satisfied (assert_bool s)" "satisfied (assert_bool t)"
      "satisfied (When (opcode_mulhu_flag cols) (assert_zero s))"
      "satisfied (When (opcode_mulhu_flag cols + opcode_mulhsu_flag cols) (assert_zero t))"
    using acc unfolding accepts_def ev' by simp_all
  have st: "s = 0 \<or> s = 1" "t = 0 \<or> t = 1" using sat(1,2) by simp_all
  have top: "bs ! (n - 1) < 2 ^ lb" "cs ! (n - 1) < 2 ^ lb" "mh_b cols ! (n - 1) = of_nat (bs ! (n - 1))"
      "mh_c cols ! (n - 1) = of_nat (cs ! (n - 1))"
    using b c n by (simp_all add: list_all_length)
  have look: "lookups_ok T (fst (snd (mulh_eval n lb air cols)))" using acc by (simp add: accepts_def)
  have "lookup_ok T (send_range (mh_bitwise_bus air) (of_nat 2 * (of_nat (bs ! (n - 1)) - s * of_nat (2 ^ (lb - 1))))
      ((opcode_mulh_flag cols + 1) * (of_nat (cs ! (n - 1)) - t * of_nat (2 ^ (lb - 1)))) (opcode_mulh_flag cols + opcode_mulhsu_flag cols))"
    using look unfolding ev' top(3,4) by simp
  then have rng: "op \<noteq> MULHU \<Longrightarrow> bitwise_table lb [of_nat 2 * (of_nat (bs ! (n - 1)) - s * of_nat (2 ^ (lb - 1))),
      (opcode_mulh_flag cols + 1) * (of_nat (cs ! (n - 1)) - t * of_nat (2 ^ (lb - 1))), 0, 0]"
    using table(1) by (cases op) (auto simp: air_defs flags simp del: of_nat_power of_nat_numeral)
  have "s = from_bool (op \<noteq> MULHU \<and> 2 ^ (lb - 1) \<le> bs ! (n - 1))"
  proof (cases "op = MULHU")
    case True
    then show ?thesis using sat(3) by (simp add: flags)
  next
    case False
    obtain u where "of_nat 2 * (of_nat (bs ! (n - 1)) - s * of_nat (2 ^ (lb - 1))) = (of_nat u :: 'f)" "u < 2 ^ lb"
      using rng [OF False] unfolding bitwise_table_range by blast
    from sign_range_sound [OF this top(1) lb c2(1) st(1)] show ?thesis using False by simp
  qed
  from ext_of_sign [OF this [unfolded s_def] E] have be: "mh_b_ext cols = of_nat (ext_limb n lb (op \<noteq> MULHU) bs)"
    by (simp only: ext_limb_def)
  have "t = from_bool (op = MULH \<and> 2 ^ (lb - 1) \<le> cs ! (n - 1))"
  proof (cases "op = MULH")
    case False
    then show ?thesis using sat(4) by (cases op) (simp_all add: flags)
  next
    case True
    have "(opcode_mulh_flag cols + 1 :: 'f) = of_nat 2" using True by (simp add: flags)
    then obtain u where "of_nat 2 * (of_nat (cs ! (n - 1)) - t * of_nat (2 ^ (lb - 1))) = (of_nat u :: 'f)" "u < 2 ^ lb"
      using rng True unfolding bitwise_table_range by (metis MulHOpcode.distinct(3))
    from sign_range_sound [OF this top(2) lb c2(1) st(2)] show ?thesis using True by simp
  qed
  from ext_of_sign [OF this [unfolded t_def] E] have ce: "mh_c_ext cols = of_nat (ext_limb n lb (op = MULH) cs)"
    by (simp only: ext_limb_def)
  have tab: "range_tuple_table [2 ^ lb, K] [mh_a_mul cols ! i, mulh_carry_mul lb cols i]"
      "range_tuple_table [2 ^ lb, K] [mh_a cols ! i, mulh_carry n lb cols i]" if "i < n" for i
    using look that table(2) v1 by (auto simp: ev air_defs)
  obtain x k where x: "\<And>i. i < n \<Longrightarrow> mh_a_mul cols ! i = of_nat (x i) \<and> x i < 2 ^ lb"
      and k: "\<And>i. i < n \<Longrightarrow> mulh_carry_mul lb cols i = of_nat (k i) \<and> k i < K"
    using pair_columns [of n "2 ^ lb" K "\<lambda>i. mh_a_mul cols ! i" "mulh_carry_mul lb cols"] tab(1) by blast
  obtain y l where y: "\<And>i. i < n \<Longrightarrow> mh_a cols ! i = of_nat (y i) \<and> y i < 2 ^ lb"
      and l: "\<And>i. i < n \<Longrightarrow> mulh_carry n lb cols i = of_nat (l i) \<and> l i < K"
    using pair_columns [of n "2 ^ lb" K "\<lambda>i. mh_a cols ! i" "mulh_carry n lb cols"] tab(2) by blast
  let ?ms = "map x [0..<n]" and ?as = "map y [0..<n]"
  let ?bs = "extended n bs (ext_limb n lb (op \<noteq> MULHU) bs)" and ?cs = "extended n cs (ext_limb n lb (op = MULH) cs)"
  have as: "mh_a cols = fels ?as" by (rule nth_equalityI) (use y a in auto)
  have ok: "limbs_ok lb ?ms" "limbs_ok lb ?as" using x y by (simp_all add: list_all_iff)
  have "(2 ^ lb - 1) * (2 ^ lb - 1) \<le> 2 ^ lb * (2 ^ lb :: nat)" by (intro mult_le_mono) simp_all
  then have M: "2 * n * ((2 ^ lb - 1) * (2 ^ lb - 1)) + K < CHAR('f)"
    using char(1) mult_le_mono2 [of "(2 ^ lb - 1) * (2 ^ lb - 1)" "2 ^ lb * (2 ^ lb :: nat)" "2 * n"] by linarith
  have low_le: "conv bs cs i \<le> 2 * n * ((2 ^ lb - 1) * (2 ^ lb - 1))" if "i < n" for i
    using conv_bound_n [OF b(2) c(2) that] by (simp add: mult.assoc)
  have "carries n lb (conv bs cs) x 0 k"
  proof (rule carry_col_sound [OF _ x _ K low_le M char(2)])
    show "carry_col lb (prod_sum (mh_b cols) (mh_c cols)) ((!) (mh_a_mul cols)) (of_nat 0) i = of_nat (k i) \<and> k i < K" if "i < n" for i
      using k [OF that] by (simp add: mulh_carry_mul_def)
  qed (use b c in \<open>simp_all add: prod_sum_fels\<close>)
  moreover have "carries n lb (\<lambda>j. conv ?bs ?cs (n + j)) y (k (n - 1)) l"
  proof (rule carry_col_sound [OF _ y _ _ conv_extend_bound [OF b(2) c(2)] M char(2)])
    have kn: "mulh_carry_mul lb cols (n - 1) = of_nat (k (n - 1))" using k [of "n - 1"] n by simp
    show "carry_col lb (high_sum n (mh_b cols) (mh_c cols) (mh_b_ext cols) (mh_c_ext cols)) ((!) (mh_a cols)) (of_nat (k (n - 1))) i =
        of_nat (l i) \<and> l i < K" if "i < n" for i
      using l [OF that] unfolding mulh_carry_def kn .
    show "high_sum n (mh_b cols) (mh_c cols) (mh_b_ext cols) (mh_c_ext cols) i = of_nat (conv ?bs ?cs (n + i))" if "i < n" for i
      using b c that by (simp add: be ce high_sum_fels)
  qed (use k n in simp_all)
  ultimately have "?as = to_limbs lb n (mulh_spec n lb op bs cs)"
    unfolding mulh_spec_def
    by (intro carries_high_product [OF b(3) c(3) _ ok(1) _ _ ok(2) _ n, of k _ _ l])
      (simp_all add: carries_cong [where x = x and x' = "\<lambda>i. ?ms ! i"] carries_cong [where x = y and x' = "\<lambda>i. ?as ! i"])
  moreover have "expected_opcode ?flags mulh_opcodes = (of_nat (repr_of mulh_opcodes op) :: 'f)"
    unfolding op by (rule expected_opcode_flags) simp_all
  ultimately have "core_ctx (mulh_eval n lb air cols) = mulh_ctx n lb op bs cs"
    using v1 as unfolding ev by (simp add: mulh_ctx_def b(1) c(1) expr_to_global_expr_def)
  then show ?thesis by blast
qed

section \<open>Completeness\<close>

lemma ext_limb_run:
  assumes "limbs_ok lb xs" "length xs = n" "0 < n" "0 < lb" "lb \<le> 8"
  shows "wmul 32 (wshr (xs ! (n - 1)) (lb - 1)) (if sg then wsub 32 (wshl 32 1 lb) 1 else 0) = ext_limb n lb sg xs"
proof -
  have "xs ! (n - 1) < 2 ^ lb" using assms by (simp add: list_all_length)
  then have t: "wshr (xs ! (n - 1)) (lb - 1) = of_bool (2 ^ (lb - 1) \<le> xs ! (n - 1))"
    using top_bit_div assms(4) by (simp add: wshr_def)
  note le = pow_le_256 [OF assms(5)]
  have "wshl 32 1 lb = 2 ^ lb" "wsub 32 (2 ^ lb) 1 = 2 ^ lb - 1" using le by (simp_all add: wshl_def wsub_small)
  then show ?thesis unfolding t ext_limb_def using le by (cases sg) (simp_all add: wmul_def)
qed

lemma run_mulh_carries:
  fixes bs cs :: "nat list"
  defines "be \<equiv> \<lambda>n lb op. ext_limb n lb (op \<noteq> MULHU) bs" and "ce \<equiv> \<lambda>n lb op. ext_limb n lb (op = MULH) cs"
  assumes b: "limbs_ok lb bs" "length bs = n" and c: "limbs_ok lb cs" "length cs = n"
    and n: "0 < n" "2 * n * (2 ^ lb * 2 ^ lb) < 2 ^ 32" and lb: "0 < lb" "lb \<le> 8"
  obtains as ms ks ls where "run_mulh n lb op bs cs = (as, ms, ks @ ls, be n lb op, ce n lb op)"
    "length as = n" "length ms = n" "length ks = n" "length ls = n" "limbs_ok lb as" "limbs_ok lb ms"
    "list_all (\<lambda>k. k < 2 * n * 2 ^ lb) (ks @ ls)"
    "carries n lb (conv bs cs) (\<lambda>i. ms ! i) 0 (\<lambda>i. ks ! i)"
    "carries n lb (\<lambda>j. conv (extended n bs (be n lb op)) (extended n cs (ce n lb op)) (n + j)) (\<lambda>i. as ! i)
      (ks ! (n - 1)) (\<lambda>i. ls ! i)"
proof -
  let ?K = "2 * n * 2 ^ lb" and ?M = "2 * n * ((2 ^ lb - 1) * (2 ^ lb - 1))"
  let ?ps = "limb_loop lb (acc_products bs cs) 0 [0..<0 + n]"
  let ?S = "\<lambda>j. conv (extended n bs (be n lb op)) (extended n cs (ce n lb op)) (n + j)"
  have MK: "?M + ?K \<le> 2 ^ lb * ?K" by (rule square_bound)
  have K32: "2 ^ lb * ?K < 2 ^ 32" using n(2) by (simp add: ac_simps)
  have S1: "conv bs cs i \<le> ?M" if "i < n" for i
    using conv_bound_n [OF b(1) c(1) that] by (simp add: mult.assoc)
  have S2: "?S i \<le> ?M" if "i < n" for i unfolding be_def ce_def by (rule conv_extend_bound [OF b(1) c(1) that])
  have L: "length ?ps = n \<and> (\<forall>p\<in>set ?ps. fst p < 2 ^ lb \<and> snd p < ?K) \<and>
    carries n lb (\<lambda>i. conv bs cs (0 + i)) (\<lambda>i. fst (?ps ! i)) 0 (\<lambda>i. snd (?ps ! i))"
  proof (rule limb_loop_carries)
    show "acc_products bs cs i c = conv bs cs i + c" if "i < 0 + n" "c < ?K" for i c
      by (rule acc_products_eq [OF _ b(2) c(2)]) (use that S1 [of i] MK K32 in linarith)+
    show "conv bs cs i + ?K \<le> 2 ^ lb * ?K" if "i < 0 + n" for i using that S1 [of i] MK by simp
  qed (use n(1) lb in auto)
  let ?c = "snd (?ps ! (n - 1))"
  let ?qs = "limb_loop lb (acc_high n bs cs (be n lb op) (ce n lb op)) ?c [0..<0 + n]"
  have c0: "?c < ?K" using L n(1) by (metis diff_less nth_mem zero_less_one)
  have sums: "(\<Sum>k\<le>j. zs ! k) < 2 ^ 32" if "limbs_ok lb zs" "length zs = n" "j < n" for zs j
  proof -
    have "(\<Sum>k\<le>j. zs ! k) \<le> (\<Sum>k\<le>j. 2 ^ lb)" by (rule sum_mono) (use that in \<open>auto simp: list_all_length intro: less_imp_le\<close>)
    also have "\<dots> = Suc j * 2 ^ lb" by simp
    also have "\<dots> \<le> ?K" by (rule mult_le_mono1) (use that(3) in simp)
    finally show ?thesis using MK K32 by linarith
  qed
  have H: "length ?qs = n \<and> (\<forall>p\<in>set ?qs. fst p < 2 ^ lb \<and> snd p < ?K) \<and>
    carries n lb (\<lambda>i. ?S (0 + i)) (\<lambda>i. fst (?qs ! i)) ?c (\<lambda>i. snd (?qs ! i))"
  proof (rule limb_loop_carries)
    show "acc_high n bs cs (be n lb op) (ce n lb op) i c = ?S i + c" if "i < 0 + n" "c < ?K" for i c
    proof (rule acc_high_eq [OF _ b(2) c(2)])
      show "c + ?S i < 2 ^ 32" using that S2 [of i] MK K32 by linarith
    qed (use that sums [OF b] sums [OF c] in auto)
    show "?S i + ?K \<le> 2 ^ lb * ?K" if "i < 0 + n" for i using that S2 [of i] MK by simp
  qed (use c0 lb in auto)
  have ext: "wmul 32 (wshr (bs ! (n - 1)) (lb - 1)) (if op = MULHU then 0 else wsub 32 (wshl 32 1 lb) 1) = be n lb op"
      "wmul 32 (wshr (cs ! (n - 1)) (lb - 1)) (if op = MULH then wsub 32 (wshl 32 1 lb) 1 else 0) = ce n lb op"
    using ext_limb_run [OF b n(1) lb, of "op \<noteq> MULHU"] ext_limb_run [OF c n(1) lb, of "op = MULH"]
    by (cases op; simp add: be_def ce_def)+
  show ?thesis
  proof (rule that [of "map fst ?qs" "map fst ?ps" "map snd ?ps" "map snd ?qs"])
    show "run_mulh n lb op bs cs = (map fst ?qs, map fst ?ps, map snd ?ps @ map snd ?qs, be n lb op, ce n lb op)"
      unfolding run_mulh_def Let_def ext by simp
    show "carries n lb (conv bs cs) (\<lambda>i. map fst ?ps ! i) 0 (\<lambda>i. map snd ?ps ! i)"
      by (rule carries_cong [THEN iffD1, OF _ _ _ conjunct2 [OF conjunct2 [OF L]]]) (use L in simp_all)
    have "map snd ?ps ! (n - 1) = ?c" using L n(1) by simp
    then show "carries n lb ?S (\<lambda>i. map fst ?qs ! i) (map snd ?ps ! (n - 1)) (\<lambda>i. map snd ?qs ! i)"
      using carries_cong [THEN iffD1, OF _ _ _ conjunct2 [OF conjunct2 [OF H]]] H by simp
  qed (use L H in \<open>auto simp: list_all_iff\<close>)
qed

lemma mset_interleave: "mset (concat (map (\<lambda>i. [f i, g i]) is)) = mset (map f is) + mset (map g is)"
  by (induction "is") simp_all

lemma mulh_range_request:
  fixes sg :: bool
  assumes x: "limbs_ok lb xs" "length xs = n" "0 < n" and lb: "0 < lb" "lb \<le> 8"
  defines "m \<equiv> if ext_limb n lb sg xs = 0 then 0 else 2 ^ (lb - 1)" and "s \<equiv> sg \<and> 2 ^ (lb - 1) \<le> xs ! (n - 1)"
  shows "wshl 32 (wsub 32 (xs ! (n - 1)) m) (of_bool sg) < 2 ^ lb"
    "of_nat (wshl 32 (wsub 32 (xs ! (n - 1)) m) (of_bool sg)) =
      ((from_bool sg + 1) * (of_nat (xs ! (n - 1)) - from_bool s * of_nat (2 ^ (lb - 1))) :: 'f::field)"
proof -
  let ?x = "xs ! (n - 1)"
  have top: "?x < 2 ^ lb" using x by (simp add: list_all_length)
  have "1 < (2::nat) ^ lb" using lb(1) by (intro one_less_power) simp_all
  then have m: "m = (if s then 2 ^ (lb - 1) else 0)" by (auto simp: m_def s_def ext_limb_def)
  have w: "wshl 32 (wsub 32 ?x m) (of_bool sg) = (if sg then sign_range lb s ?x else ?x)"
    using top pow_le_256 [OF lb(2)] by (auto simp: sign_range_def m s_def wshl_def wsub_small)
  have sc: "sg \<Longrightarrow> s \<longleftrightarrow> 2 ^ (lb - 1) \<le> ?x" by (simp add: s_def)
  show "wshl 32 (wsub 32 ?x m) (of_bool sg) < 2 ^ lb"
    unfolding w using sign_range_complete(1) [OF top lb sc] top by simp
  show "of_nat (wshl 32 (wsub 32 ?x m) (of_bool sg)) =
      ((from_bool sg + 1) * (of_nat ?x - from_bool s * of_nat (2 ^ (lb - 1))) :: 'f)"
    unfolding w using sign_range_complete(2) [OF top lb sc, where 'f = 'f] by (cases sg) (simp_all add: s_def)
qed

lemma mulh_fill_complete:
  fixes cols :: "'f::field mulh_cols"
  assumes fill: "mulh_fill_core n lb op rec = (cols, reqs)"
    and b: "limbs_ok lb (mhr_b rec)" "length (mhr_b rec) = n" and c: "limbs_ok lb (mhr_c rec)" "length (mhr_c rec) = n"
    and n: "0 < n" "2 * n * (2 ^ lb * 2 ^ lb) < 2 ^ 32" and lb: "0 < lb" "lb \<le> 8"
    and K: "2 * n * 2 ^ lb \<le> K" and char: "2 ^ lb < CHAR('f)"
  shows "all_satisfied (fst (mulh_eval n lb air cols))"
    and "mset (active (fst (snd (mulh_eval n lb air cols)))) =
      mset (concat (map (range_tuple_lookup (mh_tuple_bus air)) reqs) @ concat (map (bitwise_lookup (mh_bitwise_bus air)) reqs))"
    and "list_all (range_tuple_request_ok [2 ^ lb, K]) reqs \<and> list_all (bitwise_request_ok lb) reqs"
    and "core_ctx (mulh_eval n lb air cols) = mulh_ctx n lb op (mhr_b rec) (mhr_c rec)"
    and "mh_a cols = fels (fst (run_mulh n lb op (mhr_b rec) (mhr_c rec)))"
proof -
  let ?b = "mhr_b rec" and ?c = "mhr_c rec"
  let ?be = "ext_limb n lb (op \<noteq> MULHU) ?b" and ?ce = "ext_limb n lb (op = MULH) ?c"
  obtain as ms ks ls where run: "run_mulh n lb op ?b ?c = (as, ms, ks @ ls, ?be, ?ce)"
    and len: "length as = n" "length ms = n" "length ks = n" "length ls = n" and ok: "limbs_ok lb as" "limbs_ok lb ms"
    and kb: "list_all (\<lambda>k. k < 2 * n * 2 ^ lb) (ks @ ls)"
    and low: "carries n lb (conv ?b ?c) (\<lambda>i. ms ! i) 0 (\<lambda>i. ks ! i)"
    and high: "carries n lb (\<lambda>j. conv (extended n ?b ?be) (extended n ?c ?ce) (n + j)) (\<lambda>i. as ! i) (ks ! (n - 1)) (\<lambda>i. ls ! i)"
    by (rule run_mulh_carries [OF b c n lb, of op])
  let ?m = "\<lambda>ext. if ext = 0 then 0 else 2 ^ (lb - 1) :: nat"
  define u w where "u = wshl 32 (wsub 32 (?b ! (n - 1)) (?m ?be)) 1"
    and "w = wshl 32 (wsub 32 (?c ! (n - 1)) (?m ?ce)) (of_bool (op = MULH))"
  have tuples: "map (\<lambda>i. [Add_tuple [ms ! i, (ks @ ls) ! i], Add_tuple [as ! i, (ks @ ls) ! (n + i)]]) [0..<n] =
      map (\<lambda>i. [Add_tuple [ms ! i, ks ! i], Add_tuple [as ! i, ls ! i]]) [0..<n]"
    by (rule map_cong) (simp_all add: nth_append len)
  have cols: "cols = \<lparr>mh_a = fels as, mh_b = fels ?b, mh_c = fels ?c, mh_a_mul = fels ms,
      mh_b_ext = of_nat ?be, mh_c_ext = of_nat ?ce, opcode_mulh_flag = from_bool (op = MULH),
      opcode_mulhsu_flag = from_bool (op = MULHSU), opcode_mulhu_flag = from_bool (op = MULHU)\<rparr>"
    and reqs: "reqs = concat (map (\<lambda>i. [Add_tuple [ms ! i, ks ! i], Add_tuple [as ! i, ls ! i]]) [0..<n]) @
      (if op \<noteq> MULHU then [Request_range u w] else [])"
    using fill unfolding mulh_fill_core_def Let_def run prod.case u_def w_def tuples by (simp_all only: prod.inject)
  show "mh_a cols = fels (fst (run_mulh n lb op ?b ?c))" by (simp add: cols run)
  have v1: "fold (\<lambda>flag acc. acc + flag) [opcode_mulh_flag cols, opcode_mulhsu_flag cols, opcode_mulhu_flag cols] 0 = 1"
    by (cases op) (simp_all add: cols)
  have k: "mulh_carry_mul lb cols i = of_nat (ks ! i)" if "i < n" for i
    using carry_col_complete [OF low, of "prod_sum (mh_b cols) (mh_c cols)" "(!) (mh_a_mul cols)"] that b c len char
    by (simp add: mulh_carry_mul_def cols prod_sum_fels)
  have l: "mulh_carry n lb cols i = of_nat (ls ! i)" if "i < n" for i
    using carry_col_complete [OF high, of "high_sum n (mh_b cols) (mh_c cols) (mh_b_ext cols) (mh_c_ext cols)" "(!) (mh_a cols)"]
      that b c len char k [of "n - 1"] n
    by (simp add: mulh_carry_def) (simp add: cols high_sum_fels)
  note E = max_limb_neq_0 [OF char lb(1)]
  let ?sb = "op \<noteq> MULHU \<and> 2 ^ (lb - 1) \<le> ?b ! (n - 1)" and ?sc = "op = MULH \<and> 2 ^ (lb - 1) \<le> ?c ! (n - 1)"
  have sg: "mh_b_ext cols * inverse (of_nat (2 ^ lb - 1)) = from_bool ?sb" "mh_c_ext cols * inverse (of_nat (2 ^ lb - 1)) = from_bool ?sc"
    using E by (auto simp: cols ext_limb_def from_bool_def)
  note ev = mulh_eval_def [of n lb air cols, unfolded Let_def sg v1]
  show "all_satisfied (fst (mulh_eval n lb air cols))" unfolding ev by (cases op) (auto simp: cols from_bool_def)
  note U = mulh_range_request [OF b n(1) lb, of "True"] and U' = mulh_range_request [OF b n(1) lb, of "op \<noteq> MULHU"]
    and W = mulh_range_request [OF c n(1) lb, of "op = MULH"]
  have uw: "u < 2 ^ lb" "of_nat u = (of_nat 2 * (of_nat (?b ! (n - 1)) - from_bool ?sb * of_nat (2 ^ (lb - 1))) :: 'f)" if "op \<noteq> MULHU"
    using U'(1) U'(2) [where 'f = 'f] that by (simp_all add: u_def)
  have ww: "w < 2 ^ lb" "of_nat w = ((opcode_mulh_flag cols + 1) * (of_nat (?c ! (n - 1)) - from_bool ?sc * of_nat (2 ^ (lb - 1))) :: 'f)"
    using W(1) W(2) [where 'f = 'f] by (simp_all add: w_def cols)
  show "list_all (range_tuple_request_ok [2 ^ lb, K]) reqs \<and> list_all (bitwise_request_ok lb) reqs"
  proof -
    have "list_all (\<lambda>k. k < 2 * n * 2 ^ lb) ks" "list_all (\<lambda>k. k < 2 * n * 2 ^ lb) ls" using kb by simp_all
    then have "ms ! i < 2 ^ lb \<and> as ! i < 2 ^ lb \<and> ks ! i < K \<and> ls ! i < K" if "i < n" for i
      using that ok K len by (auto simp: list_all_length intro: less_le_trans)
    then show ?thesis unfolding reqs using uw(1) ww(1) by (auto simp: list_all_iff)
  qed
  show "core_ctx (mulh_eval n lb air cols) = mulh_ctx n lb op ?b ?c"
  proof -
    have "as = to_limbs lb n (mulh_spec n lb op ?b ?c)" unfolding mulh_spec_def
      by (rule carries_high_product [OF b(2) c(2) low ok(2) len(2) high ok(1) len(1) n(1)])
    then show ?thesis unfolding ev mulh_ctx_def
      by (cases op) (simp_all add: cols expr_to_global_expr_def expected_opcode_def upt_rec)
  qed
  have sel: "\<And>i. i < n \<Longrightarrow> mh_a cols ! i = of_nat (as ! i)" "\<And>i. i < n \<Longrightarrow> mh_a_mul cols ! i = of_nat (ms ! i)"
    "mh_b cols ! (n - 1) = of_nat (?b ! (n - 1))" "mh_c cols ! (n - 1) = of_nat (?c ! (n - 1))"
    using len b(2) c(2) n(1) by (simp_all add: cols)
  have maps: "map (\<lambda>i. range_tuple_send (mh_tuple_bus air) [mh_a_mul cols ! i, mulh_carry_mul lb cols i] 1) [0..<n] =
      map (\<lambda>i. Lookup_key (rt_index (mh_tuple_bus air)) [of_nat (ms ! i), of_nat (ks ! i)] (1 :: 'f)) [0..<n]"
      "map (\<lambda>i. range_tuple_send (mh_tuple_bus air) [mh_a cols ! i, mulh_carry n lb cols i] 1) [0..<n] =
      map (\<lambda>i. Lookup_key (rt_index (mh_tuple_bus air)) [of_nat (as ! i), of_nat (ls ! i)] (1 :: 'f)) [0..<n]"
    by (rule map_cong, simp, simp add: sel k l air_defs)+
  have act: "active (map (\<lambda>i. Lookup_key z (p i) (1 :: 'f)) js) = map (\<lambda>i. Lookup_key z (p i) 1) js" for z p js
    by (induction js) simp_all
  have look: "concat (map (range_tuple_lookup (mh_tuple_bus air)) (concat (map (\<lambda>i. [Add_tuple [ms ! i, ks ! i], Add_tuple [as ! i, ls ! i]]) js))) =
      concat (map (\<lambda>i. [Lookup_key (rt_index (mh_tuple_bus air)) [of_nat (ms ! i), of_nat (ks ! i)] (1 :: 'f),
        Lookup_key (rt_index (mh_tuple_bus air)) [of_nat (as ! i), of_nat (ls ! i)] 1]) js)"
      "concat (map (bitwise_lookup z) (concat (map (\<lambda>i. [Add_tuple [ms ! i, ks ! i], Add_tuple [as ! i, ls ! i]]) js))) = ([] :: 'f interaction list)" for js z
    by (induction js) simp_all
  show "mset (active (fst (snd (mulh_eval n lb air cols)))) =
      mset (concat (map (range_tuple_lookup (mh_tuple_bus air)) reqs) @ concat (map (bitwise_lookup (mh_bitwise_bus air)) reqs))"
    unfolding ev fst_conv snd_conv maps reqs sel(3,4) map_append concat_append look active_simps mset_append mset_interleave act
    using uw(2) ww(2) by (cases op) (auto simp: air_defs cols)
qed

lemma mulh_complete:
  fixes rec :: mulh_record
  assumes "limbs_ok lb (mhr_b rec)" "length (mhr_b rec) = n" "limbs_ok lb (mhr_c rec)" "length (mhr_c rec) = n"
    and "0 < n" "2 * n * (2 ^ lb * 2 ^ lb) < 2 ^ 32" "0 < lb" "lb \<le> 8" "2 * n * 2 ^ lb \<le> K" "2 ^ lb < CHAR('f::field)"
    and T: "\<And>k. bitwise_table lb k \<Longrightarrow> T (mh_bitwise_bus air) k"
      "\<And>k. range_tuple_table [2 ^ lb, K] k \<Longrightarrow> T (rt_index (mh_tuple_bus air)) k"
  shows "accepts T (mulh_eval n lb air (fst (mulh_fill_core n lb op rec) :: 'f mulh_cols)) \<and>
    core_ctx (mulh_eval n lb air (fst (mulh_fill_core n lb op rec) :: 'f mulh_cols)) =
    mulh_ctx n lb op (mhr_b rec) (mhr_c rec)"
proof -
  obtain cols :: "'f mulh_cols" and reqs where f: "mulh_fill_core n lb op rec = (cols, reqs)"
    by (metis prod.exhaust)
  note c = mulh_fill_complete [OF f assms(1-10)]
  have "lookups_ok T (concat (map (range_tuple_lookup (mh_tuple_bus air)) reqs) @
      concat (map (bitwise_lookup (mh_bitwise_bus air)) reqs) :: 'f interaction list)"
    unfolding lookups_ok_simps
    using lookups_ok_bitwise [of lb reqs T] lookups_ok_range_tuple [of _ reqs T "mh_tuple_bus air"] c(3) T by blast
  then have "lookups_ok T (fst (snd (mulh_eval n lb air cols)))"
    using lookups_ok_mset [OF c(2)] lookups_ok_active by blast
  then show ?thesis using c(1,4) by (simp add: f accepts_def)
qed

section \<open>The chip of the RV32 extension\<close>

definition rv32_mulh_air :: "nat \<Rightarrow> mulh_air" where
  "rv32_mulh_air b = \<lparr>mh_bitwise_bus = b + 6, mh_tuple_bus = rv32_tuple_bus b\<rparr>"

text \<open>The tables behind the two lookup buses of the RV32M extension.\<close>

definition rv32m_tables :: "nat \<Rightarrow> nat \<Rightarrow> 'f::field list \<Rightarrow> bool" where
  "rv32m_tables b i = (if i = rt_index (rv32_tuple_bus b) then range_tuple_table [256, 2048] else bitwise_table 8)"

lemma rv32_mulh_air_simps [simp]:
  "rv32m_tables b (mh_bitwise_bus (rv32_mulh_air b)) = (bitwise_table 8 :: 'f::field list \<Rightarrow> bool)"
  "rv32m_tables b (rt_index (mh_tuple_bus (rv32_mulh_air b))) = (range_tuple_table [256, 2048] :: 'f list \<Rightarrow> bool)"
  by (simp_all add: rv32m_tables_def rv32_mulh_air_def rv32_tuple_bus_def)

definition mulh_row_wf :: "nat \<Rightarrow> nat \<Rightarrow> 'f::field mulh_cols \<Rightarrow> bool" where
  "mulh_row_wf n lb cols \<longleftrightarrow> length (mh_a cols) = n \<and> length (mh_a_mul cols) = n \<and>
     (\<exists>bs cs. mh_b cols = fels bs \<and> mh_c cols = fels cs \<and>
       limbs_ok lb bs \<and> limbs_ok lb cs \<and> length bs = n \<and> length cs = n)"

lemma mulh_ctx_functional:
  assumes "two_operands_ok n lb (op, bs, cs)" "two_operands_ok n lb (op', bs', cs')"
    and lb: "2 ^ lb < CHAR('f::field)" and off: "mulh_offset + 3 \<le> CHAR('f)"
    and eq: "reads (mulh_ctx n lb op bs cs :: ('f, _) adapter_air_context) = reads (mulh_ctx n lb op' bs' cs')"
      "instruction (mulh_ctx n lb op bs cs :: ('f, _) adapter_air_context) = instruction (mulh_ctx n lb op' bs' cs')"
  shows "op = op' \<and> bs = bs' \<and> cs = cs'"
proof -
  have "(fels bs :: 'f list) = fels bs'" "(fels cs :: 'f list) = fels cs'"
    using eq(1) by (simp_all add: mulh_ctx_def)
  moreover have "op = op'"
    by (rule opcode_inject [where off = mulh_offset and vs = mulh_opcodes and 'f = 'f])
      (use eq(2) off in \<open>simp_all add: mulh_ctx_def\<close>)
  ultimately show ?thesis
    using fels_inject_limbs [OF _ _ lb] assms(1,2) by (auto simp: two_operands_ok_def)
qed

interpretation rv32_mulh: core_chip "rv32m_tables b" "mulh_eval 4 8 (rv32_mulh_air b)"
  "mulh_row_wf 4 8 :: bb mulh_cols \<Rightarrow> bool" "two_operands_ok 4 8"
  "\<lambda>(op, bs, cs). mulh_ctx 4 8 op bs cs"
  "\<lambda>(op, bs, cs). fst (mulh_fill_core 4 8 op
     \<lparr>mhr_b = bs, mhr_c = cs, mhr_local_opcode = repr_of mulh_opcodes op\<rparr>)"
  for b
proof (unfold_locales, goal_cases)
  case (1 cols)
  then obtain bs cs where r: "mh_b cols = fels bs" "mh_c cols = fels cs" "limbs_ok 8 bs"
      "limbs_ok 8 cs" "length bs = 4" "length cs = 4" "length (mh_a cols) = 4" "length (mh_a_mul cols) = 4"
    by (auto simp: mulh_row_wf_def)
  obtain op where "core_ctx (mulh_eval 4 8 (rv32_mulh_air b) cols) = mulh_ctx 4 8 op bs cs"
    using mulh_eval_sound [OF 1(2) _ _ 1(3) r(1,3,5) r(2,4,6) r(7,8), of 2048]
    by (auto simp: bb_CHAR)
  with r show ?case by (intro exI [of _ "(op, bs, cs)"]) (simp add: two_operands_ok_def)
next
  case (2 x)
  obtain op bs cs where x: "x = (op, bs, cs)" by (cases x) auto
  show ?case unfolding x prod.case
    using mulh_complete [where lb = 8 and n = 4 and op = op and K = 2048
        and rec = "\<lparr>mhr_b = bs, mhr_c = cs, mhr_local_opcode = repr_of mulh_opcodes op\<rparr>"
        and air = "rv32_mulh_air b" and T = "rv32m_tables b" and 'f = bb] 2
    by (simp add: x two_operands_ok_def bb_CHAR)
next
  case (3 x y)
  then show ?case
    using mulh_ctx_functional [where n = 4 and lb = 8 and 'f = bb]
    by (fastforce simp: bb_CHAR mulh_offset_def split: prod.splits)
qed

section \<open>Properties\<close>

text \<open>
  C21. An accepted valid row of the MULH/MULHSU/MULHU chip writes the high half of the product of its
  operands, read as signed or unsigned numbers according to the opcode: the constraints force the
  sign limbs, the discarded low half and all carries.
\<close>

theorem mulh_air_sound:
  fixes cols :: "'f::field mulh_cols"
  assumes "accepts T (mulh_eval n lb air cols)"
    and "\<And>k. T (mh_bitwise_bus air) k \<Longrightarrow> bitwise_table lb k"
    and "\<And>k. T (rt_index (mh_tuple_bus air)) k \<Longrightarrow> range_tuple_table [2 ^ lb, K] k"
    and "is_valid (instruction (core_ctx (mulh_eval n lb air cols))) = 1"
    and "mh_b cols = fels bs" "limbs_ok lb bs" "length bs = n"
    and "mh_c cols = fels cs" "limbs_ok lb cs" "length cs = n"
    and "length (mh_a cols) = n" "length (mh_a_mul cols) = n"
    and "2 * n * (2 ^ lb * 2 ^ lb) + K < CHAR('f)" "2 ^ lb * (K + 1) < CHAR('f)" "0 < K" "0 < n" "0 < lb"
  shows "\<exists>op. core_ctx (mulh_eval n lb air cols) =
    \<lparr>to_pc = None, reads = [fels bs, fels cs],
     writes = [fels (to_limbs lb n
       (nat (sval lb (op \<noteq> MULHU) bs * sval lb (op = MULH) cs div 2 ^ (lb * n) mod 2 ^ (lb * n))))],
     instruction = \<lparr>is_valid = 1, opcode = of_nat (mulh_offset + repr_of mulh_opcodes op)\<rparr>\<rparr>"
  using mulh_eval_sound [OF assms] unfolding mulh_ctx_def mulh_spec_def .

theorem mulh_air_sound_witness:
  "let cols = fst (mulh_fill_core 4 8 MULH \<lparr>mhr_b = [0, 0, 0, 128], mhr_c = [2, 0, 0, 0], mhr_local_opcode = 0\<rparr>) :: bb mulh_cols
   in \<exists>op. writes (core_ctx (mulh_eval 4 8 (rv32_mulh_air 0) cols)) = [fels (to_limbs 8 4
       (nat (sval 8 (op \<noteq> MULHU) [0, 0, 0, 128] * sval 8 (op = MULH) [2, 0, 0, 0] div 2 ^ 32 mod 2 ^ 32)))]"
proof -
  let ?r = "\<lparr>mhr_b = [0, 0, 0, 128], mhr_c = [2, 0, 0, 0], mhr_local_opcode = 0\<rparr>"
  let ?cols = "fst (mulh_fill_core 4 8 MULH ?r) :: bb mulh_cols"
  let ?air = "rv32_mulh_air 0"
  have c: "accepts (rv32m_tables 0) (mulh_eval 4 8 ?air ?cols) \<and>
      core_ctx (mulh_eval 4 8 ?air ?cols) = mulh_ctx 4 8 MULH (mhr_b ?r) (mhr_c ?r)"
    by (rule mulh_complete [where K = 2048]) (simp_all add: bb_CHAR)
  obtain as ms ks xe ye where run: "run_mulh 4 8 MULH [0, 0, 0, 128] [2, 0, 0, 0] = (as, ms, ks, xe, ye)"
    by (metis prod.exhaust)
  have ms: "length ms = 4"
    using run_mulh_carries [of 8 "[0, 0, 0, 128]" 4 "[2, 0, 0, 0]" MULH] run by fastforce
  have cols: "mh_b ?cols = fels [0, 0, 0, 128]" "mh_c ?cols = fels [2, 0, 0, 0]" "length (mh_a_mul ?cols) = 4"
    using ms by (simp_all add: mulh_fill_core_def Let_def run)
  have len: "length (mh_a ?cols) = 4" using c by (simp add: mulh_eval_def Let_def mulh_ctx_def)
  have "is_valid (instruction (core_ctx (mulh_eval 4 8 ?air ?cols))) = 1" using c by (simp add: mulh_ctx_def)
  from mulh_air_sound [OF conjunct1 [OF c] _ _ this cols(1) _ _ cols(2) _ _ len cols(3), of 2048] show ?thesis
    unfolding Let_def by (auto simp: bb_CHAR)
qed

text \<open>
  C22. The row the MULH filler writes satisfies every constraint, its active lookups are, up to their
  order, exactly the requests the filler made of the tuple chip and the bitwise chip, each of which
  they serve, and it writes the result of \<open>run_mulh\<close>.
\<close>

theorem mulh_filled_row:
  fixes cols :: "'f::field mulh_cols"
  assumes "mulh_fill_core n lb op rec = (cols, reqs)" "mulh_eval n lb air cols = (as, is, ctx)"
    and "limbs_ok lb (mhr_b rec)" "length (mhr_b rec) = n" "limbs_ok lb (mhr_c rec)" "length (mhr_c rec) = n"
    and "0 < n" "2 * n * (2 ^ lb * 2 ^ lb) < 2 ^ 32" "0 < lb" "lb \<le> 8" "2 * n * 2 ^ lb \<le> K" "2 ^ lb < CHAR('f)"
  shows "all_satisfied as \<and> is_valid (instruction ctx) = 1 \<and>
    mset (active is) = mset (concat (map (range_tuple_lookup (mh_tuple_bus air)) reqs) @
      concat (map (bitwise_lookup (mh_bitwise_bus air)) reqs)) \<and>
    list_all (range_tuple_request_ok [2 ^ lb, K]) reqs \<and> list_all (bitwise_request_ok lb) reqs \<and>
    writes ctx = [fels (fst (run_mulh n lb op (mhr_b rec) (mhr_c rec)))]"
proof -
  note c = mulh_fill_complete [OF assms(1,3-12)]
  have "writes ctx = [mh_a cols]" using assms(2) by (auto simp: mulh_eval_def Let_def)
  then show ?thesis using c(1,2,4) [of air] c(3,5) by (simp add: assms(2) mulh_ctx_def)
qed

theorem mulh_filled_row_witness:
  "let (cols, reqs) = mulh_fill_core 4 8 MULHU \<lparr>mhr_b = [0, 0, 0, 128], mhr_c = [2, 0, 0, 0], mhr_local_opcode = 2\<rparr>;
       (as, is, ctx) = mulh_eval 4 8 (rv32_mulh_air 0) cols
   in all_satisfied as \<and> is_valid (instruction ctx) = (1 :: bb)"
proof -
  let ?r = "\<lparr>mhr_b = [0, 0, 0, 128], mhr_c = [2, 0, 0, 0], mhr_local_opcode = 2\<rparr>"
  obtain cols reqs where f: "mulh_fill_core 4 8 MULHU ?r = (cols :: bb mulh_cols, reqs)" by (metis prod.exhaust)
  obtain as "is" ctx where e: "mulh_eval 4 8 (rv32_mulh_air 0) cols = (as, is, ctx)" by (metis prod.exhaust)
  show ?thesis
    using mulh_filled_row [OF f e, of 2048] by (simp add: f e bb_CHAR)
qed

end
