(* ===== verification/DivRem.thy ===== *)
theory DivRem
  imports MulH "HOL-Library.Signed_Division"
begin

text \<open>
  \<open>extensions/rv32im/circuit/src/divrem/core.rs\<close>: the core chip for DIV, DIVU, REM and REMU. The
  AIR, the executor and the trace filler, and the soundness of the AIR; \<open>DivRem_Fill\<close> holds what
  the filler promises.
\<close>

section \<open>The model\<close>

record 'f divrem_cols =
  dr_b :: "'f list"
  dr_c :: "'f list"
  dr_q :: "'f list"
  dr_r :: "'f list"
  dr_zero_divisor :: 'f
  dr_r_zero :: 'f
  dr_b_sign :: 'f
  dr_c_sign :: 'f
  dr_q_sign :: 'f
  dr_sign_xor :: 'f
  c_sum_inv :: 'f
  r_sum_inv :: 'f
  dr_r_prime :: "'f list"
  r_inv :: "'f list"
  dr_lt_marker :: "'f list"
  dr_lt_diff :: 'f
  opcode_div_flag :: 'f
  opcode_divu_flag :: 'f
  opcode_rem_flag :: 'f
  opcode_remu_flag :: 'f

record divrem_air =
  dr_bitwise_bus :: nat
  dr_tuple_bus :: range_tuple_bus
  dr_offset :: nat

text \<open>The carries of \<open>c * q + r - b\<close>, in the low and in the high limbs.\<close>

definition divrem_ext :: "nat \<Rightarrow> 'f::field \<Rightarrow> 'f" where
  "divrem_ext limb_bits sign = sign * of_nat (2 ^ limb_bits - 1)"

definition divrem_carry :: "nat \<Rightarrow> 'f::field divrem_cols \<Rightarrow> nat \<Rightarrow> 'f" where
  "divrem_carry limb_bits cols =
     carry_col limb_bits
       (\<lambda>i. fold (\<lambda>k ac. ac + dr_c cols ! k * dr_q cols ! (i - k)) [0..<Suc i] (dr_r cols ! i)) ((!) (dr_b cols)) 0"

definition divrem_carry_ext :: "nat \<Rightarrow> nat \<Rightarrow> 'f::field divrem_cols \<Rightarrow> nat \<Rightarrow> 'f" where
  "divrem_carry_ext num_limbs limb_bits cols =
     (let b_ext = divrem_ext limb_bits (dr_b_sign cols) in
      carry_col limb_bits
       (\<lambda>j. high_sum num_limbs (dr_c cols) (dr_q cols) (divrem_ext limb_bits (dr_c_sign cols)) (divrem_ext limb_bits (dr_q_sign cols)) j +
            (1 - dr_r_zero cols) * b_ext)
       (\<lambda>_. b_ext) (divrem_carry limb_bits cols (num_limbs - 1)))"

text \<open>The carries of \<open>r + r_prime\<close>, and the assertions of the loop that computes them.\<close>

fun carry_lt :: "nat \<Rightarrow> 'f::field divrem_cols \<Rightarrow> nat \<Rightarrow> 'f" where
  "carry_lt limb_bits cols 0 = (0 + dr_r cols ! 0 + dr_r_prime cols ! 0) * inverse (of_nat (2 ^ limb_bits))"
| "carry_lt limb_bits cols (Suc i) =
     (carry_lt limb_bits cols i + dr_r cols ! Suc i + dr_r_prime cols ! Suc i) * inverse (of_nat (2 ^ limb_bits))"

definition r_prime_assertions :: "nat \<Rightarrow> 'f::field divrem_cols \<Rightarrow> nat \<Rightarrow> 'f assertion list" where
  "r_prime_assertions limb_bits cols i =
     (let r = dr_r cols; r_p = dr_r_prime cols;
          last_carry = (if i > 0 then carry_lt limb_bits cols (i - 1) else 0);
          carry = carry_lt limb_bits cols i
      in [When (not_f (dr_sign_xor cols)) (assert_eq (r ! i) (r_p ! i)),
          When (dr_sign_xor cols) (assert_zero ((carry - last_carry) * (carry - 1))),
          When (dr_sign_xor cols) (assert_one ((r_p ! i - of_nat (2 ^ limb_bits)) * r_inv cols ! i)),
          When (dr_sign_xor cols) (When (not_f carry) (assert_zero (r_p ! i)))])"

text \<open>The loop that compares \<open>r_prime\<close> with \<open>c\<close>, from the top limb: its assertions and \<open>prefix_sum\<close>.\<close>

fun lt_loop :: "'f::field divrem_cols \<Rightarrow> 'f \<Rightarrow> nat list \<Rightarrow> 'f assertion list \<times> 'f" where
  "lt_loop cols prefix_sum [] = ([], prefix_sum)"
| "lt_loop cols prefix_sum (i # is) =
     (let diff = dr_r_prime cols ! i * (of_nat 2 * dr_c_sign cols - 1) + dr_c cols ! i * (1 - of_nat 2 * dr_c_sign cols);
          prefix_sum = prefix_sum + dr_lt_marker cols ! i;
          (as, s) = lt_loop cols prefix_sum is
      in ([assert_bool (dr_lt_marker cols ! i), assert_zero (not_f prefix_sum * diff),
           When (dr_lt_marker cols ! i) (assert_eq (dr_lt_diff cols) diff)] @ as, s))"

text \<open>The assertions on the special cases and on the signs.\<close>

definition special_case :: "'f::field divrem_cols \<Rightarrow> 'f" where
  "special_case cols = dr_zero_divisor cols + dr_r_zero cols"

definition special_assertions :: "nat \<Rightarrow> nat \<Rightarrow> 'f::field divrem_cols \<Rightarrow> 'f \<Rightarrow> 'f assertion list" where
  "special_assertions num_limbs limb_bits cols valid =
     (let c_sum = fold (\<lambda>c acc. acc + c) (dr_c cols) 0; r_sum = fold (\<lambda>r acc. acc + r) (dr_r cols) 0;
          valid_and_not_zero_divisor = valid - dr_zero_divisor cols;
          valid_and_not_special_case = valid - special_case cols
      in [assert_bool (special_case cols), assert_bool (dr_zero_divisor cols)] @
         concat (map (\<lambda>i. [When (dr_zero_divisor cols) (assert_zero (dr_c cols ! i)),
           When (dr_zero_divisor cols) (assert_eq (dr_q cols ! i) (of_nat (2 ^ limb_bits - 1)))]) [0..<num_limbs]) @
         [assert_bool valid_and_not_zero_divisor,
          When valid_and_not_zero_divisor (assert_one (c_sum * c_sum_inv cols)),
          assert_bool (dr_r_zero cols)] @
         map (\<lambda>r_i. When (dr_r_zero cols) (assert_zero r_i)) (dr_r cols) @
         [assert_bool valid_and_not_special_case,
          When valid_and_not_special_case (assert_one (r_sum * r_sum_inv cols))])"

definition sign_assertions :: "'f::field divrem_cols \<Rightarrow> 'f \<Rightarrow> 'f assertion list" where
  "sign_assertions cols is_signed =
     (let nonzero_q = fold (\<lambda>q acc. acc + q) (dr_q cols) 0
      in [assert_bool (dr_b_sign cols), assert_bool (dr_c_sign cols),
          When (not_f is_signed) (assert_zero (dr_b_sign cols)), When (not_f is_signed) (assert_zero (dr_c_sign cols)),
          assert_eq (dr_b_sign cols + dr_c_sign cols - of_nat 2 * dr_b_sign cols * dr_c_sign cols) (dr_sign_xor cols),
          assert_bool (dr_q_sign cols),
          When nonzero_q (When (not_f (dr_zero_divisor cols)) (assert_eq (dr_q_sign cols) (dr_sign_xor cols))),
          When_ne (dr_q_sign cols) (dr_sign_xor cols) (When (not_f (dr_zero_divisor cols)) (assert_zero (dr_q_sign cols)))])"

definition divrem_eval ::
  "nat \<Rightarrow> nat \<Rightarrow> divrem_air \<Rightarrow> 'f::field divrem_cols \<Rightarrow> ('f, 'f minimal_instruction) core_eval" where
  "divrem_eval num_limbs limb_bits air cols =
     (let flags = [opcode_div_flag cols, opcode_divu_flag cols, opcode_rem_flag cols, opcode_remu_flag cols];
          valid = fold (\<lambda>flag acc. acc + flag) flags 0;
          b = dr_b cols; c = dr_c cols; q = dr_q cols; r = dr_r cols;
          is_signed = opcode_div_flag cols + opcode_rem_flag cols;
          sign_mask = of_nat (2 ^ (limb_bits - 1));
          (lt, prefix_sum) = lt_loop cols (special_case cols) (rev [0..<num_limbs]);
          is_div = opcode_div_flag cols + opcode_divu_flag cols
      in (map assert_bool flags @ [assert_bool valid] @
          special_assertions num_limbs limb_bits cols valid @ sign_assertions cols is_signed @
          concat (map (r_prime_assertions limb_bits cols) [0..<num_limbs]) @ lt @
          [When valid (assert_one prefix_sum)],
          map (\<lambda>i. range_tuple_send (dr_tuple_bus air) [q ! i, divrem_carry limb_bits cols i] valid) [0..<num_limbs] @
          map (\<lambda>i. range_tuple_send (dr_tuple_bus air) [r ! i, divrem_carry_ext num_limbs limb_bits cols i] valid) [0..<num_limbs] @
          [send_range (dr_bitwise_bus air)
             (of_nat 2 * (b ! (num_limbs - 1) - dr_b_sign cols * sign_mask))
             (of_nat 2 * (c ! (num_limbs - 1) - dr_c_sign cols * sign_mask)) is_signed,
           send_range (dr_bitwise_bus air) (dr_lt_diff cols - 1) 0 (valid - special_case cols)],
          \<lparr>to_pc = None, reads = [b, c],
           writes = [map (\<lambda>i. is_div * q ! i + (1 - is_div) * r ! i) [0..<num_limbs]],
           instruction = \<lparr>is_valid = valid,
             opcode = expected_opcode flags divrem_opcodes + of_nat (dr_offset air)\<rparr>\<rparr>))"

text \<open>
  The executor divides with the arbitrary-precision type \<open>BigUint\<close> of a third-party crate: a
  parameter, with the operations the code calls.
\<close>

record 'z biguint =
  big_new :: "nat list \<Rightarrow> 'z"
  big_from :: "nat \<Rightarrow> 'z"
  big_add :: "'z \<Rightarrow> 'z \<Rightarrow> 'z"
  big_mul :: "'z \<Rightarrow> 'z \<Rightarrow> 'z"
  big_div :: "'z \<Rightarrow> 'z \<Rightarrow> 'z"
  big_rem :: "'z \<Rightarrow> 'z \<Rightarrow> 'z"
  iter_u32_digits :: "'z \<Rightarrow> nat list"

definition limbs_to_biguint :: "'z biguint \<Rightarrow> nat \<Rightarrow> nat list \<Rightarrow> 'z" where
  "limbs_to_biguint Z limb_bits x =
     (let base = big_new Z [wshl 32 1 limb_bits]
      in fold (\<lambda>val res. big_add Z (big_mul Z res base) (big_new Z [val])) (rev x) (big_new Z [0]))"

fun biguint_to_limbs :: "'z biguint \<Rightarrow> nat \<Rightarrow> nat \<Rightarrow> 'z \<Rightarrow> nat list" where
  "biguint_to_limbs Z limb_bits 0 x = []"
| "biguint_to_limbs Z limb_bits (Suc n) x =
     (let base = big_from Z (wshl 32 1 limb_bits); ds = iter_u32_digits Z (big_rem Z x base)
      in (case ds of [] \<Rightarrow> 0 | d # _ \<Rightarrow> d) # biguint_to_limbs Z limb_bits n (big_div Z x base))"

fun negate_loop :: "nat \<Rightarrow> nat \<Rightarrow> nat list \<Rightarrow> nat list" where
  "negate_loop limb_bits carry [] = []"
| "negate_loop limb_bits carry (x # xs) =
     (let val = wsub 32 (wsub 32 (wadd 32 (wshl 32 1 limb_bits) carry) 1) x
      in val mod wshl 32 1 limb_bits # negate_loop limb_bits (wshr val limb_bits) xs)"

definition negate :: "nat \<Rightarrow> nat list \<Rightarrow> nat list" where
  "negate limb_bits x = negate_loop limb_bits 1 x"

datatype DivRemCoreSpecialCase = No_special_case | ZeroDivisor | SignedOverflow

definition run_divrem ::
  "'z biguint \<Rightarrow> nat \<Rightarrow> nat \<Rightarrow> bool \<Rightarrow> nat list \<Rightarrow> nat list \<Rightarrow>
   nat list \<times> nat list \<times> bool \<times> bool \<times> bool \<times> DivRemCoreSpecialCase" where
  "run_divrem Z num_limbs limb_bits is_signed x y =
     (let x_sign = (is_signed \<and> wshr (x ! (num_limbs - 1)) (limb_bits - 1) = 1);
          y_sign = (is_signed \<and> wshr (y ! (num_limbs - 1)) (limb_bits - 1) = 1);
          max_limb = wsub 32 (wshl 32 1 limb_bits) 1;
          zero_divisor = list_all (\<lambda>val. val = 0) y;
          overflow = (x ! (num_limbs - 1) = wshl 32 1 (limb_bits - 1) \<and>
            list_all (\<lambda>val. val = 0) (take (num_limbs - 1) x) \<and> list_all (\<lambda>val. val = max_limb) y \<and> x_sign \<and> y_sign)
      in if zero_divisor then (replicate num_limbs max_limb, x, x_sign, y_sign, is_signed, ZeroDivisor)
         else if overflow then (x, replicate num_limbs 0, x_sign, y_sign, False, SignedOverflow)
         else
           (let x_abs = (if x_sign then negate limb_bits x else x);
                y_abs = (if y_sign then negate limb_bits y else y);
                x_big = limbs_to_biguint Z limb_bits x_abs; y_big = limbs_to_biguint Z limb_bits y_abs;
                q_big = big_div Z x_big y_big; r_big = big_rem Z x_big y_big;
                q = (if x_sign \<noteq> y_sign then negate limb_bits (biguint_to_limbs Z limb_bits num_limbs q_big)
                     else biguint_to_limbs Z limb_bits num_limbs q_big);
                q_sign = (is_signed \<and> wshr (q ! (num_limbs - 1)) (limb_bits - 1) = 1);
                r = (if x_sign then negate limb_bits (biguint_to_limbs Z limb_bits num_limbs r_big)
                     else biguint_to_limbs Z limb_bits num_limbs r_big)
            in (q, r, x_sign, y_sign, q_sign, No_special_case)))"

text \<open>\<open>run_sltu_diff_idx\<close>: \<open>None\<close> where an \<open>assert!\<close> fails.\<close>

fun sltu_diff_loop :: "nat list \<Rightarrow> nat list \<Rightarrow> bool \<Rightarrow> nat \<Rightarrow> nat list \<Rightarrow> nat option" where
  "sltu_diff_loop x y cmp num_limbs [] = (if \<not> cmp then Some num_limbs else None)"
| "sltu_diff_loop x y cmp num_limbs (i # is) =
     (if x ! i \<noteq> y ! i then (if (x ! i < y ! i) = cmp then Some i else None)
      else sltu_diff_loop x y cmp num_limbs is)"

definition run_sltu_diff_idx :: "nat \<Rightarrow> nat list \<Rightarrow> nat list \<Rightarrow> bool \<Rightarrow> nat option" where
  "run_sltu_diff_idx num_limbs x y cmp = sltu_diff_loop x y cmp num_limbs (rev [0..<num_limbs])"

definition acc_high_ext :: "nat \<Rightarrow> nat list \<Rightarrow> nat list \<Rightarrow> nat \<Rightarrow> nat \<Rightarrow> nat \<Rightarrow> nat \<Rightarrow> nat \<Rightarrow> nat" where
  "acc_high_ext n d q d_ext q_ext r_ext i carry =
     (let d_prefix = fold (\<lambda>v acc. wadd 32 acc v) (take (i + 1) d) 0;
          q_prefix = fold (\<lambda>v acc. wadd 32 acc v) (take (i + 1) q) 0
      in fold (\<lambda>j val. wadd 32 val (wmul 32 (d ! j) (q ! (n + i - j)))) [i + 1..<n]
           (wadd 32 (wadd 32 (wadd 32 carry (wmul 32 d_prefix q_ext)) (wmul 32 q_prefix d_ext)) r_ext))"

definition run_mul_carries ::
  "nat \<Rightarrow> nat \<Rightarrow> bool \<Rightarrow> nat list \<Rightarrow> nat list \<Rightarrow> nat list \<Rightarrow> bool \<Rightarrow> nat list" where
  "run_mul_carries num_limbs limb_bits is_signed d q r q_sign =
     (let carry = map snd (limb_loop limb_bits (\<lambda>i carry. acc_products d q i (wadd 32 (r ! i) carry)) 0 [0..<num_limbs]);
          max_limb = wsub 32 (wshl 32 1 limb_bits) 1;
          q_ext = (if q_sign \<and> is_signed then max_limb else 0);
          d_ext = wmul 32 (wshr (d ! (num_limbs - 1)) (limb_bits - 1)) (if is_signed then max_limb else 0);
          r_ext = wmul 32 (wshr (r ! (num_limbs - 1)) (limb_bits - 1)) (if is_signed then max_limb else 0)
      in carry @ map snd (limb_loop limb_bits (acc_high_ext num_limbs d q d_ext q_ext r_ext)
           (carry ! (num_limbs - 1)) [0..<num_limbs]))"

record divrem_record =
  drr_b :: "nat list"
  drr_c :: "nat list"
  drr_local_opcode :: nat

text \<open>An opcode that is none of the four is executed as REMU: the code compares and does not decode.\<close>

definition divrem_execute ::
  "'z biguint \<Rightarrow> nat \<Rightarrow> nat \<Rightarrow> nat \<Rightarrow> ('f, 'm, 'ar) adapter_trace_executor \<Rightarrow> 'ar \<Rightarrow>
   ('m, 'ar \<times> divrem_record) vm_state_mut \<Rightarrow> 'f instr \<Rightarrow>
   execution_error + ('m, 'ar \<times> divrem_record) vm_state_mut" where
  "divrem_execute Z num_limbs limb_bits offset A fresh s i =
     (let r0 = a_start A (s_pc s) (s_memory s) fresh;
          local_opcode = wrap 8 (local_opcode_idx (i_opcode i) offset);
          is_signed = (local_opcode = repr_of divrem_opcodes DIV \<or> local_opcode = repr_of divrem_opcodes REM);
          is_div = (local_opcode = repr_of divrem_opcodes DIV \<or> local_opcode = repr_of divrem_opcodes DIVU);
          (m1, r1, data) = a_read A (s_memory s) i r0;
          core = \<lparr>drr_b = data ! 0, drr_c = data ! 1, drr_local_opcode = local_opcode\<rparr>;
          (q, r, _, _, _, _) = run_divrem Z num_limbs limb_bits is_signed (drr_b core) (drr_c core);
          rd = (if is_div then map (wrap 8) q else map (wrap 8) r);
          (m2, r2) = a_write A m1 i [rd] r1
      in Inr (s\<lparr>s_memory := m2, s_arena := s_arena s @ [(r2, core)],
                s_pc := wadd 32 (s_pc s) DEFAULT_PC_STEP\<rparr>))"

text \<open>
  The comparison columns of the filler: \<open>(lt_diff, lt_marker)\<close> and the request, \<open>None\<close> where
  \<open>run_sltu_diff_idx\<close> panics or its index is out of bounds.
\<close>

definition divrem_lt ::
  "nat \<Rightarrow> nat list \<Rightarrow> nat list \<Rightarrow> bool \<Rightarrow> ('f::field \<times> 'f list \<times> lookup_request list) option" where
  "divrem_lt num_limbs c r_prime c_sign =
     (case run_sltu_diff_idx num_limbs c r_prime c_sign of
        None \<Rightarrow> None
      | Some idx \<Rightarrow>
          if idx < num_limbs
          then (let val = (if c_sign then wsub 32 (r_prime ! idx) (c ! idx) else wsub 32 (c ! idx) (r_prime ! idx))
                in Some (of_nat val, (replicate num_limbs 0)[idx := 1], [Request_range (wsub 32 val 1) 0]))
          else None)"

definition divrem_fill_core ::
  "'z biguint \<Rightarrow> nat \<Rightarrow> nat \<Rightarrow> DivRemOpcode \<Rightarrow> divrem_record \<Rightarrow>
   ('f::field divrem_cols \<times> lookup_request list) option" where
  "divrem_fill_core Z num_limbs limb_bits opc rec =
     (let is_signed = (opc = DIV \<or> opc = REM); b = drr_b rec; c = drr_c rec;
          (q, r, b_sign, c_sign, q_sign, cas) = run_divrem Z num_limbs limb_bits is_signed b c;
          carries = run_mul_carries num_limbs limb_bits is_signed c q r q_sign;
          tuples = concat (map (\<lambda>i. [Add_tuple [q ! i, carries ! i], Add_tuple [r ! i, carries ! (i + num_limbs)]]) [0..<num_limbs]);
          sign_xor = (b_sign \<noteq> c_sign);
          r_prime = (if sign_xor then negate limb_bits r else r);
          r_zero = (list_all (\<lambda>v. v = 0) r \<and> cas \<noteq> ZeroDivisor);
          mask = (\<lambda>sign. if sign then wshl 32 1 (limb_bits - 1) else 0);
          signs = (if is_signed
            then [Request_range (wshl 32 (wsub 32 (b ! (num_limbs - 1)) (mask b_sign)) 1)
                    (wshl 32 (wsub 32 (c ! (num_limbs - 1)) (mask c_sign)) 1)] else []);
          lt = (if cas = No_special_case \<and> \<not> r_zero then divrem_lt num_limbs c r_prime c_sign
                else Some (0, replicate num_limbs 0, []))
      in map_option (\<lambda>(lt_diff, lt_marker, lt_request).
          (\<lparr>dr_b = fels b, dr_c = fels c, dr_q = fels q, dr_r = fels r,
            dr_zero_divisor = from_bool (cas = ZeroDivisor), dr_r_zero = from_bool r_zero,
            dr_b_sign = from_bool b_sign, dr_c_sign = from_bool c_sign, dr_q_sign = from_bool q_sign,
            dr_sign_xor = from_bool sign_xor,
            c_sum_inv = inverse (of_nat (fold (\<lambda>c acc. wadd 32 acc c) c 0)),
            r_sum_inv = inverse (fold (\<lambda>r acc. acc + of_nat r) r 0),
            dr_r_prime = fels r_prime, r_inv = map (\<lambda>r. inverse (of_nat r - of_nat 256)) r_prime,
            dr_lt_marker = lt_marker, dr_lt_diff = lt_diff,
            opcode_div_flag = from_bool (opc = DIV), opcode_divu_flag = from_bool (opc = DIVU),
            opcode_rem_flag = from_bool (opc = REM), opcode_remu_flag = from_bool (opc = REMU)\<rparr>,
           tuples @ signs @ lt_request)) lt)"

definition divrem_fill_trace_row ::
  "'z biguint \<Rightarrow> nat \<Rightarrow> nat \<Rightarrow> ('mh, 'ar, 'ac) adapter_filler \<Rightarrow> 'mh \<Rightarrow> 'ar \<Rightarrow> divrem_record \<Rightarrow>
   (('ac \<times> 'f::field divrem_cols) \<times> lookup_request list) option" where
  "divrem_fill_trace_row Z num_limbs limb_bits fill mem_helper arec rec =
     (let (acols, areqs) = fill mem_helper arec in
      case from_repr divrem_opcodes (drr_local_opcode rec) of
        None \<Rightarrow> None
      | Some opc \<Rightarrow> map_option (\<lambda>(cols, reqs). ((acols, cols), areqs @ reqs))
          (divrem_fill_core Z num_limbs limb_bits opc rec))"

section \<open>Truncating division\<close>

lemma sdiv_smod_unique:
  fixes x y Q R :: int
  assumes eq: "x = y * Q + R" and R: "\<bar>R\<bar> < \<bar>y\<bar>" "0 \<le> x \<Longrightarrow> 0 \<le> R" "x < 0 \<Longrightarrow> R \<le> 0"
  shows "x sdiv y = Q \<and> x smod y = R"
proof -
  have y: "sgn y * \<bar>y\<bar> = y" "sgn y * sgn y = 1" using R(1) by (cases "y = 0"; auto simp: sgn_if)+
  show ?thesis
  proof (cases "0 \<le> x")
    case True
    have "x = \<bar>y\<bar> * (sgn y * Q) + R" using eq y by (metis mult.assoc mult.commute)
    then have "x div \<bar>y\<bar> = sgn y * Q" "x mod \<bar>y\<bar> = R" using R True by (simp_all add: div_pos_pos_trivial)
    moreover have "x = 0 \<Longrightarrow> Q = 0"
    proof -
      assume "x = 0"
      then have "\<bar>y\<bar> * \<bar>Q\<bar> = \<bar>R\<bar>" using eq by (metis abs_minus_cancel abs_mult add_eq_0_iff)
      then have "\<bar>y\<bar> * \<bar>Q\<bar> < \<bar>y\<bar> * 1" using R(1) by simp
      then show "Q = 0" by (simp only: mult_less_cancel_left) auto
    qed
    ultimately show ?thesis using True y(2)
      by (cases "x = 0") (auto simp: signed_divide_int_def signed_modulo_int_def mult.assoc [symmetric])
  next
    case False
    have "- x = \<bar>y\<bar> * (- (sgn y * Q)) + (- R)" using eq y by (metis minus_add_distrib mult.assoc mult.commute mult_minus_right)
    then have "- x div \<bar>y\<bar> = - (sgn y * Q)" "- x mod \<bar>y\<bar> = - R"
      by (rule int_div_pos_eq int_mod_pos_eq; use R False in linarith)+
    then show ?thesis using False y(2)
      by (simp add: signed_divide_int_def signed_modulo_int_def mult.assoc [symmetric])
  qed
qed

text \<open>What the four instructions compute, with the results RISC-V gives to a zero divisor.\<close>

definition quot_spec :: "int \<Rightarrow> int \<Rightarrow> int" where
  "quot_spec x y = (if y = 0 then - 1 else x sdiv y)"

definition rem_spec :: "int \<Rightarrow> int \<Rightarrow> int" where
  "rem_spec x y = (if y = 0 then x else x smod y)"

abbreviation signed_op :: "DivRemOpcode \<Rightarrow> bool" where
  "signed_op op \<equiv> op = DIV \<or> op = REM"

abbreviation div_op :: "DivRemOpcode \<Rightarrow> bool" where
  "div_op op \<equiv> op = DIV \<or> op = DIVU"

definition divrem_spec :: "nat \<Rightarrow> nat \<Rightarrow> DivRemOpcode \<Rightarrow> nat list \<Rightarrow> nat list \<Rightarrow> nat" where
  "divrem_spec n lb op bs cs =
     (let x = sval lb (signed_op op) bs; y = sval lb (signed_op op) cs
      in nat ((if div_op op then quot_spec x y else rem_spec x y) mod 2 ^ (lb * n)))"

section \<open>The carries\<close>

lemma extended_value:
  "length xs = n \<Longrightarrow> int (limbs_val lb (extended n xs (of_bool s * (2 ^ lb - 1)))) =
   (int (limbs_val lb xs) - of_bool s * 2 ^ (lb * n)) + of_bool s * (2 ^ (lb * n) * 2 ^ (lb * n))"
proof -
  assume n: "length xs = n"
  have "limbs_val lb (replicate n (of_bool s * (2 ^ lb - 1))) = of_bool s * (2 ^ (lb * n) - 1)"
    using limbs_val_replicate [of lb n] by (cases s) (simp_all add: limbs_val_sum)
  moreover have "int (2 ^ (lb * n) - 1) = 2 ^ (lb * n) - 1" by (simp add: of_nat_diff)
  ultimately show ?thesis unfolding limbs_val_append n of_nat_add of_nat_mult
    by (cases s) (simp_all only: of_bool_eq mult_1 mult_zero_left of_nat_0 of_nat_power of_nat_numeral, simp_all add: algebra_simps)
qed

lemma nthz_eq: "i < length xs \<Longrightarrow> nthz xs i = xs ! i"
  by (simp add: nthz_def)

text \<open>The two chains together: \<open>c * q + r\<close> on sign-extended numbers, modulo their double width.\<close>

lemma carries_divrem_nat:
  fixes cs qs rs ms hs :: "nat list" and ce qe re n lb :: nat
  assumes len: "length cs = n" "length qs = n" "length rs = n" "length ms = n" "length hs = n"
    and low: "carries n lb (\<lambda>i. rs ! i + conv cs qs i) (\<lambda>i. ms ! i) 0 k"
    and high: "carries n lb (\<lambda>j. conv (extended n cs ce) (extended n qs qe) (n + j) + re) (\<lambda>i. hs ! i) (k (n - 1)) l"
    and n: "0 < n"
  shows "\<exists>m. limbs_val lb (extended n rs re) + limbs_val lb (extended n cs ce) * limbs_val lb (extended n qs qe) =
    limbs_val lb (ms @ hs) + 2 ^ (lb * (n + n)) * m"
proof -
  let ?C = "extended n cs ce" and ?Q = "extended n qs qe" and ?R = "extended n rs re"
  let ?S = "\<lambda>i. nthz ?R i + conv ?C ?Q i" and ?l = "\<lambda>i. if i < n then k i else l (i - n)"
  let ?P = "2 ^ (lb * (n + n)) :: nat"
  have c1: "carries n lb ?S (\<lambda>i. ms ! i) 0 k"
    by (rule carries_cong [THEN iffD1, OF _ _ _ low]) (simp_all add: conv_extend_low len nthz_eq nth_append)
  have "carries n lb (\<lambda>j. ?S (n + j)) (\<lambda>i. hs ! i) (k (n - 1)) l"
    by (rule carries_cong [THEN iffD1, OF _ _ _ high]) (simp_all add: nthz_eq nth_append len)
  then have "carries (n + n) lb ?S (\<lambda>i. if i < n then ms ! i else hs ! (i - n)) 0 ?l"
    using carries_append [OF c1] n by simp
  then have "carries (n + n) lb ?S (\<lambda>i. (ms @ hs) ! i) 0 ?l"
    by (rule carries_cong [THEN iffD1, rotated -1]) (simp_all add: nth_append len)
  from carries_value [OF this] have v: "(\<Sum>i<n + n. nthz ?R i * 2 ^ (lb * i)) + (\<Sum>i<n + n. conv ?C ?Q i * 2 ^ (lb * i)) =
      (\<Sum>i<n + n. (ms @ hs) ! i * 2 ^ (lb * i)) + ?P * ?l (n + n - 1)"
    using n by (simp add: add_mult_distrib sum.distrib)
  obtain m where m: "limbs_val lb ?C * limbs_val lb ?Q = (\<Sum>i<n + n. conv ?C ?Q i * 2 ^ (lb * i)) + ?P * m"
    using conv_value by blast
  have le: "length ?R = n + n" "length (ms @ hs) = n + n" using len by simp_all
  have "limbs_val lb ?R + limbs_val lb ?C * limbs_val lb ?Q = limbs_val lb (ms @ hs) + ?P * (?l (n + n - 1) + m)"
    using v unfolding m limbs_val_sum [of lb ?R] limbs_val_sum [of lb "ms @ hs"] le
    by (simp add: nthz_eq len add_mult_distrib2)
  then show ?thesis by blast
qed

text \<open>With the limbs of \<open>b\<close> and its sign as the results of the chains, \<open>c * q + r = b\<close>.\<close>

lemma carries_divrem:
  fixes cs qs rs bs :: "nat list" and sc sq sr sb :: bool and n lb :: nat
  defines "ex \<equiv> \<lambda>s xs. extended n xs (of_bool s * (2 ^ lb - 1))" and "N \<equiv> 2 ^ (lb * n) :: int"
  assumes len: "length cs = n" "length qs = n" "length rs = n" "length bs = n"
    and low: "carries n lb (\<lambda>i. rs ! i + conv cs qs i) (\<lambda>i. bs ! i) 0 k"
    and high: "carries n lb (\<lambda>j. conv (ex sc cs) (ex sq qs) (n + j) + of_bool sr * (2 ^ lb - 1))
      (\<lambda>_. of_bool sb * (2 ^ lb - 1)) (k (n - 1)) l"
    and n: "0 < n"
  shows "\<exists>m. (int (limbs_val lb cs) - of_bool sc * N) * (int (limbs_val lb qs) - of_bool sq * N) +
    (int (limbs_val lb rs) - of_bool sr * N) = (int (limbs_val lb bs) - of_bool sb * N) + (N * N) * m"
proof -
  have "carries n lb (\<lambda>j. conv (ex sc cs) (ex sq qs) (n + j) + of_bool sr * (2 ^ lb - 1))
      (\<lambda>i. replicate n (of_bool sb * (2 ^ lb - 1)) ! i) (k (n - 1)) l"
    by (rule carries_cong [THEN iffD1, OF _ _ _ high]) simp_all
  from carries_divrem_nat [OF len _ low this [unfolded ex_def] n] obtain m where
    "limbs_val lb (ex sr rs) + limbs_val lb (ex sc cs) * limbs_val lb (ex sq qs) = limbs_val lb (ex sb bs) + 2 ^ (lb * (n + n)) * m"
    unfolding ex_def by auto
  from arg_cong [OF this, of int] have "int (limbs_val lb (ex sr rs)) + int (limbs_val lb (ex sc cs)) * int (limbs_val lb (ex sq qs)) =
      int (limbs_val lb (ex sb bs)) + (N * N) * int m"
    by (simp only: of_nat_add of_nat_mult N_def power_add add_mult_distrib2 [of lb] of_nat_power of_nat_numeral)
  moreover define C Q R B where "C = int (limbs_val lb cs) - of_bool sc * N" and "Q = int (limbs_val lb qs) - of_bool sq * N"
    and "R = int (limbs_val lb rs) - of_bool sr * N" and "B = int (limbs_val lb bs) - of_bool sb * N"
  ultimately have "(R + of_bool sr * (N * N)) + (C + of_bool sc * (N * N)) * (Q + of_bool sq * (N * N)) =
      (B + of_bool sb * (N * N)) + (N * N) * int m"
    unfolding ex_def extended_value [OF len(1)] extended_value [OF len(2)] extended_value [OF len(3)] extended_value [OF len(4)]
    by (simp only: N_def)
  then have "C * Q + R = B + (N * N) * (of_bool sb + int m - of_bool sr - C * of_bool sq - of_bool sc * Q - of_bool sc * of_bool sq * (N * N))"
    by (simp add: algebra_simps)
  then show ?thesis unfolding C_def Q_def R_def B_def by blast
qed

text \<open>The numbers are small enough that the equation holds without the modulus.\<close>

lemma divrem_exact:
  fixes C Q R B N m :: int
  assumes eq: "C * Q + R = B + N * N * m" and N: "4 \<le> N"
    and bounds: "2 * \<bar>C\<bar> \<le> N \<and> \<bar>Q\<bar> \<le> N \<and> \<bar>R\<bar> \<le> N \<and> 2 * \<bar>B\<bar> \<le> N \<or>
      0 \<le> C \<and> C < N \<and> 0 \<le> Q \<and> Q < N \<and> 0 \<le> R \<and> R < N \<and> 0 \<le> B \<and> B < N"
  shows "C * Q + R = B"
proof -
  have "\<bar>C * Q + R - B\<bar> < N * N"
    using bounds
  proof
    assume b: "2 * \<bar>C\<bar> \<le> N \<and> \<bar>Q\<bar> \<le> N \<and> \<bar>R\<bar> \<le> N \<and> 2 * \<bar>B\<bar> \<le> N"
    have "2 * \<bar>C\<bar> * \<bar>Q\<bar> \<le> N * N" using b N by (intro mult_mono) auto
    moreover have "4 * N \<le> N * N" using N by (intro mult_right_mono) auto
    moreover have "\<bar>C * Q\<bar> = \<bar>C\<bar> * \<bar>Q\<bar>" by (rule abs_mult)
    ultimately show ?thesis using b N by linarith
  next
    assume b: "0 \<le> C \<and> C < N \<and> 0 \<le> Q \<and> Q < N \<and> 0 \<le> R \<and> R < N \<and> 0 \<le> B \<and> B < N"
    have "C * Q \<le> (N - 1) * (N - 1)" using b by (intro mult_mono) auto
    moreover have "0 \<le> C * Q" using b by simp
    moreover have "(N - 1) * (N - 1) = N * N - 2 * N + 1" by (simp add: algebra_simps)
    moreover have "4 * N \<le> N * N" using N by (intro mult_right_mono) auto
    ultimately show ?thesis using b by linarith
  qed
  moreover have "C * Q + R - B = N * N * m" using eq by simp
  ultimately have "\<bar>N * N * m\<bar> < \<bar>N * N\<bar> * 1" by (metis abs_mult abs_ge_self less_le_trans mult_1_right)
  then have "m = 0" unfolding abs_mult [of "N * N"] by (simp only: mult_less_cancel_left) auto
  then show ?thesis using eq by simp
qed

section \<open>The absolute value of the remainder\<close>

lemma carry_lt_unfold:
  "carry_lt lb cols i = ((if i > 0 then carry_lt lb cols (i - 1) else 0) + dr_r cols ! i + dr_r_prime cols ! i) *
     inverse (of_nat (2 ^ lb))"
  by (cases i) simp_all

lemma r_prime_step:
  fixes u p c :: "'f::field"
  assumes c: "c = (u + of_nat r + p) * inverse (of_nat (2 ^ lb))" and u: "u = from_bool b" and r: "r < 2 ^ lb"
    and a: "(c - u) * (c - 1) = 0" "(p - of_nat (2 ^ lb)) * ri = 1" "not_f c = 0 \<or> p = 0"
    and char: "2 ^ lb < CHAR('f)"
  shows "(c = 0 \<and> \<not> b \<and> r = 0 \<and> p = 0) \<or> (c = 1 \<and> (\<exists>v < 2 ^ lb. p = of_nat v \<and> of_bool b + r + v = 2 ^ lb))"
proof (cases "c = 1")
  case True
  have ne: "of_nat (2 ^ lb) \<noteq> (0 :: 'f)" using two_power_neq_0_char [OF char] by simp
  have "u + of_nat r + p = of_nat (2 ^ lb)" using c True ne by (simp add: field_simps)
  moreover define v where "v = 2 ^ lb - of_bool b - r"
  have v: "of_bool b + r + v = 2 ^ lb" using r by (cases b) (simp_all add: v_def)
  ultimately have "u + of_nat r + p = of_nat (of_bool b + r + v)" by (simp only:)
  then have p: "p = of_nat v" using u by (cases b) simp_all
  have "v \<noteq> 2 ^ lb" using a(2) p by auto
  then have "v < 2 ^ lb" using v by linarith
  then show ?thesis using True p v by blast
next
  case False
  then have "c = u" "p = 0" using a by (auto simp: not_f_def)
  then have c0: "c = 0" "\<not> b" using False u by (cases b; simp)+
  have "of_nat r = (0 :: 'f)" using c c0 \<open>c = u\<close> \<open>p = 0\<close> two_power_neq_0_char [OF char] by auto
  then have "r = 0" using r char by (simp add: of_nat_eq_0_char)
  then show ?thesis using c0 \<open>p = 0\<close> by simp
qed

lemma r_prime_sound:
  fixes cols :: "'f::field divrem_cols"
  assumes sat: "\<And>i. i < n \<Longrightarrow> all_satisfied (r_prime_assertions lb cols i)" and x: "dr_sign_xor cols = 1"
    and r: "dr_r cols = fels rs" "limbs_ok lb rs" "length rs = n" "limbs_val lb rs \<noteq> 0"
    and p: "length (dr_r_prime cols) = n" and char: "2 ^ lb < CHAR('f)"
  obtains ps where "dr_r_prime cols = fels ps" "limbs_ok lb ps" "length ps = n"
    "limbs_val lb ps + limbs_val lb rs = 2 ^ (lb * n)"
proof -
  let ?cl = "\<lambda>i. if i > 0 then carry_lt lb cols (i - 1) else 0"
  have inv: "\<exists>ps b. take i (dr_r_prime cols) = fels ps \<and> limbs_ok lb ps \<and> length ps = i \<and> ?cl i = from_bool b \<and>
      limbs_val lb ps + limbs_val lb (take i rs) = of_bool b * 2 ^ (lb * i)" if "i \<le> n" for i
    using that
  proof (induction i)
    case 0
    then show ?case by (intro exI [of _ "[]"] exI [of _ False]) simp
  next
    case (Suc i)
    then obtain ps b where IH: "take i (dr_r_prime cols) = fels ps" "limbs_ok lb ps" "length ps = i" "?cl i = from_bool b"
      "limbs_val lb ps + limbs_val lb (take i rs) = of_bool b * 2 ^ (lb * i)" by auto
    have i: "i < n" using Suc.prems by simp
    let ?c = "carry_lt lb cols i" and ?p = "dr_r_prime cols ! i" and ?r = "rs ! i"
    have s: "(?c - ?cl i) * (?c - 1) = 0" "(?p - of_nat (2 ^ lb)) * r_inv cols ! i = 1" "not_f ?c = 0 \<or> ?p = 0"
      using sat [OF i] x by (simp_all add: r_prime_assertions_def Let_def)
    have c: "?c = (?cl i + of_nat ?r + ?p) * inverse (of_nat (2 ^ lb))"
      using carry_lt_unfold [of lb cols i] r i by simp
    have rl: "?r < 2 ^ lb" using r i by (simp add: list_all_length)
    have tk: "take (Suc i) (dr_r_prime cols) = fels ps @ [?p]" using IH(1) p i by (simp add: take_Suc_conv_app_nth)
    have v: "limbs_val lb (ps @ [w]) + limbs_val lb (take (Suc i) rs) =
        limbs_val lb ps + limbs_val lb (take i rs) + (?r + w) * 2 ^ (lb * i)" for w
      using i r IH(3) by (simp add: limbs_val_take_Suc limbs_val_append algebra_simps)
    from r_prime_step [OF c IH(4) rl s char] show ?case
    proof (elim disjE conjE exE)
      assume "?c = 0" "\<not> b" "?r = 0" "?p = 0"
      then show ?thesis using IH tk v [of 0] by (intro exI [of _ "ps @ [0]"] exI [of _ False]) simp
    next
      fix w assume w: "?c = 1" "w < 2 ^ lb" "?p = of_nat w" "of_bool b + ?r + w = 2 ^ lb"
      have "of_bool b * 2 ^ (lb * i) + (?r + w) * 2 ^ (lb * i) = (of_bool b + ?r + w) * 2 ^ (lb * i)" by (simp add: algebra_simps)
      also have "\<dots> = 2 ^ (lb * Suc i)" unfolding w(4) by (simp add: power_add)
      finally show ?thesis using IH tk v [of w] w by (intro exI [of _ "ps @ [w]"] exI [of _ True]) simp
    qed
  qed
  from inv [of n] obtain ps b where f: "dr_r_prime cols = fels ps" "limbs_ok lb ps" "length ps = n"
      "limbs_val lb ps + limbs_val lb rs = of_bool b * 2 ^ (lb * n)"
    using p r by auto
  moreover have "b" using f(4) r(4) by (cases b) auto
  ultimately show ?thesis using that by simp
qed

section \<open>The comparison\<close>

lemma lt_loop_diff:
  "lt_loop cols p is = diff_loop (\<lambda>i. dr_r_prime cols ! i - dr_c cols ! i) (dr_c_sign cols) (dr_lt_marker cols) (dr_lt_diff cols) p is"
proof (induction "is" arbitrary: p)
  case (Cons i "is")
  have "dr_r_prime cols ! i * (of_nat 2 * dr_c_sign cols - 1) + dr_c cols ! i * (1 - of_nat 2 * dr_c_sign cols) =
      (dr_r_prime cols ! i - dr_c cols ! i) * (of_nat 2 * dr_c_sign cols - 1)" by (simp add: algebra_simps)
  then show ?case unfolding lt_loop.simps diff_loop.simps Cons by (simp only:)
qed simp

lemma diff_loop_flip:
  "diff_loop d c m dv p is = diff_loop (\<lambda>i. - d i) (1 - c) m dv p is"
proof (induction "is" arbitrary: p)
  case (Cons i "is")
  have "d i * (of_nat 2 * c - 1) = - d i * (of_nat 2 * (1 - c) - 1)" by (simp add: algebra_simps)
  then show ?case unfolding diff_loop.simps Cons by (simp only:)
qed simp

lemma lt_loop_sound:
  fixes cols :: "'f::field divrem_cols"
  assumes run: "lt_loop cols 0 (rev [0..<n]) = (as, 1)" "all_satisfied as" and s: "dr_c_sign cols = from_bool sc"
    and range: "bitwise_table lb [dr_lt_diff cols - 1, 0, 0, 0]"
    and c: "dr_c cols = fels cs" "limbs_ok lb cs" "length cs = n" and p: "dr_r_prime cols = fels ps" "limbs_ok lb ps" "length ps = n"
    and n: "0 < n" "n < CHAR('f)" and lb: "0 < lb" and char: "2 ^ (lb + 2) < CHAR('f)"
  shows "if sc then limbs_val lb cs < limbs_val lb ps else limbs_val lb ps < limbs_val lb cs"
proof -
  obtain u where u: "u < 2 ^ lb" "dr_lt_diff cols - 1 = of_nat u" using range by (auto simp: bitwise_table_range)
  let ?d = "\<lambda>xs ys. limb_diff n (fels xs) (fels ys) (of_int (msb_int lb False (xs ! (n - 1)))) (of_int (msb_int lb False (ys ! (n - 1)))) :: nat \<Rightarrow> 'f"
  have d: "?d xs ys i = of_nat (ys ! i) - of_nat (xs ! i)" if "i < n" "length xs = n" "length ys = n" for xs ys i
    using that by (auto simp: limb_diff_def msb_int_def)
  have "diff_loop (?d cs ps) (from_bool sc) (dr_lt_marker cols) (dr_lt_diff cols) 0 (rev [0..<n]) = (as, 1)"
    using run(1) unfolding lt_loop_diff s
    by (subst diff_loop_cong [where d' = "\<lambda>i. dr_r_prime cols ! i - dr_c cols ! i"])
      (use c p d [OF _ c(3) p(3)] in simp_all)
  from diff_loop_sound [OF this run(2)] have "sc \<longleftrightarrow> limbs_val lb cs < limbs_val lb ps"
    using u c p n lb char by auto
  moreover have "diff_loop (?d ps cs) (from_bool (\<not> sc)) (dr_lt_marker cols) (dr_lt_diff cols) 0 (rev [0..<n]) = (as, 1)"
    using run(1) unfolding lt_loop_diff diff_loop_flip [of "\<lambda>i. dr_r_prime cols ! i - dr_c cols ! i"] s
    by (subst diff_loop_cong [where d' = "\<lambda>i. - (dr_r_prime cols ! i - dr_c cols ! i)"])
      (use c p d [OF _ p(3) c(3)] in \<open>cases sc; simp\<close>)+
  from diff_loop_sound [OF this run(2)] have "\<not> sc \<longleftrightarrow> limbs_val lb ps < limbs_val lb cs"
    using u c p n lb char by auto
  ultimately show ?thesis by simp
qed

section \<open>Soundness\<close>

lemma limbs_of_int:
  assumes "limbs_ok lb xs" "length xs = n" "int (limbs_val lb xs) = z + k * 2 ^ (lb * n)"
  shows "xs = to_limbs lb n (nat (z mod 2 ^ (lb * n)))"
proof -
  have b: "int (limbs_val lb xs) < 2 ^ (lb * n)"
    using limbs_val_bound [OF assms(1)] assms(2) by (metis of_nat_less_iff of_nat_numeral of_nat_power)
  have "z mod 2 ^ (lb * n) = int (limbs_val lb xs) mod 2 ^ (lb * n)" by (simp add: assms(3))
  also have "\<dots> = int (limbs_val lb xs)" using b by simp
  finally show ?thesis using to_limbs_val [OF assms(1)] assms(2) by simp
qed

lemma top_limb_iff:
  assumes "limbs_ok lb xs" "length xs = n" "0 < n" "0 < lb"
  shows "2 ^ (lb - 1) \<le> xs ! (n - 1) \<longleftrightarrow> 2 ^ (lb * n) \<le> 2 * limbs_val lb xs"
proof -
  obtain k where k: "n = Suc k" using assms(3) by (cases n) auto
  obtain h where h: "lb = Suc h" using assms(4) by (cases lb) auto
  let ?P = "2 ^ (lb * k) :: nat"
  have v: "limbs_val lb xs = limbs_val lb (take k xs) + xs ! k * ?P"
    using limbs_val_take_Suc [of k xs lb] assms(2) k by simp
  have t: "limbs_val lb (take k xs) < ?P"
    using limbs_val_bound [of lb "take k xs"] assms(1,2) k by (simp add: list_all_length min_def)
  have N: "2 ^ (lb * n) = 2 * (2 ^ h * ?P)" by (simp add: k h power_add algebra_simps)
  show ?thesis
  proof (cases "2 ^ h \<le> xs ! k")
    case True
    then have "2 ^ h * ?P \<le> xs ! k * ?P" by (rule mult_le_mono1)
    then have "2 ^ h * ?P \<le> limbs_val lb xs" unfolding v by (rule trans_le_add2)
    then have "2 * (2 ^ h * ?P) \<le> 2 * limbs_val lb xs" by (rule mult_le_mono2)
    then show ?thesis using True unfolding N by (simp add: k h)
  next
    case False
    then have "Suc (xs ! k) * ?P \<le> 2 ^ h * ?P" by (intro mult_le_mono1) simp
    then have "limbs_val lb xs < 2 ^ h * ?P" using v t by simp
    then show ?thesis using False k h unfolding N by simp
  qed
qed

lemma sval_bounds:
  assumes "limbs_ok lb xs" "length xs = n" "0 < n" "0 < lb"
  shows "sg \<Longrightarrow> - (2 ^ (lb * n)) \<le> 2 * sval lb sg xs \<and> 2 * sval lb sg xs < 2 ^ (lb * n)"
    and "\<not> sg \<Longrightarrow> 0 \<le> sval lb sg xs \<and> sval lb sg xs < 2 ^ (lb * n)"
proof -
  have i: "int (2 ^ (lb * n)) = 2 ^ (lb * n)" by simp
  have b: "int (limbs_val lb xs) < 2 ^ (lb * n)"
    using limbs_val_bound [OF assms(1)] assms(2) by (metis of_nat_less_iff i)
  show "\<not> sg \<Longrightarrow> 0 \<le> sval lb sg xs \<and> sval lb sg xs < 2 ^ (lb * n)" using b by (simp add: sval_def)
  have "2 ^ (lb - 1) \<le> xs ! (n - 1) \<longleftrightarrow> 2 ^ (lb * n) \<le> 2 * int (limbs_val lb xs)"
    using top_limb_iff [OF assms] by (metis i of_nat_le_iff of_nat_mult of_nat_numeral)
  moreover have "- N \<le> 2 * (V - (if t then N else 0)) \<and> 2 * (V - (if t then N else 0)) < N"
    if "t \<longleftrightarrow> N \<le> 2 * V" "V < N" "0 \<le> V" for t and N V :: int using that by auto
  ultimately show "sg \<Longrightarrow> - (2 ^ (lb * n)) \<le> 2 * sval lb sg xs \<and> 2 * sval lb sg xs < 2 ^ (lb * n)"
    using b unfolding sval_def assms(2) by (simp only: simp_thms of_nat_0_le_iff)
qed

text \<open>
  What the constraints say of the limbs in \<open>q\<close> and \<open>r\<close>, as numbers: \<open>zd\<close> and \<open>rz\<close> are the flags
  for a zero divisor and a zero remainder, \<open>P\<close> is the absolute value the comparison reads.
\<close>

lemma divrem_values:
  fixes cs qs rs bs :: "nat list" and sg sq zd rz :: bool and n lb P :: nat
  defines "x \<equiv> sval lb sg bs" and "y \<equiv> sval lb sg cs"
    and "sb \<equiv> sg \<and> 2 ^ (lb - 1) \<le> bs ! (n - 1)" and "sc \<equiv> sg \<and> 2 ^ (lb - 1) \<le> cs ! (n - 1)"
  assumes c: "limbs_ok lb cs" "length cs = n" and b: "limbs_ok lb bs" "length bs = n"
    and q: "limbs_ok lb qs" "length qs = n" and r: "limbs_ok lb rs" "length rs = n"
    and n: "0 < n" and lb: "2 \<le> lb"
    and low: "carries n lb (\<lambda>i. rs ! i + conv cs qs i) (\<lambda>i. bs ! i) 0 k"
    and high: "carries n lb (\<lambda>j. conv (extended n cs (of_bool sc * (2 ^ lb - 1))) (extended n qs (of_bool sq * (2 ^ lb - 1))) (n + j) +
        of_bool (\<not> rz \<and> sb) * (2 ^ lb - 1)) (\<lambda>_. of_bool sb * (2 ^ lb - 1)) (k (n - 1)) l"
    and zd: "zd \<Longrightarrow> limbs_val lb cs = 0 \<and> qs = replicate n (2 ^ lb - 1) \<and> \<not> rz" "\<not> zd \<Longrightarrow> limbs_val lb cs \<noteq> 0"
    and rz: "rz \<Longrightarrow> limbs_val lb rs = 0"
    and lt: "\<not> zd \<Longrightarrow> \<not> rz \<Longrightarrow> limbs_val lb rs \<noteq> 0 \<and> P = (if sb = sc then limbs_val lb rs else 2 ^ (lb * n) - limbs_val lb rs) \<and>
        (if sc then limbs_val lb cs < P else P < limbs_val lb cs)"
    and sq: "\<not> sg \<Longrightarrow> \<not> zd \<Longrightarrow> \<not> sq"
  shows "qs = to_limbs lb n (nat (quot_spec x y mod 2 ^ (lb * n)))" "rs = to_limbs lb n (nat (rem_spec x y mod 2 ^ (lb * n)))"
proof -
  let ?N = "2 ^ (lb * n) :: int" and ?v = "\<lambda>xs. int (limbs_val lb xs)"
  define Q R where "Q = ?v qs - of_bool sq * ?N" and "R = ?v rs - of_bool (\<not> rz \<and> sb) * ?N"
  have xy: "x = ?v bs - of_bool sb * ?N" "y = ?v cs - of_bool sc * ?N"
    using b c by (simp_all add: x_def y_def sval_def sb_def sc_def)
  have bnd: "0 \<le> ?v xs" "?v xs < ?N" if "limbs_ok lb xs" "length xs = n" for xs
    using limbs_val_bound [OF that(1)] that(2) by (simp, metis of_nat_less_iff of_nat_numeral of_nat_power)
  have "2 \<le> lb * n" using lb n by (metis One_nat_def Suc_leI mult_le_mono nat_mult_1_right)
  then have N4: "4 \<le> ?N" using power_increasing [of 2 "lb * n" "2::int"] by simp
  obtain m where m: "y * Q + R = x + ?N * ?N * m"
    using carries_divrem [OF c(2) q(2) r(2) b(2) low high n] unfolding xy Q_def R_def by blast
  have "qs = to_limbs lb n (nat (quot_spec x y mod ?N)) \<and> rs = to_limbs lb n (nat (rem_spec x y mod ?N))"
  proof (cases zd)
    case True
    note z = zd(1) [OF True]
    have "cs ! (n - 1) = 0"
      using z c(2) n by (auto simp: limbs_val_sum)
    then have y0: "y = 0" using z lb by (auto simp: xy sc_def)
    have "0 * 0 + ?v rs = ?v bs + ?N * ?N * m" using m y0 z by (simp add: R_def xy)
    from divrem_exact [OF this N4] have "?v rs = x + of_bool sb * ?N" using bnd [OF r] bnd [OF b] N4 by (simp add: xy)
    moreover have "?v qs = - 1 + 1 * ?N" using z by (simp only: limbs_val_replicate of_nat_diff) (simp add: of_nat_diff)
    ultimately show ?thesis using limbs_of_int [OF r] limbs_of_int [OF q, of "- 1" 1] y0
      by (simp only: quot_spec_def rem_spec_def refl if_True simp_thms)
  next
    case False
    have eq: "y * Q + R = x"
    proof (rule divrem_exact [OF m N4])
      show "2 * \<bar>y\<bar> \<le> ?N \<and> \<bar>Q\<bar> \<le> ?N \<and> \<bar>R\<bar> \<le> ?N \<and> 2 * \<bar>x\<bar> \<le> ?N \<or>
        0 \<le> y \<and> y < ?N \<and> 0 \<le> Q \<and> Q < ?N \<and> 0 \<le> R \<and> R < ?N \<and> 0 \<le> x \<and> x < ?N"
      proof (cases sg)
        case True
        have "\<bar>Q\<bar> \<le> ?N" "\<bar>R\<bar> \<le> ?N" using bnd [OF q] bnd [OF r] by (auto simp: Q_def R_def of_bool_def)
        then show ?thesis using sval_bounds(1) [OF b n _ True] sval_bounds(1) [OF c n _ True] lb by (auto simp: x_def y_def)
      next
        case False
        then have "\<not> sq" "\<not> sb" "\<not> sc" using sq \<open>\<not> zd\<close> by (auto simp: sb_def sc_def)
        then show ?thesis using bnd [OF q] bnd [OF r] bnd [OF b] bnd [OF c] by (simp add: Q_def R_def xy)
      qed
    qed
    have neg: "x < 0 \<longleftrightarrow> sb" "y < 0 \<longleftrightarrow> sc" using bnd [OF b] bnd [OF c] by (auto simp: xy of_bool_def)
    have y0: "y \<noteq> 0" using zd(2) [OF False] bnd [OF c] by (auto simp: xy of_bool_def)
    have R: "\<bar>R\<bar> < \<bar>y\<bar> \<and> (0 \<le> x \<longrightarrow> 0 \<le> R) \<and> (x < 0 \<longrightarrow> R \<le> 0)"
    proof (cases rz)
      case True
      then show ?thesis using rz y0 by (simp add: R_def)
    next
      case rz: False
      note lt = lt [OF False rz]
      have rp: "0 < ?v rs" using lt by simp
      have "int P = (if sb = sc then ?v rs else ?N - ?v rs)"
        using lt bnd [OF r] limbs_val_bound [OF r(1)] r(2) by (simp add: of_nat_diff less_imp_le)
      moreover have "if sc then ?v cs < int P else int P < ?v cs" using lt by (simp split: if_splits)
      ultimately show ?thesis using rp bnd [OF r] bnd [OF c] rz unfolding neg not_less [symmetric, of 0 x]
        by (auto simp: R_def xy(2) split: if_splits)
    qed
    have "x sdiv y = Q \<and> x smod y = R" by (rule sdiv_smod_unique) (use eq R in auto)
    then show ?thesis using y0 limbs_of_int [OF q, of Q "of_bool sq"] limbs_of_int [OF r, of R "of_bool (\<not> rz \<and> sb)"]
      by (simp add: quot_spec_def rem_spec_def Q_def R_def)
  qed
  then show "qs = to_limbs lb n (nat (quot_spec x y mod ?N))" "rs = to_limbs lb n (nat (rem_spec x y mod ?N))" by simp_all
qed

definition divrem_ctx ::
  "nat \<Rightarrow> nat \<Rightarrow> nat \<Rightarrow> DivRemOpcode \<Rightarrow> nat list \<Rightarrow> nat list \<Rightarrow> ('f::field, 'f minimal_instruction) adapter_air_context" where
  "divrem_ctx n lb off op bs cs =
     \<lparr>to_pc = None, reads = [fels bs, fels cs], writes = [fels (to_limbs lb n (divrem_spec n lb op bs cs))],
      instruction = \<lparr>is_valid = 1, opcode = of_nat (off + repr_of divrem_opcodes op)\<rparr>\<rparr>"

lemma divrem_opcodes_simps [simp]:
  "repr_of divrem_opcodes DIV = 0" "repr_of divrem_opcodes DIVU = 1" "repr_of divrem_opcodes REM = 2" "repr_of divrem_opcodes REMU = 3"
  "distinct divrem_opcodes" "op \<in> set divrem_opcodes" "length divrem_opcodes = 4"
  by (cases op; simp add: divrem_opcodes_def)+

lemma limbs_val_0_iff: "limbs_val lb xs = 0 \<longleftrightarrow> (\<forall>x\<in>set xs. x = 0)"
  by (induction xs) auto

lemma fold_sum_fels: "fold (\<lambda>c acc. acc + c) (fels xs) 0 = (of_nat (sum_list xs) :: 'f::field)"
proof -
  have "fold (\<lambda>c acc. acc + c) (fels xs) a = (a + of_nat (sum_list xs) :: 'f)" for a
    by (induction xs arbitrary: a) simp_all
  then show ?thesis by simp
qed

text \<open>The low and the high chain of the row, once the columns are known to be limbs and bits.\<close>

lemma low_sum_fels:
  assumes "i < n" "length cs = n" "length qs = n" "length rs = n"
  shows "fold (\<lambda>k ac. ac + fels cs ! k * fels qs ! (i - k)) [0..<Suc i] (fels rs ! i) = (of_nat (rs ! i + conv cs qs i) :: 'f::field)"
proof -
  have f: "fold (\<lambda>k ac. ac + f k) js a = a + fold (\<lambda>k ac. ac + f k) js 0" for f :: "nat \<Rightarrow> 'f" and js a
  proof (induction js arbitrary: a)
    case (Cons j js)
    show ?case using Cons [of "a + f j"] Cons [of "f j"] by simp
  qed simp
  show ?thesis using prod_sum_fels [of i n cs qs, where 'f = 'f] assms
    by (subst f) (simp add: prod_sum_def del: upt_Suc)
qed

lemma divrem_carries_sound:
  fixes cols :: "'f::field divrem_cols"
  assumes cols: "dr_b cols = fels bs" "dr_c cols = fels cs" "dr_q cols = fels qs" "dr_r cols = fels rs"
    and len: "length bs = n" "length cs = n" "length qs = n" "length rs = n"
    and ok: "limbs_ok lb bs" "limbs_ok lb cs" "limbs_ok lb qs" "limbs_ok lb rs"
    and signs: "dr_b_sign cols = from_bool sb" "dr_c_sign cols = from_bool sc" "dr_q_sign cols = from_bool sq" "dr_r_zero cols = from_bool rz"
    and k: "\<And>i. i < n \<Longrightarrow> divrem_carry lb cols i = of_nat (k i) \<and> k i < K"
    and l: "\<And>i. i < n \<Longrightarrow> divrem_carry_ext n lb cols i = of_nat (l i) \<and> l i < K"
    and n: "0 < n" and K: "0 < K" and char: "2 * n * (2 ^ lb * 2 ^ lb) + K < CHAR('f)" "2 ^ lb * (K + 1) < CHAR('f)"
  shows "carries n lb (\<lambda>i. rs ! i + conv cs qs i) (\<lambda>i. bs ! i) 0 k"
    and "carries n lb (\<lambda>j. conv (extended n cs (of_bool sc * (2 ^ lb - 1))) (extended n qs (of_bool sq * (2 ^ lb - 1))) (n + j) +
        of_bool (\<not> rz \<and> sb) * (2 ^ lb - 1)) (\<lambda>_. of_bool sb * (2 ^ lb - 1)) (k (n - 1)) l"
proof -
  let ?M = "2 * n * ((2 ^ lb - 1) * (2 ^ lb - 1)) + (2 ^ lb - 1)"
  have M: "?M + K < CHAR('f)"
  proof -
    obtain p where p: "(2::nat) ^ lb = Suc p" by (metis gr0_implies_Suc zero_less_numeral zero_less_power)
    have "?M \<le> 2 * n * (p * p) + n * p" using n by (simp add: p)
    also have "\<dots> \<le> 2 * n * (Suc p * Suc p)" by (simp add: algebra_simps)
    finally show ?thesis using char(1) by (simp add: p)
  qed
  have bl: "bs ! i < 2 ^ lb" "rs ! i \<le> 2 ^ lb - 1" if "i < n" for i
    using that ok(1,4) len(1,4) by (auto simp: list_all_length less_eq_Suc_le [symmetric] intro!: Suc_leI le_diff_conv2 [THEN iffD2])
  show "carries n lb (\<lambda>i. rs ! i + conv cs qs i) (\<lambda>i. bs ! i) 0 k"
  proof (rule carry_col_sound [where M = ?M and K = K and 'f = 'f])
    show "rs ! i + conv cs qs i \<le> ?M" if "i < n" for i
    proof -
      have "conv cs qs i \<le> 2 * n * ((2 ^ lb - 1) * (2 ^ lb - 1))"
        using conv_bound_n [OF ok(2,3) that] by (simp add: mult.assoc)
      then show ?thesis using bl(2) [OF that] by linarith
    qed
    show "carry_col lb (\<lambda>i. fold (\<lambda>k ac. ac + dr_c cols ! k * dr_q cols ! (i - k)) [0..<Suc i] (dr_r cols ! i)) ((!) (dr_b cols)) (of_nat 0) i =
        of_nat (k i) \<and> k i < K" if "i < n" for i
      using k [OF that] by (simp add: divrem_carry_def)
  qed (use bl K M char low_sum_fels len in \<open>simp_all add: cols\<close>)
  have e: "divrem_ext lb (from_bool s :: 'f) = of_nat (of_bool s * (2 ^ lb - 1))" for s by (cases s) (simp_all add: divrem_ext_def)
  have kn: "divrem_carry lb cols (n - 1) = of_nat (k (n - 1))" using k [of "n - 1"] n by simp
  let ?ce = "of_bool sc * (2 ^ lb - 1) :: nat" and ?qe = "of_bool sq * (2 ^ lb - 1) :: nat" and ?be = "of_bool sb * (2 ^ lb - 1) :: nat"
  let ?S = "\<lambda>j. conv (extended n cs ?ce) (extended n qs ?qe) (n + j) + of_bool (\<not> rz \<and> sb) * (2 ^ lb - 1)"
  show "carries n lb ?S (\<lambda>_. ?be) (k (n - 1)) l"
  proof (rule carry_col_sound [where M = ?M and K = K and 'f = 'f])
    show "high_sum n (dr_c cols) (dr_q cols) (of_nat ?ce) (of_nat ?qe) j + (1 - dr_r_zero cols) * of_nat ?be = (of_nat (?S j) :: 'f)" if "j < n" for j
    proof -
      have "(1 - from_bool rz) * of_nat ?be = (of_nat (of_bool (\<not> rz \<and> sb) * (2 ^ lb - 1)) :: 'f)" by (cases rz) simp_all
      then show ?thesis unfolding cols signs of_nat_add high_sum_fels [OF that len(2,3)] by (simp only:)
    qed
    show "carry_col lb (\<lambda>j. high_sum n (dr_c cols) (dr_q cols) (of_nat ?ce) (of_nat ?qe) j + (1 - dr_r_zero cols) * of_nat ?be)
        (\<lambda>_. of_nat ?be) (of_nat (k (n - 1))) i = of_nat (l i) \<and> l i < K" if "i < n" for i
      using l [OF that] unfolding divrem_carry_ext_def Let_def signs(1-3) e kn .
    show "?S i \<le> ?M" if "i < n" for i
    proof -
      have "conv (extended n cs ?ce) (extended n qs ?qe) (n + i) \<le> Suc (n + i) * ((2 ^ lb - 1) * (2 ^ lb - 1))"
        by (rule conv_bound) (use ok in \<open>auto simp: list_all_iff\<close>)
      also have "\<dots> \<le> 2 * n * ((2 ^ lb - 1) * (2 ^ lb - 1))" by (rule mult_le_mono1) (use that in simp)
      finally show ?thesis by (rule add_le_mono) simp
    qed
  qed (use k [of "n - 1"] n M char in auto)
qed

lemma divrem_eval_sound:
  fixes cols :: "'f::field divrem_cols"
  assumes acc: "accepts T (divrem_eval n lb air cols)"
    and table: "\<And>k. T (dr_bitwise_bus air) k \<Longrightarrow> bitwise_table lb k"
      "\<And>k. T (rt_index (dr_tuple_bus air)) k \<Longrightarrow> range_tuple_table [2 ^ lb, K] k"
    and valid: "is_valid (instruction (core_ctx (divrem_eval n lb air cols))) = 1"
    and b: "dr_b cols = fels bs" "limbs_ok lb bs" "length bs = n"
    and c: "dr_c cols = fels cs" "limbs_ok lb cs" "length cs = n"
    and len: "length (dr_q cols) = n" "length (dr_r cols) = n" "length (dr_r_prime cols) = n"
    and char: "2 * n * (2 ^ lb * 2 ^ lb) + K < CHAR('f)" "2 ^ lb * (K + 1) < CHAR('f)" and K: "2 < K"
    and n: "0 < n" and lb: "2 \<le> lb"
  shows "\<exists>op. core_ctx (divrem_eval n lb air cols) = divrem_ctx n lb (dr_offset air) op bs cs"
proof -
  obtain lts p where lt: "lt_loop cols (special_case cols) (rev [0..<n]) = (lts, p)" by (metis prod.exhaust)
  note ev = divrem_eval_def [of n lb air cols, unfolded Let_def lt prod.case]
  let ?flags = "[opcode_div_flag cols, opcode_divu_flag cols, opcode_rem_flag cols, opcode_remu_flag cols]"
  have v1: "fold (\<lambda>flag acc. acc + flag) ?flags 0 = 1" using valid by (simp add: ev)
  have L4: "4 \<le> (2::nat) ^ lb" using power_increasing [of 2 lb "2::nat"] lb by simp
  have c2: "2 ^ (lb + 2) < CHAR('f)" "2 ^ (lb + 1) < CHAR('f)" "2 ^ lb < CHAR('f)" "4 < CHAR('f)" "n < CHAR('f)" "n * 2 ^ lb < CHAR('f)"
  proof -
    have "2 ^ lb * 4 \<le> (2::nat) ^ lb * (K + 1)" using K by (intro mult_le_mono2) simp
    then have "2 ^ lb * 4 < CHAR('f)" using char(2) by linarith
    then show "2 ^ (lb + 2) < CHAR('f)" "2 ^ (lb + 1) < CHAR('f)" "2 ^ lb < CHAR('f)" "4 < CHAR('f)" using L4 by simp_all
    have "n * 1 \<le> n * 2 ^ lb" "n * 2 ^ lb \<le> n * (2 ^ lb * 2 ^ lb)" by (rule mult_le_mono2, simp)+
    moreover have "n * (2 ^ lb * 2 ^ lb) \<le> 2 * n * (2 ^ lb * 2 ^ lb)" by simp
    ultimately show "n < CHAR('f)" "n * 2 ^ lb < CHAR('f)" using char(1) by linarith+
  qed
  obtain op where op: "?flags = opcode_flags divrem_opcodes op"
  proof (rule flags_select [of ?flags divrem_opcodes])
    show "x = 0 \<or> x = 1" if "x \<in> set ?flags" for x using acc that by (auto simp: accepts_def ev)
  qed (use c2 v1 in simp_all)
  then have flags: "opcode_div_flag cols = from_bool (op = DIV)" "opcode_divu_flag cols = from_bool (op = DIVU)"
      "opcode_rem_flag cols = from_bool (op = REM)" "opcode_remu_flag cols = from_bool (op = REMU)"
    by (auto simp: opcode_flags_def divrem_opcodes_def)
  have sg: "opcode_div_flag cols + opcode_rem_flag cols = from_bool (signed_op op)"
    "opcode_div_flag cols + opcode_divu_flag cols = from_bool (div_op op)" by (cases op; simp add: flags)+
  note ev' = ev [unfolded v1 sg]
  have sat: "all_satisfied (special_assertions n lb cols 1)" "all_satisfied (sign_assertions cols (from_bool (signed_op op)))"
      "\<And>i. i < n \<Longrightarrow> all_satisfied (r_prime_assertions lb cols i)" "all_satisfied lts" "p = 1"
    using acc unfolding accepts_def ev' by simp_all
  have bits: "dr_b_sign cols = 0 \<or> dr_b_sign cols = 1" "dr_c_sign cols = 0 \<or> dr_c_sign cols = 1" "dr_q_sign cols = 0 \<or> dr_q_sign cols = 1"
    and zds: "dr_zero_divisor cols = 0 \<or> dr_zero_divisor cols = 1" "dr_r_zero cols = 0 \<or> dr_r_zero cols = 1"
    using sat(1,2) unfolding sign_assertions_def special_assertions_def Let_def by simp_all
  obtain sq zd rz where sgn: "dr_q_sign cols = from_bool sq" "dr_zero_divisor cols = from_bool zd" "dr_r_zero cols = from_bool rz"
    using bits(3) zds by (metis from_bool_simps)
  have top: "bs ! (n - 1) < 2 ^ lb" "cs ! (n - 1) < 2 ^ lb" "dr_b cols ! (n - 1) = of_nat (bs ! (n - 1))"
      "dr_c cols ! (n - 1) = of_nat (cs ! (n - 1))"
    using b c n by (simp_all add: list_all_length)
  have look: "lookups_ok T (fst (snd (divrem_eval n lb air cols)))" using acc by (simp add: accepts_def)
  let ?sb = "signed_op op \<and> 2 ^ (lb - 1) \<le> bs ! (n - 1)" and ?sc = "signed_op op \<and> 2 ^ (lb - 1) \<le> cs ! (n - 1)"
  have signs: "dr_b_sign cols = from_bool ?sb" "dr_c_sign cols = from_bool ?sc"
  proof (atomize (full), cases "signed_op op")
    case True
    have "lookup_ok T (send_range (dr_bitwise_bus air) (of_nat 2 * (of_nat (bs ! (n - 1)) - dr_b_sign cols * of_nat (2 ^ (lb - 1))))
        (of_nat 2 * (of_nat (cs ! (n - 1)) - dr_c_sign cols * of_nat (2 ^ (lb - 1)))) 1)"
      using look True unfolding ev' top(3,4) by simp
    then have "bitwise_table lb [of_nat 2 * (of_nat (bs ! (n - 1)) - dr_b_sign cols * of_nat (2 ^ (lb - 1))),
        of_nat 2 * (of_nat (cs ! (n - 1)) - dr_c_sign cols * of_nat (2 ^ (lb - 1))), 0, 0]"
      using table(1) by (simp add: air_defs del: of_nat_power of_nat_numeral)
    then obtain u v where "of_nat 2 * (of_nat (bs ! (n - 1)) - dr_b_sign cols * of_nat (2 ^ (lb - 1))) = (of_nat u :: 'f)" "u < 2 ^ lb"
        "of_nat 2 * (of_nat (cs ! (n - 1)) - dr_c_sign cols * of_nat (2 ^ (lb - 1))) = (of_nat v :: 'f)" "v < 2 ^ lb"
      unfolding bitwise_table_range by blast
    then show "dr_b_sign cols = from_bool ?sb \<and> dr_c_sign cols = from_bool ?sc"
      using sign_range_sound [OF _ _ top(1) _ c2(2) bits(1)] sign_range_sound [OF _ _ top(2) _ c2(2) bits(2)] lb True by simp
  next
    case False
    then show "dr_b_sign cols = from_bool ?sb \<and> dr_c_sign cols = from_bool ?sc"
      using sat(2) by (simp add: sign_assertions_def Let_def not_f_def)
  qed
  have xor: "dr_sign_xor cols = from_bool (?sb \<noteq> ?sc)"
  proof -
    have "from_bool s + from_bool t - of_nat 2 * from_bool s * from_bool t = (from_bool (s \<noteq> t) :: 'f)" for s t
      by (cases s; cases t) simp_all
    moreover have "dr_sign_xor cols = dr_b_sign cols + dr_c_sign cols - of_nat 2 * dr_b_sign cols * dr_c_sign cols"
      using sat(2) unfolding sign_assertions_def Let_def by simp
    ultimately show ?thesis unfolding signs by (simp only:)
  qed
  have tab: "range_tuple_table [2 ^ lb, K] [dr_q cols ! i, divrem_carry lb cols i]"
      "range_tuple_table [2 ^ lb, K] [dr_r cols ! i, divrem_carry_ext n lb cols i]" if "i < n" for i
    using look that table(2) by (auto simp: ev' air_defs)
  obtain x k where x: "\<And>i. i < n \<Longrightarrow> dr_q cols ! i = of_nat (x i) \<and> x i < 2 ^ lb"
      and k: "\<And>i. i < n \<Longrightarrow> divrem_carry lb cols i = of_nat (k i) \<and> k i < K"
    using pair_columns [of n "2 ^ lb" K "\<lambda>i. dr_q cols ! i" "divrem_carry lb cols"] tab(1) by blast
  obtain y l where y: "\<And>i. i < n \<Longrightarrow> dr_r cols ! i = of_nat (y i) \<and> y i < 2 ^ lb"
      and l: "\<And>i. i < n \<Longrightarrow> divrem_carry_ext n lb cols i = of_nat (l i) \<and> l i < K"
    using pair_columns [of n "2 ^ lb" K "\<lambda>i. dr_r cols ! i" "divrem_carry_ext n lb cols"] tab(2) by blast
  define qs rs where "qs = map x [0..<n]" and "rs = map y [0..<n]"
  have q: "dr_q cols = fels qs" "limbs_ok lb qs" "length qs = n"
    and r: "dr_r cols = fels rs" "limbs_ok lb rs" "length rs = n"
    using x y len by (auto simp: qs_def rs_def list_all_iff intro!: nth_equalityI)
  have small: "sum_list zs < CHAR('f)" if "limbs_ok lb zs" "length zs = n" for zs
  proof -
    have "sum_list zs \<le> length zs * 2 ^ lb" using that(1) by (induction zs) auto
    then show ?thesis using c2(6) unfolding that(2) by (rule le_less_trans)
  qed
  have sum0: "of_nat (sum_list zs) = (0 :: 'f) \<longleftrightarrow> limbs_val lb zs = 0" if "limbs_ok lb zs" "length zs = n" for zs
    using small [OF that] by (simp add: of_nat_eq_0_char limbs_val_0_iff)
  have maxl: "of_nat a = (of_nat (2 ^ lb - 1) :: 'f) \<longleftrightarrow> a = 2 ^ lb - 1" if "a < 2 ^ lb" for a
    by (rule of_nat_eq_iff_char) (use that c2(3) in linarith)+
  have zero: "of_nat a = (0 :: 'f) \<longleftrightarrow> a = 0" if "a < 2 ^ lb" for a
    by (rule of_nat_eq_0_char) (use that c2(3) in linarith)
  note sp = sat(1) [unfolded special_assertions_def Let_def special_case_def sgn c(1) q(1) r(1) fold_sum_fels, simplified]
  have zd: "limbs_val lb cs = 0 \<and> qs = replicate n (2 ^ lb - 1) \<and> \<not> rz" if zd
  proof -
    have "\<forall>i<n. cs ! i = 0 \<and> qs ! i = 2 ^ lb - 1"
      using sp that c q zero maxl by (simp add: list_all_length)
    moreover have "(2 :: 'f) \<noteq> 0" using of_nat_eq_0_char [of 2, where 'f = 'f] c2(4) by simp
    then have "\<not> rz" using sp that by (cases rz) auto
    ultimately show ?thesis using c q by (auto simp: limbs_val_0_iff in_set_conv_nth intro!: nth_equalityI)
  qed
  have nzd: "limbs_val lb cs \<noteq> 0" if "\<not> zd" using sp that sum0 [OF c(2,3)] by auto
  have rz: "limbs_val lb rs = 0" if rz
  proof -
    have "\<forall>x\<in>set rs. of_nat x = (0 :: 'f)" using sp that by simp
    then show ?thesis using r(2) zero by (auto simp: limbs_val_0_iff list_all_iff)
  qed
  have chains: "carries n lb (\<lambda>i. rs ! i + conv cs qs i) (\<lambda>i. bs ! i) 0 k"
      "carries n lb (\<lambda>j. conv (extended n cs (of_bool ?sc * (2 ^ lb - 1))) (extended n qs (of_bool sq * (2 ^ lb - 1))) (n + j) +
        of_bool (\<not> rz \<and> ?sb) * (2 ^ lb - 1)) (\<lambda>_. of_bool ?sb * (2 ^ lb - 1)) (k (n - 1)) l"
    using divrem_carries_sound [OF b(1) c(1) q(1) r(1) b(3) c(3) q(3) r(3) b(2) c(2) q(2) r(2) signs sgn(1,3) k l n _ char] K by simp_all
  obtain P where P: "\<not> zd \<Longrightarrow> \<not> rz \<Longrightarrow> limbs_val lb rs \<noteq> 0 \<and>
      P = (if ?sb = ?sc then limbs_val lb rs else 2 ^ (lb * n) - limbs_val lb rs) \<and>
      (if ?sc then limbs_val lb cs < P else P < limbs_val lb cs)"
  proof (cases "zd \<or> rz")
    case False
    then have r0: "limbs_val lb rs \<noteq> 0" using sp sum0 [OF r(2,3)] by auto
    have sc0: "special_case cols = 0" using False by (simp add: special_case_def sgn)
    obtain ps where ps: "dr_r_prime cols = fels ps" "limbs_ok lb ps" "length ps = n"
      "limbs_val lb ps = (if ?sb = ?sc then limbs_val lb rs else 2 ^ (lb * n) - limbs_val lb rs)"
    proof (cases "?sb = ?sc")
      case True
      then have "dr_r cols ! i = dr_r_prime cols ! i" if "i < n" for i
        using sat(3) [OF that] xor by (simp add: r_prime_assertions_def Let_def not_f_def)
      then have "dr_r_prime cols = fels rs" using r(1) len by (intro nth_equalityI) auto
      then show ?thesis using that [of rs] r True by simp
    next
      case False
      then have x1: "dr_sign_xor cols = 1" unfolding xor by (simp only: from_bool_simps not_True_eq_False simp_thms)
      obtain ps where ps: "dr_r_prime cols = fels ps" "limbs_ok lb ps" "length ps = n"
          "limbs_val lb ps + limbs_val lb rs = 2 ^ (lb * n)"
        by (rule r_prime_sound [OF sat(3) x1 r r0 len(3) c2(3)])
      from ps(4) have "limbs_val lb ps = 2 ^ (lb * n) - limbs_val lb rs" by linarith
      then show ?thesis using that [OF ps(1-3)] by (simp only: False if_False)
    qed
    have "lookup_ok T (send_range (dr_bitwise_bus air) (dr_lt_diff cols - 1) 0 (1 :: 'f))"
      using look unfolding ev' by (simp add: sc0)
    then have "bitwise_table lb [dr_lt_diff cols - 1, 0, 0, 0]" using table(1) by (simp add: air_defs)
    from lt_loop_sound [OF lt [unfolded sc0 sat(5)] sat(4) signs(2) this c ps(1-3) n c2(5) _ c2(1)]
    show ?thesis using that [of "limbs_val lb ps"] r0 ps(4) lb by simp
  qed (use that in blast)
  have nsq: "\<not> sq" if "\<not> signed_op op" "\<not> zd"
    using sat(2) that unfolding sign_assertions_def Let_def xor sgn by (cases sq) (simp_all add: not_f_def)
  note res = divrem_values [OF c(2,3) b(2,3) q(2,3) r(2,3) n lb chains zd nzd rz P nsq]
  have "map (\<lambda>i. from_bool (div_op op) * dr_q cols ! i + (1 - from_bool (div_op op)) * dr_r cols ! i) [0..<n] =
      fels (to_limbs lb n (divrem_spec n lb op bs cs))"
  proof (rule nth_equalityI)
    fix i assume "i < length (map (\<lambda>i. from_bool (div_op op) * dr_q cols ! i + (1 - from_bool (div_op op)) * dr_r cols ! i) [0..<n])"
    then have i: "i < n" by simp
    have "of_nat (to_limbs lb n (divrem_spec n lb op bs cs) ! i) = (if div_op op then dr_q cols ! i else dr_r cols ! i)"
      unfolding divrem_spec_def Let_def by (cases "div_op op") (use res q r i in \<open>simp_all\<close>)
    then show "map (\<lambda>i. from_bool (div_op op) * dr_q cols ! i + (1 - from_bool (div_op op)) * dr_r cols ! i) [0..<n] ! i =
        fels (to_limbs lb n (divrem_spec n lb op bs cs)) ! i" using i by (cases "div_op op") simp_all
  qed simp
  moreover have "expected_opcode ?flags divrem_opcodes = (of_nat (repr_of divrem_opcodes op) :: 'f)"
    unfolding op by (rule expected_opcode_flags) simp_all
  ultimately have "core_ctx (divrem_eval n lb air cols) = divrem_ctx n lb (dr_offset air) op bs cs"
    unfolding ev' by (simp add: divrem_ctx_def b(1) c(1))
  then show ?thesis by blast
qed

end
