(* ===== verification/DivRem_Fill.thy ===== *)
theory DivRem_Fill
  imports DivRem
begin

text \<open>
  What the executor and the trace filler of \<open>divrem/core.rs\<close> promise: \<open>run_divrem\<close> computes the
  truncating quotient and remainder, and the row the filler writes satisfies the AIR.
\<close>

section \<open>Arithmetic on limbs\<close>

text \<open>What the code relies on in \<open>BigUint\<close>: \<open>v\<close> is the number a value stands for.\<close>

definition biguint_laws :: "'z biguint \<Rightarrow> ('z \<Rightarrow> nat) \<Rightarrow> bool" where
  "biguint_laws Z v \<longleftrightarrow>
     (\<forall>d < 2 ^ 32. v (big_new Z [d]) = d \<and> v (big_from Z d) = d) \<and>
     (\<forall>x y. v (big_add Z x y) = v x + v y \<and> v (big_mul Z x y) = v x * v y) \<and>
     (\<forall>x y. v y \<noteq> 0 \<longrightarrow> v (big_div Z x y) = v x div v y \<and> v (big_rem Z x y) = v x mod v y) \<and>
     (\<forall>x. limbs_ok 32 (iter_u32_digits Z x) \<and> limbs_val 32 (iter_u32_digits Z x) = v x)"

lemma wshl_1: "lb \<le> 8 \<Longrightarrow> wshl 32 1 lb = 2 ^ lb"
  using pow_le_256 [of lb] by (simp add: wshl_def)

lemma limbs_to_biguint_val:
  assumes "biguint_laws Z v" "limbs_ok lb xs" "lb \<le> 8"
  shows "v (limbs_to_biguint Z lb xs) = limbs_val lb xs"
proof -
  have d: "v (big_new Z [d]) = d" if "d < 2 ^ 32" for d using assms(1) that by (simp add: biguint_laws_def)
  have le: "(2::nat) ^ lb \<le> 256" by (rule pow_le_256 [OF assms(3)])
  have b: "v (big_new Z [wshl 32 1 lb]) = 2 ^ lb" unfolding wshl_1 [OF assms(3)] by (rule d) (use le in simp)
  have "v (foldr (\<lambda>val res. big_add Z (big_mul Z res (big_new Z [wshl 32 1 lb])) (big_new Z [val])) xs (big_new Z [0])) = limbs_val lb xs"
    using assms(2)
  proof (induction xs)
    case (Cons x xs)
    have "v (big_new Z [x]) = x" by (rule d) (use Cons.prems le in simp)
    then show ?case using Cons assms(1) b by (simp add: biguint_laws_def mult.commute)
  qed (simp add: d)
  then show ?thesis by (simp add: limbs_to_biguint_def Let_def foldr_conv_fold)
qed

lemma biguint_to_limbs_val:
  assumes "biguint_laws Z v" "lb \<le> 8"
  shows "biguint_to_limbs Z lb n z = to_limbs lb n (v z)"
proof (induction n arbitrary: z)
  case (Suc n)
  have le: "(2::nat) ^ lb \<le> 256" by (rule pow_le_256 [OF assms(2)])
  have b: "v (big_from Z (wshl 32 1 lb)) = 2 ^ lb"
    unfolding wshl_1 [OF assms(2)] using assms(1) le by (simp add: biguint_laws_def)
  let ?r = "big_rem Z z (big_from Z (wshl 32 1 lb))"
  have r: "v ?r = v z mod 2 ^ lb" using assms(1) b by (simp add: biguint_laws_def)
  moreover have "v z mod 2 ^ lb < 256" using le by (rule less_le_trans [rotated]) simp
  ultimately have small: "v ?r < 2 ^ 32" by simp
  have "limbs_val 32 (iter_u32_digits Z ?r) = v ?r" "limbs_ok 32 (iter_u32_digits Z ?r)" using assms(1) by (simp_all add: biguint_laws_def)
  then have h: "(case iter_u32_digits Z ?r of [] \<Rightarrow> 0 | d # _ \<Rightarrow> d) = v ?r"
  proof (cases "iter_u32_digits Z ?r")
    case (Cons d ds)
    assume "limbs_val 32 (iter_u32_digits Z ?r) = v ?r"
    then have "v ?r = d + 2 ^ 32 * limbs_val 32 ds" unfolding Cons by simp
    then show ?thesis using small unfolding Cons by simp
  qed simp
  have "v (big_div Z z (big_from Z (wshl 32 1 lb))) = v z div 2 ^ lb" using assms(1) b by (simp add: biguint_laws_def)
  then show ?case using h r by (simp add: Suc Let_def)
qed simp

lemma negate_loop_val:
  assumes "limbs_ok lb xs" "c \<le> 1" "lb \<le> 8"
  shows "limbs_ok lb (negate_loop lb c xs) \<and> length (negate_loop lb c xs) = length xs \<and>
    limbs_val lb (negate_loop lb c xs) = (2 ^ (lb * length xs) + c - 1 - limbs_val lb xs) mod 2 ^ (lb * length xs)"
  using assms(1,2)
proof (induction xs arbitrary: c)
  case (Cons x xs)
  let ?B = "2 ^ lb :: nat" and ?N = "2 ^ (lb * length xs) :: nat" and ?v = "limbs_val lb xs"
  let ?w = "?B + c - 1 - x"
  have le: "?B \<le> 256" by (rule pow_le_256 [OF assms(3)])
  have x: "x < ?B" using Cons.prems by simp
  have vN: "?v < ?N" using limbs_val_bound [of lb xs] Cons.prems by simp
  have w: "wsub 32 (wsub 32 (wadd 32 (wshl 32 1 lb) c) 1) x = ?w"
  proof -
    have "wadd 32 ?B c = ?B + c" by (rule wadd_small) (use le Cons.prems in simp)
    moreover have "wsub 32 (?B + c) 1 = ?B + c - 1" by (rule wsub_small) (use le Cons.prems x in simp_all)
    moreover have "wsub 32 (?B + c - 1) x = ?w" by (rule wsub_small) (use le Cons.prems x in simp_all)
    ultimately show ?thesis by (simp only: wshl_1 [OF assms(3)])
  qed
  have "?w \<le> ?B" "?B < 2 * ?B" using Cons.prems by simp_all
  then have "?w < 2 * ?B" by (rule le_less_trans)
  then have cw: "?w div ?B \<le> 1" using less_mult_imp_div_less [of ?w 2 ?B] by simp
  let ?c = "?w div ?B"
  have IH: "limbs_ok lb (negate_loop lb ?c xs) \<and> length (negate_loop lb ?c xs) = length xs \<and>
      limbs_val lb (negate_loop lb ?c xs) = (?N + ?c - 1 - ?v) mod ?N"
    by (rule Cons.IH) (use Cons.prems cw in auto)
  have "?B * ?N + c - 1 - (x + ?B * ?v) = ?w + ?B * (?N - 1 - ?v)"
  proof -
    obtain t where t: "?N = Suc (?v + t)" using vN by (metis add_Suc_right less_imp_Suc_add)
    show ?thesis unfolding t using x by (simp add: algebra_simps)
  qed
  also have "\<dots> = ?w mod ?B + ?B * (?N + ?c - 1 - ?v)"
  proof -
    obtain t where t: "?N = Suc (?v + t)" using vN by (metis add_Suc_right less_imp_Suc_add)
    have "?w + ?B * t = ?w mod ?B + ?B * (t + ?c)" using mod_mult_div_eq [of ?w ?B] by (simp add: algebra_simps)
    then show ?thesis unfolding t by (simp add: add.commute)
  qed
  finally have "(?B * ?N + c - 1 - (x + ?B * ?v)) mod (?B * ?N) = ?w mod ?B + ?B * ((?N + ?c - 1 - ?v) mod ?N)"
    by (simp add: mod_mult2_eq)
  then show ?case using IH w unfolding negate_loop.simps Let_def wshl_1 [OF assms(3)] by (simp add: wshr_def power_add)
qed (simp add: assms)

lemma negate_val:
  assumes "limbs_ok lb xs" "length xs = n" "lb \<le> 8"
  shows "negate lb xs = to_limbs lb n (2 ^ (lb * n) - limbs_val lb xs)"
proof -
  have "limbs_val lb (negate lb xs) = (2 ^ (lb * n) - limbs_val lb xs) mod 2 ^ (lb * length (negate lb xs))"
      "limbs_ok lb (negate lb xs)" "length (negate lb xs) = n"
    using negate_loop_val [OF assms(1) order.refl assms(3)] by (simp_all add: negate_def assms(2))
  then show ?thesis using limbs_eq_to_limbs by metis
qed

section \<open>\<open>run_divrem\<close>\<close>

lemma limbs_val_int_bound:
  assumes "limbs_ok lb xs" "length xs = n"
  shows "int (limbs_val lb xs) < 2 ^ (lb * n)"
  using limbs_val_bound [OF assms(1)] assms(2) by (metis of_nat_less_iff of_nat_numeral of_nat_power)

lemma top_limb_int:
  assumes "limbs_ok lb xs" "length xs = n" "0 < n" "0 < lb"
  shows "2 ^ (lb - 1) \<le> xs ! (n - 1) \<longleftrightarrow> 2 ^ (lb * n) \<le> 2 * int (limbs_val lb xs)"
proof -
  have "(2 ^ (lb * n) \<le> 2 * limbs_val lb xs) = (int (2 ^ (lb * n)) \<le> int (2 * limbs_val lb xs))" by (simp only: of_nat_le_iff)
  then show ?thesis unfolding top_limb_iff [OF assms] by simp
qed

lemma sval_neg:
  assumes "limbs_ok lb xs" "length xs = n" "0 < n" "0 < lb"
  shows "sval lb sg xs < 0 \<longleftrightarrow> sg \<and> 2 ^ (lb - 1) \<le> xs ! (n - 1)"
  using limbs_val_int_bound [OF assms(1,2)] by (auto simp: sval_def assms(2))

text \<open>A number in range is the signed value of its limbs.\<close>

lemma sval_repr:
  assumes "limbs_ok lb zs" "length zs = n" "0 < n" "0 < lb" and z: "int (limbs_val lb zs) = z mod 2 ^ (lb * n)"
    and r: "if sg then - (2 ^ (lb * n)) \<le> 2 * z \<and> 2 * z < 2 ^ (lb * n) else 0 \<le> z \<and> z < 2 ^ (lb * n)"
  shows "sval lb sg zs = z"
proof -
  have "V - (if sg \<and> t then N else 0) = z"
    if "t \<longleftrightarrow> N \<le> 2 * V" "V = z mod N" "if sg then - N \<le> 2 * z \<and> 2 * z < N else 0 \<le> z \<and> z < N" for t and N V :: int
  proof (cases "0 \<le> z")
    case True
    then have "V = z" using that by (auto split: if_splits)
    then show ?thesis using that by (auto split: if_splits)
  next
    case False
    then have "0 \<le> z + N" "z + N < N" "sg" using that(3) by (auto split: if_splits)
    then have "(z + N) mod N = z + N" by (intro mod_pos_pos_trivial)
    then have "V = z + N" using that(2) by simp
    then show ?thesis using that False by (auto split: if_splits)
  qed
  from this [OF top_limb_int [OF assms(1-4)] z r] show ?thesis by (simp only: sval_def assms(2))
qed

lemma to_limbs_mod: "to_limbs lb n (v mod 2 ^ (lb * n)) = to_limbs lb n v"
  by (rule limbs_val_inject [of lb]) (simp_all add: limbs_val_to_limbs)

lemma int_to_limbs: "int (limbs_val lb (to_limbs lb n (nat (z mod 2 ^ (lb * n))))) = z mod 2 ^ (lb * n)"
proof -
  have "nat (z mod 2 ^ (lb * n)) < 2 ^ (lb * n)" by (simp add: nat_less_iff)
  then have "limbs_val lb (to_limbs lb n (nat (z mod 2 ^ (lb * n)))) = nat (z mod 2 ^ (lb * n))" by (simp only: limbs_val_to_limbs mod_less)
  then show ?thesis by simp
qed

lemma abs_limbs:
  assumes x: "limbs_ok lb xs" "length xs = n" "0 < n" "0 < lb" "lb \<le> 8" and s: "s \<longleftrightarrow> sg \<and> 2 ^ (lb - 1) \<le> xs ! (n - 1)"
  shows "int (limbs_val lb (if s then negate lb xs else xs)) = \<bar>sval lb sg xs\<bar>" "limbs_ok lb (if s then negate lb xs else xs)"
proof -
  note b = limbs_val_bound [OF x(1), unfolded x(2)] and bi = limbs_val_int_bound [OF x(1,2)]
  show "limbs_ok lb (if s then negate lb xs else xs)" using x negate_val [OF x(1,2,5)] by simp
  show "int (limbs_val lb (if s then negate lb xs else xs)) = \<bar>sval lb sg xs\<bar>"
  proof (cases s)
    case True
    then have "0 < limbs_val lb xs" using top_limb_iff [OF x(1-4)] s by (metis less_le_trans mult_0_right neq0_conv zero_less_numeral zero_less_power not_less0)
    then have "limbs_val lb (negate lb xs) = 2 ^ (lb * n) - limbs_val lb xs"
      unfolding negate_val [OF x(1,2,5)] limbs_val_to_limbs by (intro mod_less diff_less) simp_all
    then have "int (limbs_val lb (negate lb xs)) = 2 ^ (lb * n) - int (limbs_val lb xs)" using b by (simp add: of_nat_diff)
    then show ?thesis using True s bi by (simp add: sval_def x(2))
  next
    case False
    then show ?thesis using s by (auto simp: sval_def x(2))
  qed
qed

lemma signed_limbs:
  assumes "a < 2 ^ (lb * n)" "lb \<le> 8"
  shows "(if s then negate lb (to_limbs lb n a) else to_limbs lb n a) = to_limbs lb n (nat ((if s then - int a else int a) mod 2 ^ (lb * n)))"
proof (cases s)
  case True
  have "- int a mod 2 ^ (lb * n) = (2 ^ (lb * n) - int a) mod 2 ^ (lb * n)" by (simp add: mod_diff_left_eq [symmetric])
  also have "\<dots> = int ((2 ^ (lb * n) - a) mod 2 ^ (lb * n))" using assms(1) by (simp add: of_nat_diff of_nat_mod)
  finally have "nat (- int a mod 2 ^ (lb * n)) = (2 ^ (lb * n) - a) mod 2 ^ (lb * n)" by simp
  then show ?thesis using True negate_val [of lb "to_limbs lb n a" n] assms
    by (simp only: if_True limbs_val_to_limbs to_limbs_mod length_to_limbs limbs_ok_to_limbs mod_less)
next
  case False
  have "int a mod 2 ^ (lb * n) = int a" using assms(1) by (simp flip: of_nat_power of_nat_mod)
  then show ?thesis using False by simp
qed

lemma overflow_limbs:
  fixes xs ys :: "nat list" and sx sy :: bool
  assumes x: "limbs_ok lb xs" "length xs = n" and y: "limbs_ok lb ys" "length ys = n" and n: "0 < n" and lb: "0 < lb" "lb \<le> 8"
    and s: "sx \<longleftrightarrow> sg \<and> 2 ^ (lb - 1) \<le> xs ! (n - 1)" "sy \<longleftrightarrow> sg \<and> 2 ^ (lb - 1) \<le> ys ! (n - 1)"
  shows "(xs ! (n - 1) = 2 ^ (lb - 1) \<and> list_all (\<lambda>val. val = 0) (take (n - 1) xs) \<and> list_all (\<lambda>val. val = 2 ^ lb - 1) ys \<and> sx \<and> sy) \<longleftrightarrow>
    sg \<and> 2 * sval lb sg xs = - (2 ^ (lb * n)) \<and> sval lb sg ys = - 1"
proof -
  let ?X = "replicate (n - 1) 0 @ [2 ^ (lb - 1)] :: nat list" and ?Y = "replicate n (2 ^ lb - 1) :: nat list"
  obtain k where k: "n = Suc k" using n by (cases n) auto
  have okX: "limbs_ok lb ?X" "limbs_ok lb ?Y" using lb by (simp_all add: list_all_iff)
  have two: "2 * 2 ^ (lb - 1) = (2 ^ lb :: nat)" using lb by (cases lb) simp_all
  have "limbs_val lb (replicate j 0) = 0" for j by (induction j) simp_all
  then have vX: "2 * limbs_val lb ?X = 2 ^ (lb * n)"
    unfolding limbs_val_append k using two by (simp add: power_add mult.left_commute)
  have xs: "(xs ! (n - 1) = 2 ^ (lb - 1) \<and> list_all (\<lambda>val. val = 0) (take (n - 1) xs)) \<longleftrightarrow> xs = ?X"
  proof
    assume a: "xs ! (n - 1) = 2 ^ (lb - 1) \<and> list_all (\<lambda>val. val = 0) (take (n - 1) xs)"
    have "xs = take k xs @ [xs ! k]" using x(2) k by (metis lessI order.refl take_Suc_conv_app_nth take_all)
    moreover have "take k xs = replicate k 0" using a x(2) k by (intro replicate_eqI) (auto simp: list_all_iff)
    ultimately show "xs = ?X" using a k by simp
  qed (auto simp: nth_append k list_all_iff)
  have ys: "list_all (\<lambda>val. val = 2 ^ lb - 1) ys \<longleftrightarrow> ys = ?Y"
  proof
    show "list_all (\<lambda>val. val = 2 ^ lb - 1) ys" if "ys = ?Y" unfolding that by (simp add: list_all_iff)
  qed (use y(2) in \<open>auto simp: list_all_iff intro: replicate_eqI\<close>)
  have X: "xs = ?X \<longleftrightarrow> 2 * limbs_val lb xs = 2 ^ (lb * n)"
    using limbs_val_inject [OF x(1) okX(1)] x(2) k vX by auto
  have Y: "ys = ?Y \<longleftrightarrow> limbs_val lb ys + 1 = 2 ^ (lb * n)"
    using limbs_val_inject [OF y(1) okX(2)] y(2) limbs_val_replicate [of lb n] by auto
  have i: "(a = 2 ^ (lb * n)) = (int a = 2 ^ (lb * n))" for a by (metis of_nat_eq_iff of_nat_numeral of_nat_power)
  have aux: "(2 * V = N \<and> W + 1 = N \<and> (sg \<and> t) \<and> sg \<and> u) \<longleftrightarrow> sg \<and> 2 * (V - (if sg \<and> t then N else 0)) = - N \<and> W - (if sg \<and> u then N else 0) = - 1"
    if "t \<longleftrightarrow> N \<le> 2 * V" "u \<longleftrightarrow> N \<le> 2 * W" "0 \<le> V" "0 \<le> W" "V < N" "W < N" "2 \<le> N" for t u and N V W :: int
    using that by auto
  have two: "2 \<le> (2::int) ^ (lb * n)" using power_increasing [of 1 "lb * n" "2::int"] n lb by simp
  have X': "(xs ! (n - 1) = 2 ^ (lb - 1) \<and> list_all (\<lambda>val. val = 0) (take (n - 1) xs)) \<longleftrightarrow> 2 * int (limbs_val lb xs) = 2 ^ (lb * n)"
    unfolding xs X i by simp
  have Y': "list_all (\<lambda>val. val = 2 ^ lb - 1) ys \<longleftrightarrow> int (limbs_val lb ys) + 1 = 2 ^ (lb * n)"
    unfolding ys Y i by (simp add: add.commute)
  note A = aux [OF top_limb_int [OF x n lb(1)] top_limb_int [OF y n lb(1)] of_nat_0_le_iff of_nat_0_le_iff
      limbs_val_int_bound [OF x] limbs_val_int_bound [OF y] two]
  show ?thesis unfolding sval_def x(2) y(2) s A [symmetric] X' [symmetric] Y' [symmetric] by blast
qed

lemma sdiv_cases:
  fixes x y :: int
  shows "(if (x < 0) \<noteq> (y < 0) then - (\<bar>x\<bar> div \<bar>y\<bar>) else \<bar>x\<bar> div \<bar>y\<bar>) = x sdiv y"
    "(if x < 0 then - (\<bar>x\<bar> mod \<bar>y\<bar>) else \<bar>x\<bar> mod \<bar>y\<bar>) = x smod y"
  by (cases "x = 0"; cases "y = 0"; auto simp: signed_divide_int_def signed_modulo_int_def sgn_if)+

lemma wshr_top:
  assumes "limbs_ok lb xs" "length xs = n" "0 < n" "0 < lb"
  shows "wshr (xs ! (n - 1)) (lb - 1) = of_bool (2 ^ (lb - 1) \<le> xs ! (n - 1))"
  using top_bit_div [of "xs ! (n - 1)" lb] assms by (simp add: wshr_def list_all_length)

text \<open>The result of \<open>run_divrem\<close>: the flags, and the specified quotient and remainder.\<close>

lemma run_divrem_result:
  fixes xs ys :: "nat list" and sg :: bool and n lb :: nat
  defines "x \<equiv> sval lb sg xs" and "y \<equiv> sval lb sg ys" and "N \<equiv> 2 ^ (lb * n) :: int"
  assumes Z: "biguint_laws Z v" and x: "limbs_ok lb xs" "length xs = n" and y: "limbs_ok lb ys" "length ys = n"
    and n: "0 < n" and lb: "0 < lb" "lb \<le> 8"
  defines "qs \<equiv> to_limbs lb n (nat (quot_spec x y mod N))" and "rs \<equiv> to_limbs lb n (nat (rem_spec x y mod N))"
  shows "run_divrem Z n lb sg xs ys = (qs, rs, x < 0, y < 0,
    (if y = 0 then sg else if sg \<and> 2 * x = - N \<and> y = - 1 then False else sg \<and> 2 ^ (lb - 1) \<le> qs ! (n - 1)),
    (if y = 0 then ZeroDivisor else if sg \<and> 2 * x = - N \<and> y = - 1 then SignedOverflow else No_special_case))"
proof -
  have le: "(2::nat) ^ lb \<le> 256" by (rule pow_le_256 [OF lb(2)])
  have m: "wsub 32 (wshl 32 1 lb) 1 = 2 ^ lb - 1" "wshl 32 1 (lb - 1) = 2 ^ (lb - 1)"
  proof -
    show "wsub 32 (wshl 32 1 lb) 1 = 2 ^ lb - 1" unfolding wshl_1 [OF lb(2)] by (rule wsub_small) (use le in simp_all)
    show "wshl 32 1 (lb - 1) = 2 ^ (lb - 1)" by (rule wshl_1) (use lb in simp)
  qed
  have sx: "(sg \<and> wshr (xs ! (n - 1)) (lb - 1) = 1) = (x < 0)" "(sg \<and> wshr (ys ! (n - 1)) (lb - 1) = 1) = (y < 0)"
    using wshr_top [OF x n lb(1)] wshr_top [OF y n lb(1)] sval_neg [OF x n lb(1), of sg] sval_neg [OF y n lb(1), of sg]
    by (simp_all add: x_def y_def)
  have zero: "list_all (\<lambda>val. val = 0) ys \<longleftrightarrow> y = 0"
  proof -
    have "2 ^ (lb - 1) \<le> ys ! (n - 1) \<Longrightarrow> limbs_val lb ys \<noteq> 0" using top_limb_iff [OF y n lb(1)] by (intro notI) simp
    then have "y = 0 \<longleftrightarrow> limbs_val lb ys = 0"
      using limbs_val_int_bound [OF y] sval_neg [OF y n lb(1), of sg] by (auto simp: y_def sval_def y(2) split: if_splits)
    then show ?thesis by (auto simp: limbs_val_0_iff list_all_iff)
  qed
  note ov = overflow_limbs [OF x y n lb sval_neg [OF x n lb(1)] sval_neg [OF y n lb(1)], of sg, folded x_def y_def N_def]
  show ?thesis
  proof (cases "y = 0")
    case True
    have "int (limbs_val lb (replicate n (2 ^ lb - 1))) = - 1 + 1 * 2 ^ (lb * n)"
      unfolding limbs_val_replicate by (simp add: of_nat_diff)
    then have "replicate n (2 ^ lb - 1) = qs"
      unfolding qs_def N_def quot_spec_def using True by (simp only: if_True refl) (rule limbs_of_int, auto simp: list_all_iff)
    moreover have "xs = rs"
      unfolding rs_def N_def rem_spec_def using True
      by (simp only: if_True refl) (rule limbs_of_int [OF x, where k = "of_bool (x < 0)"], simp add: x_def sval_neg [OF x n lb(1)], simp add: sval_def x(2))
    ultimately show ?thesis using True unfolding run_divrem_def Let_def sx zero m by simp
  next
    case y0: False
    show ?thesis
    proof (cases "sg \<and> 2 * x = - N \<and> y = - 1")
      case True
      have "0 < N" by (simp add: N_def)
      then have "x < 0" using True by linarith
      have "x sdiv y = - x \<and> x smod y = 0" by (rule sdiv_smod_unique) (use True in auto)
      then have sp: "quot_spec x y = - x" "rem_spec x y = 0" using True by (simp_all add: quot_spec_def rem_spec_def)
      have "x = int (limbs_val lb xs) - N"
        using \<open>x < 0\<close> sval_neg [OF x n lb(1), of sg] by (simp only: x_def sval_def x(2) N_def if_True)
      then have "int (limbs_val lb xs) = - x + 0 * 2 ^ (lb * n)" using True by linarith
      then have "xs = qs" unfolding qs_def sp N_def by (rule limbs_of_int [OF x])
      moreover have "replicate n 0 = rs" unfolding rs_def sp by (simp, induction n) simp_all
      ultimately show ?thesis using True y0 unfolding run_divrem_def Let_def sx zero m ov by simp
    next
      case nov: False
      let ?xa = "if x < 0 then negate lb xs else xs" and ?ya = "if y < 0 then negate lb ys else ys"
      let ?xb = "limbs_to_biguint Z lb ?xa" and ?yb = "limbs_to_biguint Z lb ?ya"
      have xa: "int (v ?xb) = \<bar>x\<bar>" "int (v ?yb) = \<bar>y\<bar>"
      proof -
        note ax = abs_limbs [OF x n lb sval_neg [OF x n lb(1)], of sg, folded x_def]
          and ay = abs_limbs [OF y n lb sval_neg [OF y n lb(1)], of sg, folded y_def]
        show "int (v ?xb) = \<bar>x\<bar>" "int (v ?yb) = \<bar>y\<bar>"
          unfolding limbs_to_biguint_val [OF Z ax(2) lb(2)] limbs_to_biguint_val [OF Z ay(2) lb(2)] by (rule ax(1), rule ay(1))
      qed
      have "k \<noteq> 0" if "int k = \<bar>y\<bar>" for k using that y0 by auto
      from this [OF xa(2)] have "v ?yb \<noteq> 0" .
      then have q: "int (v (big_div Z ?xb ?yb)) = \<bar>x\<bar> div \<bar>y\<bar>" "int (v (big_rem Z ?xb ?yb)) = \<bar>x\<bar> mod \<bar>y\<bar>"
        using Z xa by (simp_all add: biguint_laws_def zdiv_int zmod_int)
      have xN: "\<bar>x\<bar> < N"
        using sval_bounds [OF x n lb(1), of sg] by (cases sg) (auto simp: x_def N_def)
      have "k < 2 ^ (lb * n)" if "int k = \<bar>x\<bar>" for k
        using xN unfolding that [symmetric] N_def by (metis of_nat_less_iff of_nat_numeral of_nat_power)
      note vN = this [OF xa(1)]
      have "v (big_div Z ?xb ?yb) = v ?xb div v ?yb" "v (big_rem Z ?xb ?yb) = v ?xb mod v ?yb"
        using Z \<open>v ?yb \<noteq> 0\<close> unfolding biguint_laws_def by blast+
      then have qN: "v (big_div Z ?xb ?yb) < 2 ^ (lb * n)" "v (big_rem Z ?xb ?yb) < 2 ^ (lb * n)"
        using le_less_trans [OF div_le_dividend vN] le_less_trans [OF mod_less_eq_dividend vN] by (simp_all only:)
      have res: "(if (x < 0) \<noteq> (y < 0) then negate lb (biguint_to_limbs Z lb n (big_div Z ?xb ?yb)) else biguint_to_limbs Z lb n (big_div Z ?xb ?yb)) = qs"
          "(if x < 0 then negate lb (biguint_to_limbs Z lb n (big_rem Z ?xb ?yb)) else biguint_to_limbs Z lb n (big_rem Z ?xb ?yb)) = rs"
        unfolding biguint_to_limbs_val [OF Z lb(2)] signed_limbs [OF qN(1) lb(2)] signed_limbs [OF qN(2) lb(2)] q sdiv_cases
        using y0 by (simp_all add: qs_def rs_def N_def quot_spec_def rem_spec_def)
      have "wshr (qs ! (n - 1)) (lb - 1) = of_bool (2 ^ (lb - 1) \<le> qs ! (n - 1))" by (rule wshr_top) (simp_all add: qs_def n lb)
      then show ?thesis using y0 unfolding run_divrem_def Let_def sx zero m ov res by (auto simp: nov)
    qed
  qed
qed

section \<open>\<open>run_mul_carries\<close>\<close>

lemma wadd_rotate: "wadd w (wadd w (wadd w c a) b) r = wadd w (wadd w (wadd w c r) a) b"
  by (simp add: wadd_def mod_simps ac_simps)

lemma acc_high_ext_eq: "acc_high_ext n d q d_ext q_ext r_ext i c = acc_high n d q d_ext q_ext i (wadd 32 c r_ext)"
  by (simp only: acc_high_ext_def acc_high_def Let_def wadd_rotate [of 32 c _ _ r_ext])

lemma sum_limbs_lt:
  assumes "limbs_ok lb zs" "length zs = n" "j < n" "n * 2 ^ lb < 2 ^ 32"
  shows "(\<Sum>k\<le>j. zs ! k) < 2 ^ 32"
proof -
  have "(\<Sum>k\<le>j. zs ! k) \<le> (\<Sum>k\<le>j. 2 ^ lb)"
    by (rule sum_mono) (use assms in \<open>auto simp: list_all_length intro: less_imp_le\<close>)
  also have "\<dots> = Suc j * 2 ^ lb" by simp
  also have "\<dots> \<le> n * 2 ^ lb" by (rule mult_le_mono1) (use assms(3) in simp)
  finally show ?thesis using assms(4) by (rule le_less_trans)
qed

lemma div_square_bound:
  assumes "0 < n"
  shows "(2 * n * ((2 ^ lb - 1) * (2 ^ lb - 1)) + (2 ^ lb - 1)) + 2 * n * 2 ^ lb \<le> 2 ^ lb * (2 * n * 2 ^ lb :: nat)"
proof -
  obtain p where p: "(2::nat) ^ lb = Suc p" by (metis gr0_implies_Suc zero_less_numeral zero_less_power)
  have "p \<le> 2 * n * p" using assms by simp
  then show ?thesis unfolding p by (simp add: algebra_simps)
qed

text \<open>The carries the filler computes, for numbers with \<open>c * q + r = b\<close>.\<close>

lemma run_mul_carries_ok:
  fixes cs qs rs bs :: "nat list" and sg sq sb :: bool and n lb :: nat
  defines "sc \<equiv> sg \<and> 2 ^ (lb - 1) \<le> cs ! (n - 1)" and "sr \<equiv> sg \<and> 2 ^ (lb - 1) \<le> rs ! (n - 1)" and "N \<equiv> 2 ^ (lb * n) :: int"
    and "ex \<equiv> \<lambda>s xs. extended n xs (of_bool s * (2 ^ lb - 1))"
  assumes c: "limbs_ok lb cs" "length cs = n" and q: "limbs_ok lb qs" "length qs = n"
    and r: "limbs_ok lb rs" "length rs = n" and b: "limbs_ok lb bs" "length bs = n"
    and n: "0 < n" "2 * n * (2 ^ lb * 2 ^ lb) < 2 ^ 32" and lb: "0 < lb" "lb \<le> 8" and sq: "sq \<longrightarrow> sg"
    and eq: "(int (limbs_val lb cs) - of_bool sc * N) * (int (limbs_val lb qs) - of_bool sq * N) +
      (int (limbs_val lb rs) - of_bool sr * N) = int (limbs_val lb bs) - of_bool sb * N"
  obtains ks ls where "run_mul_carries n lb sg cs qs rs sq = ks @ ls" "length ks = n" "length ls = n"
    "list_all (\<lambda>k. k < 2 * n * 2 ^ lb) (ks @ ls)"
    "carries n lb (\<lambda>i. rs ! i + conv cs qs i) (\<lambda>i. bs ! i) 0 (\<lambda>i. ks ! i)"
    "carries n lb (\<lambda>j. conv (ex sc cs) (ex sq qs) (n + j) + of_bool sr * (2 ^ lb - 1)) (\<lambda>_. of_bool sb * (2 ^ lb - 1))
      (ks ! (n - 1)) (\<lambda>i. ls ! i)"
proof -
  let ?K = "2 * n * 2 ^ lb" and ?M = "2 * n * ((2 ^ lb - 1) * (2 ^ lb - 1)) + (2 ^ lb - 1)"
  let ?S1 = "\<lambda>i. rs ! i + conv cs qs i" and ?S2 = "\<lambda>j. conv (ex sc cs) (ex sq qs) (n + j) + of_bool sr * (2 ^ lb - 1)"
  let ?a1 = "\<lambda>i carry. acc_products cs qs i (wadd 32 (rs ! i) carry)"
  let ?ps = "limb_loop lb ?a1 0 [0..<0 + n]"
  have MK: "?M + ?K \<le> 2 ^ lb * ?K" by (rule div_square_bound [OF n(1)])
  have K32: "2 ^ lb * ?K < 2 ^ 32" using n(2) by (simp add: ac_simps)
  have T: "s + k < 2 ^ 32" "s + ?K \<le> 2 ^ lb * ?K" if "s \<le> ?M" "k < ?K" for s k
  proof -
    have "s + k \<le> ?M + ?K" "s + ?K \<le> ?M + ?K" 
      using add_le_mono [OF that(1) less_imp_le [OF that(2)]] add_le_mono [OF that(1) order.refl] by blast+
    then show "s + k < 2 ^ 32" "s + ?K \<le> 2 ^ lb * ?K" using MK K32 by linarith+
  qed
  have nlb: "n * 2 ^ lb < 2 ^ 32" using T(1) [of 0 "n * 2 ^ lb"] n(1) by simp
  have rl: "rs ! i \<le> 2 ^ lb - 1" if "i < n" for i
  proof -
    have "rs ! i < 2 ^ lb" using r that by (simp add: list_all_length)
    then show ?thesis by simp
  qed
  have S1: "?S1 i \<le> ?M" if "i < n" for i
    using conv_bound_n [OF c(1) q(1) that] rl [OF that] by (simp add: mult.assoc)
  have S2: "?S2 i \<le> ?M" if "i < n" for i
  proof -
    have "conv (ex sc cs) (ex sq qs) (n + i) \<le> Suc (n + i) * ((2 ^ lb - 1) * (2 ^ lb - 1))"
      unfolding ex_def by (rule conv_bound) (use c q in \<open>auto simp: list_all_iff\<close>)
    also have "\<dots> \<le> 2 * n * ((2 ^ lb - 1) * (2 ^ lb - 1))" by (rule mult_le_mono1) (use that in simp)
    finally show ?thesis by (rule add_le_mono) simp
  qed
  have L: "length ?ps = n \<and> (\<forall>p\<in>set ?ps. fst p < 2 ^ lb \<and> snd p < ?K) \<and>
    carries n lb (\<lambda>i. ?S1 (0 + i)) (\<lambda>i. fst (?ps ! i)) 0 (\<lambda>i. snd (?ps ! i))"
  proof (rule limb_loop_carries)
    show "?a1 i k = ?S1 i + k" if "i < 0 + n" "k < ?K" for i k
    proof -
      have t: "?S1 i + k < 2 ^ 32" by (rule T) (use that S1 [of i] in simp_all)
      then have "wadd 32 (rs ! i) k = rs ! i + k" by (intro wadd_small) linarith
      then show ?thesis using acc_products_eq [of i n cs qs "rs ! i + k"] that c q t by simp
    qed
    show "?S1 i + ?K \<le> 2 ^ lb * ?K" if "i < 0 + n" for i by (rule T(2) [of _ 0]) (use that S1 [of i] n(1) in simp_all)
  qed (use n(1) lb in auto)
  let ?c = "snd (?ps ! (n - 1))"
  have c0: "?c < ?K"
  proof -
    have "?ps ! (n - 1) \<in> set ?ps" by (rule nth_mem) (use L n(1) in linarith)
    then show ?thesis using L by blast
  qed
  let ?e = "\<lambda>s. of_bool s * (2 ^ lb - 1) :: nat"
  let ?a2 = "acc_high_ext n cs qs (?e sc) (?e sq) (?e sr)"
  let ?qs = "limb_loop lb ?a2 ?c [0..<0 + n]"
  have H: "length ?qs = n \<and> (\<forall>p\<in>set ?qs. fst p < 2 ^ lb \<and> snd p < ?K) \<and>
    carries n lb (\<lambda>i. ?S2 (0 + i)) (\<lambda>i. fst (?qs ! i)) ?c (\<lambda>i. snd (?qs ! i))"
  proof (rule limb_loop_carries)
    show "?a2 i k = ?S2 i + k" if "i < 0 + n" "k < ?K" for i k
    proof -
      have t: "?S2 i + k < 2 ^ 32" by (rule T) (use that S2 [of i] in simp_all)
      have w: "wadd 32 k (?e sr) = k + ?e sr" by (rule wadd_small) (use t in linarith)
      have "acc_high n cs qs (?e sc) (?e sq) i (k + ?e sr) = conv (ex sc cs) (ex sq qs) (n + i) + (k + ?e sr)"
        unfolding ex_def
      proof (rule acc_high_eq [OF _ c(2) q(2)])
        show "k + ?e sr + conv (extended n cs (?e sc)) (extended n qs (?e sq)) (n + i) < 2 ^ 32"
          using t unfolding ex_def by linarith
      qed (use that sum_limbs_lt [OF c _ nlb] sum_limbs_lt [OF q _ nlb] in auto)
      then show ?thesis unfolding acc_high_ext_eq w by linarith
    qed
    show "?S2 i + ?K \<le> 2 ^ lb * ?K" if "i < 0 + n" for i by (rule T(2) [of _ 0]) (use that S2 [of i] n(1) in simp_all)
  qed (use c0 lb in auto)
  let ?ks = "map snd ?ps" and ?ls = "map snd ?qs" and ?ms = "map fst ?ps" and ?hs = "map fst ?qs"
  have kn: "?ks ! (n - 1) = ?c" using L n(1) by simp
  have low: "carries n lb ?S1 (\<lambda>i. ?ms ! i) 0 (\<lambda>i. ?ks ! i)"
    by (rule carries_cong [THEN iffD1, OF _ _ _ conjunct2 [OF conjunct2 [OF L]]]) (use L in simp_all)
  have high: "carries n lb ?S2 (\<lambda>i. ?hs ! i) (?ks ! (n - 1)) (\<lambda>i. ?ls ! i)"
    unfolding kn by (rule carries_cong [THEN iffD1, OF _ _ _ conjunct2 [OF conjunct2 [OF H]]]) (use H in simp_all)
  have lens: "length ?ms = n" "length ?hs = n" using L H by simp_all
  from carries_divrem_nat [OF c(2) q(2) r(2) lens low high [unfolded ex_def] n(1)] obtain m where
    m: "limbs_val lb (ex sr rs) + limbs_val lb (ex sc cs) * limbs_val lb (ex sq qs) = limbs_val lb (?ms @ ?hs) + 2 ^ (lb * (n + n)) * m"
    unfolding ex_def by blast
  have "?ms @ ?hs = ex sb bs"
  proof (rule limbs_val_inject [of lb])
    have "limbs_ok lb ?ms" "limbs_ok lb ?hs" using L H unfolding list_all_iff by simp_all
    moreover have "?e sb < 2 ^ lb" by (cases sb) simp_all
    then have "limbs_ok lb (replicate n (?e sb))" by (simp only: list_all_iff set_replicate_conv_if split: if_splits) simp
    ultimately show ok: "limbs_ok lb (?ms @ ?hs)" "limbs_ok lb (ex sb bs)" "length (?ms @ ?hs) = length (ex sb bs)"
      using b(1) lens by (simp_all only: ex_def list_all_append simp_thms length_append b(2) length_replicate)
    have ev: "int (limbs_val lb (ex s xs)) = (int (limbs_val lb xs) - of_bool s * N) + of_bool s * (N * N)" if "length xs = n" for s xs
      unfolding ex_def N_def by (rule extended_value [OF that])
    define C Q R B where "C = int (limbs_val lb cs) - of_bool sc * N" and "Q = int (limbs_val lb qs) - of_bool sq * N"
      and "R = int (limbs_val lb rs) - of_bool sr * N" and "B = int (limbs_val lb bs) - of_bool sb * N"
    have "int (limbs_val lb (?ms @ ?hs)) + N * N * int m = (R + of_bool sr * (N * N)) + (C + of_bool sc * (N * N)) * (Q + of_bool sq * (N * N))"
      using arg_cong [OF m, of int] unfolding of_nat_add of_nat_mult ev [OF c(2)] ev [OF q(2)] ev [OF r(2)] C_def Q_def R_def
      by (simp only: N_def power_add add_mult_distrib2 [of lb] of_nat_power of_nat_numeral of_nat_add of_nat_mult)
    moreover have "C * Q + R = B" using eq unfolding C_def Q_def R_def B_def .
    moreover have "int (limbs_val lb (ex sb bs)) = B + of_bool sb * (N * N)" unfolding B_def by (rule ev [OF b(2)])
    ultimately have "int (limbs_val lb (?ms @ ?hs)) = int (limbs_val lb (ex sb bs)) +
        N * N * (of_bool sr + C * of_bool sq + of_bool sc * Q + of_bool sc * of_bool sq * (N * N) - of_bool sb - int m)"
      by (simp add: algebra_simps)
    then have "int (limbs_val lb (?ms @ ?hs)) mod (N * N) = int (limbs_val lb (ex sb bs)) mod (N * N)"
      by (simp only: mod_mult_self2)
    moreover have "int (limbs_val lb zs) < N * N" if "limbs_ok lb zs" "length zs = n + n" for zs
      using limbs_val_int_bound [OF that] by (simp add: N_def power_add add_mult_distrib2)
    ultimately show "limbs_val lb (?ms @ ?hs) = limbs_val lb (ex sb bs)" using ok lens b(2) by (simp add: ex_def)
  qed
  then have ms: "?ms = bs" "?hs = replicate n (?e sb)" using lens b(2) by (simp_all add: ex_def)
  have e: "wsub 32 (wshl 32 1 lb) 1 = 2 ^ lb - 1"
    using pow_le_256 [OF lb(2)] by (subst wshl_1 [OF lb(2)]) (simp add: wsub_small)
  have ext: "wmul 32 (wshr (zs ! (n - 1)) (lb - 1)) (if sg then 2 ^ lb - 1 else 0) = ?e (sg \<and> 2 ^ (lb - 1) \<le> zs ! (n - 1))"
    if "limbs_ok lb zs" "length zs = n" for zs
    using ext_limb_run [OF that n(1) lb, of sg] unfolding e ext_limb_def .
  have qe: "(if sq \<and> sg then 2 ^ lb - 1 else 0) = ?e sq" using sq by auto
  show ?thesis
  proof (rule that [of ?ks ?ls])
    show "run_mul_carries n lb sg cs qs rs sq = ?ks @ ?ls"
      unfolding run_mul_carries_def Let_def e qe ext [OF c] ext [OF r] sc_def [symmetric] sr_def [symmetric]
      using kn by (simp only: add_0)
    show "carries n lb ?S1 (\<lambda>i. bs ! i) 0 (\<lambda>i. ?ks ! i)" using low unfolding ms .
    show "carries n lb ?S2 (\<lambda>_. ?e sb) (?ks ! (n - 1)) (\<lambda>i. ?ls ! i)"
      by (rule carries_cong [THEN iffD1, OF _ _ _ high]) (simp_all only: ms nth_replicate)
  qed (use L H in \<open>auto simp: list_all_iff\<close>)
qed

section \<open>The quotient and the remainder as columns\<close>

text \<open>Truncating division of integers, and the range of its results.\<close>

lemma trunc_div:
  fixes x y :: int
  assumes "y \<noteq> 0"
  defines "Q \<equiv> x sdiv y" and "R \<equiv> x smod y"
  shows "y * Q + R = x" "\<bar>R\<bar> < \<bar>y\<bar>" "0 \<le> x \<Longrightarrow> 0 \<le> R" "x < 0 \<Longrightarrow> R \<le> 0"
    "\<bar>Q\<bar> \<le> \<bar>x\<bar>" "(x < 0) \<noteq> (y < 0) \<Longrightarrow> Q \<le> 0" "(x < 0) = (y < 0) \<Longrightarrow> 0 \<le> Q"
    "(x < 0) = (y < 0) \<Longrightarrow> \<bar>Q\<bar> = \<bar>x\<bar> \<Longrightarrow> x < 0 \<Longrightarrow> y = - 1"
proof -
  have d: "0 \<le> \<bar>x\<bar> div \<bar>y\<bar>" "\<bar>x\<bar> div \<bar>y\<bar> \<le> \<bar>x\<bar>" "\<bar>x\<bar> mod \<bar>y\<bar> < \<bar>y\<bar>" "0 \<le> \<bar>x\<bar> mod \<bar>y\<bar>"
  proof -
    show "0 \<le> \<bar>x\<bar> div \<bar>y\<bar>" "\<bar>x\<bar> mod \<bar>y\<bar> < \<bar>y\<bar>" "0 \<le> \<bar>x\<bar> mod \<bar>y\<bar>"
      using assms(1) by (simp_all add: pos_imp_zdiv_nonneg_iff)
    have "\<bar>x\<bar> div \<bar>y\<bar> \<le> \<bar>x\<bar> div 1" using assms(1) by (intro zdiv_mono2) simp_all
    then show "\<bar>x\<bar> div \<bar>y\<bar> \<le> \<bar>x\<bar>" by simp
  qed
  have Q: "Q = (if (x < 0) \<noteq> (y < 0) then - (\<bar>x\<bar> div \<bar>y\<bar>) else \<bar>x\<bar> div \<bar>y\<bar>)" unfolding Q_def by (rule sdiv_cases(1) [symmetric])
  have R: "R = (if x < 0 then - (\<bar>x\<bar> mod \<bar>y\<bar>) else \<bar>x\<bar> mod \<bar>y\<bar>)" unfolding R_def by (rule sdiv_cases(2) [symmetric])
  show "y * Q + R = x" unfolding Q_def R_def by (rule mult_sdiv_smod_eq)
  show "\<bar>R\<bar> < \<bar>y\<bar>" "0 \<le> x \<Longrightarrow> 0 \<le> R" "x < 0 \<Longrightarrow> R \<le> 0" using d(3,4) unfolding R by auto
  show "\<bar>Q\<bar> \<le> \<bar>x\<bar>" "(x < 0) \<noteq> (y < 0) \<Longrightarrow> Q \<le> 0" "(x < 0) = (y < 0) \<Longrightarrow> 0 \<le> Q" using d(1,2) unfolding Q by auto
  show "y = - 1" if "(x < 0) = (y < 0)" "\<bar>Q\<bar> = \<bar>x\<bar>" "x < 0"
  proof (rule ccontr)
    assume "y \<noteq> - 1"
    then have "1 < \<bar>y\<bar>" using that by auto
    then have "\<bar>x\<bar> div \<bar>y\<bar> < \<bar>x\<bar>" using that(3) by (intro int_div_less_self) auto
    then show False using that(1,2) d(1) unfolding Q by auto
  qed
qed

lemma divrem_facts:
  fixes bs cs :: "nat list" and sg :: bool and n lb :: nat
  defines "X \<equiv> sval lb sg bs" and "Y \<equiv> sval lb sg cs" and "N \<equiv> 2 ^ (lb * n) :: int"
  defines "qs \<equiv> to_limbs lb n (nat (quot_spec X Y mod N))" and "rs \<equiv> to_limbs lb n (nat (rem_spec X Y mod N))"
  defines "ov \<equiv> sg \<and> 2 * X = - N \<and> Y = - 1"
  defines "sq \<equiv> if Y = 0 then sg else if ov then False else sg \<and> 2 ^ (lb - 1) \<le> qs ! (n - 1)"
    and "rz \<equiv> limbs_val lb rs = 0 \<and> Y \<noteq> 0" and "v \<equiv> \<lambda>xs. int (limbs_val lb xs)"
  assumes b: "limbs_ok lb bs" "length bs = n" and c: "limbs_ok lb cs" "length cs = n" and n: "0 < n" and lb: "0 < lb"
  shows "(v cs - of_bool (Y < 0) * N) * (v qs - of_bool sq * N) + (v rs - of_bool (sg \<and> 2 ^ (lb - 1) \<le> rs ! (n - 1)) * N) =
      v bs - of_bool (X < 0) * N"
    and "(sg \<and> 2 ^ (lb - 1) \<le> rs ! (n - 1)) = (\<not> rz \<and> X < 0)"
    and "Y = 0 \<longleftrightarrow> limbs_val lb cs = 0" and "Y = 0 \<Longrightarrow> qs = replicate n (2 ^ lb - 1)"
    and "Y \<noteq> 0 \<Longrightarrow> sq = (if limbs_val lb qs = 0 then False else (X < 0) \<noteq> (Y < 0))" and "sq \<longrightarrow> sg"
    and "Y \<noteq> 0 \<Longrightarrow> limbs_val lb rs \<noteq> 0 \<Longrightarrow>
      (if Y < 0 then v cs < (if (X < 0) = (Y < 0) then v rs else N - v rs) else (if (X < 0) = (Y < 0) then v rs else N - v rs) < v cs)"
    and "ov \<Longrightarrow> limbs_val lb rs = 0"
proof -
  have bnd: "0 \<le> v xs \<and> v xs < N" if "limbs_ok lb xs" "length xs = n" for xs
    using limbs_val_int_bound [OF that] by (simp add: v_def N_def)
  have X: "X = v bs - of_bool (X < 0) * N" "Y = v cs - of_bool (Y < 0) * N"
    using sval_neg [OF b n lb, of sg] sval_neg [OF c n lb, of sg] unfolding X_def Y_def
    by (simp_all add: sval_def v_def N_def b(2) c(2))
  have q: "limbs_ok lb qs" "length qs = n" "v qs = quot_spec X Y mod N" and r: "limbs_ok lb rs" "length rs = n" "v rs = rem_spec X Y mod N"
    unfolding qs_def rs_def v_def N_def by (simp_all only: int_to_limbs limbs_ok_to_limbs length_to_limbs)
  have X_rng: "if sg then - N \<le> 2 * X \<and> 2 * X < N else 0 \<le> X \<and> X < N" "if sg then - N \<le> 2 * Y \<and> 2 * Y < N else 0 \<le> Y \<and> Y < N"
    using sval_bounds [OF b n lb, of sg] sval_bounds [OF c n lb, of sg] by (simp_all add: X_def Y_def N_def)
  have N2: "2 \<le> N" using power_increasing [of 1 "lb * n" "2::int"] n lb by (simp add: N_def)
  show y0: "Y = 0 \<longleftrightarrow> limbs_val lb cs = 0"
    using X(2) bnd [OF c] X_rng(2) N2 by (auto simp: v_def of_bool_def split: if_splits)
  have sv: "sval lb sg zs = v zs - of_bool (sval lb sg zs < 0) * N" "sval lb sg zs < 0 \<longleftrightarrow> sg \<and> 2 ^ (lb - 1) \<le> zs ! (n - 1)"
    if "limbs_ok lb zs" "length zs = n" for zs
    using sval_neg [OF that n lb, of sg] by (simp_all add: sval_def v_def N_def that(2))
  show "sq \<longrightarrow> sg" by (simp add: sq_def)
  show q1: "qs = replicate n (2 ^ lb - 1)" if "Y = 0"
  proof -
    have "v (replicate n (2 ^ lb - 1)) = - 1 + 1 * N" unfolding v_def N_def limbs_val_replicate by (simp add: of_nat_diff)
    then show ?thesis using limbs_of_int [of lb "replicate n (2 ^ lb - 1)" n "- 1" 1] that
      by (simp add: qs_def quot_spec_def v_def N_def list_all_iff)
  qed
  have R_rng: "if sg then - N \<le> 2 * rem_spec X Y \<and> 2 * rem_spec X Y < N else 0 \<le> rem_spec X Y \<and> rem_spec X Y < N"
  proof (cases "Y = 0")
    case False
    show ?thesis using X_rng trunc_div(2-4) [OF False, of X] False unfolding rem_spec_def by (cases "X < 0") (auto split: if_splits)
  qed (use X_rng in \<open>simp add: rem_spec_def\<close>)
  have Rr: "sval lb sg rs = rem_spec X Y"
    by (rule sval_repr [OF r(1,2) n lb r(3) [unfolded v_def N_def] R_rng [unfolded N_def]])
  have Rv: "rem_spec X Y = v rs - of_bool (rem_spec X Y < 0) * N" "rem_spec X Y < 0 \<longleftrightarrow> sg \<and> 2 ^ (lb - 1) \<le> rs ! (n - 1)"
    using sv [OF r(1,2)] unfolding Rr by blast+
  have R0: "rem_spec X Y = 0 \<longleftrightarrow> limbs_val lb rs = 0"
    using Rv(1) bnd [OF r(1,2)] R_rng N2 by (auto simp: v_def of_bool_def split: if_splits)
  show "(sg \<and> 2 ^ (lb - 1) \<le> rs ! (n - 1)) = (\<not> rz \<and> X < 0)"
  proof (cases "Y = 0")
    case True
    then show ?thesis using Rv(2) by (simp add: rz_def rem_spec_def)
  next
    case False
    then have "rem_spec X Y < 0 \<longleftrightarrow> rem_spec X Y \<noteq> 0 \<and> X < 0"
      using trunc_div(3,4) [OF False, of X] by (cases "X < 0") (auto simp: rem_spec_def)
    then show ?thesis using Rv(2) R0 False by (simp add: rz_def)
  qed
  have Qv: "v qs - of_bool sq * N = quot_spec X Y \<and> sq = (quot_spec X Y < 0)" if "Y \<noteq> 0"
  proof (cases ov)
    case True
    have "X sdiv Y = - X \<and> X smod Y = 0" by (rule sdiv_smod_unique) (use True in \<open>auto simp: ov_def\<close>)
    then have Q: "quot_spec X Y = - X" using that by (simp add: quot_spec_def)
    have "- X mod N = - X" using True N2 unfolding ov_def by (intro mod_pos_pos_trivial) linarith+
    then show ?thesis using q(3) True N2 unfolding Q by (auto simp: sq_def that ov_def)
  next
    case False
    have "sval lb sg qs = quot_spec X Y"
    proof (rule sval_repr [OF q(1,2) n lb])
      show "int (limbs_val lb qs) = quot_spec X Y mod 2 ^ (lb * n)" using q(3) by (simp only: v_def N_def)
      have "if sg then - N \<le> 2 * quot_spec X Y \<and> 2 * quot_spec X Y < N else 0 \<le> quot_spec X Y \<and> quot_spec X Y < N"
      proof (cases sg)
        case True
        have "2 * (X sdiv Y) \<noteq> N"
        proof
          assume Q: "2 * (X sdiv Y) = N"
          have "- N \<le> 2 * X" "2 * X < N" using X_rng True by simp_all
          then have a: "\<bar>X sdiv Y\<bar> = \<bar>X\<bar>" "0 < X sdiv Y" "X < 0" using Q trunc_div(5) [OF that, of X] N2 by linarith+
          then have s: "(X < 0) = (Y < 0)" using trunc_div(6) [OF that, of X] by linarith
          have "Y = - 1" by (rule trunc_div(8) [OF that s a(1,3)])
          moreover have "2 * X = - N" using a Q by linarith
          ultimately show False using False True by (simp add: ov_def)
        qed
        then show ?thesis using X_rng trunc_div(5) [OF that, of X] that True by (auto simp: quot_spec_def)
      next
        case False
        then show ?thesis using X_rng trunc_div(5,7) [OF that, of X] that by (auto simp: quot_spec_def)
      qed
      then show "if sg then - (2 ^ (lb * n)) \<le> 2 * quot_spec X Y \<and> 2 * quot_spec X Y < 2 ^ (lb * n) else 0 \<le> quot_spec X Y \<and> quot_spec X Y < 2 ^ (lb * n)"
        by (simp only: N_def)
    qed
    note Q = sv [OF q(1,2), unfolded this]
    have "sq = (quot_spec X Y < 0)" using that False Q(2) by (simp add: sq_def)
    then show ?thesis using Q(1) by simp
  qed
  show "sq = (if limbs_val lb qs = 0 then False else (X < 0) \<noteq> (Y < 0))" if "Y \<noteq> 0"
  proof -
    have "quot_spec X Y = 0 \<longleftrightarrow> limbs_val lb qs = 0"
      using Qv [OF that] bnd [OF q(1,2)] N2 X_rng(1) trunc_div(5) [OF that, of X] that
      by (auto simp: v_def of_bool_def quot_spec_def split: if_splits)
    moreover have "quot_spec X Y < 0 \<longleftrightarrow> quot_spec X Y \<noteq> 0 \<and> (X < 0) \<noteq> (Y < 0)"
      using trunc_div(6,7) [OF that, of X] that by (cases "X < 0"; cases "Y < 0") (auto simp: quot_spec_def)
    ultimately show ?thesis using Qv [OF that] by simp
  qed
  show "(v cs - of_bool (Y < 0) * N) * (v qs - of_bool sq * N) + (v rs - of_bool (sg \<and> 2 ^ (lb - 1) \<le> rs ! (n - 1)) * N) = v bs - of_bool (X < 0) * N"
    unfolding X [symmetric] Rv(2) [symmetric] Rv(1) [symmetric]
  proof (cases "Y = 0")
    case False
    then show "Y * (v qs - of_bool sq * N) + rem_spec X Y = X"
      unfolding conjunct1 [OF Qv [OF False]] using trunc_div(1) [OF False, of X] by (simp add: quot_spec_def rem_spec_def)
  qed (simp add: rem_spec_def)
  show "if Y < 0 then v cs < (if (X < 0) = (Y < 0) then v rs else N - v rs) else (if (X < 0) = (Y < 0) then v rs else N - v rs) < v cs"
    if "Y \<noteq> 0" "limbs_val lb rs \<noteq> 0"
  proof -
    have "rem_spec X Y < 0 \<longleftrightarrow> X < 0"
      using R0 that trunc_div(3,4) [OF that(1), of X] by (cases "X < 0") (auto simp: rem_spec_def)
    moreover have "\<bar>rem_spec X Y\<bar> < \<bar>Y\<bar>" using trunc_div(2) [OF that(1)] that by (simp add: rem_spec_def)
    ultimately show ?thesis using Rv(1) X(2) by (cases "X < 0"; cases "Y < 0") auto
  qed
  show "limbs_val lb rs = 0" if ov
  proof -
    have "X sdiv Y = - X \<and> X smod Y = 0" by (rule sdiv_smod_unique) (use that in \<open>auto simp: ov_def\<close>)
    then show ?thesis using R0 that by (simp add: rem_spec_def ov_def)
  qed
qed

section \<open>The row of the filler\<close>

text \<open>The limbs of \<open>negate\<close>, one by one: zeros up to the first non-zero limb.\<close>

lemma negate_loop_nth:
  assumes "limbs_ok lb xs" "lb \<le> 8" "i < length xs"
  shows "negate_loop lb (of_bool c) xs ! i =
    (if c \<and> (\<forall>j<i. xs ! j = 0) then (if xs ! i = 0 then 0 else 2 ^ lb - xs ! i) else 2 ^ lb - 1 - xs ! i)"
  using assms(1,3)
proof (induction xs arbitrary: c i)
  case (Cons x xs)
  let ?B = "2 ^ lb :: nat" and ?w = "2 ^ lb + of_bool c - 1 - x :: nat"
  have le: "?B \<le> 256" by (rule pow_le_256 [OF assms(2)])
  have x: "x < ?B" using Cons.prems by simp
  have w: "wsub 32 (wsub 32 (wadd 32 (wshl 32 1 lb) (of_bool c)) 1) x = ?w"
  proof -
    have c1: "of_bool c \<le> (1::nat)" by (cases c) simp_all
    have "wadd 32 ?B (of_bool c) = ?B + of_bool c" by (rule wadd_small) (use le c1 in simp)
    moreover have "wsub 32 (?B + of_bool c) 1 = ?B + of_bool c - 1" by (rule wsub_small) (use le c1 x in simp_all)
    moreover have "wsub 32 (?B + of_bool c - 1) x = ?w" by (rule wsub_small) (use le c1 x in simp_all)
    ultimately show ?thesis by (simp only: wshl_1 [OF assms(2)])
  qed
  have d: "?w div ?B = of_bool (c \<and> x = 0)" "?w mod ?B = (if c then (if x = 0 then 0 else ?B - x) else ?B - 1 - x)"
    using x by (cases c; cases "x = 0"; simp)+
  have step: "negate_loop lb (of_bool c) (x # xs) = (if c then (if x = 0 then 0 else ?B - x) else ?B - 1 - x) # negate_loop lb (of_bool (c \<and> x = 0)) xs"
    unfolding negate_loop.simps Let_def w unfolding wshl_1 [OF assms(2)] wshr_def d ..
  show ?case
  proof (cases i)
    case (Suc k)
    have e: "c \<and> (\<forall>j<i. (x # xs) ! j = 0) \<longleftrightarrow> (c \<and> x = 0) \<and> (\<forall>j<k. xs ! j = 0)" unfolding Suc by (auto simp: All_less_Suc2)
    show ?thesis unfolding e step unfolding Suc nth_Cons_Suc by (rule Cons.IH) (use Cons.prems Suc in simp_all)
  next
    case 0
    show ?thesis unfolding step unfolding 0 by simp
  qed
qed simp

lemma negate_nth:
  assumes "limbs_ok lb xs" "lb \<le> 8" "i < length xs"
  shows "negate lb xs ! i = (if \<forall>j<i. xs ! j = 0 then (if xs ! i = 0 then 0 else 2 ^ lb - xs ! i) else 2 ^ lb - 1 - xs ! i)"
  using negate_loop_nth [OF assms, of True] by (simp add: negate_def)

lemma carry_lt_negate:
  fixes cols :: "'f::field divrem_cols"
  assumes r: "dr_r cols = fels rs" "dr_r_prime cols = fels (negate lb rs)" "limbs_ok lb rs" "length rs = n"
    and lb: "lb \<le> 8" and char: "2 ^ lb < CHAR('f)" and i: "i < n"
  shows "carry_lt lb cols i = from_bool (\<not> (\<forall>j\<le>i. rs ! j = 0))"
proof -
  have ne: "of_nat (2 ^ lb) \<noteq> (0 :: 'f)" using two_power_neq_0_char [OF char] by simp
  have ln: "length (negate lb rs) = n" using negate_val [OF r(3,4) lb] by simp
  have key: "(u + of_nat (rs ! i) + of_nat (negate lb rs ! i)) * inverse (of_nat (2 ^ lb)) = (from_bool (\<not> (\<forall>j\<le>i. rs ! j = 0)) :: 'f)"
    if "i < n" "u = from_bool (\<not> (\<forall>j<i. rs ! j = 0))" for u :: 'f and i
  proof -
    have x: "rs ! i < 2 ^ lb" using r that by (simp add: list_all_length)
    have z: "(\<forall>j\<le>i. rs ! j = 0) \<longleftrightarrow> (\<forall>j<i. rs ! j = 0) \<and> rs ! i = 0" by (auto simp: le_less)
    have s: "of_nat (rs ! i) + of_nat (2 ^ lb - rs ! i) = (of_nat (2 ^ lb) :: 'f)"
      "1 + of_nat (rs ! i) + of_nat (2 ^ lb - 1 - rs ! i) = (of_nat (2 ^ lb) :: 'f)"
      using x by (simp_all add: of_nat_diff [symmetric] flip: of_nat_add of_nat_Suc)
    show ?thesis
    proof (cases "\<forall>j<i. rs ! j = 0")
      case True
      have u: "u = 0" unfolding that(2) eqTrueI [OF True] by simp
      have "negate lb rs ! i = (if rs ! i = 0 then 0 else 2 ^ lb - rs ! i)"
        using negate_nth [OF r(3) lb, of i] r(4) that(1) True by simp
      then show ?thesis unfolding z eqTrueI [OF True] u using s(1) ne by (cases "rs ! i = 0") simp_all
    next
      case False
      have u: "u = 1" unfolding that(2) eq_False [THEN iffD2, OF False] by simp
      have "negate lb rs ! i = 2 ^ lb - 1 - rs ! i"
        using negate_nth [OF r(3) lb, of i] r(4) that(1) unfolding eq_False [THEN iffD2, OF False] by simp
      then show ?thesis unfolding z eq_False [THEN iffD2, OF False] u using s(2) ne by simp
    qed
  qed
  show ?thesis using i
  proof (induction i)
    case 0
    then show ?case using key [of 0 0] r ln by simp
  next
    case (Suc i)
    then show ?case using key [of "Suc i" "from_bool (\<not> (\<forall>j\<le>i. rs ! j = 0))"] r ln by (simp add: less_Suc_eq_le)
  qed
qed

lemma r_prime_complete:
  fixes cols :: "'f::field divrem_cols"
  assumes r: "dr_r cols = fels rs" "dr_r_prime cols = fels (if x then negate 8 rs else rs)" "limbs_ok 8 rs" "length rs = n"
    and x: "dr_sign_xor cols = from_bool x" "r_inv cols = map (\<lambda>r. inverse (of_nat r - of_nat 256)) (if x then negate 8 rs else rs)"
    and char: "256 < CHAR('f)" and i: "i < n"
  shows "all_satisfied (r_prime_assertions 8 cols i)"
proof (cases x)
  case False
  then show ?thesis using r x by (simp add: r_prime_assertions_def Let_def)
next
  case True
  let ?p = "negate 8 rs ! i"
  have ln: "length (negate 8 rs) = n" "limbs_ok 8 (negate 8 rs)"
    by (simp_all only: negate_val [OF r(3,4) order.refl] length_to_limbs limbs_ok_to_limbs)
  then have p: "?p < 256" using i limbs_okD [of 8 "negate 8 rs" i] by simp
  then have "of_nat ?p \<noteq> (of_nat 256 :: 'f)" using char by (subst of_nat_eq_iff_char) simp_all
  then have inv: "(of_nat ?p - of_nat 256) * inverse (of_nat ?p - of_nat 256) = (1 :: 'f)" by simp
  have c: "carry_lt 8 cols j = from_bool (\<not> (\<forall>k\<le>j. rs ! k = 0))" if "j < n" for j
    using carry_lt_negate [OF r(1) _ r(3,4) _ _ that] r(2) True char by simp
  have l: "(if i > 0 then carry_lt 8 cols (i - 1) else 0) = (from_bool (\<not> (\<forall>k<i. rs ! k = 0)) :: 'f)"
    using c [of "i - 1"] i by (cases i) (simp_all add: less_Suc_eq_le)
  have z: "(\<forall>j\<le>i. rs ! j = 0) \<longleftrightarrow> (\<forall>j<i. rs ! j = 0) \<and> rs ! i = 0" by (auto simp: le_less)
  have rc: "dr_r_prime cols ! i = of_nat ?p" "r_inv cols ! i = inverse (of_nat ?p - of_nat 256)"
    using r(2) x(2) True ln i by simp_all
  show ?thesis
  proof (cases "\<forall>j\<le>i. rs ! j = 0")
    case T: True
    then have A: "\<forall>j<i. rs ! j = 0" by (simp add: z)
    have "?p = 0" using negate_nth [of 8 rs i] r i T by simp
    then show ?thesis unfolding r_prime_assertions_def Let_def l c [OF i] rc eqTrueI [OF A] eqTrueI [OF T]
      using True x(1) inv by (simp add: not_f_def)
  next
    case F: False
    then show ?thesis unfolding r_prime_assertions_def Let_def l c [OF i] rc eq_False [THEN iffD2, OF F]
      using True x(1) inv by (simp add: not_f_def)
  qed
qed

lemma sltu_diff_loop_idx:
  "sltu_diff_loop x y cmp m (rev [0..<n]) = (case diff_idx x y n of
     None \<Rightarrow> if \<not> cmp then Some m else None | Some i \<Rightarrow> if (x ! i < y ! i) = cmp then Some i else None)"
  by (induction n) simp_all

lemma divrem_lt_ok:
  assumes c: "limbs_ok 8 cs" "length cs = n" and p: "limbs_ok 8 ps" "length ps = n" and n: "0 < n"
    and lt: "if sc then limbs_val 8 cs < limbs_val 8 ps else limbs_val 8 ps < limbs_val 8 cs"
  obtains j d where "divrem_lt n cs ps sc = Some (of_nat d, (replicate n 0)[j := 1], [Request_range (d - 1) 0])"
    "j < n" "\<And>i. j < i \<Longrightarrow> i < n \<Longrightarrow> cs ! i = ps ! i" "0 < d" "d < 256"
    "of_nat d = (of_nat (ps ! j) - of_nat (cs ! j)) * (of_nat 2 * from_bool sc - 1 :: 'f::field)"
proof -
  have s: "sign_of 8 False xs = False" for xs by (simp add: sign_of_def)
  obtain j where j: "diff_idx cs ps n = Some j" "(cs ! j < ps ! j) = sc"
    using diff_idx_compare [OF c(1) p(1) c(2) p(2) _ n, of False] diff_idx_compare [OF c(1) p(1) c(2) p(2) _ n, of False] lt
      diff_idx_None [of cs ps n] c(2) p(2) s
  proof (cases "diff_idx cs ps n")
    case None
    then have "cs = ps" using c(2) p(2) by (intro nth_equalityI) (auto simp: diff_idx_None)
    then show ?thesis using lt by (simp split: if_splits)
  next
    case (Some j)
    then have "limbs_val 8 cs < limbs_val 8 ps \<longleftrightarrow> cs ! j < ps ! j"
      using diff_idx_compare [OF c(1) p(1) c(2) p(2) _ n, of False] s by simp
    then show ?thesis using that Some lt by (cases sc) auto
  qed
  note js = diff_idx_Some [OF j(1)]
  have b: "cs ! j < 256" "ps ! j < 256" using limbs_okD [OF c(1), of j] limbs_okD [OF p(1), of j] js c(2) p(2) by simp_all
  define d where "d = (if sc then ps ! j - cs ! j else cs ! j - ps ! j)"
  have w: "(if sc then wsub 32 (ps ! j) (cs ! j) else wsub 32 (cs ! j) (ps ! j)) = d"
    using b j(2) js by (auto simp: d_def intro!: wsub_small)
  have d: "0 < d" "d < 256" using b j(2) js by (auto simp: d_def)
  have w1: "wsub 32 d 1 = d - 1" by (rule wsub_small) (use d in simp_all)
  show ?thesis
  proof (rule that [of d j])
    show "divrem_lt n cs ps sc = Some (of_nat d, (replicate n 0)[j := 1], [Request_range (d - 1) 0])"
      using j js unfolding divrem_lt_def run_sltu_diff_idx_def sltu_diff_loop_idx by (simp add: w w1 [simplified])
    show "of_nat d = (of_nat (ps ! j) - of_nat (cs ! j)) * (of_nat 2 * from_bool sc - 1 :: 'f)"
      using j(2) js by (auto simp: d_def of_nat_diff)
  qed (use js d in auto)
qed

text \<open>The parts of the row: special cases and signs.\<close>

lemma special_complete:
  fixes cols :: "'f::field divrem_cols"
  assumes cols: "dr_c cols = fels cs" "dr_q cols = fels qs" "dr_r cols = fels rs"
    and ok: "limbs_ok lb cs" "length cs = n" "length qs = n" "limbs_ok lb rs" "length rs = n"
    and flags: "dr_zero_divisor cols = from_bool zd" "dr_r_zero cols = from_bool rz"
    and inv: "c_sum_inv cols = inverse (of_nat (sum_list cs))" "r_sum_inv cols = inverse (of_nat (sum_list rs))"
    and zd: "zd \<longleftrightarrow> limbs_val lb cs = 0" "zd \<Longrightarrow> qs = replicate n (2 ^ lb - 1)" and rz: "rz \<longleftrightarrow> limbs_val lb rs = 0 \<and> \<not> zd"
    and char: "n * 2 ^ lb < CHAR('f)"
  shows "all_satisfied (special_assertions n lb cols 1)"
proof -
  have small: "sum_list zs < CHAR('f)" if "limbs_ok lb zs" "length zs = n" for zs
  proof -
    have "sum_list zs \<le> length zs * 2 ^ lb" using that(1) by (induction zs) auto
    then show ?thesis using char unfolding that(2) by (rule le_less_trans)
  qed
  have sum0: "of_nat (sum_list zs) = (0 :: 'f) \<longleftrightarrow> limbs_val lb zs = 0" if "limbs_ok lb zs" "length zs = n" for zs
    using small [OF that] by (simp add: of_nat_eq_0_char limbs_val_0_iff)
  have c0: "cs ! i = 0" if zd "i < n" for i using zd(1) that ok(2) by (auto simp: limbs_val_0_iff)
  have r0: "x = 0" if rz "x \<in> set rs" for x using rz that by (auto simp: limbs_val_0_iff)
  have q: "qs ! i = 2 ^ lb - 1" if zd "i < n" for i using zd(2) that by simp
  note ev = special_assertions_def [of n lb cols 1, unfolded Let_def special_case_def flags cols fold_sum_fels inv]
  show ?thesis
  proof (cases zd)
    case True
    then have "\<not> rz" using rz by simp
    have cq: "fels cs ! i = (0 :: 'f) \<and> fels qs ! i = (of_nat (2 ^ lb - 1) :: 'f)" if "i < n" for i
      using c0 [OF True that] q [OF True that] that ok by simp
    show ?thesis unfolding ev using True \<open>\<not> rz\<close> cq by simp
  next
    case False
    then have "of_nat (sum_list cs) \<noteq> (0 :: 'f)" using sum0 [OF ok(1,2)] zd(1) by simp
    then have c: "of_nat (sum_list cs) * inverse (of_nat (sum_list cs)) = (1 :: 'f)" by simp
    show ?thesis
    proof (cases rz)
      case T: True
      have "of_nat x = (0 :: 'f)" if "x \<in> set rs" for x unfolding r0 [OF T that] by simp
      then show ?thesis unfolding ev using False T c by simp
    next
      case F: False
      then have "of_nat (sum_list rs) \<noteq> (0 :: 'f)" using sum0 [OF ok(4,5)] rz False by simp
      then have "of_nat (sum_list rs) * inverse (of_nat (sum_list rs)) = (1 :: 'f)" by simp
      then show ?thesis unfolding ev using False F c by simp
    qed
  qed
qed

lemma sign_complete:
  fixes cols :: "'f::field divrem_cols"
  assumes flags: "dr_b_sign cols = from_bool sb" "dr_c_sign cols = from_bool sc" "dr_q_sign cols = from_bool sq"
      "dr_sign_xor cols = from_bool (sb \<noteq> sc)" "dr_zero_divisor cols = from_bool zd"
    and q: "dr_q cols = fels qs" and sq: "\<not> zd \<Longrightarrow> sq = (if limbs_val lb qs = 0 then False else sb \<noteq> sc)"
    and sg: "sb \<longrightarrow> sg" "sc \<longrightarrow> sg"
  shows "all_satisfied (sign_assertions cols (from_bool sg))"
proof -
  have z: "of_nat (sum_list qs) = (0 :: 'f)" if "limbs_val lb qs = 0"
  proof -
    have s: "sum_list qs = 0" using that by (simp add: limbs_val_0_iff)
    show ?thesis unfolding s by simp
  qed
  show ?thesis unfolding sign_assertions_def Let_def flags q fold_sum_fels
    using sq sg z by (cases sb; cases sc; cases zd; cases sq; cases "limbs_val lb qs = 0") (simp_all add: not_f_def)
qed

text \<open>The comparison of the filler's row: no marker in the special cases, one marker otherwise.\<close>

lemma lt_complete:
  fixes cols :: "'f::field divrem_cols"
  assumes sp: "special_case cols = 1" "dr_lt_marker cols = replicate n 0"
  shows "\<exists>as. lt_loop cols (special_case cols) (rev [0..<n]) = (as, 1) \<and> all_satisfied as"
  unfolding lt_loop_diff sp(1) by (rule diff_loop_zeros) (simp_all add: sp(2))

lemma lt_complete':
  fixes cols :: "'f::field divrem_cols"
  assumes sp: "special_case cols = 0" and m: "dr_lt_marker cols = (replicate n 0)[j := 1]" "j < n"
    and c: "dr_c cols = fels cs" "length cs = n" and p: "dr_r_prime cols = fels ps" "length ps = n"
    and eq: "\<And>i. j < i \<Longrightarrow> i < n \<Longrightarrow> cs ! i = ps ! i" and s: "dr_c_sign cols = from_bool sc"
    and d: "dr_lt_diff cols = (of_nat (ps ! j) - of_nat (cs ! j)) * (of_nat 2 * from_bool sc - 1)"
  shows "\<exists>as. lt_loop cols (special_case cols) (rev [0..<n]) = (as, 1) \<and> all_satisfied as"
proof -
  have "\<exists>as. diff_loop (\<lambda>i. dr_r_prime cols ! i - dr_c cols ! i) (dr_c_sign cols) (dr_lt_marker cols) (dr_lt_diff cols) 0 (rev [0..<n]) =
      (as, if j < n then 1 else 0) \<and> all_satisfied as"
    by (rule diff_loop_complete) (use m c p eq s d in \<open>auto simp: nth_list_update\<close>)
  then show ?thesis using m(2) by (simp add: lt_loop_diff sp)
qed

text \<open>
  The lookups of a row whose operands, carries, signs and comparison are known, as requests.
  \<open>u\<close> and \<open>w\<close> are the sign requests, \<open>d\<close> the difference where the row compares.
\<close>

lemma mset_tuple_rows:
  fixes air :: divrem_air
  assumes "length qs = n" "length rs = n" "\<And>i. i < n \<Longrightarrow> f i = of_nat (ks ! i)" "\<And>i. i < n \<Longrightarrow> g i = of_nat (ls ! i)"
    and "tuples = concat (map (\<lambda>i. [Add_tuple [qs ! i, ks ! i], Add_tuple [rs ! i, ls ! i]]) [0..<n])"
  shows "mset (active (map (\<lambda>i. range_tuple_send tb [fels qs ! i, f i] (1 :: 'f::field)) [0..<n] @
      map (\<lambda>i. range_tuple_send tb [fels rs ! i, g i] 1) [0..<n])) = mset (concat (map (range_tuple_lookup tb) tuples))"
    and "concat (map (bitwise_lookup z) tuples) = ([] :: 'f interaction list)"
proof -
  have maps: "map (\<lambda>i. range_tuple_send tb [fels qs ! i, f i] (1 :: 'f)) [0..<n] =
      map (\<lambda>i. Lookup_key (rt_index tb) [of_nat (qs ! i), of_nat (ks ! i)] 1) [0..<n]"
    "map (\<lambda>i. range_tuple_send tb [fels rs ! i, g i] (1 :: 'f)) [0..<n] =
      map (\<lambda>i. Lookup_key (rt_index tb) [of_nat (rs ! i), of_nat (ls ! i)] 1) [0..<n]"
    by (rule map_cong, simp, simp add: assms air_defs)+
  have act: "active (map (\<lambda>i. Lookup_key z (p i) (1 :: 'f)) js) = map (\<lambda>i. Lookup_key z (p i) 1) js" for z p js
    by (induction js) simp_all
  have look: "concat (map (range_tuple_lookup tb) (concat (map (\<lambda>i. [Add_tuple [qs ! i, ks ! i], Add_tuple [rs ! i, ls ! i]]) js))) =
      concat (map (\<lambda>i. [Lookup_key (rt_index tb) [of_nat (qs ! i), of_nat (ks ! i)] (1 :: 'f),
        Lookup_key (rt_index tb) [of_nat (rs ! i), of_nat (ls ! i)] 1]) js)"
      "concat (map (bitwise_lookup z) (concat (map (\<lambda>i. [Add_tuple [qs ! i, ks ! i], Add_tuple [rs ! i, ls ! i]]) js))) = ([] :: 'f interaction list)" for js z
    by (induction js) simp_all
  show "mset (active (map (\<lambda>i. range_tuple_send tb [fels qs ! i, f i] (1 :: 'f)) [0..<n] @
      map (\<lambda>i. range_tuple_send tb [fels rs ! i, g i] 1) [0..<n])) = mset (concat (map (range_tuple_lookup tb) tuples))"
    unfolding maps assms(5) look active_simps act mset_append mset_interleave ..
  show "concat (map (bitwise_lookup z) tuples) = ([] :: 'f interaction list)" unfolding assms(5) by (rule look)
qed

lemma sum_fold_wadd:
  assumes "limbs_ok 8 xs" "length xs * 256 < 2 ^ 32"
  shows "fold (\<lambda>c acc. wadd 32 acc c) xs 0 = sum_list xs"
proof -
  have "sum_list xs \<le> length xs * 256" using assms(1) by (induction xs) auto
  then show ?thesis using wadd_fold [of 0 xs] assms(2) by simp
qed

lemma fold_of_nat: "fold (\<lambda>r acc. acc + of_nat r) xs 0 = (of_nat (sum_list xs) :: 'f::field)"
proof -
  have "fold (\<lambda>r acc. acc + of_nat r) xs a = (a + of_nat (sum_list xs) :: 'f)" for a
    by (induction xs arbitrary: a) simp_all
  then show ?thesis by simp
qed

lemma sign_range_fill: "lb \<le> 8 \<Longrightarrow> 0 < lb \<Longrightarrow> wshl 32 (wsub 32 x (if s then wshl 32 1 (lb - 1) else 0)) 1 = sign_range lb s x"
  using wshl_1 [of "lb - 1"] by (simp add: sign_range_def)

lemma divrem_fill_complete:
  fixes rec :: divrem_record
  assumes Z: "biguint_laws Z v" and b: "limbs_ok 8 (drr_b rec)" "length (drr_b rec) = n" and c: "limbs_ok 8 (drr_c rec)" "length (drr_c rec) = n"
    and n: "0 < n" "2 * n * (2 ^ 8 * 2 ^ 8) < 2 ^ 32" and K: "2 * n * 2 ^ 8 \<le> K" and char: "n * 2 ^ 8 < CHAR('f::field)"
  shows "\<exists>(cols :: 'f divrem_cols) reqs. divrem_fill_core Z n 8 op rec = Some (cols, reqs) \<and>
    all_satisfied (fst (divrem_eval n 8 air cols)) \<and>
    mset (active (fst (snd (divrem_eval n 8 air cols)))) =
      mset (concat (map (range_tuple_lookup (dr_tuple_bus air)) reqs) @ concat (map (bitwise_lookup (dr_bitwise_bus air)) reqs)) \<and>
    list_all (range_tuple_request_ok [2 ^ 8, K]) reqs \<and> list_all (bitwise_request_ok 8) reqs \<and>
    core_ctx (divrem_eval n 8 air cols) = divrem_ctx n 8 (dr_offset air) op (drr_b rec) (drr_c rec) \<and>
    dr_b cols = fels (drr_b rec) \<and> dr_c cols = fels (drr_c rec) \<and>
    length (dr_q cols) = n \<and> length (dr_r cols) = n \<and> length (dr_r_prime cols) = n"
proof -
  let ?bs = "drr_b rec" and ?cs = "drr_c rec" and ?sg = "signed_op op"
  define X Y where "X = sval 8 ?sg ?bs" and "Y = sval 8 ?sg ?cs"
  define qs rs where "qs = to_limbs 8 n (nat (quot_spec X Y mod 2 ^ (8 * n)))" and "rs = to_limbs 8 n (nat (rem_spec X Y mod 2 ^ (8 * n)))"
  define ov where "ov \<longleftrightarrow> ?sg \<and> 2 * X = - (2 ^ (8 * n)) \<and> Y = - 1"
  define sq where "sq \<longleftrightarrow> (if Y = 0 then ?sg else if ov then False else ?sg \<and> 2 ^ (8 - 1) \<le> qs ! (n - 1))"
  define rz where "rz \<longleftrightarrow> limbs_val 8 rs = 0 \<and> Y \<noteq> 0"
  note F = divrem_facts [OF b c n(1) zero_less_numeral, of ?sg, folded X_def Y_def, folded qs_def rs_def ov_def, folded sq_def rz_def]
  have run: "run_divrem Z n 8 ?sg ?bs ?cs = (qs, rs, X < 0, Y < 0, sq, if Y = 0 then ZeroDivisor else if ov then SignedOverflow else No_special_case)"
    using run_divrem_result [OF Z b c n(1), of ?sg] unfolding X_def [symmetric] Y_def [symmetric] qs_def [symmetric] rs_def [symmetric] ov_def [symmetric] sq_def
    by simp
  have q: "limbs_ok 8 qs" "length qs = n" and r: "limbs_ok 8 rs" "length rs = n" by (simp_all only: qs_def rs_def limbs_ok_to_limbs length_to_limbs)
  have sx: "X < 0 \<longleftrightarrow> ?sg \<and> 2 ^ (8 - 1) \<le> ?bs ! (n - 1)" "Y < 0 \<longleftrightarrow> ?sg \<and> 2 ^ (8 - 1) \<le> ?cs ! (n - 1)"
    unfolding X_def Y_def by (rule sval_neg; use b c n in simp)+
  obtain ks ls where kl: "run_mul_carries n 8 ?sg ?cs qs rs sq = ks @ ls" "length ks = n" "length ls = n"
    and kb: "list_all (\<lambda>k. k < 2 * n * 2 ^ 8) (ks @ ls)"
    and low: "carries n 8 (\<lambda>i. rs ! i + conv ?cs qs i) (\<lambda>i. ?bs ! i) 0 (\<lambda>i. ks ! i)"
    and high: "carries n 8 (\<lambda>j. conv (extended n ?cs (of_bool (Y < 0) * (2 ^ 8 - 1))) (extended n qs (of_bool sq * (2 ^ 8 - 1))) (n + j) +
      of_bool (\<not> rz \<and> X < 0) * (2 ^ 8 - 1)) (\<lambda>_. of_bool (X < 0) * (2 ^ 8 - 1)) (ks ! (n - 1)) (\<lambda>i. ls ! i)"
    by (rule run_mul_carries_ok [OF c q r b n zero_less_numeral order.refl F(6) F(1) [unfolded sx(2)], unfolded F(2), folded sx(2)])
  define ps where "ps = (if (X < 0) \<noteq> (Y < 0) then negate 8 rs else rs)"
  have p: "limbs_ok 8 ps" "length ps = n"
    using r negate_val [OF r order.refl] limbs_ok_to_limbs [of 8 n "2 ^ (8 * n) - limbs_val 8 rs"] by (simp_all add: ps_def)
  define sp where "sp \<longleftrightarrow> Y = 0 \<or> rz"
  obtain ld lm lr where lt: "(if (if Y = 0 then ZeroDivisor else if ov then SignedOverflow else No_special_case) = No_special_case \<and> \<not> rz
      then divrem_lt n ?cs ps (Y < 0) else Some (0, replicate n 0, [])) = Some (ld :: 'f, lm, lr)"
    and sp1: "sp \<Longrightarrow> lm = replicate n 0 \<and> lr = []"
    and sp0: "\<not> sp \<Longrightarrow> \<exists>j d. ld = of_nat d \<and> lm = (replicate n 0)[j := 1] \<and> lr = [Request_range (d - 1) 0] \<and> j < n \<and>
      (\<forall>i. j < i \<longrightarrow> i < n \<longrightarrow> ?cs ! i = ps ! i) \<and> 0 < d \<and> d < 256 \<and>
      of_nat d = (of_nat (ps ! j) - of_nat (?cs ! j)) * (of_nat 2 * from_bool (Y < 0) - 1 :: 'f)"
  proof (cases sp)
    case True
    then show ?thesis using that [of 0 "replicate n 0" "[]"] by (auto simp: sp_def)
  next
    case False
    then have y0: "Y \<noteq> 0" "limbs_val 8 rs \<noteq> 0" "\<not> rz" by (auto simp: sp_def rz_def)
    then have nov: "\<not> ov" using F(8) by metis
    have P: "int (limbs_val 8 ps) = (if (X < 0) = (Y < 0) then int (limbs_val 8 rs) else 2 ^ (8 * n) - int (limbs_val 8 rs))"
    proof -
      have "limbs_val 8 rs < 2 ^ (8 * n)" using limbs_val_bound [OF r(1)] r(2) by simp
      then have "limbs_val 8 (negate 8 rs) = 2 ^ (8 * n) - limbs_val 8 rs"
        unfolding negate_val [OF r order.refl] limbs_val_to_limbs using y0(2) by (intro mod_less) simp
      then show ?thesis using \<open>limbs_val 8 rs < 2 ^ (8 * n)\<close> by (simp add: ps_def of_nat_diff)
    qed
    have "if Y < 0 then limbs_val 8 ?cs < limbs_val 8 ps else limbs_val 8 ps < limbs_val 8 ?cs"
      using F(7) [OF y0(1,2)] unfolding P [symmetric] by (simp only: of_nat_less_iff)
    from divrem_lt_ok [OF c p n(1) this, where 'f = 'f] obtain j d where
      jd: "divrem_lt n ?cs ps (Y < 0) = Some (of_nat d :: 'f, (replicate n 0)[j := 1], [Request_range (d - 1) 0])"
        "j < n" "\<And>i. j < i \<Longrightarrow> i < n \<Longrightarrow> ?cs ! i = ps ! i" "0 < d" "d < 256"
        "of_nat d = (of_nat (ps ! j) - of_nat (?cs ! j)) * (of_nat 2 * from_bool (Y < 0) - 1 :: 'f)"
      by blast
    show ?thesis
    proof (rule that [of "of_nat d" "(replicate n 0)[j := 1]" "[Request_range (d - 1) 0]"])
      show "\<exists>j' d'. of_nat d = of_nat d' \<and> (replicate n 0)[j := 1] = (replicate n 0)[j' := 1] \<and>
        [Request_range (d - 1) 0] = [Request_range (d' - 1) 0] \<and> j' < n \<and> (\<forall>i. j' < i \<longrightarrow> i < n \<longrightarrow> ?cs ! i = ps ! i) \<and> 0 < d' \<and> d' < 256 \<and>
        of_nat d' = (of_nat (ps ! j') - of_nat (?cs ! j')) * (of_nat 2 * from_bool (Y < 0) - 1 :: 'f)"
        using jd(2-6) by blast
    qed (use jd(1) y0 nov False in simp_all)
  qed
  have rz': "(list_all (\<lambda>v. v = 0) rs \<and> Y \<noteq> 0) = rz"
    by (auto simp: rz_def limbs_val_0_iff list_all_iff)
  have zd': "((if Y = 0 then ZeroDivisor else if ov then SignedOverflow else No_special_case) = ZeroDivisor) = (Y = 0)" by simp
  define tuples where "tuples = concat (map (\<lambda>i. [Add_tuple [qs ! i, ks ! i], Add_tuple [rs ! i, ls ! i]]) [0..<n])"
  define signs where "signs = (if ?sg then [Request_range (sign_range 8 (X < 0) (?bs ! (n - 1))) (sign_range 8 (Y < 0) (?cs ! (n - 1)))] else [])"
  define cols :: "'f divrem_cols" where "cols = \<lparr>dr_b = fels ?bs, dr_c = fels ?cs, dr_q = fels qs, dr_r = fels rs,
      dr_zero_divisor = from_bool (Y = 0), dr_r_zero = from_bool rz, dr_b_sign = from_bool (X < 0), dr_c_sign = from_bool (Y < 0),
      dr_q_sign = from_bool sq, dr_sign_xor = from_bool ((X < 0) \<noteq> (Y < 0)), c_sum_inv = inverse (of_nat (sum_list ?cs)),
      r_sum_inv = inverse (of_nat (sum_list rs)), dr_r_prime = fels ps, r_inv = map (\<lambda>r. inverse (of_nat r - of_nat 256)) ps,
      dr_lt_marker = lm, dr_lt_diff = ld, opcode_div_flag = from_bool (op = DIV), opcode_divu_flag = from_bool (op = DIVU),
      opcode_rem_flag = from_bool (op = REM), opcode_remu_flag = from_bool (op = REMU)\<rparr>"
  have fill: "divrem_fill_core Z n 8 op rec = Some (cols, tuples @ signs @ lr)"
  proof -
    have t: "concat (map (\<lambda>i. [Add_tuple [qs ! i, (ks @ ls) ! i], Add_tuple [rs ! i, (ks @ ls) ! (i + n)]]) [0..<n]) = tuples"
      unfolding tuples_def by (intro arg_cong [where f = concat] map_cong) (simp_all add: nth_append kl)
    have w: "fold (\<lambda>c acc. wadd 32 acc c) ?cs 0 = sum_list ?cs" by (rule sum_fold_wadd [OF c(1)]) (use c(2) n(2) in simp)
    have sr: "wshl 32 (wsub 32 x (if s then wshl 32 1 (8 - 1) else 0)) 1 = sign_range 8 s x" for s x by (rule sign_range_fill) simp_all
    show ?thesis unfolding divrem_fill_core_def Let_def run prod.case kl(1) t w sr fold_of_nat ps_def [symmetric] zd' unfolding rz' lt
      by (simp add: cols_def signs_def)
  qed
  have c256: "256 < CHAR('f)" "2 ^ 8 < CHAR('f)"
  proof -
    have "1 * 2 ^ 8 \<le> n * 2 ^ 8" using n(1) by (intro mult_le_mono1) simp
    then show "256 < CHAR('f)" "2 ^ 8 < CHAR('f)" using char by simp_all
  qed
  have spc: "special_case cols = from_bool sp" by (auto simp: special_case_def cols_def sp_def rz_def from_bool_def)
  obtain as where lts: "lt_loop cols (special_case cols) (rev [0..<n]) = (as, 1)" and as: "all_satisfied as"
  proof (cases sp)
    case True
    then show ?thesis using lt_complete [of cols n] that spc sp1 by (auto simp: cols_def)
  next
    case False
    from sp0 [OF this] obtain j d where jd: "ld = of_nat d" "lm = (replicate n 0)[j := 1]" "j < n"
        "\<And>i. j < i \<Longrightarrow> i < n \<Longrightarrow> ?cs ! i = ps ! i"
        "of_nat d = (of_nat (ps ! j) - of_nat (?cs ! j)) * (of_nat 2 * from_bool (Y < 0) - 1 :: 'f)" by blast
    have "\<exists>as. lt_loop cols (special_case cols) (rev [0..<n]) = (as, 1) \<and> all_satisfied as"
      by (rule lt_complete' [where j = j and cs = ?cs and ps = ps and sc = "Y < 0"])
        (use jd c p False spc in \<open>simp_all add: cols_def\<close>)
    then show ?thesis using that by blast
  qed
  have v1: "fold (\<lambda>flag acc. acc + flag) [opcode_div_flag cols, opcode_divu_flag cols, opcode_rem_flag cols, opcode_remu_flag cols] 0 = 1"
    by (cases op) (simp_all add: cols_def)
  have sg: "opcode_div_flag cols + opcode_rem_flag cols = from_bool ?sg" "opcode_div_flag cols + opcode_divu_flag cols = from_bool (div_op op)"
    by (cases op; simp add: cols_def)+
  note ev = divrem_eval_def [of n 8 air cols, unfolded Let_def lts prod.case v1 sg, unfolded spc]
  have "all_satisfied (special_assertions n 8 cols 1)"
    by (rule special_complete [where cs = ?cs and qs = qs and rs = rs and zd = "Y = 0" and rz = rz])
      (use c q r F(3,4) char in \<open>simp_all add: cols_def rz_def\<close>)
  moreover have "all_satisfied (sign_assertions cols (from_bool ?sg))"
    by (rule sign_complete [where qs = qs and lb = 8 and sb = "X < 0" and sc = "Y < 0" and sq = sq and zd = "Y = 0"])
      (use F(5) sx in \<open>simp_all add: cols_def\<close>)
  moreover have "all_satisfied (r_prime_assertions 8 cols i)" if "i < n" for i
    by (rule r_prime_complete [where rs = rs and x = "(X < 0) \<noteq> (Y < 0)" and n = n])
      (use r c256 that in \<open>simp_all add: cols_def ps_def\<close>)
  moreover have "\<forall>x\<in>set [opcode_div_flag cols, opcode_divu_flag cols, opcode_rem_flag cols, opcode_remu_flag cols]. x = 0 \<or> x = 1"
    by (cases op) (simp_all add: cols_def)
  ultimately have sat: "all_satisfied (fst (divrem_eval n 8 air cols))" unfolding ev using as by simp
  have e: "divrem_ext 8 (from_bool s :: 'f) = of_nat (of_bool s * (2 ^ 8 - 1))" for s by (cases s) (simp_all add: divrem_ext_def)
  have k: "divrem_carry 8 cols i = of_nat (ks ! i)" if "i < n" for i
  proof -
    have "carry_col 8 (\<lambda>i. fold (\<lambda>k ac. ac + dr_c cols ! k * dr_q cols ! (i - k)) [0..<Suc i] (dr_r cols ! i)) ((!) (dr_b cols)) (of_nat 0) i =
        of_nat (ks ! i)"
      by (rule carry_col_complete [OF low _ _ c256(2) that])
        (use low_sum_fels [OF _ c(2) q(2) r(2), where 'f = 'f] b in \<open>simp_all add: cols_def\<close>)
    then show ?thesis by (simp add: divrem_carry_def)
  qed
  have l: "divrem_carry_ext n 8 cols i = of_nat (ls ! i)" if "i < n" for i
  proof -
    have kn: "divrem_carry 8 cols (n - 1) = of_nat (ks ! (n - 1))" using k n(1) by simp
    have cl: "dr_b_sign cols = from_bool (X < 0)" "dr_c_sign cols = from_bool (Y < 0)" "dr_q_sign cols = from_bool sq"
      "dr_c cols = fels ?cs" "dr_q cols = fels qs" "dr_r_zero cols = from_bool rz" by (simp_all add: cols_def)
    have z: "(1 - from_bool rz) * of_nat (of_bool (X < 0) * (2 ^ 8 - 1)) = (of_nat (of_bool (\<not> rz \<and> X < 0) * (2 ^ 8 - 1)) :: 'f)"
      by (cases rz) simp_all
    show ?thesis unfolding divrem_carry_ext_def Let_def cl e kn z
      by (rule carry_col_complete [OF high _ refl c256(2) that]) (simp only: of_nat_add high_sum_fels [OF _ c(2) q(2)])
  qed
  have bt: "?bs ! (n - 1) < 2 ^ 8" "?cs ! (n - 1) < 2 ^ 8" using limbs_okD [OF b(1), of "n - 1"] limbs_okD [OF c(1), of "n - 1"] b(2) c(2) n(1) by simp_all
  have sgr: "sign_range 8 (X < 0) (?bs ! (n - 1)) < 2 ^ 8 \<and> of_nat (sign_range 8 (X < 0) (?bs ! (n - 1))) =
      (of_nat 2 * (of_nat (?bs ! (n - 1)) - from_bool (X < 0) * of_nat (2 ^ (8 - 1))) :: 'f)"
    "sign_range 8 (Y < 0) (?cs ! (n - 1)) < 2 ^ 8 \<and> of_nat (sign_range 8 (Y < 0) (?cs ! (n - 1))) =
      (of_nat 2 * (of_nat (?cs ! (n - 1)) - from_bool (Y < 0) * of_nat (2 ^ (8 - 1))) :: 'f)" if ?sg
    using sign_range_complete(1) [OF bt(1), of "X < 0"] sign_range_complete(2) [OF bt(1), of "X < 0", where 'f = 'f]
      sign_range_complete(1) [OF bt(2), of "Y < 0"] sign_range_complete(2) [OF bt(2), of "Y < 0", where 'f = 'f] sx that by simp_all
  have look: "mset (active (fst (snd (divrem_eval n 8 air cols)))) =
      mset (concat (map (range_tuple_lookup (dr_tuple_bus air)) (tuples @ signs @ lr)) @
        concat (map (bitwise_lookup (dr_bitwise_bus air)) (tuples @ signs @ lr)))"
  proof -
    let ?tb = "dr_tuple_bus air" and ?bb = "dr_bitwise_bus air"
    note rows = mset_tuple_rows(1) [OF q(2) r(2) k l tuples_def, of ?tb] mset_tuple_rows(2) [OF q(2) r(2) k l tuples_def, of ?bb]
    have none: "concat (map (range_tuple_lookup ?tb) (signs @ lr)) = ([] :: 'f interaction list)"
      using sp1 sp0 by (cases sp) (auto simp: signs_def)
    have s1: "active [send_range ?bb (of_nat 2 * (of_nat (?bs ! (n - 1)) - from_bool (X < 0) * of_nat (2 ^ (8 - 1))))
        (of_nat 2 * (of_nat (?cs ! (n - 1)) - from_bool (Y < 0) * of_nat (2 ^ (8 - 1)))) (from_bool ?sg)] =
        (concat (map (bitwise_lookup ?bb) signs) :: 'f interaction list)"
    proof (cases ?sg)
      case True
      show ?thesis unfolding signs_def eqTrueI [OF True] conjunct2 [OF sgr(1) [OF True], symmetric] conjunct2 [OF sgr(2) [OF True], symmetric]
        by (simp add: air_defs)
    next
      case False
      show ?thesis unfolding signs_def eq_False [THEN iffD2, OF False] by (simp add: air_defs)
    qed
    have s2: "active [send_range ?bb (ld - 1) 0 (1 - from_bool sp)] = (concat (map (bitwise_lookup ?bb) lr) :: 'f interaction list)"
    proof (cases sp)
      case True
      then show ?thesis using sp1 by (simp add: air_defs)
    next
      case False
      from sp0 [OF this] obtain d where d: "ld = of_nat d" "lr = [Request_range (d - 1) 0]" "0 < d" by blast
      then show ?thesis using False by (simp add: air_defs of_nat_diff)
    qed
    have cl: "dr_q cols = fels qs" "dr_r cols = fels rs" "dr_b cols ! (n - 1) = of_nat (?bs ! (n - 1))" "dr_c cols ! (n - 1) = of_nat (?cs ! (n - 1))"
      "dr_b_sign cols = from_bool (X < 0)" "dr_c_sign cols = from_bool (Y < 0)" "dr_lt_diff cols = ld"
      using b(2) c(2) n(1) by (simp_all add: cols_def)
    have split: "active (A @ B @ [t, u]) = active (A @ B) @ active [t] @ active [u]" for A B and t u :: "'f interaction" by simp
    show ?thesis unfolding ev fst_conv snd_conv cl split s1 s2 map_append concat_append mset_append rows none [unfolded map_append concat_append]
      using none rows by simp
  qed
  have "list_all (\<lambda>k. k < 2 * n * 2 ^ 8) ks" "list_all (\<lambda>k. k < 2 * n * 2 ^ 8) ls" using kb by simp_all
  then have tb: "qs ! i < 2 ^ 8 \<and> rs ! i < 2 ^ 8 \<and> ks ! i < K \<and> ls ! i < K" if "i < n" for i
    using that q r K kl(2,3) by (auto simp: list_all_length intro: less_le_trans)
  have lrok: "list_all (range_tuple_request_ok [2 ^ 8, K]) lr \<and> list_all (bitwise_request_ok 8) lr"
  proof (cases sp)
    case False
    from sp0 [OF this] obtain d where d: "lr = [Request_range (d - 1) 0]" "0 < d" "d < 256" by blast
    then show ?thesis by simp
  qed (use sp1 in simp)
  have reqs: "list_all (range_tuple_request_ok [2 ^ 8, K]) (tuples @ signs @ lr) \<and> list_all (bitwise_request_ok 8) (tuples @ signs @ lr)"
    using tb lrok sgr by (auto simp: tuples_def signs_def list_all_iff)
  have a: "map (\<lambda>i. from_bool (div_op op) * dr_q cols ! i + (1 - from_bool (div_op op)) * dr_r cols ! i) [0..<n] =
      (fels (to_limbs 8 n (divrem_spec n 8 op ?bs ?cs)) :: 'f list)"
  proof -
    have "to_limbs 8 n (divrem_spec n 8 op ?bs ?cs) = (if div_op op then qs else rs)"
      by (simp add: divrem_spec_def qs_def rs_def X_def Y_def Let_def)
    then show ?thesis using q(2) r(2) by (cases "div_op op") (auto simp: cols_def intro!: nth_equalityI)
  qed
  have "expected_opcode [opcode_div_flag cols, opcode_divu_flag cols, opcode_rem_flag cols, opcode_remu_flag cols] divrem_opcodes =
      (of_nat (repr_of divrem_opcodes op) :: 'f)"
    by (cases op) (simp_all add: cols_def expected_opcode_def upt_rec)
  then have ctx: "core_ctx (divrem_eval n 8 air cols) = divrem_ctx n 8 (dr_offset air) op ?bs ?cs"
    unfolding ev divrem_ctx_def using a by (simp add: cols_def)
  show ?thesis using fill sat look reqs ctx q(2) r(2) p(2)
    by (intro exI [of _ cols] exI [of _ "tuples @ signs @ lr"]) (simp add: cols_def)
qed

section \<open>The chip of the RV32 extension\<close>

text \<open>The natural numbers with the operations of \<open>BigUint\<close>.\<close>

fun u32_digits :: "nat \<Rightarrow> nat list" where
  "u32_digits x = (if x = 0 then [] else x mod 2 ^ 32 # u32_digits (x div 2 ^ 32))"

declare u32_digits.simps [simp del]

definition nat_biguint :: "nat biguint" where
  "nat_biguint = \<lparr>big_new = limbs_val 32, big_from = id, big_add = (+), big_mul = (*), big_div = (div), big_rem = (mod),
     iter_u32_digits = u32_digits\<rparr>"

lemma u32_digits_val: "limbs_ok 32 (u32_digits x) \<and> limbs_val 32 (u32_digits x) = x"
proof (induction x rule: u32_digits.induct)
  case (1 x)
  show ?case
  proof (cases "x = 0")
    case False
    have "x mod 2 ^ 32 + 2 ^ 32 * (x div 2 ^ 32) = x" by simp
    then show ?thesis using 1 [OF False] False by (subst (1 2) u32_digits.simps) simp
  qed (simp add: u32_digits.simps)
qed

lemma nat_biguint_laws: "biguint_laws nat_biguint id"
  using u32_digits_val by (simp add: biguint_laws_def nat_biguint_def)

definition rv32_divrem_air :: "nat \<Rightarrow> divrem_air" where
  "rv32_divrem_air b = \<lparr>dr_bitwise_bus = b + 6, dr_tuple_bus = rv32_tuple_bus b, dr_offset = divrem_offset\<rparr>"

lemma rv32_divrem_air_simps [simp]:
  "rv32m_tables b (dr_bitwise_bus (rv32_divrem_air b)) = (bitwise_table 8 :: 'f::field list \<Rightarrow> bool)"
  "rv32m_tables b (rt_index (dr_tuple_bus (rv32_divrem_air b))) = (range_tuple_table [256, 2048] :: 'f list \<Rightarrow> bool)"
  "dr_offset (rv32_divrem_air b) = divrem_offset"
  by (simp_all add: rv32m_tables_def rv32_divrem_air_def rv32_tuple_bus_def)

definition divrem_row_wf :: "nat \<Rightarrow> nat \<Rightarrow> 'f::field divrem_cols \<Rightarrow> bool" where
  "divrem_row_wf n lb cols \<longleftrightarrow> length (dr_q cols) = n \<and> length (dr_r cols) = n \<and> length (dr_r_prime cols) = n \<and>
     (\<exists>bs cs. dr_b cols = fels bs \<and> dr_c cols = fels cs \<and>
       limbs_ok lb bs \<and> limbs_ok lb cs \<and> length bs = n \<and> length cs = n)"

text \<open>An accepted row from the filler, at the parameters of the extension.\<close>

lemma rv32_divrem_complete:
  assumes "biguint_laws Z v" "two_operands_ok 4 8 (op, bs, cs)"
  obtains cols :: "bb divrem_cols" and reqs where
    "divrem_fill_core Z 4 8 op \<lparr>drr_b = bs, drr_c = cs, drr_local_opcode = repr_of divrem_opcodes op\<rparr> = Some (cols, reqs)"
    "accepts (rv32m_tables b) (divrem_eval 4 8 (rv32_divrem_air b) cols)"
    "core_ctx (divrem_eval 4 8 (rv32_divrem_air b) cols) = divrem_ctx 4 8 divrem_offset op bs cs"
    "dr_b cols = fels bs" "dr_c cols = fels cs" "length (dr_q cols) = 4" "length (dr_r cols) = 4" "length (dr_r_prime cols) = 4"
proof -
  let ?air = "rv32_divrem_air b" and ?r = "\<lparr>drr_b = bs, drr_c = cs, drr_local_opcode = repr_of divrem_opcodes op\<rparr>"
  obtain cols :: "bb divrem_cols" and reqs where f: "divrem_fill_core Z 4 8 op ?r = Some (cols, reqs)"
      "all_satisfied (fst (divrem_eval 4 8 ?air cols))"
      "mset (active (fst (snd (divrem_eval 4 8 ?air cols)))) =
        mset (concat (map (range_tuple_lookup (dr_tuple_bus ?air)) reqs) @ concat (map (bitwise_lookup (dr_bitwise_bus ?air)) reqs))"
      "list_all (range_tuple_request_ok [2 ^ 8, 2048]) reqs" "list_all (bitwise_request_ok 8) reqs"
      "core_ctx (divrem_eval 4 8 ?air cols) = divrem_ctx 4 8 (dr_offset ?air) op bs cs"
      "dr_b cols = fels bs" "dr_c cols = fels cs" "length (dr_q cols) = 4" "length (dr_r cols) = 4" "length (dr_r_prime cols) = 4"
    using divrem_fill_complete [OF assms(1), of ?r 4 2048 op ?air, where 'f = bb] assms(2)
    by (auto simp: two_operands_ok_def bb_CHAR)
  have "lookups_ok (rv32m_tables b) (concat (map (range_tuple_lookup (dr_tuple_bus ?air)) reqs) @
      concat (map (bitwise_lookup (dr_bitwise_bus ?air)) reqs) :: bb interaction list)"
    unfolding lookups_ok_simps
    using lookups_ok_bitwise [of 8 reqs "rv32m_tables b" "dr_bitwise_bus ?air"]
      lookups_ok_range_tuple [of "[256, 2048]" reqs "rv32m_tables b" "dr_tuple_bus ?air"] f(4,5)
    by (intro conjI) simp_all
  then have "lookups_ok (rv32m_tables b) (fst (snd (divrem_eval 4 8 ?air cols)))"
    using lookups_ok_mset [OF f(3)] lookups_ok_active by blast
  then show ?thesis using that [OF f(1) _ _ f(7-11)] f(2,6) by (simp add: accepts_def)
qed

lemma divrem_ctx_functional:
  assumes "two_operands_ok n lb (op, bs, cs)" "two_operands_ok n lb (op', bs', cs')"
    and lb: "2 ^ lb < CHAR('f::field)" and off: "off + 4 \<le> CHAR('f)"
    and eq: "reads (divrem_ctx n lb off op bs cs :: ('f, _) adapter_air_context) = reads (divrem_ctx n lb off op' bs' cs')"
      "instruction (divrem_ctx n lb off op bs cs :: ('f, _) adapter_air_context) = instruction (divrem_ctx n lb off op' bs' cs')"
  shows "op = op' \<and> bs = bs' \<and> cs = cs'"
proof -
  have "(fels bs :: 'f list) = fels bs'" "(fels cs :: 'f list) = fels cs'"
    using eq(1) by (simp_all add: divrem_ctx_def)
  moreover have "op = op'"
    by (rule opcode_inject [where off = off and vs = divrem_opcodes and 'f = 'f])
      (use eq(2) off in \<open>simp_all add: divrem_ctx_def\<close>)
  ultimately show ?thesis
    using fels_inject_limbs [OF _ _ lb] assms(1,2) by (auto simp: two_operands_ok_def)
qed

interpretation rv32_divrem: core_chip "rv32m_tables b" "divrem_eval 4 8 (rv32_divrem_air b)"
  "divrem_row_wf 4 8 :: bb divrem_cols \<Rightarrow> bool" "two_operands_ok 4 8"
  "\<lambda>(op, bs, cs). divrem_ctx 4 8 divrem_offset op bs cs"
  "\<lambda>(op, bs, cs). fst (the (divrem_fill_core nat_biguint 4 8 op
     \<lparr>drr_b = bs, drr_c = cs, drr_local_opcode = repr_of divrem_opcodes op\<rparr>))"
  for b
proof (unfold_locales, goal_cases)
  case (1 cols)
  then obtain bs cs where r: "dr_b cols = fels bs" "dr_c cols = fels cs" "limbs_ok 8 bs" "limbs_ok 8 cs" "length bs = 4" "length cs = 4"
      "length (dr_q cols) = 4" "length (dr_r cols) = 4" "length (dr_r_prime cols) = 4"
    by (auto simp: divrem_row_wf_def)
  obtain op where "core_ctx (divrem_eval 4 8 (rv32_divrem_air b) cols) = divrem_ctx 4 8 divrem_offset op bs cs"
    using divrem_eval_sound [OF 1(2) _ _ 1(3) r(1,3,5) r(2,4,6) r(7-9), of 2048] by (auto simp: bb_CHAR)
  with r show ?case by (intro exI [of _ "(op, bs, cs)"]) (simp add: two_operands_ok_def)
next
  case (2 x)
  obtain op bs cs where x: "x = (op, bs, cs)" by (cases x) auto
  show ?case unfolding x prod.case using rv32_divrem_complete [OF nat_biguint_laws 2 [unfolded x], of b] by fastforce
next
  case (3 x y)
  then show ?case
    using divrem_ctx_functional [where n = 4 and lb = 8 and 'f = bb and off = divrem_offset]
    by (fastforce simp: bb_CHAR divrem_offset_def split: prod.splits)
qed

section \<open>Properties\<close>

text \<open>
  C23. An accepted valid row of the DIV/DIVU/REM/REMU chip writes the quotient or the remainder of
  its operands, signed or unsigned according to the opcode, rounded towards zero, with the results
  RISC-V prescribes for a zero divisor and for signed overflow.
\<close>

theorem divrem_air_sound:
  fixes cols :: "'f::field divrem_cols"
  assumes "accepts T (divrem_eval n lb air cols)"
    and "\<And>k. T (dr_bitwise_bus air) k \<Longrightarrow> bitwise_table lb k"
    and "\<And>k. T (rt_index (dr_tuple_bus air)) k \<Longrightarrow> range_tuple_table [2 ^ lb, K] k"
    and "is_valid (instruction (core_ctx (divrem_eval n lb air cols))) = 1"
    and "dr_b cols = fels bs" "limbs_ok lb bs" "length bs = n"
    and "dr_c cols = fels cs" "limbs_ok lb cs" "length cs = n"
    and "length (dr_q cols) = n" "length (dr_r cols) = n" "length (dr_r_prime cols) = n"
    and "2 * n * (2 ^ lb * 2 ^ lb) + K < CHAR('f)" "2 ^ lb * (K + 1) < CHAR('f)" "2 < K" "0 < n" "2 \<le> lb"
  shows "\<exists>op. let sg = (op = DIV \<or> op = REM); x = sval lb sg bs; y = sval lb sg cs;
      q = (if y = 0 then - 1 else x sdiv y); r = (if y = 0 then x else x smod y);
      a = (if op = DIV \<or> op = DIVU then q else r)
    in core_ctx (divrem_eval n lb air cols) =
    \<lparr>to_pc = None, reads = [fels bs, fels cs], writes = [fels (to_limbs lb n (nat (a mod 2 ^ (lb * n))))],
     instruction = \<lparr>is_valid = 1, opcode = of_nat (dr_offset air + repr_of divrem_opcodes op)\<rparr>\<rparr>"
  using divrem_eval_sound [OF assms] unfolding divrem_ctx_def divrem_spec_def quot_spec_def rem_spec_def Let_def .

theorem divrem_air_sound_witness:
  "\<exists>cols reqs. divrem_fill_core nat_biguint 4 8 DIV \<lparr>drr_b = [249, 255, 255, 255], drr_c = [2, 0, 0, 0], drr_local_opcode = 0\<rparr> = Some (cols, reqs) \<and>
   (\<exists>op. opcode (instruction (core_ctx (divrem_eval 4 8 (rv32_divrem_air 0) cols))) = (of_nat (divrem_offset + repr_of divrem_opcodes op) :: bb))"
proof -
  have ok: "two_operands_ok 4 8 (DIV, [249, 255, 255, 255], [2, 0, 0, 0])" by (simp add: two_operands_ok_def)
  obtain cols :: "bb divrem_cols" and reqs where f:
      "divrem_fill_core nat_biguint 4 8 DIV \<lparr>drr_b = [249, 255, 255, 255], drr_c = [2, 0, 0, 0], drr_local_opcode = repr_of divrem_opcodes DIV\<rparr> = Some (cols, reqs)"
      "accepts (rv32m_tables 0) (divrem_eval 4 8 (rv32_divrem_air 0) cols)"
      "core_ctx (divrem_eval 4 8 (rv32_divrem_air 0) cols) = divrem_ctx 4 8 divrem_offset DIV [249, 255, 255, 255] [2, 0, 0, 0]"
      "dr_b cols = fels [249, 255, 255, 255]" "dr_c cols = fels [2, 0, 0, 0]" "length (dr_q cols) = 4" "length (dr_r cols) = 4" "length (dr_r_prime cols) = 4"
    by (rule rv32_divrem_complete [OF nat_biguint_laws ok])
  have v: "is_valid (instruction (core_ctx (divrem_eval 4 8 (rv32_divrem_air 0) cols))) = 1" by (simp add: f(3) divrem_ctx_def)
  have "\<exists>op. let sg = (op = DIV \<or> op = REM); x = sval 8 sg [249, 255, 255, 255]; y = sval 8 sg [2, 0, 0, 0];
      q = (if y = 0 then - 1 else x sdiv y); r = (if y = 0 then x else x smod y);
      a = (if op = DIV \<or> op = DIVU then q else r)
    in core_ctx (divrem_eval 4 8 (rv32_divrem_air 0) cols) =
    \<lparr>to_pc = None, reads = [fels [249, 255, 255, 255], fels [2, 0, 0, 0]], writes = [fels (to_limbs 8 4 (nat (a mod 2 ^ (8 * 4))))],
     instruction = \<lparr>is_valid = 1, opcode = of_nat (dr_offset (rv32_divrem_air 0) + repr_of divrem_opcodes op)\<rparr>\<rparr>"
    by (rule divrem_air_sound [OF f(2) _ _ v f(4) _ _ f(5) _ _ f(6-8), of 2048]) (simp_all add: bb_CHAR)
  then show ?thesis using f(1) by (auto simp: Let_def)
qed

text \<open>
  C24. On every pair of operands the filler of the DIV/DIVU/REM/REMU chip succeeds: its internal
  assertions hold, the row it writes satisfies every constraint, its active lookups are, up to
  their order, exactly the requests it made, each of which the lookup chips serve, and the row
  writes what \<open>run_divrem\<close>, which the executor calls, returns.
\<close>

theorem divrem_filled_row:
  fixes rec :: divrem_record
  assumes "biguint_laws Z v" and "limbs_ok 8 (drr_b rec)" "length (drr_b rec) = n" "limbs_ok 8 (drr_c rec)" "length (drr_c rec) = n"
    and "0 < n" "2 * n * (2 ^ 8 * 2 ^ 8) < 2 ^ 32" "2 * n * 2 ^ 8 \<le> K" "n * 2 ^ 8 < CHAR('f::field)"
  shows "\<exists>(cols :: 'f divrem_cols) reqs. divrem_fill_core Z n 8 op rec = Some (cols, reqs) \<and>
    (let (as, is, ctx) = divrem_eval n 8 air cols;
         (q, r, _) = run_divrem Z n 8 (op = DIV \<or> op = REM) (drr_b rec) (drr_c rec)
     in all_satisfied as \<and> is_valid (instruction ctx) = 1 \<and>
        mset (active is) = mset (concat (map (range_tuple_lookup (dr_tuple_bus air)) reqs) @
          concat (map (bitwise_lookup (dr_bitwise_bus air)) reqs)) \<and>
        list_all (range_tuple_request_ok [2 ^ 8, K]) reqs \<and> list_all (bitwise_request_ok 8) reqs \<and>
        writes ctx = [fels (if op = DIV \<or> op = DIVU then q else r)])"
proof -
  obtain cols :: "'f divrem_cols" and reqs where f: "divrem_fill_core Z n 8 op rec = Some (cols, reqs)"
      "all_satisfied (fst (divrem_eval n 8 air cols))"
      "mset (active (fst (snd (divrem_eval n 8 air cols)))) =
        mset (concat (map (range_tuple_lookup (dr_tuple_bus air)) reqs) @ concat (map (bitwise_lookup (dr_bitwise_bus air)) reqs))"
      "list_all (range_tuple_request_ok [2 ^ 8, K]) reqs" "list_all (bitwise_request_ok 8) reqs"
      "core_ctx (divrem_eval n 8 air cols) = divrem_ctx n 8 (dr_offset air) op (drr_b rec) (drr_c rec)"
    using divrem_fill_complete [OF assms, of op air] by auto
  obtain as "is" ctx where e: "divrem_eval n 8 air cols = (as, is, ctx)" by (metis prod.exhaust)
  have ctx: "ctx = divrem_ctx n 8 (dr_offset air) op (drr_b rec) (drr_c rec)" using f(6) by (simp add: e)
  have "fst (run_divrem Z n 8 (signed_op op) (drr_b rec) (drr_c rec)) = to_limbs 8 n (nat (quot_spec (sval 8 (signed_op op) (drr_b rec)) (sval 8 (signed_op op) (drr_c rec)) mod 2 ^ (8 * n)))"
      "fst (snd (run_divrem Z n 8 (signed_op op) (drr_b rec) (drr_c rec))) = to_limbs 8 n (nat (rem_spec (sval 8 (signed_op op) (drr_b rec)) (sval 8 (signed_op op) (drr_c rec)) mod 2 ^ (8 * n)))"
    using run_divrem_result [OF assms(1-6), of "signed_op op"] by simp_all
  then have "writes ctx = [fels (if div_op op then fst (run_divrem Z n 8 (signed_op op) (drr_b rec) (drr_c rec))
      else fst (snd (run_divrem Z n 8 (signed_op op) (drr_b rec) (drr_c rec))))]"
    unfolding ctx divrem_ctx_def divrem_spec_def Let_def by (cases op) simp_all
  moreover have "is_valid (instruction ctx) = 1" by (simp add: ctx divrem_ctx_def)
  ultimately show ?thesis using f(1-5) by (intro exI [of _ cols] exI [of _ reqs]) (simp add: e split_beta)
qed

theorem divrem_filled_row_witness:
  "\<exists>(cols :: bb divrem_cols) reqs. divrem_fill_core nat_biguint 4 8 REM
     \<lparr>drr_b = [0, 0, 0, 128], drr_c = [255, 255, 255, 255], drr_local_opcode = 2\<rparr> = Some (cols, reqs)"
  using divrem_filled_row [OF nat_biguint_laws, of "\<lparr>drr_b = [0, 0, 0, 128], drr_c = [255, 255, 255, 255], drr_local_opcode = 2\<rparr>" 4 2048 REM "rv32_divrem_air 0", where 'f = bb]
  by (fastforce simp: bb_CHAR)

end
