(* ===== verification/Rust_Std.thy ===== *)
theory Rust_Std
  imports Prelude "HOL-Library.Product_Lexorder"
begin

text \<open>
  What the transpiler, the guest memory and the interpreter use of Rust's standard library:
  \<open>to_le_bytes\<close> and \<open>from_le_bytes\<close> of the integer types (machine integers are words here,
  \<open>u32\<close> is \<open>32 word\<close>) and \<open>BTreeMap\<close>, an association list in the order of its keys.
\<close>

section \<open>Little-endian bytes\<close>

type_synonym u8 = "8 word"
type_synonym u32 = "32 word"

definition from_le_bytes :: "u8 list \<Rightarrow> 'a::len word" where
  "from_le_bytes bs = word_of_nat (limbs_val 8 (map unat bs))"

definition to_le_bytes :: "'a::len word \<Rightarrow> u8 list" where
  "to_le_bytes w = map word_of_nat (to_limbs 8 (LENGTH('a) div 8) (unat w))"

lemma length_to_le_bytes [simp]: "length (to_le_bytes (w :: 'a::len word)) = LENGTH('a) div 8"
  by (simp add: to_le_bytes_def)

lemma limbs_ok_map_unat [simp]: "limbs_ok 8 (map unat (bs :: u8 list))"
proof -
  have "unat b < 2 ^ 8" for b :: u8 using unsigned_less [of b] by simp
  then show ?thesis by (simp add: list_all_iff)
qed

lemma map_unat_of_nat:
  assumes "limbs_ok 8 xs"
  shows "map unat (map word_of_nat xs :: u8 list) = xs"
  using assms by (induction xs) (simp_all add: unsigned_of_nat take_bit_nat_eq_self)

lemma unat_from_le_bytes:
  "8 * length bs \<le> LENGTH('a) \<Longrightarrow> unat (from_le_bytes bs :: 'a::len word) = limbs_val 8 (map unat bs)"
proof -
  assume le: "8 * length bs \<le> LENGTH('a)"
  have "limbs_val 8 (map unat bs) < 2 ^ (8 * length bs)"
    using limbs_val_bound [OF limbs_ok_map_unat, of bs] by simp
  also have "\<dots> \<le> 2 ^ LENGTH('a)" using le by (intro power_increasing) auto
  finally show ?thesis by (simp add: from_le_bytes_def unsigned_of_nat take_bit_nat_eq_self)
qed

lemma to_from_le_bytes:
  assumes "8 * length bs = LENGTH('a::len)"
  shows "to_le_bytes (from_le_bytes bs :: 'a word) = bs"
proof -
  have n: "LENGTH('a) div 8 = length (map unat bs)" unfolding assms [symmetric] by simp
  have "to_limbs 8 (length (map unat bs)) (limbs_val 8 (map unat bs)) = map unat bs"
    by (rule to_limbs_val) (rule limbs_ok_map_unat)
  moreover have "unat (from_le_bytes bs :: 'a word) = limbs_val 8 (map unat bs)"
    by (rule unat_from_le_bytes) (simp add: assms)
  ultimately show ?thesis unfolding to_le_bytes_def n by (simp add: o_def)
qed

lemma from_to_le_bytes:
  assumes "8 dvd LENGTH('a::len)"
  shows "from_le_bytes (to_le_bytes w) = (w :: 'a word)"
proof -
  have "limbs_val 8 (map unat (to_le_bytes w)) = unat w mod 2 ^ (8 * (LENGTH('a) div 8))"
    unfolding to_le_bytes_def map_unat_of_nat [OF limbs_ok_to_limbs] by (rule limbs_val_to_limbs)
  also have "\<dots> = unat w" using assms unsigned_less [of w] by simp
  finally show ?thesis by (simp add: from_le_bytes_def)
qed

lemma le_bytes32 [simp]:
  "length bs = 4 \<Longrightarrow> to_le_bytes (from_le_bytes bs :: u32) = bs"
  "from_le_bytes (to_le_bytes w) = (w :: u32)"
  by (simp_all add: to_from_le_bytes from_to_le_bytes)

lemma from_le_bytes_inject32:
  "length bs = 4 \<Longrightarrow> length cs = 4 \<Longrightarrow> (from_le_bytes bs :: u32) = from_le_bytes cs \<longleftrightarrow> bs = cs"
  by (metis le_bytes32(1))

lemma nth_to_le_bytes:
  "i < LENGTH('a) div 8 \<Longrightarrow> to_le_bytes (w :: 'a::len word) ! i = word_of_nat (unat w div 2 ^ (8 * i))"
  by (simp add: to_le_bytes_def nth_to_limbs word_of_nat_eq_iff take_bit_eq_mod)

section \<open>Ordered maps\<close>

text \<open>
  \<open>BTreeMap\<close> iterates in the order of the keys and replaces the value of a key that is already
  there. Its contract is the locale \<open>ordered_map\<close>: what a lookup returns after an insertion.
\<close>

type_synonym ('k, 'v) btree_map = "('k \<times> 'v) list"

fun bt_insert :: "'k::linorder \<Rightarrow> 'v \<Rightarrow> ('k, 'v) btree_map \<Rightarrow> ('k, 'v) btree_map" where
  "bt_insert k v [] = [(k, v)]"
| "bt_insert k v ((k', v') # m) =
     (if k < k' then (k, v) # (k', v') # m
      else if k = k' then (k, v) # m
      else (k', v') # bt_insert k v m)"

definition bt_ok :: "('k::linorder, 'v) btree_map \<Rightarrow> bool" where
  "bt_ok m \<longleftrightarrow> sorted_wrt (<) (map fst m)"

lemma set_keys_bt_insert: "fst ` set (bt_insert k v m) = insert k (fst ` set m)"
  by (induction k v m rule: bt_insert.induct) auto

lemma map_of_bt_insert: "bt_ok m \<Longrightarrow> map_of (bt_insert k v m) = (map_of m)(k \<mapsto> v)"
proof (induction k v m rule: bt_insert.induct)
  case (2 k v k' v' m)
  then have ok: "bt_ok m" and lt: "\<And>x. x \<in> fst ` set m \<Longrightarrow> k' < x" by (auto simp: bt_ok_def)
  show ?case using 2 ok by (auto simp: fun_eq_iff)
qed simp

lemma bt_ok_insert: "bt_ok m \<Longrightarrow> bt_ok (bt_insert k v m)"
proof (induction k v m rule: bt_insert.induct)
  case (2 k v k' v' m)
  have "\<forall>x\<in>fst ` set (bt_insert k v m). k' < x" if "k' < k"
    using 2(2) that unfolding set_keys_bt_insert by (auto simp: bt_ok_def)
  then show ?case using 2 by (auto simp: bt_ok_def)
qed (simp add: bt_ok_def)

locale ordered_map =
  fixes insrt :: "'k \<Rightarrow> 'v \<Rightarrow> 'm \<Rightarrow> 'm" and lookup :: "'m \<Rightarrow> 'k \<Rightarrow> 'v option" and invar :: "'m \<Rightarrow> bool"
  assumes lookup_insert: "invar m \<Longrightarrow> lookup (insrt k v m) = (lookup m)(k \<mapsto> v)"
    and invar_insert: "invar m \<Longrightarrow> invar (insrt k v m)"
begin

lemma invar_fold: "invar m \<Longrightarrow> invar (fold (\<lambda>(k, v). insrt k v) kvs m)"
  by (induction kvs arbitrary: m) (auto simp: invar_insert)

lemma lookup_fold:
  "invar m \<Longrightarrow> lookup (fold (\<lambda>(k, v). insrt k v) kvs m) = lookup m ++ map_of (rev kvs)"
proof (induction kvs arbitrary: m)
  case (Cons kv kvs)
  then show ?case by (cases kv) (auto simp: invar_insert lookup_insert map_add_def fun_eq_iff
      split: option.splits)
qed simp

end

interpretation btree: ordered_map bt_insert map_of bt_ok
  by unfold_locales (simp_all add: map_of_bt_insert bt_ok_insert)

end
