(* ===== verification/Transpiler.thy ===== *)
theory Transpiler
  imports Rv32_Opcodes Rust_Std
begin

text \<open>
  The transpiler of \<open>crates/toolchain/transpiler/src\<close>: \<open>Transpiler::transpile\<close> runs the
  registered extensions over the 32-bit words of an ELF, \<open>from_elf\<close> builds the executable. The
  extensions are arguments: a record with the two methods of the trait \<open>TranspilerExtension\<close>.
  \<open>process_custom\<close> returns \<open>None\<close> when it panics and \<open>Some None\<close> when it does not claim the word.
\<close>

section \<open>Instructions and programs\<close>

definition TERMINATE_OPCODE :: nat where "TERMINATE_OPCODE = 0"
definition PHANTOM_OPCODE :: nat where "PHANTOM_OPCODE = 1"

definition default_instr :: "'f::field instr" where
  "default_instr = \<lparr>i_opcode = 0, i_a = 0, i_b = 0, i_c = 0, i_d = 0, i_e = 0, i_f = 0, i_g = 0\<rparr>"

definition isize_to_field :: "int \<Rightarrow> 'f::field" where
  "isize_to_field v = (if v < 0 then - 1 * of_nat (nat \<bar>v\<bar>) else of_nat (nat v))"

definition instr_from_isize :: "nat \<Rightarrow> int \<Rightarrow> int \<Rightarrow> int \<Rightarrow> int \<Rightarrow> int \<Rightarrow> 'f::field instr" where
  "instr_from_isize opc a b c d e =
     \<lparr>i_opcode = opc, i_a = isize_to_field a, i_b = isize_to_field b, i_c = isize_to_field c,
      i_d = isize_to_field d, i_e = isize_to_field e, i_f = isize_to_field 0,
      i_g = isize_to_field 0\<rparr>"

definition instr_large_from_isize ::
  "nat \<Rightarrow> int \<Rightarrow> int \<Rightarrow> int \<Rightarrow> int \<Rightarrow> int \<Rightarrow> int \<Rightarrow> int \<Rightarrow> 'f::field instr" where
  "instr_large_from_isize opc a b c d e f g =
     \<lparr>i_opcode = opc, i_a = isize_to_field a, i_b = isize_to_field b, i_c = isize_to_field c,
      i_d = isize_to_field d, i_e = isize_to_field e, i_f = isize_to_field f,
      i_g = isize_to_field g\<rparr>"

definition instr_phantom :: "nat \<Rightarrow> 'f \<Rightarrow> 'f \<Rightarrow> nat \<Rightarrow> 'f::field instr" where
  "instr_phantom discriminant a b c_upper =
     default_instr\<lparr>i_opcode := PHANTOM_OPCODE, i_a := a, i_b := b,
       i_c := of_nat (discriminant OR wshl 32 c_upper 16)\<rparr>"

lemma isize_to_field_eq: "isize_to_field v = (of_int v :: 'f::field)"
  by (simp add: isize_to_field_def of_nat_nat)

text \<open>
  \<open>Program\<close>, without the debug information: the transpiler does not make any and the interpreter
  does not read it. Only the serialisation below, which drops it, is about entries that have it.
\<close>

record 'f program =
  p_instructions :: "'f instr option list"
  p_pc_base :: u32

definition new_without_debug_infos_with_option :: "'f instr option list \<Rightarrow> u32 \<Rightarrow> 'f program" where
  "new_without_debug_infos_with_option instructions pc_base =
     \<lparr>p_instructions = instructions, p_pc_base = pc_base\<rparr>"

definition get_instruction :: "'f program \<Rightarrow> nat \<Rightarrow> 'f instr option" where
  "get_instruction p index =
     (if index < length (p_instructions p) then p_instructions p ! index else None)"

text \<open>
  The entries of \<open>instructions_and_debug_infos\<close>: an instruction and an optional debug info, or a gap.
  The serialised form keeps the defined instructions with their indices and the total length;
  deserialising sets every debug info to \<open>None\<close>, and an index that is not below the length
  panics.
\<close>

definition serialize_instructions :: "('i \<times> 'd option) option list \<Rightarrow> ('i \<times> nat) list \<times> nat" where
  "serialize_instructions data =
     (List.map_filter (\<lambda>(i, o'). map_option (\<lambda>x. (fst x, wrap 32 i)) o') (enumerate 0 data),
      wrap 32 (length data))"

fun place_instructions ::
  "('i \<times> nat) list \<Rightarrow> ('i \<times> 'd option) option list \<Rightarrow> ('i \<times> 'd option) option list option" where
  "place_instructions [] ret = Some ret"
| "place_instructions ((inst, i) # rest) ret =
     (if i < length ret then place_instructions rest (ret[i := Some (inst, None)]) else None)"

definition deserialize_instructions :: "('i \<times> nat) list \<times> nat \<Rightarrow> ('i \<times> 'd option) option list option" where
  "deserialize_instructions d =
     (case d of (inst_data, total_len) \<Rightarrow> place_instructions inst_data (replicate total_len None))"

type_synonym sparse_memory_image = "(nat \<times> u32, u8) btree_map"

record ('f, 'b) vm_exe =
  exe_program :: "'f program"
  exe_pc_start :: u32
  exe_init_memory :: sparse_memory_image
  exe_fn_bounds :: 'b

section \<open>Extensions\<close>

record 'f transpiler_output =
  out_instructions :: "'f instr option list"
  used_u32s :: nat

definition one_to_one :: "'f instr \<Rightarrow> 'f transpiler_output" where
  "one_to_one i = \<lparr>out_instructions = [Some i], used_u32s = 1\<rparr>"

definition many_to_one :: "'f instr \<Rightarrow> nat \<Rightarrow> 'f transpiler_output" where
  "many_to_one i used = \<lparr>out_instructions = [Some i], used_u32s = used\<rparr>"

definition gap :: "nat \<Rightarrow> nat \<Rightarrow> 'f transpiler_output" where
  "gap gap_length used = \<lparr>out_instructions = map (\<lambda>_. None) [0..<gap_length], used_u32s = used\<rparr>"

text \<open>\<open>modify_initial_memory\<close> returns an \<open>eyre\<close> report on failure, a parameter type here.\<close>

record ('f, 'e) transpiler_extension =
  process_custom :: "u32 list \<Rightarrow> 'f transpiler_output option option"
  ext_modify_memory :: "sparse_memory_image \<Rightarrow> 'e + sparse_memory_image"

datatype 'e transpiler_error =
    TranspilerPanic
  | AmbiguousNextInstruction
  | ParseError u32
  | ModifyInitialMemoryFailed nat 'e

section \<open>The transpiler\<close>

type_synonym ('f, 'e) transpiler = "('f, 'e) transpiler_extension list"

definition new_transpiler :: "('f, 'e) transpiler" where
  "new_transpiler = []"

definition with_processor :: "('f, 'e) transpiler \<Rightarrow> ('f, 'e) transpiler_extension \<Rightarrow> ('f, 'e) transpiler" where
  "with_processor t p = t @ [p]"

text \<open>
  One turn of the loop: the outputs the processors offer for the rest of the words. A processor
  that panics ends the process.
\<close>

definition next_output ::
  "('f, 'e) transpiler \<Rightarrow> u32 list \<Rightarrow> nat \<Rightarrow> 'e transpiler_error + 'f transpiler_output" where
  "next_output t ws ptr =
     (let opts = map (\<lambda>p. process_custom p (drop ptr ws)) t in
      if None \<in> set opts then Inl TranspilerPanic
      else let options = filter (\<lambda>opt. opt \<noteq> None) (map the opts) in
        if options = [] then Inl (ParseError (ws ! ptr))
        else if length options > 1 then Inl AmbiguousNextInstruction
        else Inr (the (last options)))"

text \<open>
  The loop need not end: a processor may use no word. \<open>None\<close> is a loop that does not return.
\<close>

partial_function (option) transpile_loop ::
  "('f, 'e) transpiler \<Rightarrow> u32 list \<Rightarrow> nat \<Rightarrow> 'f instr option list
    \<Rightarrow> ('e transpiler_error + 'f instr option list) option" where
  "transpile_loop t ws ptr instructions =
     (if ptr < length ws then
        (case next_output t ws ptr of
           Inl err \<Rightarrow> Some (Inl err)
         | Inr out \<Rightarrow>
             transpile_loop t ws (wadd 64 ptr (used_u32s out))
               (instructions @ out_instructions out))
      else Some (Inr instructions))"

definition transpile ::
  "('f, 'e) transpiler \<Rightarrow> u32 list \<Rightarrow> ('e transpiler_error + 'f instr option list) option" where
  "transpile t ws = transpile_loop t ws 0 []"

fun modify_memory_loop ::
  "nat \<Rightarrow> ('f, 'e) transpiler \<Rightarrow> sparse_memory_image \<Rightarrow> 'e transpiler_error + sparse_memory_image" where
  "modify_memory_loop i [] m = Inr m"
| "modify_memory_loop i (p # ps) m =
     (case ext_modify_memory p m of
        Inl e \<Rightarrow> Inl (ModifyInitialMemoryFailed i e)
      | Inr m' \<Rightarrow> modify_memory_loop (Suc i) ps m')"

definition modify_initial_memory ::
  "('f, 'e) transpiler \<Rightarrow> sparse_memory_image \<Rightarrow> 'e transpiler_error + sparse_memory_image" where
  "modify_initial_memory t m = modify_memory_loop 0 t m"

section \<open>Executables from ELF files\<close>

definition elf_memory_image_to_openvm_memory_image :: "(u32, u32) btree_map \<Rightarrow> sparse_memory_image" where
  "elf_memory_image_to_openvm_memory_image memory_image =
     fold (\<lambda>(addr, word) result.
         fold (\<lambda>(i, byte) result. bt_insert (RV32_MEMORY_AS, addr + word_of_nat i) byte result)
           (enumerate 0 (to_le_bytes word)) result)
       memory_image []"

record 'b elf =
  elf_instructions :: "u32 list"
  elf_pc_start :: u32
  elf_pc_base :: u32
  elf_memory_image :: "(u32, u32) btree_map"
  elf_fn_bounds :: 'b

definition from_elf ::
  "'b elf \<Rightarrow> ('f, 'e) transpiler \<Rightarrow> ('e transpiler_error + ('f, 'b) vm_exe) option" where
  "from_elf elf t =
     (case transpile t (elf_instructions elf) of
        None \<Rightarrow> None
      | Some (Inl err) \<Rightarrow> Some (Inl err)
      | Some (Inr instructions) \<Rightarrow>
          (case modify_initial_memory t
                  (elf_memory_image_to_openvm_memory_image (elf_memory_image elf)) of
             Inl err \<Rightarrow> Some (Inl err)
           | Inr init_memory \<Rightarrow>
               Some (Inr \<lparr>exe_program =
                   new_without_debug_infos_with_option instructions (elf_pc_base elf),
                 exe_pc_start = elf_pc_start elf, exe_init_memory = init_memory,
                 exe_fn_bounds = elf_fn_bounds elf\<rparr>)))"

section \<open>The loop\<close>

text \<open>
  A processor makes progress when each of its outputs uses at least one word and less than half
  of the address space, so that the pointer grows and does not wrap around.
\<close>

definition progress :: "('f, 'e) transpiler_extension \<Rightarrow> bool" where
  "progress p \<longleftrightarrow>
     (\<forall>s out. process_custom p s = Some (Some out) \<longrightarrow> 0 < used_u32s out \<and> used_u32s out < 2 ^ 63)"

lemma next_output_Inr:
  assumes "next_output t ws ptr = Inr out"
  obtains p where "p \<in> set t" "process_custom p (drop ptr ws) = Some (Some out)"
proof -
  let ?opts = "map (\<lambda>p. process_custom p (drop ptr ws)) t"
  let ?os = "filter (\<lambda>opt. opt \<noteq> None) (map the ?opts)"
  have ne: "None \<notin> set ?opts" "?os \<noteq> []" and out: "out = the (last ?os)"
    using assms by (auto simp: next_output_def Let_def split: if_splits)
  have mem: "last ?os \<in> set ?os" using ne(2) last_in_set by blast
  then have some: "last ?os = Some out" using out by force
  have "last ?os \<in> the ` set ?opts" using mem by (simp only: set_filter set_map) blast
  then obtain opt where opt: "opt \<in> set ?opts" "the opt = Some out" unfolding some by force
  have "opt \<noteq> None" using ne(1) opt(1) by metis
  then have "opt = Some (Some out)" using opt(2) by (metis option.sel option.exhaust)
  then show ?thesis using opt(1) that by auto
qed

lemma next_output_used:
  assumes "\<forall>p\<in>set t. progress p" and "next_output t ws ptr = Inr out"
  shows "0 < used_u32s out" "used_u32s out < 2 ^ 63"
  using next_output_Inr [OF assms(2)] assms(1) unfolding progress_def by metis+

lemma transpile_loop_returns:
  assumes "\<forall>p\<in>set t. progress p" "length ws < 2 ^ 63" "ptr < 2 ^ 64"
  shows "\<exists>r. transpile_loop t ws ptr acc = Some r"
  using assms(3)
proof (induction "length ws - ptr" arbitrary: ptr acc rule: less_induct)
  case less
  show ?case
  proof (cases "ptr < length ws")
    case False
    then show ?thesis by (simp add: transpile_loop.simps)
  next
    case True
    show ?thesis
    proof (cases "next_output t ws ptr")
      case (Inl e)
      then show ?thesis using True by (simp add: transpile_loop.simps)
    next
      case (Inr out)
      note u = next_output_used [OF assms(1) Inr]
      have "ptr + used_u32s out < 2 ^ 64" using u(2) True assms(2) by simp
      then have w: "wadd 64 ptr (used_u32s out) = ptr + used_u32s out" by (rule wadd_small)
      have "\<exists>r. transpile_loop t ws (ptr + used_u32s out) (acc @ out_instructions out) = Some r"
        by (rule less.hyps) (use True u \<open>ptr + used_u32s out < 2 ^ 64\<close> in auto)
      then show ?thesis using True Inr w by (simp add: transpile_loop.simps)
    qed
  qed
qed

text \<open>Without progress the loop does not return.\<close>

lemma transpile_loop_stuck:
  fixes t :: "('f, 'e) transpiler"
  assumes "transpile_loop t ws ptr acc = Some r"
  shows "length ws < 2 ^ 64 \<longrightarrow> next_output t ws ptr = Inr out \<longrightarrow> used_u32s out = 0 \<longrightarrow> length ws \<le> ptr"
proof (rule transpile_loop.raw_induct [OF _ assms], intro impI)
  fix loop and t :: "('f, 'e) transpiler" and ws ptr acc r
  assume IH: "\<And>(t :: ('f, 'e) transpiler) ws ptr acc r. loop t ws ptr acc = Some r \<Longrightarrow>
      length ws < 2 ^ 64 \<longrightarrow> next_output t ws ptr = Inr out \<longrightarrow> used_u32s out = 0 \<longrightarrow> length ws \<le> ptr"
    and body: "(if ptr < length ws then
        (case next_output t ws ptr of
           Inl err \<Rightarrow> Some (Inl err)
         | Inr out \<Rightarrow> loop t ws (wadd 64 ptr (used_u32s out)) (acc @ out_instructions out))
      else Some (Inr acc)) = Some r"
    and h: "length ws < 2 ^ 64" "next_output t ws ptr = Inr out" "used_u32s out = 0"
  show "length ws \<le> ptr"
  proof (rule ccontr)
    assume lt: "\<not> length ws \<le> ptr"
    then have "loop t ws ptr (acc @ out_instructions out) = Some r"
      using body h by (simp add: wadd_small)
    then show False using IH h lt by blast
  qed
qed

text \<open>
  C25. If every extension uses at least one word (and fewer than \<open>2 ^ 63\<close>) for what it
  transpiles, \<open>transpile\<close> returns on every program: a list of instructions or one of the errors.
\<close>

theorem transpile_terminates:
  assumes "\<forall>p\<in>set t. progress p" "length ws < 2 ^ 63"
  shows "\<exists>r. transpile t ws = Some r"
  unfolding transpile_def by (rule transpile_loop_returns) (use assms in auto)

subsection \<open>Transpilers that take one word at a time\<close>

text \<open>
  When each word is claimed on its own, by at most one extension, the loop is the obvious
  recursion over the words: it stops at the first word that is not translated.
\<close>

fun transpile_words :: "(u32 \<Rightarrow> 'e transpiler_error + 'f instr) \<Rightarrow> u32 list
    \<Rightarrow> 'e transpiler_error + 'f instr option list" where
  "transpile_words tr [] = Inr []"
| "transpile_words tr (w # ws) =
     (case tr w of
        Inl err \<Rightarrow> Inl err
      | Inr i \<Rightarrow> (case transpile_words tr ws of Inl err \<Rightarrow> Inl err | Inr is \<Rightarrow> Inr (Some i # is)))"

lemma transpile_words_Inr:
  "transpile_words tr ws = Inr is \<longleftrightarrow>
     length is = length ws \<and> (\<forall>i<length ws. \<exists>ins. tr (ws ! i) = Inr ins \<and> is ! i = Some ins)"
proof (induction ws arbitrary: "is")
  case (Cons w ws)
  show ?case
  proof (cases "is")
    case Nil
    then show ?thesis by (auto split: sum.splits)
  next
    case (Cons x is')
    have "(\<exists>is''. transpile_words tr ws = Inr is'' \<and> is' = is'') \<longleftrightarrow>
      length is' = length ws \<and> (\<forall>i<length ws. \<exists>ins. tr (ws ! i) = Inr ins \<and> is' ! i = Some ins)"
      using Cons.IH [of is'] by auto
    then show ?thesis unfolding Cons
      by (cases "tr w"; cases "transpile_words tr ws") (auto simp: All_less_Suc2)
  qed
qed auto

lemma transpile_words_Inl:
  "transpile_words tr ws = Inl err \<longleftrightarrow>
     (\<exists>i<length ws. tr (ws ! i) = Inl err \<and> (\<forall>j<i. \<exists>ins. tr (ws ! j) = Inr ins))"
proof (induction ws)
  case (Cons w ws)
  show ?case
  proof (cases "tr w")
    case (Inl e)
    then show ?thesis by (auto simp: Ex_less_Suc2 All_less_Suc2)
  next
    case (Inr a)
    have "(\<exists>i<length (w # ws). tr ((w # ws) ! i) = Inl err \<and> (\<forall>j<i. \<exists>ins. tr ((w # ws) ! j) = Inr ins)) \<longleftrightarrow>
      (\<exists>i<length ws. tr (ws ! i) = Inl err \<and> (\<forall>j<i. \<exists>ins. tr (ws ! j) = Inr ins))"
      using Inr by (simp add: Ex_less_Suc2 All_less_Suc2)
    moreover have "transpile_words tr (w # ws) = Inl err \<longleftrightarrow> transpile_words tr ws = Inl err"
      using Inr by (simp split: sum.splits)
    ultimately show ?thesis using Cons.IH by (simp only:)
  qed
qed simp

locale word_transpiler =
  fixes t :: "('f, 'e) transpiler" and tr :: "u32 \<Rightarrow> 'e transpiler_error + 'f instr"
  assumes next_word: "ptr < length ws \<Longrightarrow> next_output t ws ptr = map_sum id one_to_one (tr (ws ! ptr))"
begin

lemma loop_eq:
  assumes "length ws < 2 ^ 64" "ptr \<le> length ws"
  shows "transpile_loop t ws ptr acc = Some (map_sum id ((@) acc) (transpile_words tr (drop ptr ws)))"
  using assms(2)
proof (induction "length ws - ptr" arbitrary: ptr acc)
  case 0
  then show ?case by (simp add: transpile_loop.simps)
next
  case (Suc n)
  then have lt: "ptr < length ws" by simp
  have w: "wadd 64 ptr (Suc 0) = Suc ptr" using lt assms(1) by (simp add: wadd_small)
  have dr: "drop ptr ws = ws ! ptr # drop (Suc ptr) ws" using lt by (simp add: Cons_nth_drop_Suc)
  have "transpile_loop t ws (Suc ptr) acc' =
      Some (map_sum id ((@) acc') (transpile_words tr (drop (Suc ptr) ws)))" for acc'
    using Suc lt by simp
  then show ?case
    by (subst transpile_loop.simps)
      (auto simp: lt next_word [OF lt] dr one_to_one_def w split: sum.splits)
qed

lemma transpile_eq: "length ws < 2 ^ 64 \<Longrightarrow> transpile t ws = Some (transpile_words tr ws)"
  unfolding transpile_def by (simp add: loop_eq sum.map_ident map_sum_def split: sum.splits)

end

section \<open>The initial memory\<close>

lemma elf_image_as_inserts:
  "elf_memory_image_to_openvm_memory_image m =
     fold (\<lambda>(k, v). bt_insert k v)
       (concat (map (\<lambda>(addr, w). map (\<lambda>(i, b). ((RV32_MEMORY_AS, addr + word_of_nat i), b))
          (enumerate 0 (to_le_bytes w))) m)) []"
proof -
  have "fold (\<lambda>(addr, word) result.
         fold (\<lambda>(i, byte) result. bt_insert (RV32_MEMORY_AS, addr + word_of_nat i) byte result)
           (enumerate 0 (to_le_bytes word)) result) m r =
     fold (\<lambda>(k, v). bt_insert k v)
       (concat (map (\<lambda>(addr, w). map (\<lambda>(i, b). ((RV32_MEMORY_AS, addr + word_of_nat i), b))
          (enumerate 0 (to_le_bytes w))) m)) r" for r
    by (induction m arbitrary: r) (auto simp: fold_map o_def case_prod_unfold)
  then show ?thesis by (simp add: elf_memory_image_to_openvm_memory_image_def)
qed

text \<open>A byte address is a word address and an offset below 4.\<close>

lemma word_align_iff:
  fixes a addr :: u32
  assumes "unat addr mod 4 = 0" "i < 4"
  shows "a = addr + word_of_nat i \<longleftrightarrow> a - a mod 4 = addr \<and> unat (a mod 4) = i"
proof -
  have u4: "unat (4 :: u32) = 4" by simp
  have m4: "unat (a mod 4) = unat a mod 4" by (simp add: unat_mod_distrib)
  have s: "unat (a - a mod 4) = unat a - unat a mod 4"
    using m4 by (subst unat_sub) (simp_all add: word_le_nat_alt)
  have ui: "unat (word_of_nat i :: u32) = i" using assms(2) by (simp add: unsigned_of_nat take_bit_nat_eq_self)
  have "unat addr < 2 ^ 32" using unsigned_less [of addr] by simp
  then have "unat addr + 4 \<le> 2 ^ 32" using assms(1) by (simp add: mod_eq_0_iff_dvd) presburger
  then have ua: "unat (addr + word_of_nat i) = unat addr + i"
    using assms(2) ui by (subst unat_add_lem [THEN iffD1]) simp_all
  have "a = addr + word_of_nat i \<longleftrightarrow> unat a = unat addr + i"
    unfolding word_unat_eq_iff ua ..
  also have "\<dots> \<longleftrightarrow> unat a - unat a mod 4 = unat addr \<and> unat a mod 4 = i"
    using assms by (auto simp: mod_eq_0_iff_dvd)
  finally show ?thesis unfolding word_unat_eq_iff [of "a - a mod 4"] s m4 .
qed

lemma enumerate4: "length xs = 4 \<Longrightarrow> enumerate 0 xs = [(0, xs ! 0), (1, xs ! 1), (2, xs ! 2), (3, xs ! 3)]"
  by (auto simp: numeral_eq_Suc length_Suc_conv)

lemma map_of_le_bytes:
  fixes addr :: u32
  assumes "unat addr mod 4 = 0"
  shows "map_of (rev (map (\<lambda>(i, b). ((RV32_MEMORY_AS, addr + word_of_nat i), b))
           (enumerate 0 (to_le_bytes (w :: u32))))) (as, a) =
         (if as = RV32_MEMORY_AS \<and> a - a mod 4 = addr then Some (to_le_bytes w ! unat (a mod 4)) else None)"
    (is "map_of (rev (map ?kv (enumerate 0 ?bs))) _ = _")
proof -
  have idx: "enumerate 0 ?bs = [(0, ?bs ! 0), (1, ?bs ! 1), (2, ?bs ! 2), (3, ?bs ! 3)]"
    by (rule enumerate4) simp
  have al: "a = addr + word_of_nat i \<longleftrightarrow> a - a mod 4 = addr \<and> unat (a mod 4) = i" if "i < 4" for i
    using word_align_iff [OF assms that] .
  note al4 = al [of 0] al [of 1] al [of 2] al [of 3]
  have lt: "unat (a mod 4) < 4" by (simp add: unat_mod_distrib)
  then consider "unat (a mod 4) = 0" | "unat (a mod 4) = 1" | "unat (a mod 4) = 2" | "unat (a mod 4) = 3"
    by linarith
  then show ?thesis unfolding idx by cases (use al4 in auto)
qed

lemma map_of_elf_image:
  assumes "distinct (map fst m)" "\<forall>addr\<in>fst ` set m. unat addr mod 4 = 0"
  shows "map_of (elf_memory_image_to_openvm_memory_image m) (as, a) =
    (if as = RV32_MEMORY_AS
     then map_option (\<lambda>w. to_le_bytes w ! unat (a mod 4)) (map_of m (a - a mod 4)) else None)"
proof -
  let ?kvs = "\<lambda>m. concat (map (\<lambda>(addr, w :: u32). map (\<lambda>(i, b). ((RV32_MEMORY_AS, addr + word_of_nat i), b))
          (enumerate 0 (to_le_bytes w))) m)"
  have "map_of (rev (?kvs m)) (as, a) =
    (if as = RV32_MEMORY_AS
     then map_option (\<lambda>w. to_le_bytes w ! unat (a mod 4)) (map_of m (a - a mod 4)) else None)"
    using assms
  proof (induction m)
    case (Cons x m)
    obtain addr w where x: "x = (addr, w)" by (cases x)
    have al: "unat addr mod 4 = 0" and new: "map_of m addr = None"
      using Cons.prems x by (auto simp: map_of_eq_None_iff)
    have IH: "map_of (rev (?kvs m)) (as, a) =
      (if as = RV32_MEMORY_AS
       then map_option (\<lambda>w. to_le_bytes w ! unat (a mod 4)) (map_of m (a - a mod 4)) else None)"
      using Cons by simp
    show ?case
      unfolding x list.map concat.simps prod.case rev_append map_of_append map_add_def
      unfolding IH map_of_le_bytes [OF al] using new by (auto split: option.splits)
  qed simp
  then show ?thesis
    unfolding elf_image_as_inserts by (subst btree.lookup_fold) (simp_all add: bt_ok_def)
qed

lemma elf_word_bytes:
  assumes "distinct (map fst m)" "\<forall>addr\<in>fst ` set m. unat addr mod 4 = 0" "map_of m addr = Some w"
  shows "map (\<lambda>i. the (map_of (elf_memory_image_to_openvm_memory_image m)
    (RV32_MEMORY_AS, addr + word_of_nat i))) [0..<4] = to_le_bytes w"
    (is "map ?byte _ = _")
proof (rule nth_equalityI)
  have al: "unat addr mod 4 = 0" using assms(2,3) by (force dest: map_of_SomeD)
  fix i assume "i < length (map ?byte [0..<4])"
  then have i: "i < 4" by simp
  let ?a = "addr + word_of_nat i"
  have "?a - ?a mod 4 = addr" "unat (?a mod 4) = i"
    using word_align_iff [OF al i, of ?a] by blast+
  then show "map ?byte [0..<4] ! i = to_le_bytes w ! i"
    using i assms(3) by (simp add: map_of_elf_image [OF assms(1,2)])
qed simp

text \<open>
  C26. The memory image of an ELF file with word-aligned addresses becomes a byte image that
  holds exactly its words: address space 2 has, for each word, its four bytes in little-endian
  order (reading them back gives the word), and nothing else is initialised.
\<close>

theorem elf_image_roundtrip:
  assumes "bt_ok m" "\<forall>addr\<in>fst ` set m. unat addr mod 4 = 0"
  shows "bt_ok (elf_memory_image_to_openvm_memory_image m) \<and>
    (\<forall>addr w. map_of m addr = Some w \<longrightarrow>
      from_le_bytes (map (\<lambda>i. the (map_of (elf_memory_image_to_openvm_memory_image m)
        (RV32_MEMORY_AS, addr + word_of_nat i))) [0..<4]) = w) \<and>
    (\<forall>as a. map_of (elf_memory_image_to_openvm_memory_image m) (as, a) = None \<longleftrightarrow>
      as \<noteq> RV32_MEMORY_AS \<or> map_of m (a - a mod 4) = None)"
proof -
  have dist: "distinct (map fst m)" using assms(1) by (simp add: bt_ok_def strict_sorted_iff)
  have "bt_ok (elf_memory_image_to_openvm_memory_image m)"
    unfolding elf_image_as_inserts by (rule btree.invar_fold) (simp add: bt_ok_def)
  then show ?thesis
    using elf_word_bytes [OF dist assms(2)] by (auto simp: map_of_elf_image [OF dist assms(2)])
qed

theorem elf_image_roundtrip_witness:
  "from_le_bytes (map (\<lambda>i. the (map_of (elf_memory_image_to_openvm_memory_image
     [(0x1000 :: u32, 0xdeadbeef :: u32), (0x1004, 7)]) (RV32_MEMORY_AS, 0x1000 + word_of_nat i))) [0..<4])
     = (0xdeadbeef :: u32)"
proof -
  have "bt_ok [(0x1000 :: u32, 0xdeadbeef :: u32), (0x1004, 7)]" by (simp add: bt_ok_def)
  moreover have "\<forall>addr\<in>fst ` set [(0x1000 :: u32, 0xdeadbeef :: u32), (0x1004, 7)]. unat addr mod 4 = 0"
    by simp
  ultimately show ?thesis using elf_image_roundtrip by simp
qed

section \<open>Serialised programs\<close>

text \<open>An entry without its debug info.\<close>

abbreviation strip_debug :: "('i \<times> 'd option) option \<Rightarrow> ('i \<times> 'e option) option" where
  "strip_debug \<equiv> map_option (\<lambda>x. (fst x, None))"

lemma place_instructions_filter:
  assumes "length data + n \<le> length ret" "length data + n \<le> 2 ^ 32" "\<forall>i\<ge>n. i < n + length data \<longrightarrow> ret ! i = None"
  shows "place_instructions
      (List.map_filter (\<lambda>(i, o'). map_option (\<lambda>x. (fst x, wrap 32 i)) o') (enumerate n data)) ret =
    Some (take n ret @ map strip_debug data @ drop (n + length data) ret)"
  using assms
proof (induction data arbitrary: n ret)
  case Nil
  then show ?case by (simp add: map_filter_simps)
next
  case (Cons d data)
  let ?d = "strip_debug d"
  have w: "wrap 32 n = n" using Cons.prems(2) by simp
  have upd: "take (Suc n) (ret[n := ?d]) = take n ret @ [?d]"
    using Cons.prems(1) by (simp add: take_Suc_conv_app_nth)
  have step: "place_instructions (List.map_filter (\<lambda>(i, o'). map_option (\<lambda>x. (fst x, wrap 32 i)) o')
      (enumerate (Suc n) data)) (ret[n := ?d]) =
    Some (take (Suc n) (ret[n := ?d]) @ map strip_debug data @ drop (Suc n + length data) (ret[n := ?d]))"
    by (rule Cons.IH) (use Cons.prems in auto)
  have "ret[n := ?d] = ret" if "d = None"
    using Cons.prems(3) that list_update_id [of ret n] by simp
  then show ?case
    using step upd w Cons.prems(1) by (cases d) (simp_all add: map_filter_simps)
qed

lemma serialize_strip_debug: "serialize_instructions (map strip_debug data) = serialize_instructions data"
proof -
  have "List.map_filter (\<lambda>(i, o'). map_option (\<lambda>x. (fst x, wrap 32 i)) o') (enumerate n (map strip_debug data)) =
      List.map_filter (\<lambda>(i, o'). map_option (\<lambda>x. (fst x, wrap 32 i)) o') (enumerate n data)" for n
    by (induction data arbitrary: n) (auto simp: map_filter_simps option.map_comp comp_def split: option.splits)
  then show ?thesis by (simp add: serialize_instructions_def)
qed

text \<open>
  C27. Serialising a program of fewer than \<open>2 ^ 32\<close> slots keeps its instructions and drops its debug
  infos: deserialising what \<open>serialize_instructions_and_debug_infos\<close> wrote never panics, returns
  every instruction in its slot with no debug info and leaves the gaps empty; in particular a
  program without debug infos is unchanged, and serialising the result again writes the same data.
\<close>

theorem program_serde_roundtrip:
  fixes data :: "('i \<times> 'd option) option list"
  assumes "length data < 2 ^ 32"
  shows "deserialize_instructions (serialize_instructions data) = Some (map strip_debug data :: ('i \<times> 'd option) option list) \<and>
    ((\<forall>x. Some x \<in> set data \<longrightarrow> snd x = None) \<longrightarrow> deserialize_instructions (serialize_instructions data) = Some data) \<and>
    map_option serialize_instructions (deserialize_instructions (serialize_instructions data) :: ('i \<times> 'd option) option list option) =
      Some (serialize_instructions data)"
proof -
  have "wrap 32 (length data) = length data" using assms by simp
  then have eq: "deserialize_instructions (serialize_instructions data) = Some (map strip_debug data :: ('i \<times> 'd option) option list)"
    using place_instructions_filter [of data 0 "replicate (length data) None :: ('i \<times> 'd option) option list"] assms
    by (simp add: deserialize_instructions_def serialize_instructions_def)
  have same: "map strip_debug data = data" if none: "\<forall>x. Some x \<in> set data \<longrightarrow> snd x = None"
  proof (rule map_idI)
    fix d assume "d \<in> set data"
    then have "snd x = None" if "d = Some x" for x using none that by blast
    then show "strip_debug d = d" by (cases d) (metis option.map(1), metis option.map(2) prod.collapse)
  qed
  show ?thesis unfolding eq using same by (simp add: serialize_strip_debug)
qed

theorem program_serde_roundtrip_witness:
  "deserialize_instructions (serialize_instructions [Some (113::nat, Some ''main''), None, None, Some (145, None), None]) =
     Some [Some (113, None :: string option), None, None, Some (145, None), None]"
  using program_serde_roundtrip [of "[Some (113::nat, Some ''main''), None, None, Some (145, None), None]"] by simp

end
