(* ===== verification/Rv32_Transpile.thy ===== *)
theory Rv32_Transpile
  imports Transpiler
begin

text \<open>
  The RV32IM extensions of the transpiler: \<open>extensions/rv32im/transpiler/src/lib.rs\<close> and
  \<open>rrs.rs\<close>, with the instruction builders of \<open>crates/toolchain/transpiler/src/util.rs\<close>.
  Decoding a word is the crate \<open>rrs-lib\<close>: \<open>RType::new\<close>, \<open>IType::new\<close> and
  \<open>process_instruction\<close> are parameters. \<open>process_instruction\<close> calls one method of the trait
  \<open>InstructionProcessor\<close> with the decoded word and returns its result, so it is given here by
  the call it makes, a value of the datatype \<open>rrs_insn\<close>: the method, by the format it takes, and
  the decoded word.
\<close>

section \<open>Decoded words\<close>

text \<open>The instruction formats of \<open>rrs-lib\<close>; an \<open>i32\<close> immediate is an integer.\<close>

record RType =
  rt_funct7 :: nat
  rt_rs2 :: nat
  rt_rs1 :: nat
  rt_funct3 :: nat
  rt_rd :: nat

record IType =
  it_imm :: int
  it_rs1 :: nat
  it_funct3 :: nat
  it_rd :: nat

record ITypeShamt =
  is_funct7 :: nat
  is_shamt :: nat
  is_rs1 :: nat
  is_funct3 :: nat
  is_rd :: nat

record SType =
  st_imm :: int
  st_rs2 :: nat
  st_rs1 :: nat
  st_funct3 :: nat

record BType =
  bt_imm :: int
  bt_rs2 :: nat
  bt_rs1 :: nat
  bt_funct3 :: nat

record UType =
  ut_imm :: int
  ut_rd :: nat

record JType =
  jt_imm :: int
  jt_rd :: nat

datatype r_call = R_add | R_sub | R_xor | R_or | R_and | R_sll | R_srl | R_sra | R_slt | R_sltu | R_mul | R_mulh | R_mulhu | R_mulhsu | R_div | R_divu | R_rem | R_remu
datatype i_call = I_addi | I_xori | I_ori | I_andi | I_slti | I_sltui | I_lb | I_lh | I_lw | I_lbu | I_lhu | I_jalr | I_fence
datatype sh_call = Sh_slli | Sh_srli | Sh_srai
datatype s_call = S_sb | S_sh | S_sw
datatype b_call = B_beq | B_bne | B_blt | B_bge | B_bltu | B_bgeu
datatype j_call = J_jal
datatype u_call = U_lui | U_auipc

datatype rrs_insn =
    Rrs_R r_call RType
  | Rrs_I i_call IType
  | Rrs_Sh sh_call ITypeShamt
  | Rrs_S s_call SType
  | Rrs_B b_call BType
  | Rrs_J j_call JType
  | Rrs_U u_call UType

record rrs_lib =
  rtype_new :: "u32 \<Rightarrow> RType"
  itype_new :: "u32 \<Rightarrow> IType"
  rrs_decode :: "u32 \<Rightarrow> rrs_insn option"

section \<open>Instruction builders\<close>

definition as_u32 :: "int \<Rightarrow> u32" where "as_u32 i = word_of_int i"

definition from_u32 :: "u32 \<Rightarrow> 'f::field" where "from_u32 w = of_nat (unat w)"

definition global_opcode :: "nat \<Rightarrow> 'o list \<Rightarrow> 'o \<Rightarrow> nat" where
  "global_opcode offset variants op = repr_of variants op + offset"

definition mul_opcode :: nat where "mul_opcode = mul_offset"
definition jalr_opcode :: nat where "jalr_opcode = jalr_offset"
definition auipc_opcode :: nat where "auipc_opcode = auipc_offset"
definition hint_storew_opcode :: nat where "hint_storew_opcode = 0x260"
definition hint_buffer_opcode :: nat where "hint_buffer_opcode = 0x261"

lemmas opcode_consts = mul_opcode_def jalr_opcode_def auipc_opcode_def hint_storew_opcode_def
  hint_buffer_opcode_def TERMINATE_OPCODE_def PHANTOM_OPCODE_def

definition i12_to_u24 :: "int \<Rightarrow> u32" where
  "i12_to_u24 imm = as_u32 imm AND 0xffffff"

definition unimp :: "'f::field instr" where
  "unimp = default_instr\<lparr>i_opcode := TERMINATE_OPCODE, i_c := 2\<rparr>"

definition nop :: "'f::field instr" where
  "nop = default_instr\<lparr>i_opcode := PHANTOM_OPCODE\<rparr>"

definition from_r_type :: "nat \<Rightarrow> nat \<Rightarrow> RType \<Rightarrow> bool \<Rightarrow> 'f::field instr" where
  "from_r_type opc e_as d allow_rd_zero =
     (if \<not> allow_rd_zero \<and> rt_rd d = 0 then nop
      else \<lparr>i_opcode = opc, i_a = of_nat (RV32_REGISTER_NUM_LIMBS * rt_rd d),
        i_b = of_nat (RV32_REGISTER_NUM_LIMBS * rt_rs1 d),
        i_c = of_nat (RV32_REGISTER_NUM_LIMBS * rt_rs2 d), i_d = 1, i_e = of_nat e_as, i_f = 0,
        i_g = 0\<rparr>)"

definition from_i_type :: "nat \<Rightarrow> IType \<Rightarrow> 'f::field instr" where
  "from_i_type opc d =
     (if it_rd d = 0 then nop
      else \<lparr>i_opcode = opc, i_a = of_nat (RV32_REGISTER_NUM_LIMBS * it_rd d),
        i_b = of_nat (RV32_REGISTER_NUM_LIMBS * it_rs1 d), i_c = from_u32 (i12_to_u24 (it_imm d)),
        i_d = 1, i_e = 0, i_f = 0, i_g = 0\<rparr>)"

definition from_load :: "nat \<Rightarrow> IType \<Rightarrow> 'f::field instr" where
  "from_load opc d =
     \<lparr>i_opcode = opc, i_a = of_nat (RV32_REGISTER_NUM_LIMBS * it_rd d),
      i_b = of_nat (RV32_REGISTER_NUM_LIMBS * it_rs1 d),
      i_c = from_u32 (as_u32 (it_imm d) AND 0xffff), i_d = 1, i_e = 2,
      i_f = from_bool (it_rd d \<noteq> 0), i_g = from_bool (it_imm d < 0)\<rparr>"

definition from_i_type_shamt :: "nat \<Rightarrow> ITypeShamt \<Rightarrow> 'f::field instr" where
  "from_i_type_shamt opc d =
     (if is_rd d = 0 then nop
      else \<lparr>i_opcode = opc, i_a = of_nat (RV32_REGISTER_NUM_LIMBS * is_rd d),
        i_b = of_nat (RV32_REGISTER_NUM_LIMBS * is_rs1 d), i_c = of_nat (is_shamt d),
        i_d = 1, i_e = 0, i_f = 0, i_g = 0\<rparr>)"

definition from_s_type :: "nat \<Rightarrow> SType \<Rightarrow> 'f::field instr" where
  "from_s_type opc d =
     \<lparr>i_opcode = opc, i_a = of_nat (RV32_REGISTER_NUM_LIMBS * st_rs2 d),
      i_b = of_nat (RV32_REGISTER_NUM_LIMBS * st_rs1 d),
      i_c = from_u32 (as_u32 (st_imm d) AND 0xffff), i_d = 1, i_e = 2, i_f = 1,
      i_g = from_bool (st_imm d < 0)\<rparr>"

definition from_b_type :: "nat \<Rightarrow> BType \<Rightarrow> 'f::field instr" where
  "from_b_type opc d =
     \<lparr>i_opcode = opc, i_a = of_nat (RV32_REGISTER_NUM_LIMBS * bt_rs1 d),
      i_b = of_nat (RV32_REGISTER_NUM_LIMBS * bt_rs2 d), i_c = isize_to_field (bt_imm d), i_d = 1,
      i_e = 1, i_f = 0, i_g = 0\<rparr>"

definition from_j_type :: "nat \<Rightarrow> JType \<Rightarrow> 'f::field instr" where
  "from_j_type opc d =
     \<lparr>i_opcode = opc, i_a = of_nat (RV32_REGISTER_NUM_LIMBS * jt_rd d), i_b = 0,
      i_c = isize_to_field (jt_imm d), i_d = 1, i_e = 0, i_f = from_bool (jt_rd d \<noteq> 0), i_g = 0\<rparr>"

definition from_u_type :: "nat \<Rightarrow> UType \<Rightarrow> 'f::field instr" where
  "from_u_type opc d =
     (if ut_rd d = 0 then nop
      else \<lparr>i_opcode = opc, i_a = of_nat (RV32_REGISTER_NUM_LIMBS * ut_rd d), i_b = 0,
        i_c = from_u32 (drop_bit 12 (as_u32 (ut_imm d)) AND 0xfffff), i_d = 1, i_e = 0, i_f = 0,
        i_g = 0\<rparr>)"

section \<open>\<open>InstructionTranspiler\<close>\<close>

definition process_add :: "RType \<Rightarrow> 'f::field instr" where
  "process_add d = from_r_type (global_opcode alu_offset alu_opcodes Alu_ADD) 1 d False"

definition process_addi :: "IType \<Rightarrow> 'f::field instr" where
  "process_addi d = from_i_type (global_opcode alu_offset alu_opcodes Alu_ADD) d"

definition process_sub :: "RType \<Rightarrow> 'f::field instr" where
  "process_sub d = from_r_type (global_opcode alu_offset alu_opcodes Alu_SUB) 1 d False"

definition process_xor :: "RType \<Rightarrow> 'f::field instr" where
  "process_xor d = from_r_type (global_opcode alu_offset alu_opcodes Alu_XOR) 1 d False"

definition process_xori :: "IType \<Rightarrow> 'f::field instr" where
  "process_xori d = from_i_type (global_opcode alu_offset alu_opcodes Alu_XOR) d"

definition process_or :: "RType \<Rightarrow> 'f::field instr" where
  "process_or d = from_r_type (global_opcode alu_offset alu_opcodes Alu_OR) 1 d False"

definition process_ori :: "IType \<Rightarrow> 'f::field instr" where
  "process_ori d = from_i_type (global_opcode alu_offset alu_opcodes Alu_OR) d"

definition process_and :: "RType \<Rightarrow> 'f::field instr" where
  "process_and d = from_r_type (global_opcode alu_offset alu_opcodes Alu_AND) 1 d False"

definition process_andi :: "IType \<Rightarrow> 'f::field instr" where
  "process_andi d = from_i_type (global_opcode alu_offset alu_opcodes Alu_AND) d"

definition process_sll :: "RType \<Rightarrow> 'f::field instr" where
  "process_sll d = from_r_type (global_opcode shift_offset shift_opcodes SLL) 1 d False"

definition process_slli :: "ITypeShamt \<Rightarrow> 'f::field instr" where
  "process_slli d = from_i_type_shamt (global_opcode shift_offset shift_opcodes SLL) d"

definition process_srl :: "RType \<Rightarrow> 'f::field instr" where
  "process_srl d = from_r_type (global_opcode shift_offset shift_opcodes SRL) 1 d False"

definition process_srli :: "ITypeShamt \<Rightarrow> 'f::field instr" where
  "process_srli d = from_i_type_shamt (global_opcode shift_offset shift_opcodes SRL) d"

definition process_sra :: "RType \<Rightarrow> 'f::field instr" where
  "process_sra d = from_r_type (global_opcode shift_offset shift_opcodes SRA) 1 d False"

definition process_srai :: "ITypeShamt \<Rightarrow> 'f::field instr" where
  "process_srai d = from_i_type_shamt (global_opcode shift_offset shift_opcodes SRA) d"

definition process_slt :: "RType \<Rightarrow> 'f::field instr" where
  "process_slt d = from_r_type (global_opcode less_than_offset less_than_opcodes SLT) 1 d False"

definition process_slti :: "IType \<Rightarrow> 'f::field instr" where
  "process_slti d = from_i_type (global_opcode less_than_offset less_than_opcodes SLT) d"

definition process_sltu :: "RType \<Rightarrow> 'f::field instr" where
  "process_sltu d = from_r_type (global_opcode less_than_offset less_than_opcodes SLTU) 1 d False"

definition process_sltui :: "IType \<Rightarrow> 'f::field instr" where
  "process_sltui d = from_i_type (global_opcode less_than_offset less_than_opcodes SLTU) d"

definition process_lb :: "IType \<Rightarrow> 'f::field instr" where
  "process_lb d = from_load (global_opcode load_store_offset load_store_opcodes LOADB) d"

definition process_lh :: "IType \<Rightarrow> 'f::field instr" where
  "process_lh d = from_load (global_opcode load_store_offset load_store_opcodes LOADH) d"

definition process_lw :: "IType \<Rightarrow> 'f::field instr" where
  "process_lw d = from_load (global_opcode load_store_offset load_store_opcodes LOADW) d"

definition process_lbu :: "IType \<Rightarrow> 'f::field instr" where
  "process_lbu d = from_load (global_opcode load_store_offset load_store_opcodes LOADBU) d"

definition process_lhu :: "IType \<Rightarrow> 'f::field instr" where
  "process_lhu d = from_load (global_opcode load_store_offset load_store_opcodes LOADHU) d"

definition process_sb :: "SType \<Rightarrow> 'f::field instr" where
  "process_sb d = from_s_type (global_opcode load_store_offset load_store_opcodes STOREB) d"

definition process_sh :: "SType \<Rightarrow> 'f::field instr" where
  "process_sh d = from_s_type (global_opcode load_store_offset load_store_opcodes STOREH) d"

definition process_sw :: "SType \<Rightarrow> 'f::field instr" where
  "process_sw d = from_s_type (global_opcode load_store_offset load_store_opcodes STOREW) d"

definition process_beq :: "BType \<Rightarrow> 'f::field instr" where
  "process_beq d = from_b_type (global_opcode branch_equal_offset branch_equal_opcodes BEQ) d"

definition process_bne :: "BType \<Rightarrow> 'f::field instr" where
  "process_bne d = from_b_type (global_opcode branch_equal_offset branch_equal_opcodes BNE) d"

definition process_blt :: "BType \<Rightarrow> 'f::field instr" where
  "process_blt d = from_b_type (global_opcode branch_less_than_offset branch_less_than_opcodes BLT) d"

definition process_bge :: "BType \<Rightarrow> 'f::field instr" where
  "process_bge d = from_b_type (global_opcode branch_less_than_offset branch_less_than_opcodes BGE) d"

definition process_bltu :: "BType \<Rightarrow> 'f::field instr" where
  "process_bltu d = from_b_type (global_opcode branch_less_than_offset branch_less_than_opcodes BLTU) d"

definition process_bgeu :: "BType \<Rightarrow> 'f::field instr" where
  "process_bgeu d = from_b_type (global_opcode branch_less_than_offset branch_less_than_opcodes BGEU) d"

definition process_jal :: "JType \<Rightarrow> 'f::field instr" where
  "process_jal d = from_j_type (global_opcode jal_lui_offset jal_lui_opcodes JAL) d"

definition process_jalr :: "IType \<Rightarrow> 'f::field instr" where
  "process_jalr d =
     \<lparr>i_opcode = jalr_opcode, i_a = of_nat (RV32_REGISTER_NUM_LIMBS * it_rd d),
      i_b = of_nat (RV32_REGISTER_NUM_LIMBS * it_rs1 d),
      i_c = from_u32 (as_u32 (it_imm d) AND 0xffff), i_d = 1, i_e = 0,
      i_f = from_bool (it_rd d \<noteq> 0), i_g = from_bool (it_imm d < 0)\<rparr>"

definition process_lui :: "UType \<Rightarrow> 'f::field instr" where
  "process_lui d =
     (if ut_rd d = 0 then nop
      else (from_u_type (global_opcode jal_lui_offset jal_lui_opcodes LUI) d)\<lparr>i_f := 1\<rparr>)"

definition process_auipc :: "UType \<Rightarrow> 'f::field instr" where
  "process_auipc d =
     (if ut_rd d = 0 then nop
      else \<lparr>i_opcode = auipc_opcode, i_a = of_nat (RV32_REGISTER_NUM_LIMBS * ut_rd d), i_b = 0,
        i_c = from_u32 (drop_bit 8 (as_u32 (ut_imm d) AND 0xfffff000)), i_d = 1, i_e = 0, i_f = 0,
        i_g = 0\<rparr>)"

definition process_mul :: "RType \<Rightarrow> 'f::field instr" where
  "process_mul d = from_r_type mul_opcode 0 d False"

definition process_mulh :: "RType \<Rightarrow> 'f::field instr" where
  "process_mulh d = from_r_type (global_opcode mulh_offset mulh_opcodes MULH) 0 d False"

definition process_mulhu :: "RType \<Rightarrow> 'f::field instr" where
  "process_mulhu d = from_r_type (global_opcode mulh_offset mulh_opcodes MULHU) 0 d False"

definition process_mulhsu :: "RType \<Rightarrow> 'f::field instr" where
  "process_mulhsu d = from_r_type (global_opcode mulh_offset mulh_opcodes MULHSU) 0 d False"

definition process_div :: "RType \<Rightarrow> 'f::field instr" where
  "process_div d = from_r_type (global_opcode divrem_offset divrem_opcodes DIV) 0 d False"

definition process_divu :: "RType \<Rightarrow> 'f::field instr" where
  "process_divu d = from_r_type (global_opcode divrem_offset divrem_opcodes DIVU) 0 d False"

definition process_rem :: "RType \<Rightarrow> 'f::field instr" where
  "process_rem d = from_r_type (global_opcode divrem_offset divrem_opcodes REM) 0 d False"

definition process_remu :: "RType \<Rightarrow> 'f::field instr" where
  "process_remu d = from_r_type (global_opcode divrem_offset divrem_opcodes REMU) 0 d False"

definition process_fence :: "IType \<Rightarrow> 'f::field instr" where
  "process_fence d = nop"

lemmas process_defs = process_add_def process_addi_def process_sub_def process_xor_def process_xori_def
  process_or_def process_ori_def process_and_def process_andi_def process_sll_def
  process_slli_def process_srl_def process_srli_def process_sra_def process_srai_def
  process_slt_def process_slti_def process_sltu_def process_sltui_def process_lb_def
  process_lh_def process_lw_def process_lbu_def process_lhu_def process_sb_def process_sh_def
  process_sw_def process_beq_def process_bne_def process_blt_def process_bge_def process_bltu_def
  process_bgeu_def process_jal_def process_jalr_def process_lui_def process_auipc_def
  process_mul_def process_mulh_def process_mulhu_def process_mulhsu_def process_div_def
  process_divu_def process_rem_def process_remu_def process_fence_def

fun process_insn :: "rrs_insn \<Rightarrow> 'f::field instr" where
  "process_insn (Rrs_R R_add d) = process_add d"
| "process_insn (Rrs_R R_sub d) = process_sub d"
| "process_insn (Rrs_R R_xor d) = process_xor d"
| "process_insn (Rrs_R R_or d) = process_or d"
| "process_insn (Rrs_R R_and d) = process_and d"
| "process_insn (Rrs_R R_sll d) = process_sll d"
| "process_insn (Rrs_R R_srl d) = process_srl d"
| "process_insn (Rrs_R R_sra d) = process_sra d"
| "process_insn (Rrs_R R_slt d) = process_slt d"
| "process_insn (Rrs_R R_sltu d) = process_sltu d"
| "process_insn (Rrs_R R_mul d) = process_mul d"
| "process_insn (Rrs_R R_mulh d) = process_mulh d"
| "process_insn (Rrs_R R_mulhu d) = process_mulhu d"
| "process_insn (Rrs_R R_mulhsu d) = process_mulhsu d"
| "process_insn (Rrs_R R_div d) = process_div d"
| "process_insn (Rrs_R R_divu d) = process_divu d"
| "process_insn (Rrs_R R_rem d) = process_rem d"
| "process_insn (Rrs_R R_remu d) = process_remu d"
| "process_insn (Rrs_I I_addi d) = process_addi d"
| "process_insn (Rrs_I I_xori d) = process_xori d"
| "process_insn (Rrs_I I_ori d) = process_ori d"
| "process_insn (Rrs_I I_andi d) = process_andi d"
| "process_insn (Rrs_I I_slti d) = process_slti d"
| "process_insn (Rrs_I I_sltui d) = process_sltui d"
| "process_insn (Rrs_I I_lb d) = process_lb d"
| "process_insn (Rrs_I I_lh d) = process_lh d"
| "process_insn (Rrs_I I_lw d) = process_lw d"
| "process_insn (Rrs_I I_lbu d) = process_lbu d"
| "process_insn (Rrs_I I_lhu d) = process_lhu d"
| "process_insn (Rrs_I I_jalr d) = process_jalr d"
| "process_insn (Rrs_I I_fence d) = process_fence d"
| "process_insn (Rrs_Sh Sh_slli d) = process_slli d"
| "process_insn (Rrs_Sh Sh_srli d) = process_srli d"
| "process_insn (Rrs_Sh Sh_srai d) = process_srai d"
| "process_insn (Rrs_S S_sb d) = process_sb d"
| "process_insn (Rrs_S S_sh d) = process_sh d"
| "process_insn (Rrs_S S_sw d) = process_sw d"
| "process_insn (Rrs_B B_beq d) = process_beq d"
| "process_insn (Rrs_B B_bne d) = process_bne d"
| "process_insn (Rrs_B B_blt d) = process_blt d"
| "process_insn (Rrs_B B_bge d) = process_bge d"
| "process_insn (Rrs_B B_bltu d) = process_bltu d"
| "process_insn (Rrs_B B_bgeu d) = process_bgeu d"
| "process_insn (Rrs_J J_jal d) = process_jal d"
| "process_insn (Rrs_U U_lui d) = process_lui d"
| "process_insn (Rrs_U U_auipc d) = process_auipc d"

text \<open>\<open>process_instruction\<close> with the \<open>InstructionTranspiler\<close> as its processor.\<close>

definition process_instruction :: "rrs_lib \<Rightarrow> u32 \<Rightarrow> 'f::field instr option" where
  "process_instruction rrs w = map_option process_insn (rrs_decode rrs w)"

section \<open>The extensions\<close>

definition SYSTEM_OPCODE :: nat where "SYSTEM_OPCODE = 0x0b"
definition CSR_OPCODE :: nat where "CSR_OPCODE = 0x73"
definition RV32_ALU_OPCODE :: nat where "RV32_ALU_OPCODE = 0x33"
definition RV32M_FUNCT7 :: nat where "RV32M_FUNCT7 = 1"
definition TERMINATE_FUNCT3 :: nat where "TERMINATE_FUNCT3 = 0"
definition HINT_FUNCT3 :: nat where "HINT_FUNCT3 = 1"
definition HINT_STOREW_IMM :: nat where "HINT_STOREW_IMM = 0"
definition HINT_BUFFER_IMM :: nat where "HINT_BUFFER_IMM = 1"
definition REVEAL_FUNCT3 :: nat where "REVEAL_FUNCT3 = 2"
definition PHANTOM_FUNCT3 :: nat where "PHANTOM_FUNCT3 = 3"
definition CSRRW_FUNCT3 :: nat where "CSRRW_FUNCT3 = 1"

lemmas guest_consts = SYSTEM_OPCODE_def CSR_OPCODE_def RV32_ALU_OPCODE_def RV32M_FUNCT7_def
  TERMINATE_FUNCT3_def HINT_FUNCT3_def HINT_STOREW_IMM_def HINT_BUFFER_IMM_def REVEAL_FUNCT3_def
  PHANTOM_FUNCT3_def CSRRW_FUNCT3_def

datatype PhantomImm = HintInput | PrintStr | HintRandom

definition phantom_imms :: "PhantomImm list" where
  "phantom_imms = [HintInput, PrintStr, HintRandom]"

text \<open>The discriminants of \<open>Rv32Phantom\<close>.\<close>

fun rv32_phantom :: "PhantomImm \<Rightarrow> nat" where
  "rv32_phantom HintInput = 0x20"
| "rv32_phantom PrintStr = 0x21"
| "rv32_phantom HintRandom = 0x22"

fun phantom_instr :: "IType \<Rightarrow> PhantomImm \<Rightarrow> 'f::field instr" where
  "phantom_instr d HintInput = instr_phantom (rv32_phantom HintInput) 0 0 0"
| "phantom_instr d HintRandom =
     instr_phantom (rv32_phantom HintRandom) (of_nat (RV32_REGISTER_NUM_LIMBS * it_rd d)) 0 0"
| "phantom_instr d PrintStr =
     instr_phantom (rv32_phantom PrintStr) (of_nat (RV32_REGISTER_NUM_LIMBS * it_rd d))
       (of_nat (RV32_REGISTER_NUM_LIMBS * it_rs1 d)) 0"

definition word_opcode :: "u32 \<Rightarrow> nat" where "word_opcode w = unat (w AND 0x7f)"
definition word_funct3 :: "u32 \<Rightarrow> nat" where "word_funct3 w = unat (drop_bit 12 w AND 7)"

definition rv32i_process_custom :: "rrs_lib \<Rightarrow> u32 list \<Rightarrow> 'f::field transpiler_output option option" where
  "rv32i_process_custom rrs stream =
     (case stream of
        [] \<Rightarrow> Some None
      | w # _ \<Rightarrow>
          let opc = word_opcode w; funct3 = word_funct3 w; d = itype_new rrs w in
          if opc = CSR_OPCODE then
            if wrap 8 (it_funct3 d) = CSRRW_FUNCT3 \<and> it_rs1 d = 0 \<and> it_rd d = 0
            then Some (Some (one_to_one nop))
            else Some (Some (one_to_one unimp))
          else if opc = SYSTEM_OPCODE \<and> funct3 = TERMINATE_FUNCT3 then
            if 0 \<le> it_imm d \<and> it_imm d < 256
            then Some (Some (one_to_one
              (default_instr\<lparr>i_opcode := TERMINATE_OPCODE, i_c := of_nat (nat (it_imm d))\<rparr>)))
            else None
          else if opc = SYSTEM_OPCODE \<and> funct3 = PHANTOM_FUNCT3 then
            Some (map_option (\<lambda>ph. one_to_one (phantom_instr d ph))
              (from_repr phantom_imms (nat (it_imm d mod 2 ^ 16))))
          else if opc = RV32_ALU_OPCODE then
            if wrap 8 (rt_funct7 (rtype_new rrs w)) = RV32M_FUNCT7 then Some None
            else Some (map_option one_to_one (process_instruction rrs w))
          else Some (map_option one_to_one (process_instruction rrs w)))"

definition rv32m_process_custom :: "rrs_lib \<Rightarrow> u32 list \<Rightarrow> 'f::field transpiler_output option option" where
  "rv32m_process_custom rrs stream =
     (case stream of
        [] \<Rightarrow> Some None
      | w # _ \<Rightarrow>
          if word_opcode w \<noteq> RV32_ALU_OPCODE then Some None
          else if wrap 8 (rt_funct7 (rtype_new rrs w)) \<noteq> RV32M_FUNCT7 then Some None
          else Some (map_option one_to_one (process_instruction rrs w)))"

definition rv32io_instr :: "nat \<Rightarrow> IType \<Rightarrow> 'f::field instr option" where
  "rv32io_instr funct3 d =
     (let imm_u16 = unat (as_u32 (it_imm d) AND 0xffff) in
      if funct3 = HINT_FUNCT3 then
        if imm_u16 = HINT_STOREW_IMM then
          Some (instr_from_isize hint_storew_opcode 0 (int (RV32_REGISTER_NUM_LIMBS * it_rd d)) 0 1 2)
        else if imm_u16 = HINT_BUFFER_IMM then
          Some (instr_from_isize hint_buffer_opcode (int (RV32_REGISTER_NUM_LIMBS * it_rs1 d))
            (int (RV32_REGISTER_NUM_LIMBS * it_rd d)) 0 1 2)
        else None
      else if funct3 = REVEAL_FUNCT3 then
        Some (instr_large_from_isize (global_opcode load_store_offset load_store_opcodes STOREW)
          (int (RV32_REGISTER_NUM_LIMBS * it_rs1 d)) (int (RV32_REGISTER_NUM_LIMBS * it_rd d))
          (int imm_u16) 1 3 1 (of_bool (it_imm d < 0)))
      else None)"

definition rv32io_process_custom :: "rrs_lib \<Rightarrow> u32 list \<Rightarrow> 'f::field transpiler_output option option" where
  "rv32io_process_custom rrs stream =
     (case stream of
        [] \<Rightarrow> Some None
      | w # _ \<Rightarrow>
          if word_opcode w \<noteq> SYSTEM_OPCODE then Some None
          else Some (map_option one_to_one (rv32io_instr (word_funct3 w) (itype_new rrs w))))"

text \<open>None of the three extensions overrides \<open>modify_initial_memory\<close>.\<close>

definition rv32_extension ::
  "(rrs_lib \<Rightarrow> u32 list \<Rightarrow> 'f transpiler_output option option) \<Rightarrow> rrs_lib \<Rightarrow> ('f, 'e) transpiler_extension" where
  "rv32_extension pc rrs = \<lparr>process_custom = pc rrs, ext_modify_memory = Inr\<rparr>"

definition rv32im_transpiler :: "rrs_lib \<Rightarrow> ('f::field, 'e) transpiler" where
  "rv32im_transpiler rrs =
     with_processor (with_processor (with_processor new_transpiler
       (rv32_extension rv32i_process_custom rrs)) (rv32_extension rv32m_process_custom rrs))
       (rv32_extension rv32io_process_custom rrs)"

end
