(* ===== verification/Rv32_Decode.thy ===== *)
theory Rv32_Decode
  imports Rv32_Transpile Baby_Bear
begin

section \<open>What \<open>rrs-lib\<close> promises\<close>

text \<open>
  The formats carry register numbers below 32 and sign-extended immediates of the width the
  RISC-V specification gives them; custom-0, the opcode of the OpenVM instructions, is not an
  RV32IM opcode.
\<close>

definition reg_ok :: "nat \<Rightarrow> bool" where "reg_ok r \<longleftrightarrow> r < 32"

fun insn_ok :: "rrs_insn \<Rightarrow> bool" where
  "insn_ok (Rrs_R c d) \<longleftrightarrow> reg_ok (rt_rd d) \<and> reg_ok (rt_rs1 d) \<and> reg_ok (rt_rs2 d)"
| "insn_ok (Rrs_I c d) \<longleftrightarrow> reg_ok (it_rd d) \<and> reg_ok (it_rs1 d) \<and> -2048 \<le> it_imm d \<and> it_imm d < 2048"
| "insn_ok (Rrs_Sh c d) \<longleftrightarrow> reg_ok (is_rd d) \<and> reg_ok (is_rs1 d) \<and> is_shamt d < 32"
| "insn_ok (Rrs_S c d) \<longleftrightarrow> reg_ok (st_rs1 d) \<and> reg_ok (st_rs2 d) \<and> -2048 \<le> st_imm d \<and> st_imm d < 2048"
| "insn_ok (Rrs_B c d) \<longleftrightarrow> reg_ok (bt_rs1 d) \<and> reg_ok (bt_rs2 d) \<and> -4096 \<le> bt_imm d \<and> bt_imm d < 4096"
| "insn_ok (Rrs_J c d) \<longleftrightarrow> reg_ok (jt_rd d) \<and> -1048576 \<le> jt_imm d \<and> jt_imm d < 1048576"
| "insn_ok (Rrs_U c d) \<longleftrightarrow> reg_ok (ut_rd d) \<and> -2147483648 \<le> ut_imm d \<and> ut_imm d < 2147483648 \<and>
     ut_imm d mod 4096 = 0"

definition itype_ok :: "IType \<Rightarrow> bool" where
  "itype_ok d \<longleftrightarrow> reg_ok (it_rd d) \<and> reg_ok (it_rs1 d) \<and> -2048 \<le> it_imm d \<and> it_imm d < 2048"

text \<open>
  The translation of a word by the three extensions, each word on its own. Whatever \<open>rrs-lib\<close>
  does with the rest, it must leave custom-0 to the OpenVM extensions.
\<close>

definition rv32im_word :: "rrs_lib \<Rightarrow> u32 \<Rightarrow> 'e transpiler_error + 'f::field instr" where
  "rv32im_word rrs w =
     (if word_opcode w = CSR_OPCODE then
        Inr (if wrap 8 (it_funct3 (itype_new rrs w)) = CSRRW_FUNCT3 \<and> it_rs1 (itype_new rrs w) = 0 \<and>
               it_rd (itype_new rrs w) = 0 then nop else unimp)
      else if word_opcode w = SYSTEM_OPCODE then
        if word_funct3 w = TERMINATE_FUNCT3 then
          if 0 \<le> it_imm (itype_new rrs w) \<and> it_imm (itype_new rrs w) < 256
          then Inr (default_instr\<lparr>i_opcode := TERMINATE_OPCODE,
            i_c := of_nat (nat (it_imm (itype_new rrs w)))\<rparr>)
          else Inl TranspilerPanic
        else if word_funct3 w = PHANTOM_FUNCT3 then
          (case from_repr phantom_imms (nat (it_imm (itype_new rrs w) mod 2 ^ 16)) of
             None \<Rightarrow> Inl (ParseError w) | Some ph \<Rightarrow> Inr (phantom_instr (itype_new rrs w) ph))
        else
          (case rv32io_instr (word_funct3 w) (itype_new rrs w) of
             None \<Rightarrow> Inl (ParseError w) | Some i \<Rightarrow> Inr i)
      else
        (case rrs_decode rrs w of None \<Rightarrow> Inl (ParseError w) | Some d \<Rightarrow> Inr (process_insn d)))"

locale rrs_contract =
  fixes rrs :: rrs_lib
  assumes custom0: "word_opcode w = SYSTEM_OPCODE \<Longrightarrow> rrs_decode rrs w = None"
    and decode_ok: "rrs_decode rrs w = Some d \<Longrightarrow> insn_ok d"
    and itype_new_ok: "itype_ok (itype_new rrs w)"
begin

lemma next_output3:
  assumes "ptr < length ws" "process_custom p (drop ptr ws) = a" "process_custom q (drop ptr ws) = b"
    "process_custom r (drop ptr ws) = c"
  shows "next_output [p, q, r] ws ptr =
    (case (a, b, c) of
       (Some x, Some y, Some z) \<Rightarrow>
         (case (x, y, z) of
            (None, None, None) \<Rightarrow> Inl (ParseError (ws ! ptr))
          | (Some o', None, None) \<Rightarrow> Inr o' | (None, Some o', None) \<Rightarrow> Inr o'
          | (None, None, Some o') \<Rightarrow> Inr o' | _ \<Rightarrow> Inl AmbiguousNextInstruction)
     | _ \<Rightarrow> Inl TranspilerPanic)"
  using assms by (auto simp: next_output_def split: option.splits)

lemma next_word:
  assumes "ptr < length ws"
  shows "next_output (rv32im_transpiler rrs) ws ptr =
    map_sum id one_to_one (rv32im_word rrs (ws ! ptr) :: 'e transpiler_error + 'f::field instr)"
proof -
  let ?w = "ws ! ptr"
  have dr: "drop ptr ws = ?w # drop (Suc ptr) ws" using assms by (simp add: Cons_nth_drop_Suc)
  have t: "rv32im_transpiler rrs = [rv32_extension rv32i_process_custom rrs,
      rv32_extension rv32m_process_custom rrs, rv32_extension rv32io_process_custom rrs]"
    by (simp add: rv32im_transpiler_def with_processor_def new_transpiler_def)
  note out = next_output3 [OF assms refl refl refl]
  consider "word_opcode ?w = CSR_OPCODE"
    | "word_opcode ?w = SYSTEM_OPCODE" "word_funct3 ?w = TERMINATE_FUNCT3"
    | "word_opcode ?w = SYSTEM_OPCODE" "word_funct3 ?w = PHANTOM_FUNCT3"
    | "word_opcode ?w = SYSTEM_OPCODE" "word_funct3 ?w \<noteq> TERMINATE_FUNCT3" "word_funct3 ?w \<noteq> PHANTOM_FUNCT3"
    | "word_opcode ?w = RV32_ALU_OPCODE"
    | "word_opcode ?w \<noteq> CSR_OPCODE" "word_opcode ?w \<noteq> SYSTEM_OPCODE" "word_opcode ?w \<noteq> RV32_ALU_OPCODE"
    by blast
  then show ?thesis
    unfolding t out rv32_extension_def dr
    by cases (simp_all add: rv32i_process_custom_def rv32m_process_custom_def
        rv32io_process_custom_def rv32im_word_def process_instruction_def custom0 guest_consts
        rv32io_instr_def Let_def split: option.splits)
qed

sublocale words: word_transpiler "rv32im_transpiler rrs" "rv32im_word rrs"
  by unfold_locales (rule next_word)

end

section \<open>A decoder of RV32IM\<close>

text \<open>
  An instance of the contract: the decoding tables of the RISC-V specification, for the opcodes
  of RV32IM.
\<close>

definition bits :: "nat \<Rightarrow> nat \<Rightarrow> u32 \<Rightarrow> nat" where
  "bits lo n w = unat (take_bit n (drop_bit lo w))"

definition sext :: "nat \<Rightarrow> nat \<Rightarrow> int" where
  "sext n x = (if bit x (n - 1) then int x - 2 ^ n else int x)"

definition riscv_r :: "u32 \<Rightarrow> RType" where
  "riscv_r w = \<lparr>rt_funct7 = bits 25 7 w, rt_rs2 = bits 20 5 w, rt_rs1 = bits 15 5 w,
     rt_funct3 = bits 12 3 w, rt_rd = bits 7 5 w\<rparr>"

definition riscv_i :: "u32 \<Rightarrow> IType" where
  "riscv_i w = \<lparr>it_imm = sext 12 (bits 20 12 w), it_rs1 = bits 15 5 w, it_funct3 = bits 12 3 w,
     it_rd = bits 7 5 w\<rparr>"

definition riscv_sh :: "u32 \<Rightarrow> ITypeShamt" where
  "riscv_sh w = \<lparr>is_funct7 = bits 25 7 w, is_shamt = bits 20 5 w, is_rs1 = bits 15 5 w,
     is_funct3 = bits 12 3 w, is_rd = bits 7 5 w\<rparr>"

definition riscv_s :: "u32 \<Rightarrow> SType" where
  "riscv_s w = \<lparr>st_imm = sext 12 (bits 25 7 w * 2 ^ 5 + bits 7 5 w), st_rs2 = bits 20 5 w,
     st_rs1 = bits 15 5 w, st_funct3 = bits 12 3 w\<rparr>"

definition riscv_b :: "u32 \<Rightarrow> BType" where
  "riscv_b w = \<lparr>bt_imm = sext 13 (bits 31 1 w * 2 ^ 12 + bits 7 1 w * 2 ^ 11 + bits 25 6 w * 2 ^ 5 +
     bits 8 4 w * 2), bt_rs2 = bits 20 5 w, bt_rs1 = bits 15 5 w, bt_funct3 = bits 12 3 w\<rparr>"

definition riscv_j :: "u32 \<Rightarrow> JType" where
  "riscv_j w = \<lparr>jt_imm = sext 21 (bits 31 1 w * 2 ^ 20 + bits 12 8 w * 2 ^ 12 + bits 20 1 w * 2 ^ 11 +
     bits 21 10 w * 2), jt_rd = bits 7 5 w\<rparr>"

definition riscv_u :: "u32 \<Rightarrow> UType" where
  "riscv_u w = \<lparr>ut_imm = sext 32 (bits 12 20 w * 2 ^ 12), ut_rd = bits 7 5 w\<rparr>"

definition riscv_r_calls :: "((nat \<times> nat) \<times> r_call) list" where
  "riscv_r_calls =
     [((0, 0), R_add), ((0, 32), R_sub), ((1, 0), R_sll), ((2, 0), R_slt), ((3, 0), R_sltu),
      ((4, 0), R_xor), ((5, 0), R_srl), ((5, 32), R_sra), ((6, 0), R_or), ((7, 0), R_and),
      ((0, 1), R_mul), ((1, 1), R_mulh), ((2, 1), R_mulhsu), ((3, 1), R_mulhu), ((4, 1), R_div),
      ((5, 1), R_divu), ((6, 1), R_rem), ((7, 1), R_remu)]"

definition riscv_decode :: "u32 \<Rightarrow> rrs_insn option" where
  "riscv_decode w =
     (let opc = word_opcode w; f3 = bits 12 3 w; f7 = bits 25 7 w in
      if opc = 0x33 then map_option (\<lambda>c. Rrs_R c (riscv_r w)) (map_of riscv_r_calls (f3, f7))
      else if opc = 0x13 then
        if f3 = 1 then (if f7 = 0 then Some (Rrs_Sh Sh_slli (riscv_sh w)) else None)
        else if f3 = 5 then
          (if f7 = 0 then Some (Rrs_Sh Sh_srli (riscv_sh w))
           else if f7 = 32 then Some (Rrs_Sh Sh_srai (riscv_sh w)) else None)
        else map_option (\<lambda>c. Rrs_I c (riscv_i w))
          (map_of [(0, I_addi), (2, I_slti), (3, I_sltui), (4, I_xori), (6, I_ori), (7, I_andi)] f3)
      else if opc = 0x03 then
        map_option (\<lambda>c. Rrs_I c (riscv_i w))
          (map_of [(0, I_lb), (1, I_lh), (2, I_lw), (4, I_lbu), (5, I_lhu)] f3)
      else if opc = 0x23 then
        map_option (\<lambda>c. Rrs_S c (riscv_s w)) (map_of [(0, S_sb), (1, S_sh), (2, S_sw)] f3)
      else if opc = 0x63 then
        map_option (\<lambda>c. Rrs_B c (riscv_b w))
          (map_of [(0, B_beq), (1, B_bne), (4, B_blt), (5, B_bge), (6, B_bltu), (7, B_bgeu)] f3)
      else if opc = 0x6f then Some (Rrs_J J_jal (riscv_j w))
      else if opc = 0x67 then (if f3 = 0 then Some (Rrs_I I_jalr (riscv_i w)) else None)
      else if opc = 0x37 then Some (Rrs_U U_lui (riscv_u w))
      else if opc = 0x17 then Some (Rrs_U U_auipc (riscv_u w))
      else if opc = 0x0f then Some (Rrs_I I_fence (riscv_i w))
      else None)"

definition riscv_rrs :: rrs_lib where
  "riscv_rrs = \<lparr>rtype_new = riscv_r, itype_new = riscv_i, rrs_decode = riscv_decode\<rparr>"

lemma bits_bound: "bits lo n w < 2 ^ n"
proof -
  have "bits lo n w = take_bit n (unat (drop_bit lo w))" by (simp add: bits_def unsigned_take_bit_eq)
  then show ?thesis by simp
qed

lemma sext_bounds:
  assumes "x < 2 ^ n" "0 < n"
  shows "- (2 ^ (n - 1)) \<le> sext n x \<and> sext n x < 2 ^ (n - 1)"
proof -
  obtain m where n: "n = Suc m" using assms(2) by (cases n) auto
  have x: "x < 2 * 2 ^ m" using assms(1) n by simp
  have d: "x div 2 ^ m < 2" using x by (simp add: less_mult_imp_div_less)
  have b: "bit x m \<longleftrightarrow> 2 ^ m \<le> x"
  proof -
    have "bit x m \<longleftrightarrow> odd (x div 2 ^ m)" by (simp add: bit_iff_odd)
    also have "\<dots> \<longleftrightarrow> x div 2 ^ m = 1" using d by (auto simp: less_2_cases_iff)
    also have "\<dots> \<longleftrightarrow> 0 < x div 2 ^ m" using d by linarith
    also have "\<dots> \<longleftrightarrow> 2 ^ m \<le> x" by (simp add: div_greater_zero_iff)
    finally show ?thesis .
  qed
  have "int x < int (2 * 2 ^ m)" using x by (simp only: of_nat_less_iff)
  then have ix: "int x < 2 * 2 ^ m" by simp
  have ib: "bit x m \<longleftrightarrow> (2 :: int) ^ m \<le> int x" unfolding b by simp
  show ?thesis
  proof (cases "bit x m")
    case True
    then show ?thesis using ix ib unfolding sext_def n by simp
  next
    case False
    then have "int x < 2 ^ m" using ib by linarith
    moreover have "- (2 ^ m) \<le> int x" by (rule order_trans [of _ 0]) simp_all
    ultimately show ?thesis using False unfolding sext_def n by simp
  qed
qed

lemmas field_bounds = bits_bound [of _ 5, simplified] bits_bound [of _ 12, simplified]
  bits_bound [of _ 7, simplified] bits_bound [of _ 1, simplified] bits_bound [of _ 6, simplified]
  bits_bound [of _ 4, simplified] bits_bound [of _ 8, simplified] bits_bound [of _ 10, simplified]
  bits_bound [of _ 20, simplified]

lemma riscv_formats_ok:
  "reg_ok (bits lo 5 w)" "itype_ok (riscv_i w)"
  "-2048 \<le> st_imm (riscv_s w) \<and> st_imm (riscv_s w) < 2048"
  "-4096 \<le> bt_imm (riscv_b w) \<and> bt_imm (riscv_b w) < 4096"
  "-1048576 \<le> jt_imm (riscv_j w) \<and> jt_imm (riscv_j w) < 1048576"
  "-2147483648 \<le> ut_imm (riscv_u w) \<and> ut_imm (riscv_u w) < 2147483648 \<and> ut_imm (riscv_u w) mod 4096 = 0"
proof -
  show r: "reg_ok (bits lo 5 w)" for lo by (simp add: reg_ok_def field_bounds)
  show "itype_ok (riscv_i w)"
    using sext_bounds [of "bits 20 12 w" 12] by (simp add: itype_ok_def riscv_i_def r field_bounds)
  have "bits 25 7 w * 2 ^ 5 + bits 7 5 w < 2 ^ 12"
    using field_bounds(1) [of 7 w] field_bounds(3) [of 25 w] by simp
  then show "-2048 \<le> st_imm (riscv_s w) \<and> st_imm (riscv_s w) < 2048"
    using sext_bounds [of "bits 25 7 w * 2 ^ 5 + bits 7 5 w" 12] by (simp add: riscv_s_def)
  let ?b = "bits 31 1 w * 2 ^ 12 + bits 7 1 w * 2 ^ 11 + bits 25 6 w * 2 ^ 5 + bits 8 4 w * 2"
  have "?b < 2 ^ 13"
    using field_bounds(4) [of 31 w] field_bounds(4) [of 7 w] field_bounds(5) [of 25 w]
      field_bounds(6) [of 8 w] by simp
  then show "-4096 \<le> bt_imm (riscv_b w) \<and> bt_imm (riscv_b w) < 4096"
    using sext_bounds [of ?b 13] by (simp add: riscv_b_def)
  let ?j = "bits 31 1 w * 2 ^ 20 + bits 12 8 w * 2 ^ 12 + bits 20 1 w * 2 ^ 11 + bits 21 10 w * 2"
  have "?j < 2 ^ 21"
    using field_bounds(4) [of 31 w] field_bounds(4) [of 20 w] field_bounds(7) [of 12 w]
      field_bounds(8) [of 21 w] by simp
  then show "-1048576 \<le> jt_imm (riscv_j w) \<and> jt_imm (riscv_j w) < 1048576"
    using sext_bounds [of ?j 21] by (simp add: riscv_j_def)
  have "bits 12 20 w * 2 ^ 12 < 2 ^ 32" using field_bounds(9) [of 12 w] by simp
  moreover have "sext 32 (x * 2 ^ 12) mod 4096 = 0" for x
    by (simp add: sext_def mod_diff_left_eq [symmetric] mod_eq_0_iff_dvd)
  ultimately show "-2147483648 \<le> ut_imm (riscv_u w) \<and> ut_imm (riscv_u w) < 2147483648 \<and>
      ut_imm (riscv_u w) mod 4096 = 0"
    using sext_bounds [of "bits 12 20 w * 2 ^ 12" 32] by (simp add: riscv_u_def)
qed

lemma riscv_decode_ok: "riscv_decode w = Some d \<Longrightarrow> insn_ok d"
  using riscv_formats_ok
  by (auto simp: riscv_decode_def Let_def riscv_r_def riscv_sh_def itype_ok_def riscv_s_def riscv_b_def
      riscv_j_def riscv_u_def field_bounds split: if_splits)

interpretation riscv: rrs_contract riscv_rrs
proof
  show "rrs_decode riscv_rrs w = None" if "word_opcode w = SYSTEM_OPCODE" for w
    using that by (simp add: riscv_rrs_def riscv_decode_def guest_consts)
  show "insn_ok d" if "rrs_decode riscv_rrs w = Some d" for w d
    using that riscv_decode_ok by (simp add: riscv_rrs_def)
  show "itype_ok (itype_new riscv_rrs w)" for w
    by (simp add: riscv_rrs_def riscv_formats_ok)
qed

section \<open>The RV32IM transpiler\<close>

text \<open>
  C28. For any decoder that satisfies the contract of \<open>rrs-lib\<close>, the transpiler with the I, M
  and Io extensions returns on every program, and no word is ever ambiguous. It succeeds exactly
  when every word has a translation of its own, and then slot \<open>i\<close> of the program holds the
  translation of word \<open>i\<close> (so a word at address \<open>pc_base + 4 i\<close> is executed at that address).
  Otherwise it reports the first word without one: \<open>ParseError\<close> with that word, or a panic for
  a TERMINATE whose exit code is not a byte.
\<close>

theorem rv32im_transpile_result:
  fixes rrs :: rrs_lib
  assumes "rrs_contract rrs" "length ws < 2 ^ 64"
  shows "case (transpile (rv32im_transpiler rrs) ws :: ('e transpiler_error + 'f::field instr option list) option) of
      None \<Rightarrow> False
    | Some (Inr is) \<Rightarrow> length is = length ws \<and>
        (\<forall>i<length ws. \<exists>ins. rv32im_word rrs (ws ! i) = (Inr ins :: 'e transpiler_error + 'f instr) \<and> is ! i = Some ins)
    | Some (Inl err) \<Rightarrow> \<exists>i<length ws.
        (\<forall>j<i. \<exists>ins. rv32im_word rrs (ws ! j) = (Inr ins :: 'e transpiler_error + 'f instr)) \<and>
        rv32im_word rrs (ws ! i) = (Inl err :: 'e transpiler_error + 'f instr) \<and>
        (err = ParseError (ws ! i) \<or>
         err = TranspilerPanic \<and> word_opcode (ws ! i) = SYSTEM_OPCODE \<and>
           word_funct3 (ws ! i) = TERMINATE_FUNCT3 \<and>
           \<not> (0 \<le> it_imm (itype_new rrs (ws ! i)) \<and> it_imm (itype_new rrs (ws ! i)) < 256))"
proof -
  let ?tr = "rv32im_word rrs :: u32 \<Rightarrow> 'e transpiler_error + 'f instr"
  have err: "err = ParseError w \<or> err = TranspilerPanic \<and> word_opcode w = SYSTEM_OPCODE \<and>
      word_funct3 w = TERMINATE_FUNCT3 \<and> \<not> (0 \<le> it_imm (itype_new rrs w) \<and> it_imm (itype_new rrs w) < 256)"
    if "?tr w = Inl err" for w err
    using that by (auto simp: rv32im_word_def split: if_splits option.splits)
  have eq: "transpile (rv32im_transpiler rrs) ws = Some (transpile_words ?tr ws)"
    by (rule word_transpiler.transpile_eq [OF word_transpiler.intro])
      (use rrs_contract.next_word [OF assms(1)] assms(2) in auto)
  show ?thesis
  proof (cases "transpile_words ?tr ws")
    case (Inl e)
    then show ?thesis using transpile_words_Inl [of ?tr ws e] err unfolding eq by auto
  next
    case (Inr "is")
    then show ?thesis using transpile_words_Inr [of ?tr ws "is"] unfolding eq by simp
  qed
qed

text \<open>
  The witness is the program \<open>addi x1, x0, 5; mul x2, x1, x1; terminate 0\<close> with the decoder
  above, which is transpiled to three instructions.
\<close>

theorem rv32im_transpile_result_witness:
  "\<exists>is. (transpile (rv32im_transpiler riscv_rrs) [0x00500093, 0x02108133, 0x0000000b]
      :: (unit transpiler_error + bb instr option list) option) = Some (Inr is) \<and> length is = 3"
proof -
  let ?ws = "[0x00500093, 0x02108133, 0x0000000b] :: u32 list"
  let ?tr = "rv32im_word riscv_rrs :: u32 \<Rightarrow> unit transpiler_error + bb instr"
  have "word_opcode 0x00500093 = 0x13" "word_opcode 0x02108133 = 0x33" "word_opcode 0x0000000b = 0x0b"
    "word_funct3 0x0000000b = 0" "riscv_decode 0x00500093 = Some (Rrs_I I_addi (riscv_i 0x00500093))"
    "riscv_decode 0x02108133 = Some (Rrs_R R_mul (riscv_r 0x02108133))" "it_imm (riscv_i 0x0000000b) = 0"
    by code_simp+
  then have ok: "?tr (?ws ! i) \<noteq> Inl e" if "i < 3" for i e
    using that by (auto simp: less_Suc_eq numeral_eq_Suc rv32im_word_def guest_consts riscv_rrs_def)
  show ?thesis
    using rv32im_transpile_result [OF riscv.rrs_contract_axioms, of ?ws, where 'e = unit and 'f = bb] ok
    by (auto split: option.splits sum.splits)
qed

theorem transpile_terminates_witness:
  "\<exists>r. (transpile (rv32im_transpiler riscv_rrs) [0x00500093, 0x0000000b]
      :: (unit transpiler_error + bb instr option list) option) = Some r"
proof (rule transpile_terminates)
  show "\<forall>p\<in>set (rv32im_transpiler riscv_rrs :: (bb, unit) transpiler). progress p"
    by (auto simp: rv32im_transpiler_def with_processor_def new_transpiler_def progress_def
        rv32_extension_def rv32i_process_custom_def rv32m_process_custom_def rv32io_process_custom_def
        one_to_one_def Let_def split: list.splits if_splits)
qed simp

end
