(* ===== verification/Perm_Bus.thy ===== *)
theory Perm_Bus
  imports Air "HOL-Library.Multiset"
begin

text \<open>
  What a balanced \<open>PermutationCheckBus\<close> gives: the messages that are sent are, with
  multiplicities, the messages that are received. When every component of a system receives one
  message and sends another, the messages link the components to a path. The memory bus and the
  execution bus are used this way.
\<close>

section \<open>Sent and received messages\<close>

fun bus_of :: "'f interaction \<Rightarrow> nat" where
  "bus_of (Lookup_key b _ _) = b"
| "bus_of (Add_key b _ _) = b"
| "bus_of (Send b _ _) = b"
| "bus_of (Receive b _ _) = b"

fun message :: "'f interaction \<Rightarrow> 'f list" where
  "message (Lookup_key _ k _) = k"
| "message (Add_key _ k _) = k"
| "message (Send _ k _) = k"
| "message (Receive _ k _) = k"

fun direction :: "'f::field interaction \<Rightarrow> 'f" where
  "direction (Lookup_key _ _ c) = c"
| "direction (Add_key _ _ c) = - c"
| "direction (Send _ _ c) = c"
| "direction (Receive _ _ c) = - c"

lemma contribution_direction:
  "contribution b k i = (if bus_of i = b \<and> message i = k then direction i else 0)"
  by (cases i) auto

text \<open>The messages a list of interactions puts on the bus with count \<open>c\<close>.\<close>

definition messages :: "'f::field \<Rightarrow> nat \<Rightarrow> 'f interaction list \<Rightarrow> 'f list multiset" where
  "messages c b is = mset (map message (filter (\<lambda>i. bus_of i = b \<and> direction i = c) is))"

abbreviation sent :: "nat \<Rightarrow> 'f::field interaction list \<Rightarrow> 'f list multiset" where
  "sent \<equiv> messages 1"

abbreviation received :: "nat \<Rightarrow> 'f::field interaction list \<Rightarrow> 'f list multiset" where
  "received \<equiv> messages (- 1)"

lemma messages_simps [simp]:
  "messages c b [] = {#}"
  "messages c b (i # is) = (if bus_of i = b \<and> direction i = c then {#message i#} else {#}) + messages c b is"
  "messages c b (is @ js) = messages c b is + messages c b js"
  by (simp_all add: messages_def)

lemma messages_concat_map:
  "messages c b (concat (map f xs)) = (\<Sum>x\<in>#mset xs. messages c b (f x))"
  by (induction xs) simp_all

definition unit_directions :: "nat \<Rightarrow> 'f::field interaction list \<Rightarrow> bool" where
  "unit_directions b is \<longleftrightarrow> (\<forall>i\<in>set is. bus_of i = b \<longrightarrow> direction i \<in> {- 1, 0, 1})"

lemma unit_directions_simps [simp]:
  "unit_directions b []"
  "unit_directions b (i # is) \<longleftrightarrow> (bus_of i = b \<longrightarrow> direction i \<in> {- 1, 0, 1}) \<and> unit_directions b is"
  "unit_directions b (is @ js) \<longleftrightarrow> unit_directions b is \<and> unit_directions b js"
  by (auto simp: unit_directions_def)

lemma unit_directions_concat_map:
  "unit_directions b (concat (map f xs)) \<longleftrightarrow> (\<forall>x\<in>set xs. unit_directions b (f x))"
  by (auto simp: unit_directions_def)

lemma neg_one_neq_one: "2 < CHAR('f) \<Longrightarrow> (- 1 :: 'f::field) \<noteq> 1"
  using of_nat_eq_0_char [of 2, where 'f = 'f] by (metis add_eq_0_iff of_nat_numeral one_add_one zero_neq_numeral)

lemma sum_contribution_counts:
  assumes "unit_directions b is" "2 < CHAR('f)"
  shows "sum_list (map (contribution b k) is) + of_nat (count (received b is) k) = (of_nat (count (sent b is) k) :: 'f::field)"
  using assms(1)
proof (induction "is")
  case (Cons i "is")
  then have IH: "sum_list (map (contribution b k) is) + of_nat (count (received b is) k) = (of_nat (count (sent b is) k) :: 'f)"
    and i: "bus_of i = b \<longrightarrow> direction i \<in> {- 1, 0, 1}" by simp_all
  have "sum_list (map (contribution b k) (i # is)) + of_nat (count (received b (i # is)) k) =
      sum_list (map (contribution b k) is) + of_nat (count (received b is) k) +
      (if bus_of i = b \<and> message i = k then direction i + of_bool (direction i = - 1) else 0)"
    by (auto simp: contribution_direction)
  also have "\<dots> = of_nat (count (sent b (i # is)) k)"
    unfolding IH using i neg_one_neq_one [OF assms(2)] by auto
  finally show ?case .
qed simp

lemma count_messages_le: "count (messages c b is) k \<le> length is"
  by (induction "is") auto

lemma balanced_messages:
  fixes "is" :: "'f::field interaction list"
  assumes bal: "bus_balanced b is" and dir: "unit_directions b is"
    and small: "length is < CHAR('f)" "2 < CHAR('f)"
  shows "sent b is = received b is"
proof (rule multiset_eqI)
  fix k
  have "of_nat (count (received b is) k) = (of_nat (count (sent b is) k) :: 'f)"
    using sum_contribution_counts [OF dir small(2), of k] bal by (simp add: bus_balanced_def)
  then have "count (received b is) k = count (sent b is) k"
    using count_messages_le [of 1 b "is" k] count_messages_le [of "- 1" b "is" k] small(1)
    by (simp add: of_nat_eq_iff_char)
  then show "count (sent b is) k = count (received b is) k" by simp
qed

section \<open>Trails\<close>

text \<open>\<open>trail src dst a es b\<close>: the edges \<open>es\<close> lead from \<open>a\<close> to \<open>b\<close>.\<close>

fun trail :: "('e \<Rightarrow> 'n) \<Rightarrow> ('e \<Rightarrow> 'n) \<Rightarrow> 'n \<Rightarrow> 'e list \<Rightarrow> 'n \<Rightarrow> bool" where
  "trail src dst a [] b \<longleftrightarrow> a = b"
| "trail src dst a (e # es) b \<longleftrightarrow> src e = a \<and> trail src dst (dst e) es b"

lemma trail_append: "trail src dst a (es @ fs) b \<longleftrightarrow> (\<exists>c. trail src dst a es c \<and> trail src dst c fs b)"
  by (induction es arbitrary: a) auto

text \<open>
  \<open>no_circulation\<close>: no part of the edges enters every node as often as it leaves it. Then a flow of
  one unit from \<open>a\<close> to \<open>b\<close> is a trail that uses every edge.
\<close>

definition no_circulation :: "('e \<Rightarrow> 'n) \<Rightarrow> ('e \<Rightarrow> 'n) \<Rightarrow> 'e multiset \<Rightarrow> bool" where
  "no_circulation src dst E \<longleftrightarrow> (\<forall>C. C \<subseteq># E \<longrightarrow> image_mset src C = image_mset dst C \<longrightarrow> C = {#})"

lemma no_circulation_mono: "no_circulation src dst E \<Longrightarrow> D \<subseteq># E \<Longrightarrow> no_circulation src dst D"
  by (auto simp: no_circulation_def intro: subset_mset.order_trans)

lemma no_circulation_ranked:
  fixes rank :: "'n \<Rightarrow> nat"
  assumes "\<forall>e\<in>#E. rank (src e) < rank (dst e)"
  shows "no_circulation src dst E"
  unfolding no_circulation_def
proof (intro allI impI)
  fix C assume C: "C \<subseteq># E" "image_mset src C = image_mset dst C"
  have sum: "(\<Sum>e\<in>#C. rank (src e)) = (\<Sum>e\<in>#C. rank (dst e))"
    using arg_cong [OF C(2), of "\<lambda>M. \<Sum>n\<in>#M. rank n"] by (simp add: image_mset.compositionality comp_def)
  show "C = {#}"
  proof (rule ccontr)
    assume "C \<noteq> {#}"
    moreover have "\<forall>e\<in>#C. rank (src e) < rank (dst e)" using assms C(1) by (auto dest: mset_subset_eqD)
    ultimately have "(\<Sum>e\<in>#C. rank (src e)) < (\<Sum>e\<in>#C. rank (dst e))"
    proof (induction C)
      case (add e C)
      then show ?case by (cases "C = {#}") (auto intro: add_strict_mono)
    qed simp
    with sum show False by simp
  qed
qed

lemma flow_trail:
  assumes "add_mset a (image_mset dst E) = add_mset b (image_mset src E)" "no_circulation src dst E"
  shows "\<exists>es. mset es = E \<and> trail src dst a es b"
  using assms
proof (induction "size E" arbitrary: E a)
  case 0
  then show ?case by (auto intro: exI [of _ "[]"])
next
  case (Suc n)
  have "a \<in># image_mset src E"
  proof (rule ccontr)
    assume "a \<notin># image_mset src E"
    then have "a = b" using Suc.prems(1) by (metis insert_iff set_mset_add_mset_insert)
    then have "image_mset src E = image_mset dst E" using Suc.prems(1) by simp
    then have "E = {#}" using Suc.prems(2) by (auto simp: no_circulation_def)
    then show False using Suc.hyps(2) by simp
  qed
  then obtain e where e: "e \<in># E" "src e = a" by auto
  then obtain E' where E: "E = add_mset e E'" by (metis multi_member_split)
  have "add_mset (dst e) (image_mset dst E') = add_mset b (image_mset src E')"
    using Suc.prems(1) e(2) by (simp add: E add_mset_commute)
  moreover have "no_circulation src dst E'" by (rule no_circulation_mono [OF Suc.prems(2)]) (simp add: E)
  ultimately obtain es where "mset es = E'" "trail src dst (dst e) es b"
    using Suc.hyps E by (metis add_left_cancel plus_1_eq_Suc size_add_mset)
  then show ?case using e(2) by (auto intro!: exI [of _ "e # es"] simp: E)
qed

lemma flow_closed:
  "image_mset dst E = image_mset src E \<Longrightarrow> no_circulation src dst E \<Longrightarrow> E = {#}"
  by (auto simp: no_circulation_def)

lemma trail_ranked:
  assumes "trail src dst a es b" "\<forall>e\<in>set es. rank (src e) < (rank (dst e) :: nat)"
  shows "sorted_wrt (\<lambda>e f. rank (dst e) \<le> rank (src f)) es \<and> (\<forall>e\<in>set es. rank a \<le> rank (src e) \<and> rank (dst e) \<le> rank b)"
  using assms
proof (induction es arbitrary: a)
  case (Cons e es)
  then have IH: "sorted_wrt (\<lambda>e f. rank (dst e) \<le> rank (src f)) es"
    "\<forall>f\<in>set es. rank (dst e) \<le> rank (src f) \<and> rank (dst f) \<le> rank b" by auto
  have "rank (dst e) \<le> rank b"
    using Cons.prems IH by (cases es) fastforce+
  moreover have "rank a \<le> rank (src f)" if "f \<in> set es" for f
    using that Cons.prems IH(2) by (metis le_trans list.set_intros(1) nat_less_le trail.simps(2))
  ultimately show ?case using Cons.prems IH by auto
qed simp

end
