(* ===== verification/Sub_Airs.thy ===== *)
theory Sub_Airs
  imports Var_Range
begin

unbundle bit_operations_syntax

text \<open>
  The comparison sub-AIRs of \<open>crates/circuits/primitives/src\<close>: \<open>assert_less_than\<close>,
  \<open>is_less_than\<close>, \<open>is_zero\<close>, \<open>is_equal\<close>, \<open>is_equal_array\<close>. A sub-AIR
  contributes assertions and range checks to the AIR that uses it, and a generator for its columns.
  The memory argument compares timestamps with them. The checks that a slice of limbs has the
  length of the array it is borrowed from are left out.
\<close>

section \<open>The model\<close>

text \<open>\<open>AssertLtSubAir\<close> and \<open>IsLtSubAir\<close> have the same fields and constructor; \<open>None\<close> is a failed \<open>assert!\<close>.\<close>

record lt_sub_air =
  sa_bus :: var_range_bus
  sa_max_bits :: nat
  sa_decomp_limbs :: nat

definition lt_sub_air_new :: "var_range_bus \<Rightarrow> nat \<Rightarrow> lt_sub_air option" where
  "lt_sub_air_new bus max_bits =
     (if max_bits \<le> 29 \<and> range_max_bits bus \<noteq> 0
      then Some \<lparr>sa_bus = bus, sa_max_bits = max_bits,
        sa_decomp_limbs = (max_bits + range_max_bits bus - 1) div range_max_bits bus\<rparr>
      else None)"

fun limb_range_checks :: "var_range_bus \<Rightarrow> nat \<Rightarrow> 'f::field list \<Rightarrow> 'f \<Rightarrow> 'f interaction list" where
  "limb_range_checks bus bits_remaining [] count = []"
| "limb_range_checks bus bits_remaining (limb # limbs) count =
     range_check bus limb (min bits_remaining (range_max_bits bus)) count #
     limb_range_checks bus (bits_remaining - range_max_bits bus) limbs count"

definition eval_range_checks :: "lt_sub_air \<Rightarrow> 'f::field list \<Rightarrow> 'f \<Rightarrow> 'f interaction list" where
  "eval_range_checks air lower_decomp count =
     limb_range_checks (sa_bus air) (sa_max_bits air) lower_decomp count"

definition assert_lt_eval ::
  "lt_sub_air \<Rightarrow> 'f::field \<Rightarrow> 'f \<Rightarrow> 'f \<Rightarrow> 'f list \<Rightarrow> 'f assertion list \<times> 'f interaction list" where
  "assert_lt_eval air x y count lower_decomp =
     (let intermed_val = y - x - 1;
          lower = compose lower_decomp (range_max_bits (sa_bus air))
      in ([When count (assert_eq intermed_val lower)], eval_range_checks air lower_decomp count))"

definition assert_lt_generate :: "lt_sub_air \<Rightarrow> nat \<Rightarrow> nat \<Rightarrow> 'f::field list \<times> lookup_request list" where
  "assert_lt_generate air x y =
     decompose (range_max_bits (sa_bus air)) (wsub 32 (wsub 32 y x) 1) (sa_max_bits air) (sa_decomp_limbs air)"

definition is_lt_eval ::
  "lt_sub_air \<Rightarrow> 'f::field \<Rightarrow> 'f \<Rightarrow> 'f \<Rightarrow> 'f \<Rightarrow> 'f list \<Rightarrow> 'f assertion list \<times> 'f interaction list" where
  "is_lt_eval air x y out count lower_decomp =
     (let intermed_val = y - x + of_nat (2 ^ sa_max_bits air - 1);
          lower = compose lower_decomp (range_max_bits (sa_bus air));
          check_val = lower + out * of_nat (2 ^ sa_max_bits air)
      in ([When count (assert_eq intermed_val check_val), assert_bool out],
          eval_range_checks air lower_decomp count))"

definition is_lt_generate :: "lt_sub_air \<Rightarrow> nat \<Rightarrow> nat \<Rightarrow> 'f::field \<times> 'f list \<times> lookup_request list" where
  "is_lt_generate air x y =
     (let check_less_than = wsub 32 (wsub 32 (wadd 32 (wshl 32 1 (sa_max_bits air)) y) x) 1;
          lower_u32 = check_less_than AND (2 ^ sa_max_bits air - 1)
      in (from_bool (x < y),
          decompose (range_max_bits (sa_bus air)) lower_u32 (sa_max_bits air) (sa_decomp_limbs air)))"

definition is_zero_eval :: "'f::field \<Rightarrow> 'f \<Rightarrow> 'f \<Rightarrow> 'f \<Rightarrow> 'f assertion list" where
  "is_zero_eval x out condition invx =
     [assert_zero (x * out), When condition (assert_one (out + x * invx))]"

definition is_zero_generate :: "'f::field \<Rightarrow> 'f \<times> 'f" where
  "is_zero_generate x = (if x = 0 then 0 else inverse x, from_bool (x = 0))"

definition is_eq_eval :: "'f::field \<Rightarrow> 'f \<Rightarrow> 'f \<Rightarrow> 'f \<Rightarrow> 'f \<Rightarrow> 'f assertion list" where
  "is_eq_eval x y out condition invx = is_zero_eval (x - y) out condition invx"

definition is_eq_generate :: "'f::field \<Rightarrow> 'f \<Rightarrow> 'f \<times> 'f" where
  "is_eq_generate x y = is_zero_generate (x - y)"

definition is_eq_array_eval ::
  "'f::field list \<Rightarrow> 'f list \<Rightarrow> 'f \<Rightarrow> 'f \<Rightarrow> 'f list \<Rightarrow> 'f assertion list" where
  "is_eq_array_eval x y out condition diff_inv_marker =
     (let zs = zip x (zip y diff_inv_marker);
          sum = fold (\<lambda>(x, y, inv_marker) sum. sum + (x - y) * inv_marker) zs out
      in map (\<lambda>(x, y, _). assert_zero (out * (x - y))) zs @
         [When condition (assert_one sum), assert_bool out])"

fun is_eq_array_markers :: "bool \<Rightarrow> 'f::field list \<Rightarrow> 'f list \<Rightarrow> 'f list \<times> bool" where
  "is_eq_array_markers is_eq (x # xs) (y # ys) =
     (if x \<noteq> y \<and> is_eq
      then let (ms, e) = is_eq_array_markers False xs ys in (inverse (x - y) # ms, e)
      else let (ms, e) = is_eq_array_markers is_eq xs ys in (0 # ms, e))"
| "is_eq_array_markers is_eq _ _ = ([], is_eq)"

definition is_eq_array_generate :: "'f::field list \<Rightarrow> 'f list \<Rightarrow> 'f list \<times> 'f" where
  "is_eq_array_generate x y = (let (ms, is_eq) = is_eq_array_markers True x y in (ms, from_bool is_eq))"

section \<open>Range-checked limbs\<close>

lemma range_check_value:
  fixes limb :: "'f::field"
  assumes "lookup_ok T (range_check bus limb b count)" "count \<noteq> 0"
    and T: "T (vr_index bus) = var_range_table (range_max_bits bus)"
    and b: "b \<le> range_max_bits bus" "range_max_bits bus < CHAR('f)"
  obtains v where "limb = of_nat v" "v < 2 ^ b"
proof -
  obtain b' v where bv: "b' \<le> range_max_bits bus" "v < 2 ^ b'" "limb = of_nat v" "of_nat b = (of_nat b' :: 'f)"
    using assms(1,2) by (auto simp: air_defs T var_range_table_def)
  then have "b = b'" using b by (subst (asm) of_nat_eq_iff_char) simp_all
  then show ?thesis using bv that by blast
qed

lemma limb_range_checks_value:
  fixes limbs :: "'f::field list"
  assumes "lookups_ok T (limb_range_checks bus bits limbs count)" "count \<noteq> 0"
    and T: "T (vr_index bus) = var_range_table (range_max_bits bus)" and b: "range_max_bits bus < CHAR('f)"
  obtains vs where "limbs = fels vs" "limbs_val (range_max_bits bus) vs < 2 ^ bits"
proof -
  have "\<exists>vs. limbs = fels vs \<and> limbs_val (range_max_bits bus) vs < 2 ^ bits"
    using assms(1)
  proof (induction limbs arbitrary: bits)
    case (Cons limb limbs)
    let ?m = "range_max_bits bus"
    obtain v where v: "limb = of_nat v" "v < 2 ^ min bits ?m"
      using range_check_value [of T bus limb "min bits ?m" count] assms(2) T b Cons.prems by auto
    obtain vs where vs: "limbs = fels vs" "limbs_val ?m vs < 2 ^ (bits - ?m)"
      using Cons by (fastforce simp: )
    have "v + 2 ^ ?m * limbs_val ?m vs < 2 ^ bits"
    proof (cases "bits \<le> ?m")
      case True
      then show ?thesis using v vs by simp
    next
      case False
      then have "(2::nat) ^ bits = 2 ^ ?m * 2 ^ (bits - ?m)" by (simp add: power_add [symmetric])
      moreover have "2 ^ ?m * (limbs_val ?m vs + 1) \<le> 2 ^ ?m * 2 ^ (bits - ?m)" using vs(2) by (intro mult_le_mono2) simp
      ultimately show ?thesis using v False by (simp add: min_def)
    qed
    then show ?case using v vs by (intro exI [of _ "v # vs"]) simp
  qed simp
  then show ?thesis using that by blast
qed

lemma to_limbs_range_checks:
  "limb_range_checks bus bits (fels (to_limbs (range_max_bits bus) n v) :: 'f::field list) 1 =
    concat (map (var_range_lookup bus) (limb_requests (range_max_bits bus) v bits n))"
  by (induction n arbitrary: v bits) (simp_all add: air_defs)

section \<open>Properties\<close>

lemma assert_lt_sound:
  fixes count :: "'f::field"
  assumes "all_satisfied (fst (assert_lt_eval air (of_nat a) (of_nat b) count ls))"
    and "lookups_ok T (snd (assert_lt_eval air (of_nat a) (of_nat b) count ls))" "count \<noteq> 0"
    and T: "T (vr_index (sa_bus air)) = var_range_table (range_max_bits (sa_bus air))"
    and bits: "range_max_bits (sa_bus air) < CHAR('f)" "2 ^ Suc (sa_max_bits air) \<le> CHAR('f)"
    and "a < 2 ^ sa_max_bits air" "b < 2 ^ sa_max_bits air"
  shows "a < b"
proof -
  obtain vs where vs: "ls = fels vs" "limbs_val (range_max_bits (sa_bus air)) vs < 2 ^ sa_max_bits air"
    using limb_range_checks_value [of T "sa_bus air" "sa_max_bits air" ls count] assms(2,3) T bits(1)
    by (auto simp: assert_lt_eval_def eval_range_checks_def Let_def)
  have "of_nat b - of_nat a - 1 = (of_nat (limbs_val (range_max_bits (sa_bus air)) vs) :: 'f)"
    using assms(1,3) by (simp add: assert_lt_eval_def Let_def vs(1) compose_fels)
  then have "of_int (int b - int a - 1) = (of_int (int (limbs_val (range_max_bits (sa_bus air)) vs)) :: 'f)" by simp
  moreover obtain P :: nat where P: "P = 2 ^ sa_max_bits air" by blast
  ultimately have "int b - int a - 1 = int (limbs_val (range_max_bits (sa_bus air)) vs)"
    using bits(2) vs(2) assms(7,8) unfolding power_Suc P [symmetric] by (intro of_int_eq_charD [where 'f = 'f]) linarith+
  then show ?thesis by simp
qed

text \<open>
  The limbs of the difference satisfy the constraints, for limbs of any width; the generator writes
  them when they are below 32 bits.
\<close>

lemma assert_lt_complete:
  fixes air
  defines "ls \<equiv> \<lambda>a b. fels (to_limbs (range_max_bits (sa_bus air)) (sa_decomp_limbs air) (b - a - 1))"
    and "reqs \<equiv> \<lambda>a b. limb_requests (range_max_bits (sa_bus air)) (b - a - 1) (sa_max_bits air) (sa_decomp_limbs air)"
  assumes "a < b" "b < 2 ^ sa_max_bits air" "sa_max_bits air \<le> range_max_bits (sa_bus air) * sa_decomp_limbs air"
  shows "all_satisfied (fst (assert_lt_eval air (of_nat a) (of_nat b) 1 (ls a b) :: 'f::field assertion list \<times> _))"
    "snd (assert_lt_eval air (of_nat a) (of_nat b) 1 (ls a b) :: 'f assertion list \<times> _) = concat (map (var_range_lookup (sa_bus air)) (reqs a b))"
    "list_all (var_range_request_ok (range_max_bits (sa_bus air))) (reqs a b)"
proof -
  have lt: "b - a - 1 < 2 ^ sa_max_bits air" using assms(4) by simp
  have "of_nat b - of_nat a - 1 = (of_nat (b - a - 1) :: 'f)" using assms(3) by (simp add: of_nat_diff)
  then show "all_satisfied (fst (assert_lt_eval air (of_nat a) (of_nat b) 1 (ls a b) :: 'f assertion list \<times> _))"
    using compose_to_limbs [OF lt assms(5), where 'f = 'f] by (simp add: assert_lt_eval_def Let_def ls_def)
  show "snd (assert_lt_eval air (of_nat a) (of_nat b) 1 (ls a b) :: 'f assertion list \<times> _) = concat (map (var_range_lookup (sa_bus air)) (reqs a b))"
    by (simp add: assert_lt_eval_def Let_def eval_range_checks_def ls_def reqs_def to_limbs_range_checks)
  show "list_all (var_range_request_ok (range_max_bits (sa_bus air))) (reqs a b)"
    unfolding reqs_def by (rule limb_requests_ok [OF lt])
qed

lemma assert_lt_generated:
  assumes "a < b" "b < 2 ^ sa_max_bits air" "sa_max_bits air \<le> 29" "range_max_bits (sa_bus air) < 32"
  shows "assert_lt_generate air a b = (fels (to_limbs (range_max_bits (sa_bus air)) (sa_decomp_limbs air) (b - a - 1)),
    limb_requests (range_max_bits (sa_bus air)) (b - a - 1) (sa_max_bits air) (sa_decomp_limbs air))"
proof -
  have "(2::nat) ^ sa_max_bits air \<le> 2 ^ 29" using assms(3) by (intro power_increasing) simp_all
  then have "b < 2 ^ 32" using assms(2) by simp
  then have "wsub 32 (wsub 32 b a) 1 = b - a - 1" using assms(1) by (simp add: wsub_small)
  then show ?thesis by (simp only: assert_lt_generate_def decompose_eq [OF assms(4)])
qed

lemma is_zero_sound:
  assumes "all_satisfied (is_zero_eval x out condition invx)" "condition \<noteq> 0"
  shows "out = from_bool (x = 0)"
  using assms by (auto simp: is_zero_eval_def from_bool_def)

lemma is_zero_complete: "is_zero_generate x = (invx, out) \<Longrightarrow> all_satisfied (is_zero_eval x out condition invx)"
  by (cases "x = 0") (auto simp: is_zero_eval_def is_zero_generate_def)

lemma is_lt_sound:
  fixes count :: "'f::field"
  assumes "all_satisfied (fst (is_lt_eval air (of_nat a) (of_nat b) out count ls))"
    and "lookups_ok T (snd (is_lt_eval air (of_nat a) (of_nat b) out count ls))" "count \<noteq> 0"
    and T: "T (vr_index (sa_bus air)) = var_range_table (range_max_bits (sa_bus air))"
    and bits: "range_max_bits (sa_bus air) < CHAR('f)" "2 ^ Suc (sa_max_bits air) < CHAR('f)"
    and ab: "a < 2 ^ sa_max_bits air" "b < 2 ^ sa_max_bits air"
  shows "out = from_bool (a < b)"
proof -
  let ?m = "range_max_bits (sa_bus air)" and ?b = "sa_max_bits air"
  obtain vs where vs: "ls = fels vs" "limbs_val ?m vs < 2 ^ ?b"
    using limb_range_checks_value [of T "sa_bus air" ?b ls count] assms(2,3) T bits(1)
    by (auto simp: is_lt_eval_def eval_range_checks_def Let_def)
  obtain k :: nat where k: "out = of_nat k" "k \<le> 1"
    using assms(1) by (auto simp: is_lt_eval_def Let_def intro: that [of 0] that [of 1])
  obtain P :: nat where P: "P = 2 ^ ?b" "0 < P" by simp
  have "of_nat b - of_nat a + of_nat (P - 1) = (of_nat (limbs_val ?m vs) + of_nat k * of_nat P :: 'f)"
    using assms(1,3) unfolding P(1) by (simp add: is_lt_eval_def Let_def vs(1) k(1) compose_fels)
  then have "of_int (int b - int a + int (P - 1)) = (of_int (int (limbs_val ?m vs) + int (k * P)) :: 'f)" by simp
  moreover have "k * P \<le> P" using k(2) by simp
  ultimately have "int b - int a + int (P - 1) = int (limbs_val ?m vs) + int (k * P)"
    using bits(2) vs(2) ab unfolding power_Suc P(1) [symmetric] by (intro of_int_eq_charD [where 'f = 'f]) linarith+
  then have "b + P = limbs_val ?m vs + k * P + a + 1" using P(2) by linarith
  moreover have "k = 0 \<or> k = 1" using k(2) by linarith
  ultimately have "k = (if a < b then 1 else 0)" using vs(2) unfolding P(1) [symmetric] by auto
  then show ?thesis by (simp add: k(1))
qed

definition is_lt_lower :: "lt_sub_air \<Rightarrow> nat \<Rightarrow> nat \<Rightarrow> nat" where
  "is_lt_lower air a b = (2 ^ sa_max_bits air + b - a - 1) mod 2 ^ sa_max_bits air"

lemma is_lt_complete:
  fixes air
  defines "ls \<equiv> \<lambda>a b. fels (to_limbs (range_max_bits (sa_bus air)) (sa_decomp_limbs air) (is_lt_lower air a b))"
    and "reqs \<equiv> \<lambda>a b. limb_requests (range_max_bits (sa_bus air)) (is_lt_lower air a b) (sa_max_bits air) (sa_decomp_limbs air)"
  assumes ab: "a < 2 ^ sa_max_bits air" "b < 2 ^ sa_max_bits air"
    and limbs: "sa_max_bits air \<le> range_max_bits (sa_bus air) * sa_decomp_limbs air"
  shows "all_satisfied (fst (is_lt_eval air (of_nat a) (of_nat b) (from_bool (a < b)) 1 (ls a b) :: 'f::field assertion list \<times> _))"
    "snd (is_lt_eval air (of_nat a) (of_nat b) (from_bool (a < b)) 1 (ls a b) :: 'f assertion list \<times> _) =
      concat (map (var_range_lookup (sa_bus air)) (reqs a b))"
    "list_all (var_range_request_ok (range_max_bits (sa_bus air))) (reqs a b)"
proof -
  obtain P :: nat where P: "P = 2 ^ sa_max_bits air" "0 < P" by simp
  let ?l = "is_lt_lower air a b"
  have lt: "?l < 2 ^ sa_max_bits air" using P by (simp add: is_lt_lower_def)
  have "P + b - a - 1 = ?l + (if a < b then P else 0)"
    using ab unfolding is_lt_lower_def P(1) [symmetric] by (auto simp: not_less mod_if)
  then have "b + (P - 1) = ?l + (if a < b then P else 0) + a" using ab P by auto
  then have "of_nat b + of_nat (P - 1) = (of_nat ?l + of_nat (if a < b then P else 0) + of_nat a :: 'f)"
    by (metis of_nat_add)
  then show "all_satisfied (fst (is_lt_eval air (of_nat a) (of_nat b) (from_bool (a < b)) 1 (ls a b) :: 'f assertion list \<times> _))"
    unfolding is_lt_eval_def Let_def fst_conv P(1) [symmetric] ls_def compose_to_limbs [OF lt limbs]
    by (auto simp: algebra_simps from_bool_def)
  show "snd (is_lt_eval air (of_nat a) (of_nat b) (from_bool (a < b)) 1 (ls a b) :: 'f assertion list \<times> _) =
      concat (map (var_range_lookup (sa_bus air)) (reqs a b))"
    by (simp add: is_lt_eval_def Let_def eval_range_checks_def ls_def reqs_def to_limbs_range_checks)
  show "list_all (var_range_request_ok (range_max_bits (sa_bus air))) (reqs a b)"
    unfolding reqs_def by (rule limb_requests_ok [OF lt])
qed

lemma is_lt_generated:
  assumes ab: "a < 2 ^ sa_max_bits air" "b < 2 ^ sa_max_bits air" and bits: "sa_max_bits air \<le> 29" "range_max_bits (sa_bus air) < 32"
  shows "is_lt_generate air a b = (from_bool (a < b),
    fels (to_limbs (range_max_bits (sa_bus air)) (sa_decomp_limbs air) (is_lt_lower air a b)),
    limb_requests (range_max_bits (sa_bus air)) (is_lt_lower air a b) (sa_max_bits air) (sa_decomp_limbs air))"
proof -
  let ?b = "sa_max_bits air"
  obtain P :: nat where P: "P = 2 ^ ?b" "0 < P" by simp
  have "P \<le> 2 ^ 29" unfolding P(1) using bits(1) by (intro power_increasing) simp_all
  then have small: "2 * P < 2 ^ 32" by simp
  have c: "wsub 32 (wsub 32 (wadd 32 (wshl 32 1 ?b) b) a) 1 = P + b - a - 1"
    using ab small unfolding P(1) [symmetric]
    by (simp add: wshl_small wadd_small wsub_small P(1) [symmetric] del: One_nat_def)
  then show ?thesis
    unfolding is_lt_generate_def Let_def c by (simp only: mask_eq_mod is_lt_lower_def P(1) decompose_eq [OF bits(2)])
qed

lemma lt_sub_air_newD:
  assumes "lt_sub_air_new bus max_bits = Some air"
  shows "sa_bus air = bus" "sa_max_bits air = max_bits" "max_bits \<le> 29" "max_bits \<le> range_max_bits bus * sa_decomp_limbs air"
proof -
  show "sa_bus air = bus" "sa_max_bits air = max_bits" "max_bits \<le> 29"
    using assms by (auto simp: lt_sub_air_new_def split: if_splits)
  let ?m = "range_max_bits bus"
  have "sa_decomp_limbs air = (max_bits + ?m - 1) div ?m" "0 < ?m"
    using assms by (auto simp: lt_sub_air_new_def split: if_splits)
  moreover have "max_bits + ?m - 1 < ?m * ((max_bits + ?m - 1) div ?m) + ?m" if "0 < ?m"
    using that by (metis add_less_cancel_left mod_less_divisor mult_div_mod_eq)
  ultimately show "max_bits \<le> ?m * sa_decomp_limbs air" by simp
qed

lemma is_eq_array_sum:
  "fold (\<lambda>(x, y, m) sum. sum + (x - y) * m) zs (s :: 'f::field) = s + (\<Sum>(x, y, m)\<leftarrow>zs. (x - y) * m)"
  by (induction zs arbitrary: s) (auto simp: algebra_simps)

lemma is_eq_array_sound:
  assumes "all_satisfied (is_eq_array_eval x y out condition ms)" "condition \<noteq> 0"
    and "length x = length y" "length ms = length y"
  shows "out = from_bool (x = y)"
proof (cases "x = y")
  case True
  have "(\<Sum>(x, y, m)\<leftarrow>zip y (zip y ms). (x - y) * m) = 0"
    using assms(4) by (induction ms y rule: list_induct2) simp_all
  then show ?thesis using assms True by (simp add: is_eq_array_eval_def Let_def is_eq_array_sum)
next
  case False
  then obtain i where i: "i < length x" "x ! i \<noteq> y ! i" using assms(3) nth_equalityI by blast
  then have "(x ! i, y ! i, ms ! i) \<in> set (zip x (zip y ms))"
    using assms(3,4) by (auto simp: set_zip intro!: exI [of _ i])
  then have "satisfied (assert_zero (out * (x ! i - y ! i)))"
    using assms(1) by (fastforce simp: is_eq_array_eval_def Let_def)
  then show ?thesis using i(2) False by simp
qed

lemma is_eq_array_markers_sum:
  assumes "length x = length y"
  shows "(\<Sum>(x, y, m)\<leftarrow>zip x (zip y (fst (is_eq_array_markers e x y))). (x - y) * m) = (from_bool (e \<and> x \<noteq> y) :: 'f::field)"
    "snd (is_eq_array_markers e x y) \<longleftrightarrow> e \<and> x = y"
  using assms by (induction x y arbitrary: e rule: list_induct2) (auto simp: Let_def case_prod_unfold)

lemma is_eq_array_complete:
  assumes "is_eq_array_generate x y = (ms, out)" "length x = length y"
  shows "all_satisfied (is_eq_array_eval x y out condition ms) \<and> out = from_bool (x = y)"
proof -
  have ms: "ms = fst (is_eq_array_markers True x y)" "out = from_bool (x = y)"
    using assms by (auto simp: is_eq_array_generate_def Let_def case_prod_unfold is_eq_array_markers_sum(2))
  then show ?thesis
    using is_eq_array_markers_sum(1) [OF assms(2), of True] assms(2)
    by (cases "x = y") (auto simp: is_eq_array_eval_def Let_def is_eq_array_sum set_zip)
qed

text \<open>
  C11. The comparisons are exact: for numbers of at most \<open>max_bits\<close> bits, limbs that satisfy
  the constraints of \<open>AssertLtSubAir\<close> exist exactly when \<open>a < b\<close>, and \<open>IsLtSubAir\<close> admits
  exactly the output \<open>a < b\<close>. The bound of 29 bits that the constructor asserts is what makes
  this true in a field of 31 bits.
\<close>

theorem less_than_sub_airs_exact:
  assumes air: "lt_sub_air_new bus max_bits = Some air"
    and T: "T (vr_index bus) = var_range_table (range_max_bits bus)"
    and char: "range_max_bits bus < CHAR('f::field)" "2 ^ 30 < CHAR('f)"
    and ab: "a < 2 ^ max_bits" "b < 2 ^ max_bits"
  shows "((\<exists>ls. all_satisfied (fst (assert_lt_eval air (of_nat a) (of_nat b) (1 :: 'f) ls)) \<and>
           lookups_ok T (snd (assert_lt_eval air (of_nat a) (of_nat b) 1 ls))) \<longleftrightarrow> a < b) \<and>
    (\<forall>out. (\<exists>ls. all_satisfied (fst (is_lt_eval air (of_nat a) (of_nat b) out (1 :: 'f) ls)) \<and>
           lookups_ok T (snd (is_lt_eval air (of_nat a) (of_nat b) out 1 ls))) \<longleftrightarrow> out = from_bool (a < b))"
proof (intro conjI iffI allI)
  note new = lt_sub_air_newD [OF air]
  have "(2::nat) ^ Suc max_bits \<le> 2 ^ 30" using new(3) by (intro power_increasing) simp_all
  then have pow: "2 ^ Suc (sa_max_bits air) < CHAR('f)" using char(2) new(2) by simp
  have T': "T (vr_index (sa_bus air)) = var_range_table (range_max_bits (sa_bus air))" using T new(1) by simp
  have ok: "lookups_ok T (concat (map (var_range_lookup (sa_bus air)) qs))"
    if "list_all (var_range_request_ok (range_max_bits (sa_bus air))) qs" for qs
    using lookups_ok_var_range [OF that] T' by metis
  show "a < b" if "\<exists>ls. all_satisfied (fst (assert_lt_eval air (of_nat a) (of_nat b) (1 :: 'f) ls)) \<and>
      lookups_ok T (snd (assert_lt_eval air (of_nat a) (of_nat b) 1 ls))"
    using that assert_lt_sound [where T = T and air = air and count = "1 :: 'f"] T' char(1) pow ab new(1,2) by force
  show "out = from_bool (a < b)" if "\<exists>ls. all_satisfied (fst (is_lt_eval air (of_nat a) (of_nat b) out (1 :: 'f) ls)) \<and>
      lookups_ok T (snd (is_lt_eval air (of_nat a) (of_nat b) out 1 ls))" for out
    using that is_lt_sound [where T = T and air = air and count = "1 :: 'f"] T' char(1) pow ab new(1,2) by force
  show "\<exists>ls. all_satisfied (fst (assert_lt_eval air (of_nat a) (of_nat b) (1 :: 'f) ls)) \<and>
      lookups_ok T (snd (assert_lt_eval air (of_nat a) (of_nat b) 1 ls))" if "a < b"
  proof -
    note complete = that ab(2) [folded new(2)] new(4) [folded new(1,2)]
    show ?thesis
      using assert_lt_complete(1,2) [where 'f = 'f, OF complete] assert_lt_complete(3) [OF complete] ok
      by (intro exI conjI) (assumption, simp)
  qed
  show "\<exists>ls. all_satisfied (fst (is_lt_eval air (of_nat a) (of_nat b) out (1 :: 'f) ls)) \<and>
      lookups_ok T (snd (is_lt_eval air (of_nat a) (of_nat b) out 1 ls))" if out: "out = from_bool (a < b)" for out
  proof -
    note complete = ab [folded new(2)] new(4) [folded new(1,2)]
    show ?thesis
      using is_lt_complete(1,2) [where 'f = 'f, OF complete] is_lt_complete(3) [OF complete] ok
      unfolding out by (intro exI conjI) (assumption, simp)
  qed
qed

theorem less_than_sub_airs_exact_witness:
  "\<exists>air. lt_sub_air_new \<lparr>vr_index = 3, range_max_bits = 17\<rparr> 29 = Some air \<and>
     (\<exists>ls. all_satisfied (fst (assert_lt_eval air (of_nat 5) (of_nat 131080) (1 :: bb) ls))) \<and>
     \<not> (\<exists>ls. all_satisfied (fst (assert_lt_eval air (of_nat 5) (of_nat 5) (1 :: bb) ls)) \<and>
       lookups_ok (\<lambda>_. var_range_table 17) (snd (assert_lt_eval air (of_nat 5) (of_nat 5) 1 ls)))"
proof -
  obtain air where air: "lt_sub_air_new \<lparr>vr_index = 3, range_max_bits = 17\<rparr> 29 = Some air"
    by (simp add: lt_sub_air_new_def)
  show ?thesis
    using less_than_sub_airs_exact [OF air, of "\<lambda>_. (var_range_table 17 :: bb list \<Rightarrow> bool)" 5 131080]
      less_than_sub_airs_exact [OF air, of "\<lambda>_. (var_range_table 17 :: bb list \<Rightarrow> bool)" 5 5]
    by (intro exI [of _ air] conjI air) (simp_all add: bb_CHAR del: of_nat_numeral, blast)
qed

end
