(* ===== verification/Guest_Memory.thy ===== *)
theory Guest_Memory
  imports Rust_Std Rv32_Opcodes
begin

text \<open>
  The memory of the guest: \<open>crates/vm/src/system/memory/online.rs\<close> with its two backends
  \<open>online/memmap.rs\<close> (the default) and \<open>online/basic.rs\<close>, and the cell types of
  \<open>arch/config.rs\<close>. Bytes are words of 8 bits. An access out of bounds panics, which is \<open>None\<close>;
  so does an address space that does not exist, which the code leaves undefined
  (\<open>get_unchecked\<close>). A value of a type \<open>T\<close> is the list of its bytes, and \<open>szT\<close> stands for
  \<open>size_of::<T>()\<close>.
\<close>

section \<open>Linear memories\<close>

definition PAGE_SIZE :: nat where "PAGE_SIZE = 4096"

definition div_ceil :: "nat \<Rightarrow> nat \<Rightarrow> nat" where
  "div_ceil x y = (if x mod y = 0 then x div y else x div y + 1)"

definition overwrite :: "'a list \<Rightarrow> nat \<Rightarrow> 'a list \<Rightarrow> 'a list" where
  "overwrite xs start vs = take start xs @ vs @ drop (start + length vs) xs"

lemma length_overwrite [simp]: "start + length vs \<le> length xs \<Longrightarrow> length (overwrite xs start vs) = length xs"
  by (simp add: overwrite_def)

lemma nth_overwrite:
  "start + length vs \<le> length xs \<Longrightarrow> i < length xs \<Longrightarrow>
   overwrite xs start vs ! i = (if start \<le> i \<and> i < start + length vs then vs ! (i - start) else xs ! i)"
  by (auto simp: overwrite_def nth_append)

text \<open>\<open>MmapMemory\<close>: an anonymous mapping of whole pages and the size that was asked for.\<close>

record mmap_memory =
  mm_mmap :: "u8 list"
  mm_size :: nat

definition mm_new :: "nat \<Rightarrow> mmap_memory" where
  "mm_new n = \<lparr>mm_mmap = replicate (div_ceil n PAGE_SIZE * PAGE_SIZE) 0, mm_size = n\<rparr>"

definition mm_check_bounds :: "mmap_memory \<Rightarrow> nat \<Rightarrow> nat \<Rightarrow> bool" where
  "mm_check_bounds m start n \<longleftrightarrow> \<not> (start > mm_size m \<or> n > mm_size m - start)"

definition mm_as_slice :: "mmap_memory \<Rightarrow> u8 list" where
  "mm_as_slice m = take (mm_size m) (mm_mmap m)"

definition mm_fill_zero :: "mmap_memory \<Rightarrow> mmap_memory" where
  "mm_fill_zero m = m\<lparr>mm_mmap := replicate (length (mm_mmap m)) 0\<rparr>"

definition mm_read :: "nat \<Rightarrow> mmap_memory \<Rightarrow> nat \<Rightarrow> u8 list option" where
  "mm_read n m start = (if mm_check_bounds m start n then Some (take n (drop start (mm_mmap m))) else None)"

definition mm_write :: "mmap_memory \<Rightarrow> nat \<Rightarrow> u8 list \<Rightarrow> mmap_memory option" where
  "mm_write m start vs =
     (if mm_check_bounds m start (length vs) then Some (m\<lparr>mm_mmap := overwrite (mm_mmap m) start vs\<rparr>)
      else None)"

definition mm_swap :: "mmap_memory \<Rightarrow> nat \<Rightarrow> u8 list \<Rightarrow> (mmap_memory \<times> u8 list) option" where
  "mm_swap m start vs =
     (if mm_check_bounds m start (length vs)
      then Some (m\<lparr>mm_mmap := overwrite (mm_mmap m) start vs\<rparr>, take (length vs) (drop start (mm_mmap m)))
      else None)"

text \<open>\<open>BasicMemory\<close>: one allocation of exactly the size that was asked for.\<close>

type_synonym basic_memory = "u8 list"

definition bm_new :: "nat \<Rightarrow> basic_memory" where "bm_new n = replicate n 0"

definition bm_read :: "nat \<Rightarrow> basic_memory \<Rightarrow> nat \<Rightarrow> u8 list option" where
  "bm_read n m start = (if start + n \<le> length m then Some (take n (drop start m)) else None)"

definition bm_write :: "basic_memory \<Rightarrow> nat \<Rightarrow> u8 list \<Rightarrow> basic_memory option" where
  "bm_write m start vs = (if start + length vs \<le> length m then Some (overwrite m start vs) else None)"

definition bm_swap :: "basic_memory \<Rightarrow> nat \<Rightarrow> u8 list \<Rightarrow> (basic_memory \<times> u8 list) option" where
  "bm_swap m start vs =
     (if start + length vs \<le> length m
      then Some (overwrite m start vs, take (length vs) (drop start m)) else None)"

text \<open>
  The trait \<open>LinearMemory\<close> as a locale: what its methods promise in terms of \<open>as_slice\<close>. Both
  backends implement it.
\<close>

locale linear_memory =
  fixes new :: "nat \<Rightarrow> 'm" and as_slice :: "'m \<Rightarrow> u8 list"
    and rd :: "nat \<Rightarrow> 'm \<Rightarrow> nat \<Rightarrow> u8 list option" and wr :: "'m \<Rightarrow> nat \<Rightarrow> u8 list \<Rightarrow> 'm option"
    and swap :: "'m \<Rightarrow> nat \<Rightarrow> u8 list \<Rightarrow> ('m \<times> u8 list) option" and ok :: "'m \<Rightarrow> bool"
  assumes new: "ok (new n) \<and> as_slice (new n) = replicate n 0"
    and rd: "ok m \<Longrightarrow> rd n m i = (if i + n \<le> length (as_slice m) then Some (take n (drop i (as_slice m))) else None)"
    and write_None: "ok m \<Longrightarrow> wr m i vs = None \<longleftrightarrow> length (as_slice m) < i + length vs"
    and write_Some: "ok m \<Longrightarrow> wr m i vs = Some m' \<Longrightarrow> ok m' \<and> as_slice m' = overwrite (as_slice m) i vs"
    and swap: "ok m \<Longrightarrow> swap m i vs = (case wr m i vs of None \<Rightarrow> None
      | Some m' \<Rightarrow> map_option (Pair m') (rd (length vs) m i))"
begin

lemma write_bound: "ok m \<Longrightarrow> wr m i vs = Some m' \<Longrightarrow> i + length vs \<le> length (as_slice m)"
  using write_None [of m i vs] by simp

lemma size_write: "ok m \<Longrightarrow> wr m i vs = Some m' \<Longrightarrow> length (as_slice m') = length (as_slice m)"
  using write_bound [of m i vs m'] write_Some [of m i vs m'] by simp

lemma read_write_same: "ok m \<Longrightarrow> wr m i vs = Some m' \<Longrightarrow> rd (length vs) m' i = Some vs"
  using write_bound [of m i vs m'] write_Some [of m i vs m'] by (simp add: rd overwrite_def)

lemma read_write_disjoint:
  assumes "ok m" "wr m i vs = Some m'" "j + n \<le> i \<or> i + length vs \<le> j"
  shows "rd n m' j = rd n m j"
proof -
  note b = write_bound [OF assms(1,2)] and s = write_Some [OF assms(1,2)]
  have "take n (drop j (overwrite (as_slice m) i vs)) = take n (drop j (as_slice m))"
    if "j + n \<le> length (as_slice m)"
    by (rule nth_equalityI) (use b that assms(3) in \<open>auto simp: nth_overwrite\<close>)
  then show ?thesis using b s assms(1) by (simp add: rd)
qed

lemma swap_Some:
  assumes "ok m" "swap m i vs = Some (m', old)"
  shows "wr m i vs = Some m'" "rd (length vs) m i = Some old"
  using assms by (auto simp: swap split: option.splits)

end

definition mm_ok :: "mmap_memory \<Rightarrow> bool" where
  "mm_ok m \<longleftrightarrow> mm_size m \<le> length (mm_mmap m)"

lemma div_ceil_ge: "0 < y \<Longrightarrow> x \<le> div_ceil x y * y"
proof -
  assume y: "0 < y"
  have x: "x div y * y + x mod y = x" by (rule div_mult_mod_eq)
  have "x \<le> x div y * y + y" using mod_less_divisor [OF y, of x] x by linarith
  then show ?thesis using x by (auto simp: div_ceil_def)
qed

interpretation mmap: linear_memory mm_new mm_as_slice mm_read mm_write mm_swap mm_ok
proof
  note [simp] = mm_ok_def mm_as_slice_def mm_check_bounds_def
  show "mm_ok (mm_new n) \<and> mm_as_slice (mm_new n) = replicate n 0" for n
    using div_ceil_ge [of PAGE_SIZE n] by (simp add: mm_new_def PAGE_SIZE_def)
  show "mm_read n m i = (if i + n \<le> length (mm_as_slice m) then Some (take n (drop i (mm_as_slice m))) else None)"
    if "mm_ok m" for m n i
    using that by (auto simp: mm_read_def drop_take min_def)
  show "mm_write m i vs = None \<longleftrightarrow> length (mm_as_slice m) < i + length vs" if "mm_ok m" for m i vs
    using that by (auto simp: mm_write_def)
  show "mm_ok m' \<and> mm_as_slice m' = overwrite (mm_as_slice m) i vs"
    if "mm_ok m" "mm_write m i vs = Some m'" for m i vs m'
    using that by (auto simp: mm_write_def overwrite_def drop_take split: if_splits)
  show "mm_swap m i vs = (case mm_write m i vs of None \<Rightarrow> None
      | Some m' \<Rightarrow> map_option (Pair m') (mm_read (length vs) m i))" for m i vs
    by (simp add: mm_swap_def mm_write_def mm_read_def)
qed

interpretation basic: linear_memory bm_new "\<lambda>m. m" bm_read bm_write bm_swap "\<lambda>_. True"
  by unfold_locales (auto simp: bm_new_def bm_read_def bm_write_def bm_swap_def split: if_splits)

section \<open>Address spaces\<close>

datatype MemoryCellType = CellNull | CellU8 | CellU16 | CellU32 | CellF nat

fun cell_size :: "MemoryCellType \<Rightarrow> nat" where
  "cell_size CellNull = 1"
| "cell_size CellU8 = 1"
| "cell_size CellU16 = 2"
| "cell_size CellU32 = 4"
| "cell_size (CellF n) = n"

definition field32 :: MemoryCellType where "field32 = CellF 4"

record addr_space_config =
  num_cells :: nat
  layout :: MemoryCellType

record address_map =
  am_mem :: "mmap_memory list"
  am_config :: "addr_space_config list"

text \<open>
  \<open>AddressMap::new\<close> panics unless address space 0 is empty, and when the size of a space
  overflows.
\<close>

definition am_new :: "addr_space_config list \<Rightarrow> address_map option" where
  "am_new config =
     (if config \<noteq> [] \<and> num_cells (config ! 0) = 0 \<and>
         list_all (\<lambda>c. num_cells c * cell_size (layout c) < 2 ^ 64) config
      then Some \<lparr>am_mem = map (\<lambda>c. mm_new (num_cells c * cell_size (layout c))) config,
                 am_config = config\<rparr>
      else None)"

definition am_fill_zero :: "address_map \<Rightarrow> address_map" where
  "am_fill_zero am = am\<lparr>am_mem := map mm_fill_zero (am_mem am)\<rparr>"

text \<open>\<open>GuestMemory\<close> wraps an \<open>AddressMap\<close>.\<close>

definition gm_read :: "nat \<Rightarrow> nat \<Rightarrow> address_map \<Rightarrow> nat \<Rightarrow> u32 \<Rightarrow> u8 list option" where
  "gm_read szT block am addr_space ptr =
     (if addr_space < length (am_mem am)
      then mm_read (block * szT) (am_mem am ! addr_space) (unat ptr * szT) else None)"

definition gm_write :: "nat \<Rightarrow> address_map \<Rightarrow> nat \<Rightarrow> u32 \<Rightarrow> u8 list \<Rightarrow> address_map option" where
  "gm_write szT am addr_space ptr vs =
     (if addr_space < length (am_mem am)
      then map_option (\<lambda>m. am\<lparr>am_mem := (am_mem am)[addr_space := m]\<rparr>)
        (mm_write (am_mem am ! addr_space) (unat ptr * szT) vs)
      else None)"

definition gm_swap :: "nat \<Rightarrow> address_map \<Rightarrow> nat \<Rightarrow> u32 \<Rightarrow> u8 list \<Rightarrow> (address_map \<times> u8 list) option" where
  "gm_swap szT am addr_space ptr vs =
     (if addr_space < length (am_mem am)
      then map_option (\<lambda>(m, old). (am\<lparr>am_mem := (am_mem am)[addr_space := m]\<rparr>, old))
        (mm_swap (am_mem am ! addr_space) (unat ptr * szT) vs)
      else None)"

fun set_from_sparse :: "((nat \<times> u32) \<times> u8) list \<Rightarrow> address_map \<Rightarrow> address_map option" where
  "set_from_sparse [] am = Some am"
| "set_from_sparse (((addr_space, index), data_byte) # rest) am =
     (case gm_write 1 am addr_space index [data_byte] of
        None \<Rightarrow> None
      | Some am' \<Rightarrow> set_from_sparse rest am')"

definition create_memory_image ::
  "addr_space_config list \<Rightarrow> (nat \<times> u32, u8) btree_map \<Rightarrow> address_map option" where
  "create_memory_image config init_memory =
     (case am_new config of None \<Rightarrow> None | Some inner \<Rightarrow> set_from_sparse init_memory inner)"

subsection \<open>The bytes of a memory\<close>

text \<open>
  The abstract view of a memory: the size of each address space and the byte at each index.
\<close>

definition am_ok :: "address_map \<Rightarrow> bool" where
  "am_ok am \<longleftrightarrow> list_all mm_ok (am_mem am)"

definition as_size :: "address_map \<Rightarrow> nat \<Rightarrow> nat" where
  "as_size am sp = (if sp < length (am_mem am) then length (mm_as_slice (am_mem am ! sp)) else 0)"

definition byte_at :: "address_map \<Rightarrow> nat \<Rightarrow> nat \<Rightarrow> u8" where
  "byte_at am sp i = mm_as_slice (am_mem am ! sp) ! i"

lemma am_okD: "am_ok am \<Longrightarrow> sp < length (am_mem am) \<Longrightarrow> mm_ok (am_mem am ! sp)"
  by (simp add: am_ok_def list_all_length)

lemma gm_read_eq:
  assumes "am_ok am" "0 < n * szT"
  shows "gm_read szT n am sp ptr =
    (if unat ptr * szT + n * szT \<le> as_size am sp
     then Some (map (\<lambda>i. byte_at am sp (unat ptr * szT + i)) [0..<n * szT]) else None)"
proof (cases "sp < length (am_mem am)")
  case True
  let ?s = "mm_as_slice (am_mem am ! sp)" and ?p = "unat ptr * szT"
  have "take (n * szT) (drop ?p ?s) = map (\<lambda>i. ?s ! (?p + i)) [0..<n * szT]" if "?p + n * szT \<le> length ?s"
    by (rule nth_equalityI) (use that in auto)
  then show ?thesis
    using True by (simp add: gm_read_def mmap.rd [OF am_okD [OF assms(1)]] as_size_def byte_at_def)
qed (use assms(2) in \<open>auto simp: gm_read_def as_size_def\<close>)

lemma gm_write_None:
  assumes "am_ok am" "vs \<noteq> []"
  shows "gm_write szT am sp ptr vs = None \<longleftrightarrow> as_size am sp < unat ptr * szT + length vs"
proof (cases "sp < length (am_mem am)")
  case True
  then show ?thesis
    using mmap.write_None [OF am_okD [OF assms(1) True]] by (simp add: gm_write_def as_size_def)
qed (use assms(2) in \<open>auto simp: gm_write_def as_size_def\<close>)

lemma gm_write_Some:
  assumes "am_ok am" "gm_write szT am sp ptr vs = Some am'"
  shows "am_ok am'" "as_size am' = as_size am" "am_config am' = am_config am"
    "i < as_size am sp' \<Longrightarrow> byte_at am' sp' i =
      (if sp' = sp \<and> unat ptr * szT \<le> i \<and> i < unat ptr * szT + length vs
       then vs ! (i - unat ptr * szT) else byte_at am sp' i)"
proof -
  obtain m where sp: "sp < length (am_mem am)" and m: "mm_write (am_mem am ! sp) (unat ptr * szT) vs = Some m"
    and am': "am' = am\<lparr>am_mem := (am_mem am)[sp := m]\<rparr>"
    using assms(2) by (auto simp: gm_write_def split: if_splits)
  note ok = am_okD [OF assms(1) sp]
  note w = mmap.write_Some [OF ok m] and b = mmap.write_bound [OF ok m] and s = mmap.size_write [OF ok m]
  show "am_ok am'" using assms(1) w sp unfolding am' am_ok_def
    by (simp add: list_all_length nth_list_update)
  show "as_size am' = as_size am" using s sp unfolding am' by (auto simp: as_size_def nth_list_update fun_eq_iff)
  show "am_config am' = am_config am" by (simp add: am')
  show "byte_at am' sp' i = (if sp' = sp \<and> unat ptr * szT \<le> i \<and> i < unat ptr * szT + length vs
       then vs ! (i - unat ptr * szT) else byte_at am sp' i)" if "i < as_size am sp'"
    using that w b sp unfolding am'
    by (auto simp: byte_at_def as_size_def nth_overwrite nth_list_update split: if_splits)
qed

lemma gm_swap_eq:
  "gm_swap szT am sp ptr vs =
    (case gm_write szT am sp ptr vs of None \<Rightarrow> None
     | Some am' \<Rightarrow> map_option (Pair am') (if sp < length (am_mem am)
         then mm_read (length vs) (am_mem am ! sp) (unat ptr * szT) else None))"
  by (simp add: gm_swap_def gm_write_def mm_swap_def mm_write_def mm_read_def)

lemma gm_write_bound:
  assumes "am_ok am" "gm_write szT am sp ptr vs = Some am'" "vs \<noteq> []"
  shows "unat ptr * szT + length vs \<le> as_size am sp"
  using gm_write_None [OF assms(1,3), of szT sp ptr] assms(2) by (simp add: not_less)

lemma gm_read_cong:
  assumes "am_ok am" "am_ok am'" "as_size am' sp = as_size am sp" "0 < n * szT"
    and "\<And>i. i < n * szT \<Longrightarrow> unat ptr * szT + i < as_size am sp \<Longrightarrow>
      byte_at am' sp (unat ptr * szT + i) = byte_at am sp (unat ptr * szT + i)"
  shows "gm_read szT n am' sp ptr = gm_read szT n am sp ptr"
  using assms by (auto simp: gm_read_eq)

lemma gm_read_write_same:
  assumes "am_ok am" "gm_write szT am sp ptr vs = Some am'" "length vs = n * szT" "0 < n * szT"
  shows "gm_read szT n am' sp ptr = Some vs"
proof -
  note w = gm_write_Some [OF assms(1,2)]
  have ne: "vs \<noteq> []" using assms(3,4) by auto
  have b: "unat ptr * szT + n * szT \<le> as_size am sp"
    using gm_write_bound [OF assms(1,2) ne] assms(3) by simp
  have "map (\<lambda>i. byte_at am' sp (unat ptr * szT + i)) [0..<n * szT] = vs"
    by (rule nth_equalityI) (use w(4) b assms(3) in auto)
  then show ?thesis using b w assms(4) by (simp add: gm_read_eq)
qed

lemma gm_read_write_disjoint:
  assumes "am_ok am" "gm_write szT am sp ptr vs = Some am'" "length vs = n * szT" "0 < k * szT"
    and "sp' \<noteq> sp \<or> unat ptr' + k \<le> unat ptr \<or> unat ptr + n \<le> unat ptr'"
  shows "gm_read szT k am' sp' ptr' = gm_read szT k am sp' ptr'"
proof (rule gm_read_cong [OF assms(1)])
  note w = gm_write_Some [OF assms(1,2)]
  show "am_ok am'" "as_size am' sp' = as_size am sp'" using w by simp_all
  fix i assume i: "i < k * szT" "unat ptr' * szT + i < as_size am sp'"
  have "\<not> (unat ptr * szT \<le> unat ptr' * szT + i \<and> unat ptr' * szT + i < unat ptr * szT + n * szT)"
    if "sp' = sp"
  proof -
    consider "unat ptr' + k \<le> unat ptr" | "unat ptr + n \<le> unat ptr'" using assms(5) \<open>sp' = sp\<close> by blast
    then have "(unat ptr' + k) * szT \<le> unat ptr * szT \<or> (unat ptr + n) * szT \<le> unat ptr' * szT"
      by cases (simp_all only: mult_le_mono1 simp_thms)
    then show ?thesis using i(1) by (auto simp: add_mult_distrib)
  qed
  then show "byte_at am' sp' (unat ptr' * szT + i) = byte_at am sp' (unat ptr' * szT + i)"
    using w(4) [OF i(2)] assms(3) by auto
qed (rule assms(4))

text \<open>
  C29. Guest memory behaves as byte-addressed storage. A write panics exactly when the read of the
  same block does (out of bounds). After a write, reading the block returns what was written,
  every block that does not overlap it, or is in another address space, reads as before, and
  \<open>swap\<close> does the same and returns what was there.
\<close>

theorem guest_memory_read_write:
  assumes "am_ok am" "length vs = n * szT" "0 < n * szT"
  shows "(gm_write szT am sp ptr vs = None \<longleftrightarrow> gm_read szT n am sp ptr = None) \<and>
    (\<forall>am'. gm_write szT am sp ptr vs = Some am' \<longrightarrow>
      am_ok am' \<and> gm_read szT n am' sp ptr = Some vs \<and>
      gm_swap szT am sp ptr vs = map_option (Pair am') (gm_read szT n am sp ptr) \<and>
      (\<forall>sp' ptr' k. 0 < k * szT \<and> (sp' \<noteq> sp \<or> unat ptr' + k \<le> unat ptr \<or> unat ptr + n \<le> unat ptr') \<longrightarrow>
        gm_read szT k am' sp' ptr' = gm_read szT k am sp' ptr'))"
proof (intro conjI allI impI)
  have ne: "vs \<noteq> []" using assms(2,3) by auto
  show "gm_write szT am sp ptr vs = None \<longleftrightarrow> gm_read szT n am sp ptr = None"
    using gm_write_None [OF assms(1) ne, of szT sp ptr] assms by (simp add: gm_read_eq not_le)
next
  fix am' assume w: "gm_write szT am sp ptr vs = Some am'"
  show "am_ok am'" by (rule gm_write_Some [OF assms(1) w])
  show "gm_read szT n am' sp ptr = Some vs" by (rule gm_read_write_same [OF assms(1) w assms(2,3)])
  show "gm_swap szT am sp ptr vs = map_option (Pair am') (gm_read szT n am sp ptr)"
    using w assms(2) by (simp add: gm_swap_eq gm_read_def)
  fix sp' k :: nat and ptr' :: u32
  assume "0 < k * szT \<and> (sp' \<noteq> sp \<or> unat ptr' + k \<le> unat ptr \<or> unat ptr + n \<le> unat ptr')"
  then show "gm_read szT k am' sp' ptr' = gm_read szT k am sp' ptr'"
    using gm_read_write_disjoint [OF assms(1) w assms(2)] by blast
qed

definition small_config :: "addr_space_config list" where
  "small_config = [\<lparr>num_cells = 0, layout = CellNull\<rparr>, \<lparr>num_cells = 128, layout = CellU8\<rparr>,
     \<lparr>num_cells = 64, layout = CellU8\<rparr>]"

lemma am_ok_new: "am_new config = Some am \<Longrightarrow> am_ok am \<and> am_config am = config \<and>
    (\<forall>sp. as_size am sp = (if sp < length config then num_cells (config ! sp) * cell_size (layout (config ! sp)) else 0)) \<and>
    (\<forall>sp i. i < as_size am sp \<longrightarrow> byte_at am sp i = 0)"
  using mmap.new by (auto simp: am_new_def am_ok_def list_all_iff as_size_def byte_at_def split: if_splits)

lemma set_from_sparse_Some:
  assumes "am_ok am" "distinct (map fst img)" "set_from_sparse img am = Some am'"
  shows "am_ok am' \<and> as_size am' = as_size am \<and> am_config am' = am_config am \<and>
    (\<forall>sp i. i < as_size am sp \<longrightarrow> i < 2 ^ 32 \<longrightarrow> byte_at am' sp i =
      (case map_of img (sp, word_of_nat i) of Some b \<Rightarrow> b | None \<Rightarrow> byte_at am sp i))"
  using assms
proof (induction img arbitrary: am)
  case (Cons e img)
  obtain sp0 p0 b0 where e: "e = ((sp0, p0), b0)" by (metis prod.exhaust)
  obtain am1 where w: "gm_write 1 am sp0 p0 [b0] = Some am1" and rest: "set_from_sparse img am1 = Some am'"
    using Cons.prems(3) e by (auto split: option.splits)
  note w1 = gm_write_Some [OF Cons.prems(1) w]
  have IH: "am_ok am' \<and> as_size am' = as_size am1 \<and> am_config am' = am_config am1 \<and>
    (\<forall>sp i. i < as_size am1 sp \<longrightarrow> i < 2 ^ 32 \<longrightarrow> byte_at am' sp i =
      (case map_of img (sp, word_of_nat i) of Some b \<Rightarrow> b | None \<Rightarrow> byte_at am1 sp i))"
    by (rule Cons.IH) (use w1 rest Cons.prems(2) in simp_all)
  have new: "map_of img (sp0, p0) = None" using Cons.prems(2) e by (auto simp: map_of_eq_None_iff)
  have key: "p0 = word_of_nat i \<longleftrightarrow> unat p0 = i" if "i < 2 ^ 32" for i
    using that by (auto simp: word_unat_eq_iff unsigned_of_nat take_bit_nat_eq_self)
  have "byte_at am' sp i = (case map_of (e # img) (sp, word_of_nat i) of Some b \<Rightarrow> b | None \<Rightarrow> byte_at am sp i)"
    if "i < as_size am sp" "i < 2 ^ 32" for sp i
    using that IH w1(2) w1(4) [OF that(1)] new e key [OF that(2)]
    by (auto split: option.splits)
  then show ?case using IH w1(2,3) by simp
qed (auto split: option.splits)

text \<open>The initial memory: the bytes of the image, and zero elsewhere.\<close>

lemma create_memory_image_bytes:
  assumes "bt_ok img" "create_memory_image config img = Some am"
  shows "am_ok am \<and> am_config am = config \<and>
    (\<forall>sp. as_size am sp = (if sp < length config then num_cells (config ! sp) * cell_size (layout (config ! sp)) else 0)) \<and>
    (\<forall>sp i. i < as_size am sp \<longrightarrow> i < 2 ^ 32 \<longrightarrow>
      byte_at am sp i = (case map_of img (sp, word_of_nat i) of Some b \<Rightarrow> b | None \<Rightarrow> 0))"
proof -
  obtain am0 where n: "am_new config = Some am0" and s: "set_from_sparse img am0 = Some am"
    using assms(2) by (auto simp: create_memory_image_def split: option.splits)
  have "distinct (map fst img)" using assms(1) by (simp add: bt_ok_def strict_sorted_iff)
  from am_ok_new [OF n] set_from_sparse_Some [OF _ this s] show ?thesis by (auto split: option.splits)
qed

theorem guest_memory_read_write_witness:
  "\<exists>am am'. am_new small_config = Some am \<and> gm_write 1 am 2 8 [1, 2, 3, 4] = Some am' \<and>
     gm_read 1 4 am' 2 8 = Some [1, 2, 3, 4]"
proof -
  obtain am where am: "am_new small_config = Some am" by (simp add: am_new_def small_config_def)
  note ok = am_ok_new [OF am]
  have "gm_read 1 4 am 2 8 \<noteq> None" using ok by (simp add: gm_read_eq small_config_def)
  then obtain am' where "gm_write 1 am 2 8 [1, 2, 3, 4] = Some am'"
    using guest_memory_read_write [of am "[1, 2, 3, 4]" 4 1 2 8] ok by auto
  then show ?thesis using guest_memory_read_write [of am "[1, 2, 3, 4]" 4 1 2 8] ok am by auto
qed

end
