(* ===== verification/Tracing_Memory.thy ===== *)
theory Tracing_Memory
  imports Guest_Memory "HOL-Library.Multiset"
begin

text \<open>
  \<open>TracingMemory\<close> of \<open>crates/vm/src/system/memory/online.rs\<close>: guest memory that keeps, for each
  block of four cells, the timestamp of its latest access, in the sparse vectors of
  \<open>online/paged_vec.rs\<close>. The memory argument of the proof rests on what it records: the previous
  timestamp of each access and, at the end, the touched blocks. Timestamps are \<open>u32\<close>, with the
  wrap-around written out.
\<close>

section \<open>Paged vectors\<close>

type_synonym paged_vec = "nat list option list"

definition pv_new :: "nat \<Rightarrow> nat \<Rightarrow> paged_vec" where
  "pv_new ps total_size = replicate (div_ceil total_size ps) None"

definition create_zeroed_page :: "nat \<Rightarrow> nat list" where
  "create_zeroed_page ps = replicate ps 0"

definition pv_get :: "nat \<Rightarrow> paged_vec \<Rightarrow> nat \<Rightarrow> nat option" where
  "pv_get ps v i =
     (if i div ps < length v
      then Some (case v ! (i div ps) of None \<Rightarrow> 0 | Some page \<Rightarrow> page ! (i mod ps)) else None)"

definition pv_set :: "nat \<Rightarrow> paged_vec \<Rightarrow> nat \<Rightarrow> nat \<Rightarrow> paged_vec option" where
  "pv_set ps v i x =
     (if i div ps < length v
      then Some (v[i div ps := Some ((case v ! (i div ps) of
          None \<Rightarrow> create_zeroed_page ps | Some page \<Rightarrow> page)[i mod ps := x])])
      else None)"

definition pv_iter :: "nat \<Rightarrow> paged_vec \<Rightarrow> (nat \<times> nat) list" where
  "pv_iter ps v =
     concat (map (\<lambda>(page_idx, page). case page of
         None \<Rightarrow> []
       | Some p \<Rightarrow> map (\<lambda>(offset, value). (page_idx * ps + offset, value)) (enumerate 0 p))
       (enumerate 0 v))"

definition pv_ok :: "nat \<Rightarrow> paged_vec \<Rightarrow> bool" where
  "pv_ok ps v \<longleftrightarrow> 0 < ps \<and> (\<forall>p. Some p \<in> set v \<longrightarrow> length p = ps)"

text \<open>A paged vector is an array of \<open>u32\<close> that is zero where it was never set.\<close>

locale zeroed_array =
  fixes new :: "nat \<Rightarrow> 'v" and get :: "'v \<Rightarrow> nat \<Rightarrow> nat option" and upd :: "'v \<Rightarrow> nat \<Rightarrow> nat \<Rightarrow> 'v option"
    and ok :: "'v \<Rightarrow> bool"
  assumes new_ok: "ok (new n)" and get_new: "i < n \<Longrightarrow> get (new n) i = Some 0"
    and upd_None: "ok v \<Longrightarrow> upd v i x = None \<longleftrightarrow> get v i = None"
    and upd_Some: "ok v \<Longrightarrow> upd v i x = Some v' \<Longrightarrow> ok v' \<and> get v' = (get v)(i \<mapsto> x)"

lemma pv_get_set:
  assumes "pv_ok ps v" "pv_set ps v i x = Some v'"
  shows "pv_ok ps v' \<and> pv_get ps v' = (pv_get ps v)(i \<mapsto> x)"
proof -
  let ?p = "i div ps" and ?o = "i mod ps"
  let ?page = "case v ! ?p of None \<Rightarrow> create_zeroed_page ps | Some page \<Rightarrow> page"
  have ps: "0 < ps" and lt: "?p < length v" and v': "v' = v[?p := Some (?page[?o := x])]"
    using assms by (auto simp: pv_ok_def pv_set_def split: if_splits)
  have len: "length ?page = ps"
    using assms(1) lt by (auto simp: pv_ok_def create_zeroed_page_def split: option.splits) (metis nth_mem)
  have pg: "?page ! j = the (pv_get ps v (?p * ps + j))" if "j < ps" for j
    using that lt ps by (auto simp: pv_get_def create_zeroed_page_def split: option.splits)
  have "pv_get ps v' j = ((pv_get ps v)(i \<mapsto> x)) j" for j
  proof (cases "j div ps = ?p")
    case True
    then have j: "j = ?p * ps + j mod ps" by (metis div_mult_mod_eq)
    have "j mod ps = ?o \<longleftrightarrow> j = i" using True by (metis div_mult_mod_eq)
    moreover have "pv_get ps v j = Some (?page ! (j mod ps))"
      using True lt ps pg [of "j mod ps"] j by (simp add: pv_get_def)
    ultimately show ?thesis using True lt ps len by (auto simp: pv_get_def v')
  next
    case False
    then have "j \<noteq> i" by auto
    then show ?thesis using False by (simp add: pv_get_def v')
  qed
  moreover have "pv_ok ps v'"
    using assms(1) lt len unfolding v' pv_ok_def by (auto dest!: set_update_subset_insert [THEN subsetD])
  ultimately show ?thesis by (simp add: fun_eq_iff)
qed

interpretation paged: zeroed_array "pv_new PAGE_SIZE" "pv_get PAGE_SIZE" "pv_set PAGE_SIZE" "pv_ok PAGE_SIZE"
proof
  show "pv_ok PAGE_SIZE (pv_new PAGE_SIZE n)" for n by (simp add: pv_ok_def pv_new_def PAGE_SIZE_def)
  show "pv_get PAGE_SIZE (pv_new PAGE_SIZE n) i = Some 0" if "i < n" for i n
  proof -
    have "0 < PAGE_SIZE" by (simp add: PAGE_SIZE_def)
    then have "i < div_ceil n PAGE_SIZE * PAGE_SIZE" using that div_ceil_ge [of PAGE_SIZE n] by linarith
    then have "i div PAGE_SIZE < div_ceil n PAGE_SIZE" by (simp add: less_mult_imp_div_less)
    then show ?thesis by (simp add: pv_get_def pv_new_def)
  qed
  show "pv_set PAGE_SIZE v i x = None \<longleftrightarrow> pv_get PAGE_SIZE v i = None" for v i x
    by (simp add: pv_set_def pv_get_def)
  show "pv_ok PAGE_SIZE v' \<and> pv_get PAGE_SIZE v' = (pv_get PAGE_SIZE v)(i \<mapsto> x)"
    if "pv_ok PAGE_SIZE v" "pv_set PAGE_SIZE v i x = Some v'" for v i x v'
    using that by (rule pv_get_set)
qed

lemma pv_iter_snoc:
  "pv_iter ps (v @ [page]) = pv_iter ps v @ (case page of None \<Rightarrow> []
     | Some p \<Rightarrow> map (\<lambda>(offset, value). (length v * ps + offset, value)) (enumerate 0 p))"
  by (simp add: pv_iter_def enumerate_append_eq split: option.split)

lemma map_fst_enumerate_shift: "map (\<lambda>(j, x). f j) (enumerate 0 p) = map f [0..<length p]"
  by (rule nth_equalityI) (simp_all add: nth_enumerate_eq)

lemma pv_iter_keys: "pv_ok ps v \<Longrightarrow> sorted_wrt (<) (map fst (pv_iter ps v)) \<and>
    (\<forall>i\<in>fst ` set (pv_iter ps v). i < length v * ps)"
proof (induction v rule: rev_induct)
  case Nil
  then show ?case by (simp add: pv_iter_def)
next
  case (snoc page v)
  then have IH: "sorted_wrt (<) (map fst (pv_iter ps v))" "\<forall>i\<in>fst ` set (pv_iter ps v). i < length v * ps"
    and len: "\<And>p. page = Some p \<Longrightarrow> length p = ps" by (auto simp: pv_ok_def)
  show ?case
  proof (cases page)
    case None
    then show ?thesis using IH by (auto simp: pv_iter_snoc)
  next
    case (Some p)
    have keys: "map fst (pv_iter ps (v @ [page])) = map fst (pv_iter ps v) @ map ((+) (length v * ps)) [0..<ps]"
      using Some len by (simp add: pv_iter_snoc o_def case_prod_unfold map_fst_enumerate_shift [unfolded case_prod_unfold])
    have "sorted_wrt (<) (map ((+) (length v * ps)) [0..<ps])" by (simp add: sorted_wrt_map)
    then have "sorted_wrt (<) (map fst (pv_iter ps (v @ [page])))"
      unfolding keys using IH by (force simp: sorted_wrt_append)
    moreover have "\<forall>i\<in>set (map fst (pv_iter ps (v @ [page]))). i < length (v @ [page]) * ps"
      unfolding keys using IH(2) by force
    ultimately show ?thesis by simp
  qed
qed

lemma pv_iter_set:
  assumes "pv_ok ps v" "x \<noteq> 0"
  shows "(i, x) \<in> set (pv_iter ps v) \<longleftrightarrow> pv_get ps v i = Some x"
proof -
  have "(i, x) \<in> set (pv_iter ps v) \<longleftrightarrow>
      (\<exists>pi p. pi < length v \<and> v ! pi = Some p \<and> (\<exists>j<length p. i = pi * ps + j \<and> x = p ! j))" (is "_ \<longleftrightarrow> ?R")
  proof
    assume "(i, x) \<in> set (pv_iter ps v)"
    then obtain e' where e': "e' \<in> set (enumerate 0 v)" "(i, x) \<in> set (case e' of (pi, page) \<Rightarrow>
        (case page of None \<Rightarrow> [] | Some p \<Rightarrow> map (\<lambda>(j, y). (pi * ps + j, y)) (enumerate 0 p)))"
      by (auto simp only: pv_iter_def set_concat set_map UN_iff)
    obtain pi page where pp: "e' = (pi, page)" by (cases e')
    then have e: "(pi, page) \<in> set (enumerate 0 v)" and
      m: "(i, x) \<in> set (case page of None \<Rightarrow> [] | Some p \<Rightarrow> map (\<lambda>(j, y). (pi * ps + j, y)) (enumerate 0 p))"
      using e' by simp_all
    then obtain p where "page = Some p" "(i - pi * ps, x) \<in> set (enumerate 0 p)" "pi * ps \<le> i"
      by (auto split: option.splits)
    then show ?R using e by (intro exI [of _ pi] exI [of _ p]) (auto simp: in_set_enumerate_eq)
  next
    assume ?R
    then obtain pi p j where h: "pi < length v" "v ! pi = Some p" "j < length p" "i = pi * ps + j" "x = p ! j"
      by blast
    then have "(pi, Some p) \<in> set (enumerate 0 v)" "(j, x) \<in> set (enumerate 0 p)"
      by (simp_all add: in_set_enumerate_eq)
    then show "(i, x) \<in> set (pv_iter ps v)" using h(4) by (force simp: pv_iter_def)
  qed
  also have "\<dots> \<longleftrightarrow> i div ps < length v \<and> (\<exists>p. v ! (i div ps) = Some p \<and> x = p ! (i mod ps))"
  proof -
    have len: "length p = ps" if "v ! pi = Some p" "pi < length v" for pi p
      using assms(1) that by (auto simp: pv_ok_def) (metis nth_mem)
    have ps: "0 < ps" using assms(1) by (simp add: pv_ok_def)
    have "i div ps = pi \<and> i mod ps = j" if "i = pi * ps + j" "j < ps" for pi j
      using that by simp
    then show ?thesis using len ps by (metis div_mult_mod_eq mod_less_divisor)
  qed
  also have "\<dots> \<longleftrightarrow> pv_get ps v i = Some x"
    using assms(2) by (auto simp: pv_get_def split: option.splits)
  finally show ?thesis .
qed

section \<open>Tracing memory\<close>

definition DEFAULT_BLOCK_SIZE :: nat where "DEFAULT_BLOCK_SIZE = 4"
definition INITIAL_TIMESTAMP :: nat where "INITIAL_TIMESTAMP = 0"

record tracing_memory =
  tm_timestamp :: nat
  tm_data :: address_map
  tm_meta :: "paged_vec list"

definition tm_from_image :: "address_map \<Rightarrow> tracing_memory" where
  "tm_from_image img =
     \<lparr>tm_timestamp = INITIAL_TIMESTAMP + 1, tm_data = img,
      tm_meta = map (\<lambda>c. pv_new PAGE_SIZE (div_ceil (num_cells c) DEFAULT_BLOCK_SIZE)) (am_config img)\<rparr>"

definition tm_new :: "addr_space_config list \<Rightarrow> tracing_memory option" where
  "tm_new config = map_option tm_from_image (am_new config)"

definition assert_valid_access :: "nat \<Rightarrow> u32 \<Rightarrow> bool" where
  "assert_valid_access block_size ptr \<longleftrightarrow> unat ptr mod block_size = 0"

definition prev_access_time :: "tracing_memory \<Rightarrow> nat \<Rightarrow> nat \<Rightarrow> (nat \<times> tracing_memory) option" where
  "prev_access_time tm addr_space pointer =
     (if addr_space < length (tm_meta tm) then
        (let idx = pointer div DEFAULT_BLOCK_SIZE; page = tm_meta tm ! addr_space in
         case (pv_get PAGE_SIZE page idx, pv_set PAGE_SIZE page idx (tm_timestamp tm)) of
           (Some prev, Some page') \<Rightarrow> Some (prev, tm\<lparr>tm_meta := (tm_meta tm)[addr_space := page']\<rparr>)
         | _ \<Rightarrow> None)
      else None)"

definition tm_read :: "nat \<Rightarrow> nat \<Rightarrow> tracing_memory \<Rightarrow> nat \<Rightarrow> u32 \<Rightarrow> ((nat \<times> u8 list) \<times> tracing_memory) option" where
  "tm_read szT block tm addr_space pointer =
     (if assert_valid_access block pointer then
        (case gm_read szT block (tm_data tm) addr_space pointer of
           None \<Rightarrow> None
         | Some vals \<Rightarrow>
             (case prev_access_time tm addr_space (unat pointer) of
                None \<Rightarrow> None
              | Some (t_prev, tm') \<Rightarrow>
                  Some ((t_prev, vals), tm'\<lparr>tm_timestamp := wadd 32 (tm_timestamp tm') 1\<rparr>)))
      else None)"

definition tm_write :: "nat \<Rightarrow> nat \<Rightarrow> tracing_memory \<Rightarrow> nat \<Rightarrow> u32 \<Rightarrow> u8 list
    \<Rightarrow> ((nat \<times> u8 list) \<times> tracing_memory) option" where
  "tm_write szT block tm addr_space pointer vals =
     (if assert_valid_access block pointer then
        (case gm_read szT block (tm_data tm) addr_space pointer of
           None \<Rightarrow> None
         | Some vals_prev \<Rightarrow>
             (case prev_access_time tm addr_space (unat pointer) of
                None \<Rightarrow> None
              | Some (t_prev, tm') \<Rightarrow>
                  (case gm_write szT (tm_data tm') addr_space pointer vals of
                     None \<Rightarrow> None
                   | Some data \<Rightarrow>
                       Some ((t_prev, vals_prev),
                         tm'\<lparr>tm_data := data, tm_timestamp := wadd 32 (tm_timestamp tm') 1\<rparr>))))
      else None)"

definition increment_timestamp_by :: "tracing_memory \<Rightarrow> nat \<Rightarrow> tracing_memory" where
  "increment_timestamp_by tm amount = tm\<lparr>tm_timestamp := wadd 32 (tm_timestamp tm) amount\<rparr>"

definition increment_timestamp :: "tracing_memory \<Rightarrow> tracing_memory" where
  "increment_timestamp tm = tm\<lparr>tm_timestamp := wadd 32 (tm_timestamp tm) 1\<rparr>"

text \<open>\<open>finalize\<close>: the touched blocks in the order of their addresses.\<close>

definition touched_blocks :: "tracing_memory \<Rightarrow> ((nat \<times> nat) \<times> nat) list option" where
  "touched_blocks tm =
     (if length (tm_meta tm) = length (am_config (tm_data tm)) then
        Some (sort_key fst (concat (map (\<lambda>(addr_space, page).
          List.map_filter (\<lambda>(idx, timestamp).
              if timestamp > INITIAL_TIMESTAMP
              then Some ((addr_space, wmul 32 idx DEFAULT_BLOCK_SIZE), timestamp) else None)
            (pv_iter PAGE_SIZE page)) (enumerate 0 (tm_meta tm)))))
      else None)"

section \<open>Accesses refine a map of timestamps\<close>

text \<open>
  An access of one block of four cells; \<open>None\<close> is a read. The specification keeps the timestamp
  of the last access of each block in a function.
\<close>

record access =
  acc_sz :: nat
  acc_space :: nat
  acc_ptr :: u32
  acc_vals :: "u8 list option"

definition tm_access :: "access \<Rightarrow> tracing_memory \<Rightarrow> ((nat \<times> u8 list) \<times> tracing_memory) option" where
  "tm_access a tm = (case acc_vals a of
      None \<Rightarrow> tm_read (acc_sz a) 4 tm (acc_space a) (acc_ptr a)
    | Some vs \<Rightarrow> tm_write (acc_sz a) 4 tm (acc_space a) (acc_ptr a) vs)"

fun tm_run :: "access list \<Rightarrow> tracing_memory \<Rightarrow> ((nat \<times> u8 list) list \<times> tracing_memory) option" where
  "tm_run [] tm = Some ([], tm)"
| "tm_run (a # as) tm = (case tm_access a tm of None \<Rightarrow> None
    | Some (r, tm') \<Rightarrow> (case tm_run as tm' of None \<Rightarrow> None | Some (rs, tm'') \<Rightarrow> Some (r # rs, tm'')))"

definition block_of :: "access \<Rightarrow> nat \<times> nat" where
  "block_of a = (acc_space a, unat (acc_ptr a) div 4)"

definition spec_access :: "nat \<Rightarrow> access \<Rightarrow> (nat \<times> nat \<Rightarrow> nat) \<times> address_map
    \<Rightarrow> ((nat \<times> u8 list) \<times> (nat \<times> nat \<Rightarrow> nat) \<times> address_map) option" where
  "spec_access t a s = (case s of (lst, am) \<Rightarrow>
     if unat (acc_ptr a) mod 4 = 0 then
       (case gm_read (acc_sz a) 4 am (acc_space a) (acc_ptr a) of
          None \<Rightarrow> None
        | Some old \<Rightarrow>
            map_option (\<lambda>am'. ((lst (block_of a), old), lst(block_of a := t), am'))
              (case acc_vals a of None \<Rightarrow> Some am
               | Some vs \<Rightarrow> gm_write (acc_sz a) am (acc_space a) (acc_ptr a) vs))
     else None)"

fun spec_run :: "nat \<Rightarrow> access list \<Rightarrow> (nat \<times> nat \<Rightarrow> nat) \<times> address_map
    \<Rightarrow> ((nat \<times> u8 list) list \<times> (nat \<times> nat \<Rightarrow> nat) \<times> address_map) option" where
  "spec_run t [] s = Some ([], s)"
| "spec_run t (a # as) s = (case spec_access t a s of None \<Rightarrow> None
    | Some (r, s') \<Rightarrow> (case spec_run (Suc t) as s' of None \<Rightarrow> None | Some (rs, s'') \<Rightarrow> Some (r # rs, s'')))"

definition tm_last :: "tracing_memory \<Rightarrow> nat \<times> nat \<Rightarrow> nat" where
  "tm_last tm b = (case b of (sp, i) \<Rightarrow>
     if sp < length (tm_meta tm) then (case pv_get PAGE_SIZE (tm_meta tm ! sp) i of None \<Rightarrow> 0 | Some t \<Rightarrow> t)
     else 0)"

definition tm_abs :: "tracing_memory \<Rightarrow> (nat \<times> nat \<Rightarrow> nat) \<times> address_map" where
  "tm_abs tm = (tm_last tm, tm_data tm)"

text \<open>
  The invariant: every vector covers its address space, and no recorded timestamp has been
  reached by the clock yet.
\<close>

definition tm_inv :: "tracing_memory \<Rightarrow> bool" where
  "tm_inv tm \<longleftrightarrow>
     am_ok (tm_data tm) \<and> length (tm_meta tm) = length (am_config (tm_data tm)) \<and>
     0 < tm_timestamp tm \<and>
     (\<forall>sp<length (tm_meta tm). pv_ok PAGE_SIZE (tm_meta tm ! sp) \<and>
        as_size (tm_data tm) sp = num_cells (am_config (tm_data tm) ! sp) * cell_size (layout (am_config (tm_data tm) ! sp)) \<and>
        (\<forall>i<div_ceil (num_cells (am_config (tm_data tm) ! sp)) 4. pv_get PAGE_SIZE (tm_meta tm ! sp) i \<noteq> None) \<and>
        (\<forall>i t. pv_get PAGE_SIZE (tm_meta tm ! sp) i = Some t \<longrightarrow> t < tm_timestamp tm))"

definition access_typed :: "addr_space_config list \<Rightarrow> access \<Rightarrow> bool" where
  "access_typed config a \<longleftrightarrow> acc_space a < length config \<and>
     acc_sz a = cell_size (layout (config ! acc_space a)) \<and> 0 < acc_sz a \<and>
     (\<forall>vs. acc_vals a = Some vs \<longrightarrow> length vs = 4 * acc_sz a)"

lemma tm_invD:
  assumes "tm_inv tm" "sp < length (tm_meta tm)"
  shows "am_ok (tm_data tm)" "length (tm_meta tm) = length (am_config (tm_data tm))"
    "pv_ok PAGE_SIZE (tm_meta tm ! sp)"
    "as_size (tm_data tm) sp = num_cells (am_config (tm_data tm) ! sp) * cell_size (layout (am_config (tm_data tm) ! sp))"
    "i < div_ceil (num_cells (am_config (tm_data tm) ! sp)) 4 \<Longrightarrow> pv_get PAGE_SIZE (tm_meta tm ! sp) i \<noteq> None"
    "pv_get PAGE_SIZE (tm_meta tm ! sp) i = Some t \<Longrightarrow> t < tm_timestamp tm"
  using assms unfolding tm_inv_def by blast+

lemma prev_access_time_ok:
  assumes "tm_inv tm" "sp < length (tm_meta tm)" "p div 4 < div_ceil (num_cells (am_config (tm_data tm) ! sp)) 4"
  obtains page where "prev_access_time tm sp p = Some (tm_last tm (sp, p div 4), tm\<lparr>tm_meta := (tm_meta tm)[sp := page]\<rparr>)"
    "pv_ok PAGE_SIZE page" "pv_get PAGE_SIZE page = (pv_get PAGE_SIZE (tm_meta tm ! sp))(p div 4 \<mapsto> tm_timestamp tm)"
proof -
  note inv = tm_invD [OF assms(1,2)]
  obtain prev where prev: "pv_get PAGE_SIZE (tm_meta tm ! sp) (p div 4) = Some prev"
    using inv(5) [OF assms(3)] by blast
  then obtain page where page: "pv_set PAGE_SIZE (tm_meta tm ! sp) (p div 4) (tm_timestamp tm) = Some page"
    using paged.upd_None [OF inv(3), of "p div 4" "tm_timestamp tm"] by auto
  show ?thesis
  proof (rule that [of page])
    show "prev_access_time tm sp p = Some (tm_last tm (sp, p div 4), tm\<lparr>tm_meta := (tm_meta tm)[sp := page]\<rparr>)"
      using assms(2) prev page by (simp add: prev_access_time_def DEFAULT_BLOCK_SIZE_def tm_last_def)
  qed (use paged.upd_Some [OF inv(3) page] in simp_all)
qed

text \<open>One access updates the clock, the slot of its block and the data.\<close>

lemma tm_inv_step:
  assumes inv: "tm_inv tm" and sp: "sp < length (tm_meta tm)" and ts: "tm_timestamp tm + 1 < 2 ^ 32"
    and page: "pv_ok PAGE_SIZE page" "pv_get PAGE_SIZE page = (pv_get PAGE_SIZE (tm_meta tm ! sp))(i \<mapsto> tm_timestamp tm)"
    and am: "am_ok am" "as_size am = as_size (tm_data tm)" "am_config am = am_config (tm_data tm)"
    and tm': "tm' = tm\<lparr>tm_meta := (tm_meta tm)[sp := page], tm_data := am,
      tm_timestamp := wadd 32 (tm_timestamp tm) 1\<rparr>"
  shows "tm_inv tm'" "tm_last tm' = (tm_last tm)((sp, i) := tm_timestamp tm)"
proof -
  have w: "wadd 32 (tm_timestamp tm) 1 = tm_timestamp tm + 1" using ts by (rule wadd_small)
  have get: "pv_get PAGE_SIZE ((tm_meta tm)[sp := page] ! sp') j =
      (if sp' = sp \<and> j = i then Some (tm_timestamp tm) else pv_get PAGE_SIZE (tm_meta tm ! sp') j)"
    if "sp' < length (tm_meta tm)" for sp' j
    using that sp page(2) by (auto simp: nth_list_update)
  have ok: "pv_ok PAGE_SIZE ((tm_meta tm)[sp := page] ! sp')" if "sp' < length (tm_meta tm)" for sp'
    using that sp page(1) tm_invD(3) [OF inv that] by (auto simp: nth_list_update)
  show "tm_inv tm'"
    unfolding tm_inv_def tm'
    using am w get ok tm_invD [OF inv] inv sp
    by (auto simp: tm_inv_def less_Suc_eq split: if_splits)
  show "tm_last tm' = (tm_last tm)((sp, i) := tm_timestamp tm)"
    unfolding tm' using get sp page(2) by (auto simp: tm_last_def fun_eq_iff)
qed

lemma block_in_range:
  assumes "p + 4 \<le> (n :: nat)"
  shows "p div 4 < div_ceil n 4"
proof -
  have "n \<le> div_ceil n 4 * 4" by (rule div_ceil_ge) simp
  then have "p < div_ceil n 4 * 4" using assms by linarith
  then show ?thesis by (simp add: less_mult_imp_div_less)
qed

lemma tm_access_refines:
  assumes inv: "tm_inv tm" and typed: "access_typed (am_config (tm_data tm)) a"
    and ts: "tm_timestamp tm + 1 < 2 ^ 32"
  shows "map_option (\<lambda>(r, tm'). (r, tm_abs tm')) (tm_access a tm) = spec_access (tm_timestamp tm) a (tm_abs tm) \<and>
    (\<forall>r tm'. tm_access a tm = Some (r, tm') \<longrightarrow> tm_inv tm' \<and> tm_timestamp tm' = tm_timestamp tm + 1 \<and>
      am_config (tm_data tm') = am_config (tm_data tm))"
proof -
  let ?sp = "acc_space a" and ?p = "unat (acc_ptr a)" and ?am = "tm_data tm"
  have sp: "?sp < length (tm_meta tm)" using typed inv by (simp add: access_typed_def tm_inv_def)
  note i = tm_invD [OF inv sp]
  have sz: "acc_sz a = cell_size (layout (am_config ?am ! ?sp))" "0 < acc_sz a"
    and len: "\<And>vs. acc_vals a = Some vs \<Longrightarrow> length vs = 4 * acc_sz a"
    using typed by (auto simp: access_typed_def)
  show ?thesis
  proof (cases "assert_valid_access 4 (acc_ptr a) \<and> gm_read (acc_sz a) 4 ?am ?sp (acc_ptr a) \<noteq> None")
    case False
    then show ?thesis
      by (auto simp: tm_access_def tm_read_def tm_write_def spec_access_def tm_abs_def assert_valid_access_def
          split: option.splits)
  next
    case True
    then obtain old where old: "gm_read (acc_sz a) 4 ?am ?sp (acc_ptr a) = Some old"
      and al: "assert_valid_access 4 (acc_ptr a)" by blast
    have "?p * acc_sz a + 4 * acc_sz a \<le> as_size ?am ?sp"
      using old sz(2) i(1) by (auto simp: gm_read_eq split: if_splits)
    then have "(?p + 4) * acc_sz a \<le> num_cells (am_config ?am ! ?sp) * acc_sz a"
      using i(4) sz(1) by (simp add: add_mult_distrib)
    then have "?p + 4 \<le> num_cells (am_config ?am ! ?sp)" using sz(2) by simp
    from prev_access_time_ok [OF inv sp block_in_range [OF this]] obtain page where
      pat: "prev_access_time tm ?sp ?p = Some (tm_last tm (block_of a), tm\<lparr>tm_meta := (tm_meta tm)[?sp := page]\<rparr>)"
      and page: "pv_ok PAGE_SIZE page"
        "pv_get PAGE_SIZE page = (pv_get PAGE_SIZE (tm_meta tm ! ?sp))(?p div 4 \<mapsto> tm_timestamp tm)"
      by (auto simp: block_of_def)
    note step = tm_inv_step [OF inv sp ts page]
    have w: "wadd 32 (tm_timestamp tm) 1 = tm_timestamp tm + 1" using ts by (rule wadd_small)
    show ?thesis
    proof (cases "acc_vals a")
      case None
      show ?thesis
        using step [OF i(1) refl refl refl] None al old pat w
        by (simp add: tm_access_def tm_read_def spec_access_def tm_abs_def assert_valid_access_def block_of_def)
    next
      case (Some vs)
      have "vs \<noteq> []" using len [OF Some] sz(2) by auto
      have "?p * acc_sz a + length vs \<le> as_size ?am ?sp"
        using \<open>?p * acc_sz a + 4 * acc_sz a \<le> as_size ?am ?sp\<close> len [OF Some] by simp
      then obtain am' where wr: "gm_write (acc_sz a) ?am ?sp (acc_ptr a) vs = Some am'"
        using gm_write_None [OF i(1) \<open>vs \<noteq> []\<close>, of "acc_sz a" ?sp "acc_ptr a"] by fastforce
      show ?thesis
        using step [OF gm_write_Some(1-3) [OF i(1) wr] refl] Some al old pat w wr gm_write_Some(3) [OF i(1) wr]
        by (simp add: tm_access_def tm_write_def spec_access_def tm_abs_def assert_valid_access_def block_of_def)
    qed
  qed
qed

lemma tm_run_refines:
  assumes "tm_inv tm" "list_all (access_typed (am_config (tm_data tm))) as" "tm_timestamp tm + length as < 2 ^ 32"
  shows "map_option (\<lambda>(rs, tm'). (rs, tm_abs tm')) (tm_run as tm) = spec_run (tm_timestamp tm) as (tm_abs tm) \<and>
    (\<forall>rs tm'. tm_run as tm = Some (rs, tm') \<longrightarrow> tm_inv tm' \<and> tm_timestamp tm' = tm_timestamp tm + length as)"
  using assms
proof (induction as arbitrary: tm)
  case (Cons a as)
  note step = tm_access_refines [OF Cons.prems(1), of a]
  show ?case
  proof (cases "tm_access a tm")
    case None
    then show ?thesis using step Cons.prems by auto
  next
    case (Some x)
    obtain r tm1 where x: "x = (r, tm1)" by (cases x)
    have s: "spec_access (tm_timestamp tm) a (tm_abs tm) = Some (r, tm_abs tm1)" and
      inv1: "tm_inv tm1" "tm_timestamp tm1 = Suc (tm_timestamp tm)" "am_config (tm_data tm1) = am_config (tm_data tm)"
      using step Cons.prems Some x by auto
    have "map_option (\<lambda>(rs, tm'). (rs, tm_abs tm')) (tm_run as tm1) = spec_run (tm_timestamp tm1) as (tm_abs tm1) \<and>
      (\<forall>rs tm'. tm_run as tm1 = Some (rs, tm') \<longrightarrow> tm_inv tm' \<and> tm_timestamp tm' = tm_timestamp tm1 + length as)"
      by (rule Cons.IH) (use inv1 Cons.prems in auto)
    then have IH: "spec_run (Suc (tm_timestamp tm)) as (tm_abs tm1) =
        map_option (\<lambda>(rs, tm'). (rs, tm_abs tm')) (tm_run as tm1)"
      "\<And>rs tm'. tm_run as tm1 = Some (rs, tm') \<Longrightarrow> tm_inv tm' \<and> tm_timestamp tm' = Suc (tm_timestamp tm) + length as"
      using inv1(2) by simp_all
    show ?thesis
    proof (cases "tm_run as tm1")
      case None
      then show ?thesis using Some x s IH(1) by simp
    next
      case (Some y)
      obtain rs tm2 where y: "y = (rs, tm2)" by (cases y)
      show ?thesis using \<open>tm_access a tm = Some x\<close> Some x y s IH(1) IH(2) [of rs tm2] by simp
    qed
  qed
qed simp

lemma tm_inv_from_image:
  assumes "am_ok am" "\<forall>sp<length (am_config am). as_size am sp = num_cells (am_config am ! sp) * cell_size (layout (am_config am ! sp))"
  shows "tm_inv (tm_from_image am)" "tm_last (tm_from_image am) = (\<lambda>_. 0)"
proof -
  have mods: "pv_get PAGE_SIZE (pv_new PAGE_SIZE (div_ceil n 4)) i \<noteq> None" if "i < div_ceil n 4" for n i
    using paged.get_new [OF that] by simp
  have zero: "t = 0" if "pv_get PAGE_SIZE (pv_new PAGE_SIZE n) i = Some t" for n i t
    using that by (auto simp: pv_get_def pv_new_def split: if_splits)
  show "tm_inv (tm_from_image am)"
    unfolding tm_inv_def tm_from_image_def INITIAL_TIMESTAMP_def DEFAULT_BLOCK_SIZE_def
    using assms paged.new_ok mods zero by (simp del: not_None_eq)
  show "tm_last (tm_from_image am) = (\<lambda>_. 0)"
    using zero by (auto simp: tm_last_def tm_from_image_def fun_eq_iff split: option.splits)
qed

text \<open>
  C30. Tracing memory refines plain guest memory with a map of timestamps. Starting from any
  image, a sequence of typed block accesses returns for each access the timestamp of the last
  access of the same block (0 if there was none) and the value that plain guest memory holds, and
  panics exactly when the specification does (an unaligned or out-of-bounds block); the \<open>k\<close>-th
  access has timestamp \<open>k\<close> (from 1), and the final data are those of plain guest memory.
\<close>

theorem tracing_memory_refines:
  assumes "am_ok am" "list_all (access_typed (am_config am)) as" "length as + 1 < 2 ^ 32"
    and "\<forall>sp<length (am_config am). as_size am sp = num_cells (am_config am ! sp) * cell_size (layout (am_config am ! sp))"
  shows "map_option (\<lambda>(rs, tm). (rs, tm_abs tm)) (tm_run as (tm_from_image am)) = spec_run 1 as (\<lambda>_. 0, am) \<and>
    (\<forall>rs tm. tm_run as (tm_from_image am) = Some (rs, tm) \<longrightarrow> tm_inv tm \<and> tm_timestamp tm = length as + 1)"
  using tm_run_refines [OF tm_inv_from_image(1) [OF assms(1,4)], of as] assms(2,3)
    tm_inv_from_image(2) [OF assms(1,4)]
  by (auto simp: tm_abs_def tm_from_image_def INITIAL_TIMESTAMP_def)

section \<open>Touched blocks\<close>

text \<open>The timestamp of the last access of a block in a sequence that starts at time \<open>t\<close>.\<close>

fun last_access :: "nat \<Rightarrow> access list \<Rightarrow> nat \<times> nat \<Rightarrow> nat option" where
  "last_access t [] b = None"
| "last_access t (a # as) b =
     (case last_access (Suc t) as b of
        Some t' \<Rightarrow> Some t' | None \<Rightarrow> if block_of a = b then Some t else None)"

lemma spec_run_last:
  "spec_run t as (lst, am) = Some (rs, lst', am') \<Longrightarrow>
     lst' b = (case last_access t as b of Some t' \<Rightarrow> t' | None \<Rightarrow> lst b)"
proof (induction as arbitrary: t lst am rs)
  case (Cons a as)
  then obtain r lst1 am1 rs' where a: "spec_access t a (lst, am) = Some (r, lst1, am1)"
    and r: "spec_run (Suc t) as (lst1, am1) = Some (rs', lst', am')"
    by (auto split: option.splits prod.splits)
  have "lst1 = lst(block_of a := t)" using a by (auto simp: spec_access_def split: if_splits option.splits)
  then show ?case using Cons.IH [OF r] by (auto split: option.splits)
qed simp

lemma last_access_bounds:
  "last_access t as b = Some t' \<Longrightarrow> t \<le> t' \<and> snd b < 2 ^ 30"
proof (induction as arbitrary: t)
  case (Cons a as)
  have "unat (acc_ptr a) < 2 ^ 32" using unsigned_less [of "acc_ptr a"] by simp
  then have "unat (acc_ptr a) div 4 < 2 ^ 30" by simp
  then show ?case using Cons by (fastforce simp: block_of_def split: option.splits if_splits)
qed simp

lemma distinct_concat_enumerate:
  assumes "\<And>i x. x \<in> set xs \<Longrightarrow> distinct (map fst (f i x))"
    and "\<And>i x e. e \<in> set (f i x) \<Longrightarrow> fst (fst e) = i"
  shows "distinct (map fst (concat (map (\<lambda>(i, x). f i x) (enumerate n xs)))) \<and>
    (\<forall>k\<in>set (map fst (concat (map (\<lambda>(i, x). f i x) (enumerate n xs)))). n \<le> fst k)"
  using assms(1)
proof (induction xs arbitrary: n)
  case (Cons x xs)
  let ?rest = "map fst (concat (map (\<lambda>(i, x). f i x) (enumerate (Suc n) xs)))"
  have IH: "distinct ?rest" "\<And>k. k \<in> set ?rest \<Longrightarrow> Suc n \<le> fst k" using Cons by (simp_all only: list.set_intros)
  have hd: "k \<in> set (map fst (f n x)) \<Longrightarrow> fst k = n" for k using assms(2) by (simp only: set_map) blast
  have split: "map fst (concat (map (\<lambda>(i, x). f i x) (enumerate n (x # xs)))) = map fst (f n x) @ ?rest"
    by simp
  show ?case unfolding split distinct_append set_append
    using IH hd Cons.prems [of x] by (fastforce simp del: set_map set_concat)
qed simp

lemma distinct_map_sort_key: "distinct (map f (sort_key f xs)) \<longleftrightarrow> distinct (map f xs)"
  by (rule mset_eq_imp_distinct_iff) simp

lemma set_enumerate: "set (enumerate 0 xs) = (\<lambda>i. (i, xs ! i)) ` {..<length xs}"
  by (auto simp: in_set_enumerate_eq image_iff)

lemma mem_map_filter: "y \<in> set (List.map_filter f xs) \<longleftrightarrow> (\<exists>x\<in>set xs. f x = Some y)"
  by (induction xs) (auto simp: map_filter_simps split: option.splits)

definition touched_entry :: "nat \<Rightarrow> nat \<times> nat \<Rightarrow> ((nat \<times> nat) \<times> nat) option" where
  "touched_entry sp e = (case e of (idx, timestamp) \<Rightarrow>
     if timestamp > INITIAL_TIMESTAMP
     then Some ((sp, wmul 32 idx DEFAULT_BLOCK_SIZE), timestamp) else None)"

lemma touched_entry_eq:
  "(i, t) = e \<Longrightarrow> i < 2 ^ 30 \<Longrightarrow> touched_entry sp e = (if 0 < t then Some ((sp, 4 * i), t) else None)"
  by (auto simp: touched_entry_def INITIAL_TIMESTAMP_def DEFAULT_BLOCK_SIZE_def wmul_small)

lemma distinct_touched_page:
  assumes "distinct (map fst xs)" "\<And>i t. (i, t) \<in> set xs \<Longrightarrow> 0 < t \<Longrightarrow> i < 2 ^ 30"
  shows "distinct (map fst (List.map_filter (touched_entry sp) xs)) \<and>
    (\<forall>k\<in>set (map fst (List.map_filter (touched_entry sp) xs)). \<exists>i t. k = (sp, 4 * i) \<and> (i, t) \<in> set xs \<and> 0 < t)"
  using assms
proof (induction xs)
  case (Cons x xs)
  obtain i t where x: "x = (i, t)" by (cases x)
  have "distinct (map fst (List.map_filter (touched_entry sp) xs)) \<and>
    (\<forall>k\<in>set (map fst (List.map_filter (touched_entry sp) xs)). \<exists>i t. k = (sp, 4 * i) \<and> (i, t) \<in> set xs \<and> 0 < t)"
    by (rule Cons.IH) (use Cons.prems in auto)
  then have IH: "distinct (map fst (List.map_filter (touched_entry sp) xs))"
    "\<And>k. k \<in> set (map fst (List.map_filter (touched_entry sp) xs)) \<Longrightarrow> \<exists>i t. k = (sp, 4 * i) \<and> (i, t) \<in> set xs \<and> 0 < t"
    by blast+
  show ?case
  proof (cases "0 < t")
    case True
    then have te: "touched_entry sp x = Some ((sp, 4 * i), t)"
      using touched_entry_eq [OF refl, where i = i and t = t and sp = sp] Cons.prems(2) [of i t] x by simp
    have "(sp, 4 * i) \<notin> set (map fst (List.map_filter (touched_entry sp) xs))"
    proof
      assume "(sp, 4 * i) \<in> set (map fst (List.map_filter (touched_entry sp) xs))"
      then obtain i' t' where "4 * i = 4 * i'" "(i', t') \<in> set xs" using IH(2) by blast
      then show False using Cons.prems(1) x by force
    qed
    moreover have "List.map_filter (touched_entry sp) (x # xs) =
        ((sp, 4 * i), t) # List.map_filter (touched_entry sp) xs" using te by (simp add: map_filter_simps)
    ultimately show ?thesis using IH True x
      by (simp del: set_map split: prod.splits) (metis list.set_intros)
  next
    case False
    then have "touched_entry sp x = None" by (simp add: touched_entry_def x INITIAL_TIMESTAMP_def)
    then have "List.map_filter (touched_entry sp) (x # xs) = List.map_filter (touched_entry sp) xs"
      by (simp add: map_filter_simps)
    then show ?thesis using IH by (metis list.set_intros(2))
  qed
qed (simp add: map_filter_simps)

lemma touched_blocks_set:
  assumes inv: "tm_inv tm" and small: "\<And>sp i. 0 < tm_last tm (sp, i) \<Longrightarrow> i < 2 ^ 30"
  obtains tb where "touched_blocks tm = Some tb" "sorted_wrt (<) (map fst tb)"
    "set tb = {((sp, 4 * i), t) | sp i t. tm_last tm (sp, i) = t \<and> 0 < t}"
proof -
  let ?f = "\<lambda>sp page. List.map_filter (touched_entry sp) (pv_iter PAGE_SIZE page)"
  let ?L = "concat (map (\<lambda>(sp, page). ?f sp page) (enumerate 0 (tm_meta tm)))"
  have len: "length (tm_meta tm) = length (am_config (tm_data tm))" using inv by (simp add: tm_inv_def)
  have tb: "touched_blocks tm = Some (sort_key fst ?L)"
    using len by (simp add: touched_blocks_def touched_entry_def [abs_def])
  have ok: "pv_ok PAGE_SIZE (tm_meta tm ! sp)" if "sp < length (tm_meta tm)" for sp
    using tm_invD(3) [OF inv that] .
  have mem: "(i, t) \<in> set (pv_iter PAGE_SIZE (tm_meta tm ! sp)) \<longleftrightarrow> tm_last tm (sp, i) = t"
    if "sp < length (tm_meta tm)" "0 < t" for sp i t
    using that pv_iter_set [OF ok [OF that(1)], of t i] by (auto simp: tm_last_def split: option.splits)
  have small': "i < 2 ^ 30" if "(i, t) \<in> set (pv_iter PAGE_SIZE page)" "page \<in> set (tm_meta tm)" "0 < t" for page i t
    using that mem small by (metis in_set_conv_nth)
  have "distinct (map fst ?L)"
  proof (rule conjunct1 [OF distinct_concat_enumerate])
    fix sp page assume page: "page \<in> set (tm_meta tm)"
    have "distinct (map fst (pv_iter PAGE_SIZE page))"
      using pv_iter_keys page ok by (metis in_set_conv_nth strict_sorted_iff)
    then show "distinct (map fst (?f sp page))"
      using distinct_touched_page [of "pv_iter PAGE_SIZE page"] small' [OF _ page] by blast
  next
    fix sp page e assume "e \<in> set (?f sp page)"
    then obtain x where "touched_entry sp x = Some e" by (auto simp: mem_map_filter)
    then show "fst (fst e) = sp" by (cases x) (auto simp: touched_entry_def split: if_splits)
  qed
  then have d: "distinct (map fst (sort_key fst ?L))"
    by (simp only: distinct_map_sort_key)
  have sL: "set ?L = (\<Union>sp\<in>{..<length (tm_meta tm)}. set (?f sp (tm_meta tm ! sp)))"
    by (simp add: set_enumerate image_image)
  have L: "e \<in> set ?L \<longleftrightarrow> (\<exists>sp<length (tm_meta tm). \<exists>x\<in>set (pv_iter PAGE_SIZE (tm_meta tm ! sp)).
      touched_entry sp x = Some e)" for e
    unfolding sL by (simp only: UN_iff mem_map_filter) blast
  have "set ?L = {((sp, 4 * i), t) | sp i t. tm_last tm (sp, i) = t \<and> 0 < t}"
  proof (rule set_eqI)
    fix e
    have te: "touched_entry sp (i, t) = Some e \<longleftrightarrow> 0 < t \<and> e = ((sp, 4 * i), t)"
      if "sp < length (tm_meta tm)" "(i, t) \<in> set (pv_iter PAGE_SIZE (tm_meta tm ! sp))" for sp i t
    proof (cases "0 < t")
      case True
      then show ?thesis
        using touched_entry_eq [OF refl small' [OF that(2) nth_mem [OF that(1)] True], where t = t and sp = sp] by auto
    qed (simp add: touched_entry_def INITIAL_TIMESTAMP_def)
    have sp: "sp < length (tm_meta tm)" if "0 < tm_last tm (sp, i)" for sp i
      using that by (auto simp: tm_last_def split: if_splits)
    show "e \<in> set ?L \<longleftrightarrow> e \<in> {((sp, 4 * i), t) | sp i t. tm_last tm (sp, i) = t \<and> 0 < t}"
    proof
      assume "e \<in> set ?L"
      then obtain sp i t where h: "sp < length (tm_meta tm)" "(i, t) \<in> set (pv_iter PAGE_SIZE (tm_meta tm ! sp))"
        "touched_entry sp (i, t) = Some e" unfolding L by force
      then have "0 < t" "e = ((sp, 4 * i), t)" using te by blast+
      then show "e \<in> {((sp, 4 * i), t) | sp i t. tm_last tm (sp, i) = t \<and> 0 < t}" using mem h by blast
    next
      assume "e \<in> {((sp, 4 * i), t) | sp i t. tm_last tm (sp, i) = t \<and> 0 < t}"
      then obtain sp i t where h: "e = ((sp, 4 * i), t)" "tm_last tm (sp, i) = t" "0 < t" by blast
      then have lt: "sp < length (tm_meta tm)" using sp by blast
      then have "(i, t) \<in> set (pv_iter PAGE_SIZE (tm_meta tm ! sp))" using mem h by blast
      then show "e \<in> set ?L" unfolding L using te lt h by blast
    qed
  qed
  then show ?thesis using that [OF tb] d sorted_sort_key [of fst ?L] by (simp add: strict_sorted_iff)
qed

text \<open>
  C31. After any sequence of typed accesses of an image, \<open>touched_blocks\<close> lists exactly the
  blocks that were accessed, each once, at its first cell and with the timestamp of its last
  access, in the order of the addresses.
\<close>

theorem touched_blocks_exact:
  assumes "am_ok am" "list_all (access_typed (am_config am)) as" "length as + 1 < 2 ^ 32"
    and "\<forall>sp<length (am_config am). as_size am sp = num_cells (am_config am ! sp) * cell_size (layout (am_config am ! sp))"
    and run: "tm_run as (tm_from_image am) = Some (rs, tm)"
  shows "\<exists>tb. touched_blocks tm = Some tb \<and> sorted_wrt (<) (map fst tb) \<and>
    set tb = {((sp, 4 * b), t) | sp b t. last_access 1 as (sp, b) = Some t}"
proof -
  have inv: "tm_inv tm" and spec: "spec_run 1 as (\<lambda>_. 0, am) = Some (rs, tm_last tm, tm_data tm)"
    using tm_run_refines [OF tm_inv_from_image(1) [OF assms(1,4)], of as] assms(2,3) run
      tm_inv_from_image(2) [OF assms(1,4)]
    by (auto simp: tm_abs_def tm_from_image_def INITIAL_TIMESTAMP_def)
  have last: "tm_last tm b = (case last_access 1 as b of Some t \<Rightarrow> t | None \<Rightarrow> 0)" for b
    using spec_run_last [OF spec] by simp
  have eq: "tm_last tm b = t \<and> 0 < t \<longleftrightarrow> last_access 1 as b = Some t" for b t
    using last_access_bounds [of 1 as b] by (auto simp: last split: option.splits)
  have small: "i < 2 ^ 30" if "0 < tm_last tm (sp, i)" for sp i
    using that last_access_bounds [of 1 as "(sp, i)"] eq [of "(sp, i)" "tm_last tm (sp, i)"] by auto
  obtain tb where "touched_blocks tm = Some tb" "sorted_wrt (<) (map fst tb)"
    "set tb = {((sp, 4 * i), t) | sp i t. tm_last tm (sp, i) = t \<and> 0 < t}"
    by (rule touched_blocks_set [OF inv], rule small, assumption, rule that)
  then show ?thesis unfolding eq by blast
qed

section \<open>Witnesses\<close>

text \<open>Two writes and a read of memory with 16 blocks in address space 2.\<close>

definition demo_accesses :: "access list" where
  "demo_accesses =
     [\<lparr>acc_sz = 1, acc_space = 2, acc_ptr = 8, acc_vals = Some [1, 2, 3, 4]\<rparr>,
      \<lparr>acc_sz = 1, acc_space = 1, acc_ptr = 4, acc_vals = None\<rparr>,
      \<lparr>acc_sz = 1, acc_space = 2, acc_ptr = 8, acc_vals = None\<rparr>]"

lemma demo_image:
  assumes "am_new small_config = Some am"
  shows "am_ok am" "list_all (access_typed (am_config am)) demo_accesses"
    "\<forall>sp<length (am_config am). as_size am sp = num_cells (am_config am ! sp) * cell_size (layout (am_config am ! sp))"
  using am_ok_new [OF assms] by (simp_all add: demo_accesses_def access_typed_def small_config_def)

lemma demo_spec_run:
  assumes "am_new small_config = Some am"
  shows "\<exists>s. spec_run 1 demo_accesses (\<lambda>_. 0, am) = Some ([(0, [0, 0, 0, 0]), (0, [0, 0, 0, 0]), (1, [1, 2, 3, 4])], s)"
proof -
  note ok = am_ok_new [OF assms]
  have z: "[0..<4] = [0, 1, 2, 3 :: nat]" by (simp add: upt_rec)
  have r2: "gm_read 1 4 am 2 8 = Some [0, 0, 0, 0]" using ok by (simp add: gm_read_eq small_config_def z)
  then obtain am1 where w: "gm_write 1 am 2 8 [1, 2, 3, 4] = Some am1"
    using gm_write_None [of am "[1, 2, 3, 4]" 1 2 8] ok by (fastforce simp: small_config_def)
  have "gm_read 1 4 am 1 4 = Some [0, 0, 0, 0]" using ok by (simp add: gm_read_eq small_config_def z)
  then have r1: "gm_read 1 4 am1 1 4 = Some [0, 0, 0, 0]"
    using gm_read_write_disjoint [OF _ w, of 4 4 1 4] ok by simp
  have "gm_read 1 4 am1 2 8 = Some [1, 2, 3, 4]" using gm_read_write_same [OF _ w, of 4] ok by simp
  then show ?thesis using r1 r2 w by (simp add: demo_accesses_def spec_access_def block_of_def)
qed

theorem tracing_memory_refines_witness:
  "\<exists>am tm. am_new small_config = Some am \<and> tm_run demo_accesses (tm_from_image am) =
     Some ([(0, [0, 0, 0, 0]), (0, [0, 0, 0, 0]), (1, [1, 2, 3, 4])], tm) \<and> tm_timestamp tm = 4"
proof -
  obtain am where am: "am_new small_config = Some am" by (simp add: am_new_def small_config_def)
  note d = demo_image [OF am]
  obtain s where s: "spec_run 1 demo_accesses (\<lambda>_. 0, am) = Some ([(0, [0, 0, 0, 0]), (0, [0, 0, 0, 0]), (1, [1, 2, 3, 4])], s)"
    using demo_spec_run [OF am] by blast
  have l: "length demo_accesses = 3" by (simp add: demo_accesses_def)
  show ?thesis using tracing_memory_refines [OF d(1,2) _ d(3)] s am l by auto
qed

theorem touched_blocks_exact_witness:
  "\<exists>am rs tm. am_new small_config = Some am \<and> tm_run demo_accesses (tm_from_image am) = Some (rs, tm) \<and>
     (\<exists>tb. touched_blocks tm = Some tb \<and> sorted_wrt (<) (map fst tb) \<and> ((2, 8), 3) \<in> set tb)"
proof -
  obtain am where am: "am_new small_config = Some am" by (simp add: am_new_def small_config_def)
  note d = demo_image [OF am]
  have l: "length demo_accesses = 3" by (simp add: demo_accesses_def)
  obtain s rs where "spec_run 1 demo_accesses (\<lambda>_. 0, am) = Some (rs, s)" using demo_spec_run [OF am] by blast
  then obtain tm where run: "tm_run demo_accesses (tm_from_image am) = Some (rs, tm)"
    using tm_run_refines [OF tm_inv_from_image(1) [OF d(1,3)], of demo_accesses] d(2) l
      tm_inv_from_image(2) [OF d(1,3)]
    by (auto simp: tm_abs_def tm_from_image_def INITIAL_TIMESTAMP_def)
  have "last_access 1 demo_accesses (2, 2) = Some 3" by (simp add: demo_accesses_def block_of_def)
  then have "((2, 4 * 2), 3) \<in> {((sp, 4 * b), t) | sp b t. last_access 1 demo_accesses (sp, b) = Some t}" by blast
  then show ?thesis using touched_blocks_exact [OF d(1,2) _ d(3) run] am run l by auto
qed

end
