(* ===== verification/Memory_Bus.thy ===== *)
theory Memory_Bus
  imports Perm_Bus Sub_Airs Tracing_Memory
begin

text \<open>
  The offline memory argument: \<open>offline_checker/bridge.rs\<close>, \<open>bus.rs\<close>, \<open>columns.rs\<close> and the
  boundary AIR \<open>persistent.rs\<close> of \<open>crates/vm/src/system/memory\<close>. A memory access receives the
  previous contents of its block with the time of the previous access and sends the new contents
  with its own time; the boundary sends the initial and receives the final contents. The theorem
  is that a balanced bus is a memory: the accesses, in the order of their timestamps, read what was
  last written.
\<close>

section \<open>The model\<close>

record 'f memory_address =
  address_space :: 'f
  pointer :: 'f

subsection \<open>The bus\<close>

definition memory_message :: "'f memory_address \<Rightarrow> 'f list \<Rightarrow> 'f \<Rightarrow> 'f list" where
  "memory_message addr data timestamp = [address_space addr, pointer addr] @ data @ [timestamp]"

text \<open>\<open>MemoryBusInteraction::eval\<close> of a send and of a receive; \<open>direction\<close> may be negative.\<close>

definition memory_send :: "nat \<Rightarrow> 'f::field memory_address \<Rightarrow> 'f list \<Rightarrow> 'f \<Rightarrow> 'f \<Rightarrow> 'f interaction" where
  "memory_send bus addr data timestamp dir = Send bus (memory_message addr data timestamp) dir"

definition memory_receive :: "nat \<Rightarrow> 'f::field memory_address \<Rightarrow> 'f list \<Rightarrow> 'f \<Rightarrow> 'f \<Rightarrow> 'f interaction" where
  "memory_receive bus addr data timestamp dir = Send bus (memory_message addr data timestamp) (- 1 * dir)"

subsection \<open>The bridge\<close>

record 'f memory_base_aux =
  prev_timestamp :: 'f
  timestamp_lt_aux :: "'f list"

record 'f memory_write_aux =
  wa_base :: "'f memory_base_aux"
  wa_prev_data :: "'f list"

record 'f memory_imm_aux =
  ia_base :: "'f memory_base_aux"
  ia_is_immediate :: 'f
  ia_is_zero_aux :: 'f

record memory_bridge =
  mb_memory_bus :: nat
  mb_timestamp_lt :: lt_sub_air

definition memory_bridge_new :: "nat \<Rightarrow> nat \<Rightarrow> var_range_bus \<Rightarrow> memory_bridge option" where
  "memory_bridge_new memory_bus timestamp_max_bits range_bus =
     map_option (\<lambda>lt. \<lparr>mb_memory_bus = memory_bus, mb_timestamp_lt = lt\<rparr>)
       (lt_sub_air_new range_bus timestamp_max_bits)"

definition eval_timestamps ::
  "memory_bridge \<Rightarrow> 'f::field \<Rightarrow> 'f memory_base_aux \<Rightarrow> 'f \<Rightarrow> 'f assertion list \<times> 'f interaction list" where
  "eval_timestamps mb timestamp base enabled =
     assert_lt_eval (mb_timestamp_lt mb) (prev_timestamp base) timestamp enabled (timestamp_lt_aux base)"

definition eval_bulk_access ::
  "memory_bridge \<Rightarrow> 'f::field memory_address \<Rightarrow> 'f list \<Rightarrow> 'f list \<Rightarrow> 'f \<Rightarrow> 'f \<Rightarrow> 'f \<Rightarrow> 'f interaction list" where
  "eval_bulk_access mb addr data prev_data timestamp prev_ts enabled =
     [memory_receive (mb_memory_bus mb) addr prev_data prev_ts enabled,
      memory_send (mb_memory_bus mb) addr data timestamp enabled]"

text \<open>
  The operations a chip makes through the bridge, with the \<open>enabled\<close> they are evaluated with.
\<close>

datatype 'f memory_op =
    Mem_read "'f memory_address" "'f list" 'f "'f memory_base_aux" 'f
  | Mem_read_or_imm "'f memory_address" 'f 'f "'f memory_imm_aux" 'f
  | Mem_write "'f memory_address" "'f list" 'f "'f memory_write_aux" 'f

fun memory_op_eval :: "memory_bridge \<Rightarrow> 'f::field memory_op \<Rightarrow> 'f assertion list \<times> 'f interaction list" where
  "memory_op_eval mb (Mem_read addr data timestamp aux enabled) =
     (let (as, is) = eval_timestamps mb timestamp aux enabled
      in (as, is @ eval_bulk_access mb addr data data timestamp (prev_timestamp aux) enabled))"
| "memory_op_eval mb (Mem_read_or_imm addr data timestamp aux enabled) =
     (let zs = is_zero_eval (address_space addr) (ia_is_immediate aux) enabled (ia_is_zero_aux aux);
          im = When (ia_is_immediate aux) (assert_eq data (pointer addr));
          (as, is) = eval_timestamps mb timestamp (ia_base aux) enabled
      in (zs @ [im] @ as,
          is @ eval_bulk_access mb addr [data] [data] timestamp (prev_timestamp (ia_base aux))
            (enabled * not_f (ia_is_immediate aux))))"
| "memory_op_eval mb (Mem_write addr data timestamp aux enabled) =
     (let (as, is) = eval_timestamps mb timestamp (wa_base aux) enabled
      in (as, is @ eval_bulk_access mb addr data (wa_prev_data aux) timestamp (prev_timestamp (wa_base aux)) enabled))"

subsection \<open>The boundary\<close>

definition CHUNK :: nat where "CHUNK = 8"
definition BLOCKS_PER_CHUNK :: nat where "BLOCKS_PER_CHUNK = CHUNK div DEFAULT_BLOCK_SIZE"
definition ADDR_SPACE_OFFSET :: nat where "ADDR_SPACE_OFFSET = 1"

record 'f boundary_cols =
  bc_expand_direction :: 'f
  bc_address_space :: 'f
  bc_leaf_label :: 'f
  bc_values :: "'f list"
  bc_hash :: "'f list"
  bc_timestamps :: "'f list"

record boundary_air =
  ba_memory_bus :: nat
  ba_merkle_bus :: nat
  ba_compression_bus :: nat

definition boundary_block :: "'f::field boundary_cols \<Rightarrow> nat \<Rightarrow> 'f memory_address \<times> 'f list" where
  "boundary_block r block_idx =
     (\<lparr>address_space = bc_address_space r,
       pointer = bc_leaf_label r * of_nat CHUNK + of_nat (block_idx * DEFAULT_BLOCK_SIZE)\<rparr>,
      take DEFAULT_BLOCK_SIZE (drop (block_idx * DEFAULT_BLOCK_SIZE) (bc_values r)))"

definition boundary_eval :: "boundary_air \<Rightarrow> 'f::field boundary_cols \<Rightarrow> 'f assertion list \<times> 'f interaction list" where
  "boundary_eval air r =
     (let dir = bc_expand_direction r
      in ([assert_eq dir (dir * dir * dir)] @
          map (\<lambda>i. When (dir * (dir + 1)) (assert_zero (bc_timestamps r ! i))) [0..<BLOCKS_PER_CHUNK],
          [Send (ba_merkle_bus air)
             ([dir, 0, bc_address_space r - of_nat ADDR_SPACE_OFFSET, bc_leaf_label r] @ bc_hash r) dir,
           Send (ba_compression_bus air) (bc_values r @ replicate CHUNK 0 @ bc_hash r) (dir * dir)] @
          map (\<lambda>i. memory_send (ba_memory_bus air) (fst (boundary_block r i)) (snd (boundary_block r i))
                     (bc_timestamps r ! i) dir) [0..<BLOCKS_PER_CHUNK]))"

section \<open>The reference memory\<close>

text \<open>
  An access to a block: the contents it found, the contents it left and its time. \<open>replay\<close> runs
  accesses on a memory of blocks and fails when an access claims to have found something else.
\<close>

record 'f mem_access =
  ma_address :: "'f memory_address"
  ma_prev :: "'f list"
  ma_data :: "'f list"
  ma_prev_ts :: 'f
  ma_ts :: 'f

type_synonym 'f block_memory = "'f memory_address \<rightharpoonup> 'f list"

fun replay :: "'f block_memory \<Rightarrow> 'f mem_access list \<Rightarrow> 'f block_memory option" where
  "replay m [] = Some m"
| "replay m (a # as) =
     (if m (ma_address a) = Some (ma_prev a) then replay (m(ma_address a \<mapsto> ma_data a)) as else None)"

text \<open>The access of an operation, and the condition under which it takes place.\<close>

fun op_access :: "'f memory_op \<Rightarrow> 'f mem_access" where
  "op_access (Mem_read addr data timestamp aux enabled) =
     \<lparr>ma_address = addr, ma_prev = data, ma_data = data, ma_prev_ts = prev_timestamp aux, ma_ts = timestamp\<rparr>"
| "op_access (Mem_read_or_imm addr data timestamp aux enabled) =
     \<lparr>ma_address = addr, ma_prev = [data], ma_data = [data],
      ma_prev_ts = prev_timestamp (ia_base aux), ma_ts = timestamp\<rparr>"
| "op_access (Mem_write addr data timestamp aux enabled) =
     \<lparr>ma_address = addr, ma_prev = wa_prev_data aux, ma_data = data,
      ma_prev_ts = prev_timestamp (wa_base aux), ma_ts = timestamp\<rparr>"

fun op_enabled :: "'f::field memory_op \<Rightarrow> 'f" where
  "op_enabled (Mem_read _ _ _ _ enabled) = enabled"
| "op_enabled (Mem_read_or_imm _ _ _ aux enabled) = enabled * not_f (ia_is_immediate aux)"
| "op_enabled (Mem_write _ _ _ _ enabled) = enabled"

fun op_condition :: "'f memory_op \<Rightarrow> 'f" where
  "op_condition (Mem_read _ _ _ _ enabled) = enabled"
| "op_condition (Mem_read_or_imm _ _ _ _ enabled) = enabled"
| "op_condition (Mem_write _ _ _ _ enabled) = enabled"

definition accesses :: "'f::field memory_op list \<Rightarrow> 'f mem_access list" where
  "accesses ops = map op_access (filter (\<lambda>op. op_enabled op = 1) ops)"

definition boundary_memory :: "'f::field \<Rightarrow> 'f boundary_cols list \<Rightarrow> 'f block_memory" where
  "boundary_memory dir rows =
     map_of (concat (map (\<lambda>r. map (boundary_block r) [0..<BLOCKS_PER_CHUNK])
       (filter (\<lambda>r. bc_expand_direction r = dir) rows)))"

text \<open>
  What the Merkle AIR gives about the boundary: in each of the two memory states a chunk occurs once,
  and its label is a number small enough that the pointers of its cells do not wrap around.
\<close>

definition boundary_labels_ok :: "'f::field boundary_cols list \<Rightarrow> bool" where
  "boundary_labels_ok rows \<longleftrightarrow>
     (\<forall>r\<in>set rows. bc_expand_direction r \<noteq> 0 \<longrightarrow> (\<exists>l. bc_leaf_label r = of_nat l \<and> l * CHUNK + CHUNK \<le> CHAR('f))) \<and>
     (\<forall>dir\<in>{1, - 1}. distinct (map (\<lambda>r. (bc_address_space r, bc_leaf_label r))
       (filter (\<lambda>r. bc_expand_direction r = dir) rows)))"

section \<open>Messages of the operations and of the boundary\<close>

definition acc_src :: "'f mem_access \<Rightarrow> 'f list" where
  "acc_src a = memory_message (ma_address a) (ma_prev a) (ma_prev_ts a)"

definition acc_dst :: "'f mem_access \<Rightarrow> 'f list" where
  "acc_dst a = memory_message (ma_address a) (ma_data a) (ma_ts a)"

lemma memory_message_inject [simp]:
  "memory_message a d t = memory_message b e u \<longleftrightarrow> a = b \<and> d = e \<and> t = u"
  by (auto simp: memory_message_def)

definition msg_address :: "'f list \<Rightarrow> 'f memory_address" where
  "msg_address k = \<lparr>address_space = k ! 0, pointer = k ! 1\<rparr>"

lemma msg_address_message [simp]: "msg_address (memory_message a d t) = a"
  by (simp add: msg_address_def memory_message_def)

lemma msg_address_acc [simp]: "msg_address (acc_src a) = ma_address a" "msg_address (acc_dst a) = ma_address a"
  by (simp_all add: acc_src_def acc_dst_def)

lemma messages_other: "\<forall>i\<in>set is. bus_of i \<noteq> b \<Longrightarrow> messages c b is = {#}"
  by (auto simp: messages_def filter_empty_conv)

lemma bus_of_range_check [simp]: "bus_of (range_check bus x bits cnt) = vr_index bus"
  by (simp add: air_defs)

lemma bus_of_limb_range_checks: "i \<in> set (limb_range_checks bus bits ls cnt) \<Longrightarrow> bus_of i = vr_index bus"
  by (induction ls arbitrary: bits) auto

lemma bus_of_eval_timestamps:
  "i \<in> set (snd (eval_timestamps mb t base enabled)) \<Longrightarrow> bus_of i = vr_index (sa_bus (mb_timestamp_lt mb))"
  by (auto simp: eval_timestamps_def assert_lt_eval_def Let_def eval_range_checks_def dest: bus_of_limb_range_checks)

abbreviation mb_range_bus :: "memory_bridge \<Rightarrow> var_range_bus" where
  "mb_range_bus mb \<equiv> sa_bus (mb_timestamp_lt mb)"

lemma memory_op_interactions:
  obtains "is" where "snd (memory_op_eval mb op) = is @ eval_bulk_access mb (ma_address (op_access op)) (ma_data (op_access op))
      (ma_prev (op_access op)) (ma_ts (op_access op)) (ma_prev_ts (op_access op)) (op_enabled op)"
    "\<forall>i\<in>set is. bus_of i = vr_index (mb_range_bus mb)"
  by (cases op) (auto simp: Let_def case_prod_unfold dest: bus_of_eval_timestamps intro: that)

lemma memory_op_messages:
  assumes "vr_index (mb_range_bus mb) \<noteq> mb_memory_bus mb" "op_enabled op \<in> {0, 1}" "2 < CHAR('f)"
  shows "sent (mb_memory_bus mb) (snd (memory_op_eval mb op)) = mset (map acc_dst (accesses [op :: 'f::field memory_op]))"
    "received (mb_memory_bus mb) (snd (memory_op_eval mb op)) = mset (map acc_src (accesses [op]))"
    "unit_directions (mb_memory_bus mb) (snd (memory_op_eval mb op))"
proof -
  obtain "is" where i: "snd (memory_op_eval mb op) = is @ eval_bulk_access mb (ma_address (op_access op)) (ma_data (op_access op))
      (ma_prev (op_access op)) (ma_ts (op_access op)) (ma_prev_ts (op_access op)) (op_enabled op)"
    "\<forall>i\<in>set is. bus_of i = vr_index (mb_range_bus mb)" by (rule memory_op_interactions)
  have none: "messages c (mb_memory_bus mb) is = {#}" for c by (rule messages_other) (use i(2) assms(1) in auto)
  have un: "unit_directions (mb_memory_bus mb) is" using i(2) assms(1) by (auto simp: unit_directions_def)
  note ne = neg_one_neq_one [OF assms(3)]
  show "sent (mb_memory_bus mb) (snd (memory_op_eval mb op)) = mset (map acc_dst (accesses [op]))"
    "received (mb_memory_bus mb) (snd (memory_op_eval mb op)) = mset (map acc_src (accesses [op]))"
    "unit_directions (mb_memory_bus mb) (snd (memory_op_eval mb op))"
    unfolding i(1) using none un ne ne [symmetric] assms(2)
    by (auto simp: eval_bulk_access_def memory_send_def memory_receive_def accesses_def acc_src_def acc_dst_def)
qed

lemma accesses_simps [simp]:
  "accesses [] = []" "accesses (op # ops) = (if op_enabled op = 1 then [op_access op] else []) @ accesses ops"
  by (simp_all add: accesses_def)

lemma memory_ops_messages:
  assumes "vr_index (mb_range_bus mb) \<noteq> mb_memory_bus mb" "\<forall>op\<in>set ops. op_enabled op \<in> {0, 1}" "2 < CHAR('f)"
  shows "sent (mb_memory_bus mb) (concat (map (snd \<circ> memory_op_eval mb) ops)) = mset (map acc_dst (accesses (ops :: 'f::field memory_op list)))"
    "received (mb_memory_bus mb) (concat (map (snd \<circ> memory_op_eval mb) ops)) = mset (map acc_src (accesses ops))"
    "unit_directions (mb_memory_bus mb) (concat (map (snd \<circ> memory_op_eval mb) ops))"
  using assms(2)
  by (induction ops) (use memory_op_messages [OF assms(1) _ assms(3)] in auto)

lemma memory_op_lt:
  fixes op :: "'f::field memory_op"
  assumes "all_satisfied (fst (memory_op_eval mb op))" "lookups_ok T (snd (memory_op_eval mb op))" "op_enabled op \<noteq> 0"
    and T: "T (vr_index (mb_range_bus mb)) = var_range_table (range_max_bits (mb_range_bus mb))"
    and bits: "range_max_bits (mb_range_bus mb) < CHAR('f)" "2 ^ Suc (sa_max_bits (mb_timestamp_lt mb)) \<le> CHAR('f)"
    and t: "ma_prev_ts (op_access op) = of_nat t" "t < 2 ^ sa_max_bits (mb_timestamp_lt mb)"
    and u: "ma_ts (op_access op) = of_nat u" "u < 2 ^ sa_max_bits (mb_timestamp_lt mb)"
  shows "t < u"
proof -
  have lt: "t < u" if "all_satisfied (fst (eval_timestamps mb (of_nat u) base c))" "lookups_ok T (snd (eval_timestamps mb (of_nat u) base c))"
    "c \<noteq> 0" "prev_timestamp base = of_nat t" for base and c :: 'f
    by (rule assert_lt_sound [where count = c and T = T and ls = "timestamp_lt_aux base", OF _ _ _ T bits t(2) u(2)])
      (use that in \<open>simp_all add: eval_timestamps_def\<close>)
  show ?thesis using assms(1-3) t(1) u(1) by (cases op) (auto simp: Let_def case_prod_unfold intro: lt)
qed

subsection \<open>The boundary\<close>

definition boundary_messages :: "'f::field \<Rightarrow> 'f boundary_cols list \<Rightarrow> 'f list list" where
  "boundary_messages dir rows = concat (map (\<lambda>r. map (\<lambda>i. memory_message (fst (boundary_block r i)) (snd (boundary_block r i))
     (bc_timestamps r ! i)) [0..<BLOCKS_PER_CHUNK]) (filter (\<lambda>r. bc_expand_direction r = dir) rows))"

lemma boundary_messages_Cons: "boundary_messages dir (r # rows) =
    (if bc_expand_direction r = dir then map (\<lambda>i. memory_message (fst (boundary_block r i)) (snd (boundary_block r i))
     (bc_timestamps r ! i)) [0..<BLOCKS_PER_CHUNK] else []) @ boundary_messages dir rows"
  by (simp add: boundary_messages_def)

lemma cube_eq_self:
  assumes "x = x * x * x"
  shows "x \<in> {- 1, 0, 1 :: 'f::field}"
proof -
  have "x * ((x - 1) * (x + 1)) = x * x * x - x" by (simp add: algebra_simps)
  also have "\<dots> = 0" by (simp flip: assms)
  finally have "x = 0 \<or> x - 1 = 0 \<or> x + 1 = 0" by simp
  then show ?thesis by (auto simp: eq_neg_iff_add_eq_0)
qed

lemma boundary_direction:
  "all_satisfied (fst (boundary_eval air r)) \<Longrightarrow> bc_expand_direction r \<in> {- 1, 0, 1}"
  by (rule cube_eq_self) (simp add: boundary_eval_def Let_def del: mult_cancel_right1 mult_cancel_left1)

lemma boundary_row_messages:
  assumes "ba_merkle_bus air \<noteq> ba_memory_bus air" "ba_compression_bus air \<noteq> ba_memory_bus air"
  shows "messages c (ba_memory_bus air) (snd (boundary_eval air r)) = mset (boundary_messages c [r])"
  using assms
  by (auto simp: boundary_eval_def Let_def boundary_messages_def messages_def memory_send_def comp_def filter_map
      BLOCKS_PER_CHUNK_def CHUNK_def DEFAULT_BLOCK_SIZE_def upt_rec)

lemma boundary_rows_messages:
  assumes "ba_merkle_bus air \<noteq> ba_memory_bus air" "ba_compression_bus air \<noteq> ba_memory_bus air"
    and "\<forall>r\<in>set rows. all_satisfied (fst (boundary_eval air r))"
  shows "messages c (ba_memory_bus air) (concat (map (snd \<circ> boundary_eval air) rows)) = mset (boundary_messages c rows)"
    "unit_directions (ba_memory_bus air) (concat (map (snd \<circ> boundary_eval air) rows))"
proof -
  show "messages c (ba_memory_bus air) (concat (map (snd \<circ> boundary_eval air) rows)) = mset (boundary_messages c rows)"
    by (induction rows) (simp_all add: boundary_row_messages [OF assms(1,2)] boundary_messages_Cons, simp_all add: boundary_messages_def)
  show "unit_directions (ba_memory_bus air) (concat (map (snd \<circ> boundary_eval air) rows))"
    unfolding unit_directions_concat_map
  proof
    fix r assume "r \<in> set rows"
    then have "bc_expand_direction r \<in> {- 1, 0, 1}" using assms(3) boundary_direction by blast
    then show "unit_directions (ba_memory_bus air) ((snd \<circ> boundary_eval air) r)"
      using assms(1,2) by (auto simp: boundary_eval_def Let_def unit_directions_def memory_send_def)
  qed
qed

section \<open>A balanced bus is a memory\<close>

text \<open>The run of one block: each access finds what the one before it left.\<close>

fun block_run :: "'f list option \<Rightarrow> 'f mem_access list \<Rightarrow> 'f list option \<Rightarrow> bool" where
  "block_run d [] d' \<longleftrightarrow> d = d'"
| "block_run d (a # as) d' \<longleftrightarrow> d = Some (ma_prev a) \<and> block_run (Some (ma_data a)) as d'"

lemma replay_blocks:
  "replay m as = Some m' \<longleftrightarrow> (\<forall>x. block_run (m x) (filter (\<lambda>a. ma_address a = x) as) (m' x))"
proof (induction "as" arbitrary: m)
  case Nil
  then show ?case by (auto simp: fun_eq_iff)
next
  case (Cons a "as")
  let ?m = "m(ma_address a \<mapsto> ma_data a)"
  have "block_run (m x) (filter (\<lambda>a. ma_address a = x) (a # as)) (m' x) \<longleftrightarrow>
      (x = ma_address a \<longrightarrow> m x = Some (ma_prev a)) \<and> block_run (?m x) (filter (\<lambda>a. ma_address a = x) as) (m' x)" for x
    by simp
  then show ?case using Cons by auto
qed

lemma block_run_trail:
  "trail acc_src acc_dst (memory_message x d t) as (memory_message y d' t') \<Longrightarrow> block_run (Some d) as (Some d')"
  by (induction "as" arbitrary: d t x) (auto simp: acc_src_def acc_dst_def)

lemma filter_key_cases:
  assumes "distinct (map f xs)"
  obtains "filter (\<lambda>y. f y = x) xs = []" "x \<notin> f ` set xs" | y where "filter (\<lambda>y. f y = x) xs = [y]" "y \<in> set xs" "f y = x"
proof -
  have "filter (\<lambda>y. f y = x) xs = [] \<and> x \<notin> f ` set xs \<or> (\<exists>y. filter (\<lambda>y. f y = x) xs = [y] \<and> y \<in> set xs \<and> f y = x)"
    using assms by (induction xs) (auto simp: filter_empty_conv)
  then show ?thesis using that by blast
qed

lemma sorted_key_unique:
  assumes "mset xs = mset ys" "sorted (map k xs)" "sorted_wrt (\<lambda>a b. k a < (k b :: nat)) ys"
  shows "xs = ys"
proof -
  have "sorted_wrt (<) (map k ys)" using assms(3) by (simp add: sorted_wrt_map)
  then have d: "distinct (map k ys)" "sorted (map k ys)" by (simp_all add: strict_sorted_iff)
  then have inj: "inj_on k (set xs)" using assms(1) by (metis distinct_map mset_eq_setD)
  show ?thesis
    using sort_key_inj_key_eq [OF refl inj assms(2)] sort_key_inj_key_eq [OF assms(1) inj d(2)] by simp
qed

text \<open>
  Blocks with their times, as they stand at the beginning and at the end of a segment.
\<close>

abbreviation block_message :: "'f memory_address \<times> 'f list \<times> 'f \<Rightarrow> 'f list" where
  "block_message b \<equiv> memory_message (fst b) (fst (snd b)) (snd (snd b))"

lemma map_of_block:
  assumes "distinct (map fst bs)" "b \<in> set bs"
  shows "map_of (map (\<lambda>b. (fst b, fst (snd b))) bs) (fst b) = Some (fst (snd b))"
  by (rule map_of_is_SomeI) (use assms in \<open>auto simp: comp_def image_iff intro: bexI [of _ b]\<close>)

lemma map_of_block_None: "x \<notin> fst ` set bs \<Longrightarrow> map_of (map (\<lambda>b. (fst b, fst (snd b))) bs) x = None"
  by (force simp: map_of_eq_None_iff)

lemma block_linearizes:
  fixes as :: "'f mem_access list" and rank :: "'f \<Rightarrow> nat"
  assumes bal: "mset (map acc_dst as) + mset (map block_message bi) = mset (map acc_src as) + mset (map block_message bf)"
    and rank: "\<forall>a\<in>set as. rank (ma_prev_ts a) < rank (ma_ts a)"
    and dist: "distinct (map fst bi)" "distinct (map fst bf)"
  shows "block_run (map_of (map (\<lambda>b. (fst b, fst (snd b))) bi) x)
      (filter (\<lambda>a. ma_address a = x) (sort_key (\<lambda>a. rank (ma_ts a)) as)) (map_of (map (\<lambda>b. (fst b, fst (snd b))) bf) x)"
proof -
  let ?P = "\<lambda>k. msg_address k = x" and ?ax = "filter (\<lambda>a. ma_address a = x) as"
  let ?r = "\<lambda>k. rank (last k)"
  have "filter_mset ?P (mset (map acc_dst as) + mset (map block_message bi)) =
      filter_mset ?P (mset (map acc_src as) + mset (map block_message bf))" using bal by simp
  then have bx: "image_mset acc_dst (mset ?ax) + mset (map block_message (filter (\<lambda>b. fst b = x) bi)) =
      image_mset acc_src (mset ?ax) + mset (map block_message (filter (\<lambda>b. fst b = x) bf))"
    by (simp add: filter_mset_image_mset)
  have rk: "\<forall>a\<in>set ?ax. ?r (acc_src a) < ?r (acc_dst a)"
    using rank by (simp add: acc_src_def acc_dst_def memory_message_def)
  then have nc: "no_circulation acc_src acc_dst (mset ?ax)" by (intro no_circulation_ranked [where rank = ?r]) simp
  have size: "length (filter (\<lambda>b. fst b = x) bi) = length (filter (\<lambda>b. fst b = x) bf)"
    using arg_cong [OF bx, of size] by (simp del: mset_filter)
  have sorted: "sorted (map (\<lambda>a. rank (ma_ts a)) (filter (\<lambda>a. ma_address a = x) (sort_key (\<lambda>a. rank (ma_ts a)) as)))"
    by (rule sorted_filter) simp
  show ?thesis
  proof (cases rule: filter_key_cases [OF dist(1), of x])
    case 1
    then have bf: "filter (\<lambda>b. fst b = x) bf = []" using size by simp
    have "image_mset acc_dst (mset ?ax) = image_mset acc_src (mset ?ax)" using bx unfolding 1(1) bf by simp
    then have "mset ?ax = {#}" by (rule flow_closed [OF _ nc])
    then have "?ax = []" by (simp only: mset_zero_iff)
    then have "filter (\<lambda>a. ma_address a = x) (sort_key (\<lambda>a. rank (ma_ts a)) as) = []"
      by (auto simp: filter_empty_conv)
    moreover have "x \<notin> fst ` set bf" using bf by (auto simp: filter_empty_conv)
    ultimately show ?thesis using 1(2) by (simp add: map_of_block_None)
  next
    case (2 b)
    then have "filter (\<lambda>b. fst b = x) bf \<noteq> []" using size by auto
    then obtain c where c: "filter (\<lambda>b. fst b = x) bf = [c]" "c \<in> set bf" "fst c = x"
      by (cases rule: filter_key_cases [OF dist(2), of x]) simp_all
    have "add_mset (block_message b) (image_mset acc_dst (mset ?ax)) = add_mset (block_message c) (image_mset acc_src (mset ?ax))"
      using bx unfolding 2(1) c(1) by simp
    from flow_trail [OF this nc] obtain es where
      es: "mset es = mset ?ax" "trail acc_src acc_dst (block_message b) es (block_message c)"
      by (elim exE conjE)
    have "set es = set ?ax" using es(1) by (metis mset_eq_setD)
    then have "sorted_wrt (\<lambda>a b. ?r (acc_dst a) \<le> ?r (acc_src b)) es"
      using trail_ranked [OF es(2), of ?r] rk by simp
    then have "sorted_wrt (\<lambda>a b. rank (ma_ts a) < rank (ma_ts b)) es"
      by (rule sorted_wrt_mono_rel [rotated])
        (use rank \<open>set es = set ?ax\<close> in \<open>fastforce simp: acc_src_def acc_dst_def memory_message_def\<close>)
    then have "filter (\<lambda>a. ma_address a = x) (sort_key (\<lambda>a. rank (ma_ts a)) as) = es"
      by (intro sorted_key_unique [OF _ sorted]) (simp_all add: es(1))
    moreover have "block_run (Some (fst (snd b))) es (Some (fst (snd c)))" by (rule block_run_trail [OF es(2)])
    ultimately show ?thesis
      using map_of_block [OF dist(1) 2(2)] map_of_block [OF dist(2) c(2)] 2(3) c(3) by simp
  qed
qed

subsection \<open>The blocks of the boundary are distinct\<close>

definition boundary_blocks :: "'f::field \<Rightarrow> 'f boundary_cols list \<Rightarrow> ('f memory_address \<times> 'f list \<times> 'f) list" where
  "boundary_blocks dir rows = concat (map (\<lambda>r. map (\<lambda>i. (fst (boundary_block r i), snd (boundary_block r i), bc_timestamps r ! i))
     [0..<BLOCKS_PER_CHUNK]) (filter (\<lambda>r. bc_expand_direction r = dir) rows))"

lemma boundary_messages_blocks: "boundary_messages dir rows = map block_message (boundary_blocks dir rows)"
  by (simp add: boundary_messages_def boundary_blocks_def map_concat comp_def)

lemma boundary_memory_blocks: "boundary_memory dir rows = map_of (map (\<lambda>b. (fst b, fst (snd b))) (boundary_blocks dir rows))"
  by (simp add: boundary_memory_def boundary_blocks_def map_concat comp_def)

lemma boundary_block_inject:
  fixes r s :: "'f::field boundary_cols"
  assumes "fst (boundary_block r i) = fst (boundary_block s j)" "i < BLOCKS_PER_CHUNK" "j < BLOCKS_PER_CHUNK"
    and "bc_leaf_label r = of_nat l" "l * CHUNK + CHUNK \<le> CHAR('f)" "bc_leaf_label s = of_nat k" "k * CHUNK + CHUNK \<le> CHAR('f)"
  shows "bc_address_space r = bc_address_space s \<and> bc_leaf_label r = bc_leaf_label s \<and> i = j"
proof -
  have b: "i < 2" "j < 2" "l * 8 + 8 \<le> CHAR('f)" "k * 8 + 8 \<le> CHAR('f)"
    using assms by (simp_all add: BLOCKS_PER_CHUNK_def CHUNK_def DEFAULT_BLOCK_SIZE_def)
  have "of_nat (l * 8 + i * 4) = (of_nat (k * 8 + j * 4) :: 'f)"
    using assms by (simp add: boundary_block_def CHUNK_def DEFAULT_BLOCK_SIZE_def)
  then have "l * 8 + i * 4 = k * 8 + j * 4" using b by (subst (asm) of_nat_eq_iff_char) simp_all
  then have "l = k" "i = j" using b(1,2) by presburger+
  then show ?thesis using assms by (simp add: boundary_block_def)
qed

lemma distinct_block_addresses:
  fixes rs :: "'f::field boundary_cols list"
  assumes "\<forall>r\<in>set rs. \<exists>l. bc_leaf_label r = of_nat l \<and> l * CHUNK + CHUNK \<le> CHAR('f)"
    and "distinct (map (\<lambda>r. (bc_address_space r, bc_leaf_label r)) rs)"
  shows "distinct (concat (map (\<lambda>r. map (\<lambda>i. fst (boundary_block r i)) [0..<BLOCKS_PER_CHUNK]) rs))"
  using assms
proof (induction rs)
  case (Cons r rs)
  have inj: "bc_address_space r = bc_address_space s \<and> bc_leaf_label r = bc_leaf_label s \<and> i = j"
    if "s \<in> set (r # rs)" "fst (boundary_block r i) = fst (boundary_block s j)" "i < BLOCKS_PER_CHUNK" "j < BLOCKS_PER_CHUNK" for s i j
  proof -
    note s = that
    obtain l k where "bc_leaf_label r = of_nat l" "l * CHUNK + CHUNK \<le> CHAR('f)" "bc_leaf_label s = of_nat k" "k * CHUNK + CHUNK \<le> CHAR('f)"
      using bspec [OF Cons.prems(1), of r] bspec [OF Cons.prems(1) s(1)] by auto
    then show ?thesis using boundary_block_inject [OF s(2-4)] by blast
  qed
  have "distinct (concat (map (\<lambda>r. map (\<lambda>i. fst (boundary_block r i)) [0..<BLOCKS_PER_CHUNK]) rs))" using Cons by simp
  moreover have "distinct (map (\<lambda>i. fst (boundary_block r i)) [0..<BLOCKS_PER_CHUNK])"
    using inj [of r] by (simp add: distinct_map inj_on_def)
  moreover have "fst (boundary_block r i) \<noteq> fst (boundary_block s j)"
    if "s \<in> set rs" "i < BLOCKS_PER_CHUNK" "j < BLOCKS_PER_CHUNK" for s i j
  proof
    assume "fst (boundary_block r i) = fst (boundary_block s j)"
    then have "(bc_address_space r, bc_leaf_label r) = (bc_address_space s, bc_leaf_label s)" using inj [of s i j] that by simp
    then show False using Cons.prems(2) that(1) by (auto simp: image_iff)
  qed
  ultimately show ?case by fastforce
qed simp

lemma boundary_blocks_distinct:
  fixes rows :: "'f::field boundary_cols list"
  assumes "boundary_labels_ok rows" "dir \<in> {1, - 1}"
  shows "distinct (map fst (boundary_blocks dir rows))"
proof -
  let ?rs = "filter (\<lambda>r. bc_expand_direction r = dir) rows"
  have ok: "\<forall>r\<in>set ?rs. \<exists>l. bc_leaf_label r = of_nat l \<and> l * CHUNK + CHUNK \<le> CHAR('f)"
    using assms by (auto simp: boundary_labels_ok_def)
  have d: "distinct (map (\<lambda>r. (bc_address_space r, bc_leaf_label r)) ?rs)"
    using assms by (auto simp: boundary_labels_ok_def)
  have "distinct (concat (map (\<lambda>r. map (\<lambda>i. fst (boundary_block r i)) [0..<BLOCKS_PER_CHUNK]) ?rs))"
    by (rule distinct_block_addresses [OF ok d])
  then show ?thesis by (simp add: boundary_blocks_def map_concat comp_def)
qed

subsection \<open>The memory argument\<close>

lemma op_enabled_bool:
  assumes "all_satisfied (fst (memory_op_eval mb op))" "op_condition op \<in> {0, 1}"
  shows "op_enabled op \<in> {0, 1}" "op_enabled op = 1 \<Longrightarrow> op_condition op = 1"
  using assms is_zero_sound
  by (cases op; force simp: Let_def case_prod_unfold not_f_def from_bool_def)+

lemma memory_bridge_newD:
  assumes "memory_bridge_new mbus tbits rbus = Some mb"
  shows "mb_memory_bus mb = mbus" "mb_range_bus mb = rbus" "sa_max_bits (mb_timestamp_lt mb) = tbits" "tbits \<le> 29"
  using assms by (auto simp: memory_bridge_new_def dest: lt_sub_air_newD)

lemma initial_block_time:
  fixes r :: "'f::field boundary_cols"
  assumes "b \<in> set (boundary_blocks 1 rows)" "\<forall>r\<in>set rows. all_satisfied (fst (boundary_eval air r))" "2 < CHAR('f)"
  shows "snd (snd b) = (0 :: 'f)"
proof -
  obtain r i where r: "r \<in> set rows" "bc_expand_direction r = 1" "i < BLOCKS_PER_CHUNK" "snd (snd b) = bc_timestamps r ! i"
    using assms(1) by (auto simp: boundary_blocks_def)
  have "(1 + 1 :: 'f) \<noteq> 0" using of_nat_eq_0_char [of 2, where 'f = 'f] assms(3) by simp
  then show ?thesis using r assms(2) by (auto simp: boundary_eval_def Let_def)
qed

text \<open>
  C3. The memory argument. Whenever the memory bus balances between the operations of all chips and
  the rows of the boundary, and the operations satisfy their constraints: running the accesses in the
  order of their timestamps on the initial memory of the boundary, every access finds exactly what
  it claims to find, and the memory at the end is the final memory of the boundary. No order of the
  operations in the traces, no uniqueness of their timestamps and no claim about the previous
  timestamps is assumed.
\<close>

theorem memory_bus_linearizes:
  fixes ops :: "'f::field memory_op list"
  assumes mb: "memory_bridge_new mbus tbits rbus = Some mb"
    and buses: "ba_memory_bus air = mbus" "ba_merkle_bus air \<noteq> mbus" "ba_compression_bus air \<noteq> mbus" "vr_index rbus \<noteq> mbus"
    and T: "T (vr_index rbus) = var_range_table (range_max_bits rbus)"
    and char: "range_max_bits rbus < CHAR('f)" "2 ^ 30 < CHAR('f)" "canonical_u32 (canon :: 'f \<Rightarrow> nat)"
    and ops: "\<forall>op\<in>set ops. all_satisfied (fst (memory_op_eval mb op)) \<and> lookups_ok T (snd (memory_op_eval mb op)) \<and> op_condition op \<in> {0, 1}"
    and times: "\<forall>op\<in>set ops. op_condition op = 1 \<longrightarrow> (\<exists>t<2 ^ tbits. ma_ts (op_access op) = of_nat t)"
    and rows: "\<forall>r\<in>set rows. all_satisfied (fst (boundary_eval air r))" "boundary_labels_ok rows"
    and bal: "bus_balanced mbus (concat (map (snd \<circ> memory_op_eval mb) ops) @ concat (map (snd \<circ> boundary_eval air) rows))"
      "length (concat (map (snd \<circ> memory_op_eval mb) ops) @ concat (map (snd \<circ> boundary_eval air) rows)) < CHAR('f)"
  shows "replay (boundary_memory 1 rows) (sort_key (\<lambda>a. canon (ma_ts a)) (accesses ops)) = Some (boundary_memory (- 1) rows)"
proof -
  note new = memory_bridge_newD [OF mb]
  have two: "2 < CHAR('f)" using char(2) by simp
  have en: "\<forall>op\<in>set ops. op_enabled op \<in> {0, 1}" using ops op_enabled_bool(1) by blast
  have vr: "vr_index (mb_range_bus mb) \<noteq> mb_memory_bus mb" using new buses by simp
  note om = memory_ops_messages [OF vr en two, unfolded new(1)]
  note rm = boundary_rows_messages [OF buses(2,3) [folded buses(1)] rows(1), unfolded buses(1)]
  let ?bi = "boundary_blocks 1 rows" and ?bf = "boundary_blocks (- 1) rows"
  have eq: "mset (map acc_dst (accesses ops)) + mset (map block_message ?bi) = mset (map acc_src (accesses ops)) + mset (map block_message ?bf)"
    using balanced_messages [OF bal(1) _ bal(2) two] om rm by (simp add: boundary_messages_blocks)
  have "(2::nat) ^ tbits \<le> 2 ^ 29" "(2::nat) ^ Suc tbits \<le> 2 ^ 30" using new(4) by (intro power_increasing; simp)+
  then have pow: "2 ^ tbits < CHAR('f)" "2 ^ Suc tbits \<le> CHAR('f)" using char(2) by simp_all
  have time: "\<exists>t<2 ^ tbits. ma_ts a = of_nat t" if "a \<in> set (accesses ops)" for a
    using that times ops op_enabled_bool(2) by (fastforce simp: accesses_def)
  have prev: "\<exists>t<2 ^ tbits. ma_prev_ts a = of_nat t" if a: "a \<in> set (accesses ops)" for a
  proof -
    have "acc_src a \<in># mset (map acc_src (accesses ops)) + mset (map block_message ?bf)" using a by auto
    then have "acc_src a \<in># mset (map acc_dst (accesses ops)) + mset (map block_message ?bi)" by (simp only: eq)
    then consider b where "b \<in> set (accesses ops)" "acc_src a = acc_dst b" | b where "b \<in> set ?bi" "acc_src a = block_message b"
      by auto
    then show ?thesis
    proof cases
      case 1
      then show ?thesis using time [of b] by (simp add: acc_src_def acc_dst_def)
    next
      case 2
      then show ?thesis using initial_block_time [OF 2(1) rows(1) two] by (auto simp: acc_src_def intro!: exI [of _ 0])
    qed
  qed
  have rank: "\<forall>a\<in>set (accesses ops). canon (ma_prev_ts a) < canon (ma_ts a)"
  proof
    fix a assume a: "a \<in> set (accesses ops)"
    then obtain op where op: "op \<in> set ops" "a = op_access op" "op_enabled op = 1" by (auto simp: accesses_def)
    obtain t u where t: "t < 2 ^ tbits" "ma_prev_ts a = of_nat t" and u: "u < 2 ^ tbits" "ma_ts a = of_nat u"
      using prev [OF a] time [OF a] by blast
    have "t < u" by (rule memory_op_lt [where mb = mb and T = T and op = op]) (use op ops T char pow t u new in simp_all)
    then show "canon (ma_prev_ts a) < canon (ma_ts a)" using t u pow canonical_u32D [OF char(3)] by simp
  qed
  show ?thesis
    unfolding replay_blocks boundary_memory_blocks
    by (intro allI block_linearizes [OF eq rank] boundary_blocks_distinct [OF rows(2)]) simp_all
qed

text \<open>The witness writes the register at address 4 and reads it back.\<close>

definition demo_ops :: "bb memory_op list" where
  "demo_ops =
     [Mem_read \<lparr>address_space = 1, pointer = 4\<rparr> [7, 0, 0, 0] 2 \<lparr>prev_timestamp = 1, timestamp_lt_aux = [0, 0]\<rparr> 1,
      Mem_write \<lparr>address_space = 1, pointer = 4\<rparr> [7, 0, 0, 0] 1
        \<lparr>wa_base = \<lparr>prev_timestamp = 0, timestamp_lt_aux = [0, 0]\<rparr>, wa_prev_data = [9, 0, 0, 0]\<rparr> 1]"

definition demo_boundary :: "bb boundary_cols list" where
  "demo_boundary =
     [\<lparr>bc_expand_direction = 1, bc_address_space = 1, bc_leaf_label = 0, bc_values = [0, 0, 0, 0, 9, 0, 0, 0],
       bc_hash = replicate 8 0, bc_timestamps = [0, 0]\<rparr>,
      \<lparr>bc_expand_direction = - 1, bc_address_space = 1, bc_leaf_label = 0, bc_values = [0, 0, 0, 0, 7, 0, 0, 0],
       bc_hash = replicate 8 0, bc_timestamps = [0, 2]\<rparr>]"

lemma bb_neq: "(1 :: bb) \<noteq> - 1" "(2 :: bb) \<noteq> 0" "(2 :: bb) \<noteq> 1"
  using neg_one_neq_one [where 'f = bb] of_nat_eq_0_char [of 2, where 'f = bb] of_nat_eq_iff_char [of 2 1, where 'f = bb]
  by (auto simp: bb_CHAR)

theorem memory_bus_linearizes_witness:
  "replay (boundary_memory 1 demo_boundary) (sort_key (\<lambda>a. nat (bb_val (ma_ts a))) (accesses demo_ops)) =
     Some (boundary_memory (- 1) demo_boundary)"
proof -
  let ?rbus = "\<lparr>vr_index = 3, range_max_bits = 17\<rparr>"
  let ?air = "\<lparr>ba_memory_bus = 1, ba_merkle_bus = 4, ba_compression_bus = 5\<rparr>"
  let ?mb = "\<lparr>mb_memory_bus = 1, mb_timestamp_lt = \<lparr>sa_bus = ?rbus, sa_max_bits = 29, sa_decomp_limbs = 2\<rparr>\<rparr>"
  have mb: "memory_bridge_new 1 29 ?rbus = Some ?mb" by (simp add: memory_bridge_new_def lt_sub_air_new_def)
  note demo = demo_ops_def demo_boundary_def
  note evals = Let_def case_prod_unfold eval_timestamps_def assert_lt_eval_def eval_range_checks_def eval_bulk_access_def
    memory_send_def memory_receive_def boundary_eval_def boundary_block_def memory_message_def CHUNK_def BLOCKS_PER_CHUNK_def
    DEFAULT_BLOCK_SIZE_def ADDR_SPACE_OFFSET_def air_defs
  have comp: "compose [0, 0] 17 = (0 :: bb)" by (simp add: compose_def)
  have tab: "var_range_table 17 [0 :: bb, of_nat b]" if "b \<le> 17" for b
    unfolding var_range_table_def by (rule exI [of _ b]) (use that in \<open>auto intro!: exI [of _ 0]\<close>)
  have tab': "var_range_table 17 [0 :: bb, 12]" "var_range_table 17 [0 :: bb, 17]" using tab [of 12] tab [of 17] by simp_all
  have ops: "\<forall>op\<in>set demo_ops. all_satisfied (fst (memory_op_eval ?mb op)) \<and>
      lookups_ok (\<lambda>_. var_range_table 17) (snd (memory_op_eval ?mb op)) \<and> op_condition op \<in> {0, 1}"
    by (simp add: demo evals comp tab')
  have times: "\<forall>op\<in>set demo_ops. op_condition op = 1 \<longrightarrow> (\<exists>t<2 ^ 29. ma_ts (op_access op) = of_nat t)"
    by (auto simp: demo_ops_def intro: exI [of _ 1] exI [of _ 2])
  have rows: "\<forall>r\<in>set demo_boundary. all_satisfied (fst (boundary_eval ?air r))"
    by (simp add: demo evals) (auto simp: less_2_cases_iff)
  have lab: "boundary_labels_ok demo_boundary"
    using bb_neq(1) by (auto simp: boundary_labels_ok_def demo_boundary_def CHUNK_def bb_CHAR intro!: exI [of _ 0])
  have bal: "bus_balanced 1 (concat (map (snd \<circ> memory_op_eval ?mb) demo_ops) @ concat (map (snd \<circ> boundary_eval ?air) demo_boundary))"
    unfolding bus_balanced_def by (simp add: demo evals upt_rec)
  have len: "length (concat (map (snd \<circ> memory_op_eval ?mb) demo_ops) @ concat (map (snd \<circ> boundary_eval ?air) demo_boundary)) < CHAR(bb)"
    by (simp add: demo evals bb_CHAR upt_rec)
  have canon: "canonical_u32 (\<lambda>x. nat (bb_val x))" by (simp add: canonical_u32_def bb_CHAR bb_of_nat)
  show ?thesis
    by (rule memory_bus_linearizes [OF mb _ _ _ _ _ _ _ canon ops times rows lab bal len]) (simp_all add: bb_CHAR)
qed

end
