(* ===== verification/Exec_Bus.thy ===== *)
theory Exec_Bus
  imports Perm_Bus Sub_Airs Transpiler
begin

text \<open>
  The execution bus and the program bus: \<open>ExecutionBus\<close> and \<open>ExecutionBridge\<close> of
  \<open>crates/vm/src/arch/execution.rs\<close>, \<open>crates/vm/src/system/program\<close> and the connector
  \<open>crates/vm/src/system/connector\<close>. Every instruction receives the state it starts in and sends the
  state it ends in; the connector closes the chain with the public program counters. The theorems
  are that the instructions of an accepted segment form one path from the initial to the final state
  that leaves none out, and that each of them is an instruction of the committed program.
\<close>

section \<open>The model\<close>

subsection \<open>Program bus and program AIR\<close>

definition lookup_instruction :: "nat \<Rightarrow> 'f::field \<Rightarrow> 'f \<Rightarrow> 'f list \<Rightarrow> 'f \<Rightarrow> 'f interaction" where
  "lookup_instruction bus pc opc operands enabled =
     Lookup_key bus ([pc, opc] @ take 7 (operands @ replicate 7 0)) enabled"

text \<open>A row of the program AIR: the cached columns \<open>ProgramExecutionCols\<close> and the frequency.\<close>

record 'f program_cols =
  pr_exec :: "'f list"
  pr_exec_freq :: 'f

definition program_eval :: "nat \<Rightarrow> 'f program_cols \<Rightarrow> 'f interaction list" where
  "program_eval bus r = [Add_key bus (pr_exec r) (pr_exec_freq r)]"

definition enumerate_by_pc :: "'f program \<Rightarrow> (u32 \<times> 'f instr) list" where
  "enumerate_by_pc p =
     List.map_filter (\<lambda>(index, opt). map_option (\<lambda>i. (p_pc_base p + of_nat DEFAULT_PC_STEP * of_nat index, i)) opt)
       (enumerate 0 (p_instructions p))"

definition padding_instruction :: "'f::field instr" where
  "padding_instruction = default_instr\<lparr>i_opcode := TERMINATE_OPCODE, i_c := 1\<rparr>"

definition is_power_of_two :: "nat \<Rightarrow> bool" where
  "is_power_of_two n \<longleftrightarrow> n = 2 ^ ilog2 n"

lemma power_of_two_gap:
  assumes "\<not> is_power_of_two n" "\<not> is_power_of_two (Suc n)"
  shows "2 ^ Suc (ilog2 (Suc n)) - Suc n < (2 ^ Suc (ilog2 n) - n :: nat)"
proof -
  have pos: "0 < n"
  proof (rule ccontr)
    assume "\<not> 0 < n"
    moreover have "ilog2 1 = 0" by (simp add: ilog2.simps)
    ultimately show False using assms(2) by (simp add: is_power_of_two_def)
  qed
  note b = ilog2_bounds [OF this]
  have "Suc n < 2 ^ Suc (ilog2 n)"
  proof (rule ccontr)
    assume "\<not> Suc n < 2 ^ Suc (ilog2 n)"
    then have e: "Suc n = 2 ^ Suc (ilog2 n)" using b by simp
    have "ilog2 (Suc n) = Suc (ilog2 n)" by (rule ilog2_eq) (simp_all add: e)
    then show False using assms(2) e by (simp add: is_power_of_two_def)
  qed
  moreover from this have "ilog2 (Suc n) = ilog2 n" using b by (intro ilog2_eq) simp_all
  ultimately show ?thesis by simp
qed

lemma less_power_ilog2: "n < 2 ^ Suc (ilog2 n)"
  by (cases n) (use ilog2_bounds [of n] in auto)

function pad_instructions :: "u32 \<Rightarrow> (u32 \<times> 'f::field instr) list \<Rightarrow> (u32 \<times> 'f instr) list" where
  "pad_instructions pc_base is =
     (if is_power_of_two (length is) then is
      else pad_instructions pc_base
        (is @ [(pc_base + of_nat (length is) * of_nat DEFAULT_PC_STEP, padding_instruction)]))"
  by pat_completeness auto

termination
  by (relation "measure (\<lambda>(_, is). if is_power_of_two (length is) then 0 else 2 ^ Suc (ilog2 (length is)) - length is)")
    (use power_of_two_gap less_power_ilog2 in \<open>auto simp del: power_Suc\<close>)

declare pad_instructions.simps [simp del]

definition instruction_row :: "u32 \<times> 'f::field instr \<Rightarrow> 'f list" where
  "instruction_row x = (case x of (pc, i) \<Rightarrow>
     [of_nat (unat pc), of_nat (i_opcode i), i_a i, i_b i, i_c i, i_d i, i_e i, i_f i, i_g i])"

definition generate_cached_trace :: "'f::field program \<Rightarrow> 'f list list" where
  "generate_cached_trace p = map instruction_row (pad_instructions (p_pc_base p) (enumerate_by_pc p))"

subsection \<open>Execution bus and bridge\<close>

record 'f execution_state =
  xs_pc :: 'f
  xs_timestamp :: 'f

definition execution_bus_execute ::
  "nat \<Rightarrow> 'f::field \<Rightarrow> 'f execution_state \<Rightarrow> 'f execution_state \<Rightarrow> 'f interaction list" where
  "execution_bus_execute bus enabled prev_state next_state =
     [Receive bus [xs_pc prev_state, xs_timestamp prev_state] enabled,
      Send bus [xs_pc next_state, xs_timestamp next_state] enabled]"

record execution_bridge =
  xb_execution_bus :: nat
  xb_program_bus :: nat

text \<open>\<open>ExecutionBridgeInteractor\<close>\<close>

record 'f bridge_interactor =
  bi_opcode :: 'f
  bi_operands :: "'f list"
  bi_from :: "'f execution_state"
  bi_to :: "'f execution_state"

definition bridge_eval :: "execution_bridge \<Rightarrow> 'f::field bridge_interactor \<Rightarrow> 'f \<Rightarrow> 'f interaction list" where
  "bridge_eval xb x enabled =
     lookup_instruction (xb_program_bus xb) (xs_pc (bi_from x)) (bi_opcode x) (bi_operands x) enabled #
     execution_bus_execute (xb_execution_bus xb) enabled (bi_from x) (bi_to x)"

datatype 'f pc_inc_or_set = Pc_inc 'f | Pc_set 'f

definition pc_kind_of :: "nat \<Rightarrow> 'f::field option \<Rightarrow> 'f pc_inc_or_set" where
  "pc_kind_of pc_inc target = (case target of None \<Rightarrow> Pc_inc (of_nat pc_inc) | Some target \<Rightarrow> Pc_set target)"

definition execute_and_increment_or_set_pc ::
  "'f::field \<Rightarrow> 'f list \<Rightarrow> 'f execution_state \<Rightarrow> 'f \<Rightarrow> 'f pc_inc_or_set \<Rightarrow> 'f bridge_interactor" where
  "execute_and_increment_or_set_pc opc operands from_state timestamp_change pc_kind =
     \<lparr>bi_opcode = opc, bi_operands = operands, bi_from = from_state,
      bi_to = \<lparr>xs_pc = (case pc_kind of Pc_set target \<Rightarrow> target | Pc_inc pc_inc \<Rightarrow> xs_pc from_state + pc_inc),
               xs_timestamp = xs_timestamp from_state + timestamp_change\<rparr>\<rparr>"

definition execute_and_increment_pc ::
  "'f::field \<Rightarrow> 'f list \<Rightarrow> 'f execution_state \<Rightarrow> 'f \<Rightarrow> 'f bridge_interactor" where
  "execute_and_increment_pc opc operands from_state timestamp_change =
     \<lparr>bi_opcode = opc, bi_operands = operands, bi_from = from_state,
      bi_to = \<lparr>xs_pc = xs_pc from_state + of_nat DEFAULT_PC_STEP,
               xs_timestamp = xs_timestamp from_state + timestamp_change\<rparr>\<rparr>"

subsection \<open>The connector\<close>

record connector_air =
  ca_execution_bus :: nat
  ca_program_bus :: nat
  ca_range_bus :: var_range_bus
  ca_timestamp_max_bits :: nat

definition connector_air_new :: "nat \<Rightarrow> nat \<Rightarrow> var_range_bus \<Rightarrow> nat \<Rightarrow> connector_air option" where
  "connector_air_new execution_bus program_bus range_bus timestamp_max_bits =
     (if timestamp_max_bits \<le> range_max_bits range_bus * 2
      then Some \<lparr>ca_execution_bus = execution_bus, ca_program_bus = program_bus, ca_range_bus = range_bus,
        ca_timestamp_max_bits = timestamp_max_bits\<rparr>
      else None)"

definition timestamp_limb_bits :: "nat \<Rightarrow> nat \<Rightarrow> nat \<times> nat" where
  "timestamp_limb_bits max_bits timestamp_max_bits =
     (if timestamp_max_bits \<le> max_bits then (timestamp_max_bits, 0)
      else (max_bits, timestamp_max_bits - max_bits))"

record 'f connector_pvs =
  pv_initial_pc :: 'f
  pv_final_pc :: 'f
  pv_exit_code :: 'f
  pv_is_terminate :: 'f

record 'f connector_cols =
  cc_pc :: 'f
  cc_timestamp :: 'f
  cc_is_terminate :: 'f
  cc_exit_code :: 'f
  cc_timestamp_low_limb :: 'f
  cc_is_begin :: 'f

definition connector_eval ::
  "connector_air \<Rightarrow> 'f::field connector_pvs \<Rightarrow> 'f connector_cols \<Rightarrow> 'f connector_cols \<Rightarrow>
   'f row_assertion list \<times> 'f interaction list" where
  "connector_eval air pvs loc nxt =
     (let (low_bits, high_bits) = timestamp_limb_bits (range_max_bits (ca_range_bus air)) (ca_timestamp_max_bits air);
          high_limb = (cc_timestamp loc - cc_timestamp_low_limb loc) * inverse (2 ^ range_max_bits (ca_range_bus air))
      in ([Transition (assert_eq (cc_pc loc) (pv_initial_pc pvs)),
           Transition (assert_eq (cc_pc nxt) (pv_final_pc pvs)),
           Transition (When (cc_is_terminate nxt) (assert_eq (cc_exit_code nxt) (pv_exit_code pvs))),
           Transition (assert_eq (cc_is_terminate nxt) (pv_is_terminate pvs)),
           Every_row (assert_bool (cc_is_terminate loc)),
           Transition (assert_one (cc_timestamp loc)),
           First_row (assert_one (cc_is_begin loc)),
           Transition (assert_eq (cc_is_begin nxt + 1) (cc_is_begin loc)),
           Last_row (assert_zero (cc_is_begin loc))],
          execution_bus_execute (ca_execution_bus air) (cc_is_begin loc)
            \<lparr>xs_pc = cc_pc nxt, xs_timestamp = cc_timestamp nxt\<rparr> \<lparr>xs_pc = cc_pc loc, xs_timestamp = cc_timestamp loc\<rparr> @
          [lookup_instruction (ca_program_bus air) (cc_pc nxt) (of_nat TERMINATE_OPCODE) [0, 0, cc_exit_code nxt]
             (cc_is_begin loc * cc_is_terminate nxt),
           range_check (ca_range_bus air) (cc_timestamp_low_limb loc) low_bits 1,
           range_check (ca_range_bus air) high_limb high_bits 1]))"

definition DEFAULT_SUSPEND_EXIT_CODE :: nat where "DEFAULT_SUSPEND_EXIT_CODE = 42"

text \<open>The chip: the states recorded by \<open>begin\<close> and \<open>end\<close>, and the trace made of them.\<close>

type_synonym connector_chip = "nat connector_cols option \<times> nat connector_cols option"

definition connector_begin :: "nat \<Rightarrow> nat \<Rightarrow> connector_chip \<Rightarrow> connector_chip" where
  "connector_begin pc timestamp chip =
     (Some \<lparr>cc_pc = pc, cc_timestamp = timestamp, cc_is_terminate = 0, cc_exit_code = 0,
        cc_timestamp_low_limb = 0, cc_is_begin = 1\<rparr>, snd chip)"

definition connector_end :: "nat \<Rightarrow> nat \<Rightarrow> nat option \<Rightarrow> connector_chip \<Rightarrow> connector_chip" where
  "connector_end pc timestamp exit_code chip =
     (fst chip, Some \<lparr>cc_pc = pc, cc_timestamp = timestamp,
        cc_is_terminate = (case exit_code of None \<Rightarrow> 0 | Some _ \<Rightarrow> 1),
        cc_exit_code = (case exit_code of None \<Rightarrow> DEFAULT_SUSPEND_EXIT_CODE | Some c \<Rightarrow> c),
        cc_timestamp_low_limb = 0, cc_is_begin = 0\<rparr>)"

definition connector_row :: "nat \<Rightarrow> nat \<Rightarrow> nat connector_cols \<Rightarrow> 'f::field connector_cols \<times> lookup_request list" where
  "connector_row max_bits timestamp_max_bits st =
     (let low = cc_timestamp st AND wsub 32 (shl_rel 32 1 max_bits) 1;
          (low_bits, high_bits) = timestamp_limb_bits max_bits timestamp_max_bits
      in (\<lparr>cc_pc = of_nat (cc_pc st), cc_timestamp = of_nat (cc_timestamp st), cc_is_terminate = of_nat (cc_is_terminate st),
           cc_exit_code = of_nat (cc_exit_code st), cc_timestamp_low_limb = of_nat low, cc_is_begin = of_nat (cc_is_begin st)\<rparr>,
          [Add_count low low_bits, Add_count (shr_rel 32 (cc_timestamp st) max_bits) high_bits]))"

definition connector_generate ::
  "nat \<Rightarrow> nat \<Rightarrow> connector_chip \<Rightarrow> ('f::field connector_cols list \<times> lookup_request list \<times> 'f connector_pvs) option" where
  "connector_generate max_bits timestamp_max_bits chip =
     (case chip of
        (Some b, Some e) \<Rightarrow>
          (let (br, bq) = connector_row max_bits timestamp_max_bits b;
               (er, eq) = connector_row max_bits timestamp_max_bits e
           in Some ([br, er], bq @ eq,
                \<lparr>pv_initial_pc = cc_pc br, pv_final_pc = cc_pc er, pv_exit_code = cc_exit_code er,
                 pv_is_terminate = cc_is_terminate er\<rparr>))
      | _ \<Rightarrow> None)"

section \<open>The committed program\<close>

lemma pad_instructions_append:
  "\<exists>n. pad_instructions pc_base is = is @ map (\<lambda>k. (pc_base + of_nat k * of_nat DEFAULT_PC_STEP, padding_instruction)) [length is..<n] \<and>
     length is \<le> n \<and> is_power_of_two n"
proof (induction pc_base "is" rule: pad_instructions.induct)
  case (1 pc_base "is")
  show ?case
  proof (cases "is_power_of_two (length is)")
    case True
    then show ?thesis by (intro exI [of _ "length is"]) (simp add: pad_instructions.simps)
  next
    case False
    with 1 obtain n where n: "pad_instructions pc_base (is @ [(pc_base + of_nat (length is) * of_nat DEFAULT_PC_STEP, padding_instruction)]) =
        (is @ [(pc_base + of_nat (length is) * of_nat DEFAULT_PC_STEP, padding_instruction)]) @
        map (\<lambda>k. (pc_base + of_nat k * of_nat DEFAULT_PC_STEP, padding_instruction)) [Suc (length is)..<n]"
      "Suc (length is) \<le> n" "is_power_of_two n" by auto
    then have "[length is..<n] = length is # [Suc (length is)..<n]" by (simp add: upt_conv_Cons)
    then show ?thesis using n False by (intro exI [of _ n]) (simp add: pad_instructions.simps [of _ "is"])
  qed
qed

definition instruction_at :: "'f program \<Rightarrow> u32 \<Rightarrow> 'f instr \<Rightarrow> bool" where
  "instruction_at p pc i \<longleftrightarrow> (\<exists>index<length (p_instructions p). p_instructions p ! index = Some i \<and>
     pc = p_pc_base p + of_nat DEFAULT_PC_STEP * of_nat index)"

lemma set_enumerate_by_pc: "(pc, i) \<in> set (enumerate_by_pc p) \<longleftrightarrow> instruction_at p pc i"
  by (force simp: enumerate_by_pc_def List.map_filter_def instruction_at_def in_set_enumerate_eq image_iff)

lemma set_generate_cached_trace:
  assumes "k \<in> set (generate_cached_trace p)"
  obtains pc i where "instruction_at p pc i" "k = instruction_row (pc, i)"
  | n where "length (enumerate_by_pc p) \<le> n"
      "k = instruction_row (p_pc_base p + of_nat n * of_nat DEFAULT_PC_STEP, padding_instruction)"
proof -
  obtain n where n: "pad_instructions (p_pc_base p) (enumerate_by_pc p) = enumerate_by_pc p @
      map (\<lambda>k. (p_pc_base p + of_nat k * of_nat DEFAULT_PC_STEP, padding_instruction)) [length (enumerate_by_pc p)..<n]"
    using pad_instructions_append by blast
  from assms consider x where "x \<in> set (enumerate_by_pc p)" "k = instruction_row x"
    | m where "length (enumerate_by_pc p) \<le> m" "k = instruction_row (p_pc_base p + of_nat m * of_nat DEFAULT_PC_STEP, padding_instruction)"
    by (auto simp: generate_cached_trace_def n)
  then show ?thesis
  proof cases
    case (1 x)
    then show ?thesis using that(1) [of "fst x" "snd x"] set_enumerate_by_pc [of "fst x" "snd x" p] by simp
  next
    case (2 m)
    then show ?thesis by (rule that(2))
  qed
qed

definition program_valid :: "'f::field program \<Rightarrow> 'f program_cols list \<Rightarrow> bool" where
  "program_valid p rows \<longleftrightarrow> map pr_exec rows = generate_cached_trace p"

interpretation program: lookup_bus "\<lambda>k. k \<in> set (generate_cached_trace p)" "program_eval bus" "program_valid p" bus
  for p :: "'f::field program" and bus
proof
  fix rows :: "'f program_cols list" and r k c
  assume "program_valid p rows" "r \<in> set rows" "Add_key bus k c \<in> set (program_eval bus r)"
  moreover from this have "pr_exec r \<in> set (map pr_exec rows)" "k = pr_exec r" by (simp_all add: program_eval_def)
  ultimately show "k \<in> set (generate_cached_trace p)" by (simp add: program_valid_def)
qed

section \<open>The connector\<close>

definition connector_interactions ::
  "connector_air \<Rightarrow> 'f::field connector_pvs \<Rightarrow> 'f connector_cols list \<Rightarrow> 'f interaction list" where
  "connector_interactions air pvs rows =
     concat (map (\<lambda>i. snd (connector_eval air pvs (rows ! i) (rows ! (Suc i mod length rows)))) [0..<length rows])"

definition connector_accepted :: "connector_air \<Rightarrow> 'f::field connector_pvs \<Rightarrow> 'f connector_cols list \<Rightarrow> bool" where
  "connector_accepted air pvs rows \<longleftrightarrow> rows \<noteq> [] \<and> trace_satisfied (\<lambda>l n. fst (connector_eval air pvs l n)) rows"

lemma connector_two_rows:
  fixes rows :: "'f::field connector_cols list"
  assumes acc: "connector_accepted air pvs rows" and len: "length rows < CHAR('f)"
  obtains b e where "rows = [b, e]" "cc_is_begin b = 1" "cc_is_begin e = 0"
proof -
  note sat = acc [unfolded connector_accepted_def, THEN conjunct2]
  note ev = connector_eval_def Let_def case_prod_unfold
  have beg: "cc_is_begin (rows ! i) = 1 - of_nat i" if "i < length rows" for i
    using that
  proof (induction i)
    case 0
    then show ?case using trace_satisfied_row [OF sat, of 0] by (simp add: ev)
  next
    case (Suc i)
    have "cc_is_begin (rows ! Suc i) + 1 = cc_is_begin (rows ! i)"
      using trace_satisfied_window [OF sat Suc.prems] Suc.prems by (simp add: ev)
    also have "\<dots> = 1 - of_nat i" using Suc by simp
    finally show ?case by (simp add: eq_diff_eq [symmetric])
  qed
  have ne: "rows \<noteq> []" using acc by (simp add: connector_accepted_def)
  then have "Suc (length rows - 1) = length rows" by simp
  then have "cc_is_begin (rows ! (length rows - 1)) = 0"
    using trace_satisfied_row [OF sat, of "length rows - 1"] ne by (simp add: ev)
  then have "of_nat (length rows - 1) = (of_nat 1 :: 'f)" using beg [of "length rows - 1"] ne by simp
  moreover have "1 < CHAR('f)"
  proof (rule ccontr)
    assume "\<not> 1 < CHAR('f)"
    then show False using len ne CHAR_not_1' [where 'a = 'f] by (cases rows) auto
  qed
  ultimately have "length rows - 1 = 1" using len by (subst (asm) of_nat_eq_iff_char) simp_all
  then have two: "length rows = 2" by simp
  then obtain b e where "rows = [b, e]" by (auto simp: length_Suc_conv numeral_2_eq_2)
  then show ?thesis using that beg [of 0] beg [of 1] by simp
qed

lemma split_timestamp:
  fixes ts :: "'f::field"
  assumes "lookup_ok T (range_check bus low (fst (timestamp_limb_bits (range_max_bits bus) tbits)) 1)"
    and "lookup_ok T (range_check bus ((ts - low) * inverse (2 ^ range_max_bits bus)) (snd (timestamp_limb_bits (range_max_bits bus) tbits)) 1)"
    and T: "T (vr_index bus) = var_range_table (range_max_bits bus)"
    and bits: "tbits \<le> range_max_bits bus * 2" "range_max_bits bus < CHAR('f)" "2 ^ range_max_bits bus < CHAR('f)"
  obtains t where "ts = of_nat t" "t < 2 ^ tbits"
proof -
  let ?m = "range_max_bits bus" and ?l = "fst (timestamp_limb_bits (range_max_bits bus) tbits)"
    and ?h = "snd (timestamp_limb_bits (range_max_bits bus) tbits)"
  have lh: "?l \<le> ?m" "?h \<le> ?m" using bits(1) by (auto simp: timestamp_limb_bits_def)
  obtain u where u: "low = of_nat u" "u < 2 ^ ?l"
    using range_check_value [where T = T and bus = bus and limb = low, OF assms(1) _ T lh(1) bits(2)] by auto
  obtain v where v: "(ts - low) * inverse (2 ^ ?m) = of_nat v" "v < 2 ^ ?h"
    using range_check_value [where T = T and bus = bus, OF assms(2) _ T lh(2) bits(2)] by auto
  have "ts - low = (ts - low) * inverse (2 ^ ?m) * 2 ^ ?m" using two_power_neq_0_char [OF bits(3)] by simp
  also have "\<dots> = of_nat v * 2 ^ ?m" by (simp only: v(1))
  finally have "ts = of_nat (u + v * 2 ^ ?m)" using u(1) by (simp add: algebra_simps)
  moreover have "u + v * 2 ^ ?m < 2 ^ tbits"
  proof (cases "tbits \<le> ?m")
    case True
    then show ?thesis using u(2) v(2) by (simp add: timestamp_limb_bits_def)
  next
    case False
    then have b: "u < 2 ^ ?m" "v + 1 \<le> 2 ^ (tbits - ?m)" using u(2) v(2) by (simp_all add: timestamp_limb_bits_def)
    have "(2::nat) ^ tbits = 2 ^ (tbits - ?m) * 2 ^ ?m" using False by (simp add: power_add [symmetric])
    moreover have "(v + 1) * 2 ^ ?m \<le> 2 ^ (tbits - ?m) * 2 ^ ?m" using b(2) by (intro mult_le_mono1)
    ultimately show ?thesis using b(1) by simp
  qed
  ultimately show ?thesis by (rule that)
qed

lemma connector_air_newD:
  assumes "connector_air_new ebus pbus rbus tbits = Some air"
  shows "air = \<lparr>ca_execution_bus = ebus, ca_program_bus = pbus, ca_range_bus = rbus, ca_timestamp_max_bits = tbits\<rparr>"
    "tbits \<le> range_max_bits rbus * 2"
  using assms by (auto simp: connector_air_new_def split: if_splits)

lemma connector_sound:
  fixes rows :: "'f::field connector_cols list"
  assumes new: "connector_air_new ebus pbus rbus tbits = Some air"
    and acc: "connector_accepted air pvs rows" "lookups_ok T (connector_interactions air pvs rows)"
    and T: "T (vr_index rbus) = var_range_table (range_max_bits rbus)"
    and bits: "length rows < CHAR('f)" "range_max_bits rbus < CHAR('f)" "2 ^ range_max_bits rbus < CHAR('f)"
  obtains b e t where "rows = [b, e]" "cc_is_begin b = 1" "cc_is_begin e = 0" "cc_pc b = pv_initial_pc pvs" "cc_timestamp b = 1"
    "cc_pc e = pv_final_pc pvs" "cc_timestamp e = of_nat t" "t < 2 ^ tbits" "cc_is_terminate e = pv_is_terminate pvs"
    "cc_is_terminate e \<in> {0, 1}" "cc_is_terminate e = 0 \<or> cc_exit_code e = pv_exit_code pvs"
proof -
  obtain b e where be: "rows = [b, e]" "cc_is_begin b = 1" "cc_is_begin e = 0" by (rule connector_two_rows [OF acc(1) bits(1)])
  note air = connector_air_newD [OF new]
  note sat = acc(1) [unfolded connector_accepted_def be(1), THEN conjunct2]
  note ev = connector_eval_def Let_def case_prod_unfold
  have w: "cc_pc b = pv_initial_pc pvs" "cc_timestamp b = 1" "cc_pc e = pv_final_pc pvs" "cc_is_terminate e = pv_is_terminate pvs"
    "cc_is_terminate e = 0 \<or> cc_exit_code e = pv_exit_code pvs"
    using trace_satisfied_window [OF sat, of 0] by (auto simp: ev)
  have w': "cc_is_terminate e \<in> {0, 1}" using trace_satisfied_row [OF sat, of 1] by (auto simp: ev)
  have "lookup_ok T (range_check rbus (cc_timestamp_low_limb e) (fst (timestamp_limb_bits (range_max_bits rbus) tbits)) 1)"
    "lookup_ok T (range_check rbus ((cc_timestamp e - cc_timestamp_low_limb e) * inverse (2 ^ range_max_bits rbus))
       (snd (timestamp_limb_bits (range_max_bits rbus) tbits)) 1)"
    using acc(2) by (auto simp: connector_interactions_def be(1) ev air(1) upt_rec)
  then obtain t where "cc_timestamp e = of_nat t" "t < 2 ^ tbits"
    by (rule split_timestamp [where T = T and bus = rbus and tbits = tbits and ts = "cc_timestamp e"]) (use T bits air(2) in auto)
  then show ?thesis using that be w w' by blast
qed

text \<open>The trace of the chip is accepted when a segment begins at time 1 and ends in the range of timestamps.\<close>

lemma connector_request_ok:
  assumes "cc_timestamp st < 2 ^ tbits" "tbits \<le> m * 2" and m: "m < 32"
  shows "list_all (var_range_request_ok m) (snd (connector_row m tbits st :: 'f::field connector_cols \<times> _))"
proof (cases "tbits \<le> m")
  case True
  then have "(2::nat) ^ tbits \<le> 2 ^ m" by (intro power_increasing) simp_all
  then have "cc_timestamp st < 2 ^ m" using assms(1) by linarith
  then show ?thesis using assms True by (simp add: connector_row_def Let_def timestamp_limb_bits_def mask_rel [OF m] mask_eq_mod shr_rel_small [OF m] del: One_nat_def)
next
  case False
  then have "(2::nat) ^ tbits = 2 ^ (tbits - m) * 2 ^ m" by (simp add: power_add [symmetric])
  then have "cc_timestamp st div 2 ^ m < 2 ^ (tbits - m)" using assms(1) by (simp add: less_mult_imp_div_less)
  then show ?thesis using assms False by (simp add: connector_row_def Let_def timestamp_limb_bits_def mask_rel [OF m] mask_eq_mod shr_rel_small [OF m] del: One_nat_def)
qed

lemma connector_generated:
  assumes chip: "chip = connector_end pc' t exit_code (connector_begin pc 1 (None, None))" and t: "t < 2 ^ tbits" "0 < tbits"
    and new: "connector_air_new ebus pbus rbus tbits = Some air" "range_max_bits rbus < 32"
  obtains rows reqs and pvs :: "'f::field connector_pvs" where
    "connector_generate (range_max_bits rbus) tbits chip = Some (rows, reqs, pvs)" "connector_accepted air pvs rows"
    "list_all (var_range_request_ok (range_max_bits rbus)) reqs"
    "pv_initial_pc pvs = of_nat pc" "pv_final_pc pvs = of_nat pc'" "pv_is_terminate pvs = from_bool (exit_code \<noteq> None)"
proof -
  let ?m = "range_max_bits rbus"
  obtain b e where be: "chip = (Some b, Some e)" "cc_timestamp b = 1" "cc_timestamp e = t"
    "cc_pc b = pc" "cc_pc e = pc'" "cc_is_begin b = 1" "cc_is_begin e = 0" "cc_is_terminate b = 0"
    "cc_is_terminate e = (case exit_code of None \<Rightarrow> 0 | Some _ \<Rightarrow> 1)"
    by (simp add: chip connector_end_def connector_begin_def)
  have "1 < (2::nat) ^ tbits" using t(2) by (rule one_less_power [rotated]) simp
  then have ok: "list_all (var_range_request_ok ?m) (snd (connector_row ?m tbits b :: 'f connector_cols \<times> _))"
    "list_all (var_range_request_ok ?m) (snd (connector_row ?m tbits e :: 'f connector_cols \<times> _))"
    using be t(1) connector_air_newD(2) [OF new(1)] new(2) by (auto intro!: connector_request_ok)
  obtain rows reqs and pvs :: "'f connector_pvs" where gen: "connector_generate ?m tbits chip = Some (rows, reqs, pvs)"
    "rows = [fst (connector_row ?m tbits b), fst (connector_row ?m tbits e)]"
    "reqs = snd (connector_row ?m tbits b :: 'f connector_cols \<times> _) @ snd (connector_row ?m tbits e :: 'f connector_cols \<times> _)"
    "pvs = \<lparr>pv_initial_pc = of_nat pc, pv_final_pc = of_nat pc', pv_exit_code = of_nat (cc_exit_code e), pv_is_terminate = of_nat (cc_is_terminate e)\<rparr>"
    by (simp add: connector_generate_def be Let_def case_prod_unfold) (simp add: connector_row_def Let_def case_prod_unfold be)
  have "connector_accepted air pvs rows"
    by (simp add: connector_accepted_def trace_satisfied_def gen(2,4) connector_eval_def connector_row_def Let_def
        case_prod_unfold less_Suc_eq be split: option.splits)
  then show ?thesis using that gen ok be(9) by (auto split: option.splits)
qed

section \<open>The instructions of a segment\<close>

text \<open>
  An instruction of a chip: what it hands to the execution bridge and the condition it is evaluated
  with. \<open>dl\<close> is the number of time steps it takes.
\<close>

definition x_src :: "'f bridge_interactor \<Rightarrow> 'f list" where
  "x_src x = [xs_pc (bi_from x), xs_timestamp (bi_from x)]"

definition x_dst :: "'f bridge_interactor \<Rightarrow> 'f list" where
  "x_dst x = [xs_pc (bi_to x), xs_timestamp (bi_to x)]"

definition executed :: "('f::field bridge_interactor \<times> 'f) list \<Rightarrow> 'f bridge_interactor list" where
  "executed xs = map fst (filter (\<lambda>(x, enabled). enabled = 1) xs)"

lemma executed_simps [simp]: "executed [] = []"
  "executed (x # xs) = (if snd x = 1 then [fst x] else []) @ executed xs"
  by (simp_all add: executed_def case_prod_unfold)

lemma bridge_messages:
  fixes xs :: "('f::field bridge_interactor \<times> 'f) list"
  assumes "xb_program_bus xb \<noteq> xb_execution_bus xb" "\<forall>(x, e)\<in>set xs. e \<in> {0, 1}" "2 < CHAR('f)"
  shows "sent (xb_execution_bus xb) (concat (map (\<lambda>(x, e). bridge_eval xb x e) xs)) = mset (map x_dst (executed xs))"
    "received (xb_execution_bus xb) (concat (map (\<lambda>(x, e). bridge_eval xb x e) xs)) = mset (map x_src (executed xs))"
    "unit_directions (xb_execution_bus xb) (concat (map (\<lambda>(x, e). bridge_eval xb x e) xs))"
  using assms(2)
  by (induction xs)
    (use assms(1) neg_one_neq_one [OF assms(3)] neg_one_neq_one [OF assms(3), symmetric] in
      \<open>auto simp: bridge_eval_def lookup_instruction_def execution_bus_execute_def x_src_def x_dst_def\<close>)

text \<open>Time runs forward: the timestamps of a part of the segment cannot add up to a multiple of the characteristic.\<close>

lemma execution_no_circulation:
  fixes xs :: "'f::field bridge_interactor multiset"
  assumes dl: "\<forall>x\<in>#xs. xs_timestamp (bi_to x) = xs_timestamp (bi_from x) + of_nat (dl x) \<and> 0 < dl x"
    and small: "(\<Sum>x\<in>#xs. dl x) < CHAR('f)"
  shows "no_circulation x_src x_dst xs"
  unfolding no_circulation_def
proof (intro allI impI)
  fix C assume C: "C \<subseteq># xs" "image_mset x_src C = image_mset x_dst C"
  have sum: "(\<Sum>x\<in>#D. last (x_dst x)) = (\<Sum>x\<in>#D. last (x_src x)) + of_nat (\<Sum>x\<in>#D. dl x)" if "set_mset D \<subseteq> set_mset xs" for D
    using that dl by (induction D) (auto simp: x_src_def x_dst_def algebra_simps)
  have "(\<Sum>x\<in>#C. last (x_src x)) = (\<Sum>x\<in>#C. last (x_dst x))"
    using arg_cong [OF C(2), of "\<lambda>M. \<Sum>n\<in>#M. last n"] by (simp add: image_mset.compositionality comp_def)
  then have "of_nat (\<Sum>x\<in>#C. dl x) = (0 :: 'f)" using sum [of C] C(1) by (simp add: set_mset_mono)
  moreover have "(\<Sum>x\<in>#C. dl x) \<le> (\<Sum>x\<in>#xs. dl x)"
    using C(1) by (auto simp: mset_subset_eq_exists_conv)
  ultimately have "(\<Sum>x\<in>#C. dl x) = 0" using small by (metis le_less_trans of_nat_eq_0_char)
  then have "\<forall>x\<in>#C. dl x = 0" by simp
  moreover have "\<forall>x\<in>#C. 0 < dl x" using dl C(1) by (auto dest: mset_subset_eqD)
  ultimately show "C = {#}" by (metis less_numeral_extra(3) multiset_nonemptyE)
qed

lemma trail_times:
  assumes "trail x_src x_dst [pc, of_nat n] es k" "\<forall>x\<in>set es. xs_timestamp (bi_to x) = xs_timestamp (bi_from x) + of_nat (dl x)"
  shows "last k = (of_nat (n + sum_list (map dl es)) :: 'f::field)"
  using assms
proof (induction es arbitrary: pc n)
  case (Cons y es)
  then have "x_dst y = [xs_pc (bi_to y), of_nat (n + dl y)]" by (auto simp: x_dst_def x_src_def)
  then show ?case using Cons.IH [of "xs_pc (bi_to y)" "n + dl y"] Cons.prems by (simp add: add.assoc)
qed auto

lemma trail_start_time:
  assumes "trail x_src x_dst [pc, of_nat n] (us @ x # vs) k" "\<forall>x\<in>set us. xs_timestamp (bi_to x) = xs_timestamp (bi_from x) + of_nat (dl x)"
  shows "xs_timestamp (bi_from x) = (of_nat (n + sum_list (map dl us)) :: 'f::field)"
proof -
  obtain c where c: "trail x_src x_dst [pc, of_nat n] us c" "x_src x = c" using assms(1) by (auto simp: trail_append)
  then show ?thesis using trail_times [OF c(1) assms(2)] by (simp add: x_src_def flip: c(2))
qed

lemma connector_messages:
  assumes new: "connector_air_new ebus pbus rbus tbits = Some air" and bus: "pbus \<noteq> ebus" "vr_index rbus \<noteq> ebus"
    and rows: "cc_is_begin b = 1" "cc_is_begin e = 0" and two: "2 < CHAR('f::field)"
  shows "sent ebus (connector_interactions air pvs [b, e]) = {#[cc_pc b, cc_timestamp b :: 'f]#}"
    "received ebus (connector_interactions air pvs [b, e]) = {#[cc_pc e, cc_timestamp e]#}"
    "unit_directions ebus (connector_interactions air pvs [b, e])"
  using bus rows neg_one_neq_one [OF two] neg_one_neq_one [OF two, symmetric] connector_air_newD [OF new]
  by (simp_all add: connector_interactions_def connector_eval_def Let_def case_prod_unfold execution_bus_execute_def
      lookup_instruction_def air_defs upt_rec)

lemma length_connector_interactions: "length rows \<le> length (connector_interactions air pvs rows)"
  by (simp add: connector_interactions_def connector_eval_def Let_def case_prod_unfold execution_bus_execute_def
      length_concat comp_def sum_list_triv)

lemma operands_padded:
  "replicate 4 x = [x, x, x, x]" "replicate 6 x = [x, x, x, x, x, x]"
  by (simp_all add: numeral_eq_Suc)

text \<open>What the committed trace says about a key: an instruction of the program at its address, or a row of the padding.\<close>

definition committed :: "'f::field program \<Rightarrow> 'f list \<Rightarrow> bool" where
  "committed p k \<longleftrightarrow> (\<exists>pc i. instruction_at p pc i \<and> k = instruction_row (pc, i)) \<or>
     (\<exists>n\<ge>length (enumerate_by_pc p). k = instruction_row (p_pc_base p + of_nat n * of_nat DEFAULT_PC_STEP, padding_instruction))"

lemma committed_cached: "k \<in> set (generate_cached_trace p) \<Longrightarrow> committed p k"
  by (erule set_generate_cached_trace) (auto simp: committed_def)

definition instruction_key :: "'f::field bridge_interactor \<Rightarrow> 'f list" where
  "instruction_key x = [xs_pc (bi_from x), bi_opcode x] @ take 7 (bi_operands x @ replicate 7 0)"

text \<open>
  C5. The instructions of an accepted segment are one execution. Whenever the execution bus balances
  between the instructions of all chips and the connector: the enabled instructions can be put in
  an order in which the first starts at the public initial program counter at time 1, each starts
  where and when the one before it ended, and the last ends at the public final program counter; no
  instruction is left out or used twice. Time never wraps around: the final time is the sum of the
  time steps and is below \<open>2 ^ timestamp_max_bits\<close>. Every instruction is a row of the committed
  program, and if the segment claims to terminate, the program has \<open>TERMINATE\<close> with the public exit
  code at the final program counter.
\<close>

theorem segment_execution:
  fixes xs :: "('f::field bridge_interactor \<times> 'f) list"
  assumes new: "connector_air_new ebus pbus rbus tbits = Some air"
    and bus: "xb = \<lparr>xb_execution_bus = ebus, xb_program_bus = pbus\<rparr>" "pbus \<noteq> ebus" "vr_index rbus \<noteq> ebus"
    and T: "T (vr_index rbus) = var_range_table (range_max_bits rbus)" "T pbus = (\<lambda>k. k \<in> set (generate_cached_trace p))"
    and char: "2 < CHAR('f)" "range_max_bits rbus < CHAR('f)" "2 ^ range_max_bits rbus < CHAR('f)"
    and conn: "connector_accepted air pvs rows" "lookups_ok T (connector_interactions air pvs rows)"
    and steps: "\<forall>(x, e)\<in>set xs. e \<in> {0, 1} \<and> lookups_ok T (bridge_eval xb x e)"
    and time: "\<forall>x\<in>set (executed xs). xs_timestamp (bi_to x) = xs_timestamp (bi_from x) + of_nat (dl x) \<and> 0 < dl x"
    and small: "1 + sum_list (map dl (executed xs)) < CHAR('f)" "2 ^ tbits \<le> CHAR('f)"
    and bal: "bus_balanced ebus (concat (map (\<lambda>(x, e). bridge_eval xb x e) xs) @ connector_interactions air pvs rows)"
      "length (concat (map (\<lambda>(x, e). bridge_eval xb x e) xs) @ connector_interactions air pvs rows) < CHAR('f)"
  shows "\<exists>es t. mset es = mset (executed xs) \<and>
    trail x_src x_dst [pv_initial_pc pvs, 1] es [pv_final_pc pvs, of_nat t] \<and>
    t = 1 + sum_list (map dl es) \<and> t < 2 ^ tbits \<and>
    (\<forall>us x vs. es = us @ x # vs \<longrightarrow> xs_timestamp (bi_from x) = of_nat (1 + sum_list (map dl us)) \<and> committed p (instruction_key x)) \<and>
    (pv_is_terminate pvs = 0 \<or>
     pv_is_terminate pvs = 1 \<and> committed p [pv_final_pc pvs, of_nat TERMINATE_OPCODE, 0, 0, pv_exit_code pvs, 0, 0, 0, 0])"
proof -
  let ?is = "concat (map (\<lambda>(x, e). bridge_eval xb x e) xs)" and ?cs = "connector_interactions air pvs rows"
  have rows: "length rows < CHAR('f)" using bal(2) length_connector_interactions [of rows air pvs] by simp
  obtain b e u where be: "rows = [b, e]" "cc_is_begin b = 1" "cc_is_begin e = 0" "cc_pc b = pv_initial_pc pvs" "cc_timestamp b = 1"
    "cc_pc e = pv_final_pc pvs" "cc_timestamp e = of_nat u" "u < 2 ^ tbits" "cc_is_terminate e = pv_is_terminate pvs"
    "cc_is_terminate e \<in> {0, 1}" "cc_is_terminate e = 0 \<or> cc_exit_code e = pv_exit_code pvs"
    by (rule connector_sound [OF new conn T(1) rows char(2,3)])
  note cm = connector_messages [OF new bus(2,3) be(2,3) char(1), where pvs = pvs, folded be(1)]
  have en: "\<forall>(x, e)\<in>set xs. e \<in> {0, 1}" using steps by auto
  have xm: "sent ebus ?is = mset (map x_dst (executed xs))" "received ebus ?is = mset (map x_src (executed xs))" "unit_directions ebus ?is"
    using bridge_messages [of xb xs] bus(1,2) en char(1) by simp_all
  have "sent ebus (?is @ ?cs) = received ebus (?is @ ?cs)" by (rule balanced_messages [OF bal(1) _ bal(2) char(1)]) (simp add: xm cm)
  then have "add_mset [pv_initial_pc pvs, 1] (image_mset x_dst (mset (executed xs))) =
      add_mset [pv_final_pc pvs, of_nat u] (image_mset x_src (mset (executed xs)))"
    by (simp add: xm cm be(4-7))
  moreover have "no_circulation x_src x_dst (mset (executed xs))"
    by (rule execution_no_circulation [where dl = dl]) (use time small(1) in \<open>simp_all flip: sum_mset_sum_list\<close>)
  ultimately have "\<exists>es. mset es = mset (executed xs) \<and> trail x_src x_dst [pv_initial_pc pvs, 1] es [pv_final_pc pvs, of_nat u]"
    by (rule flow_trail)
  then obtain es where es: "mset es = mset (executed xs)" "trail x_src x_dst [pv_initial_pc pvs, of_nat 1] es [pv_final_pc pvs, of_nat u]"
    by auto
  have set_es: "set es = set (executed xs)" using es(1) by (rule mset_eq_setD)
  have times: "\<forall>x\<in>set es. xs_timestamp (bi_to x) = xs_timestamp (bi_from x) + of_nat (dl x)" using time set_es by simp
  have sum: "sum_list (map dl es) = sum_list (map dl (executed xs))"
    using es(1) by (metis mset_map sum_mset_sum_list)
  have "of_nat u = (of_nat (1 + sum_list (map dl es)) :: 'f)" using trail_times [OF es(2) times] by simp
  then have u: "u = 1 + sum_list (map dl es)"
    using small be(8) sum by (subst (asm) of_nat_eq_iff_char) simp_all
  have key: "committed p (instruction_key x)" if "x \<in> set (executed xs)" for x
  proof (rule committed_cached)
    have "(x, 1) \<in> set xs" using that by (auto simp: executed_def)
    then have "lookups_ok T (bridge_eval xb x 1)" using steps by auto
    then show "instruction_key x \<in> set (generate_cached_trace p)"
      using bus(1) T(2) by (simp add: bridge_eval_def lookup_instruction_def instruction_key_def)
  qed
  have "pv_is_terminate pvs = 0 \<or> pv_is_terminate pvs = 1 \<and>
      committed p [pv_final_pc pvs, of_nat TERMINATE_OPCODE, 0, 0, pv_exit_code pvs, 0, 0, 0, 0]"
  proof (cases "pv_is_terminate pvs = 0")
    case False
    then have t: "pv_is_terminate pvs = 1" "cc_exit_code e = pv_exit_code pvs" using be by auto
    have "lookup_ok T (lookup_instruction pbus (cc_pc e) (of_nat TERMINATE_OPCODE) [0, 0, cc_exit_code e] 1)"
      using conn(2) be t by (simp add: connector_interactions_def connector_eval_def Let_def case_prod_unfold upt_rec connector_air_newD(1) [OF new])
    then have "[pv_final_pc pvs, of_nat TERMINATE_OPCODE, 0, 0, pv_exit_code pvs, 0, 0, 0, 0] \<in> set (generate_cached_trace p)"
      using T(2) t be(6) by (simp add: lookup_instruction_def operands_padded)
    then show ?thesis using t committed_cached by blast
  qed simp
  moreover have "xs_timestamp (bi_from x) = of_nat (1 + sum_list (map dl us)) \<and> committed p (instruction_key x)"
    if split: "es = us @ x # vs" for us x vs
  proof
    show "xs_timestamp (bi_from x) = of_nat (1 + sum_list (map dl us))"
      by (rule trail_start_time [OF es(2) [unfolded split]]) (use times split in simp)
    show "committed p (instruction_key x)" by (rule key) (simp add: split flip: set_es)
  qed
  ultimately show ?thesis using es(1) es(2) [unfolded of_nat_1] u be(8) by blast
qed

text \<open>
  The witness is a segment with one instruction, which takes three time steps, in a program of two
  instructions at address 0.
\<close>

definition demo_program :: "bb program" where
  "demo_program = \<lparr>p_instructions = [Some (default_instr\<lparr>i_opcode := 512, i_a := 4\<rparr>), Some (default_instr\<lparr>i_opcode := TERMINATE_OPCODE\<rparr>)],
     p_pc_base = 0\<rparr>"

definition demo_step :: "bb bridge_interactor" where
  "demo_step = execute_and_increment_pc 512 [4] \<lparr>xs_pc = 0, xs_timestamp = 1\<rparr> 3"

definition demo_connector :: "bb connector_cols list" where
  "demo_connector = [fst (connector_row 17 29 \<lparr>cc_pc = 0, cc_timestamp = 1, cc_is_terminate = 0, cc_exit_code = 0, cc_timestamp_low_limb = 0, cc_is_begin = 1\<rparr>),
     fst (connector_row 17 29 \<lparr>cc_pc = 4, cc_timestamp = 4, cc_is_terminate = 1, cc_exit_code = 0, cc_timestamp_low_limb = 0, cc_is_begin = 0\<rparr>)]"

definition demo_pvs :: "bb connector_pvs" where
  "demo_pvs = \<lparr>pv_initial_pc = 0, pv_final_pc = 4, pv_exit_code = 0, pv_is_terminate = 1\<rparr>"

lemma demo_cached_trace:
  "generate_cached_trace demo_program = [[0, 512, 4, 0, 0, 0, 0, 0, 0], [4, 0, 0, 0, 0, 0, 0, 0, 0]]"
proof -
  have two: "is_power_of_two 2" using ilog2_eq [of 1 2] by (simp add: is_power_of_two_def)
  have e: "enumerate_by_pc demo_program = [(0, default_instr\<lparr>i_opcode := 512, i_a := 4\<rparr>), (4, default_instr\<lparr>i_opcode := 0\<rparr>)]"
    by (simp add: demo_program_def enumerate_by_pc_def List.map_filter_def TERMINATE_OPCODE_def DEFAULT_PC_STEP_def)
  show ?thesis
    unfolding generate_cached_trace_def e
    by (subst pad_instructions.simps) (simp add: two [unfolded numeral_2_eq_2] instruction_row_def default_instr_def)
qed

lemma demo_range:
  assumes "v < 2 ^ b" "b \<le> 17"
  shows "var_range_table 17 [of_nat v, of_nat b :: bb]"
  using assms by (auto simp: var_range_table_def)

theorem segment_execution_witness:
  "\<exists>es. trail x_src x_dst [0, 1] es [4, 4 :: bb] \<and> mset es = {#demo_step#} \<and>
     committed demo_program [4, of_nat TERMINATE_OPCODE, 0, 0, 0, 0, 0, 0, 0]"
proof -
  let ?rbus = "\<lparr>vr_index = 3, range_max_bits = 17\<rparr>" and ?xb = "\<lparr>xb_execution_bus = 0, xb_program_bus = 2\<rparr>"
  let ?T = "\<lambda>b. if b = 3 then var_range_table 17 else (\<lambda>k. k \<in> set (generate_cached_trace demo_program))"
  let ?air = "\<lparr>ca_execution_bus = 0, ca_program_bus = 2, ca_range_bus = ?rbus, ca_timestamp_max_bits = 29\<rparr>"
  have new: "connector_air_new 0 2 ?rbus 29 = Some ?air" by (simp add: connector_air_new_def)
  have mask: "wsub 32 (shl_rel 32 (Suc 0) 17) (Suc 0) = 131071" using mask_rel [of 17 32] by simp
  note demo = mask demo_step_def demo_connector_def demo_pvs_def connector_row_def execute_and_increment_pc_def DEFAULT_PC_STEP_def
  note evals = connector_eval_def connector_interactions_def Let_def case_prod_unfold bridge_eval_def execution_bus_execute_def
    lookup_instruction_def air_defs timestamp_limb_bits_def TERMINATE_OPCODE_def
  have r: "var_range_table 17 [1, 17 :: bb]" "var_range_table 17 [4, 17 :: bb]" "var_range_table 17 [0, 12 :: bb]"
    using demo_range [of 1 17] demo_range [of 4 17] demo_range [of 0 12] by simp_all
  have conn: "connector_accepted ?air demo_pvs demo_connector"
    by (simp add: connector_accepted_def trace_satisfied_def demo evals less_Suc_eq)
  have lk: "lookups_ok ?T (connector_interactions ?air demo_pvs demo_connector)"
    by (simp add: demo evals upt_rec r demo_cached_trace operands_padded)
  have st: "\<forall>(x, e)\<in>set [(demo_step, 1 :: bb)]. e \<in> {0, 1} \<and> lookups_ok ?T (bridge_eval ?xb x e)"
    by (simp add: demo evals demo_cached_trace operands_padded)
  have time: "\<forall>x\<in>set (executed [(demo_step, 1 :: bb)]). xs_timestamp (bi_to x) = xs_timestamp (bi_from x) + of_nat ((\<lambda>_. 3) x) \<and> 0 < (\<lambda>_. 3 :: nat) x"
    by (simp add: demo)
  have bal: "bus_balanced 0 (concat (map (\<lambda>(x, e). bridge_eval ?xb x e) [(demo_step, 1)]) @ connector_interactions ?air demo_pvs demo_connector)"
    unfolding bus_balanced_def using of_nat_eq_iff_char [of 1 4, where 'f = bb] by (simp add: demo evals upt_rec bb_CHAR)
  have len: "length (concat (map (\<lambda>(x, e). bridge_eval ?xb x e) [(demo_step, 1)]) @ connector_interactions ?air demo_pvs demo_connector) < CHAR(bb)"
    by (simp add: demo evals upt_rec bb_CHAR)
  have sm: "1 + sum_list (map (\<lambda>_. 3) (executed [(demo_step, 1 :: bb)])) < CHAR(bb)" by (simp add: bb_CHAR)
  obtain es t where es: "mset es = mset (executed [(demo_step, 1 :: bb)])" "trail x_src x_dst [pv_initial_pc demo_pvs, 1] es [pv_final_pc demo_pvs, of_nat t]"
    "t = 1 + sum_list (map (\<lambda>_. 3) es)"
    "pv_is_terminate demo_pvs = 0 \<or> pv_is_terminate demo_pvs = 1 \<and>
      committed demo_program [pv_final_pc demo_pvs, of_nat TERMINATE_OPCODE, 0, 0, pv_exit_code demo_pvs, 0, 0, 0, 0]"
    using segment_execution [OF new refl _ _ _ _ _ _ _ conn lk st time sm _ bal len] by (auto simp: bb_CHAR)
  then show ?thesis by (intro exI [of _ es]) (auto simp: demo_pvs_def sum_list_triv dest: arg_cong [of _ _ size])
qed

text \<open>
  The padding of the committed program counts the instructions without the gaps between them. In a
  program with a gap its addresses can be those of instructions: here the address 12 has two rows.
\<close>

lemma padding_collides:
  fixes i :: "bb instr"
  assumes p: "p = \<lparr>p_instructions = [Some i, None, Some i, Some i], p_pc_base = 0\<rparr>"
  shows "instruction_at p 12 i" "instruction_row (12, padding_instruction) \<in> set (generate_cached_trace p)"
proof -
  show "instruction_at p 12 i" unfolding instruction_at_def p by (intro exI [of _ 3]) (simp add: DEFAULT_PC_STEP_def)
  have e: "enumerate_by_pc p = [(0, i), (8, i), (12, i)]"
    by (simp add: p enumerate_by_pc_def List.map_filter_def DEFAULT_PC_STEP_def)
  have "\<not> is_power_of_two 3" using ilog2_eq [of 1 3] by (simp add: is_power_of_two_def)
  then have "(12, padding_instruction) \<in> set (pad_instructions (p_pc_base p) (enumerate_by_pc p))"
    using pad_instructions_append [of "p_pc_base p" "enumerate_by_pc p @ [(12, padding_instruction)]"]
    unfolding e by (subst pad_instructions.simps) (auto simp: p DEFAULT_PC_STEP_def numeral_3_eq_3)
  then show "instruction_row (12, padding_instruction) \<in> set (generate_cached_trace p)"
    by (simp add: generate_cached_trace_def)
qed

end
