(* ===== verification/Vm_State.thy ===== *)
theory Vm_State
  imports Guest_Memory Transpiler "HOL-Library.Monad_Syntax"
begin

text \<open>
  The state of the interpreter: \<open>crates/vm/src/arch/state.rs\<close>, \<open>Streams\<close> of \<open>arch/vm.rs\<close>, the
  error enums of \<open>arch/execution.rs\<close>, the execution contexts of \<open>arch/execution_mode\<close> and the
  handlers that \<open>#[create_handler]\<close> generates (\<open>crates/vm/derive/src/nontco.rs\<close>).

  A handler maps the execution state to the new one; \<open>None\<close> is a panic. Arithmetic wraps and
  debug assertions are off, as in a release build. An \<open>eyre\<close> report is its message. The state of
  the random generator (\<open>StdRng\<close>) and of the deferrals are type parameters.
\<close>

section \<open>Errors\<close>

datatype static_program_error =
    InvalidInstruction u32
  | TooManyExecutors
  | StaticDisabledOperation u32 nat
  | ExecutorNotFound nat

datatype vm_execution_error =
    Fail u32 string
  | PcOutOfBounds u32
  | Unreachable u32
  | DisabledOperation u32 nat
  | HintOutOfBounds u32
  | HintBufferZeroWords u32
  | HintBufferTooLarge u32 u32 u32
  | PhantomNotFound u32 nat
  | PhantomError u32 nat string
  | DidNotTerminate
  | FailedWithExitCode u32
  | StaticError static_program_error

section \<open>The state\<close>

record ('f, 'd) streams =
  input_stream :: "'f list list"
  hint_stream :: "'f list"
  deferrals :: "'d list"

definition streams_new :: "'f list list \<Rightarrow> ('f, 'd) streams" where
  "streams_new inputs = \<lparr>input_stream = inputs, hint_stream = [], deferrals = []\<rparr>"

record ('f, 'd, 'r) vm_state =
  vs_pc :: u32
  vs_memory :: address_map
  vs_streams :: "('f, 'd) streams"
  vs_rng :: 'r

record ('f, 'd, 'r, 'c) vm_exec_state =
  es_vm_state :: "('f, 'd, 'r) vm_state"
  es_ctx :: 'c
  es_exit_code :: "vm_execution_error + u32 option"

definition vm_exec_state_new :: "('f, 'd, 'r) vm_state \<Rightarrow> 'c \<Rightarrow> ('f, 'd, 'r, 'c) vm_exec_state" where
  "vm_exec_state_new vm ctx = \<lparr>es_vm_state = vm, es_ctx = ctx, es_exit_code = Inr None\<rparr>"

text \<open>\<open>VmState::initial\<close>; \<open>rng\<close> is \<open>StdRng::seed_from_u64(DEFAULT_RNG_SEED)\<close>.\<close>

definition vm_state_initial ::
  "'r \<Rightarrow> addr_space_config list \<Rightarrow> sparse_memory_image \<Rightarrow> u32 \<Rightarrow> 'f list list
    \<Rightarrow> ('f, 'd, 'r) vm_state option" where
  "vm_state_initial rng config init_memory pc_start inputs =
     (case create_memory_image config init_memory of
        None \<Rightarrow> None
      | Some memory \<Rightarrow>
          Some \<lparr>vs_pc = pc_start, vs_memory = memory, vs_streams = streams_new inputs, vs_rng = rng\<rparr>)"

definition vm_state_reset ::
  "'r \<Rightarrow> sparse_memory_image \<Rightarrow> u32 \<Rightarrow> 'f list list \<Rightarrow> ('f, 'd, 'r) vm_state
    \<Rightarrow> ('f, 'd, 'r) vm_state option" where
  "vm_state_reset rng init_memory pc_start inputs vm =
     (case set_from_sparse init_memory (am_fill_zero (vs_memory vm)) of
        None \<Rightarrow> None
      | Some memory \<Rightarrow>
          Some \<lparr>vs_pc = pc_start, vs_memory = memory, vs_streams = streams_new inputs, vs_rng = rng\<rparr>)"

definition get_pc :: "('f, 'd, 'r, 'c) vm_exec_state \<Rightarrow> u32" where
  "get_pc s = vs_pc (es_vm_state s)"

definition set_pc :: "u32 \<Rightarrow> ('f, 'd, 'r, 'c) vm_exec_state \<Rightarrow> ('f, 'd, 'r, 'c) vm_exec_state" where
  "set_pc pc s = s\<lparr>es_vm_state := es_vm_state s\<lparr>vs_pc := pc\<rparr>\<rparr>"

section \<open>Execution contexts\<close>

text \<open>
  The traits \<open>ExecutionCtxTrait\<close> and \<open>MeteredExecutionCtxTrait\<close>. The implementations of
  \<open>should_suspend\<close> and \<open>on_terminate\<close> use no other part of the execution state than the context.
\<close>

record 'c ctx_ops =
  on_memory_operation :: "nat \<Rightarrow> u32 \<Rightarrow> nat \<Rightarrow> 'c \<Rightarrow> 'c option"
  ctx_should_suspend :: "'c \<Rightarrow> (bool \<times> 'c) option"
  ctx_on_terminate :: "'c \<Rightarrow> 'c option"
  on_height_change :: "nat \<Rightarrow> nat \<Rightarrow> 'c \<Rightarrow> 'c option"

text \<open>\<open>ExecutionCtx\<close>, the context of pure execution: the number of instructions left.\<close>

type_synonym execution_ctx = "64 word"

definition execution_ctx_new :: "64 word option \<Rightarrow> execution_ctx" where
  "execution_ctx_new instret_left = (case instret_left of Some end' \<Rightarrow> end' | None \<Rightarrow> - 1)"

text \<open>\<open>ExecutionCtx\<close> is not metered: no code changes a height under it.\<close>

definition execution_ctx_ops :: "execution_ctx ctx_ops" where
  "execution_ctx_ops =
     \<lparr>on_memory_operation = (\<lambda>_ _ _ c. Some c),
      ctx_should_suspend = (\<lambda>c. Some (if c = 0 then (True, c) else (False, c - 1))),
      ctx_on_terminate = Some,
      on_height_change = (\<lambda>_ _ c. Some c)\<rparr>"

text \<open>\<open>MeteredCostCtx\<close>: the trace cells used, bounded by \<open>max_execution_cost\<close>.\<close>

record metered_cost_ctx =
  mc_widths :: "64 word list"
  mc_max_execution_cost :: "64 word"
  mc_cost :: "64 word"
  mc_instret :: "64 word"

definition DEFAULT_MAX_SEGMENTS :: "64 word" where "DEFAULT_MAX_SEGMENTS = 100"
definition DEFAULT_SEGMENT_MAX_MEMORY :: "64 word" where "DEFAULT_SEGMENT_MAX_MEMORY = 15 * 2 ^ 30"
definition DEFAULT_MAX_COST :: "64 word" where
  "DEFAULT_MAX_COST = DEFAULT_MAX_SEGMENTS * DEFAULT_SEGMENT_MAX_MEMORY"

definition metered_cost_new :: "64 word list \<Rightarrow> metered_cost_ctx" where
  "metered_cost_new widths =
     \<lparr>mc_widths = widths, mc_max_execution_cost = DEFAULT_MAX_COST, mc_cost = 0, mc_instret = 0\<rparr>"

definition mc_on_memory_operation :: "metered_cost_ctx \<Rightarrow> metered_cost_ctx option" where
  "mc_on_memory_operation c =
     (if mc_cost c > 2 * max (mc_max_execution_cost c) DEFAULT_MAX_COST then None else Some c)"

definition mc_should_suspend :: "metered_cost_ctx \<Rightarrow> bool \<times> metered_cost_ctx" where
  "mc_should_suspend c =
     (if mc_cost c > mc_max_execution_cost c then (True, c)
      else (False, c\<lparr>mc_instret := mc_instret c + 1\<rparr>))"

text \<open>An index that is not a chip is undefined in the code (\<open>get_unchecked\<close>), \<open>None\<close> here.\<close>

definition mc_on_height_change :: "nat \<Rightarrow> nat \<Rightarrow> metered_cost_ctx \<Rightarrow> metered_cost_ctx option" where
  "mc_on_height_change chip_idx height_delta c =
     (if chip_idx < length (mc_widths c)
      then Some (c\<lparr>mc_cost := mc_cost c + word_of_nat height_delta * mc_widths c ! chip_idx\<rparr>)
      else None)"

definition metered_cost_ops :: "metered_cost_ctx ctx_ops" where
  "metered_cost_ops =
     \<lparr>on_memory_operation = (\<lambda>_ _ _. mc_on_memory_operation),
      ctx_should_suspend = (\<lambda>c. Some (mc_should_suspend c)),
      ctx_on_terminate = Some,
      on_height_change = mc_on_height_change\<rparr>"

section \<open>Memory operations\<close>

text \<open>\<open>vm_read\<close> and \<open>vm_write\<close> tell the context; \<open>host_read\<close> and \<open>host_write\<close> do not. Cells are bytes.\<close>

definition host_read :: "nat \<Rightarrow> nat \<Rightarrow> u32 \<Rightarrow> ('f, 'd, 'r, 'c) vm_exec_state \<Rightarrow> u8 list option" where
  "host_read block_size addr_space ptr s =
     gm_read 1 block_size (vs_memory (es_vm_state s)) addr_space ptr"

definition host_write ::
  "nat \<Rightarrow> u32 \<Rightarrow> u8 list \<Rightarrow> ('f, 'd, 'r, 'c) vm_exec_state \<Rightarrow> ('f, 'd, 'r, 'c) vm_exec_state option" where
  "host_write addr_space ptr data s =
     map_option (\<lambda>m. s\<lparr>es_vm_state := es_vm_state s\<lparr>vs_memory := m\<rparr>\<rparr>)
       (gm_write 1 (vs_memory (es_vm_state s)) addr_space ptr data)"

definition vm_read ::
  "'c ctx_ops \<Rightarrow> nat \<Rightarrow> nat \<Rightarrow> u32 \<Rightarrow> ('f, 'd, 'r, 'c) vm_exec_state
    \<Rightarrow> (u8 list \<times> ('f, 'd, 'r, 'c) vm_exec_state) option" where
  "vm_read ops block_size addr_space ptr s = do {
     ctx \<leftarrow> on_memory_operation ops addr_space ptr block_size (es_ctx s);
     let s = s\<lparr>es_ctx := ctx\<rparr>;
     data \<leftarrow> host_read block_size addr_space ptr s;
     Some (data, s)
   }"

definition vm_write ::
  "'c ctx_ops \<Rightarrow> nat \<Rightarrow> u32 \<Rightarrow> u8 list \<Rightarrow> ('f, 'd, 'r, 'c) vm_exec_state
    \<Rightarrow> ('f, 'd, 'r, 'c) vm_exec_state option" where
  "vm_write ops addr_space ptr data s = do {
     ctx \<leftarrow> on_memory_operation ops addr_space ptr (length data) (es_ctx s);
     host_write addr_space ptr data (s\<lparr>es_ctx := ctx\<rparr>)
   }"

section \<open>Handlers\<close>

type_synonym ('f, 'd, 'r, 'c) handler =
  "('f, 'd, 'r, 'c) vm_exec_state \<Rightarrow> ('f, 'd, 'r, 'c) vm_exec_state option"

text \<open>
  An implementation that returns a \<open>Result\<close> has changed the state even when it returns an error;
  the generated handler stores the error in \<open>exit_code\<close>.
\<close>

type_synonym ('f, 'd, 'r, 'c, 'a) fallible_impl =
  "('f, 'd, 'r, 'c) vm_exec_state \<Rightarrow> ((vm_execution_error + 'a) \<times> ('f, 'd, 'r, 'c) vm_exec_state) option"

definition create_handler :: "('f, 'd, 'r, 'c, unit) fallible_impl \<Rightarrow> ('f, 'd, 'r, 'c) handler" where
  "create_handler impl s = do {
     (ret, s) \<leftarrow> impl s;
     Some (case ret of Inl e \<Rightarrow> s\<lparr>es_exit_code := Inl e\<rparr> | Inr _ \<Rightarrow> s)
   }"

text \<open>The metered handlers of most instructions first add one row to the chip.\<close>

definition add_row :: "'c ctx_ops \<Rightarrow> nat \<Rightarrow> nat \<Rightarrow> ('f, 'd, 'r, 'c) handler" where
  "add_row ops chip_idx height_delta s =
     map_option (\<lambda>ctx. s\<lparr>es_ctx := ctx\<rparr>) (on_height_change ops chip_idx height_delta (es_ctx s))"

text \<open>What a \<open>pre_compute\<close> returns: \<open>None\<close> is a panic.\<close>

type_synonym 'a pre_compute_result = "(static_program_error + 'a) option"

definition map_pre :: "('a \<Rightarrow> 'b) \<Rightarrow> 'a pre_compute_result \<Rightarrow> 'b pre_compute_result" where
  "map_pre f = map_option (map_sum id f)"

text \<open>
  \<open>E2PreCompute.chip_idx\<close> is a \<open>u32\<close>; the precomputed data and the chip index determine the
  handler.
\<close>

definition as_chip_idx :: "nat \<Rightarrow> nat" where "as_chip_idx chip_idx = wrap 32 chip_idx"

end
