(* ===== verification/Rv32_Exec.thy ===== *)
theory Rv32_Exec
  imports Vm_State "HOL-Library.Signed_Division"
begin

text \<open>
  The executors of RV32IM in pure and metered execution:
  \<open>extensions/rv32im/circuit/src/*/execution.rs\<close>. Each has a \<open>pre_compute_impl\<close> that decodes the
  operands of an instruction once, an \<open>execute_e12_impl\<close> that runs it, and the handlers
  \<open>execute_e1_impl\<close> (pure) and \<open>execute_e2_impl\<close> (metered) around it. The generic constants that
  \<open>dispatch!\<close> selects are arguments. \<open>canon\<close> is \<open>as_canonical_u32\<close>.

  An \<open>i32\<close> is kept as its 32 bits and read with \<open>sint\<close> where the code compares or divides.
\<close>

unbundle bit_operations_syntax

section \<open>Operands\<close>

definition cu32 :: "('f \<Rightarrow> nat) \<Rightarrow> 'f \<Rightarrow> u32" where "cu32 canon x = word_of_nat (canon x)"

definition cu8 :: "('f \<Rightarrow> nat) \<Rightarrow> 'f \<Rightarrow> u8" where "cu8 canon x = ucast (cu32 canon x)"

definition REG_AS :: u32 where "REG_AS = 1"
definition IMM_AS :: u32 where "IMM_AS = 0"
definition MEM_AS :: u32 where "MEM_AS = 2"
definition DEFERRAL_AS :: u32 where "DEFERRAL_AS = 4"

lemmas as_consts = REG_AS_def IMM_AS_def MEM_AS_def DEFERRAL_AS_def

definition pc_step :: u32 where "pc_step = 4"

definition imm_to_bytes :: "u32 \<Rightarrow> u8 list" where
  "imm_to_bytes imm = (let imm_le = to_le_bytes imm in imm_le[3 := imm_le ! 2])"

text \<open>\<open>LocalOpcode::from_usize\<close> panics when the index is not a variant.\<close>

definition opcode_from_usize :: "'o list \<Rightarrow> nat \<Rightarrow> 'f instr \<Rightarrow> 'o option" where
  "opcode_from_usize variants offset inst = from_repr variants (local_opcode_idx (i_opcode inst) offset)"

definition read_reg ::
  "'c ctx_ops \<Rightarrow> u32 \<Rightarrow> ('f, 'd, 'r, 'c) vm_exec_state \<Rightarrow> (u8 list \<times> ('f, 'd, 'r, 'c) vm_exec_state) option" where
  "read_reg ops = vm_read ops RV32_REGISTER_NUM_LIMBS RV32_REGISTER_AS"

definition write_reg ::
  "'c ctx_ops \<Rightarrow> u32 \<Rightarrow> u8 list \<Rightarrow> ('f, 'd, 'r, 'c) handler" where
  "write_reg ops = vm_write ops RV32_REGISTER_AS"

definition step_pc :: "('f, 'd, 'r, 'c) vm_exec_state \<Rightarrow> ('f, 'd, 'r, 'c) vm_exec_state" where
  "step_pc s = set_pc (get_pc s + pc_step) s"

text \<open>
  \<open>execute_e2_impl\<close> of the executors with one row per instruction: the row is counted, then
  \<open>execute_e12_impl\<close> runs.
\<close>

definition execute_e2 :: "'c ctx_ops \<Rightarrow> nat \<Rightarrow> ('f, 'd, 'r, 'c) handler \<Rightarrow> ('f, 'd, 'r, 'c) handler" where
  "execute_e2 ops chip_idx e12 s = do {
     s \<leftarrow> add_row ops (as_chip_idx chip_idx) 1 s;
     e12 s
   }"

section \<open>Base ALU, shifts and comparisons\<close>

record alu_data =
  alu_c :: u32
  alu_a :: u8
  alu_b :: u8

definition alu_operands :: "('f \<Rightarrow> nat) \<Rightarrow> 'f instr \<Rightarrow> bool \<Rightarrow> alu_data" where
  "alu_operands canon inst is_imm =
     \<lparr>alu_c = (if is_imm then from_le_bytes (imm_to_bytes (cu32 canon (i_c inst))) else cu32 canon (i_c inst)),
      alu_a = cu8 canon (i_a inst), alu_b = cu8 canon (i_b inst)\<rparr>"

definition alu_valid :: "('f \<Rightarrow> nat) \<Rightarrow> 'f instr \<Rightarrow> bool" where
  "alu_valid canon inst \<longleftrightarrow> cu32 canon (i_d inst) = REG_AS \<and>
     (cu32 canon (i_e inst) = IMM_AS \<or> cu32 canon (i_e inst) = REG_AS)"

definition base_alu_pre_compute_impl ::
  "('f \<Rightarrow> nat) \<Rightarrow> u32 \<Rightarrow> 'f instr \<Rightarrow> (bool \<times> alu_data) pre_compute_result" where
  "base_alu_pre_compute_impl canon pc inst =
     (if \<not> alu_valid canon inst then Some (Inl (InvalidInstruction pc))
      else let is_imm = (cu32 canon (i_e inst) = IMM_AS) in
        Some (Inr (is_imm, alu_operands canon inst is_imm)))"

fun alu_compute :: "BaseAluOpcode \<Rightarrow> u32 \<Rightarrow> u32 \<Rightarrow> u32" where
  "alu_compute Alu_ADD rs1 rs2 = rs1 + rs2"
| "alu_compute Alu_SUB rs1 rs2 = rs1 - rs2"
| "alu_compute Alu_XOR rs1 rs2 = rs1 XOR rs2"
| "alu_compute Alu_OR rs1 rs2 = rs1 OR rs2"
| "alu_compute Alu_AND rs1 rs2 = rs1 AND rs2"

definition base_alu_execute_e12 ::
  "'c ctx_ops \<Rightarrow> bool \<Rightarrow> BaseAluOpcode \<Rightarrow> alu_data \<Rightarrow> ('f, 'd, 'r, 'c) handler" where
  "base_alu_execute_e12 ops is_imm op p s = do {
     (rs1, s) \<leftarrow> read_reg ops (ucast (alu_b p)) s;
     (rs2, s) \<leftarrow> (if is_imm then Some (to_le_bytes (alu_c p), s) else read_reg ops (alu_c p) s);
     let rd = alu_compute op (from_le_bytes rs1) (from_le_bytes rs2);
     s \<leftarrow> write_reg ops (ucast (alu_a p)) (to_le_bytes rd) s;
     Some (step_pc s)
   }"

definition base_alu_dispatch ::
  "'c ctx_ops \<Rightarrow> 'f instr \<Rightarrow> (bool \<times> alu_data) pre_compute_result
    \<Rightarrow> ('f, 'd, 'r, 'c) handler pre_compute_result" where
  "base_alu_dispatch ops inst r =
     (case r of
        None \<Rightarrow> None
      | Some (Inl err) \<Rightarrow> Some (Inl err)
      | Some (Inr (is_imm, p)) \<Rightarrow>
          (case opcode_from_usize alu_opcodes alu_offset inst of
             None \<Rightarrow> None
           | Some op \<Rightarrow> Some (Inr (base_alu_execute_e12 ops is_imm op p))))"

definition base_alu_pre_compute ::
  "('f \<Rightarrow> nat) \<Rightarrow> 'c ctx_ops \<Rightarrow> u32 \<Rightarrow> 'f instr \<Rightarrow> ('f, 'd, 'r, 'c) handler pre_compute_result" where
  "base_alu_pre_compute canon ops pc inst =
     base_alu_dispatch ops inst (base_alu_pre_compute_impl canon pc inst)"

definition shift_pre_compute_impl ::
  "('f \<Rightarrow> nat) \<Rightarrow> u32 \<Rightarrow> 'f instr \<Rightarrow> (bool \<times> ShiftOpcode \<times> alu_data) pre_compute_result" where
  "shift_pre_compute_impl canon pc inst = do {
     shift_opcode \<leftarrow> opcode_from_usize shift_opcodes shift_offset inst;
     if \<not> alu_valid canon inst then Some (Inl (InvalidInstruction pc))
     else let is_imm = (cu32 canon (i_e inst) = IMM_AS) in
       Some (Inr (is_imm, shift_opcode, alu_operands canon inst is_imm))
   }"

fun shift_compute :: "ShiftOpcode \<Rightarrow> u8 list \<Rightarrow> u32 \<Rightarrow> u8 list" where
  "shift_compute SLL rs1 rs2 = to_le_bytes (push_bit (unat (rs2 AND 0x1F)) (from_le_bytes rs1 :: u32))"
| "shift_compute SRL rs1 rs2 = to_le_bytes (drop_bit (unat (rs2 AND 0x1F)) (from_le_bytes rs1 :: u32))"
| "shift_compute SRA rs1 rs2 = to_le_bytes (signed_drop_bit (unat (rs2 AND 0x1F)) (from_le_bytes rs1 :: u32))"

definition shift_execute_e12 ::
  "'c ctx_ops \<Rightarrow> bool \<times> ShiftOpcode \<times> alu_data \<Rightarrow> ('f, 'd, 'r, 'c) handler" where
  "shift_execute_e12 ops x s = (case x of (is_imm, op, p) \<Rightarrow> do {
     (rs1, s) \<leftarrow> read_reg ops (ucast (alu_b p)) s;
     (rs2, s) \<leftarrow> (if is_imm then Some (to_le_bytes (alu_c p), s) else read_reg ops (alu_c p) s);
     let rd = shift_compute op rs1 (from_le_bytes rs2);
     s \<leftarrow> write_reg ops (ucast (alu_a p)) rd s;
     Some (step_pc s)
   })"

definition shift_pre_compute ::
  "('f \<Rightarrow> nat) \<Rightarrow> 'c ctx_ops \<Rightarrow> u32 \<Rightarrow> 'f instr \<Rightarrow> ('f, 'd, 'r, 'c) handler pre_compute_result" where
  "shift_pre_compute canon ops pc inst = map_pre (shift_execute_e12 ops) (shift_pre_compute_impl canon pc inst)"

definition less_than_pre_compute_impl ::
  "('f \<Rightarrow> nat) \<Rightarrow> u32 \<Rightarrow> 'f instr \<Rightarrow> (bool \<times> bool \<times> alu_data) pre_compute_result" where
  "less_than_pre_compute_impl canon pc inst =
     (if \<not> alu_valid canon inst then Some (Inl (InvalidInstruction pc))
      else do {
        local_opcode \<leftarrow> opcode_from_usize less_than_opcodes less_than_offset inst;
        let is_imm = (cu32 canon (i_e inst) = IMM_AS);
        Some (Inr (is_imm, local_opcode = SLTU, alu_operands canon inst is_imm))
      })"

definition less_than_execute_e12 ::
  "'c ctx_ops \<Rightarrow> bool \<times> bool \<times> alu_data \<Rightarrow> ('f, 'd, 'r, 'c) handler" where
  "less_than_execute_e12 ops x s = (case x of (e_is_imm, is_u32, p) \<Rightarrow> do {
     (rs1, s) \<leftarrow> read_reg ops (ucast (alu_b p)) s;
     (rs2, s) \<leftarrow> (if e_is_imm then Some (to_le_bytes (alu_c p), s) else read_reg ops (alu_c p) s);
     let cmp_result =
       (if is_u32 then (from_le_bytes rs1 :: u32) < from_le_bytes rs2
        else sint (from_le_bytes rs1 :: u32) < sint (from_le_bytes rs2 :: u32));
     let rd = (replicate RV32_REGISTER_NUM_LIMBS 0)[0 := of_bool cmp_result];
     s \<leftarrow> write_reg ops (ucast (alu_a p)) rd s;
     Some (step_pc s)
   })"

definition less_than_pre_compute ::
  "('f \<Rightarrow> nat) \<Rightarrow> 'c ctx_ops \<Rightarrow> u32 \<Rightarrow> 'f instr \<Rightarrow> ('f, 'd, 'r, 'c) handler pre_compute_result" where
  "less_than_pre_compute canon ops pc inst =
     map_pre (less_than_execute_e12 ops) (less_than_pre_compute_impl canon pc inst)"

section \<open>Branches\<close>

record branch_data =
  br_imm :: int
  br_a :: u8
  br_b :: u8

text \<open>The immediate as an \<open>isize\<close>: the field element of smaller absolute value.\<close>

definition branch_imm :: "('f::field \<Rightarrow> nat) \<Rightarrow> 'f \<Rightarrow> int" where
  "branch_imm canon c =
     (let c = canon c in if CHAR('f) - c < c then - int (CHAR('f) - c) else int c)"

definition branch_eq_pre_compute_impl ::
  "('f::field \<Rightarrow> nat) \<Rightarrow> u32 \<Rightarrow> 'f instr \<Rightarrow> (bool \<times> branch_data) pre_compute_result" where
  "branch_eq_pre_compute_impl canon pc inst = do {
     local_opcode \<leftarrow> opcode_from_usize branch_equal_opcodes branch_equal_offset inst;
     if cu32 canon (i_d inst) \<noteq> REG_AS then Some (Inl (InvalidInstruction pc))
     else Some (Inr (local_opcode = BNE,
       \<lparr>br_imm = branch_imm canon (i_c inst), br_a = cu8 canon (i_a inst), br_b = cu8 canon (i_b inst)\<rparr>))
   }"

definition branch_eq_execute_e12 ::
  "'c ctx_ops \<Rightarrow> bool \<times> branch_data \<Rightarrow> ('f, 'd, 'r, 'c) handler" where
  "branch_eq_execute_e12 ops x s = (case x of (is_ne, p) \<Rightarrow> do {
     let pc = get_pc s;
     (rs1, s) \<leftarrow> read_reg ops (ucast (br_a p)) s;
     (rs2, s) \<leftarrow> read_reg ops (ucast (br_b p)) s;
     Some (set_pc (if (rs1 = rs2) \<noteq> is_ne then word_of_int (uint pc + br_imm p) else pc + pc_step) s)
   })"

definition branch_eq_pre_compute ::
  "('f::field \<Rightarrow> nat) \<Rightarrow> 'c ctx_ops \<Rightarrow> u32 \<Rightarrow> 'f instr \<Rightarrow> ('f, 'd, 'r, 'c) handler pre_compute_result" where
  "branch_eq_pre_compute canon ops pc inst =
     map_pre (branch_eq_execute_e12 ops) (branch_eq_pre_compute_impl canon pc inst)"

definition branch_lt_pre_compute_impl ::
  "('f::field \<Rightarrow> nat) \<Rightarrow> u32 \<Rightarrow> 'f instr \<Rightarrow> (BranchLessThanOpcode \<times> branch_data) pre_compute_result" where
  "branch_lt_pre_compute_impl canon pc inst = do {
     local_opcode \<leftarrow> opcode_from_usize branch_less_than_opcodes branch_less_than_offset inst;
     if cu32 canon (i_d inst) \<noteq> REG_AS then Some (Inl (InvalidInstruction pc))
     else Some (Inr (local_opcode,
       \<lparr>br_imm = branch_imm canon (i_c inst), br_a = cu8 canon (i_a inst), br_b = cu8 canon (i_b inst)\<rparr>))
   }"

fun branch_lt_compute :: "BranchLessThanOpcode \<Rightarrow> u8 list \<Rightarrow> u8 list \<Rightarrow> bool" where
  "branch_lt_compute BLT rs1 rs2 \<longleftrightarrow> sint (from_le_bytes rs1 :: u32) < sint (from_le_bytes rs2 :: u32)"
| "branch_lt_compute BLTU rs1 rs2 \<longleftrightarrow> (from_le_bytes rs1 :: u32) < from_le_bytes rs2"
| "branch_lt_compute BGE rs1 rs2 \<longleftrightarrow> sint (from_le_bytes rs1 :: u32) \<ge> sint (from_le_bytes rs2 :: u32)"
| "branch_lt_compute BGEU rs1 rs2 \<longleftrightarrow> (from_le_bytes rs1 :: u32) \<ge> from_le_bytes rs2"

definition branch_lt_execute_e12 ::
  "'c ctx_ops \<Rightarrow> BranchLessThanOpcode \<times> branch_data \<Rightarrow> ('f, 'd, 'r, 'c) handler" where
  "branch_lt_execute_e12 ops x s = (case x of (op, p) \<Rightarrow> do {
     let pc = get_pc s;
     (rs1, s) \<leftarrow> read_reg ops (ucast (br_a p)) s;
     (rs2, s) \<leftarrow> read_reg ops (ucast (br_b p)) s;
     Some (set_pc (if branch_lt_compute op rs1 rs2 then word_of_int (uint pc + br_imm p) else pc + pc_step) s)
   })"

definition branch_lt_pre_compute ::
  "('f::field \<Rightarrow> nat) \<Rightarrow> 'c ctx_ops \<Rightarrow> u32 \<Rightarrow> 'f instr \<Rightarrow> ('f, 'd, 'r, 'c) handler pre_compute_result" where
  "branch_lt_pre_compute canon ops pc inst =
     map_pre (branch_lt_execute_e12 ops) (branch_lt_pre_compute_impl canon pc inst)"

section \<open>Jumps and upper immediates\<close>

record jal_lui_data =
  jl_signed_imm :: u32
  jl_a :: u8

definition get_signed_imm :: "('f::field \<Rightarrow> nat) \<Rightarrow> bool \<Rightarrow> 'f \<Rightarrow> u32" where
  "get_signed_imm canon is_jal imm =
     (let imm_f = cu32 canon imm in
      if is_jal then
        if imm_f < push_bit 20 1 then imm_f else - (word_of_nat CHAR('f) - imm_f)
      else imm_f)"

definition jal_lui_pre_compute_impl ::
  "('f::field \<Rightarrow> nat) \<Rightarrow> 'f instr \<Rightarrow> (bool \<times> bool \<times> jal_lui_data) pre_compute_result" where
  "jal_lui_pre_compute_impl canon inst = do {
     local_opcode \<leftarrow> opcode_from_usize jal_lui_opcodes jal_lui_offset inst;
     let is_jal = (local_opcode = JAL);
     Some (Inr (is_jal, i_f inst \<noteq> 0,
       \<lparr>jl_signed_imm = get_signed_imm canon is_jal (i_c inst), jl_a = cu8 canon (i_a inst)\<rparr>))
   }"

definition jal_lui_execute_e12 ::
  "'c ctx_ops \<Rightarrow> bool \<times> bool \<times> jal_lui_data \<Rightarrow> ('f, 'd, 'r, 'c) handler" where
  "jal_lui_execute_e12 ops x s = (case x of (is_jal, enabled, p) \<Rightarrow> do {
     let pc = get_pc s;
     let (rd, pc) =
       (if is_jal then (to_le_bytes (pc + pc_step), pc + jl_signed_imm p)
        else (to_le_bytes (push_bit 12 (jl_signed_imm p)), pc + pc_step));
     s \<leftarrow> (if enabled then write_reg ops (ucast (jl_a p)) rd s else Some s);
     Some (set_pc pc s)
   })"

definition jal_lui_pre_compute ::
  "('f::field \<Rightarrow> nat) \<Rightarrow> 'c ctx_ops \<Rightarrow> u32 \<Rightarrow> 'f instr \<Rightarrow> ('f, 'd, 'r, 'c) handler pre_compute_result" where
  "jal_lui_pre_compute canon ops pc inst =
     map_pre (jal_lui_execute_e12 ops) (jal_lui_pre_compute_impl canon inst)"

record jalr_data =
  jr_imm_extended :: u32
  jr_a :: u8
  jr_b :: u8

definition imm_extended :: "('f \<Rightarrow> nat) \<Rightarrow> 'f instr \<Rightarrow> u32" where
  "imm_extended canon inst = cu32 canon (i_c inst) + cu32 canon (i_g inst) * 0xffff0000"

definition jalr_pre_compute_impl ::
  "('f::zero \<Rightarrow> nat) \<Rightarrow> u32 \<Rightarrow> 'f instr \<Rightarrow> (bool \<times> jalr_data) pre_compute_result" where
  "jalr_pre_compute_impl canon pc inst =
     (if cu32 canon (i_d inst) \<noteq> REG_AS then Some (Inl (InvalidInstruction pc))
      else Some (Inr (i_f inst \<noteq> 0,
        \<lparr>jr_imm_extended = imm_extended canon inst, jr_a = cu8 canon (i_a inst), jr_b = cu8 canon (i_b inst)\<rparr>)))"

definition jalr_execute_e12 :: "'c ctx_ops \<Rightarrow> bool \<times> jalr_data \<Rightarrow> ('f, 'd, 'r, 'c) handler" where
  "jalr_execute_e12 ops x s = (case x of (enabled, p) \<Rightarrow> do {
     let pc = get_pc s;
     (rs1, s) \<leftarrow> read_reg ops (ucast (jr_b p)) s;
     let to_pc = from_le_bytes rs1 + jr_imm_extended p;
     let to_pc = to_pc - (to_pc AND 1);
     let rd = to_le_bytes (pc + pc_step);
     s \<leftarrow> (if enabled then write_reg ops (ucast (jr_a p)) rd s else Some s);
     Some (set_pc to_pc s)
   })"

definition jalr_pre_compute ::
  "('f::zero \<Rightarrow> nat) \<Rightarrow> 'c ctx_ops \<Rightarrow> u32 \<Rightarrow> 'f instr \<Rightarrow> ('f, 'd, 'r, 'c) handler pre_compute_result" where
  "jalr_pre_compute canon ops pc inst = map_pre (jalr_execute_e12 ops) (jalr_pre_compute_impl canon pc inst)"

record auipc_data =
  au_imm :: u32
  au_a :: u8

definition auipc_pre_compute_impl ::
  "('f \<Rightarrow> nat) \<Rightarrow> u32 \<Rightarrow> 'f instr \<Rightarrow> auipc_data pre_compute_result" where
  "auipc_pre_compute_impl canon pc inst =
     (if cu32 canon (i_d inst) \<noteq> REG_AS then Some (Inl (InvalidInstruction pc))
      else Some (Inr \<lparr>au_imm = cu32 canon (i_c inst), au_a = cu8 canon (i_a inst)\<rparr>))"

definition run_auipc :: "u32 \<Rightarrow> u32 \<Rightarrow> u8 list" where
  "run_auipc pc imm = to_le_bytes (pc + push_bit RV32_CELL_BITS imm)"

definition auipc_execute_e12 :: "'c ctx_ops \<Rightarrow> auipc_data \<Rightarrow> ('f, 'd, 'r, 'c) handler" where
  "auipc_execute_e12 ops p s = do {
     let pc = get_pc s;
     s \<leftarrow> write_reg ops (ucast (au_a p)) (run_auipc pc (au_imm p)) s;
     Some (set_pc (pc + pc_step) s)
   }"

definition auipc_pre_compute ::
  "('f \<Rightarrow> nat) \<Rightarrow> 'c ctx_ops \<Rightarrow> u32 \<Rightarrow> 'f instr \<Rightarrow> ('f, 'd, 'r, 'c) handler pre_compute_result" where
  "auipc_pre_compute canon ops pc inst = map_pre (auipc_execute_e12 ops) (auipc_pre_compute_impl canon pc inst)"

section \<open>Multiplication and division\<close>

record mul_data =
  mu_a :: u8
  mu_b :: u8
  mu_c :: u8

definition mul_operands :: "('f \<Rightarrow> nat) \<Rightarrow> 'f instr \<Rightarrow> mul_data" where
  "mul_operands canon inst =
     \<lparr>mu_a = cu8 canon (i_a inst), mu_b = cu8 canon (i_b inst), mu_c = cu8 canon (i_c inst)\<rparr>"

definition mul_pre_compute_impl :: "('f \<Rightarrow> nat) \<Rightarrow> u32 \<Rightarrow> 'f instr \<Rightarrow> mul_data pre_compute_result" where
  "mul_pre_compute_impl canon pc inst = do {
     local_opcode \<leftarrow> opcode_from_usize [MUL] mul_offset inst;
     if local_opcode \<noteq> MUL then Some (Inl (InvalidInstruction pc))
     else if cu32 canon (i_d inst) \<noteq> REG_AS then Some (Inl (InvalidInstruction pc))
     else Some (Inr (mul_operands canon inst))
   }"

definition mul_execute_e12 :: "'c ctx_ops \<Rightarrow> mul_data \<Rightarrow> ('f, 'd, 'r, 'c) handler" where
  "mul_execute_e12 ops p s = do {
     (rs1, s) \<leftarrow> read_reg ops (ucast (mu_b p)) s;
     (rs2, s) \<leftarrow> read_reg ops (ucast (mu_c p)) s;
     let rd = (from_le_bytes rs1 :: u32) * from_le_bytes rs2;
     s \<leftarrow> write_reg ops (ucast (mu_a p)) (to_le_bytes rd) s;
     Some (step_pc s)
   }"

definition mul_pre_compute ::
  "('f \<Rightarrow> nat) \<Rightarrow> 'c ctx_ops \<Rightarrow> u32 \<Rightarrow> 'f instr \<Rightarrow> ('f, 'd, 'r, 'c) handler pre_compute_result" where
  "mul_pre_compute canon ops pc inst = map_pre (mul_execute_e12 ops) (mul_pre_compute_impl canon pc inst)"

definition mulh_pre_compute_impl :: "('f \<Rightarrow> nat) \<Rightarrow> 'f instr \<Rightarrow> (MulHOpcode \<times> mul_data) pre_compute_result" where
  "mulh_pre_compute_impl canon inst = do {
     op \<leftarrow> opcode_from_usize mulh_opcodes mulh_offset inst;
     Some (Inr (op, mul_operands canon inst))
   }"

definition i32_as_i64 :: "u8 list \<Rightarrow> 64 word" where "i32_as_i64 rs = scast (from_le_bytes rs :: u32)"
definition u32_as_i64 :: "u8 list \<Rightarrow> 64 word" where "u32_as_i64 rs = ucast (from_le_bytes rs :: u32)"

definition high_u32 :: "64 word \<Rightarrow> u32" where "high_u32 x = ucast (signed_drop_bit 32 x)"

fun mulh_compute :: "MulHOpcode \<Rightarrow> u8 list \<Rightarrow> u8 list \<Rightarrow> u8 list" where
  "mulh_compute MULH rs1 rs2 = to_le_bytes (high_u32 (i32_as_i64 rs1 * i32_as_i64 rs2))"
| "mulh_compute MULHSU rs1 rs2 = to_le_bytes (high_u32 (i32_as_i64 rs1 * u32_as_i64 rs2))"
| "mulh_compute MULHU rs1 rs2 = to_le_bytes (high_u32 (u32_as_i64 rs1 * u32_as_i64 rs2))"

definition mulh_execute_e12 :: "'c ctx_ops \<Rightarrow> MulHOpcode \<times> mul_data \<Rightarrow> ('f, 'd, 'r, 'c) handler" where
  "mulh_execute_e12 ops x s = (case x of (op, p) \<Rightarrow> do {
     (rs1, s) \<leftarrow> read_reg ops (ucast (mu_b p)) s;
     (rs2, s) \<leftarrow> read_reg ops (ucast (mu_c p)) s;
     s \<leftarrow> write_reg ops (ucast (mu_a p)) (mulh_compute op rs1 rs2) s;
     Some (step_pc s)
   })"

definition mulh_pre_compute ::
  "('f \<Rightarrow> nat) \<Rightarrow> 'c ctx_ops \<Rightarrow> u32 \<Rightarrow> 'f instr \<Rightarrow> ('f, 'd, 'r, 'c) handler pre_compute_result" where
  "mulh_pre_compute canon ops pc inst = map_pre (mulh_execute_e12 ops) (mulh_pre_compute_impl canon inst)"

definition divrem_pre_compute_impl ::
  "('f \<Rightarrow> nat) \<Rightarrow> u32 \<Rightarrow> 'f instr \<Rightarrow> (DivRemOpcode \<times> mul_data) pre_compute_result" where
  "divrem_pre_compute_impl canon pc inst = do {
     local_opcode \<leftarrow> opcode_from_usize divrem_opcodes divrem_offset inst;
     if cu32 canon (i_d inst) \<noteq> REG_AS then Some (Inl (InvalidInstruction pc))
     else Some (Inr (local_opcode, mul_operands canon inst))
   }"

definition i32_min :: u32 where "i32_min = 0x80000000"

fun divrem_compute :: "DivRemOpcode \<Rightarrow> u8 list \<Rightarrow> u8 list \<Rightarrow> u8 list" where
  "divrem_compute DIV rs1 rs2 =
     (let x = from_le_bytes rs1 :: u32; y = from_le_bytes rs2 :: u32 in
      if y = 0 then replicate 4 (- 1) else if x = i32_min \<and> y = - 1 then rs1
      else to_le_bytes (word_of_int (sint x sdiv sint y) :: u32))"
| "divrem_compute DIVU rs1 rs2 =
     (if rs2 = replicate 4 0 then replicate 4 (- 1)
      else to_le_bytes ((from_le_bytes rs1 :: u32) div from_le_bytes rs2))"
| "divrem_compute REM rs1 rs2 =
     (let x = from_le_bytes rs1 :: u32; y = from_le_bytes rs2 :: u32 in
      if y = 0 then rs1 else if x = i32_min \<and> y = - 1 then replicate 4 0
      else to_le_bytes (word_of_int (sint x smod sint y) :: u32))"
| "divrem_compute REMU rs1 rs2 =
     (if rs2 = replicate 4 0 then rs1
      else to_le_bytes ((from_le_bytes rs1 :: u32) mod from_le_bytes rs2))"

definition divrem_execute_e12 :: "'c ctx_ops \<Rightarrow> DivRemOpcode \<times> mul_data \<Rightarrow> ('f, 'd, 'r, 'c) handler" where
  "divrem_execute_e12 ops x s = (case x of (op, p) \<Rightarrow> do {
     (rs1, s) \<leftarrow> read_reg ops (ucast (mu_b p)) s;
     (rs2, s) \<leftarrow> read_reg ops (ucast (mu_c p)) s;
     s \<leftarrow> write_reg ops (ucast (mu_a p)) (divrem_compute op rs1 rs2) s;
     Some (step_pc s)
   })"

definition divrem_pre_compute ::
  "('f \<Rightarrow> nat) \<Rightarrow> 'c ctx_ops \<Rightarrow> u32 \<Rightarrow> 'f instr \<Rightarrow> ('f, 'd, 'r, 'c) handler pre_compute_result" where
  "divrem_pre_compute canon ops pc inst =
     map_pre (divrem_execute_e12 ops) (divrem_pre_compute_impl canon pc inst)"

section \<open>Metered execution\<close>

text \<open>
  \<open>metered_pre_compute\<close> with the handlers \<open>execute_e2_impl\<close>, which count a row of the chip first.
\<close>

definition base_alu_metered_pre_compute ::
  "('f \<Rightarrow> nat) \<Rightarrow> 'c ctx_ops \<Rightarrow> nat \<Rightarrow> u32 \<Rightarrow> 'f instr \<Rightarrow> ('f, 'd, 'r, 'c) handler pre_compute_result" where
  "base_alu_metered_pre_compute canon ops chip_idx pc inst =
     map_pre (execute_e2 ops chip_idx) (base_alu_pre_compute canon ops pc inst)"

definition shift_metered_pre_compute ::
  "('f \<Rightarrow> nat) \<Rightarrow> 'c ctx_ops \<Rightarrow> nat \<Rightarrow> u32 \<Rightarrow> 'f instr \<Rightarrow> ('f, 'd, 'r, 'c) handler pre_compute_result" where
  "shift_metered_pre_compute canon ops chip_idx pc inst =
     map_pre (execute_e2 ops chip_idx) (shift_pre_compute canon ops pc inst)"

definition less_than_metered_pre_compute ::
  "('f \<Rightarrow> nat) \<Rightarrow> 'c ctx_ops \<Rightarrow> nat \<Rightarrow> u32 \<Rightarrow> 'f instr \<Rightarrow> ('f, 'd, 'r, 'c) handler pre_compute_result" where
  "less_than_metered_pre_compute canon ops chip_idx pc inst =
     map_pre (execute_e2 ops chip_idx) (less_than_pre_compute canon ops pc inst)"

definition branch_eq_metered_pre_compute ::
  "('f::field \<Rightarrow> nat) \<Rightarrow> 'c ctx_ops \<Rightarrow> nat \<Rightarrow> u32 \<Rightarrow> 'f instr \<Rightarrow> ('f, 'd, 'r, 'c) handler pre_compute_result" where
  "branch_eq_metered_pre_compute canon ops chip_idx pc inst =
     map_pre (execute_e2 ops chip_idx) (branch_eq_pre_compute canon ops pc inst)"

definition branch_lt_metered_pre_compute ::
  "('f::field \<Rightarrow> nat) \<Rightarrow> 'c ctx_ops \<Rightarrow> nat \<Rightarrow> u32 \<Rightarrow> 'f instr \<Rightarrow> ('f, 'd, 'r, 'c) handler pre_compute_result" where
  "branch_lt_metered_pre_compute canon ops chip_idx pc inst =
     map_pre (execute_e2 ops chip_idx) (branch_lt_pre_compute canon ops pc inst)"

definition jal_lui_metered_pre_compute ::
  "('f::field \<Rightarrow> nat) \<Rightarrow> 'c ctx_ops \<Rightarrow> nat \<Rightarrow> u32 \<Rightarrow> 'f instr \<Rightarrow> ('f, 'd, 'r, 'c) handler pre_compute_result" where
  "jal_lui_metered_pre_compute canon ops chip_idx pc inst =
     map_pre (execute_e2 ops chip_idx) (jal_lui_pre_compute canon ops pc inst)"

definition jalr_metered_pre_compute ::
  "('f::zero \<Rightarrow> nat) \<Rightarrow> 'c ctx_ops \<Rightarrow> nat \<Rightarrow> u32 \<Rightarrow> 'f instr \<Rightarrow> ('f, 'd, 'r, 'c) handler pre_compute_result" where
  "jalr_metered_pre_compute canon ops chip_idx pc inst =
     map_pre (execute_e2 ops chip_idx) (jalr_pre_compute canon ops pc inst)"

definition auipc_metered_pre_compute ::
  "('f \<Rightarrow> nat) \<Rightarrow> 'c ctx_ops \<Rightarrow> nat \<Rightarrow> u32 \<Rightarrow> 'f instr \<Rightarrow> ('f, 'd, 'r, 'c) handler pre_compute_result" where
  "auipc_metered_pre_compute canon ops chip_idx pc inst =
     map_pre (execute_e2 ops chip_idx) (auipc_pre_compute canon ops pc inst)"

definition mul_metered_pre_compute ::
  "('f \<Rightarrow> nat) \<Rightarrow> 'c ctx_ops \<Rightarrow> nat \<Rightarrow> u32 \<Rightarrow> 'f instr \<Rightarrow> ('f, 'd, 'r, 'c) handler pre_compute_result" where
  "mul_metered_pre_compute canon ops chip_idx pc inst =
     map_pre (execute_e2 ops chip_idx) (mul_pre_compute canon ops pc inst)"

definition mulh_metered_pre_compute ::
  "('f \<Rightarrow> nat) \<Rightarrow> 'c ctx_ops \<Rightarrow> nat \<Rightarrow> u32 \<Rightarrow> 'f instr \<Rightarrow> ('f, 'd, 'r, 'c) handler pre_compute_result" where
  "mulh_metered_pre_compute canon ops chip_idx pc inst =
     map_pre (execute_e2 ops chip_idx) (mulh_pre_compute canon ops pc inst)"

definition divrem_metered_pre_compute ::
  "('f \<Rightarrow> nat) \<Rightarrow> 'c ctx_ops \<Rightarrow> nat \<Rightarrow> u32 \<Rightarrow> 'f instr \<Rightarrow> ('f, 'd, 'r, 'c) handler pre_compute_result" where
  "divrem_metered_pre_compute canon ops chip_idx pc inst =
     map_pre (execute_e2 ops chip_idx) (divrem_pre_compute canon ops pc inst)"

end
