(* ===== verification/Rv32_Exec_Mem.thy ===== *)
theory Rv32_Exec_Mem
  imports Rv32_Exec
begin

text \<open>
  The executors with memory accesses and host state in pure and metered execution: \<open>loadstore\<close>,
  \<open>load_sign_extend\<close> and \<open>hintstore\<close> of \<open>extensions/rv32im/circuit/src\<close>, the phantom executor of
  \<open>crates/vm/src/system/phantom\<close> and the sub-executors of \<open>extension/mod.rs\<close>.
\<close>

unbundle bit_operations_syntax

section \<open>Loads and stores\<close>

record load_store_data =
  ls_imm_extended :: u32
  ls_a :: u8
  ls_b :: u8
  ls_e :: u8

definition load_store_operands :: "('f \<Rightarrow> nat) \<Rightarrow> 'f instr \<Rightarrow> load_store_data" where
  "load_store_operands canon inst =
     \<lparr>ls_imm_extended = imm_extended canon inst, ls_a = cu8 canon (i_a inst), ls_b = cu8 canon (i_b inst),
      ls_e = cu8 canon (i_e inst)\<rparr>"

definition load_store_pre_compute_impl ::
  "('f::zero \<Rightarrow> nat) \<Rightarrow> u32 \<Rightarrow> 'f instr
    \<Rightarrow> (Rv32LoadStoreOpcode \<times> bool \<times> load_store_data) pre_compute_result" where
  "load_store_pre_compute_impl canon pc inst =
     (let enabled = (i_f inst \<noteq> 0); e_u32 = cu32 canon (i_e inst) in
      if cu32 canon (i_d inst) \<noteq> REG_AS \<or> e_u32 = IMM_AS \<or> e_u32 = DEFERRAL_AS
      then Some (Inl (InvalidInstruction pc))
      else do {
        local_opcode \<leftarrow> opcode_from_usize load_store_opcodes load_store_offset inst;
        if local_opcode \<in> {LOADW, LOADBU, LOADHU}
        then Some (Inr (local_opcode, enabled, load_store_operands canon inst))
        else if local_opcode \<in> {STOREW, STOREH, STOREB}
        then if \<not> enabled then Some (Inl (InvalidInstruction pc))
          else Some (Inr (local_opcode, enabled, load_store_operands canon inst))
        else None
      })"

text \<open>
  The trait \<open>LoadStoreOp\<close>: \<open>IS_LOAD\<close>, \<open>HOST_READ\<close> and \<open>compute_write_data\<close>, which returns the data to
  write, or \<open>None\<close> where the code returns \<open>false\<close>. \<open>LOADB\<close> and \<open>LOADH\<close> have no such type: they are never
  dispatched here.
\<close>

definition is_load_op :: "Rv32LoadStoreOpcode \<Rightarrow> bool" where
  "is_load_op op \<longleftrightarrow> op \<in> {LOADW, LOADHU, LOADBU}"

definition host_read_op :: "Rv32LoadStoreOpcode \<Rightarrow> bool" where
  "host_read_op op \<longleftrightarrow> op \<in> {STOREH, STOREB}"

definition compute_write_data ::
  "Rv32LoadStoreOpcode \<Rightarrow> u8 list \<Rightarrow> u8 list \<Rightarrow> nat \<Rightarrow> u8 list option" where
  "compute_write_data op write_data read_data shift_amount =
     (case op of
        LOADW \<Rightarrow> Some read_data
      | LOADHU \<Rightarrow>
          if shift_amount \<noteq> 0 \<and> shift_amount \<noteq> 2 then None
          else Some (write_data[0 := read_data ! shift_amount, 1 := read_data ! (shift_amount + 1)])
      | LOADBU \<Rightarrow> Some (write_data[0 := read_data ! shift_amount])
      | STOREW \<Rightarrow> Some read_data
      | STOREH \<Rightarrow>
          if shift_amount \<noteq> 0 \<and> shift_amount \<noteq> 2 then None
          else Some (write_data[shift_amount := read_data ! 0, shift_amount + 1 := read_data ! 1])
      | STOREB \<Rightarrow> Some (write_data[shift_amount := read_data ! 0])
      | _ \<Rightarrow> None)"

definition load_store_execute_e12 ::
  "'c ctx_ops \<Rightarrow> Rv32LoadStoreOpcode \<times> bool \<times> load_store_data
    \<Rightarrow> ('f, 'd, 'r, 'c, unit) fallible_impl" where
  "load_store_execute_e12 ops x s = (case x of (op, enabled, p) \<Rightarrow> do {
     let pc = get_pc s;
     (rs1_bytes, s) \<leftarrow> read_reg ops (ucast (ls_b p)) s;
     let ptr_val = from_le_bytes rs1_bytes + ls_imm_extended p;
     let shift_amount = ptr_val mod 4;
     let ptr_val = ptr_val - shift_amount;
     (read_data, s) \<leftarrow>
       (if is_load_op op then vm_read ops RV32_REGISTER_NUM_LIMBS (unat (ls_e p)) ptr_val s
        else read_reg ops (ucast (ls_a p)) s);
     write_data \<leftarrow>
       (if host_read_op op then host_read RV32_REGISTER_NUM_LIMBS (unat (ls_e p)) ptr_val s
        else Some (replicate RV32_REGISTER_NUM_LIMBS 0));
     (case compute_write_data op write_data read_data (unat shift_amount) of
        None \<Rightarrow> Some (Inl (Fail pc ''Invalid LoadStoreOp''), s)
      | Some write_data \<Rightarrow> do {
          s \<leftarrow>
            (if enabled then
               if is_load_op op then write_reg ops (ucast (ls_a p)) write_data s
               else vm_write ops (unat (ls_e p)) ptr_val write_data s
             else Some s);
          Some (Inr (), set_pc (pc + pc_step) s)
        })
   })"

definition load_store_pre_compute ::
  "('f::zero \<Rightarrow> nat) \<Rightarrow> 'c ctx_ops \<Rightarrow> u32 \<Rightarrow> 'f instr \<Rightarrow> ('f, 'd, 'r, 'c) handler pre_compute_result" where
  "load_store_pre_compute canon ops pc inst =
     map_pre (\<lambda>x. create_handler (load_store_execute_e12 ops x)) (load_store_pre_compute_impl canon pc inst)"

definition load_sign_extend_pre_compute_impl ::
  "('f::zero \<Rightarrow> nat) \<Rightarrow> u32 \<Rightarrow> 'f instr \<Rightarrow> (bool \<times> bool \<times> load_store_data) pre_compute_result" where
  "load_sign_extend_pre_compute_impl canon pc inst =
     (if cu32 canon (i_d inst) \<noteq> REG_AS \<or> cu32 canon (i_e inst) = IMM_AS
      then Some (Inl (InvalidInstruction pc))
      else do {
        local_opcode \<leftarrow> opcode_from_usize load_store_opcodes load_store_offset inst;
        if local_opcode \<in> {LOADB, LOADH}
        then Some (Inr (local_opcode = LOADB, i_f inst \<noteq> 0, load_store_operands canon inst))
        else None
      })"

definition load_sign_extend_execute_e12 ::
  "'c ctx_ops \<Rightarrow> bool \<times> bool \<times> load_store_data \<Rightarrow> ('f, 'd, 'r, 'c, unit) fallible_impl" where
  "load_sign_extend_execute_e12 ops x s = (case x of (is_loadb, enabled, p) \<Rightarrow> do {
     let pc = get_pc s;
     (rs1_bytes, s) \<leftarrow> read_reg ops (ucast (ls_b p)) s;
     let ptr_val = from_le_bytes rs1_bytes + ls_imm_extended p;
     let shift_amount = ptr_val mod 4;
     let ptr_val = ptr_val - shift_amount;
     (read_data, s) \<leftarrow> vm_read ops RV32_REGISTER_NUM_LIMBS (unat (ls_e p)) ptr_val s;
     if \<not> is_loadb \<and> shift_amount \<noteq> 0 \<and> shift_amount \<noteq> 2
     then Some (Inl (Fail pc ''LoadSignExtend invalid shift amount''), s)
     else do {
       let write_data =
         (if is_loadb then to_le_bytes (scast (read_data ! unat shift_amount) :: u32)
          else to_le_bytes (scast (from_le_bytes
            [read_data ! unat shift_amount, read_data ! (unat shift_amount + 1)] :: 16 word) :: u32));
       s \<leftarrow> (if enabled then write_reg ops (ucast (ls_a p)) write_data s else Some s);
       Some (Inr (), set_pc (pc + pc_step) s)
     }
   })"

definition load_sign_extend_pre_compute ::
  "('f::zero \<Rightarrow> nat) \<Rightarrow> 'c ctx_ops \<Rightarrow> u32 \<Rightarrow> 'f instr \<Rightarrow> ('f, 'd, 'r, 'c) handler pre_compute_result" where
  "load_sign_extend_pre_compute canon ops pc inst =
     map_pre (\<lambda>x. create_handler (load_sign_extend_execute_e12 ops x))
       (load_sign_extend_pre_compute_impl canon pc inst)"

section \<open>Hints\<close>

datatype Rv32HintStoreOpcode = HINT_STOREW | HINT_BUFFER

definition hint_store_opcodes :: "Rv32HintStoreOpcode list" where
  "hint_store_opcodes = [HINT_STOREW, HINT_BUFFER]"

definition hint_store_offset :: nat where "hint_store_offset = 0x260"

definition MAX_HINT_BUFFER_WORDS :: u32 where "MAX_HINT_BUFFER_WORDS = push_bit 10 1 - 1"

record hint_store_data =
  hs_c :: u32
  hs_a :: u8
  hs_b :: u8

definition hint_store_pre_compute_impl ::
  "('f \<Rightarrow> nat) \<Rightarrow> u32 \<Rightarrow> 'f instr \<Rightarrow> (Rv32HintStoreOpcode \<times> hint_store_data) pre_compute_result" where
  "hint_store_pre_compute_impl canon pc inst =
     (if cu32 canon (i_d inst) \<noteq> REG_AS \<or> cu32 canon (i_e inst) \<noteq> MEM_AS
      then Some (Inl (InvalidInstruction pc))
      else do {
        op \<leftarrow> opcode_from_usize hint_store_opcodes hint_store_offset inst;
        Some (Inr (op, \<lparr>hs_c = cu32 canon (i_c inst), hs_a = cu8 canon (i_a inst), hs_b = cu8 canon (i_b inst)\<rparr>))
      })"

text \<open>\<open>pop_front\<close> four times; \<open>unwrap\<close> panics on an empty stream.\<close>

definition pop_hint_word ::
  "('f \<Rightarrow> nat) \<Rightarrow> ('f, 'd, 'r, 'c) vm_exec_state \<Rightarrow> (u8 list \<times> ('f, 'd, 'r, 'c) vm_exec_state) option" where
  "pop_hint_word canon s =
     (let hs = hint_stream (vs_streams (es_vm_state s)) in
      if length hs < RV32_REGISTER_NUM_LIMBS then None
      else Some (map (cu8 canon) (take RV32_REGISTER_NUM_LIMBS hs),
        s\<lparr>es_vm_state := es_vm_state s\<lparr>vs_streams := vs_streams (es_vm_state s)
          \<lparr>hint_stream := drop RV32_REGISTER_NUM_LIMBS hs\<rparr>\<rparr>\<rparr>))"

fun hint_store_words ::
  "('f \<Rightarrow> nat) \<Rightarrow> 'c ctx_ops \<Rightarrow> u32 \<Rightarrow> nat \<Rightarrow> nat \<Rightarrow> ('f, 'd, 'r, 'c) handler" where
  "hint_store_words canon ops mem_ptr word_index 0 s = Some s"
| "hint_store_words canon ops mem_ptr word_index (Suc n) s = do {
     (data, s) \<leftarrow> pop_hint_word canon s;
     s \<leftarrow> vm_write ops RV32_MEMORY_AS (mem_ptr + of_nat (RV32_REGISTER_NUM_LIMBS * word_index)) data s;
     hint_store_words canon ops mem_ptr (Suc word_index) n s
   }"

text \<open>It returns the number of rows used.\<close>

definition hint_store_execute_e12 ::
  "('f \<Rightarrow> nat) \<Rightarrow> 'c ctx_ops \<Rightarrow> Rv32HintStoreOpcode \<times> hint_store_data
    \<Rightarrow> ('f, 'd, 'r, 'c, u32) fallible_impl" where
  "hint_store_execute_e12 canon ops x s = (case x of (op, p) \<Rightarrow> do {
     let pc = get_pc s;
     (mem_ptr_limbs, s) \<leftarrow> read_reg ops (ucast (hs_b p)) s;
     let mem_ptr = from_le_bytes mem_ptr_limbs;
     (num_words, s) \<leftarrow>
       (if op = HINT_STOREW then Some (1, s)
        else do {
          (num_words_limbs, s) \<leftarrow> read_reg ops (ucast (hs_a p)) s;
          Some (from_le_bytes num_words_limbs, s)
        });
     if num_words = 0 then Some (Inl (HintBufferZeroWords pc), s)
     else if num_words > MAX_HINT_BUFFER_WORDS
     then Some (Inl (HintBufferTooLarge pc num_words MAX_HINT_BUFFER_WORDS), s)
     else if length (hint_stream (vs_streams (es_vm_state s))) < RV32_REGISTER_NUM_LIMBS * unat num_words
     then Some (Inl (HintOutOfBounds pc), s)
     else do {
       s \<leftarrow> hint_store_words canon ops mem_ptr 0 (unat num_words) s;
       Some (Inr num_words, set_pc (pc + pc_step) s)
     }
   })"

definition hint_store_execute_e1 ::
  "('f \<Rightarrow> nat) \<Rightarrow> 'c ctx_ops \<Rightarrow> Rv32HintStoreOpcode \<times> hint_store_data
    \<Rightarrow> ('f, 'd, 'r, 'c, unit) fallible_impl" where
  "hint_store_execute_e1 canon ops x s =
     map_option (apfst (map_sum id (\<lambda>_. ()))) (hint_store_execute_e12 canon ops x s)"

definition hint_store_execute_e2 ::
  "('f \<Rightarrow> nat) \<Rightarrow> 'c ctx_ops \<Rightarrow> nat \<Rightarrow> Rv32HintStoreOpcode \<times> hint_store_data
    \<Rightarrow> ('f, 'd, 'r, 'c, unit) fallible_impl" where
  "hint_store_execute_e2 canon ops chip_idx x s = do {
     (ret, s) \<leftarrow> hint_store_execute_e12 canon ops x s;
     (case ret of
        Inl err \<Rightarrow> Some (Inl err, s)
      | Inr height_delta \<Rightarrow> do {
          s \<leftarrow> add_row ops (as_chip_idx chip_idx) (unat height_delta) s;
          Some (Inr (), s)
        })
   }"

definition hint_store_pre_compute ::
  "('f \<Rightarrow> nat) \<Rightarrow> 'c ctx_ops \<Rightarrow> u32 \<Rightarrow> 'f instr \<Rightarrow> ('f, 'd, 'r, 'c) handler pre_compute_result" where
  "hint_store_pre_compute canon ops pc inst =
     map_pre (\<lambda>x. create_handler (hint_store_execute_e1 canon ops x)) (hint_store_pre_compute_impl canon pc inst)"

definition hint_store_metered_pre_compute ::
  "('f \<Rightarrow> nat) \<Rightarrow> 'c ctx_ops \<Rightarrow> nat \<Rightarrow> u32 \<Rightarrow> 'f instr \<Rightarrow> ('f, 'd, 'r, 'c) handler pre_compute_result" where
  "hint_store_metered_pre_compute canon ops chip_idx pc inst =
     map_pre (\<lambda>x. create_handler (hint_store_execute_e2 canon ops chip_idx x))
       (hint_store_pre_compute_impl canon pc inst)"

section \<open>Phantom instructions\<close>

text \<open>
  The trait \<open>PhantomSubExecutor\<close>: the memory is read only; the streams and the generator may
  change, also when the result is an error. The result \<open>None\<close> is a panic.
\<close>

type_synonym ('f, 'd, 'r) phantom_sub_executor =
  "address_map \<Rightarrow> ('f, 'd) streams \<Rightarrow> 'r \<Rightarrow> 16 word \<Rightarrow> u32 \<Rightarrow> u32 \<Rightarrow> 16 word
    \<Rightarrow> ((string + unit) \<times> ('f, 'd) streams \<times> 'r) option"

type_synonym ('f, 'd, 'r) phantom_map = "16 word \<Rightarrow> ('f, 'd, 'r) phantom_sub_executor option"

definition nop_phantom :: "('f, 'd, 'r) phantom_sub_executor" where
  "nop_phantom memory streams rng discriminant a b c_upper = Some (Inr (), streams, rng)"

definition hint_input_phantom :: "('f::field, 'd, 'r) phantom_sub_executor" where
  "hint_input_phantom memory streams rng discriminant a b c_upper =
     (case input_stream streams of
        [] \<Rightarrow> Some (Inl ''EndOfInputStream'', streams, rng)
      | hint # rest \<Rightarrow>
          let len_bytes = map (\<lambda>b. of_nat (unat b)) (to_le_bytes (of_nat (length hint) :: u32));
              capacity = div_ceil (length hint) 4 * 4 in
          Some (Inr (), streams\<lparr>input_stream := rest,
            hint_stream := len_bytes @ hint @ replicate (capacity - length hint) 0\<rparr>, rng))"

text \<open>
  The host: \<open>rng_u8\<close> is \<open>rng.random::<u8>()\<close> and \<open>utf8_report\<close> the report that \<open>String::from_utf8\<close>
  returns for bytes that are not UTF-8.
\<close>

record 'r host =
  rng_u8 :: "'r \<Rightarrow> u8 \<times> 'r"
  utf8_report :: "u8 list \<Rightarrow> string"

fun rng_bytes :: "'r host \<Rightarrow> nat \<Rightarrow> 'r \<Rightarrow> u8 list \<times> 'r" where
  "rng_bytes h 0 rng = ([], rng)"
| "rng_bytes h (Suc n) rng =
     (let (b, rng) = rng_u8 h rng; (bs, rng) = rng_bytes h n rng in (b # bs, rng))"

definition read_rv32_register :: "address_map \<Rightarrow> u32 \<Rightarrow> u32 option" where
  "read_rv32_register memory ptr =
     map_option from_le_bytes (gm_read 1 RV32_REGISTER_NUM_LIMBS memory RV32_REGISTER_AS ptr)"

definition hint_random_phantom :: "'r host \<Rightarrow> ('f::field, 'd, 'r) phantom_sub_executor" where
  "hint_random_phantom h memory streams rng discriminant a b c_upper = do {
     len \<leftarrow> read_rv32_register memory a;
     let (bytes, rng) = rng_bytes h (unat len * 4) rng;
     Some (Inr (), streams\<lparr>hint_stream := map (\<lambda>b. of_nat (unat b)) bytes\<rparr>, rng)
   }"

text \<open>Well-formed UTF-8.\<close>

definition utf8_cont :: "u8 \<Rightarrow> bool" where "utf8_cont b \<longleftrightarrow> 0x80 \<le> b \<and> b \<le> 0xBF"

fun utf8_valid :: "u8 list \<Rightarrow> bool" where
  "utf8_valid [] \<longleftrightarrow> True"
| "utf8_valid (b0 # bs) \<longleftrightarrow>
     (if b0 < 0x80 then utf8_valid bs
      else case bs of
        [] \<Rightarrow> False
      | b1 # bs1 \<Rightarrow>
          if 0xC2 \<le> b0 \<and> b0 \<le> 0xDF then utf8_cont b1 \<and> utf8_valid bs1
          else case bs1 of
            [] \<Rightarrow> False
          | b2 # bs2 \<Rightarrow>
              if 0xE0 \<le> b0 \<and> b0 \<le> 0xEF
              then utf8_cont b1 \<and> (b0 = 0xE0 \<longrightarrow> 0xA0 \<le> b1) \<and> (b0 = 0xED \<longrightarrow> b1 \<le> 0x9F) \<and>
                utf8_cont b2 \<and> utf8_valid bs2
              else case bs2 of
                [] \<Rightarrow> False
              | b3 # bs3 \<Rightarrow>
                  0xF0 \<le> b0 \<and> b0 \<le> 0xF4 \<and> utf8_cont b1 \<and> (b0 = 0xF0 \<longrightarrow> 0x90 \<le> b1) \<and>
                  (b0 = 0xF4 \<longrightarrow> b1 \<le> 0x8F) \<and> utf8_cont b2 \<and> utf8_cont b3 \<and> utf8_valid bs3)"

fun read_bytes :: "address_map \<Rightarrow> u32 \<Rightarrow> nat \<Rightarrow> nat \<Rightarrow> u8 list option" where
  "read_bytes memory rd i 0 = Some []"
| "read_bytes memory rd i (Suc n) = do {
     b \<leftarrow> gm_read 1 1 memory RV32_MEMORY_AS (rd + of_nat i);
     bs \<leftarrow> read_bytes memory rd (Suc i) n;
     Some (b ! 0 # bs)
   }"

definition print_str_phantom :: "'r host \<Rightarrow> ('f, 'd, 'r) phantom_sub_executor" where
  "print_str_phantom h memory streams rng discriminant a b c_upper = do {
     rd \<leftarrow> read_rv32_register memory a;
     rs1 \<leftarrow> read_rv32_register memory b;
     bytes \<leftarrow> read_bytes memory rd 0 (unat rs1);
     Some (if utf8_valid bytes then Inr () else Inl (utf8_report h bytes), streams, rng)
   }"

record ('f, 'd, 'r) phantom_data =
  ph_a :: u32
  ph_b :: u32
  ph_c :: u32
  ph_sub_executor :: "('f, 'd, 'r) phantom_sub_executor"

definition phantom_pre_compute_impl ::
  "('f \<Rightarrow> nat) \<Rightarrow> ('f, 'd, 'r) phantom_map \<Rightarrow> 'f instr \<Rightarrow> ('f, 'd, 'r) phantom_data option" where
  "phantom_pre_compute_impl canon phantoms inst = do {
     let c = cu32 canon (i_c inst);
     sub_executor \<leftarrow> phantoms (ucast c);
     Some \<lparr>ph_a = cu32 canon (i_a inst), ph_b = cu32 canon (i_b inst), ph_c = c,
       ph_sub_executor = sub_executor\<rparr>
   }"

datatype SysPhantom = SysNop | SysDebugPanic | SysCtStart | SysCtEnd

definition sys_phantoms :: "SysPhantom list" where
  "sys_phantoms = [SysNop, SysDebugPanic, SysCtStart, SysCtEnd]"

definition phantom_execute_e12 ::
  "('f, 'd, 'r) phantom_data \<Rightarrow> ('f, 'd, 'r, 'c, unit) fallible_impl" where
  "phantom_execute_e12 p s = do {
     let pc = get_pc s;
     let discriminant = (ucast (ph_c p) :: 16 word);
     if from_repr sys_phantoms (unat discriminant) = Some SysDebugPanic
     then Some (Inl (Fail pc ''DebugPanic''), s)
     else do {
       (ret, streams, rng) \<leftarrow> ph_sub_executor p (vs_memory (es_vm_state s)) (vs_streams (es_vm_state s))
         (vs_rng (es_vm_state s)) discriminant (ph_a p) (ph_b p) (ucast (drop_bit 16 (ph_c p)));
       let s = s\<lparr>es_vm_state := es_vm_state s\<lparr>vs_streams := streams, vs_rng := rng\<rparr>\<rparr>;
       Some (case ret of
          Inl e \<Rightarrow> (Inl (PhantomError pc (unat discriminant) e), s)
        | Inr _ \<Rightarrow> (Inr (), set_pc (pc + pc_step) s))
     }
   }"

definition phantom_pre_compute ::
  "('f \<Rightarrow> nat) \<Rightarrow> ('f, 'd, 'r) phantom_map \<Rightarrow> 'f instr \<Rightarrow> ('f, 'd, 'r, 'c) handler pre_compute_result" where
  "phantom_pre_compute canon phantoms inst =
     map_option (\<lambda>p. Inr (create_handler (phantom_execute_e12 p))) (phantom_pre_compute_impl canon phantoms inst)"

section \<open>Metered execution\<close>

text \<open>
  \<open>metered_pre_compute\<close> with the handlers \<open>execute_e2_impl\<close>, which count a row of the chip first.
\<close>

definition load_store_metered_pre_compute ::
  "('f::zero \<Rightarrow> nat) \<Rightarrow> 'c ctx_ops \<Rightarrow> nat \<Rightarrow> u32 \<Rightarrow> 'f instr \<Rightarrow> ('f, 'd, 'r, 'c) handler pre_compute_result" where
  "load_store_metered_pre_compute canon ops chip_idx pc inst =
     map_pre (execute_e2 ops chip_idx) (load_store_pre_compute canon ops pc inst)"

definition load_sign_extend_metered_pre_compute ::
  "('f::zero \<Rightarrow> nat) \<Rightarrow> 'c ctx_ops \<Rightarrow> nat \<Rightarrow> u32 \<Rightarrow> 'f instr \<Rightarrow> ('f, 'd, 'r, 'c) handler pre_compute_result" where
  "load_sign_extend_metered_pre_compute canon ops chip_idx pc inst =
     map_pre (execute_e2 ops chip_idx) (load_sign_extend_pre_compute canon ops pc inst)"

definition phantom_metered_pre_compute ::
  "('f \<Rightarrow> nat) \<Rightarrow> ('f, 'd, 'r) phantom_map \<Rightarrow> 'c ctx_ops \<Rightarrow> nat \<Rightarrow> 'f instr \<Rightarrow> ('f, 'd, 'r, 'c) handler pre_compute_result" where
  "phantom_metered_pre_compute canon phantoms ops chip_idx inst =
     map_pre (execute_e2 ops chip_idx) (phantom_pre_compute canon phantoms inst)"

end
