(* ===== verification/Inventory.thy ===== *)
theory Inventory
  imports Rv32_Exec_Mem "HOL-Library.AList"
begin

text \<open>
  The executor inventory of \<open>crates/vm/src/arch/extensions.rs\<close>, the system executors of
  \<open>crates/vm/src/system/mod.rs\<close> and the executors that the extensions Rv32I, Rv32Io and Rv32M of
  \<open>extensions/rv32im/circuit/src/extension/mod.rs\<close> register. A hash map is an association list
  with distinct keys in the order of insertion; where the code iterates over one, the order is
  that of the list.
\<close>

section \<open>Inventories\<close>

datatype executor_inventory_error =
    ExecutorExists nat nat
  | PhantomSubExecutorExists "16 word"

record 'e executor_inventory =
  instruction_lookup :: "(nat \<times> nat) list"
  executors :: "'e list"
  ext_start :: "nat list"

definition inventory_new :: "'e executor_inventory" where
  "inventory_new = \<lparr>instruction_lookup = [], executors = [], ext_start = [0]\<rparr>"

fun insert_opcodes :: "nat \<Rightarrow> nat list \<Rightarrow> (nat \<times> nat) list \<Rightarrow> (nat \<times> nat) list" where
  "insert_opcodes ex_id [] m = m"
| "insert_opcodes ex_id (opc # opcs) m = insert_opcodes ex_id opcs (AList.update opc ex_id m)"

definition add_executor ::
  "'e \<Rightarrow> nat list \<Rightarrow> 'e executor_inventory \<Rightarrow> executor_inventory_error + 'e executor_inventory" where
  "add_executor executor opcodes invt =
     (case List.find (\<lambda>opc. map_of (instruction_lookup invt) opc \<noteq> None) opcodes of
        Some opc \<Rightarrow> Inl (ExecutorExists opc (the (map_of (instruction_lookup invt) opc)))
      | None \<Rightarrow>
          let id = length (executors invt) in
          Inr (invt\<lparr>executors := executors invt @ [executor],
            instruction_lookup := insert_opcodes id opcodes (instruction_lookup invt)\<rparr>))"

fun append_lookup ::
  "nat \<Rightarrow> (nat \<times> nat) list \<Rightarrow> (nat \<times> nat) list \<Rightarrow> executor_inventory_error + (nat \<times> nat) list" where
  "append_lookup num_executors [] m = Inr m"
| "append_lookup num_executors ((opc, ex_id) # rest) m =
     (case map_of m opc of
        Some old_id \<Rightarrow> Inl (ExecutorExists opc old_id)
      | None \<Rightarrow> append_lookup num_executors rest (AList.update opc (ex_id + num_executors) m))"

definition append_inventory ::
  "'e executor_inventory \<Rightarrow> 'e executor_inventory \<Rightarrow> executor_inventory_error + 'e executor_inventory" where
  "append_inventory other invt =
     (let num_executors = length (executors invt) in
      case append_lookup num_executors (instruction_lookup other) (instruction_lookup invt) of
        Inl err \<Rightarrow> Inl err
      | Inr m \<Rightarrow> Inr \<lparr>instruction_lookup = m, executors = executors invt @ executors other,
          ext_start = ext_start invt @ map (\<lambda>id. id + num_executors) (ext_start other)\<rparr>)"

definition get_executor :: "'e executor_inventory \<Rightarrow> nat \<Rightarrow> 'e option" where
  "get_executor invt opc =
     (case map_of (instruction_lookup invt) opc of
        None \<Rightarrow> None
      | Some ex_id \<Rightarrow> if ex_id < length (executors invt) then Some (executors invt ! ex_id) else None)"

section \<open>The executors of RV32IM\<close>

datatype ('f, 'd, 'r) vm_executor =
    PhantomEx "('f, 'd, 'r) phantom_map"
  | BaseAluEx | LessThanEx | ShiftEx | LoadStoreEx | LoadSignExtendEx | BranchEqualEx
  | BranchLessThanEx | JalLuiEx | JalrEx | AuipcEx | MultiplicationEx | MultiplicationHighEx
  | DivRemEx | HintStoreEx

definition executor_pre_compute ::
  "('f::field \<Rightarrow> nat) \<Rightarrow> 'c ctx_ops \<Rightarrow> ('f, 'd, 'r) vm_executor \<Rightarrow> u32 \<Rightarrow> 'f instr
    \<Rightarrow> ('f, 'd, 'r, 'c) handler pre_compute_result" where
  "executor_pre_compute canon ops ex pc inst =
     (case ex of
        PhantomEx phantoms \<Rightarrow> phantom_pre_compute canon phantoms inst
      | BaseAluEx \<Rightarrow> base_alu_pre_compute canon ops pc inst
      | LessThanEx \<Rightarrow> less_than_pre_compute canon ops pc inst
      | ShiftEx \<Rightarrow> shift_pre_compute canon ops pc inst
      | LoadStoreEx \<Rightarrow> load_store_pre_compute canon ops pc inst
      | LoadSignExtendEx \<Rightarrow> load_sign_extend_pre_compute canon ops pc inst
      | BranchEqualEx \<Rightarrow> branch_eq_pre_compute canon ops pc inst
      | BranchLessThanEx \<Rightarrow> branch_lt_pre_compute canon ops pc inst
      | JalLuiEx \<Rightarrow> jal_lui_pre_compute canon ops pc inst
      | JalrEx \<Rightarrow> jalr_pre_compute canon ops pc inst
      | AuipcEx \<Rightarrow> auipc_pre_compute canon ops pc inst
      | MultiplicationEx \<Rightarrow> mul_pre_compute canon ops pc inst
      | MultiplicationHighEx \<Rightarrow> mulh_pre_compute canon ops pc inst
      | DivRemEx \<Rightarrow> divrem_pre_compute canon ops pc inst
      | HintStoreEx \<Rightarrow> hint_store_pre_compute canon ops pc inst)"

definition executor_metered_pre_compute ::
  "('f::field \<Rightarrow> nat) \<Rightarrow> 'c ctx_ops \<Rightarrow> ('f, 'd, 'r) vm_executor \<Rightarrow> nat \<Rightarrow> u32 \<Rightarrow> 'f instr
    \<Rightarrow> ('f, 'd, 'r, 'c) handler pre_compute_result" where
  "executor_metered_pre_compute canon ops ex chip_idx pc inst =
     (case ex of
        PhantomEx phantoms \<Rightarrow> phantom_metered_pre_compute canon phantoms ops chip_idx inst
      | BaseAluEx \<Rightarrow> base_alu_metered_pre_compute canon ops chip_idx pc inst
      | LessThanEx \<Rightarrow> less_than_metered_pre_compute canon ops chip_idx pc inst
      | ShiftEx \<Rightarrow> shift_metered_pre_compute canon ops chip_idx pc inst
      | LoadStoreEx \<Rightarrow> load_store_metered_pre_compute canon ops chip_idx pc inst
      | LoadSignExtendEx \<Rightarrow> load_sign_extend_metered_pre_compute canon ops chip_idx pc inst
      | BranchEqualEx \<Rightarrow> branch_eq_metered_pre_compute canon ops chip_idx pc inst
      | BranchLessThanEx \<Rightarrow> branch_lt_metered_pre_compute canon ops chip_idx pc inst
      | JalLuiEx \<Rightarrow> jal_lui_metered_pre_compute canon ops chip_idx pc inst
      | JalrEx \<Rightarrow> jalr_metered_pre_compute canon ops chip_idx pc inst
      | AuipcEx \<Rightarrow> auipc_metered_pre_compute canon ops chip_idx pc inst
      | MultiplicationEx \<Rightarrow> mul_metered_pre_compute canon ops chip_idx pc inst
      | MultiplicationHighEx \<Rightarrow> mulh_metered_pre_compute canon ops chip_idx pc inst
      | DivRemEx \<Rightarrow> divrem_metered_pre_compute canon ops chip_idx pc inst
      | HintStoreEx \<Rightarrow> hint_store_metered_pre_compute canon ops chip_idx pc inst)"

text \<open>
  The size and alignment of a \<open>repr(C)\<close> struct from those of its fields: each field starts at the
  next multiple of its alignment, and the size is rounded up to the largest alignment.
\<close>

type_synonym layout = "nat \<times> nat"

definition round_up :: "nat \<Rightarrow> nat \<Rightarrow> nat" where "round_up n a = div_ceil n a * a"

fun repr_c_fields :: "layout list \<Rightarrow> layout \<Rightarrow> layout" where
  "repr_c_fields [] (off, al) = (round_up off al, al)"
| "repr_c_fields ((sz, a) # fs) (off, al) = repr_c_fields fs (round_up off a + sz, max al a)"

definition repr_c :: "layout list \<Rightarrow> layout" where "repr_c fs = repr_c_fields fs (0, 1)"

text \<open>The layouts of the \<open>PreCompute\<close> structs, on a 64-bit host.\<close>

definition pre_compute_layout :: "('f, 'd, 'r) vm_executor \<Rightarrow> layout" where
  "pre_compute_layout ex =
     (case ex of
        PhantomEx _ \<Rightarrow> repr_c [repr_c [(4, 4), (4, 4), (4, 4)], (16, 8)]
      | BranchEqualEx \<Rightarrow> repr_c [(8, 8), (1, 1), (1, 1)]
      | BranchLessThanEx \<Rightarrow> repr_c [(8, 8), (1, 1), (1, 1)]
      | JalLuiEx \<Rightarrow> repr_c [(4, 4), (1, 1)]
      | AuipcEx \<Rightarrow> repr_c [(4, 4), (1, 1)]
      | MultiplicationEx \<Rightarrow> repr_c [(1, 1), (1, 1), (1, 1)]
      | MultiplicationHighEx \<Rightarrow> repr_c [(1, 1), (1, 1), (1, 1)]
      | DivRemEx \<Rightarrow> repr_c [(1, 1), (1, 1), (1, 1)]
      | LoadStoreEx \<Rightarrow> repr_c [(4, 4), (1, 1), (1, 1), (1, 1)]
      | LoadSignExtendEx \<Rightarrow> repr_c [(4, 4), (1, 1), (1, 1), (1, 1)]
      | _ \<Rightarrow> repr_c [(4, 4), (1, 1), (1, 1)])"

definition e2_layout :: "layout \<Rightarrow> layout" where "e2_layout l = repr_c [(4, 4), l]"

section \<open>Building the inventory\<close>

text \<open>\<open>ExecutorInventoryBuilder\<close>: the new executors and phantom sub-executors of an extension.\<close>

record ('f, 'd, 'r) inventory_builder =
  new_inventory :: "('f, 'd, 'r) vm_executor executor_inventory"
  phantom_executors :: "(16 word \<times> ('f, 'd, 'r) phantom_sub_executor) list"

type_synonym ('f, 'd, 'r) extension =
  "('f, 'd, 'r) inventory_builder \<Rightarrow> executor_inventory_error + ('f, 'd, 'r) inventory_builder"

definition builder_add_executor :: "('f, 'd, 'r) vm_executor \<Rightarrow> nat list \<Rightarrow> ('f, 'd, 'r) extension" where
  "builder_add_executor ex opcodes b =
     map_sum id (\<lambda>invt. b\<lparr>new_inventory := invt\<rparr>) (add_executor ex opcodes (new_inventory b))"

definition add_phantom_sub_executor ::
  "('f, 'd, 'r) phantom_sub_executor \<Rightarrow> 16 word \<Rightarrow> ('f, 'd, 'r) extension" where
  "add_phantom_sub_executor sub discriminant b =
     (if map_of (phantom_executors b) discriminant \<noteq> None then Inl (PhantomSubExecutorExists discriminant)
      else Inr (b\<lparr>phantom_executors := AList.update discriminant sub (phantom_executors b)\<rparr>))"

text \<open>The operator \<open>?\<close>: the calls of \<open>extend_execution\<close> in order, up to the first error.\<close>

fun run_extension :: "('f, 'd, 'r) extension list \<Rightarrow> ('f, 'd, 'r) extension" where
  "run_extension [] b = Inr b"
| "run_extension (e # es) b = (case e b of Inl err \<Rightarrow> Inl err | Inr b \<Rightarrow> run_extension es b)"

fun merge_phantoms ::
  "(16 word \<times> ('f, 'd, 'r) phantom_sub_executor) list \<Rightarrow> ('f, 'd, 'r) phantom_map
    \<Rightarrow> executor_inventory_error + ('f, 'd, 'r) phantom_map" where
  "merge_phantoms [] m = Inr m"
| "merge_phantoms ((d, sub) # rest) m =
     (if m d \<noteq> None then Inl (PhantomSubExecutorExists d) else merge_phantoms rest (m(d \<mapsto> sub)))"

text \<open>The first \<open>PhantomExecutor\<close> gets the new sub-executors; \<open>None\<close> is the panic when there is none.\<close>

fun merge_into_phantom ::
  "(16 word \<times> ('f, 'd, 'r) phantom_sub_executor) list \<Rightarrow> ('f, 'd, 'r) vm_executor list
    \<Rightarrow> (executor_inventory_error + ('f, 'd, 'r) vm_executor list) option" where
  "merge_into_phantom new [] = None"
| "merge_into_phantom new (PhantomEx m # exs) =
     Some (map_sum id (\<lambda>m. PhantomEx m # exs) (merge_phantoms new m))"
| "merge_into_phantom new (ex # exs) =
     map_option (map_sum id ((#) ex)) (merge_into_phantom new exs)"

definition extend_inventory ::
  "('f, 'd, 'r) extension \<Rightarrow> ('f, 'd, 'r) vm_executor executor_inventory
    \<Rightarrow> (executor_inventory_error + ('f, 'd, 'r) vm_executor executor_inventory) option" where
  "extend_inventory ext invt =
     (case ext \<lparr>new_inventory = inventory_new, phantom_executors = []\<rparr> of
        Inl err \<Rightarrow> Some (Inl err)
      | Inr b \<Rightarrow>
          (case append_inventory (new_inventory b) invt of
             Inl err \<Rightarrow> Some (Inl err)
           | Inr invt \<Rightarrow>
               map_option (map_sum id (\<lambda>exs. invt\<lparr>executors := exs\<rparr>))
                 (merge_into_phantom (phantom_executors b) (executors invt))))"

definition create_executors :: "executor_inventory_error + ('f, 'd, 'r) vm_executor executor_inventory" where
  "create_executors =
     add_executor
       (PhantomEx [1 \<mapsto> nop_phantom, 0 \<mapsto> nop_phantom, 2 \<mapsto> nop_phantom, 3 \<mapsto> nop_phantom])
       [PHANTOM_OPCODE] inventory_new"

definition all_opcodes :: "nat \<Rightarrow> 'o list \<Rightarrow> nat list" where
  "all_opcodes offset variants = map (\<lambda>i. i + offset) [0..<length variants]"

definition rv32i_extension :: "'r host \<Rightarrow> ('f::field, 'd, 'r) extension" where
  "rv32i_extension h = run_extension
     [builder_add_executor BaseAluEx (all_opcodes alu_offset alu_opcodes),
      builder_add_executor LessThanEx (all_opcodes less_than_offset less_than_opcodes),
      builder_add_executor ShiftEx (all_opcodes shift_offset shift_opcodes),
      builder_add_executor LoadStoreEx
        (take (repr_of load_store_opcodes STOREB + 1) (all_opcodes load_store_offset load_store_opcodes)),
      builder_add_executor LoadSignExtendEx
        (map (\<lambda>op. repr_of load_store_opcodes op + load_store_offset) [LOADB, LOADH]),
      builder_add_executor BranchEqualEx (all_opcodes branch_equal_offset branch_equal_opcodes),
      builder_add_executor BranchLessThanEx (all_opcodes branch_less_than_offset branch_less_than_opcodes),
      builder_add_executor JalLuiEx (all_opcodes jal_lui_offset jal_lui_opcodes),
      builder_add_executor JalrEx (all_opcodes jalr_offset [JALR]),
      builder_add_executor AuipcEx (all_opcodes auipc_offset [AUIPC]),
      add_phantom_sub_executor hint_input_phantom 0x20,
      add_phantom_sub_executor (hint_random_phantom h) 0x22,
      add_phantom_sub_executor (print_str_phantom h) 0x21]"

definition rv32io_extension :: "('f, 'd, 'r) extension" where
  "rv32io_extension = run_extension
     [builder_add_executor HintStoreEx (all_opcodes hint_store_offset hint_store_opcodes)]"

definition rv32m_extension :: "('f, 'd, 'r) extension" where
  "rv32m_extension = run_extension
     [builder_add_executor MultiplicationEx (all_opcodes mul_offset [MUL]),
      builder_add_executor MultiplicationHighEx (all_opcodes mulh_offset mulh_opcodes),
      builder_add_executor DivRemEx (all_opcodes divrem_offset divrem_opcodes)]"

text \<open>The inventory of \<open>Rv32ImConfig\<close>: the system, then the fields of the configuration in order.\<close>

fun extend_all ::
  "('f, 'd, 'r) extension list \<Rightarrow> executor_inventory_error + ('f, 'd, 'r) vm_executor executor_inventory
    \<Rightarrow> (executor_inventory_error + ('f, 'd, 'r) vm_executor executor_inventory) option" where
  "extend_all [] invt = Some invt"
| "extend_all (ext # exts) (Inl err) = Some (Inl err)"
| "extend_all (ext # exts) (Inr invt) =
     (case extend_inventory ext invt of None \<Rightarrow> None | Some invt \<Rightarrow> extend_all exts invt)"

definition rv32im_create_executors ::
  "'r host \<Rightarrow> (executor_inventory_error + ('f::field, 'd, 'r) vm_executor executor_inventory) option" where
  "rv32im_create_executors h =
     extend_all [rv32i_extension h, rv32io_extension, rv32m_extension] create_executors"

end
