(* ===== verification/Interpreter.thy ===== *)
theory Interpreter
  imports Inventory "HOL-Library.Log_Nat"
begin

text \<open>
  The interpreter of \<open>crates/vm/src/arch/interpreter.rs\<close> for pure (E1) and metered (E2) execution:
  the table of precomputed instructions, the buffer that holds their data, the trampoline, and
  the entry points \<open>execute_from_state\<close>, \<open>execute_metered_from_state\<close> and
  \<open>execute_metered_cost_from_state\<close>. The buffer is its layout: the data of an entry of the table
  is part of its handler.
\<close>

section \<open>The precompute buffer\<close>

definition get_pc_index :: "u32 \<Rightarrow> nat" where
  "get_pc_index pc = unat (pc div word_of_nat DEFAULT_PC_STEP)"

definition next_power_of_two :: "nat \<Rightarrow> nat" where
  "next_power_of_two n = (if n \<le> 1 then 1 else 2 ^ floorlog 2 (n - 1))"

definition executor_layout :: "bool \<Rightarrow> ('f, 'd, 'r) vm_executor \<Rightarrow> layout" where
  "executor_layout metered ex = (if metered then e2_layout (pre_compute_layout ex) else pre_compute_layout ex)"

definition system_opcode_layout :: "'f instr \<Rightarrow> layout option" where
  "system_opcode_layout inst = (if i_opcode inst = TERMINATE_OPCODE then Some (repr_c [(4, 4)]) else None)"

text \<open>The data an entry of the table needs; \<open>None\<close> is the panic of \<open>unwrap\<close> when no executor has the opcode.\<close>

definition insn_layout ::
  "bool \<Rightarrow> ('f, 'd, 'r) vm_executor executor_inventory \<Rightarrow> 'f instr option \<Rightarrow> layout option" where
  "insn_layout metered invt inst_opt =
     (case inst_opt of
        None \<Rightarrow> Some (0, 1)
      | Some inst \<Rightarrow>
          (case system_opcode_layout inst of
             Some l \<Rightarrow> Some l
           | None \<Rightarrow> map_option (executor_layout metered) (get_executor invt (i_opcode inst))))"

definition get_pre_compute_max_size ::
  "bool \<Rightarrow> 'f program \<Rightarrow> ('f, 'd, 'r) vm_executor executor_inventory \<Rightarrow> nat option" where
  "get_pre_compute_max_size metered program invt =
     (case those (map (insn_layout metered invt) (p_instructions program)) of
        None \<Rightarrow> None
      | Some ls \<Rightarrow> if ls = [] then None else Some (next_power_of_two (fold max (map fst ls) 0)))"

definition padded_program_len :: "'f program \<Rightarrow> nat" where
  "padded_program_len program = get_pc_index (p_pc_base program) + length (p_instructions program)"

definition pre_compute_buf_len :: "'f program \<Rightarrow> nat \<Rightarrow> nat" where
  "pre_compute_buf_len program max_size = padded_program_len program * max_size"

text \<open>\<open>chunks_exact_mut\<close>: the start and the length of each chunk of the buffer.\<close>

definition split_pre_compute_buf :: "'f program \<Rightarrow> nat \<Rightarrow> (nat \<times> nat) list" where
  "split_pre_compute_buf program max_size =
     map (\<lambda>i. (i * max_size, max_size)) [0..<pre_compute_buf_len program max_size div max_size]"

section \<open>The table\<close>

definition terminate_execute_e12 :: "'c ctx_ops \<Rightarrow> u32 \<Rightarrow> ('f, 'd, 'r, 'c) handler" where
  "terminate_execute_e12 ops exit_code s = do {
     let s = s\<lparr>es_exit_code := Inr (Some exit_code)\<rparr>;
     ctx \<leftarrow> ctx_on_terminate ops (es_ctx s);
     Some (s\<lparr>es_ctx := ctx\<rparr>)
   }"

definition unreachable_handler :: "('f, 'd, 'r, 'c) handler" where
  "unreachable_handler s = Some (s\<lparr>es_exit_code := Inl (Unreachable (get_pc s))\<rparr>)"

definition get_system_opcode_handler ::
  "('f \<Rightarrow> nat) \<Rightarrow> 'c ctx_ops \<Rightarrow> 'f instr \<Rightarrow> ('f, 'd, 'r, 'c) handler option" where
  "get_system_opcode_handler canon ops inst =
     (if i_opcode inst = TERMINATE_OPCODE then Some (terminate_execute_e12 ops (cu32 canon (i_c inst)))
      else None)"

definition pre_compute_instruction ::
  "('f::field \<Rightarrow> nat) \<Rightarrow> 'c ctx_ops \<Rightarrow> ('f, 'd, 'r) vm_executor executor_inventory \<Rightarrow> nat
    \<Rightarrow> 'f instr option \<Rightarrow> ('f, 'd, 'r, 'c) handler pre_compute_result" where
  "pre_compute_instruction canon ops invt i inst_opt =
     (case inst_opt of
        None \<Rightarrow> Some (Inr unreachable_handler)
      | Some inst \<Rightarrow>
          let pc = word_of_nat i * word_of_nat DEFAULT_PC_STEP in
          (case get_system_opcode_handler canon ops inst of
             Some h \<Rightarrow> Some (Inr h)
           | None \<Rightarrow>
               (case get_executor invt (i_opcode inst) of
                  Some ex \<Rightarrow> executor_pre_compute canon ops ex pc inst
                | None \<Rightarrow> Some (Inl (StaticDisabledOperation pc (i_opcode inst))))))"

text \<open>The metered table adds \<open>pc_base\<close> to an index that already counts the padding below it.\<close>

definition metered_pre_compute_instruction ::
  "('f::field \<Rightarrow> nat) \<Rightarrow> 'c ctx_ops \<Rightarrow> ('f, 'd, 'r) vm_executor executor_inventory \<Rightarrow> nat list \<Rightarrow> u32 \<Rightarrow> nat
    \<Rightarrow> 'f instr option \<Rightarrow> ('f, 'd, 'r, 'c) handler pre_compute_result" where
  "metered_pre_compute_instruction canon ops invt air_idx pc_base i inst_opt =
     (case inst_opt of
        None \<Rightarrow> Some (Inr unreachable_handler)
      | Some inst \<Rightarrow>
          let pc = pc_base + word_of_nat i * word_of_nat DEFAULT_PC_STEP in
          (case get_system_opcode_handler canon ops inst of
             Some h \<Rightarrow> Some (Inr h)
           | None \<Rightarrow>
               (case map_of (instruction_lookup invt) (i_opcode inst) of
                  Some executor_idx \<Rightarrow>
                    if executor_idx < length (executors invt) \<and> executor_idx < length air_idx
                    then executor_metered_pre_compute canon ops (executors invt ! executor_idx)
                      (air_idx ! executor_idx) pc inst
                    else None
                | None \<Rightarrow> Some (Inl (StaticDisabledOperation pc (i_opcode inst))))))"

text \<open>Collecting the results stops at the first error, and at the first panic.\<close>

fun collect_table :: "(nat \<Rightarrow> 'i \<Rightarrow> 'h pre_compute_result) \<Rightarrow> nat \<Rightarrow> 'i list \<Rightarrow> 'h list pre_compute_result" where
  "collect_table f i [] = Some (Inr [])"
| "collect_table f i (x # xs) =
     (case f i x of
        None \<Rightarrow> None
      | Some (Inl err) \<Rightarrow> Some (Inl err)
      | Some (Inr h) \<Rightarrow> map_pre ((#) h) (collect_table f (Suc i) xs))"

definition padded_program :: "'f program \<Rightarrow> 'f instr option list" where
  "padded_program program =
     replicate (get_pc_index (p_pc_base program)) None @ p_instructions program"

definition get_pre_compute_instructions ::
  "('f::field \<Rightarrow> nat) \<Rightarrow> 'c ctx_ops \<Rightarrow> 'f program \<Rightarrow> ('f, 'd, 'r) vm_executor executor_inventory
    \<Rightarrow> ('f, 'd, 'r, 'c) handler list pre_compute_result" where
  "get_pre_compute_instructions canon ops program invt =
     collect_table (pre_compute_instruction canon ops invt) 0 (padded_program program)"

definition get_metered_pre_compute_instructions ::
  "('f::field \<Rightarrow> nat) \<Rightarrow> 'c ctx_ops \<Rightarrow> 'f program \<Rightarrow> ('f, 'd, 'r) vm_executor executor_inventory \<Rightarrow> nat list
    \<Rightarrow> ('f, 'd, 'r, 'c) handler list pre_compute_result" where
  "get_metered_pre_compute_instructions canon ops program invt air_idx =
     collect_table (metered_pre_compute_instruction canon ops invt air_idx (p_pc_base program)) 0
       (padded_program program)"

record ('f, 'd, 'r, 'c) interpreted_instance =
  ii_pre_compute_insns :: "('f, 'd, 'r, 'c) handler list"
  ii_pc_start :: u32
  ii_init_memory :: sparse_memory_image

definition instance_of ::
  "('f, 'b) vm_exe \<Rightarrow> ('f, 'd, 'r, 'c) handler list \<Rightarrow> ('f, 'd, 'r, 'c) interpreted_instance" where
  "instance_of exe insns =
     \<lparr>ii_pre_compute_insns = insns, ii_pc_start = exe_pc_start exe, ii_init_memory = exe_init_memory exe\<rparr>"

definition interpreter_new ::
  "('f::field \<Rightarrow> nat) \<Rightarrow> 'c ctx_ops \<Rightarrow> ('f, 'd, 'r) vm_executor executor_inventory \<Rightarrow> ('f, 'b) vm_exe
    \<Rightarrow> ('f, 'd, 'r, 'c) interpreted_instance pre_compute_result" where
  "interpreter_new canon ops invt exe = do {
     max_size \<leftarrow> get_pre_compute_max_size False (exe_program exe) invt;
     map_pre (instance_of exe) (get_pre_compute_instructions canon ops (exe_program exe) invt)
   }"

definition interpreter_new_metered ::
  "('f::field \<Rightarrow> nat) \<Rightarrow> 'c ctx_ops \<Rightarrow> ('f, 'd, 'r) vm_executor executor_inventory \<Rightarrow> nat list
    \<Rightarrow> ('f, 'b) vm_exe \<Rightarrow> ('f, 'd, 'r, 'c) interpreted_instance pre_compute_result" where
  "interpreter_new_metered canon ops invt air_idx exe = do {
     max_size \<leftarrow> get_pre_compute_max_size True (exe_program exe) invt;
     map_pre (instance_of exe) (get_metered_pre_compute_instructions canon ops (exe_program exe) invt air_idx)
   }"

section \<open>The trampoline\<close>

text \<open>A run that returns has either panicked or is done. A run that does not return is \<open>None\<close>.\<close>

datatype 'a outcome = Panicked | Done 'a

partial_function (option) execute_trampoline ::
  "'c ctx_ops \<Rightarrow> ('f, 'd, 'r, 'c) handler list \<Rightarrow> ('f, 'd, 'r, 'c) vm_exec_state
    \<Rightarrow> ('f, 'd, 'r, 'c) vm_exec_state outcome option" where
  "execute_trampoline ops fn_ptrs s =
     (if es_exit_code s = Inr None then
        (case ctx_should_suspend ops (es_ctx s) of
           None \<Rightarrow> Some Panicked
         | Some (suspend, ctx) \<Rightarrow>
             if suspend then Some (Done (s\<lparr>es_ctx := ctx\<rparr>))
             else let s = s\<lparr>es_ctx := ctx\<rparr>; pc = get_pc s; pc_index = get_pc_index pc in
               if pc_index < length fn_ptrs then
                 (case (fn_ptrs ! pc_index) s of
                    None \<Rightarrow> Some Panicked
                  | Some s \<Rightarrow> execute_trampoline ops fn_ptrs s)
               else execute_trampoline ops fn_ptrs (s\<lparr>es_exit_code := Inl (PcOutOfBounds pc)\<rparr>))
      else Some (Done s))"

definition check_exit_code :: "vm_execution_error + u32 option \<Rightarrow> vm_execution_error + unit" where
  "check_exit_code exit_code =
     (case exit_code of
        Inl err \<Rightarrow> Inl err
      | Inr None \<Rightarrow> Inr ()
      | Inr (Some code) \<Rightarrow> if code \<noteq> 0 then Inl (FailedWithExitCode code) else Inr ())"

definition check_termination :: "vm_execution_error + u32 option \<Rightarrow> vm_execution_error + unit" where
  "check_termination exit_code =
     (let did_terminate = (case exit_code of Inr (Some _) \<Rightarrow> True | _ \<Rightarrow> False) in
      case check_exit_code exit_code of
        Inl err \<Rightarrow> Inl err
      | Inr _ \<Rightarrow> if did_terminate then Inr () else Inl DidNotTerminate)"

text \<open>The entry points; an outer \<open>None\<close> is a run that does not return.\<close>

definition execute_from_state ::
  "('f, 'd, 'r, execution_ctx) interpreted_instance \<Rightarrow> ('f, 'd, 'r) vm_state \<Rightarrow> 64 word option
    \<Rightarrow> (vm_execution_error + ('f, 'd, 'r) vm_state) outcome option" where
  "execute_from_state ii from_state num_insns =
     map_option (\<lambda>out. case out of
         Panicked \<Rightarrow> Panicked
       | Done s \<Rightarrow> Done (map_sum id (\<lambda>_. es_vm_state s)
           (if num_insns \<noteq> None then check_exit_code (es_exit_code s)
            else check_termination (es_exit_code s))))
       (execute_trampoline execution_ctx_ops (ii_pre_compute_insns ii)
         (vm_exec_state_new from_state (execution_ctx_new num_insns)))"

definition execute ::
  "'r \<Rightarrow> addr_space_config list \<Rightarrow> ('f, 'd, 'r, execution_ctx) interpreted_instance \<Rightarrow> 'f list list
    \<Rightarrow> 64 word option \<Rightarrow> (vm_execution_error + ('f, 'd, 'r) vm_state) outcome option" where
  "execute rng config ii inputs num_insns =
     (case vm_state_initial rng config (ii_init_memory ii) (ii_pc_start ii) inputs of
        None \<Rightarrow> Some Panicked
      | Some vm_state \<Rightarrow> execute_from_state ii vm_state num_insns)"

definition execute_metered_cost_from_state ::
  "('f, 'd, 'r, metered_cost_ctx) interpreted_instance \<Rightarrow> ('f, 'd, 'r) vm_state \<Rightarrow> metered_cost_ctx
    \<Rightarrow> (vm_execution_error + metered_cost_ctx \<times> ('f, 'd, 'r) vm_state) outcome option" where
  "execute_metered_cost_from_state ii from_state ctx =
     map_option (\<lambda>out. case out of
         Panicked \<Rightarrow> Panicked
       | Done s \<Rightarrow> Done (map_sum id (\<lambda>_. (es_ctx s, es_vm_state s)) (check_exit_code (es_exit_code s))))
       (execute_trampoline metered_cost_ops (ii_pre_compute_insns ii) (vm_exec_state_new from_state ctx))"

text \<open>Segmented execution, for any context: it resumes after every suspension until the guest stops.\<close>

partial_function (option) execute_metered_loop ::
  "'c ctx_ops \<Rightarrow> ('f, 'd, 'r, 'c) handler list \<Rightarrow> ('f, 'd, 'r, 'c) vm_exec_state
    \<Rightarrow> (vm_execution_error + ('f, 'd, 'r, 'c) vm_exec_state) outcome option" where
  "execute_metered_loop ops fn_ptrs s =
     (case execute_trampoline ops fn_ptrs s of
        None \<Rightarrow> None
      | Some Panicked \<Rightarrow> Some Panicked
      | Some (Done s) \<Rightarrow>
          (case es_exit_code s of
             Inr (Some _) \<Rightarrow> Some (Done (Inr s))
           | Inl err \<Rightarrow> Some (Done (Inl err))
           | Inr None \<Rightarrow> execute_metered_loop ops fn_ptrs s))"

definition execute_metered_from_state ::
  "'c ctx_ops \<Rightarrow> ('f, 'd, 'r, 'c) interpreted_instance \<Rightarrow> ('f, 'd, 'r) vm_state \<Rightarrow> 'c
    \<Rightarrow> (vm_execution_error + 'c \<times> ('f, 'd, 'r) vm_state) outcome option" where
  "execute_metered_from_state ops ii from_state ctx =
     map_option (\<lambda>out. case out of
         Panicked \<Rightarrow> Panicked
       | Done (Inl err) \<Rightarrow> Done (Inl err)
       | Done (Inr s) \<Rightarrow> Done (map_sum id (\<lambda>_. (es_ctx s, es_vm_state s)) (check_termination (es_exit_code s))))
       (execute_metered_loop ops (ii_pre_compute_insns ii) (vm_exec_state_new from_state ctx))"

end
