(* ===== verification/Ctx_Sim.thy ===== *)
theory Ctx_Sim
  imports Interpreter
begin

text \<open>
  Handlers under two execution contexts. The locale \<open>ctx_sim\<close> relates the contexts of two runs;
  every handler of an executor then keeps the relation, and the virtual machines stay equal. Its
  instances give that pure execution does not touch its counter and that metered execution does
  what pure execution does.
\<close>

section \<open>Simulation of partial results\<close>

definition opt_sim :: "('a \<Rightarrow> 'b \<Rightarrow> bool) \<Rightarrow> 'a option \<Rightarrow> 'b option \<Rightarrow> bool" where
  "opt_sim R x y \<longleftrightarrow> (\<forall>a. x = Some a \<longrightarrow> (\<exists>b. y = Some b \<and> R a b))"

named_theorems sim_intros "introduction rules of simulations"

lemma opt_sim_Some [sim_intros]: "R a b \<Longrightarrow> opt_sim R (Some a) (Some b)"
  by (simp add: opt_sim_def)

lemma opt_sim_None [sim_intros]: "opt_sim R None y"
  by (simp add: opt_sim_def)

lemma opt_sim_bind:
  assumes "opt_sim R x y" "\<And>a b. R a b \<Longrightarrow> opt_sim R' (f a) (g b)"
  shows "opt_sim R' (x \<bind> f) (y \<bind> g)"
  using assms by (auto simp: opt_sim_def bind_eq_Some_conv)

lemma opt_sim_bind_pair [sim_intros]:
  assumes "opt_sim (rel_prod (=) R) x y" "\<And>v s t. R s t \<Longrightarrow> opt_sim R' (f v s) (g v t)"
  shows "opt_sim R' (x \<bind> (\<lambda>(v, s). f v s)) (y \<bind> (\<lambda>(v, s). g v s))"
  by (rule opt_sim_bind [OF assms(1)]) (auto intro: assms(2))

lemma opt_sim_if [sim_intros]:
  "(b \<Longrightarrow> opt_sim R x y) \<Longrightarrow> (\<not> b \<Longrightarrow> opt_sim R x' y') \<Longrightarrow>
   opt_sim R (if b then x else x') (if b then y else y')"
  by simp

lemma opt_sim_bind_same [sim_intros]:
  "(\<And>v. opt_sim R (f v) (g v)) \<Longrightarrow> opt_sim R (x \<bind> f) (x \<bind> g)"
  by (auto simp: opt_sim_def bind_eq_Some_conv)

lemma opt_sim_case_option [sim_intros]:
  "opt_sim R a b \<Longrightarrow> (\<And>v. opt_sim R (f v) (g v)) \<Longrightarrow>
   opt_sim R (case x of None \<Rightarrow> a | Some v \<Rightarrow> f v) (case x of None \<Rightarrow> b | Some v \<Rightarrow> g v)"
  by (cases x) auto

lemma opt_sim_case_sum [sim_intros]:
  "(\<And>e. opt_sim R (f e) (g e)) \<Longrightarrow> (\<And>v. opt_sim R (f' v) (g' v)) \<Longrightarrow>
   opt_sim R (case x of Inl e \<Rightarrow> f e | Inr v \<Rightarrow> f' v) (case x of Inl e \<Rightarrow> g e | Inr v \<Rightarrow> g' v)"
  by (cases x) auto

lemma opt_sim_map:
  "opt_sim R x y \<Longrightarrow> (\<And>a b. R a b \<Longrightarrow> R' (f a) (g b)) \<Longrightarrow> opt_sim R' (map_option f x) (map_option g y)"
  by (auto simp: opt_sim_def)

text \<open>Results of \<open>pre_compute\<close>: related errors or related values.\<close>

abbreviation pre_rel ::
  "(static_program_error \<Rightarrow> static_program_error \<Rightarrow> bool) \<Rightarrow> ('a \<Rightarrow> 'b \<Rightarrow> bool)
    \<Rightarrow> 'a pre_compute_result \<Rightarrow> 'b pre_compute_result \<Rightarrow> bool" where
  "pre_rel E R \<equiv> rel_option (rel_sum E R)"

lemma map_pre_rel:
  assumes "pre_rel E A x y" "\<And>a b. A a b \<Longrightarrow> R (f a) (g b)"
  shows "pre_rel E R (map_pre f x) (map_pre g y)"
  using assms by (auto simp: map_pre_def elim!: option.rel_cases rel_sum.cases)

section \<open>Related contexts\<close>

locale ctx_sim =
  fixes ops1 :: "'c1 ctx_ops" and ops2 :: "'c2 ctx_ops" and RC :: "'c1 \<Rightarrow> 'c2 \<Rightarrow> bool"
  assumes mem_op: "RC c1 c2 \<Longrightarrow>
    opt_sim RC (on_memory_operation ops1 a p n c1) (on_memory_operation ops2 a p n c2)"
    and on_term: "RC c1 c2 \<Longrightarrow> opt_sim RC (ctx_on_terminate ops1 c1) (ctx_on_terminate ops2 c2)"
begin

definition st_rel :: "('f, 'd, 'r, 'c1) vm_exec_state \<Rightarrow> ('f, 'd, 'r, 'c2) vm_exec_state \<Rightarrow> bool" where
  "st_rel s t \<longleftrightarrow> es_vm_state s = es_vm_state t \<and> es_exit_code s = es_exit_code t \<and> RC (es_ctx s) (es_ctx t)"

definition handler_rel :: "('f, 'd, 'r, 'c1) handler \<Rightarrow> ('f, 'd, 'r, 'c2) handler \<Rightarrow> bool" where
  "handler_rel h h' \<longleftrightarrow> (\<forall>s t. st_rel s t \<longrightarrow> opt_sim st_rel (h s) (h' t))"

lemma handler_relI: "(\<And>s t. st_rel s t \<Longrightarrow> opt_sim st_rel (h s) (h' t)) \<Longrightarrow> handler_rel h h'"
  by (simp add: handler_rel_def)

lemma st_rel_pc: "st_rel s t \<Longrightarrow> get_pc s = get_pc t"
  by (simp add: st_rel_def get_pc_def)

lemma st_rel_vm: "st_rel s t \<Longrightarrow> es_vm_state s = es_vm_state t"
  by (simp add: st_rel_def)

lemma st_rel_set_pc [sim_intros]: "st_rel s t \<Longrightarrow> st_rel (set_pc pc s) (set_pc pc t)"
  by (simp add: st_rel_def set_pc_def)

lemma st_rel_step_pc [sim_intros]: "st_rel s t \<Longrightarrow> st_rel (step_pc s) (step_pc t)"
  by (simp add: step_pc_def st_rel_pc st_rel_set_pc)

lemma sim_host_read: "st_rel s t \<Longrightarrow> host_read n a p s = host_read n a p t"
  by (simp add: st_rel_def host_read_def)

lemma sim_bind_host_read [sim_intros]:
  "st_rel s t \<Longrightarrow> (\<And>v. opt_sim R (f v) (g v)) \<Longrightarrow>
   opt_sim R ((if b then host_read n a p s else x) \<bind> f) ((if b then host_read n a p t else x) \<bind> g)"
  unfolding sim_host_read by (rule opt_sim_bind_same)

lemma sim_vm_read [sim_intros]:
  assumes "st_rel s t" shows "opt_sim (rel_prod (=) st_rel) (vm_read ops1 n a p s) (vm_read ops2 n a p t)"
  unfolding vm_read_def Let_def
  by (rule opt_sim_bind [OF mem_op])
    (use assms in \<open>auto simp: st_rel_def host_read_def opt_sim_def bind_eq_Some_conv\<close>)

lemma sim_vm_write [sim_intros]:
  assumes "st_rel s t" shows "opt_sim st_rel (vm_write ops1 a p d s) (vm_write ops2 a p d t)"
  unfolding vm_write_def
  by (rule opt_sim_bind [OF mem_op])
    (use assms in \<open>auto simp: st_rel_def host_write_def opt_sim_def\<close>)

lemma sim_read_reg [sim_intros]:
  "st_rel s t \<Longrightarrow> opt_sim (rel_prod (=) st_rel) (read_reg ops1 p s) (read_reg ops2 p t)"
  unfolding read_reg_def by (rule sim_vm_read)

lemma sim_write_reg [sim_intros]:
  "st_rel s t \<Longrightarrow> opt_sim st_rel (write_reg ops1 p d s) (write_reg ops2 p d t)"
  unfolding write_reg_def by (rule sim_vm_write)

lemma sim_Pair [sim_intros]: "st_rel s t \<Longrightarrow> rel_prod (=) st_rel (v, s) (v, t)"
  by simp

lemma sim_bind [sim_intros]:
  "opt_sim st_rel x y \<Longrightarrow> (\<And>s t. st_rel s t \<Longrightarrow> opt_sim R (f s) (g t)) \<Longrightarrow> opt_sim R (x \<bind> f) (y \<bind> g)"
  by (rule opt_sim_bind)

lemma sim_bind_pair [sim_intros]:
  assumes "opt_sim (rel_prod (=) st_rel) x y" "\<And>v s t. st_rel s t \<Longrightarrow> opt_sim R (f v s) (g v t)"
  shows "opt_sim R (x \<bind> (\<lambda>(v, s). f v s)) (y \<bind> (\<lambda>(v, s). g v s))"
  using assms by (rule opt_sim_bind_pair)

lemma sim_base_alu: "handler_rel (base_alu_execute_e12 ops1 b op p) (base_alu_execute_e12 ops2 b op p)"
  by (rule handler_relI) (simp only: base_alu_execute_e12_def Let_def, intro sim_intros)

lemma sim_shift: "handler_rel (shift_execute_e12 ops1 x) (shift_execute_e12 ops2 x)"
  by (cases x, rule handler_relI) (simp only: shift_execute_e12_def Let_def prod.case, intro sim_intros)

lemma sim_less_than: "handler_rel (less_than_execute_e12 ops1 x) (less_than_execute_e12 ops2 x)"
  by (cases x, rule handler_relI) (simp only: less_than_execute_e12_def Let_def prod.case, intro sim_intros)

lemma sim_branch_eq: "handler_rel (branch_eq_execute_e12 ops1 x) (branch_eq_execute_e12 ops2 x)"
  by (cases x, rule handler_relI)
    (simp only: branch_eq_execute_e12_def Let_def prod.case st_rel_pc, intro sim_intros)

lemma sim_branch_lt: "handler_rel (branch_lt_execute_e12 ops1 x) (branch_lt_execute_e12 ops2 x)"
  by (cases x, rule handler_relI)
    (simp only: branch_lt_execute_e12_def Let_def prod.case st_rel_pc, intro sim_intros)

lemma sim_jal_lui: "handler_rel (jal_lui_execute_e12 ops1 x) (jal_lui_execute_e12 ops2 x)"
  by (cases x, rule handler_relI)
    (simp only: jal_lui_execute_e12_def Let_def prod.case case_prod_beta st_rel_pc, intro sim_intros)

lemma sim_jalr: "handler_rel (jalr_execute_e12 ops1 x) (jalr_execute_e12 ops2 x)"
  by (cases x, rule handler_relI)
    (simp only: jalr_execute_e12_def Let_def prod.case st_rel_pc, intro sim_intros)

lemma sim_auipc: "handler_rel (auipc_execute_e12 ops1 p) (auipc_execute_e12 ops2 p)"
  by (rule handler_relI) (simp only: auipc_execute_e12_def Let_def st_rel_pc, intro sim_intros)

lemma sim_mul: "handler_rel (mul_execute_e12 ops1 p) (mul_execute_e12 ops2 p)"
  by (rule handler_relI) (simp only: mul_execute_e12_def Let_def, intro sim_intros)

lemma sim_mulh: "handler_rel (mulh_execute_e12 ops1 x) (mulh_execute_e12 ops2 x)"
  by (cases x, rule handler_relI) (simp only: mulh_execute_e12_def Let_def prod.case, intro sim_intros)

lemma sim_divrem: "handler_rel (divrem_execute_e12 ops1 x) (divrem_execute_e12 ops2 x)"
  by (cases x, rule handler_relI) (simp only: divrem_execute_e12_def Let_def prod.case, intro sim_intros)

lemma sim_create_handler:
  assumes "\<And>s t. st_rel s t \<Longrightarrow> opt_sim (rel_prod (=) st_rel) (f s) (g t)"
  shows "handler_rel (create_handler f) (create_handler g)"
  unfolding create_handler_def
  by (intro handler_relI sim_bind_pair assms) (auto simp: opt_sim_def st_rel_def split: sum.split)

lemma sim_load_store:
  "handler_rel (create_handler (load_store_execute_e12 ops1 x)) (create_handler (load_store_execute_e12 ops2 x))"
  by (cases x, rule sim_create_handler)
    (simp only: load_store_execute_e12_def Let_def prod.case st_rel_pc, intro sim_intros)

lemma sim_load_sign_extend:
  "handler_rel (create_handler (load_sign_extend_execute_e12 ops1 x))
     (create_handler (load_sign_extend_execute_e12 ops2 x))"
  by (cases x, rule sim_create_handler)
    (simp only: load_sign_extend_execute_e12_def Let_def prod.case st_rel_pc, intro sim_intros)

lemma sim_if_hints [sim_intros]:
  "st_rel s t \<Longrightarrow> opt_sim R x y \<Longrightarrow> opt_sim R x' y' \<Longrightarrow>
   opt_sim R (if length (hint_stream (vs_streams (es_vm_state s))) < n then x else x')
     (if length (hint_stream (vs_streams (es_vm_state t))) < n then y else y')"
  by (simp add: st_rel_def)

lemma sim_pop_hint_word [sim_intros]:
  "st_rel s t \<Longrightarrow> opt_sim (rel_prod (=) st_rel) (pop_hint_word canon s) (pop_hint_word canon t)"
  by (simp add: st_rel_def pop_hint_word_def Let_def opt_sim_def)

lemma sim_hint_store_words [sim_intros]:
  "st_rel s t \<Longrightarrow>
   opt_sim st_rel (hint_store_words canon ops1 mem_ptr i n s) (hint_store_words canon ops2 mem_ptr i n t)"
proof (induction n arbitrary: i s t)
  case 0
  then show ?case by (simp add: opt_sim_Some)
next
  case (Suc n)
  show ?case
    unfolding hint_store_words.simps by (intro sim_bind_pair sim_bind sim_pop_hint_word sim_vm_write Suc)
qed

lemma sim_hint_store_e12:
  "st_rel s t \<Longrightarrow> opt_sim (rel_prod (=) st_rel)
    (hint_store_execute_e12 canon ops1 x s) (hint_store_execute_e12 canon ops2 x t)"
  by (cases x) (simp only: hint_store_execute_e12_def Let_def prod.case st_rel_pc, intro sim_intros)

lemma sim_hint_store:
  "handler_rel (create_handler (hint_store_execute_e1 canon ops1 x)) (create_handler (hint_store_execute_e1 canon ops2 x))"
  by (rule sim_create_handler, unfold hint_store_execute_e1_def, erule opt_sim_map [OF sim_hint_store_e12]) auto

lemma sim_phantom: "handler_rel (create_handler (phantom_execute_e12 p)) (create_handler (phantom_execute_e12 p))"
proof (rule sim_create_handler)
  fix s :: "('a, 'b, 'c, 'c1) vm_exec_state" and t :: "('a, 'b, 'c, 'c2) vm_exec_state"
  assume st: "st_rel s t"
  show "opt_sim (rel_prod (=) st_rel) (phantom_execute_e12 p s) (phantom_execute_e12 p t)"
    unfolding phantom_execute_e12_def Let_def st_rel_pc [OF st] st_rel_vm [OF st]
    by (intro opt_sim_if opt_sim_Some sim_Pair st opt_sim_bind_same)
      (use st in \<open>auto simp: opt_sim_def st_rel_def set_pc_def split: sum.split\<close>)
qed

lemma sim_executor:
  "pre_rel (=) handler_rel (executor_pre_compute canon ops1 ex pc inst) (executor_pre_compute canon ops2 ex pc inst)"
proof -
  have refl: "pre_rel (=) (=) x x" for x :: "'x pre_compute_result"
    by (simp add: option.rel_refl sum.rel_refl)
  note m = map_pre_rel [OF refl]
  show ?thesis
  proof (cases ex)
    case (PhantomEx phantoms)
    then show ?thesis
      by (cases "phantom_pre_compute_impl canon phantoms inst")
        (simp_all add: executor_pre_compute_def phantom_pre_compute_def sim_phantom)
  next
    case BaseAluEx
    then show ?thesis
      by (auto simp: executor_pre_compute_def base_alu_pre_compute_def base_alu_dispatch_def sim_base_alu
          split: option.split sum.split)
  qed (simp_all add: executor_pre_compute_def shift_pre_compute_def less_than_pre_compute_def
      branch_eq_pre_compute_def branch_lt_pre_compute_def jal_lui_pre_compute_def jalr_pre_compute_def
      auipc_pre_compute_def mul_pre_compute_def mulh_pre_compute_def divrem_pre_compute_def
      load_store_pre_compute_def load_sign_extend_pre_compute_def hint_store_pre_compute_def
      m sim_shift sim_less_than sim_branch_eq sim_branch_lt sim_jal_lui sim_jalr sim_auipc sim_mul sim_mulh
      sim_divrem sim_load_store sim_load_sign_extend sim_hint_store)
qed

lemma sim_terminate: "handler_rel (terminate_execute_e12 ops1 c) (terminate_execute_e12 ops2 c)"
  unfolding terminate_execute_e12_def Let_def
  by (rule handler_relI, rule opt_sim_bind, rule on_term) (auto simp: st_rel_def opt_sim_def)

lemma sim_unreachable: "handler_rel unreachable_handler unreachable_handler"
  by (rule handler_relI) (auto simp: unreachable_handler_def opt_sim_def st_rel_def get_pc_def)

lemma sim_pre_compute_instruction:
  "pre_rel (=) handler_rel (pre_compute_instruction canon ops1 invt i io) (pre_compute_instruction canon ops2 invt i io)"
  by (auto simp: pre_compute_instruction_def Let_def get_system_opcode_handler_def sim_terminate
      sim_unreachable sim_executor split: option.split)

end

section \<open>Metered handlers\<close>

text \<open>The address in an instruction's precomputation only shows in its error.\<close>

lemma pre_compute_pc:
  "pre_rel (\<lambda>_ _. True) (=) (executor_pre_compute canon ops ex pc inst) (executor_pre_compute canon ops ex pc' inst)"
proof -
  note m = map_pre_rel [where A = "(=)" and R = "(=)"]
  show ?thesis
  proof (cases ex)
    case BaseAluEx
    then show ?thesis
      by (simp add: executor_pre_compute_def base_alu_pre_compute_def base_alu_dispatch_def
          base_alu_pre_compute_impl_def Let_def option.rel_refl sum.rel_refl)
  qed (auto simp: executor_pre_compute_def phantom_pre_compute_def
      shift_pre_compute_def less_than_pre_compute_def branch_eq_pre_compute_def branch_lt_pre_compute_def
      jal_lui_pre_compute_def jalr_pre_compute_def auipc_pre_compute_def mul_pre_compute_def
      mulh_pre_compute_def divrem_pre_compute_def load_store_pre_compute_def
      load_sign_extend_pre_compute_def hint_store_pre_compute_def shift_pre_compute_impl_def
      less_than_pre_compute_impl_def branch_eq_pre_compute_impl_def branch_lt_pre_compute_impl_def
      jalr_pre_compute_impl_def auipc_pre_compute_impl_def mul_pre_compute_impl_def
      divrem_pre_compute_impl_def load_store_pre_compute_impl_def load_sign_extend_pre_compute_impl_def
      hint_store_pre_compute_impl_def Let_def option.rel_refl sum.rel_refl bind_eq_Some_conv intro!: m
      split: Option.bind_split)
qed

locale metered_sim = ctx_sim ops1 ops2 RC
  for ops1 :: "'c1 ctx_ops" and ops2 :: "'c2 ctx_ops" and RC +
  assumes height: "RC c1 c2 \<Longrightarrow> on_height_change ops1 i n c1 = Some c1' \<Longrightarrow> RC c1' c2"
    and suspend: "RC c1 c2 \<Longrightarrow> ctx_should_suspend ops1 c1 = Some (b, c1') \<Longrightarrow> RC c1' c2"
begin

lemma sim_add_row: "st_rel s t \<Longrightarrow> add_row ops1 i n s = Some s' \<Longrightarrow> st_rel s' t"
  using height by (auto simp: add_row_def st_rel_def)

lemma sim_e2: "handler_rel h h' \<Longrightarrow> handler_rel (execute_e2 ops1 chip_idx h) h'"
proof (rule handler_relI)
  fix s :: "('a, 'b, 'c, 'c1) vm_exec_state" and t :: "('a, 'b, 'c, 'c2) vm_exec_state"
  assume h: "handler_rel h h'" and st: "st_rel s t"
  show "opt_sim st_rel (execute_e2 ops1 chip_idx h s) (h' t)"
  proof (cases "add_row ops1 (as_chip_idx chip_idx) 1 s")
    case (Some s')
    then show ?thesis using h sim_add_row [OF st Some] by (simp add: execute_e2_def handler_rel_def)
  qed (simp add: execute_e2_def opt_sim_None)
qed

lemma sim_hint_store_e2:
  "handler_rel (create_handler (hint_store_execute_e2 canon ops1 chip_idx x))
     (create_handler (hint_store_execute_e1 canon ops2 x))"
proof (rule sim_create_handler)
  fix s :: "('a, 'b, 'c, 'c1) vm_exec_state" and t :: "('a, 'b, 'c, 'c2) vm_exec_state"
  assume "st_rel s t"
  note sim = sim_hint_store_e12 [OF this, of canon x]
  show "opt_sim (rel_prod (=) st_rel) (hint_store_execute_e2 canon ops1 chip_idx x s)
      (hint_store_execute_e1 canon ops2 x t)"
  proof (cases "hint_store_execute_e12 canon ops1 x s")
    case None
    then show ?thesis by (simp add: hint_store_execute_e2_def opt_sim_None)
  next
    case (Some r)
    obtain ret s1 where r: "r = (ret, s1)" by (cases r)
    from sim obtain t1 where t1: "hint_store_execute_e12 canon ops2 x t = Some (ret, t1)" "st_rel s1 t1"
      by (auto simp: opt_sim_def Some r)
    show ?thesis
      by (cases ret) (use t1 in \<open>auto simp: hint_store_execute_e2_def hint_store_execute_e1_def Some r
        opt_sim_def bind_eq_Some_conv dest: sim_add_row\<close>)
  qed
qed

lemma sim_metered_executor:
  "pre_rel (\<lambda>_ _. True) handler_rel (executor_metered_pre_compute canon ops1 ex chip_idx pc inst)
     (executor_pre_compute canon ops2 ex pc' inst)"
proof (cases "ex = HintStoreEx")
  case True
  have "pre_rel (\<lambda>_ _. True) (=) (hint_store_pre_compute_impl canon pc inst) (hint_store_pre_compute_impl canon pc' inst)"
    by (simp add: hint_store_pre_compute_impl_def option.rel_refl sum.rel_refl)
  then show ?thesis
    unfolding True executor_metered_pre_compute_def executor_pre_compute_def hint_store_pre_compute_def
      hint_store_metered_pre_compute_def
    by simp (erule map_pre_rel, simp add: sim_hint_store_e2)
next
  case False
  have "executor_metered_pre_compute canon ops1 ex chip_idx pc inst =
      map_pre (execute_e2 ops1 chip_idx) (executor_pre_compute canon ops1 ex pc inst)"
    using False
    by (cases ex) (simp_all add: executor_metered_pre_compute_def executor_pre_compute_def
      base_alu_metered_pre_compute_def shift_metered_pre_compute_def less_than_metered_pre_compute_def
      branch_eq_metered_pre_compute_def branch_lt_metered_pre_compute_def jal_lui_metered_pre_compute_def
      jalr_metered_pre_compute_def auipc_metered_pre_compute_def mul_metered_pre_compute_def
      mulh_metered_pre_compute_def divrem_metered_pre_compute_def load_store_metered_pre_compute_def
      load_sign_extend_metered_pre_compute_def phantom_metered_pre_compute_def)
  moreover have "pre_rel (\<lambda>_ _. True) handler_rel (map_pre (execute_e2 ops1 chip_idx) x) z"
    if "pre_rel (=) handler_rel x y" "pre_rel (\<lambda>_ _. True) (=) y z" for x y z
    using that by (auto simp: map_pre_def sim_e2 elim!: option.rel_cases rel_sum.cases)
  ultimately show ?thesis using sim_executor pre_compute_pc by metis
qed

end

end
