(* ===== verification/Interp_Run.thy ===== *)
theory Interp_Run
  imports Ctx_Sim
begin

text \<open>
  What the interpreter does: the table and its buffer, runs of the trampoline against a reference
  semantics that counts instructions, and metered runs against pure ones.
\<close>

section \<open>The buffer\<close>

lemma those_Some: "those xs = Some ys \<longleftrightarrow> xs = map Some ys"
proof (induction xs arbitrary: ys)
  case (Cons x xs)
  then show ?case by (cases x; cases ys) (auto split: option.splits)
qed auto

lemma next_power_of_two_bound: "n \<le> next_power_of_two n"
proof (cases "n \<le> 1")
  case False
  then have "n - 1 < 2 ^ floorlog 2 (n - 1)" using floorlog_bounds [of "n - 1" 2] by simp
  then show ?thesis using False by (simp add: next_power_of_two_def)
qed (simp add: next_power_of_two_def)

lemma next_power_of_two_pow: "\<exists>k. next_power_of_two n = 2 ^ k"
  by (auto simp: next_power_of_two_def intro: exI [of _ 0])

text \<open>A struct is at least as large as its alignment, which is a power of two.\<close>

definition layout_ok :: "layout \<Rightarrow> bool" where
  "layout_ok l \<longleftrightarrow> (fst l = 0 \<and> snd l = 1) \<or> (snd l \<le> fst l \<and> snd l \<in> {1, 4, 8})"

lemma executor_layout_ok: "layout_ok (executor_layout metered ex)"
  by (cases metered; cases ex)
    (simp_all add: layout_ok_def executor_layout_def e2_layout_def pre_compute_layout_def repr_c_def
      round_up_def div_ceil_def)

lemma insn_layout_ok: "insn_layout metered invt io = Some l \<Longrightarrow> layout_ok l"
  using executor_layout_ok [where metered = metered]
  by (auto simp: insn_layout_def system_opcode_layout_def split: option.splits if_splits)
    (simp_all add: layout_ok_def repr_c_def round_up_def div_ceil_def)

lemma layout_dvd_pow:
  assumes "layout_ok l" "fst l \<le> 2 ^ k" shows "snd l dvd (2 ^ k :: nat)"
proof -
  have "snd l \<in> {1, 4, 8}" and le: "snd l \<noteq> 1 \<Longrightarrow> snd l \<le> 2 ^ k" using assms by (auto simp: layout_ok_def)
  then obtain j where j: "snd l = 2 ^ j"
    by (auto intro: that [of 0] that [of 2] that [of 3])
  have "j \<le> k"
  proof (cases "snd l = 1")
    case False
    then show ?thesis using le j power_increasing_iff [of "2 :: nat" j k] by simp
  qed (use j in simp)
  then show ?thesis by (simp add: j le_imp_power_dvd)
qed

lemma max_size_Some:
  assumes "get_pre_compute_max_size metered p invt = Some m" "io \<in> set (p_instructions p)"
  obtains l where "insn_layout metered invt io = Some l" "fst l \<le> m"
proof -
  obtain ls where ls: "map (insn_layout metered invt) (p_instructions p) = map Some ls"
    and m: "m = next_power_of_two (fold max (map fst ls) 0)"
    using assms(1) by (auto simp: get_pre_compute_max_size_def those_Some split: option.splits if_splits)
  have "insn_layout metered invt io \<in> set (map Some ls)" using assms(2) unfolding ls [symmetric] by simp
  then obtain l where l: "insn_layout metered invt io = Some l" "l \<in> set ls" by auto
  have "fst l \<le> Max (set (0 # map fst ls))" using l(2) by simp
  also have "\<dots> = fold max (map fst ls) 0" by (simp only: Max.set_eq_fold)
  also have "\<dots> \<le> m" unfolding m by (rule next_power_of_two_bound)
  finally show ?thesis using that l(1) by blast
qed

lemma max_size_pow: "get_pre_compute_max_size metered p invt = Some m \<Longrightarrow> \<exists>k. m = 2 ^ k"
  using next_power_of_two_pow by (auto simp: get_pre_compute_max_size_def split: option.splits if_splits)

text \<open>
  C32. The buffer of precomputed data that the unsafe code of the interpreter slices is large
  enough and aligned, in both modes. When \<open>get_pre_compute_max_size\<close> returns, its result \<open>m\<close>, the
  alignment of the buffer, is a power of two; there is exactly one chunk for every entry of the
  table, so \<open>zip_eq\<close> does not panic; the chunks are disjoint and inside the buffer; and the
  \<open>PreCompute\<close> struct of every entry fits into its chunk, which starts at a multiple of the
  alignment of the struct.
\<close>

theorem pre_compute_buffer_safe:
  assumes "get_pre_compute_max_size metered p invt = Some m"
  shows "(\<exists>k. m = 2 ^ k) \<and> length (split_pre_compute_buf p m) = length (padded_program p) \<and>
    (\<forall>i<length (padded_program p). case split_pre_compute_buf p m ! i of (start, len) \<Rightarrow>
       start + len \<le> pre_compute_buf_len p m \<and>
       (\<forall>j<i. case split_pre_compute_buf p m ! j of (start', len') \<Rightarrow> start' + len' \<le> start) \<and>
       (\<exists>size align. insn_layout metered invt (padded_program p ! i) = Some (size, align) \<and>
          size \<le> len \<and> align dvd start))"
proof -
  obtain k where k: "m = 2 ^ k" using max_size_pow [OF assms] by blast
  have len: "length (split_pre_compute_buf p m) = length (padded_program p)"
    by (simp add: split_pre_compute_buf_def pre_compute_buf_len_def padded_program_len_def
        padded_program_def k)
  have nth: "split_pre_compute_buf p m ! i = (i * m, m)" if "i < length (padded_program p)" for i
    using that len by (simp add: split_pre_compute_buf_def)
  have buf: "pre_compute_buf_len p m = length (padded_program p) * m"
    by (simp add: pre_compute_buf_len_def padded_program_len_def padded_program_def)
  have fit: "i * m + m \<le> n * m" if "i < n" for i n
    using mult_le_mono1 [of "Suc i" n m] that by simp
  have lay: "\<exists>size align. insn_layout metered invt io = Some (size, align) \<and> size \<le> m \<and> align dvd i * m"
    if "io \<in> set (padded_program p)" for io i
  proof (cases io)
    case None
    then show ?thesis by (simp add: insn_layout_def)
  next
    case (Some inst)
    then have "io \<in> set (p_instructions p)" using that by (auto simp: padded_program_def)
    then obtain l where l: "insn_layout metered invt io = Some l" "fst l \<le> m"
      using max_size_Some [OF assms] by blast
    then show ?thesis
      using layout_dvd_pow [OF insn_layout_ok [OF l(1)], of k] k by (cases l) auto
  qed
  show ?thesis using max_size_pow [OF assms] len nth fit lay buf by auto
qed

text \<open>The witness is a program at address 8 with a TERMINATE and a slot without instruction.\<close>

theorem pre_compute_buffer_safe_witness:
  "length (split_pre_compute_buf \<lparr>p_instructions = [Some (default_instr :: rat instr), None], p_pc_base = 8\<rparr> 4) = 4"
proof -
  let ?p = "\<lparr>p_instructions = [Some (default_instr :: rat instr), None], p_pc_base = 8\<rparr>"
  have "get_pre_compute_max_size False ?p (inventory_new :: (rat, unit, unit) vm_executor executor_inventory) = Some 4"
    by (simp add: get_pre_compute_max_size_def insn_layout_def system_opcode_layout_def default_instr_def
        TERMINATE_OPCODE_def repr_c_def round_up_def div_ceil_def next_power_of_two_def compute_floorlog)
  from pre_compute_buffer_safe [OF this] show ?thesis
    by (simp add: padded_program_def get_pc_index_def DEFAULT_PC_STEP_def unat_div)
qed

section \<open>Programs with disabled operations\<close>

lemma executor_error:
  "executor_pre_compute canon ops ex pc inst = Some (Inl err) \<Longrightarrow> err = InvalidInstruction pc"
  by (cases ex) (auto simp: executor_pre_compute_def phantom_pre_compute_def base_alu_pre_compute_def
      base_alu_dispatch_def base_alu_pre_compute_impl_def
      shift_pre_compute_def less_than_pre_compute_def branch_eq_pre_compute_def branch_lt_pre_compute_def
      jal_lui_pre_compute_def jalr_pre_compute_def auipc_pre_compute_def mul_pre_compute_def
      mulh_pre_compute_def divrem_pre_compute_def load_store_pre_compute_def
      load_sign_extend_pre_compute_def hint_store_pre_compute_def shift_pre_compute_impl_def
      less_than_pre_compute_impl_def branch_eq_pre_compute_impl_def branch_lt_pre_compute_impl_def
      jalr_pre_compute_impl_def auipc_pre_compute_impl_def mul_pre_compute_impl_def
      divrem_pre_compute_impl_def load_store_pre_compute_impl_def load_sign_extend_pre_compute_impl_def
      hint_store_pre_compute_impl_def jal_lui_pre_compute_impl_def mulh_pre_compute_impl_def Let_def
      map_pre_def bind_eq_Some_conv split: if_splits option.splits)

lemma map_pre_Inl: "map_pre f x = Some (Inl e) \<longleftrightarrow> x = Some (Inl e)"
  by (cases x rule: option.exhaust; cases "the x") (auto simp: map_pre_def)

lemma map_pre_Inr: "map_pre f x = Some (Inr b) \<longleftrightarrow> (\<exists>a. x = Some (Inr a) \<and> b = f a)"
  by (cases x rule: option.exhaust; cases "the x") (auto simp: map_pre_def)

lemma map_pre_None: "map_pre f x = None \<longleftrightarrow> x = None"
  by (simp add: map_pre_def)

lemma metered_executor_error:
  assumes "executor_metered_pre_compute canon ops ex chip_idx pc inst = Some (Inl err)"
  shows "err = InvalidInstruction pc"
proof -
  have "executor_pre_compute canon ops ex pc inst = Some (Inl err)"
    using assms
    by (cases ex) (simp_all add: executor_metered_pre_compute_def executor_pre_compute_def
      base_alu_metered_pre_compute_def shift_metered_pre_compute_def less_than_metered_pre_compute_def
      branch_eq_metered_pre_compute_def branch_lt_metered_pre_compute_def jal_lui_metered_pre_compute_def
      jalr_metered_pre_compute_def auipc_metered_pre_compute_def mul_metered_pre_compute_def
      mulh_metered_pre_compute_def divrem_metered_pre_compute_def load_store_metered_pre_compute_def
      load_sign_extend_metered_pre_compute_def phantom_metered_pre_compute_def hint_store_metered_pre_compute_def
      hint_store_pre_compute_def map_pre_Inl)
  then show ?thesis by (rule executor_error)
qed

text \<open>The address that a static error reports: the metered table adds \<open>pc_base\<close> once more.\<close>

lemma pre_compute_instruction_error:
  assumes "pre_compute_instruction canon ops invt i (Some inst) = Some (Inl err)"
  shows "err = InvalidInstruction (word_of_nat i * 4) \<or>
    err = StaticDisabledOperation (word_of_nat i * 4) (i_opcode inst) \<and> get_executor invt (i_opcode inst) = None \<and>
      i_opcode inst \<noteq> TERMINATE_OPCODE"
  using assms executor_error
  by (auto simp: pre_compute_instruction_def Let_def get_system_opcode_handler_def DEFAULT_PC_STEP_def
      split: option.splits if_splits)

lemma metered_pre_compute_instruction_error:
  assumes "metered_pre_compute_instruction canon ops invt air_idx pc_base i (Some inst) = Some (Inl err)"
  shows "err = InvalidInstruction (pc_base + word_of_nat i * 4) \<or>
    err = StaticDisabledOperation (pc_base + word_of_nat i * 4) (i_opcode inst) \<and>
      get_executor invt (i_opcode inst) = None \<and> i_opcode inst \<noteq> TERMINATE_OPCODE"
  using assms metered_executor_error
  by (auto simp: metered_pre_compute_instruction_def Let_def get_system_opcode_handler_def
      get_executor_def DEFAULT_PC_STEP_def split: option.splits if_splits)

lemma unreachable_entry [simp]:
  "pre_compute_instruction canon ops invt i None = Some (Inr unreachable_handler)"
  "metered_pre_compute_instruction canon ops invt air_idx pc_base i None = Some (Inr unreachable_handler)"
  by (simp_all add: pre_compute_instruction_def metered_pre_compute_instruction_def)

lemma collect_table_Inl:
  "collect_table f i xs = Some (Inl e) \<Longrightarrow> \<exists>j<length xs. f (i + j) (xs ! j) = Some (Inl e)"
proof (induction xs arbitrary: i)
  case (Cons x xs)
  show ?case
  proof (cases "f i x = Some (Inl e)")
    case False
    then have "collect_table f (Suc i) xs = Some (Inl e)"
      using Cons.prems by (auto simp: map_pre_Inl split: option.splits sum.splits)
    from Cons.IH [OF this] show ?thesis by fastforce
  qed auto
qed simp

lemma collect_table_Inr:
  "collect_table f i xs = Some (Inr hs) \<longleftrightarrow>
     length hs = length xs \<and> (\<forall>j<length xs. f (i + j) (xs ! j) = Some (Inr (hs ! j)))"
proof (induction xs arbitrary: i hs)
  case (Cons x xs)
  have all: "(\<forall>j<Suc n. P j) \<longleftrightarrow> P 0 \<and> (\<forall>j<n. P (Suc j))" for n and P :: "nat \<Rightarrow> bool"
    by (simp add: All_less_Suc2)
  have "collect_table f i (x # xs) = Some (Inr hs) \<longleftrightarrow>
      (\<exists>h hs'. hs = h # hs' \<and> f i x = Some (Inr h) \<and> collect_table f (Suc i) xs = Some (Inr hs'))"
    by (auto simp: map_pre_Inr split: option.splits sum.splits)
  then show ?case by (cases hs) (auto simp: Cons.IH all)
qed auto

lemma max_size_disabled:
  assumes "Some inst \<in> set (p_instructions p)" "i_opcode inst \<noteq> TERMINATE_OPCODE"
    "get_executor invt (i_opcode inst) = None"
  shows "get_pre_compute_max_size metered p invt = None"
proof (rule ccontr)
  assume "get_pre_compute_max_size metered p invt \<noteq> None"
  then obtain m where "get_pre_compute_max_size metered p invt = Some m" by auto
  from max_size_Some [OF this assms(1)] show False
    using assms by (auto simp: insn_layout_def system_opcode_layout_def)
qed

lemma table_not_disabled:
  assumes "get_pre_compute_max_size metered (exe_program exe) invt = Some m"
    and "collect_table f 0 (padded_program (exe_program exe)) = Some (Inl (StaticDisabledOperation pc opc))"
    and f: "\<And>i. f i None = Some (Inr h)"
      "\<And>i inst. f i (Some inst) = Some (Inl (StaticDisabledOperation pc opc)) \<Longrightarrow>
         get_executor invt (i_opcode inst) = None \<and> i_opcode inst \<noteq> TERMINATE_OPCODE"
  shows False
proof -
  let ?xs = "padded_program (exe_program exe)"
  obtain j where j: "j < length ?xs" "f j (?xs ! j) = Some (Inl (StaticDisabledOperation pc opc))"
    using collect_table_Inl [OF assms(2)] by auto
  obtain inst where inst: "?xs ! j = Some inst" using j f(1) by (cases "?xs ! j") auto
  have "Some inst \<in> set ?xs" using j(1) inst by (metis nth_mem)
  then have "Some inst \<in> set (p_instructions (exe_program exe))" by (auto simp: padded_program_def)
  then show False
    using max_size_disabled [of inst "exe_program exe" invt metered] f(2) [of j inst] j(2) inst assms(1) by simp
qed

text \<open>
  C33. A program with an opcode no executor has does not give the error \<open>DisabledOperation\<close> that
  the interpreter has for it: both constructors, \<open>InterpretedInstance::new\<close> and \<open>new_metered\<close>,
  panic on it, in \<open>get_pre_compute_max_size\<close>, which unwraps the executor before the table is
  built. The error is never returned, whatever the program.
\<close>

theorem disabled_operation_panics:
  fixes exe :: "('f::field, 'b) vm_exe" and invt :: "('f, 'd, 'r) vm_executor executor_inventory"
  shows "(\<forall>inst. Some inst \<in> set (p_instructions (exe_program exe)) \<and> i_opcode inst \<noteq> TERMINATE_OPCODE \<and>
        get_executor invt (i_opcode inst) = None \<longrightarrow>
        interpreter_new canon ops invt exe = None \<and> interpreter_new_metered canon ops invt air_idx exe = None) \<and>
    (\<forall>pc opc. interpreter_new canon ops invt exe \<noteq> Some (Inl (StaticDisabledOperation pc opc)) \<and>
       interpreter_new_metered canon ops invt air_idx exe \<noteq> Some (Inl (StaticDisabledOperation pc opc)))"
proof (intro conjI allI impI notI)
  fix inst :: "'f instr"
  assume "Some inst \<in> set (p_instructions (exe_program exe)) \<and> i_opcode inst \<noteq> TERMINATE_OPCODE \<and>
    get_executor invt (i_opcode inst) = None"
  then have "get_pre_compute_max_size metered (exe_program exe) invt = None" for metered
    using max_size_disabled by blast
  then show "interpreter_new canon ops invt exe = None" "interpreter_new_metered canon ops invt air_idx exe = None"
    by (simp_all add: interpreter_new_def interpreter_new_metered_def)
next
  fix pc opc
  assume "interpreter_new canon ops invt exe = Some (Inl (StaticDisabledOperation pc opc))"
  then obtain m where m: "get_pre_compute_max_size False (exe_program exe) invt = Some m"
    and t: "get_pre_compute_instructions canon ops (exe_program exe) invt = Some (Inl (StaticDisabledOperation pc opc))"
    by (auto simp: interpreter_new_def bind_eq_Some_conv map_pre_Inl)
  show False
    by (rule table_not_disabled [OF m t [unfolded get_pre_compute_instructions_def]])
      (rule unreachable_entry, auto dest: pre_compute_instruction_error)
next
  fix pc opc
  assume "interpreter_new_metered canon ops invt air_idx exe = Some (Inl (StaticDisabledOperation pc opc))"
  then obtain m where m: "get_pre_compute_max_size True (exe_program exe) invt = Some m"
    and t: "get_metered_pre_compute_instructions canon ops (exe_program exe) invt air_idx =
      Some (Inl (StaticDisabledOperation pc opc))"
    by (auto simp: interpreter_new_metered_def bind_eq_Some_conv map_pre_Inl)
  show False
    by (rule table_not_disabled [OF m t [unfolded get_metered_pre_compute_instructions_def]])
      (rule unreachable_entry, auto dest: metered_pre_compute_instruction_error)
qed


text \<open>The witness is a program with the opcode 7 and an empty inventory.\<close>

theorem disabled_operation_panics_witness:
  "interpreter_new (\<lambda>x. 0) execution_ctx_ops (inventory_new :: (rat, unit, unit) vm_executor executor_inventory)
     \<lparr>exe_program = \<lparr>p_instructions = [Some (default_instr\<lparr>i_opcode := 7\<rparr>)], p_pc_base = 0\<rparr>,
      exe_pc_start = 0, exe_init_memory = [], exe_fn_bounds = ()\<rparr> = None"
  using disabled_operation_panics [of
      "\<lparr>exe_program = \<lparr>p_instructions = [Some (default_instr\<lparr>i_opcode := 7\<rparr>)], p_pc_base = 0\<rparr>,
      exe_pc_start = 0, exe_init_memory = [], exe_fn_bounds = ()\<rparr>"
      "inventory_new :: (rat, unit, unit) vm_executor executor_inventory" "\<lambda>x. 0" execution_ctx_ops]
  by (simp add: default_instr_def TERMINATE_OPCODE_def get_executor_def inventory_new_def)

section \<open>Runs\<close>

text \<open>
  The reference semantics: \<open>interp_step\<close> executes the instruction at the program counter, and
  \<open>run_steps\<close> executes \<open>n\<close> instructions, fewer when the guest stops.
\<close>

definition interp_step :: "('f, 'd, 'r, 'c) handler list \<Rightarrow> ('f, 'd, 'r, 'c) handler" where
  "interp_step hs s =
     (if get_pc_index (get_pc s) < length hs then (hs ! get_pc_index (get_pc s)) s
      else Some (s\<lparr>es_exit_code := Inl (PcOutOfBounds (get_pc s))\<rparr>))"

fun run_steps ::
  "('f, 'd, 'r, 'c) handler list \<Rightarrow> nat \<Rightarrow> ('f, 'd, 'r, 'c) vm_exec_state \<Rightarrow> ('f, 'd, 'r, 'c) vm_exec_state outcome" where
  "run_steps hs 0 s = Done s"
| "run_steps hs (Suc n) s =
     (if es_exit_code s = Inr None
      then (case interp_step hs s of None \<Rightarrow> Panicked | Some s' \<Rightarrow> run_steps hs n s')
      else Done s)"

text \<open>What a run leaves behind: the machine and its exit code.\<close>

definition final_state ::
  "('f, 'd, 'r, 'c) vm_exec_state \<Rightarrow> ('f, 'd, 'r) vm_state \<times> (vm_execution_error + u32 option)" where
  "final_state s = (es_vm_state s, es_exit_code s)"

text \<open>A handler of pure execution neither reads nor changes the context.\<close>

definition pure_handler :: "('f, 'd, 'r, 'c) handler \<Rightarrow> bool" where
  "pure_handler h \<longleftrightarrow> (\<forall>s c. h (s\<lparr>es_ctx := c\<rparr>) = map_option (\<lambda>s'. s'\<lparr>es_ctx := c\<rparr>) (h s))"

interpretation pure_ctx: ctx_sim execution_ctx_ops execution_ctx_ops "\<lambda>_ c2. c2 = c" for c
  by unfold_locales (simp_all add: opt_sim_def execution_ctx_ops_def)

interpretation cost_ctx: metered_sim metered_cost_ops execution_ctx_ops "\<lambda>_ c2. c2 = c" for c
  by unfold_locales (simp_all add: opt_sim_def execution_ctx_ops_def)

lemma pure_handlerI:
  assumes "\<And>c. pure_ctx.handler_rel c h h" shows "pure_handler h"
proof -
  have fwd: "h (s\<lparr>es_ctx := c\<rparr>) = Some (s'\<lparr>es_ctx := c\<rparr>)" if hs: "h s = Some s'" for s s' c
  proof -
    have "pure_ctx.st_rel c s (s\<lparr>es_ctx := c\<rparr>)" by (simp add: pure_ctx.st_rel_def)
    with assms [of c] obtain t where t: "h (s\<lparr>es_ctx := c\<rparr>) = Some t" "pure_ctx.st_rel c s' t"
      using hs unfolding pure_ctx.handler_rel_def opt_sim_def by blast
    from t(2) have "t = s'\<lparr>es_ctx := c\<rparr>" by (simp add: pure_ctx.st_rel_def)
    with t(1) show ?thesis by simp
  qed
  show ?thesis
    unfolding pure_handler_def
  proof (intro allI)
    fix s c
    show "h (s\<lparr>es_ctx := c\<rparr>) = map_option (\<lambda>s'. s'\<lparr>es_ctx := c\<rparr>) (h s)"
    proof (cases "h s")
      case None
      have "h (s\<lparr>es_ctx := c\<rparr>) \<noteq> Some t" for t
        using fwd [of "s\<lparr>es_ctx := c\<rparr>" t "es_ctx s"] None by auto
      then show ?thesis using None by (cases "h (s\<lparr>es_ctx := c\<rparr>)") auto
    qed (simp add: fwd)
  qed
qed

lemma pure_table:
  assumes "get_pre_compute_instructions canon execution_ctx_ops p invt = Some (Inr hs)"
  shows "\<forall>h\<in>set hs. pure_handler h"
proof
  fix h assume "h \<in> set hs"
  then obtain j where j: "j < length hs" "h = hs ! j" by (auto simp: in_set_conv_nth)
  have "pre_compute_instruction canon execution_ctx_ops invt j (padded_program p ! j) = Some (Inr h)"
    using assms j by (simp add: get_pre_compute_instructions_def collect_table_Inr)
  then have "pure_ctx.handler_rel c h h" for c
    using pure_ctx.sim_pre_compute_instruction [of c canon invt j "padded_program p ! j"] by simp
  then show "pure_handler h" by (rule pure_handlerI)
qed

lemma pure_interp_step:
  assumes "\<forall>h\<in>set hs. pure_handler h"
  shows "interp_step hs (s\<lparr>es_ctx := c\<rparr>) = map_option (\<lambda>s'. s'\<lparr>es_ctx := c\<rparr>) (interp_step hs s)"
  using assms by (simp add: interp_step_def get_pc_def pure_handler_def)

lemma pure_run_steps:
  assumes "\<forall>h\<in>set hs. pure_handler h"
  shows "run_steps hs n (s\<lparr>es_ctx := c\<rparr>) = map_outcome (\<lambda>s'. s'\<lparr>es_ctx := c\<rparr>) (run_steps hs n s)"
  by (induction n arbitrary: s) (simp_all add: pure_interp_step [OF assms] split: option.split)

lemma pure_step_ctx:
  assumes "\<forall>h\<in>set hs. pure_handler h" "interp_step hs s = Some s'"
  shows "es_ctx s' = es_ctx s"
proof -
  have "s\<lparr>es_ctx := es_ctx s\<rparr> = s" by simp
  then have "s' = s'\<lparr>es_ctx := es_ctx s\<rparr>"
    using pure_interp_step [OF assms(1), where s = s and c = "es_ctx s"] assms(2) by simp
  then show ?thesis by (metis vm_exec_state.select_convs(2) vm_exec_state.surjective vm_exec_state.update_convs(2))
qed

text \<open>The loop, one step at a time.\<close>

lemma trampoline_step:
  "execute_trampoline ops hs s =
     (if es_exit_code s = Inr None then
        (case ctx_should_suspend ops (es_ctx s) of
           None \<Rightarrow> Some Panicked
         | Some (suspend, ctx) \<Rightarrow>
             if suspend then Some (Done (s\<lparr>es_ctx := ctx\<rparr>))
             else (case interp_step hs (s\<lparr>es_ctx := ctx\<rparr>) of
                 None \<Rightarrow> Some Panicked | Some s \<Rightarrow> execute_trampoline ops hs s))
      else Some (Done s))"
  by (subst execute_trampoline.simps) (simp add: interp_step_def Let_def split: option.split)

lemma trampoline_run:
  assumes "\<forall>h\<in>set hs. pure_handler h"
  shows "map_option (map_outcome final_state) (execute_trampoline execution_ctx_ops hs s) =
    Some (map_outcome final_state (run_steps hs (unat (es_ctx s)) s))"
proof (induction "unat (es_ctx s)" arbitrary: s)
  case 0
  then have "es_ctx s = 0" by (simp add: unat_eq_zero)
  then show ?case
    by (subst trampoline_step) (simp add: execution_ctx_ops_def final_state_def)
next
  case (Suc n)
  then have nz: "es_ctx s \<noteq> 0" by auto
  then have n: "unat (es_ctx s - 1) = n" using Suc.hyps(2) by (simp add: unat_minus_one)
  have eq: "unat (es_ctx s) = Suc n" using Suc.hyps(2) by simp
  let ?s = "s\<lparr>es_ctx := es_ctx s - 1\<rparr>"
  show ?case
  proof (cases "es_exit_code s = Inr None")
    case True
    show ?thesis
    proof (cases "interp_step hs ?s")
      case None
      then have "interp_step hs s = None" by (simp add: pure_interp_step [OF assms])
      then show ?thesis
        using True nz None unfolding eq by (subst trampoline_step) (simp add: execution_ctx_ops_def)
    next
      case (Some s')
      then have c: "es_ctx s' = es_ctx s - 1" using pure_step_ctx [OF assms Some] by simp
      obtain s0 where s0: "interp_step hs s = Some s0" "s' = s0\<lparr>es_ctx := es_ctx s - 1\<rparr>"
        using Some by (auto simp: pure_interp_step [OF assms])
      have tr: "execute_trampoline execution_ctx_ops hs s = execute_trampoline execution_ctx_ops hs s'"
        using True nz Some by (subst trampoline_step) (simp add: execution_ctx_ops_def)
      have "map_outcome final_state (run_steps hs n s') = map_outcome final_state (run_steps hs n s0)"
        unfolding s0(2) pure_run_steps [OF assms]
        by (cases "run_steps hs n s0") (simp_all add: final_state_def)
      then show ?thesis
        using Suc.hyps(1) [of s'] n True s0(1) unfolding c tr eq by simp
    qed
  qed (simp add: trampoline_step [of _ _ s] eq)
qed

lemma interpreter_new_table:
  "interpreter_new canon ops invt exe = Some (Inr ii) \<Longrightarrow>
   get_pre_compute_instructions canon ops (exe_program exe) invt = Some (Inr (ii_pre_compute_insns ii))"
  by (auto simp: interpreter_new_def bind_eq_Some_conv map_pre_Inr instance_of_def)

lemma execute_from_state_eq:
  "execute_from_state ii vm num_insns =
     map_option (\<lambda>out. map_outcome (\<lambda>(v, code). map_sum id (\<lambda>_. v)
         (if num_insns \<noteq> None then check_exit_code code else check_termination code)) (map_outcome final_state out))
       (execute_trampoline execution_ctx_ops (ii_pre_compute_insns ii)
         (vm_exec_state_new vm (execution_ctx_new num_insns)))"
  unfolding execute_from_state_def
  by (intro arg_cong2 [where f = map_option] ext refl) (simp add: final_state_def split: outcome.split)

lemma execute_from_state_run:
  assumes "interpreter_new canon execution_ctx_ops invt exe = Some (Inr ii)"
  shows "execute_from_state ii vm num_insns = Some
    (map_outcome (\<lambda>s. map_sum id (\<lambda>_. es_vm_state s)
        (if num_insns \<noteq> None then check_exit_code (es_exit_code s) else check_termination (es_exit_code s)))
      (run_steps (ii_pre_compute_insns ii) (case num_insns of Some n \<Rightarrow> unat n | None \<Rightarrow> 2 ^ 64 - 1)
        (vm_exec_state_new vm (execution_ctx_new num_insns))))"
proof -
  let ?hs = "ii_pre_compute_insns ii" and ?s = "vm_exec_state_new vm (execution_ctx_new num_insns)"
  let ?n = "case num_insns of Some n \<Rightarrow> unat n | None \<Rightarrow> 2 ^ 64 - 1"
  have pure: "\<forall>h\<in>set ?hs. pure_handler h"
    by (rule pure_table [OF interpreter_new_table [OF assms]])
  have n: "unat (es_ctx ?s) = ?n"
    by (simp add: vm_exec_state_new_def execution_ctx_new_def unsigned_minus_1_eq_mask mask_eq_exp_minus_1
        split: option.split)
  have "map_option (map_outcome final_state) (execute_trampoline execution_ctx_ops ?hs ?s) =
      Some (map_outcome final_state (run_steps ?hs ?n ?s))"
    using trampoline_run [OF pure, of ?s] n by simp
  then obtain out where out: "execute_trampoline execution_ctx_ops ?hs ?s = Some out"
    "map_outcome final_state out = map_outcome final_state (run_steps ?hs ?n ?s)"
    by auto
  let ?g = "\<lambda>(v, code). map_sum id (\<lambda>_. v)
    (if num_insns \<noteq> None then check_exit_code code else check_termination code)"
  have "map_outcome (\<lambda>s. map_sum id (\<lambda>_. es_vm_state s)
      (if num_insns \<noteq> None then check_exit_code (es_exit_code s) else check_termination (es_exit_code s))) x =
    map_outcome ?g (map_outcome final_state x)" for x :: "('a, 'b, 'c, execution_ctx) vm_exec_state outcome"
    by (cases x) (simp_all add: final_state_def)
  then show ?thesis unfolding execute_from_state_eq out by (simp add: out)
qed

text \<open>
  C34. Pure execution always returns, and its result is that of executing instructions one at a
  time: \<open>num_insns\<close> of them, or up to \<open>2^64 - 1\<close> when no number is given, fewer when the guest
  stops. An error of an instruction is returned, and so is a nonzero exit code, as
  \<open>FailedWithExitCode\<close>; a guest that has not stopped gives \<open>DidNotTerminate\<close> if no number was
  given and the state reached otherwise. A panic of an instruction is a panic of the run.
\<close>

theorem execute_from_state_result:
  assumes "interpreter_new canon execution_ctx_ops invt exe = Some (Inr ii)"
  shows "execute_from_state ii vm num_insns = Some
    (case run_steps (ii_pre_compute_insns ii) (case num_insns of Some n \<Rightarrow> unat n | None \<Rightarrow> 2 ^ 64 - 1)
            (vm_exec_state_new vm (execution_ctx_new num_insns)) of
       Panicked \<Rightarrow> Panicked
     | Done s \<Rightarrow> Done
         (case es_exit_code s of
            Inl err \<Rightarrow> Inl err
          | Inr (Some code) \<Rightarrow> if code = 0 then Inr (es_vm_state s) else Inl (FailedWithExitCode code)
          | Inr None \<Rightarrow> if num_insns = None then Inl DidNotTerminate else Inr (es_vm_state s)))"
  unfolding execute_from_state_run [OF assms]
  by (auto simp: check_exit_code_def check_termination_def split: outcome.split sum.split option.split)

text \<open>The witnesses run a program of one TERMINATE.\<close>

definition halt_exe :: "(rat, unit) vm_exe" where
  "halt_exe = \<lparr>exe_program = \<lparr>p_instructions = [Some default_instr], p_pc_base = 0\<rparr>,
     exe_pc_start = 0, exe_init_memory = [], exe_fn_bounds = ()\<rparr>"

definition halt_vm :: "(rat, unit, unit) vm_state" where
  "halt_vm = \<lparr>vs_pc = 0, vs_memory = \<lparr>am_mem = [], am_config = []\<rparr>, vs_streams = streams_new [], vs_rng = ()\<rparr>"

abbreviation halt_canon :: "rat \<Rightarrow> nat" where "halt_canon \<equiv> \<lambda>_. 0"

abbreviation no_executors :: "(rat, unit, unit) vm_executor executor_inventory" where
  "no_executors \<equiv> inventory_new"

lemma halt_max_size: "get_pre_compute_max_size metered (exe_program halt_exe) no_executors \<noteq> None"
  by (simp add: get_pre_compute_max_size_def halt_exe_def insn_layout_def system_opcode_layout_def
      default_instr_def TERMINATE_OPCODE_def)

lemma halt_table:
  "get_pre_compute_instructions halt_canon ops (exe_program halt_exe) no_executors = Some (Inr [terminate_execute_e12 ops 0])"
  "get_metered_pre_compute_instructions halt_canon ops (exe_program halt_exe) no_executors air_idx =
     Some (Inr [terminate_execute_e12 ops 0])"
  by (simp_all add: get_pre_compute_instructions_def get_metered_pre_compute_instructions_def halt_exe_def
      padded_program_def get_pc_index_def pre_compute_instruction_def metered_pre_compute_instruction_def
      get_system_opcode_handler_def default_instr_def TERMINATE_OPCODE_def map_pre_def cu32_def Let_def)

lemma halt_new:
  "interpreter_new halt_canon ops no_executors halt_exe = Some (Inr (instance_of halt_exe [terminate_execute_e12 ops 0]))"
  "interpreter_new_metered halt_canon ops no_executors air_idx halt_exe =
     Some (Inr (instance_of halt_exe [terminate_execute_e12 ops 0]))"
  using halt_max_size [of False] halt_max_size [of True]
  by (auto simp: interpreter_new_def interpreter_new_metered_def halt_table map_pre_def)

theorem execute_from_state_result_witness:
  "execute_from_state (instance_of halt_exe [terminate_execute_e12 execution_ctx_ops 0]) halt_vm (Some 1) =
     Some (Done (Inr halt_vm))"
  using execute_from_state_result [OF halt_new(1), of halt_vm "Some 1"]
  by (simp add: instance_of_def execution_ctx_new_def vm_exec_state_new_def halt_vm_def
      interp_step_def get_pc_def get_pc_index_def terminate_execute_e12_def Let_def execution_ctx_ops_def)

context metered_sim
begin

lemma step_sim:
  assumes "list_all2 handler_rel hs hs'" "st_rel s t"
  shows "opt_sim st_rel (interp_step hs s) (interp_step hs' t)"
proof (cases "get_pc_index (get_pc t) < length hs'")
  case True
  then show ?thesis
    using assms by (simp add: interp_step_def st_rel_pc [OF assms(2)] list_all2_conv_all_nth handler_rel_def)
next
  case False
  then show ?thesis
    using assms(2) list_all2_lengthD [OF assms(1)]
    by (simp add: interp_step_def st_rel_pc [OF assms(2)] opt_sim_def st_rel_def)
qed

lemma trampoline_sim:
  assumes "execute_trampoline ops1 hs s = Some out" and hs: "list_all2 handler_rel hs hs'"
    and "st_rel s t" "out = Done s'"
  shows "\<exists>n t'. run_steps hs' n t = Done t' \<and> st_rel s' t'"
proof -
  define P where "P = (\<lambda>o' f s out. o' = ops1 \<longrightarrow> f = hs \<longrightarrow> out = Done s' \<longrightarrow>
    (\<forall>t. st_rel s t \<longrightarrow> (\<exists>n t'. run_steps hs' n t = Done t' \<and> st_rel s' t')))"
  have "P ops1 hs s out"
  proof (rule execute_trampoline.raw_induct [OF _ assms(1)])
    fix loop o' f s out
    assume IH: "\<And>o' f s out. loop o' f s = Some out \<Longrightarrow> P o' f s out"
      and body: "(if es_exit_code s = Inr None then
        (case ctx_should_suspend o' (es_ctx s) of
           None \<Rightarrow> Some Panicked
         | Some (suspend, ctx) \<Rightarrow>
             if suspend then Some (Done (s\<lparr>es_ctx := ctx\<rparr>))
             else let s = s\<lparr>es_ctx := ctx\<rparr>; pc = get_pc s; pc_index = get_pc_index pc in
               if pc_index < length f then
                 (case (f ! pc_index) s of None \<Rightarrow> Some Panicked | Some s \<Rightarrow> loop o' f s)
               else loop o' f (s\<lparr>es_exit_code := Inl (PcOutOfBounds pc)\<rparr>))
      else Some (Done s)) = Some out"
    show "P o' f s out"
      unfolding P_def
    proof (intro impI allI)
      fix t
      assume o': "o' = ops1" "f = hs" "out = Done s'" and st: "st_rel s t"
      show "\<exists>n t'. run_steps hs' n t = Done t' \<and> st_rel s' t'"
      proof (cases "es_exit_code s = Inr None")
        case False
        then show ?thesis using body o' st by (intro exI [of _ 0]) simp
      next
        case True
        then obtain b ctx where c: "ctx_should_suspend ops1 (es_ctx s) = Some (b, ctx)"
          using body o' by (auto split: option.splits)
        let ?s = "s\<lparr>es_ctx := ctx\<rparr>"
        have st': "st_rel ?s t" using st suspend c by (auto simp: st_rel_def)
        show ?thesis
        proof (cases b)
          case True
          then show ?thesis using body o' c st' \<open>es_exit_code s = Inr None\<close> by (intro exI [of _ 0]) simp
        next
          case False
          have loop: "(case interp_step hs ?s of None \<Rightarrow> Some Panicked | Some s \<Rightarrow> loop ops1 hs s) = Some (Done s')"
            using body o' c False \<open>es_exit_code s = Inr None\<close>
            by (simp add: interp_step_def Let_def split: if_splits option.splits)
          then obtain s1 where s1: "interp_step hs ?s = Some s1" "loop ops1 hs s1 = Some (Done s')"
            by (auto split: option.splits)
          obtain t1 where t1: "interp_step hs' t = Some t1" "st_rel s1 t1"
            using step_sim [OF hs st'] s1(1) by (auto simp: opt_sim_def)
          obtain n t' where "run_steps hs' n t1 = Done t'" "st_rel s' t'"
            using IH [OF s1(2)] t1(2) by (auto simp: P_def)
          moreover have "es_exit_code t = Inr None" using st True by (simp add: st_rel_def)
          ultimately show ?thesis using t1(1) by (intro exI [of _ "Suc n"]) simp
        qed
      qed
    qed
  qed
  then show ?thesis using assms by (simp add: P_def)
qed

end

section \<open>Metered and pure execution\<close>

lemma max_size_None:
  "get_pre_compute_max_size metered p invt = None \<longleftrightarrow>
     p_instructions p = [] \<or> (\<exists>io\<in>set (p_instructions p). insn_layout metered invt io = None)"
proof -
  have "those ys = None \<longleftrightarrow> None \<in> set ys" for ys :: "layout option list"
    by (induction ys) (auto split: option.splits)
  then have "those (map (insn_layout metered invt) (p_instructions p)) = None \<longleftrightarrow>
      (\<exists>io\<in>set (p_instructions p). insn_layout metered invt io = None)"
    by (simp add: image_iff eq_commute [of None])
  moreover have "those ys = Some [] \<longleftrightarrow> ys = []" for ys :: "layout option list"
    by (simp add: those_Some)
  ultimately show ?thesis
    unfolding get_pre_compute_max_size_def
    by (cases "those (map (insn_layout metered invt) (p_instructions p))") auto
qed

lemma max_size_defined:
  "get_pre_compute_max_size metered p invt = None \<longleftrightarrow> get_pre_compute_max_size metered' p invt = None"
proof -
  have "insn_layout metered invt io = None \<longleftrightarrow> insn_layout metered' invt io = None" for io
    by (simp add: insn_layout_def split: option.splits)
  then show ?thesis by (simp add: max_size_None)
qed

context metered_sim
begin

lemma instruction_sim:
  assumes "metered_pre_compute_instruction canon ops1 invt air_idx pc_base i io = Some (Inr h)"
  shows "\<exists>h'. pre_compute_instruction canon ops2 invt i io = Some (Inr h') \<and> handler_rel h h'"
proof (cases io)
  case None
  then show ?thesis using assms sim_unreachable by simp
next
  case (Some inst)
  show ?thesis
  proof (cases "i_opcode inst = TERMINATE_OPCODE")
    case True
    then show ?thesis
      using assms Some sim_terminate
      by (auto simp: metered_pre_compute_instruction_def pre_compute_instruction_def get_system_opcode_handler_def Let_def)
  next
    case False
    let ?pc = "word_of_nat i * word_of_nat DEFAULT_PC_STEP"
    obtain k where k: "map_of (instruction_lookup invt) (i_opcode inst) = Some k" "k < length (executors invt)"
      and ex: "executor_metered_pre_compute canon ops1 (executors invt ! k) (air_idx ! k) (pc_base + ?pc) inst = Some (Inr h)"
      using assms Some False
      by (auto simp: metered_pre_compute_instruction_def get_system_opcode_handler_def Let_def
          split: option.splits if_splits)
    have "pre_compute_instruction canon ops2 invt i io = executor_pre_compute canon ops2 (executors invt ! k) ?pc inst"
      using Some False k by (simp add: pre_compute_instruction_def get_system_opcode_handler_def Let_def get_executor_def)
    moreover have "pre_rel (\<lambda>_ _. True) handler_rel (Some (Inr h)) (executor_pre_compute canon ops2 (executors invt ! k) ?pc inst)"
      unfolding ex [symmetric] by (rule sim_metered_executor)
    ultimately show ?thesis by (auto elim!: option.rel_cases rel_sum.cases)
  qed
qed

lemma table_sim:
  assumes "get_metered_pre_compute_instructions canon ops1 p invt air_idx = Some (Inr hs)"
  shows "\<exists>hs'. get_pre_compute_instructions canon ops2 p invt = Some (Inr hs') \<and> list_all2 handler_rel hs hs'"
proof -
  let ?xs = "padded_program p"
  have len: "length hs = length ?xs"
    and nth: "metered_pre_compute_instruction canon ops1 invt air_idx (p_pc_base p) i (?xs ! i) = Some (Inr (hs ! i))"
    if "i < length ?xs" for i
    using assms that by (simp_all add: get_metered_pre_compute_instructions_def collect_table_Inr)
  have len: "length hs = length ?xs"
    using assms by (simp add: get_metered_pre_compute_instructions_def collect_table_Inr)
  have "\<forall>i<length ?xs. \<exists>h'. pre_compute_instruction canon ops2 invt i (?xs ! i) = Some (Inr h') \<and> handler_rel (hs ! i) h'"
    using nth instruction_sim by blast
  then obtain g where g: "pre_compute_instruction canon ops2 invt i (?xs ! i) = Some (Inr (g i)) \<and> handler_rel (hs ! i) (g i)"
    if "i < length ?xs" for i by metis
  have "get_pre_compute_instructions canon ops2 p invt = Some (Inr (map g [0..<length ?xs]))"
    using g by (simp add: get_pre_compute_instructions_def collect_table_Inr)
  moreover have "list_all2 handler_rel hs (map g [0..<length ?xs])"
    using g len by (simp add: list_all2_conv_all_nth)
  ultimately show ?thesis by blast
qed

end

text \<open>
  C35. Metered cost execution is pure execution that also counts. For a program that
  \<open>new_metered\<close> accepts, \<open>new\<close> accepts it too, and when the metered run returns, with a result or
  an error, there is a number of instructions after which the reference semantics of the pure
  interpreter is in the same state: pure execution with that number of instructions gives the
  same error or the same machine.
\<close>

theorem metered_cost_agrees_with_pure:
  fixes exe :: "('f::field, 'b) vm_exe" and vm :: "('f, 'd, 'r) vm_state"
  assumes "interpreter_new_metered canon metered_cost_ops invt air_idx exe = Some (Inr im)"
    and "execute_metered_cost_from_state im vm ctx = Some (Done r)"
  shows "\<exists>ip n s. interpreter_new canon execution_ctx_ops invt exe = Some (Inr ip) \<and>
    run_steps (ii_pre_compute_insns ip) n (vm_exec_state_new vm 0) = Done s \<and>
    map_sum id snd r = map_sum id (\<lambda>_. es_vm_state s) (check_exit_code (es_exit_code s)) \<and>
    (n < 2 ^ 64 \<longrightarrow> execute_from_state ip vm (Some (word_of_nat n)) = Some (Done (map_sum id snd r)))"
proof -
  let ?hs = "ii_pre_compute_insns im"
  obtain m where m: "get_pre_compute_max_size True (exe_program exe) invt = Some m"
    and tab: "get_metered_pre_compute_instructions canon metered_cost_ops (exe_program exe) invt air_idx = Some (Inr ?hs)"
    using assms(1) by (auto simp: interpreter_new_metered_def bind_eq_Some_conv map_pre_Inr instance_of_def)
  obtain m' where m': "get_pre_compute_max_size False (exe_program exe) invt = Some m'"
    using max_size_defined [of True "exe_program exe" invt False] m by auto
  obtain s' where run: "execute_trampoline metered_cost_ops ?hs (vm_exec_state_new vm ctx) = Some (Done s')"
    and r: "r = map_sum id (\<lambda>_. (es_ctx s', es_vm_state s')) (check_exit_code (es_exit_code s'))"
  proof -
    from assms(2) obtain out where o: "execute_trampoline metered_cost_ops ?hs (vm_exec_state_new vm ctx) = Some out"
      by (auto simp: execute_metered_cost_from_state_def)
    show ?thesis by (cases out) (use assms(2) o that in \<open>simp_all add: execute_metered_cost_from_state_def\<close>)
  qed
  define ip where "ip hs' = instance_of exe hs'" for hs' :: "('f, 'd, 'r, execution_ctx) handler list"
  obtain hs' where hs': "get_pre_compute_instructions canon execution_ctx_ops (exe_program exe) invt = Some (Inr hs')"
    using cost_ctx.table_sim [OF tab, of 0] by blast
  have ip: "interpreter_new canon execution_ctx_ops invt exe = Some (Inr (ip hs'))"
    using m' hs' by (simp add: interpreter_new_def map_pre_def ip_def)
  have "cost_ctx.st_rel 0 (vm_exec_state_new vm ctx) (vm_exec_state_new vm 0)"
    by (simp add: cost_ctx.st_rel_def vm_exec_state_new_def)
  moreover have "list_all2 (cost_ctx.handler_rel 0) ?hs hs'"
    using cost_ctx.table_sim [OF tab, of 0] hs' by auto
  ultimately obtain n t' where n: "run_steps hs' n (vm_exec_state_new vm 0) = Done t'" "cost_ctx.st_rel 0 s' t'"
    using cost_ctx.trampoline_sim [OF run _ _ refl] by blast
  have res: "map_sum id snd r = map_sum id (\<lambda>_. es_vm_state t') (check_exit_code (es_exit_code t'))"
    using n(2) by (auto simp: r cost_ctx.st_rel_def check_exit_code_def split: sum.split option.split)
  have "execute_from_state (ip hs') vm (Some (word_of_nat n)) = Some (Done (map_sum id snd r))" if lt: "n < 2 ^ 64"
  proof -
    let ?w = "word_of_nat n :: 64 word"
    have w: "unat ?w = n" using lt by (simp add: unsigned_of_nat take_bit_nat_eq_self)
    have s: "vm_exec_state_new vm ?w = (vm_exec_state_new vm 0)\<lparr>es_ctx := ?w\<rparr>"
      by (simp add: vm_exec_state_new_def)
    have "run_steps hs' n (vm_exec_state_new vm ?w) = Done (t'\<lparr>es_ctx := ?w\<rparr>)"
      unfolding s pure_run_steps [OF pure_table [OF hs']] n(1) by simp
    then show ?thesis
      unfolding res
      using execute_from_state_run [OF ip, of vm "Some ?w"]
      by (simp add: w ip_def instance_of_def execution_ctx_new_def)
  qed
  then show ?thesis using ip n(1) res by (auto simp: ip_def instance_of_def)
qed

theorem metered_cost_agrees_with_pure_witness:
  "\<exists>ip n s. interpreter_new halt_canon execution_ctx_ops no_executors halt_exe = Some (Inr ip) \<and>
    run_steps (ii_pre_compute_insns ip) n (vm_exec_state_new halt_vm 0) = Done s \<and>
    map_sum id (\<lambda>_. es_vm_state s) (check_exit_code (es_exit_code s)) = Inr halt_vm"
proof -
  let ?im = "instance_of halt_exe [terminate_execute_e12 metered_cost_ops 0]"
  let ?s = "vm_exec_state_new halt_vm (metered_cost_new [])"
  let ?s' = "?s\<lparr>es_ctx := snd (mc_should_suspend (es_ctx ?s)), es_exit_code := Inr (Some 0)\<rparr>"
  have "execute_trampoline metered_cost_ops (ii_pre_compute_insns ?im) ?s =
      execute_trampoline metered_cost_ops (ii_pre_compute_insns ?im) ?s'"
    by (rule trans, rule trampoline_step)
      (simp add: instance_of_def vm_exec_state_new_def halt_vm_def interp_step_def get_pc_def get_pc_index_def
        terminate_execute_e12_def Let_def metered_cost_ops_def mc_should_suspend_def metered_cost_new_def)
  also have "\<dots> = Some (Done ?s')"
    by (rule trans, rule trampoline_step) simp
  finally have "execute_metered_cost_from_state ?im halt_vm (metered_cost_new []) = Some (Done (Inr (es_ctx ?s', halt_vm)))"
    by (simp add: execute_metered_cost_from_state_def check_exit_code_def vm_exec_state_new_def)
  from metered_cost_agrees_with_pure [OF halt_new(2) this] show ?thesis by (simp add: eq_commute) blast
qed

end
