(* ===== verification/Rv32_Compile.thy ===== *)
theory Rv32_Compile
  imports Interp_Run Rv32_Decode
begin

text \<open>
  What the interpreter compiles a transpiled RV32IM word to. \<open>rv32im_lookup\<close> is the map from opcodes
  to executors that \<open>Rv32ImConfig\<close> builds; \<open>insn_handler\<close> gives, for every decoded word, the
  handler with the operands the word names. The bridge between them is that the operands survive
  the way through the field: registers, sign-extended immediates and branch offsets are decoded
  by \<open>pre_compute\<close> to what \<open>process_insn\<close> encoded.
\<close>

unbundle bit_operations_syntax

section \<open>The inventory\<close>

lemmas variant_lists = alu_opcodes_def shift_opcodes_def less_than_opcodes_def load_store_opcodes_def
  branch_equal_opcodes_def branch_less_than_opcodes_def jal_lui_opcodes_def mulh_opcodes_def
  divrem_opcodes_def hint_store_opcodes_def

definition rv32im_phantoms :: "'r host \<Rightarrow> ('f::field, 'd, 'r) phantom_map" where
  "rv32im_phantoms h =
     [1 \<mapsto> nop_phantom, 0 \<mapsto> nop_phantom, 2 \<mapsto> nop_phantom, 3 \<mapsto> nop_phantom, 0x20 \<mapsto> hint_input_phantom,
      0x22 \<mapsto> hint_random_phantom h, 0x21 \<mapsto> print_str_phantom h]"

definition rv32im_executor :: "'r host \<Rightarrow> nat \<Rightarrow> ('f::field, 'd, 'r) vm_executor option" where
  "rv32im_executor h = map_of (concat (map (\<lambda>(ex, opcs). map (\<lambda>opc. (opc, ex)) opcs)
     [(PhantomEx (rv32im_phantoms h), [PHANTOM_OPCODE]),
      (BaseAluEx, all_opcodes alu_offset alu_opcodes),
      (LessThanEx, all_opcodes less_than_offset less_than_opcodes),
      (ShiftEx, all_opcodes shift_offset shift_opcodes),
      (LoadStoreEx, all_opcodes load_store_offset [LOADW, LOADBU, LOADHU, STOREW, STOREH, STOREB]),
      (LoadSignExtendEx, [load_store_offset + 6, load_store_offset + 7]),
      (BranchEqualEx, all_opcodes branch_equal_offset branch_equal_opcodes),
      (BranchLessThanEx, all_opcodes branch_less_than_offset branch_less_than_opcodes),
      (JalLuiEx, all_opcodes jal_lui_offset jal_lui_opcodes),
      (JalrEx, [jalr_offset]), (AuipcEx, [auipc_offset]),
      (HintStoreEx, all_opcodes hint_store_offset hint_store_opcodes),
      (MultiplicationEx, [mul_offset]),
      (MultiplicationHighEx, all_opcodes mulh_offset mulh_opcodes),
      (DivRemEx, all_opcodes divrem_offset divrem_opcodes)]))"

lemma get_executor_map_of:
  "list_all (\<lambda>(opc, i). i < length (executors invt)) (instruction_lookup invt) \<Longrightarrow>
   get_executor invt = map_of (map (\<lambda>(opc, i). (opc, executors invt ! i)) (instruction_lookup invt))"
proof
  fix opc
  assume "list_all (\<lambda>(opc, i). i < length (executors invt)) (instruction_lookup invt)"
  then have "map_of (instruction_lookup invt) opc = Some i \<Longrightarrow> i < length (executors invt)" for i
    by (auto simp: list_all_iff dest: map_of_SomeD)
  then show "get_executor invt opc = map_of (map (\<lambda>(opc, i). (opc, executors invt ! i)) (instruction_lookup invt)) opc"
    by (auto simp: get_executor_def map_of_map split: option.split)
qed

lemma rv32im_inventory:
  "\<exists>invt. rv32im_create_executors h = Some (Inr invt) \<and> get_executor invt = rv32im_executor h"
  by (simp add: rv32im_create_executors_def create_executors_def add_executor_def inventory_new_def
      extend_inventory_def rv32i_extension_def rv32io_extension_def rv32m_extension_def
      builder_add_executor_def add_phantom_sub_executor_def append_inventory_def all_opcodes_def
      variant_lists opcode_offsets hint_store_offset_def PHANTOM_OPCODE_def upt_rec Let_def
      get_executor_map_of rv32im_executor_def rv32im_phantoms_def)

section \<open>Operands through the field\<close>

text \<open>The field is large enough for the operands and its elements fit a \<open>u32\<close>.\<close>

definition canon_ok :: "('f::field \<Rightarrow> nat) \<Rightarrow> bool" where
  "canon_ok canon \<longleftrightarrow> canonical_u32 canon \<and> 2 ^ 24 \<le> CHAR('f) \<and> CHAR('f) < 2 ^ 32"

lemma canon_of_nat: "canon_ok canon \<Longrightarrow> n < 2 ^ 24 \<Longrightarrow> canon (of_nat n) = n"
  by (rule canonical_u32D) (auto simp: canon_ok_def)

lemma cu32_of_nat: "canon_ok canon \<Longrightarrow> n < 2 ^ 24 \<Longrightarrow> cu32 canon (of_nat n) = word_of_nat n"
  by (simp add: cu32_def canon_of_nat)

lemma cu32_from_u32: "canon_ok canon \<Longrightarrow> unat w < 2 ^ 24 \<Longrightarrow> cu32 canon (from_u32 w) = w"
  unfolding from_u32_def by (subst cu32_of_nat) simp_all

lemma canon_consts:
  assumes "canon_ok canon"
  shows "canon 0 = 0" "canon 1 = 1" "canon 2 = 2" "canon 3 = 3" "cu32 canon 0 = 0" "cu32 canon 1 = 1" "cu32 canon 2 = 2" "cu32 canon 3 = 3"
    "cu8 canon 2 = 2" "cu8 canon 3 = 3"
  using canon_of_nat [OF assms, of 0] canon_of_nat [OF assms, of 1] canon_of_nat [OF assms, of 2]
    canon_of_nat [OF assms, of 3]
  by (simp_all add: cu32_def cu8_def)

definition reg_ptr :: "nat \<Rightarrow> u8" where "reg_ptr r = word_of_nat (4 * r)"

lemma unat_ucast_u8 [simp]: "unat (ucast (x :: u8) :: u32) = unat x"
proof -
  have "unat x < 2 ^ 32" using unsigned_less [of x, where 'a = nat] by simp
  then show ?thesis by (simp add: unsigned_ucast_eq take_bit_nat_eq_self)
qed

lemma unat_reg_ptr: "r < 32 \<Longrightarrow> unat (reg_ptr r) = 4 * r"
  by (simp add: reg_ptr_def unsigned_of_nat take_bit_nat_eq_self del: of_nat_mult)

lemma reg_operand:
  assumes "canon_ok canon" "r < 32"
  shows "cu8 canon (of_nat (4 * r)) = reg_ptr r" "cu32 canon (of_nat (4 * r)) = ucast (reg_ptr r)"
proof -
  have c: "cu32 canon (of_nat (4 * r)) = word_of_nat (4 * r)"
    by (rule cu32_of_nat [OF assms(1)]) (use assms(2) in simp)
  have n: "unat (word_of_nat (4 * r) :: u32) = 4 * r"
    using assms(2) by (simp add: unsigned_of_nat take_bit_nat_eq_self del: of_nat_mult)
  show "cu32 canon (of_nat (4 * r)) = ucast (reg_ptr r)"
    unfolding c word_unat_eq_iff n by (simp add: unat_reg_ptr [OF assms(2)])
  show "cu8 canon (of_nat (4 * r)) = reg_ptr r"
    unfolding cu8_def c word_unat_eq_iff unsigned_ucast_eq n unat_reg_ptr [OF assms(2)]
    using assms(2) by (simp add: take_bit_nat_eq_self)
qed

text \<open>Bits of a sign-extended immediate.\<close>

lemma unat_lessI: "uint w < 2 ^ n \<Longrightarrow> unat w < 2 ^ n"
  using of_nat_less_iff [of "unat w" "2 ^ n", where 'a = int] by simp

lemma unat_drop_bit: "unat (drop_bit n w) = unat w div 2 ^ n"
  by (simp only: unat_drop_bit_eq flip: drop_bit_eq_div)

lemma uint_low_bits:
  fixes imm :: int
  assumes "- (2 ^ m) \<le> imm" "imm < 2 ^ m" "m \<le> k" "k \<le> 32"
  shows "uint (word_of_int imm AND mask k :: u32) = (if imm < 0 then 2 ^ k + imm else imm)"
proof -
  have "(2 :: int) ^ m \<le> 2 ^ k" using assms(3) by simp
  then have b: "- (2 ^ k) \<le> imm" "imm < 2 ^ k" using assms(1,2) by linarith+
  have "uint (word_of_int imm AND mask k :: u32) = imm mod 2 ^ k"
    using assms(4)
    by (simp add: unsigned_take_bit_eq unsigned_of_int min_absorb1 flip: take_bit_eq_mask take_bit_eq_mod)
  also have "\<dots> = (if imm < 0 then 2 ^ k + imm else imm)"
  proof (cases "imm < 0")
    case True
    then have "(2 ^ k + imm) mod 2 ^ k = 2 ^ k + imm" using b by (intro mod_pos_pos_trivial) simp_all
    then show ?thesis using True by simp
  qed (use b in simp)
  finally show ?thesis .
qed

lemma unat_imm_to_bytes:
  assumes "unat v < 2 ^ 24"
  shows "unat (from_le_bytes (imm_to_bytes v) :: u32) = unat v + 2 ^ 24 * (unat v div 2 ^ 16)"
proof -
  let ?n = "unat v"
  have b: "to_limbs 8 4 ?n = [?n mod 256, ?n div 256 mod 256, ?n div 65536 mod 256, ?n div 16777216 mod 256]"
  proof -
    have "to_limbs 8 (Suc (Suc (Suc (Suc 0)))) ?n =
        [?n mod 256, ?n div 256 mod 256, ?n div 65536 mod 256, ?n div 16777216 mod 256]"
      by (simp add: div_mult2_eq [symmetric])
    moreover have "Suc (Suc (Suc (Suc 0))) = 4" by simp
    ultimately show ?thesis by metis
  qed
  have "map unat (imm_to_bytes v) = [?n mod 256, ?n div 256 mod 256, ?n div 65536 mod 256, ?n div 65536 mod 256]"
    by (simp add: imm_to_bytes_def to_le_bytes_def b Let_def unsigned_of_nat take_bit_eq_mod)
  moreover have "length (imm_to_bytes v) = 4" by (simp add: imm_to_bytes_def Let_def)
  ultimately have "unat (from_le_bytes (imm_to_bytes v) :: u32) = 
     ?n mod 256 + 256 * (?n div 256 mod 256 + 256 * (?n div 65536 mod 256 + 256 * (?n div 65536 mod 256)))"
    by (simp add: unat_from_le_bytes)
  also have "\<dots> = ?n + 2 ^ 24 * (?n div 2 ^ 16)" 
    using assms mod_mult2_eq [of ?n 256 256] div_mult_mod_eq [of ?n 65536] by simp
  finally show ?thesis .
qed

lemma alu_imm_operand:
  assumes "canon_ok canon" "- 2048 \<le> imm" "imm < 2048"
  shows "from_le_bytes (imm_to_bytes (cu32 canon (from_u32 (i12_to_u24 imm)))) = (word_of_int imm :: u32)"
proof -
  have m: "(0xffffff :: u32) = mask 24" by (simp add: mask_eq_exp_minus_1)
  have u: "uint (i12_to_u24 imm) = (if imm < 0 then 2 ^ 24 + imm else imm)"
    unfolding i12_to_u24_def as_u32_def m by (rule uint_low_bits [where m = 11]) (use assms in simp_all)
  then have "uint (i12_to_u24 imm) < 2 ^ 24" using assms(3) by (simp split: if_splits)
  then have lt: "unat (i12_to_u24 imm) < 2 ^ 24" by (rule unat_lessI)
  have "int (unat (from_le_bytes (imm_to_bytes (i12_to_u24 imm)) :: u32)) = imm mod 2 ^ 32"
  proof (cases "imm < 0")
    case True
    then have "(2 ^ 32 + imm) mod 2 ^ 32 = 2 ^ 32 + imm" using assms(2) by (intro mod_pos_pos_trivial) simp_all
    then show ?thesis unfolding unat_imm_to_bytes [OF lt] using u True assms(2) by (simp add: zdiv_int)
  next
    case False
    then show ?thesis unfolding unat_imm_to_bytes [OF lt] using u assms(3) by (simp add: zdiv_int)
  qed
  then show ?thesis
    unfolding cu32_from_u32 [OF assms(1) lt] word_uint_eq_iff by (simp add: unsigned_of_int take_bit_eq_mod)
qed

lemma imm_extended_operand:
  assumes "canon_ok canon" "- 2048 \<le> imm" "imm < 2048"
    and "i_c inst = from_u32 (as_u32 imm AND 0xffff)" "i_g inst = from_bool (imm < 0)"
  shows "imm_extended canon inst = word_of_int imm"
proof -
  have m: "(0xffff :: u32) = mask 16" by (simp add: mask_eq_exp_minus_1)
  let ?w = "as_u32 imm AND 0xffff :: u32"
  have u: "uint ?w = (if imm < 0 then 2 ^ 16 + imm else imm)"
    unfolding as_u32_def m by (rule uint_low_bits [where m = 11]) (use assms in simp_all)
  then have "uint ?w < 2 ^ 24" using assms(3) by (simp split: if_splits)
  then have lt: "unat ?w < 2 ^ 24" by (rule unat_lessI)
  have w: "?w = word_of_int (if imm < 0 then 2 ^ 16 + imm else imm)" unfolding u [symmetric] by simp
  show ?thesis
    unfolding imm_extended_def assms(4,5) cu32_from_u32 [OF assms(1) lt] unfolding w
    by (cases "imm < 0") (simp_all add: canon_consts [OF assms(1)])
qed

lemma canon_of_int:
  fixes canon :: "'f::field \<Rightarrow> nat"
  assumes "canon_ok canon" "- (2 ^ 23) \<le> imm" "imm < 2 ^ 23"
  shows "canon (isize_to_field imm) = (if imm < 0 then CHAR('f) - nat (- imm) else nat imm)"
proof (cases "imm < 0")
  case True
  have C: "2 ^ 24 \<le> CHAR('f)" "canonical_u32 canon" using assms(1) by (simp_all add: canon_ok_def)
  have "int (CHAR('f) - nat (- imm)) = int CHAR('f) + imm" using True C(1) assms(2) by simp
  from arg_cong [OF this, of "of_int :: int \<Rightarrow> 'f"] have "isize_to_field imm = (of_nat (CHAR('f) - nat (- imm)) :: 'f)"
    by (simp add: isize_to_field_eq del: of_nat_diff)
  then show ?thesis using True C by (simp add: canonical_u32D)
qed (use assms canon_of_nat [OF assms(1), of "nat imm"] in \<open>simp add: isize_to_field_def\<close>)

lemma branch_operand:
  assumes "canon_ok canon" "- 4096 \<le> imm" "imm < 4096"
  shows "branch_imm canon (isize_to_field imm :: 'f::field) = imm"
proof -
  have "2 ^ 24 \<le> CHAR('f)" using assms(1) by (simp add: canon_ok_def)
  then show ?thesis
    using canon_of_int [OF assms(1), of imm] assms(2,3) by (auto simp: branch_imm_def Let_def)
qed

lemma jal_operand:
  assumes "canon_ok canon" "- 1048576 \<le> imm" "imm < 1048576"
  shows "get_signed_imm canon True (isize_to_field imm :: 'f::field) = word_of_int imm"
proof -
  have C: "2 ^ 24 \<le> CHAR('f)" "CHAR('f) < 2 ^ 32" using assms(1) by (simp_all add: canon_ok_def)
  have c: "cu32 canon (isize_to_field imm :: 'f) = word_of_nat (if imm < 0 then CHAR('f) - nat (- imm) else nat imm)"
    unfolding cu32_def using canon_of_int [OF assms(1), of imm] assms(2,3) by simp
  show ?thesis
  proof (cases "imm < 0")
    case True
    let ?n = "CHAR('f) - nat (- imm)"
    have n: "1048576 \<le> ?n" "?n < 2 ^ 32" using True C assms(2) by simp_all
    then have "\<not> (word_of_nat ?n :: u32) < push_bit 20 1"
      by (simp add: word_less_nat_alt unsigned_of_nat take_bit_nat_eq_self del: of_nat_diff)
    moreover have "(word_of_nat ?n :: u32) = word_of_nat CHAR('f) + word_of_int imm"
    proof -
      have "int ?n = int CHAR('f) + imm" using True n(1) by simp
      then show ?thesis by (metis of_int_add of_int_of_nat_eq)
    qed
    ultimately show ?thesis using True by (simp add: get_signed_imm_def c Let_def)
  next
    case False
    then have "(word_of_nat (nat imm) :: u32) < push_bit 20 1"
      using assms(3) by (simp add: word_less_nat_alt unsigned_of_int take_bit_eq_mod)
    then show ?thesis using False by (simp add: get_signed_imm_def c Let_def)
  qed
qed

lemma lui_operand:
  assumes "canon_ok canon"
  shows "get_signed_imm canon False (from_u32 (drop_bit 12 (as_u32 imm) AND 0xfffff)) = drop_bit 12 (as_u32 imm)"
proof -
  have b: "unat (drop_bit 12 (as_u32 imm)) < 2 ^ 20"
    using unsigned_less [of "as_u32 imm", where 'a = nat] unfolding unat_drop_bit by simp
  have "(0xfffff :: u32) = mask 20" by (simp add: mask_eq_exp_minus_1)
  then have "drop_bit 12 (as_u32 imm) AND 0xfffff = take_bit 20 (drop_bit 12 (as_u32 imm))"
    by (simp only: take_bit_eq_mask)
  also have "\<dots> = drop_bit 12 (as_u32 imm)"
    unfolding word_unat_eq_iff unsigned_take_bit_eq using b by (rule take_bit_nat_eq_self)
  finally have m: "drop_bit 12 (as_u32 imm) AND 0xfffff = drop_bit 12 (as_u32 imm)" .
  show ?thesis
    unfolding m get_signed_imm_def Let_def using cu32_from_u32 [OF assms, of "drop_bit 12 (as_u32 imm)"] b by simp
qed

lemma push_drop:
  assumes "imm mod 2 ^ n = 0" "n \<le> 32"
  shows "push_bit n (drop_bit n (word_of_int imm :: u32)) = word_of_int imm"
proof -
  have "take_bit n (word_of_int imm :: u32) = 0"
    using assms by (simp add: word_uint_eq_iff unsigned_take_bit_eq unsigned_of_int min_absorb1)
      (simp add: take_bit_eq_mod)
  then show ?thesis using bits_ident [of n "word_of_int imm :: u32"] by simp
qed

lemma upper_imm:
  assumes "imm mod 4096 = 0"
  shows "as_u32 imm AND 0xfffff000 = as_u32 imm"
proof -
  have "(0xfffff000 :: u32) = NOT (mask 12)" by (simp add: mask_eq_exp_minus_1)
  moreover have "as_u32 imm AND NOT (mask 12) = push_bit 12 (drop_bit 12 (as_u32 imm))"
    by (intro bit_word_eqI) (auto simp: bit_simps)
  ultimately show ?thesis using push_drop [of imm 12] assms by (simp add: as_u32_def)
qed

lemma auipc_operand:
  assumes "canon_ok canon"
  shows "cu32 canon (from_u32 (drop_bit 8 (as_u32 imm))) = drop_bit 8 (as_u32 imm)"
proof (rule cu32_from_u32 [OF assms])
  show "unat (drop_bit 8 (as_u32 imm)) < 2 ^ 24"
    using unsigned_less [of "as_u32 imm", where 'a = nat] unfolding unat_drop_bit by simp
qed

section \<open>The handler of a decoded word\<close>

definition alu_regs :: "RType \<Rightarrow> alu_data" where
  "alu_regs d = \<lparr>alu_c = ucast (reg_ptr (rt_rs2 d)), alu_a = reg_ptr (rt_rd d), alu_b = reg_ptr (rt_rs1 d)\<rparr>"

definition alu_imm :: "nat \<Rightarrow> nat \<Rightarrow> u32 \<Rightarrow> alu_data" where
  "alu_imm rd rs1 imm = \<lparr>alu_c = imm, alu_a = reg_ptr rd, alu_b = reg_ptr rs1\<rparr>"

definition mul_regs :: "RType \<Rightarrow> mul_data" where
  "mul_regs d = \<lparr>mu_a = reg_ptr (rt_rd d), mu_b = reg_ptr (rt_rs1 d), mu_c = reg_ptr (rt_rs2 d)\<rparr>"

definition branch_regs :: "BType \<Rightarrow> branch_data" where
  "branch_regs d = \<lparr>br_imm = bt_imm d, br_a = reg_ptr (bt_rs1 d), br_b = reg_ptr (bt_rs2 d)\<rparr>"

definition load_regs :: "IType \<Rightarrow> load_store_data" where
  "load_regs d = \<lparr>ls_imm_extended = word_of_int (it_imm d), ls_a = reg_ptr (it_rd d), ls_b = reg_ptr (it_rs1 d), ls_e = 2\<rparr>"

definition store_regs :: "SType \<Rightarrow> load_store_data" where
  "store_regs d = \<lparr>ls_imm_extended = word_of_int (st_imm d), ls_a = reg_ptr (st_rs2 d), ls_b = reg_ptr (st_rs1 d), ls_e = 2\<rparr>"

definition nop_handler :: "('f, 'd, 'r, 'c) handler" where
  "nop_handler = create_handler (phantom_execute_e12 \<lparr>ph_a = 0, ph_b = 0, ph_c = 0, ph_sub_executor = nop_phantom\<rparr>)"

definition r_handler :: "'c ctx_ops \<Rightarrow> r_call \<Rightarrow> RType \<Rightarrow> ('f, 'd, 'r, 'c) handler" where
  "r_handler ops c d =
     (if rt_rd d = 0 then nop_handler
      else case c of
        R_add \<Rightarrow> base_alu_execute_e12 ops False Alu_ADD (alu_regs d)
      | R_sub \<Rightarrow> base_alu_execute_e12 ops False Alu_SUB (alu_regs d)
      | R_xor \<Rightarrow> base_alu_execute_e12 ops False Alu_XOR (alu_regs d)
      | R_or \<Rightarrow> base_alu_execute_e12 ops False Alu_OR (alu_regs d)
      | R_and \<Rightarrow> base_alu_execute_e12 ops False Alu_AND (alu_regs d)
      | R_sll \<Rightarrow> shift_execute_e12 ops (False, SLL, alu_regs d)
      | R_srl \<Rightarrow> shift_execute_e12 ops (False, SRL, alu_regs d)
      | R_sra \<Rightarrow> shift_execute_e12 ops (False, SRA, alu_regs d)
      | R_slt \<Rightarrow> less_than_execute_e12 ops (False, False, alu_regs d)
      | R_sltu \<Rightarrow> less_than_execute_e12 ops (False, True, alu_regs d)
      | R_mul \<Rightarrow> mul_execute_e12 ops (mul_regs d)
      | R_mulh \<Rightarrow> mulh_execute_e12 ops (MULH, mul_regs d)
      | R_mulhu \<Rightarrow> mulh_execute_e12 ops (MULHU, mul_regs d)
      | R_mulhsu \<Rightarrow> mulh_execute_e12 ops (MULHSU, mul_regs d)
      | R_div \<Rightarrow> divrem_execute_e12 ops (DIV, mul_regs d)
      | R_divu \<Rightarrow> divrem_execute_e12 ops (DIVU, mul_regs d)
      | R_rem \<Rightarrow> divrem_execute_e12 ops (REM, mul_regs d)
      | R_remu \<Rightarrow> divrem_execute_e12 ops (REMU, mul_regs d))"

definition i_handler :: "'c ctx_ops \<Rightarrow> i_call \<Rightarrow> IType \<Rightarrow> ('f, 'd, 'r, 'c) handler" where
  "i_handler ops c d =
     (let imm = alu_imm (it_rd d) (it_rs1 d) (word_of_int (it_imm d)); wr = (it_rd d \<noteq> 0);
          alu = (\<lambda>h. if wr then h else nop_handler);
          load = (\<lambda>op. create_handler (load_store_execute_e12 ops (op, wr, load_regs d)));
          load_signed = (\<lambda>byte. create_handler (load_sign_extend_execute_e12 ops (byte, wr, load_regs d))) in
      case c of
        I_addi \<Rightarrow> alu (base_alu_execute_e12 ops True Alu_ADD imm)
      | I_xori \<Rightarrow> alu (base_alu_execute_e12 ops True Alu_XOR imm)
      | I_ori \<Rightarrow> alu (base_alu_execute_e12 ops True Alu_OR imm)
      | I_andi \<Rightarrow> alu (base_alu_execute_e12 ops True Alu_AND imm)
      | I_slti \<Rightarrow> alu (less_than_execute_e12 ops (True, False, imm))
      | I_sltui \<Rightarrow> alu (less_than_execute_e12 ops (True, True, imm))
      | I_lb \<Rightarrow> load_signed True
      | I_lh \<Rightarrow> load_signed False
      | I_lw \<Rightarrow> load LOADW
      | I_lbu \<Rightarrow> load LOADBU
      | I_lhu \<Rightarrow> load LOADHU
      | I_jalr \<Rightarrow> jalr_execute_e12 ops (wr, \<lparr>jr_imm_extended = word_of_int (it_imm d), jr_a = reg_ptr (it_rd d),
          jr_b = reg_ptr (it_rs1 d)\<rparr>)
      | I_fence \<Rightarrow> nop_handler)"

fun insn_handler :: "'c ctx_ops \<Rightarrow> rrs_insn \<Rightarrow> ('f, 'd, 'r, 'c) handler" where
  "insn_handler ops (Rrs_R c d) = r_handler ops c d"
| "insn_handler ops (Rrs_I c d) = i_handler ops c d"
| "insn_handler ops (Rrs_Sh c d) =
     (if is_rd d = 0 then nop_handler
      else shift_execute_e12 ops (True, (case c of Sh_slli \<Rightarrow> SLL | Sh_srli \<Rightarrow> SRL | Sh_srai \<Rightarrow> SRA),
        alu_imm (is_rd d) (is_rs1 d) (word_of_nat (is_shamt d))))"
| "insn_handler ops (Rrs_S c d) = create_handler (load_store_execute_e12 ops
     ((case c of S_sb \<Rightarrow> STOREB | S_sh \<Rightarrow> STOREH | S_sw \<Rightarrow> STOREW), True, store_regs d))"
| "insn_handler ops (Rrs_B c d) =
     (case c of
        B_beq \<Rightarrow> branch_eq_execute_e12 ops (False, branch_regs d)
      | B_bne \<Rightarrow> branch_eq_execute_e12 ops (True, branch_regs d)
      | B_blt \<Rightarrow> branch_lt_execute_e12 ops (BLT, branch_regs d)
      | B_bge \<Rightarrow> branch_lt_execute_e12 ops (BGE, branch_regs d)
      | B_bltu \<Rightarrow> branch_lt_execute_e12 ops (BLTU, branch_regs d)
      | B_bgeu \<Rightarrow> branch_lt_execute_e12 ops (BGEU, branch_regs d))"
| "insn_handler ops (Rrs_J J_jal d) = jal_lui_execute_e12 ops
     (True, jt_rd d \<noteq> 0, \<lparr>jl_signed_imm = word_of_int (jt_imm d), jl_a = reg_ptr (jt_rd d)\<rparr>)"
| "insn_handler ops (Rrs_U c d) =
     (if ut_rd d = 0 then nop_handler
      else case c of
        U_lui \<Rightarrow> jal_lui_execute_e12 ops
          (False, True, \<lparr>jl_signed_imm = drop_bit 12 (as_u32 (ut_imm d)), jl_a = reg_ptr (ut_rd d)\<rparr>)
      | U_auipc \<Rightarrow> auipc_execute_e12 ops \<lparr>au_imm = drop_bit 8 (as_u32 (ut_imm d)), au_a = reg_ptr (ut_rd d)\<rparr>)"

text \<open>The operand decoders of the executors, on instructions the transpiler builds.\<close>

lemmas executor_defs = base_alu_pre_compute_def base_alu_dispatch_def base_alu_pre_compute_impl_def
  shift_pre_compute_def shift_pre_compute_impl_def less_than_pre_compute_def less_than_pre_compute_impl_def
  branch_eq_pre_compute_def branch_eq_pre_compute_impl_def branch_lt_pre_compute_def branch_lt_pre_compute_impl_def
  jal_lui_pre_compute_def jal_lui_pre_compute_impl_def jalr_pre_compute_def jalr_pre_compute_impl_def
  auipc_pre_compute_def auipc_pre_compute_impl_def mul_pre_compute_def mul_pre_compute_impl_def
  mulh_pre_compute_def mulh_pre_compute_impl_def divrem_pre_compute_def divrem_pre_compute_impl_def
  load_store_pre_compute_def load_store_pre_compute_impl_def load_sign_extend_pre_compute_def
  load_sign_extend_pre_compute_impl_def phantom_pre_compute_def phantom_pre_compute_impl_def
  alu_operands_def alu_valid_def mul_operands_def load_store_operands_def map_pre_def

lemmas lookup_defs = rv32im_executor_def all_opcodes_def variant_lists opcode_offsets hint_store_offset_def
  opcode_consts global_opcode_def upt_rec

lemma executor_of_alu: "rv32im_executor h (global_opcode alu_offset alu_opcodes op) = Some BaseAluEx"
  by (cases op) (simp_all add: lookup_defs)

lemma executor_of_shift: "rv32im_executor h (global_opcode shift_offset shift_opcodes op) = Some ShiftEx"
  by (cases op) (simp_all add: lookup_defs)

lemma executor_of_less_than:
  "rv32im_executor h (global_opcode less_than_offset less_than_opcodes op) = Some LessThanEx"
  by (cases op) (simp_all add: lookup_defs)

lemma executor_of_branch_equal:
  "rv32im_executor h (global_opcode branch_equal_offset branch_equal_opcodes op) = Some BranchEqualEx"
  by (cases op) (simp_all add: lookup_defs)

lemma executor_of_branch_less_than:
  "rv32im_executor h (global_opcode branch_less_than_offset branch_less_than_opcodes op) = Some BranchLessThanEx"
  by (cases op) (simp_all add: lookup_defs)

lemma executor_of_jal_lui:
  "rv32im_executor h (global_opcode jal_lui_offset jal_lui_opcodes op) = Some JalLuiEx"
  by (cases op) (simp_all add: lookup_defs)

lemma executor_of_mulh: "rv32im_executor h (global_opcode mulh_offset mulh_opcodes op) = Some MultiplicationHighEx"
  by (cases op) (simp_all add: lookup_defs)

lemma executor_of_divrem: "rv32im_executor h (global_opcode divrem_offset divrem_opcodes op) = Some DivRemEx"
  by (cases op) (simp_all add: lookup_defs)

lemma executor_of_load_store:
  "rv32im_executor h (global_opcode load_store_offset load_store_opcodes op) =
     Some (if op \<in> {LOADB, LOADH} then LoadSignExtendEx else LoadStoreEx)"
  by (cases op) (simp_all add: lookup_defs)

lemma executor_of_hint:
  "rv32im_executor h (global_opcode hint_store_offset hint_store_opcodes op) = Some HintStoreEx"
  by (cases op) (simp_all add: lookup_defs)

lemma executor_of_system:
  "rv32im_executor h PHANTOM_OPCODE = Some (PhantomEx (rv32im_phantoms h))"
  "rv32im_executor h jalr_opcode = Some JalrEx"
  "rv32im_executor h auipc_opcode = Some AuipcEx"
  "rv32im_executor h mul_opcode = Some MultiplicationEx"
  "rv32im_executor h hint_storew_opcode = Some HintStoreEx"
  "rv32im_executor h hint_buffer_opcode = Some HintStoreEx"
  by (simp_all add: lookup_defs)

lemmas executor_of = executor_of_alu executor_of_shift executor_of_less_than executor_of_branch_equal
  executor_of_branch_less_than executor_of_jal_lui executor_of_mulh executor_of_divrem executor_of_load_store
  executor_of_system

text \<open>An executor recovers the local opcode from the global one.\<close>

lemma local_of_global:
  assumes "x \<in> set variants" "length variants + offset < 2 ^ 64" "distinct variants"
  shows "from_repr variants (local_opcode_idx (global_opcode offset variants x) offset) = Some x"
proof -
  obtain i where i: "i < length variants" "x = variants ! i" using assms(1) by (auto simp: in_set_conv_nth)
  then have "repr_of variants x = i" using repr_of_nth [OF assms(3)] by simp
  then show ?thesis
    using i assms(2) by (simp add: global_opcode_def from_repr_def local_opcode_idx_def wsub_small)
qed

lemma local_alu: "from_repr alu_opcodes (local_opcode_idx (global_opcode alu_offset alu_opcodes op) alu_offset) = Some op"
  by (rule local_of_global; cases op; simp add: variant_lists opcode_offsets)

lemma local_shift: "from_repr shift_opcodes (local_opcode_idx (global_opcode shift_offset shift_opcodes op) shift_offset) = Some op"
  by (rule local_of_global; cases op; simp add: variant_lists opcode_offsets)

lemma local_less_than: "from_repr less_than_opcodes (local_opcode_idx (global_opcode less_than_offset less_than_opcodes op) less_than_offset) = Some op"
  by (rule local_of_global; cases op; simp add: variant_lists opcode_offsets)

lemma local_branch_equal: "from_repr branch_equal_opcodes (local_opcode_idx (global_opcode branch_equal_offset branch_equal_opcodes op) branch_equal_offset) = Some op"
  by (rule local_of_global; cases op; simp add: variant_lists opcode_offsets)

lemma local_branch_less_than: "from_repr branch_less_than_opcodes (local_opcode_idx (global_opcode branch_less_than_offset branch_less_than_opcodes op) branch_less_than_offset) = Some op"
  by (rule local_of_global; cases op; simp add: variant_lists opcode_offsets)

lemma local_jal_lui: "from_repr jal_lui_opcodes (local_opcode_idx (global_opcode jal_lui_offset jal_lui_opcodes op) jal_lui_offset) = Some op"
  by (rule local_of_global; cases op; simp add: variant_lists opcode_offsets)

lemma local_mulh: "from_repr mulh_opcodes (local_opcode_idx (global_opcode mulh_offset mulh_opcodes op) mulh_offset) = Some op"
  by (rule local_of_global; cases op; simp add: variant_lists opcode_offsets)

lemma local_divrem: "from_repr divrem_opcodes (local_opcode_idx (global_opcode divrem_offset divrem_opcodes op) divrem_offset) = Some op"
  by (rule local_of_global; cases op; simp add: variant_lists opcode_offsets)

lemma local_load_store: "from_repr load_store_opcodes (local_opcode_idx (global_opcode load_store_offset load_store_opcodes op) load_store_offset) = Some op"
  by (rule local_of_global; cases op; simp add: variant_lists opcode_offsets)

lemma local_hint_store:
  "from_repr hint_store_opcodes (local_opcode_idx (global_opcode hint_store_offset hint_store_opcodes op) hint_store_offset) = Some op"
  by (rule local_of_global; cases op; simp add: variant_lists hint_store_offset_def)

lemma local_mul: "from_repr [MUL] (local_opcode_idx mul_opcode mul_offset) = Some MUL"
  by (simp add: mul_opcode_def from_repr_def local_opcode_idx_def wsub_small mul_offset_def)

lemmas local_opcodes = local_alu local_shift local_less_than local_branch_equal local_branch_less_than
  local_jal_lui local_mulh local_divrem local_load_store local_mul

text \<open>Each builder with the executors of its opcodes.\<close>

lemma compile_nop:
  assumes "canon_ok canon"
  shows "executor_pre_compute canon ops (PhantomEx (rv32im_phantoms h)) pc nop = Some (Inr nop_handler)"
  by (simp add: executor_pre_compute_def executor_defs nop_def default_instr_def nop_handler_def Let_def
      canon_consts [OF assms] rv32im_phantoms_def)

lemmas operand_simps = RV32_REGISTER_NUM_LIMBS_def as_consts executor_pre_compute_def executor_defs
  opcode_from_usize_def local_opcodes Let_def reg_ok_def

lemma compile_r_type:
  assumes canon: "canon_ok canon"
    and "rt_rd d \<noteq> 0" "reg_ok (rt_rd d)" "reg_ok (rt_rs1 d)" "reg_ok (rt_rs2 d)"
  shows
    "executor_pre_compute canon ops BaseAluEx pc (from_r_type (global_opcode alu_offset alu_opcodes alu) 1 d False) =
       Some (Inr (base_alu_execute_e12 ops False alu (alu_regs d)))"
    "executor_pre_compute canon ops ShiftEx pc (from_r_type (global_opcode shift_offset shift_opcodes sh) 1 d False) =
       Some (Inr (shift_execute_e12 ops (False, sh, alu_regs d)))"
    "executor_pre_compute canon ops LessThanEx pc (from_r_type (global_opcode less_than_offset less_than_opcodes lt) 1 d False) =
       Some (Inr (less_than_execute_e12 ops (False, lt = SLTU, alu_regs d)))"
    "executor_pre_compute canon ops MultiplicationEx pc (from_r_type mul_opcode 0 d False) =
       Some (Inr (mul_execute_e12 ops (mul_regs d)))"
    "executor_pre_compute canon ops MultiplicationHighEx pc (from_r_type (global_opcode mulh_offset mulh_opcodes mh) 0 d False) =
       Some (Inr (mulh_execute_e12 ops (mh, mul_regs d)))"
    "executor_pre_compute canon ops DivRemEx pc (from_r_type (global_opcode divrem_offset divrem_opcodes dr) 0 d False) =
       Some (Inr (divrem_execute_e12 ops (dr, mul_regs d)))"
  using assms
  by (simp_all add: canon_consts [OF canon] reg_operand [OF canon] operand_simps from_r_type_def
      alu_regs_def mul_regs_def del: of_nat_mult)

lemma compile_i_type:
  assumes canon: "canon_ok canon"
    and "it_rd d \<noteq> 0" "reg_ok (it_rd d)" "reg_ok (it_rs1 d)" "- 2048 \<le> it_imm d" "it_imm d < 2048"
  shows
    "executor_pre_compute canon ops BaseAluEx pc (from_i_type (global_opcode alu_offset alu_opcodes alu) d) =
       Some (Inr (base_alu_execute_e12 ops True alu (alu_imm (it_rd d) (it_rs1 d) (word_of_int (it_imm d)))))"
    "executor_pre_compute canon ops LessThanEx pc (from_i_type (global_opcode less_than_offset less_than_opcodes lt) d) =
       Some (Inr (less_than_execute_e12 ops (True, lt = SLTU, alu_imm (it_rd d) (it_rs1 d) (word_of_int (it_imm d)))))"
  using assms
  by (simp_all add: canon_consts [OF canon] reg_operand [OF canon] operand_simps from_i_type_def
      alu_imm_def alu_imm_operand [OF canon] del: of_nat_mult)

lemma shamt_operand:
  assumes "canon_ok canon" "n < 32"
  shows "from_le_bytes (imm_to_bytes (cu32 canon (of_nat n))) = (word_of_nat n :: u32)"
proof -
  have n: "unat (word_of_nat n :: u32) = n" using assms(2) by (simp add: unsigned_of_nat take_bit_nat_eq_self)
  then show ?thesis
    unfolding word_unat_eq_iff using cu32_of_nat [OF assms(1), of n] unat_imm_to_bytes [of "word_of_nat n"] assms(2)
    by simp
qed

lemma compile_shamt:
  assumes canon: "canon_ok canon"
    and "is_rd d \<noteq> 0" "reg_ok (is_rd d)" "reg_ok (is_rs1 d)" "is_shamt d < 32"
  shows "executor_pre_compute canon ops ShiftEx pc (from_i_type_shamt (global_opcode shift_offset shift_opcodes sh) d) =
    Some (Inr (shift_execute_e12 ops (True, sh, alu_imm (is_rd d) (is_rs1 d) (word_of_nat (is_shamt d)))))"
  using assms
  by (simp add: canon_consts [OF canon] reg_operand [OF canon] operand_simps from_i_type_shamt_def
      alu_imm_def shamt_operand [OF canon] del: of_nat_mult)

lemma compile_load:
  assumes canon: "canon_ok canon"
    and "reg_ok (it_rd d)" "reg_ok (it_rs1 d)" and imm: "- 2048 \<le> it_imm d" "it_imm d < 2048"
  shows
    "op \<in> {LOADW, LOADBU, LOADHU} \<Longrightarrow>
       executor_pre_compute canon ops LoadStoreEx pc (from_load (global_opcode load_store_offset load_store_opcodes op) d) =
       Some (Inr (create_handler (load_store_execute_e12 ops (op, it_rd d \<noteq> 0, load_regs d))))"
    "op \<in> {LOADB, LOADH} \<Longrightarrow>
       executor_pre_compute canon ops LoadSignExtendEx pc (from_load (global_opcode load_store_offset load_store_opcodes op) d) =
       Some (Inr (create_handler (load_sign_extend_execute_e12 ops (op = LOADB, it_rd d \<noteq> 0, load_regs d))))"
  using assms
  by (simp_all add: canon_consts [OF canon] reg_operand [OF canon] operand_simps from_load_def load_regs_def
      imm_extended_operand [OF canon imm] from_bool_def del: of_nat_mult)

lemma compile_store:
  assumes canon: "canon_ok canon"
    and "reg_ok (st_rs1 d)" "reg_ok (st_rs2 d)" and imm: "- 2048 \<le> st_imm d" "st_imm d < 2048"
    and "op \<in> {STOREW, STOREH, STOREB}"
  shows "executor_pre_compute canon ops LoadStoreEx pc (from_s_type (global_opcode load_store_offset load_store_opcodes op) d) =
    Some (Inr (create_handler (load_store_execute_e12 ops (op, True, store_regs d))))"
  using assms
  by (auto simp add: canon_consts [OF canon] reg_operand [OF canon] operand_simps from_s_type_def store_regs_def
      imm_extended_operand [OF canon imm] simp del: of_nat_mult)

lemma compile_branch:
  assumes canon: "canon_ok canon"
    and "reg_ok (bt_rs1 d)" "reg_ok (bt_rs2 d)" and imm: "- 4096 \<le> bt_imm d" "bt_imm d < 4096"
  shows
    "executor_pre_compute canon ops BranchEqualEx pc (from_b_type (global_opcode branch_equal_offset branch_equal_opcodes be) d) =
       Some (Inr (branch_eq_execute_e12 ops (be = BNE, branch_regs d)))"
    "executor_pre_compute canon ops BranchLessThanEx pc
       (from_b_type (global_opcode branch_less_than_offset branch_less_than_opcodes bl) d) =
       Some (Inr (branch_lt_execute_e12 ops (bl, branch_regs d)))"
  using assms
  by (simp_all add: canon_consts [OF canon] reg_operand [OF canon] operand_simps from_b_type_def branch_regs_def
      branch_operand [OF canon imm] del: of_nat_mult)

lemma compile_jumps:
  assumes canon: "canon_ok canon"
  shows
    "reg_ok (jt_rd j) \<Longrightarrow> - 1048576 \<le> jt_imm j \<Longrightarrow> jt_imm j < 1048576 \<Longrightarrow>
     executor_pre_compute canon ops JalLuiEx pc (process_jal j) = Some (Inr (jal_lui_execute_e12 ops
       (True, jt_rd j \<noteq> 0, \<lparr>jl_signed_imm = word_of_int (jt_imm j), jl_a = reg_ptr (jt_rd j)\<rparr>)))"
    "reg_ok (it_rd d) \<Longrightarrow> reg_ok (it_rs1 d) \<Longrightarrow> - 2048 \<le> it_imm d \<Longrightarrow> it_imm d < 2048 \<Longrightarrow>
     executor_pre_compute canon ops JalrEx pc (process_jalr d) = Some (Inr (jalr_execute_e12 ops
       (it_rd d \<noteq> 0, \<lparr>jr_imm_extended = word_of_int (it_imm d), jr_a = reg_ptr (it_rd d), jr_b = reg_ptr (it_rs1 d)\<rparr>)))"
    "ut_rd u \<noteq> 0 \<Longrightarrow> reg_ok (ut_rd u) \<Longrightarrow>
     executor_pre_compute canon ops JalLuiEx pc (process_lui u) = Some (Inr (jal_lui_execute_e12 ops
       (False, True, \<lparr>jl_signed_imm = drop_bit 12 (as_u32 (ut_imm u)), jl_a = reg_ptr (ut_rd u)\<rparr>)))"
    "ut_rd u \<noteq> 0 \<Longrightarrow> reg_ok (ut_rd u) \<Longrightarrow> ut_imm u mod 4096 = 0 \<Longrightarrow>
     executor_pre_compute canon ops AuipcEx pc (process_auipc u) = Some (Inr (auipc_execute_e12 ops
       \<lparr>au_imm = drop_bit 8 (as_u32 (ut_imm u)), au_a = reg_ptr (ut_rd u)\<rparr>))"
  by (simp_all add: canon_consts [OF canon] reg_operand [OF canon] operand_simps process_jal_def from_j_type_def
      process_jalr_def process_lui_def from_u_type_def process_auipc_def jal_operand [OF canon]
      imm_extended_operand [OF canon] lui_operand [OF canon] upper_imm auipc_operand [OF canon] from_bool_def del: of_nat_mult)

text \<open>The opcodes of the builders.\<close>

lemma opcode_of_builder:
  "i_opcode nop = PHANTOM_OPCODE"
  "rt_rd r \<noteq> 0 \<Longrightarrow> i_opcode (from_r_type opc e r False) = opc"
  "it_rd d \<noteq> 0 \<Longrightarrow> i_opcode (from_i_type opc d) = opc"
  "is_rd sh \<noteq> 0 \<Longrightarrow> i_opcode (from_i_type_shamt opc sh) = opc"
  "i_opcode (from_load opc d) = opc" "i_opcode (from_s_type opc st) = opc" "i_opcode (from_b_type opc b) = opc"
  "i_opcode (process_jal j) = global_opcode jal_lui_offset jal_lui_opcodes JAL"
  "i_opcode (process_jalr d) = jalr_opcode"
  "ut_rd u \<noteq> 0 \<Longrightarrow> i_opcode (process_lui u) = global_opcode jal_lui_offset jal_lui_opcodes LUI"
  "ut_rd u \<noteq> 0 \<Longrightarrow> i_opcode (process_auipc u) = auipc_opcode"
  by (simp_all add: nop_def from_r_type_def from_i_type_def from_i_type_shamt_def from_load_def from_s_type_def
      from_b_type_def process_jal_def from_j_type_def process_jalr_def process_lui_def from_u_type_def process_auipc_def)

lemma builder_nop:
  "rt_rd r = 0 \<Longrightarrow> from_r_type opc e r False = nop" "it_rd d = 0 \<Longrightarrow> from_i_type opc d = nop"
  "is_rd sh = 0 \<Longrightarrow> from_i_type_shamt opc sh = nop" "ut_rd u = 0 \<Longrightarrow> process_lui u = nop"
  "ut_rd u = 0 \<Longrightarrow> process_auipc u = nop"
  by (simp_all add: from_r_type_def from_i_type_def from_i_type_shamt_def process_lui_def process_auipc_def)

lemmas alu_process = process_add_def process_addi_def process_sub_def process_xor_def process_xori_def
  process_or_def process_ori_def process_and_def process_andi_def process_sll_def process_slli_def
  process_srl_def process_srli_def process_sra_def process_srai_def process_slt_def process_slti_def
  process_sltu_def process_sltui_def process_lb_def process_lh_def process_lw_def process_lbu_def process_lhu_def
  process_sb_def process_sh_def process_sw_def process_beq_def process_bne_def process_blt_def process_bge_def
  process_bltu_def process_bgeu_def process_mul_def process_mulh_def process_mulhu_def process_mulhsu_def
  process_div_def process_divu_def process_rem_def process_remu_def process_fence_def

lemmas compile_rules = compile_nop compile_r_type compile_i_type compile_shamt compile_load compile_store
  compile_branch compile_jumps

text \<open>
  \<open>compiles_to\<close>: the executor registered for the opcode of an instruction accepts it, wherever the
  instruction is, with the given handler.
\<close>

definition compiles_to ::
  "('f::field \<Rightarrow> nat) \<Rightarrow> 'c ctx_ops \<Rightarrow> 'r host \<Rightarrow> 'f instr \<Rightarrow> ('f, 'd, 'r, 'c) handler \<Rightarrow> bool" where
  "compiles_to canon ops h inst hnd \<longleftrightarrow>
     (if i_opcode inst = TERMINATE_OPCODE then hnd = terminate_execute_e12 ops (cu32 canon (i_c inst))
      else case rv32im_executor h (i_opcode inst) of
        None \<Rightarrow> False
      | Some ex \<Rightarrow> (\<forall>pc. executor_pre_compute canon ops ex pc inst = Some (Inr hnd)))"

lemma executor_of_terminate: "rv32im_executor h TERMINATE_OPCODE = None"
  by (simp add: lookup_defs)

lemma compiles_to_executor:
  "rv32im_executor h (i_opcode inst) = Some ex \<Longrightarrow>
   compiles_to canon ops h inst hnd \<longleftrightarrow> (\<forall>pc. executor_pre_compute canon ops ex pc inst = Some (Inr hnd))"
  by (auto simp: compiles_to_def executor_of_terminate)

lemma compile_insn:
  assumes canon: "canon_ok canon" and ok: "insn_ok d"
  shows "compiles_to canon ops h (process_insn d) (insn_handler ops d)"
proof -
  note simps = alu_process opcode_of_builder executor_of compiles_to_executor compile_rules [OF canon]
  show ?thesis
  proof (cases d)
    case (Rrs_R c d')
    then show ?thesis using ok
      by (cases "rt_rd d' = 0"; cases c) (simp_all add: simps builder_nop r_handler_def del: One_nat_def)
  next
    case (Rrs_I c d')
    then show ?thesis using ok
      by (cases "it_rd d' = 0"; cases c) (simp_all add: simps builder_nop i_handler_def Let_def del: One_nat_def)
  next
    case (Rrs_Sh c d')
    then show ?thesis using ok by (cases "is_rd d' = 0"; cases c) (simp_all add: simps builder_nop)
  next
    case (Rrs_S c d')
    then show ?thesis using ok by (cases c) (simp_all add: simps)
  next
    case (Rrs_B c d')
    then show ?thesis using ok by (cases c) (simp_all add: simps)
  next
    case (Rrs_J c d')
    then show ?thesis using ok by (cases c) (simp_all add: simps)
  next
    case (Rrs_U c d')
    then show ?thesis using ok by (cases "ut_rd d' = 0"; cases c) (simp_all add: simps builder_nop)
  qed
qed

lemma pre_compute_compiled:
  assumes "get_executor invt = rv32im_executor h" "compiles_to canon ops h inst hnd"
  shows "pre_compute_instruction canon ops invt i (Some inst) = Some (Inr hnd)"
  using assms
  by (auto simp: pre_compute_instruction_def get_system_opcode_handler_def compiles_to_def Let_def
      split: if_splits option.splits)

lemma executor_metered_eq:
  assumes "executor_pre_compute canon ops ex pc inst = Some (Inr hnd)"
  shows "\<exists>hnd'. executor_metered_pre_compute canon ops ex chip_idx pc inst = Some (Inr hnd')"
  using assms
  by (cases ex) (auto simp: executor_metered_pre_compute_def executor_pre_compute_def
      base_alu_metered_pre_compute_def shift_metered_pre_compute_def less_than_metered_pre_compute_def
      branch_eq_metered_pre_compute_def branch_lt_metered_pre_compute_def jal_lui_metered_pre_compute_def
      jalr_metered_pre_compute_def auipc_metered_pre_compute_def mul_metered_pre_compute_def
      mulh_metered_pre_compute_def divrem_metered_pre_compute_def load_store_metered_pre_compute_def
      load_sign_extend_metered_pre_compute_def phantom_metered_pre_compute_def hint_store_metered_pre_compute_def
      hint_store_pre_compute_def map_pre_Inr)

lemma metered_pre_compute_compiled:
  fixes hnd :: "('f::field, 'd, 'r, 'c) handler" and invt :: "('f, 'd, 'r) vm_executor executor_inventory"
  assumes "get_executor invt = rv32im_executor h" "compiles_to canon ops h inst hnd"
    "length (executors invt) \<le> length air_idx"
  shows "\<exists>hnd'. metered_pre_compute_instruction canon ops invt air_idx pc_base i (Some inst) = Some (Inr hnd')"
proof (cases "i_opcode inst = TERMINATE_OPCODE")
  case False
  then obtain ex where ex: "get_executor invt (i_opcode inst) = Some ex"
    "\<And>pc. executor_pre_compute canon ops ex pc inst = Some (Inr hnd)"
    using assms(1,2) by (auto simp: compiles_to_def split: option.splits)
  then show ?thesis
    using False assms(3) executor_metered_eq [OF ex(2)]
    by (auto simp: metered_pre_compute_instruction_def get_system_opcode_handler_def get_executor_def Let_def
        split: option.splits if_splits)
qed (simp add: metered_pre_compute_instruction_def get_system_opcode_handler_def Let_def)

section \<open>System instructions\<close>

definition hint_handler ::
  "('f \<Rightarrow> nat) \<Rightarrow> 'c ctx_ops \<Rightarrow> Rv32HintStoreOpcode \<Rightarrow> nat \<Rightarrow> nat \<Rightarrow> ('f, 'd, 'r, 'c) handler" where
  "hint_handler canon ops op ra rb =
     create_handler (hint_store_execute_e1 canon ops (op, \<lparr>hs_c = 0, hs_a = reg_ptr ra, hs_b = reg_ptr rb\<rparr>))"

lemma compile_terminate:
  assumes "canon_ok canon" "n < 256"
  shows "compiles_to canon ops h (default_instr\<lparr>i_opcode := TERMINATE_OPCODE, i_c := of_nat n\<rparr>)
    (terminate_execute_e12 ops (word_of_nat n))"
  using cu32_of_nat [OF assms(1), of n] assms(2) by (simp add: compiles_to_def)

lemma compile_phantom:
  fixes canon :: "'f::field \<Rightarrow> nat"
  assumes canon: "canon_ok canon" and d: "itype_ok d"
  shows "\<exists>p. compiles_to canon ops h (phantom_instr d ph) (create_handler (phantom_execute_e12 p))"
proof -
  have n: "canon (numeral k :: 'f) = numeral k" if "(numeral k :: nat) < 2 ^ 24" for k
    using canon_of_nat [OF canon that] by simp
  show ?thesis
    by (cases ph) (auto simp: compiles_to_executor instr_phantom_def executor_of executor_pre_compute_def executor_defs
      rv32im_phantoms_def cu32_def n wshl_def)
qed

lemma compile_io:
  fixes canon :: "'f::field \<Rightarrow> nat"
  assumes canon: "canon_ok canon" and d: "itype_ok d" and inst: "rv32io_instr funct3 d = Some inst"
  shows "compiles_to canon ops h inst
    (if funct3 = HINT_FUNCT3 then
       if unat (as_u32 (it_imm d) AND 0xffff) = HINT_STOREW_IMM then hint_handler canon ops HINT_STOREW 0 (it_rd d)
       else hint_handler canon ops HINT_BUFFER (it_rs1 d) (it_rd d)
     else create_handler (load_store_execute_e12 ops (STOREW, True,
       \<lparr>ls_imm_extended = word_of_int (it_imm d), ls_a = reg_ptr (it_rs1 d), ls_b = reg_ptr (it_rd d), ls_e = 3\<rparr>)))"
proof -
  have regs: "reg_ok (it_rd d)" "reg_ok (it_rs1 d)" and imm: "- 2048 \<le> it_imm d" "it_imm d < 2048"
    using d by (auto simp: itype_ok_def)
  note simps = compiles_to_executor executor_of executor_pre_compute_def canon_consts [OF canon] reg_operand [OF canon]
    RV32_REGISTER_NUM_LIMBS_def as_consts isize_to_field_eq reg_ok_def
  have hint: "compiles_to canon ops h (instr_from_isize (global_opcode hint_store_offset hint_store_opcodes op)
      (int (4 * ra)) (int (4 * rb)) 0 1 2) (hint_handler canon ops op ra rb)" if "reg_ok ra" "reg_ok rb" for op ra rb
    using that
    by (cases op) (simp_all add: simps instr_from_isize_def hint_handler_def executor_of_hint hint_store_pre_compute_def
      hint_store_pre_compute_impl_def opcode_from_usize_def local_hint_store map_pre_def del: of_nat_mult)
  have reveal: "compiles_to canon ops h
      (instr_large_from_isize (global_opcode load_store_offset load_store_opcodes STOREW) (int (4 * it_rs1 d))
        (int (4 * it_rd d)) (int (unat (as_u32 (it_imm d) AND 0xffff))) 1 3 1 (of_bool (it_imm d < 0)))
      (create_handler (load_store_execute_e12 ops (STOREW, True,
        \<lparr>ls_imm_extended = word_of_int (it_imm d), ls_a = reg_ptr (it_rs1 d), ls_b = reg_ptr (it_rd d), ls_e = 3\<rparr>)))"
    using regs by (simp add: simps instr_large_from_isize_def load_store_pre_compute_def Let_def
      load_store_pre_compute_impl_def opcode_from_usize_def local_opcodes load_store_operands_def map_pre_def
      imm_extended_operand [OF canon imm] from_bool_def from_u32_def del: of_nat_mult)
  have z: "instr_from_isize hint_storew_opcode 0 = instr_from_isize (global_opcode hint_store_offset hint_store_opcodes HINT_STOREW) (int (4 * 0))"
    "hint_buffer_opcode = global_opcode hint_store_offset hint_store_opcodes HINT_BUFFER"
    by (simp_all add: opcode_consts global_opcode_def variant_lists hint_store_offset_def)
  show ?thesis
    using inst hint [of 0 "it_rd d" HINT_STOREW] hint [of "it_rs1 d" "it_rd d" HINT_BUFFER] reveal regs
    by (auto simp: rv32io_instr_def Let_def z RV32_REGISTER_NUM_LIMBS_def reg_ok_def guest_consts split: if_splits)
qed

section \<open>Programs\<close>

text \<open>The handlers that occur in the table of an RV32IM program.\<close>

inductive guest_handler :: "('f::field \<Rightarrow> nat) \<Rightarrow> 'c ctx_ops \<Rightarrow> ('f, 'd, 'r, 'c) handler \<Rightarrow> bool"
  for canon ops where
  Unreachable: "guest_handler canon ops unreachable_handler"
| Insn: "insn_ok d \<Longrightarrow> guest_handler canon ops (insn_handler ops d)"
| Terminate: "guest_handler canon ops (terminate_execute_e12 ops code)"
| Phantom: "guest_handler canon ops (create_handler (phantom_execute_e12 p))"
| Hint: "guest_handler canon ops (hint_handler canon ops op ra rb)"
| Reveal: "ls_e p = 3 \<Longrightarrow> guest_handler canon ops (create_handler (load_store_execute_e12 ops (STOREW, True, p)))"

lemma compile_word:
  assumes canon: "canon_ok canon" and rrs: "rrs_contract rrs"
    and w: "rv32im_word rrs w = (Inr inst :: 'e transpiler_error + 'f::field instr)"
  shows "\<exists>hnd. compiles_to canon ops h inst hnd \<and> guest_handler canon ops hnd"
proof -
  let ?d = "itype_new rrs w"
  have d: "itype_ok ?d" by (rule rrs_contract.itype_new_ok [OF rrs])
  have n: "compiles_to canon ops h nop nop_handler"
    by (simp add: compiles_to_executor opcode_of_builder executor_of compile_nop [OF canon])
  have u: "compiles_to canon ops h unimp (terminate_execute_e12 ops 2)"
    using compile_terminate [OF canon, of 2] by (simp add: unimp_def)
  have nh: "guest_handler canon ops nop_handler" unfolding nop_handler_def by (rule guest_handler.Phantom)
  consider "inst = nop \<or> inst = unimp"
    | n where "n < 256" "inst = default_instr\<lparr>i_opcode := TERMINATE_OPCODE, i_c := of_nat n\<rparr>"
    | ph where "inst = phantom_instr ?d ph"
    | "rv32io_instr (word_funct3 w) ?d = Some inst"
    | d' where "rrs_decode rrs w = Some d'" "inst = process_insn d'"
    using w nat_less_iff [of "it_imm ?d" 256]
    by (auto simp: rv32im_word_def split: if_splits option.splits)
  then show ?thesis
  proof cases
    case 1
    then show ?thesis using n u nh guest_handler.Terminate by blast
  next
    case 2
    then show ?thesis using compile_terminate [OF canon 2(1)] guest_handler.Terminate by blast
  next
    case 3
    then show ?thesis using compile_phantom [OF canon d] guest_handler.Phantom by blast
  next
    case 4
    show ?thesis
      by (rule exI, rule conjI, rule compile_io [OF canon d 4]) (simp add: guest_handler.intros)
  next
    case 5
    then show ?thesis
      using compile_insn [OF canon] rrs_contract.decode_ok [OF rrs] guest_handler.Insn by blast
  qed
qed

lemma rv32im_create_executors_eq:
  fixes invt :: "('f::field, 'd, 'r) vm_executor executor_inventory"
  assumes "rv32im_create_executors h = Some (Inr invt)"
  shows "get_executor invt = rv32im_executor h"
proof -
  obtain invt' :: "('f, 'd, 'r) vm_executor executor_inventory"
    where "rv32im_create_executors h = Some (Inr invt')" "get_executor invt' = rv32im_executor h"
    using rv32im_inventory by blast
  then show ?thesis using assms by simp
qed

lemma from_elf_program:
  assumes rrs: "rrs_contract rrs" and len: "length (elf_instructions elf) < 2 ^ 64"
    and exe: "(from_elf elf (rv32im_transpiler rrs) :: ('e transpiler_error + ('f::field, 'b) vm_exe) option) = Some (Inr exe)"
  shows "p_pc_base (exe_program exe) = elf_pc_base elf" "exe_pc_start exe = elf_pc_start elf"
    "length (p_instructions (exe_program exe)) = length (elf_instructions elf)"
    "i < length (elf_instructions elf) \<Longrightarrow> \<exists>inst. p_instructions (exe_program exe) ! i = Some inst \<and>
       rv32im_word rrs (elf_instructions elf ! i) = (Inr inst :: 'e transpiler_error + 'f instr)"
proof -
  let ?tr = "rv32im_word rrs :: u32 \<Rightarrow> 'e transpiler_error + 'f instr"
  have "transpile (rv32im_transpiler rrs) (elf_instructions elf) = Some (transpile_words ?tr (elf_instructions elf))"
    by (rule word_transpiler.transpile_eq [OF word_transpiler.intro])
      (use rrs_contract.next_word [OF rrs] len in auto)
  then have t: "transpile_words ?tr (elf_instructions elf) = Inr (p_instructions (exe_program exe))"
    and b: "p_pc_base (exe_program exe) = elf_pc_base elf" "exe_pc_start exe = elf_pc_start elf"
    using exe by (auto simp: from_elf_def new_without_debug_infos_with_option_def split: sum.splits)
  show "p_pc_base (exe_program exe) = elf_pc_base elf" "exe_pc_start exe = elf_pc_start elf" by (fact b)+
  show "length (p_instructions (exe_program exe)) = length (elf_instructions elf)"
    using t by (simp add: transpile_words_Inr)
  show "\<exists>inst. p_instructions (exe_program exe) ! i = Some inst \<and> ?tr (elf_instructions elf ! i) = Inr inst"
    if "i < length (elf_instructions elf)" using t that by (auto simp: transpile_words_Inr)
qed

lemma max_size_total:
  assumes "p_instructions p \<noteq> []"
    and "\<And>inst. Some inst \<in> set (p_instructions p) \<Longrightarrow>
      i_opcode inst = TERMINATE_OPCODE \<or> get_executor invt (i_opcode inst) \<noteq> None"
  shows "\<exists>m. get_pre_compute_max_size metered p invt = Some m"
proof -
  have "insn_layout metered invt io \<noteq> None" if "io \<in> set (p_instructions p)" for io
    using assms(2) that by (cases io) (auto simp: insn_layout_def system_opcode_layout_def simp del: split_paired_Ex)
  then have "\<exists>ls. those (map (insn_layout metered invt) xs) = Some ls \<and> length ls = length xs"
    if "set xs \<subseteq> set (p_instructions p)" for xs
    using that by (induction xs) fastforce+
  from this [of "p_instructions p"] assms(1) show ?thesis
    by (auto simp: get_pre_compute_max_size_def split: option.splits)
qed

lemma collect_table_total:
  "(\<And>j. j < length xs \<Longrightarrow> \<exists>h. f (i + j) (xs ! j) = Some (Inr h)) \<Longrightarrow> \<exists>hs. collect_table f i xs = Some (Inr hs)"
proof -
  assume "\<And>j. j < length xs \<Longrightarrow> \<exists>h. f (i + j) (xs ! j) = Some (Inr h)"
  then obtain g where "\<And>j. j < length xs \<Longrightarrow> f (i + j) (xs ! j) = Some (Inr (g j))" by metis
  then show ?thesis by (intro exI [of _ "map g [0..<length xs]"]) (simp add: collect_table_Inr)
qed

lemma transpiled_entry:
  assumes "canon_ok canon" "rrs_contract rrs" "length (elf_instructions elf) < 2 ^ 64"
    and "(from_elf elf (rv32im_transpiler rrs) :: ('e transpiler_error + ('f::field, 'b) vm_exe) option) = Some (Inr exe)"
    and "j < length (p_instructions (exe_program exe))"
  shows "\<exists>inst hnd. p_instructions (exe_program exe) ! j = Some inst \<and> compiles_to canon ops h inst hnd \<and>
    guest_handler canon ops hnd"
proof -
  note prog = from_elf_program [OF assms(2-4)]
  obtain inst where "p_instructions (exe_program exe) ! j = Some inst"
    "rv32im_word rrs (elf_instructions elf ! j) = (Inr inst :: 'e transpiler_error + 'f instr)"
    using prog(4) [of j] assms(5) prog(3) by auto
  then show ?thesis using compile_word [OF assms(1,2)] by blast
qed

text \<open>
  The table of a transpiled program: an entry below the program is unreachable, the others hold
  the handlers of the instructions.
\<close>

lemma padded_nth:
  "j < length (padded_program p) \<Longrightarrow> padded_program p ! j =
     (if j < get_pc_index (p_pc_base p) then None else p_instructions p ! (j - get_pc_index (p_pc_base p)))"
  by (simp add: padded_program_def nth_append)

lemma table_handlers:
  fixes invt :: "('f::field, 'd, 'r) vm_executor executor_inventory"
  assumes "canon_ok canon" "rrs_contract rrs" "length (elf_instructions elf) < 2 ^ 64"
    and "(from_elf elf (rv32im_transpiler rrs) :: ('e transpiler_error + ('f, 'b) vm_exe) option) = Some (Inr exe)"
    and "rv32im_create_executors h = Some (Inr invt)" "interpreter_new canon ops invt exe = Some (Inr ii)"
  shows "hnd \<in> set (ii_pre_compute_insns ii) \<Longrightarrow> guest_handler canon ops hnd"
proof -
  let ?xs = "padded_program (exe_program exe)"
  assume "hnd \<in> set (ii_pre_compute_insns ii)"
  then obtain j where j: "j < length (ii_pre_compute_insns ii)" "hnd = ii_pre_compute_insns ii ! j"
    by (auto simp: in_set_conv_nth)
  then have e: "j < length ?xs" "pre_compute_instruction canon ops invt j (?xs ! j) = Some (Inr hnd)"
    using interpreter_new_table [OF assms(6)] by (simp_all add: get_pre_compute_instructions_def collect_table_Inr)
  show "guest_handler canon ops hnd"
  proof (cases "?xs ! j")
    case None
    then show ?thesis using e(2) guest_handler.Unreachable by simp
  next
    case (Some inst)
    let ?k = "j - get_pc_index (p_pc_base (exe_program exe))"
    have k: "?k < length (p_instructions (exe_program exe))" "p_instructions (exe_program exe) ! ?k = Some inst"
      using Some padded_nth [OF e(1)] e(1) by (auto simp: padded_program_def split: if_splits)
    obtain hnd' where c: "compiles_to canon ops h inst hnd'" "guest_handler canon ops (hnd' :: ('f, 'd, 'r, _) handler)"
      using transpiled_entry [OF assms(1-4) k(1)] k(2) by auto
    then show ?thesis
      using pre_compute_compiled [OF rv32im_create_executors_eq [OF assms(5)] c(1), of j] e(2) Some by simp
  qed
qed

lemma compile_program:
  fixes invt :: "('f::field, 'd, 'r) vm_executor executor_inventory"
  assumes "canon_ok canon" "rrs_contract rrs" "elf_instructions elf \<noteq> []" "length (elf_instructions elf) < 2 ^ 64"
    and "(from_elf elf (rv32im_transpiler rrs) :: ('e transpiler_error + ('f, 'b) vm_exe) option) = Some (Inr exe)"
    and "rv32im_create_executors h = Some (Inr invt)" "length (executors invt) \<le> length air_idx"
  shows "\<exists>ii ii'. interpreter_new canon ops invt exe = Some (Inr ii) \<and>
    interpreter_new_metered canon ops invt air_idx exe = Some (Inr ii') \<and>
    length (ii_pre_compute_insns ii) = get_pc_index (elf_pc_base elf) + length (elf_instructions elf) \<and>
    length (ii_pre_compute_insns ii') = get_pc_index (elf_pc_base elf) + length (elf_instructions elf)"
proof -
  let ?p = "exe_program exe" and ?xs = "padded_program (exe_program exe)"
  note prog = from_elf_program [OF assms(2,4,5)] and invt = rv32im_create_executors_eq [OF assms(6)]
  have entry: "\<exists>inst (hnd :: ('f, 'd, 'r, _) handler). p_instructions ?p ! j = Some inst \<and> compiles_to canon ops h inst hnd"
    if "j < length (p_instructions ?p)" for j
    using transpiled_entry [OF assms(1,2,4,5) that] by blast
  have "i_opcode inst = TERMINATE_OPCODE \<or> get_executor invt (i_opcode inst) \<noteq> None"
    if "Some inst \<in> set (p_instructions ?p)" for inst
  proof -
    obtain j where "j < length (p_instructions ?p)" "p_instructions ?p ! j = Some inst"
      using \<open>Some inst \<in> _\<close> by (auto simp: in_set_conv_nth)
    from entry [OF this(1)] this(2) show ?thesis
      by (auto simp: invt compiles_to_def split: if_splits option.splits)
  qed
  from max_size_total [OF _ this] have size: "\<exists>m. get_pre_compute_max_size metered ?p invt = Some m" for metered
    using assms(3) prog(3) by force
  have each: "(\<exists>hnd. pre_compute_instruction canon ops invt j (?xs ! j) = Some (Inr hnd)) \<and>
    (\<exists>hnd. metered_pre_compute_instruction canon ops invt air_idx (p_pc_base ?p) j (?xs ! j) = Some (Inr hnd))"
    if lt: "j < length ?xs" for j
  proof (cases "j < get_pc_index (p_pc_base ?p)")
    case False
    then have "j - get_pc_index (p_pc_base ?p) < length (p_instructions ?p)" using lt by (auto simp: padded_program_def)
    then obtain inst hnd where c: "?xs ! j = Some inst" "compiles_to canon ops h inst (hnd :: ('f, 'd, 'r, _) handler)"
      using entry [OF \<open>j - _ < _\<close>] padded_nth [OF lt] False by auto
    show ?thesis
      unfolding c(1) using pre_compute_compiled [OF invt c(2)] metered_pre_compute_compiled [OF invt c(2) assms(7)] by blast
  qed (simp add: padded_nth [OF lt])
  obtain hs where hs: "get_pre_compute_instructions canon ops ?p invt = Some (Inr hs)"
    using collect_table_total [of ?xs "pre_compute_instruction canon ops invt" 0] each
    by (auto simp: get_pre_compute_instructions_def)
  obtain hs' where hs': "get_metered_pre_compute_instructions canon ops ?p invt air_idx = Some (Inr hs')"
    using collect_table_total [of ?xs "metered_pre_compute_instruction canon ops invt air_idx (p_pc_base ?p)" 0] each
    by (auto simp: get_metered_pre_compute_instructions_def)
  have "length ?xs = get_pc_index (elf_pc_base elf) + length (elf_instructions elf)"
    using prog(1,3) by (simp add: padded_program_def)
  then have "length hs = get_pc_index (elf_pc_base elf) + length (elf_instructions elf)"
    "length hs' = get_pc_index (elf_pc_base elf) + length (elf_instructions elf)"
    using hs hs' by (simp_all add: get_pre_compute_instructions_def get_metered_pre_compute_instructions_def collect_table_Inr)
  then show ?thesis
    using size [of False] size [of True] hs hs' by (auto simp: interpreter_new_def interpreter_new_metered_def map_pre_def instance_of_def)
qed

text \<open>
  C36. Programs that come out of the RV32IM transpiler are well-typed for the RV32IM executors.
  When \<open>from_elf\<close> accepts a nonempty program, both constructors of the interpreter return: no
  opcode is missing from the inventory, no executor panics or rejects the address spaces or
  operands of an instruction, and the table has one handler for every word after the padding
  below \<open>pc_base\<close>.
\<close>

theorem transpiled_program_loads:
  fixes invt :: "('f::field, 'd, 'r) vm_executor executor_inventory"
  assumes "canon_ok canon" "rrs_contract rrs" "elf_instructions elf \<noteq> []" "length (elf_instructions elf) < 2 ^ 64"
    and "(from_elf elf (rv32im_transpiler rrs) :: ('e transpiler_error + ('f, 'b) vm_exe) option) = Some (Inr exe)"
    and "rv32im_create_executors h = Some (Inr invt)" "length (executors invt) \<le> length air_idx"
  shows "\<exists>ii ii'. interpreter_new canon ops invt exe = Some (Inr ii) \<and>
    interpreter_new_metered canon ops invt air_idx exe = Some (Inr ii') \<and>
    length (ii_pre_compute_insns ii) = get_pc_index (elf_pc_base elf) + length (elf_instructions elf) \<and>
    length (ii_pre_compute_insns ii') = get_pc_index (elf_pc_base elf) + length (elf_instructions elf)"
  by (rule compile_program [OF assms])

text \<open>
  The witnesses run \<open>addi x1, x0, 5; mul x2, x1, x1; terminate 0\<close> at address 8, on Baby Bear with
  the decoder of RV32IM.
\<close>

definition demo_elf :: "unit elf" where
  "demo_elf = \<lparr>elf_instructions = [0x00500093, 0x02108133, 0x0000000b], elf_pc_start = 8, elf_pc_base = 8,
     elf_memory_image = [], elf_fn_bounds = ()\<rparr>"

definition demo_host :: "unit host" where
  "demo_host = \<lparr>rng_u8 = (\<lambda>_. (0, ())), utf8_report = (\<lambda>_. [])\<rparr>"

abbreviation bb_canon :: "bb \<Rightarrow> nat" where "bb_canon \<equiv> \<lambda>x. nat (bb_val x)"

lemma bb_canon_ok: "canon_ok bb_canon"
  by (simp add: canon_ok_def canonical_u32_def bb_CHAR bb_of_nat)

lemma from_elf_succeeds:
  assumes rrs: "rrs_contract rrs" and len: "length (elf_instructions elf) < 2 ^ 64"
    and ws: "\<And>w. w \<in> set (elf_instructions elf) \<Longrightarrow>
      \<exists>inst. rv32im_word rrs w = (Inr inst :: 'e transpiler_error + 'f::field instr)"
  shows "\<exists>exe. (from_elf elf (rv32im_transpiler rrs) :: ('e transpiler_error + ('f, 'b) vm_exe) option) = Some (Inr exe)"
proof -
  let ?tr = "rv32im_word rrs :: u32 \<Rightarrow> 'e transpiler_error + 'f instr"
  have "transpile (rv32im_transpiler rrs) (elf_instructions elf) = Some (transpile_words ?tr (elf_instructions elf))"
    by (rule word_transpiler.transpile_eq [OF word_transpiler.intro])
      (use rrs_contract.next_word [OF rrs] len in auto)
  moreover have "transpile_words ?tr (elf_instructions elf) \<noteq> Inl e" for e
  proof
    assume "transpile_words ?tr (elf_instructions elf) = Inl e"
    then obtain i where "i < length (elf_instructions elf)" "?tr (elf_instructions elf ! i) = Inl e"
      by (auto simp: transpile_words_Inl)
    then show False using ws [OF nth_mem, of i] by auto
  qed
  ultimately show ?thesis
    by (auto simp: from_elf_def modify_initial_memory_def rv32im_transpiler_def with_processor_def
        new_transpiler_def rv32_extension_def split: sum.splits)
qed

lemma demo_words:
  "word_opcode 0x00500093 = 0x13" "word_opcode 0x02108133 = 0x33" "word_opcode 0x0000000b = 0x0b"
  "word_funct3 0x0000000b = 0" "riscv_decode 0x00500093 = Some (Rrs_I I_addi (riscv_i 0x00500093))"
  "riscv_decode 0x02108133 = Some (Rrs_R R_mul (riscv_r 0x02108133))" "it_imm (riscv_i 0x0000000b) = 0"
  by code_simp+

lemma demo_exe: "\<exists>exe. (from_elf demo_elf (rv32im_transpiler riscv_rrs) ::
    (unit transpiler_error + (bb, unit) vm_exe) option) = Some (Inr exe)"
  by (rule from_elf_succeeds [OF riscv.rrs_contract_axioms])
    (auto simp: demo_elf_def rv32im_word_def demo_words guest_consts riscv_rrs_def)

theorem transpiled_program_loads_witness:
  "\<exists>exe invt ii. (from_elf demo_elf (rv32im_transpiler riscv_rrs) ::
      (unit transpiler_error + (bb, unit) vm_exe) option) = Some (Inr exe) \<and>
    rv32im_create_executors demo_host = Some (Inr (invt :: (bb, unit, unit) vm_executor executor_inventory)) \<and>
    interpreter_new bb_canon execution_ctx_ops invt exe = Some (Inr ii) \<and> length (ii_pre_compute_insns ii) = 5"
proof -
  obtain exe where exe: "(from_elf demo_elf (rv32im_transpiler riscv_rrs) ::
      (unit transpiler_error + (bb, unit) vm_exe) option) = Some (Inr exe)"
    using demo_exe by blast
  obtain invt where invt: "rv32im_create_executors demo_host =
      Some (Inr (invt :: (bb, unit, unit) vm_executor executor_inventory))"
    using rv32im_inventory by blast
  have "get_pc_index 8 = 2" by (simp add: get_pc_index_def DEFAULT_PC_STEP_def unat_div)
  then show ?thesis
    using transpiled_program_loads [OF bb_canon_ok riscv.rrs_contract_axioms _ _ exe invt,
        of "replicate (length (executors invt)) 0" execution_ctx_ops] exe invt
    by (auto simp: demo_elf_def)
qed

end
