(* ===== verification/Rv32_Isa.thy ===== *)
theory Rv32_Isa
  imports Rv32_Decode "HOL-Library.Signed_Division"
begin

text \<open>
  The RV32IM instruction set of the RISC-V manual, as the reference the interpreter is compared
  with: a machine with a program counter, 32 registers (register 0 reads as zero and ignores
  writes) and a byte-addressed memory of a given size. A step returns \<open>None\<close> where the machine
  raises an exception: an access out of bounds or not naturally aligned, or a program counter that
  does not address a word of the program. The instructions are the decoded words of
  \<open>Rv32_Transpile\<close>.
\<close>

unbundle bit_operations_syntax

record rv_state =
  rv_pc :: u32
  rv_regs :: "nat \<Rightarrow> u32"
  rv_mem :: "nat \<Rightarrow> u8"

definition rv_set :: "nat \<Rightarrow> u32 \<Rightarrow> rv_state \<Rightarrow> rv_state" where
  "rv_set rd v a = (if rd = 0 then a else a\<lparr>rv_regs := (rv_regs a)(rd := v)\<rparr>)"

definition rv_next :: "rv_state \<Rightarrow> rv_state" where
  "rv_next a = a\<lparr>rv_pc := rv_pc a + 4\<rparr>"

text \<open>Register-register instructions. The quotient of a division by zero has all bits set.\<close>

fun rv_r :: "r_call \<Rightarrow> u32 \<Rightarrow> u32 \<Rightarrow> u32" where
  "rv_r R_add x y = x + y"
| "rv_r R_sub x y = x - y"
| "rv_r R_xor x y = x XOR y"
| "rv_r R_or x y = x OR y"
| "rv_r R_and x y = x AND y"
| "rv_r R_sll x y = push_bit (unat y mod 32) x"
| "rv_r R_srl x y = drop_bit (unat y mod 32) x"
| "rv_r R_sra x y = word_of_int (sint x div 2 ^ (unat y mod 32))"
| "rv_r R_slt x y = of_bool (sint x < sint y)"
| "rv_r R_sltu x y = of_bool (uint x < uint y)"
| "rv_r R_mul x y = x * y"
| "rv_r R_mulh x y = word_of_int (sint x * sint y div 2 ^ 32)"
| "rv_r R_mulhu x y = word_of_int (uint x * uint y div 2 ^ 32)"
| "rv_r R_mulhsu x y = word_of_int (sint x * uint y div 2 ^ 32)"
| "rv_r R_div x y = (if y = 0 then - 1 else word_of_int (sint x sdiv sint y))"
| "rv_r R_divu x y = (if y = 0 then - 1 else x div y)"
| "rv_r R_rem x y = (if y = 0 then x else word_of_int (sint x smod sint y))"
| "rv_r R_remu x y = (if y = 0 then x else x mod y)"

definition rv_shift :: "sh_call \<Rightarrow> u32 \<Rightarrow> nat \<Rightarrow> u32" where
  "rv_shift c x n =
     (case c of Sh_slli \<Rightarrow> push_bit n x | Sh_srli \<Rightarrow> drop_bit n x | Sh_srai \<Rightarrow> word_of_int (sint x div 2 ^ n))"

definition rv_taken :: "b_call \<Rightarrow> u32 \<Rightarrow> u32 \<Rightarrow> bool" where
  "rv_taken c x y =
     (case c of
        B_beq \<Rightarrow> x = y | B_bne \<Rightarrow> x \<noteq> y
      | B_blt \<Rightarrow> sint x < sint y | B_bge \<Rightarrow> sint x \<ge> sint y
      | B_bltu \<Rightarrow> uint x < uint y | B_bgeu \<Rightarrow> uint x \<ge> uint y)"

definition rv_accessible :: "nat \<Rightarrow> nat \<Rightarrow> u32 \<Rightarrow> bool" where
  "rv_accessible msize n addr \<longleftrightarrow> unat addr mod n = 0 \<and> unat addr + n \<le> msize"

definition rv_bytes :: "nat \<Rightarrow> u32 \<Rightarrow> rv_state \<Rightarrow> u8 list" where
  "rv_bytes n addr a = map (\<lambda>i. rv_mem a (unat addr + i)) [0..<n]"

definition rv_store :: "u32 \<Rightarrow> u8 list \<Rightarrow> rv_state \<Rightarrow> rv_state" where
  "rv_store addr bs a =
     a\<lparr>rv_mem := (\<lambda>i. if unat addr \<le> i \<and> i < unat addr + length bs then bs ! (i - unat addr) else rv_mem a i)\<rparr>"

definition rv_load_step :: "nat \<Rightarrow> nat \<Rightarrow> (u8 list \<Rightarrow> u32) \<Rightarrow> IType \<Rightarrow> rv_state \<Rightarrow> rv_state option" where
  "rv_load_step msize n ext d a =
     (let addr = rv_regs a (it_rs1 d) + word_of_int (it_imm d) in
      if rv_accessible msize n addr then Some (rv_next (rv_set (it_rd d) (ext (rv_bytes n addr a)) a)) else None)"

definition rv_store_step :: "nat \<Rightarrow> nat \<Rightarrow> SType \<Rightarrow> rv_state \<Rightarrow> rv_state option" where
  "rv_store_step msize n d a =
     (let addr = rv_regs a (st_rs1 d) + word_of_int (st_imm d) in
      if rv_accessible msize n addr then Some (rv_next (rv_store addr (take n (to_le_bytes (rv_regs a (st_rs2 d)))) a))
      else None)"

definition rv_i_step :: "nat \<Rightarrow> i_call \<Rightarrow> IType \<Rightarrow> rv_state \<Rightarrow> rv_state option" where
  "rv_i_step msize c d a =
     (let x = rv_regs a (it_rs1 d); imm = word_of_int (it_imm d) :: u32;
          alu = (\<lambda>v. Some (rv_next (rv_set (it_rd d) v a))) in
      case c of
        I_addi \<Rightarrow> alu (x + imm)
      | I_xori \<Rightarrow> alu (x XOR imm)
      | I_ori \<Rightarrow> alu (x OR imm)
      | I_andi \<Rightarrow> alu (x AND imm)
      | I_slti \<Rightarrow> alu (of_bool (sint x < it_imm d))
      | I_sltui \<Rightarrow> alu (of_bool (uint x < uint imm))
      | I_lb \<Rightarrow> rv_load_step msize 1 (\<lambda>bs. scast (bs ! 0)) d a
      | I_lh \<Rightarrow> rv_load_step msize 2 (\<lambda>bs. scast (from_le_bytes bs :: 16 word)) d a
      | I_lw \<Rightarrow> rv_load_step msize 4 from_le_bytes d a
      | I_lbu \<Rightarrow> rv_load_step msize 1 from_le_bytes d a
      | I_lhu \<Rightarrow> rv_load_step msize 2 from_le_bytes d a
      | I_jalr \<Rightarrow> Some (rv_set (it_rd d) (rv_pc a + 4) (a\<lparr>rv_pc := (x + imm) AND NOT 1\<rparr>))
      | I_fence \<Rightarrow> Some (rv_next a))"

text \<open>
  A jump sets the program counter whatever its target is; a target that does not address a word of
  the program faults at the fetch of the next cycle.
\<close>

fun rv_step :: "nat \<Rightarrow> rrs_insn \<Rightarrow> rv_state \<Rightarrow> rv_state option" where
  "rv_step msize (Rrs_R c d) a = Some (rv_next (rv_set (rt_rd d) (rv_r c (rv_regs a (rt_rs1 d)) (rv_regs a (rt_rs2 d))) a))"
| "rv_step msize (Rrs_I c d) a = rv_i_step msize c d a"
| "rv_step msize (Rrs_Sh c d) a = Some (rv_next (rv_set (is_rd d) (rv_shift c (rv_regs a (is_rs1 d)) (is_shamt d)) a))"
| "rv_step msize (Rrs_S c d) a = rv_store_step msize (case c of S_sb \<Rightarrow> 1 | S_sh \<Rightarrow> 2 | S_sw \<Rightarrow> 4) d a"
| "rv_step msize (Rrs_B c d) a = Some
     (if rv_taken c (rv_regs a (bt_rs1 d)) (rv_regs a (bt_rs2 d))
      then a\<lparr>rv_pc := rv_pc a + word_of_int (bt_imm d)\<rparr> else rv_next a)"
| "rv_step msize (Rrs_J J_jal d) a = Some (rv_set (jt_rd d) (rv_pc a + 4) (a\<lparr>rv_pc := rv_pc a + word_of_int (jt_imm d)\<rparr>))"
| "rv_step msize (Rrs_U c d) a = Some (rv_next (rv_set (ut_rd d)
     (case c of U_lui \<Rightarrow> word_of_int (ut_imm d) | U_auipc \<Rightarrow> rv_pc a + word_of_int (ut_imm d)) a))"

section \<open>Programs\<close>

text \<open>
  The word at the program counter. Of the words that are not RV32IM, only TERMINATE is executed:
  it halts the machine with its immediate as the exit code.
\<close>

definition rv_fetch :: "u32 \<Rightarrow> u32 list \<Rightarrow> u32 \<Rightarrow> u32 option" where
  "rv_fetch pc_base ws pc =
     (if unat pc mod 4 = 0 \<and> unat pc_base \<le> unat pc \<and> (unat pc - unat pc_base) div 4 < length ws
      then Some (ws ! ((unat pc - unat pc_base) div 4)) else None)"

datatype rv_outcome = Running rv_state | Halted u32 rv_state

definition rv_cycle :: "rrs_lib \<Rightarrow> nat \<Rightarrow> u32 \<Rightarrow> u32 list \<Rightarrow> rv_state \<Rightarrow> rv_outcome option" where
  "rv_cycle rrs msize pc_base ws a =
     (case rv_fetch pc_base ws (rv_pc a) of
        None \<Rightarrow> None
      | Some w \<Rightarrow>
          if word_opcode w = SYSTEM_OPCODE \<and> word_funct3 w = TERMINATE_FUNCT3
          then Some (Halted (word_of_int (it_imm (itype_new rrs w))) a)
          else if word_opcode w = SYSTEM_OPCODE \<or> word_opcode w = CSR_OPCODE then None
          else (case rrs_decode rrs w of None \<Rightarrow> None | Some d \<Rightarrow> map_option Running (rv_step msize d a)))"

fun rv_run :: "rrs_lib \<Rightarrow> nat \<Rightarrow> u32 \<Rightarrow> u32 list \<Rightarrow> nat \<Rightarrow> rv_state \<Rightarrow> rv_outcome option" where
  "rv_run rrs msize pc_base ws 0 a = Some (Running a)"
| "rv_run rrs msize pc_base ws (Suc n) a =
     (case rv_cycle rrs msize pc_base ws a of
        None \<Rightarrow> None
      | Some (Halted code a) \<Rightarrow> Some (Halted code a)
      | Some (Running a) \<Rightarrow> rv_run rrs msize pc_base ws n a)"

end
