(* ===== verification/Rv32_Refine.thy ===== *)
theory Rv32_Refine
  imports Rv32_Compile Rv32_Isa
begin

text \<open>
  The interpreter implements the RV32IM machine. The abstraction \<open>abs_state\<close> reads the registers out
  of address space 1 and the memory out of address space 2; \<open>rv_ok\<close> is the invariant of the states
  of the VM. Reads and writes of registers and memory are put in normal form once, so that a
  handler becomes an update of the state, which is compared with the step of the machine.
\<close>

unbundle bit_operations_syntax

section \<open>The abstraction\<close>

abbreviation mem_of :: "('f, 'd, 'r, 'c) vm_exec_state \<Rightarrow> address_map" where
  "mem_of s \<equiv> vs_memory (es_vm_state s)"

definition bytes_at :: "address_map \<Rightarrow> nat \<Rightarrow> nat \<Rightarrow> nat \<Rightarrow> u8 list" where
  "bytes_at m sp n p = map (\<lambda>i. byte_at m sp (p + i)) [0..<n]"

definition reg_val :: "address_map \<Rightarrow> nat \<Rightarrow> u32" where
  "reg_val m r = from_le_bytes (bytes_at m 1 4 (4 * r))"

definition abs_state :: "('f, 'd, 'r) vm_state \<Rightarrow> rv_state" where
  "abs_state v =
     \<lparr>rv_pc = vs_pc v, rv_regs = (\<lambda>r. if r < 32 then reg_val (vs_memory v) r else 0),
      rv_mem = (\<lambda>i. if i < as_size (vs_memory v) 2 then byte_at (vs_memory v) 2 i else 0)\<rparr>"

text \<open>The invariant: 32 registers, of which register 0 is zero, and a memory of \<open>msize\<close> bytes.\<close>

definition mem_ok :: "nat \<Rightarrow> address_map \<Rightarrow> bool" where
  "mem_ok msize m \<longleftrightarrow> am_ok m \<and> 128 \<le> as_size m 1 \<and> as_size m 2 = msize \<and> 4 dvd msize \<and> reg_val m 0 = 0"

definition rv_ok :: "nat \<Rightarrow> ('f, 'd, 'r) vm_state \<Rightarrow> bool" where
  "rv_ok msize v \<longleftrightarrow> mem_ok msize (vs_memory v)"

definition env_of :: "('f, 'd, 'r, 'c) vm_exec_state \<Rightarrow> _" where
  "env_of s = (es_exit_code s, es_ctx s, vs_streams (es_vm_state s), vs_rng (es_vm_state s))"

definition set_mem :: "address_map \<Rightarrow> ('f, 'd, 'r, 'c) vm_exec_state \<Rightarrow> ('f, 'd, 'r, 'c) vm_exec_state" where
  "set_mem m s = s\<lparr>es_vm_state := es_vm_state s\<lparr>vs_memory := m\<rparr>\<rparr>"

definition put_reg :: "nat \<Rightarrow> u32 \<Rightarrow> ('f, 'd, 'r, 'c) vm_exec_state \<Rightarrow> ('f, 'd, 'r, 'c) vm_exec_state" where
  "put_reg r v s = set_mem (the (gm_write 1 (mem_of s) 1 (ucast (reg_ptr r)) (to_le_bytes v))) s"

definition put_mem :: "u32 \<Rightarrow> u8 list \<Rightarrow> ('f, 'd, 'r, 'c) vm_exec_state \<Rightarrow> ('f, 'd, 'r, 'c) vm_exec_state" where
  "put_mem addr bs s = set_mem (the (gm_write 1 (mem_of s) 2 addr bs)) s"

lemma length_bytes_at [simp]: "length (bytes_at m sp n p) = n"
  by (simp add: bytes_at_def)

lemma pure_on_memory: "on_memory_operation execution_ctx_ops sp ptr n c = Some c"
  by (simp add: execution_ctx_ops_def)

text \<open>Reads.\<close>

lemma vm_read_pure:
  assumes "am_ok (mem_of s)" "unat ptr + 4 \<le> as_size (mem_of s) sp"
  shows "vm_read execution_ctx_ops 4 sp ptr s = Some (bytes_at (mem_of s) sp 4 (unat ptr), s)"
  using assms by (simp add: vm_read_def pure_on_memory host_read_def gm_read_eq bytes_at_def)

lemma read_reg_pure:
  assumes "rv_ok msize (es_vm_state s)" "r < 32"
  shows "read_reg execution_ctx_ops (ucast (reg_ptr r)) s = Some (to_le_bytes (reg_val (mem_of s) r), s)"
  using assms vm_read_pure [of s "ucast (reg_ptr r)" 1]
  by (simp add: read_reg_def RV32_REGISTER_NUM_LIMBS_def RV32_REGISTER_AS_def rv_ok_def mem_ok_def unat_reg_ptr reg_val_def)

text \<open>Writes.\<close>

lemma gm_write_total:
  assumes "am_ok m" "unat ptr + length bs \<le> as_size m sp" "bs \<noteq> []"
  shows "gm_write 1 m sp ptr bs = Some (the (gm_write 1 m sp ptr bs))"
  using gm_write_None [OF assms(1,3), of 1 sp ptr] assms(2) by (cases "gm_write 1 m sp ptr bs") auto

lemma write_pure:
  assumes "am_ok (mem_of s)" "unat ptr + length bs \<le> as_size (mem_of s) sp" "bs \<noteq> []"
  shows "vm_write execution_ctx_ops sp ptr bs s = Some (set_mem (the (gm_write 1 (mem_of s) sp ptr bs)) s)"
  using gm_write_total [OF assms]
  by (simp add: vm_write_def pure_on_memory host_write_def set_mem_def) (metis option.simps(9))

lemma write_reg_pure:
  assumes "rv_ok msize (es_vm_state s)" "r < 32"
  shows "write_reg execution_ctx_ops (ucast (reg_ptr r)) (to_le_bytes v) s = Some (put_reg r v s)"
proof -
  have "length (to_le_bytes v) \<noteq> 0" by simp
  then have "to_le_bytes v \<noteq> []" by fastforce
  then show ?thesis
    using assms write_pure [of s "ucast (reg_ptr r)" "to_le_bytes v" 1]
    by (simp add: write_reg_def RV32_REGISTER_AS_def put_reg_def rv_ok_def mem_ok_def unat_reg_ptr)
qed

lemma bytes_at_write:
  assumes "am_ok m" "gm_write 1 m sp ptr bs = Some m'" "p + n \<le> as_size m sp'"
  shows "bytes_at m' sp' n p = map (\<lambda>i. if sp' = sp \<and> unat ptr \<le> i \<and> i < unat ptr + length bs
    then bs ! (i - unat ptr) else byte_at m sp' i) [p..<p + n]"
  by (rule nth_equalityI) (use assms(3) in \<open>auto simp: bytes_at_def gm_write_Some(4) [OF assms(1,2)]\<close>)

lemma reg_val_write_reg:
  assumes "am_ok m" "128 \<le> as_size m 1" "gm_write 1 m 1 (ucast (reg_ptr r)) (to_le_bytes v) = Some m'" "r < 32" "r' < 32"
  shows "reg_val m' r' = (if r' = r then v else reg_val m r')"
proof -
  have eq: "bytes_at m' 1 4 (4 * r') = map (\<lambda>i. if 4 * r \<le> i \<and> i < 4 * r + 4
      then to_le_bytes v ! (i - 4 * r) else byte_at m 1 i) [4 * r'..<4 * r' + 4]"
    using bytes_at_write [OF assms(1,3), of "4 * r'" 4 1] assms(2,4,5) by (simp add: unat_reg_ptr)
  have "bytes_at m' 1 4 (4 * r') = (if r' = r then to_le_bytes v else bytes_at m 1 4 (4 * r'))"
  proof (cases "r' = r")
    case True
    then show ?thesis unfolding eq by (auto intro!: nth_equalityI)
  next
    case False
    then show ?thesis unfolding eq by (auto intro!: nth_equalityI simp: bytes_at_def)
  qed
  then show ?thesis by (simp add: reg_val_def)
qed

lemma reg_val_write_other:
  assumes "am_ok m" "128 \<le> as_size m 1" "gm_write 1 m sp ptr bs = Some m'" "sp \<noteq> 1" "r < 32"
  shows "reg_val m' r = reg_val m r"
proof -
  have "bytes_at m' 1 4 (4 * r) = bytes_at m 1 4 (4 * r)"
    using bytes_at_write [OF assms(1,3), of "4 * r" 4 1] assms(2,4,5)
    by (auto intro!: nth_equalityI simp: bytes_at_def)
  then show ?thesis by (simp add: reg_val_def)
qed

lemma put_reg_ok:
  assumes "rv_ok msize (es_vm_state s)" "0 < r" "r < 32"
  shows "rv_ok msize (es_vm_state (put_reg r v s))"
    and "abs_state (es_vm_state (put_reg r v s)) = rv_set r v (abs_state (es_vm_state s))"
proof -
  let ?m = "mem_of s" and ?m' = "the (gm_write 1 (mem_of s) 1 (ucast (reg_ptr r)) (to_le_bytes v))"
  have m: "am_ok ?m" "128 \<le> as_size ?m 1" "as_size ?m 2 = msize" "4 dvd msize" "reg_val ?m 0 = 0"
    using assms(1) by (simp_all add: rv_ok_def mem_ok_def)
  have "length (to_le_bytes v) \<noteq> 0" by simp
  then have ne: "to_le_bytes v \<noteq> []" by fastforce
  have w: "gm_write 1 ?m 1 (ucast (reg_ptr r)) (to_le_bytes v) = Some ?m'"
    by (rule gm_write_total) (use m assms(3) ne in \<open>simp_all add: unat_reg_ptr\<close>)
  note ok = gm_write_Some [OF m(1) w] and regs = reg_val_write_reg [OF m(1,2) w assms(3)]
  have "byte_at ?m' 2 i = byte_at ?m 2 i" if "i < msize" for i using ok(4) [of i 2] m(3) that by simp
  then show "abs_state (es_vm_state (put_reg r v s)) = rv_set r v (abs_state (es_vm_state s))"
    using assms(2,3) regs ok(2) m(3) by (auto simp: abs_state_def rv_set_def put_reg_def set_mem_def fun_eq_iff)
  show "rv_ok msize (es_vm_state (put_reg r v s))"
    using regs [of 0] ok m assms(2) by (simp add: rv_ok_def mem_ok_def put_reg_def set_mem_def)
qed

lemma put_mem_ok:
  assumes "rv_ok msize (es_vm_state s)" "unat addr + length bs \<le> msize" "bs \<noteq> []"
  shows "rv_ok msize (es_vm_state (put_mem addr bs s))"
    and "abs_state (es_vm_state (put_mem addr bs s)) = rv_store addr bs (abs_state (es_vm_state s))"
proof -
  let ?m = "mem_of s" and ?m' = "the (gm_write 1 (mem_of s) 2 addr bs)"
  have m: "am_ok ?m" "128 \<le> as_size ?m 1" "as_size ?m 2 = msize" "4 dvd msize" "reg_val ?m 0 = 0"
    using assms(1) by (simp_all add: rv_ok_def mem_ok_def)
  have w: "gm_write 1 ?m 2 addr bs = Some ?m'" by (rule gm_write_total) (use m assms in simp_all)
  note ok = gm_write_Some [OF m(1) w] and regs = reg_val_write_other [OF m(1,2) w]
  show "abs_state (es_vm_state (put_mem addr bs s)) = rv_store addr bs (abs_state (es_vm_state s))"
    using assms(2) regs ok m(3) by (auto simp: abs_state_def rv_store_def put_mem_def set_mem_def fun_eq_iff)
  show "rv_ok msize (es_vm_state (put_mem addr bs s))"
    using regs [of 0] ok m by (simp add: rv_ok_def mem_ok_def put_mem_def set_mem_def)
qed

lemma env_updates [simp]:
  "env_of (put_reg r v s) = env_of s" "env_of (put_mem addr bs s) = env_of s" "env_of (set_pc pc s) = env_of s"
  "get_pc (put_reg r v s) = get_pc s" "get_pc (put_mem addr bs s) = get_pc s" "get_pc (set_pc pc s) = pc"
  by (simp_all add: env_of_def put_reg_def put_mem_def set_mem_def set_pc_def get_pc_def)

lemma set_pc_ok [simp]:
  "rv_ok msize (es_vm_state (set_pc pc s)) = rv_ok msize (es_vm_state s)"
  "abs_state (es_vm_state (set_pc pc s)) = (abs_state (es_vm_state s))\<lparr>rv_pc := pc\<rparr>"
  "mem_of (set_pc pc s) = mem_of s"
  by (simp_all add: rv_ok_def set_pc_def abs_state_def cong: if_cong)

lemma abs_pc [simp]: "rv_pc (abs_state (es_vm_state s)) = get_pc s"
  by (simp add: abs_state_def get_pc_def)

lemma abs_reg: "r < 32 \<Longrightarrow> reg_val (mem_of s) r = rv_regs (abs_state (es_vm_state s)) r"
  by (simp add: abs_state_def)

section \<open>Instructions without memory access\<close>

text \<open>What it means that a handler implements a step of the machine.\<close>

definition refines ::
  "nat \<Rightarrow> ('f, 'd, 'r, 'c) handler \<Rightarrow> ('f, 'd, 'r, 'c) vm_exec_state \<Rightarrow> rv_state option \<Rightarrow> bool" where
  "refines msize hnd s oa \<longleftrightarrow> (\<forall>a. oa = Some a \<longrightarrow>
     (\<exists>s'. hnd s = Some s' \<and> abs_state (es_vm_state s') = a \<and> rv_ok msize (es_vm_state s') \<and> env_of s' = env_of s))"

lemma refines_Some:
  "hnd s = Some s' \<Longrightarrow> rv_ok msize (es_vm_state s') \<Longrightarrow> env_of s' = env_of s \<Longrightarrow>
   abs_state (es_vm_state s') = a \<Longrightarrow> refines msize hnd s (Some a)"
  by (simp add: refines_def)

lemma refines_reg:
  assumes "rv_ok msize (es_vm_state s)" "0 < r" "r < 32" "hnd s = Some (step_pc (put_reg r v s))"
    "v' = v"
  shows "refines msize hnd s (Some (rv_next (rv_set r v' (abs_state (es_vm_state s)))))"
  using assms(2) put_reg_ok [OF assms(1-3), of v]
  by - (rule refines_Some, rule assms(4), simp_all add: step_pc_def pc_step_def rv_next_def assms(5) rv_set_def)

lemma refines_nop:
  assumes "rv_ok msize (es_vm_state s)"
  shows "refines msize nop_handler s (Some (rv_next (abs_state (es_vm_state s))))"
proof (rule refines_Some)
  have "es_vm_state s\<lparr>vs_streams := vs_streams (es_vm_state s), vs_rng := vs_rng (es_vm_state s)\<rparr> = es_vm_state s"
    by simp
  then show "nop_handler s = Some (set_pc (get_pc s + 4) s)"
    by (simp add: nop_handler_def create_handler_def phantom_execute_e12_def nop_phantom_def sys_phantoms_def
        from_repr_def pc_step_def Let_def)
qed (use assms in \<open>simp_all add: rv_next_def\<close>)

lemma rv_set_zero [simp]: "rv_set 0 v a = a"
  by (simp add: rv_set_def)

text \<open>The results of the executors are those of the machine.\<close>

lemma shift_amount: "unat ((y :: u32) AND 0x1F) = unat y mod 32"
proof -
  have "(0x1F :: u32) = mask 5" by (simp add: mask_eq_exp_minus_1)
  then have "unat (y AND 0x1F) = unat (take_bit 5 y)" by (simp only: take_bit_eq_mask)
  also have "\<dots> = take_bit 5 (unat y)" by (rule unsigned_take_bit_eq)
  also have "\<dots> = unat y mod 32" by (simp add: take_bit_eq_mod)
  finally show ?thesis .
qed

lemma signed_shift: "signed_drop_bit n (x :: u32) = word_of_int (sint x div 2 ^ n)"
  by (intro bit_word_eqI) (auto simp: bit_signed_drop_bit_iff bit_word_of_int_iff bit_drop_bit_eq bit_sint_iff
      dest: bit_imp_le_length simp flip: drop_bit_eq_div)

primrec shift_call :: "ShiftOpcode \<Rightarrow> r_call" where
  "shift_call SLL = R_sll" | "shift_call SRL = R_srl" | "shift_call SRA = R_sra"

primrec mulh_call :: "MulHOpcode \<Rightarrow> r_call" where
  "mulh_call MULH = R_mulh" | "mulh_call MULHU = R_mulhu" | "mulh_call MULHSU = R_mulhsu"

primrec divrem_call :: "DivRemOpcode \<Rightarrow> r_call" where
  "divrem_call DIV = R_div" | "divrem_call DIVU = R_divu" | "divrem_call REM = R_rem" | "divrem_call REMU = R_remu"

lemma shift_correct: "shift_compute op (to_le_bytes x) y = to_le_bytes (rv_r (shift_call op) x y)"
  by (cases op) (simp_all add: shift_amount signed_shift)

lemma from_const_bytes:
  "from_le_bytes [0, 0, 0, 0] = (0 :: u32)" "from_le_bytes [1, 0, 0, 0] = (1 :: u32)"
  "from_le_bytes [- 1, - 1, - 1, - 1] = (- 1 :: u32)"
  by (simp_all add: from_le_bytes_def unsigned_minus_1_eq_mask mask_eq_exp_minus_1)

lemma const_bytes:
  "to_le_bytes (0 :: u32) = [0, 0, 0, 0]" "to_le_bytes (1 :: u32) = [1, 0, 0, 0]"
  "to_le_bytes (- 1 :: u32) = [- 1, - 1, - 1, - 1]"
  using le_bytes32(1) [of "[0, 0, 0, 0]"] le_bytes32(1) [of "[1, 0, 0, 0]"] le_bytes32(1) [of "[- 1, - 1, - 1, - 1]"]
  by (simp_all add: from_const_bytes)

lemma replicate4: "replicate 4 x = [x, x, x, x]"
  by (simp add: numeral_eq_Suc)

lemma bool_bytes: "(replicate 4 0)[0 := of_bool b] = to_le_bytes (of_bool b :: u32)"
  by (cases b) (simp_all only: of_bool_eq const_bytes replicate4 list_update_code)

lemma high_word_bits: "high_u32 (word_of_int p) = word_of_int (drop_bit 32 p)"
  by (intro bit_word_eqI)
    (auto simp: high_u32_def bit_signed_drop_bit_iff bit_word_of_int_iff bit_drop_bit_eq bit_ucast_iff add.commute)

lemma high_word: "high_u32 (word_of_int p) = word_of_int (p div 2 ^ 32)"
  by (simp only: high_word_bits drop_bit_eq_div)

lemma mulh_correct: "mulh_compute op (to_le_bytes x) (to_le_bytes y) = to_le_bytes (rv_r (mulh_call op) x y)"
  using high_word [of "sint x * sint y"] high_word [of "uint x * uint y"] high_word [of "sint x * uint y"]
  by (cases op) (simp_all add: i32_as_i64_def u32_as_i64_def)

lemma zero_bytes_iff: "to_le_bytes (y :: u32) = replicate 4 0 \<longleftrightarrow> y = 0"
proof -
  have "replicate 4 0 = to_le_bytes (0 :: u32)" by (simp add: const_bytes replicate4)
  then show ?thesis by (metis le_bytes32(2))
qed

lemma zero_bytes: "replicate 4 0 = to_le_bytes (0 :: u32)"
  by (simp only: const_bytes replicate4)

lemma ones_bytes: "replicate 4 (- 1) = to_le_bytes (- 1 :: u32)"
  by (simp add: const_bytes replicate4)

lemma div_overflow: "- i32_min = i32_min" "word_of_int (sint i32_min smod sint (- 1 :: u32)) = (0 :: u32)"
  by code_simp+

lemma divrem_correct: "divrem_compute op (to_le_bytes x) (to_le_bytes y) = to_le_bytes (rv_r (divrem_call op) x y)"
  using div_overflow(2) arg_cong [OF div_overflow(1), of to_le_bytes]
  by (cases op) (auto simp: Let_def zero_bytes_iff ones_bytes zero_bytes dest: zero_bytes_iff [unfolded zero_bytes, THEN iffD1])

text \<open>Handlers in normal form.\<close>

lemma imm_normal:
  assumes "rv_ok msize (es_vm_state s)" "rd < 32" "rs1 < 32"
  shows "base_alu_execute_e12 execution_ctx_ops True op (alu_imm rd rs1 y) s =
      Some (step_pc (put_reg rd (alu_compute op (reg_val (mem_of s) rs1) y) s))"
    "less_than_execute_e12 execution_ctx_ops (True, u, alu_imm rd rs1 y) s =
      Some (step_pc (put_reg rd (of_bool (if u then reg_val (mem_of s) rs1 < y else sint (reg_val (mem_of s) rs1) < sint y)) s))"
    "shift_execute_e12 execution_ctx_ops (True, sh, alu_imm rd rs1 y) s =
      Some (step_pc (put_reg rd (rv_r (shift_call sh) (reg_val (mem_of s) rs1) y) s))"
  using assms by (simp_all add: base_alu_execute_e12_def less_than_execute_e12_def shift_execute_e12_def alu_imm_def
      read_reg_pure write_reg_pure bool_bytes shift_correct RV32_REGISTER_NUM_LIMBS_def Let_def)

lemma reg_normal:
  assumes "rv_ok msize (es_vm_state s)" "rt_rd d < 32" "rt_rs1 d < 32" "rt_rs2 d < 32"
  shows "base_alu_execute_e12 execution_ctx_ops False op (alu_regs d) s = Some (step_pc (put_reg (rt_rd d)
      (alu_compute op (reg_val (mem_of s) (rt_rs1 d)) (reg_val (mem_of s) (rt_rs2 d))) s))"
    "less_than_execute_e12 execution_ctx_ops (False, u, alu_regs d) s = Some (step_pc (put_reg (rt_rd d)
      (rv_r (if u then R_sltu else R_slt) (reg_val (mem_of s) (rt_rs1 d)) (reg_val (mem_of s) (rt_rs2 d))) s))"
    "shift_execute_e12 execution_ctx_ops (False, sh, alu_regs d) s = Some (step_pc (put_reg (rt_rd d)
      (rv_r (shift_call sh) (reg_val (mem_of s) (rt_rs1 d)) (reg_val (mem_of s) (rt_rs2 d))) s))"
    "mul_execute_e12 execution_ctx_ops (mul_regs d) s = Some (step_pc (put_reg (rt_rd d)
      (rv_r R_mul (reg_val (mem_of s) (rt_rs1 d)) (reg_val (mem_of s) (rt_rs2 d))) s))"
    "mulh_execute_e12 execution_ctx_ops (mh, mul_regs d) s = Some (step_pc (put_reg (rt_rd d)
      (rv_r (mulh_call mh) (reg_val (mem_of s) (rt_rs1 d)) (reg_val (mem_of s) (rt_rs2 d))) s))"
    "divrem_execute_e12 execution_ctx_ops (dr, mul_regs d) s = Some (step_pc (put_reg (rt_rd d)
      (rv_r (divrem_call dr) (reg_val (mem_of s) (rt_rs1 d)) (reg_val (mem_of s) (rt_rs2 d))) s))"
  using assms by (simp_all add: base_alu_execute_e12_def less_than_execute_e12_def shift_execute_e12_def alu_regs_def
      mul_execute_e12_def mulh_execute_e12_def divrem_execute_e12_def mul_regs_def read_reg_pure write_reg_pure
      bool_bytes shift_correct mulh_correct divrem_correct word_less_def RV32_REGISTER_NUM_LIMBS_def Let_def)

lemma refines_r:
  assumes "rv_ok msize (es_vm_state s)" "insn_ok (Rrs_R c d)"
  shows "refines msize (insn_handler execution_ctx_ops (Rrs_R c d)) s (rv_step msize (Rrs_R c d) (abs_state (es_vm_state s)))"
proof (cases "rt_rd d = 0")
  case True
  then show ?thesis using refines_nop [OF assms(1)] by (simp add: r_handler_def)
next
  case False
  have r: "rt_rd d < 32" "rt_rs1 d < 32" "rt_rs2 d < 32" using assms(2) by (simp_all add: reg_ok_def)
  let ?x = "reg_val (mem_of s) (rt_rs1 d)" and ?y = "reg_val (mem_of s) (rt_rs2 d)"
  have "insn_handler execution_ctx_ops (Rrs_R c d) s = Some (step_pc (put_reg (rt_rd d) (rv_r c ?x ?y) s))"
    using False by (cases c) (simp_all add: r_handler_def reg_normal [OF assms(1) r])
  from refines_reg [where hnd = "insn_handler execution_ctx_ops (Rrs_R c d)", OF assms(1) _ r(1) this refl] show ?thesis using False by (simp add: abs_reg r)
qed

lemma refines_alu_imm:
  assumes "rv_ok msize (es_vm_state s)" "insn_ok (Rrs_I c d)" "c \<in> {I_addi, I_xori, I_ori, I_andi, I_slti, I_sltui}"
  shows "refines msize (i_handler execution_ctx_ops c d) s (rv_i_step msize c d (abs_state (es_vm_state s)))"
proof (cases "it_rd d = 0")
  case True
  then show ?thesis using refines_nop [OF assms(1)] assms(3) by (auto simp: i_handler_def rv_i_step_def Let_def)
next
  case False
  have r: "it_rd d < 32" "it_rs1 d < 32" using assms(2) by (simp_all add: reg_ok_def)
  have imm: "sint (word_of_int (it_imm d) :: u32) = it_imm d"
    using assms(2) by (simp add: signed_of_int signed_take_bit_int_eq_self)
  show ?thesis
    using assms(3) False refines_reg [OF assms(1) _ r(1), of "i_handler execution_ctx_ops c d"]
    by (auto simp: i_handler_def rv_i_step_def imm_normal [OF assms(1) r] abs_reg r imm word_less_def Let_def)
qed

lemma refines_shift_imm:
  assumes "rv_ok msize (es_vm_state s)" "insn_ok (Rrs_Sh c d)"
  shows "refines msize (insn_handler execution_ctx_ops (Rrs_Sh c d)) s (rv_step msize (Rrs_Sh c d) (abs_state (es_vm_state s)))"
proof (cases "is_rd d = 0")
  case True
  then show ?thesis using refines_nop [OF assms(1)] by simp
next
  case False
  have r: "is_rd d < 32" "is_rs1 d < 32" "is_shamt d < 32" using assms(2) by (simp_all add: reg_ok_def)
  have n: "unat (word_of_nat (is_shamt d) :: u32) = is_shamt d"
    using r(3) by (simp add: unsigned_of_nat take_bit_nat_eq_self)
  have "insn_handler execution_ctx_ops (Rrs_Sh c d) s =
      Some (step_pc (put_reg (is_rd d) (rv_shift c (reg_val (mem_of s) (is_rs1 d)) (is_shamt d)) s))"
    using False r(3) by (cases c) (simp_all add: imm_normal [OF assms(1) r(1,2)] rv_shift_def n)
  from refines_reg [where hnd = "insn_handler execution_ctx_ops (Rrs_Sh c d)", OF assms(1) _ r(1) this refl] show ?thesis using False by (simp add: abs_reg r)
qed

section \<open>Control transfer and upper immediates\<close>

lemma branch_target: "word_of_int (uint pc + imm) = pc + (word_of_int imm :: u32)"
  by simp

lemma bytes_eq_iff: "to_le_bytes (x :: u32) = to_le_bytes y \<longleftrightarrow> x = y"
  by (metis le_bytes32(2))

lemma refines_branch:
  assumes "rv_ok msize (es_vm_state s)" "insn_ok (Rrs_B c d)"
  shows "refines msize (insn_handler execution_ctx_ops (Rrs_B c d)) s (rv_step msize (Rrs_B c d) (abs_state (es_vm_state s)))"
proof -
  have r: "bt_rs1 d < 32" "bt_rs2 d < 32" using assms(2) by (simp_all add: reg_ok_def)
  let ?x = "reg_val (mem_of s) (bt_rs1 d)" and ?y = "reg_val (mem_of s) (bt_rs2 d)"
  have "insn_handler execution_ctx_ops (Rrs_B c d) s =
      Some (set_pc (if rv_taken c ?x ?y then get_pc s + word_of_int (bt_imm d) else get_pc s + 4) s)"
    by (cases c) (simp_all add: branch_eq_execute_e12_def branch_lt_execute_e12_def branch_regs_def rv_taken_def
      read_reg_pure [OF assms(1)] r bytes_eq_iff pc_step_def word_less_def word_le_def Let_def)
  then show ?thesis
    unfolding rv_step.simps
    by - (rule refines_Some, assumption, use assms(1) in \<open>simp_all add: abs_reg r rv_next_def\<close>)
qed

text \<open>A write that is skipped for register 0.\<close>

definition put_reg0 :: "nat \<Rightarrow> u32 \<Rightarrow> ('f, 'd, 'r, 'c) vm_exec_state \<Rightarrow> ('f, 'd, 'r, 'c) vm_exec_state" where
  "put_reg0 r v s = (if r = 0 then s else put_reg r v s)"

lemma put_reg0_ok:
  assumes "rv_ok msize (es_vm_state s)" "r < 32"
  shows "rv_ok msize (es_vm_state (put_reg0 r v s))"
    "abs_state (es_vm_state (put_reg0 r v s)) = rv_set r v (abs_state (es_vm_state s))"
    "env_of (put_reg0 r v s) = env_of s" "get_pc (put_reg0 r v s) = get_pc s"
  using put_reg_ok [OF assms(1) _ assms(2), of v] assms(1) by (auto simp: put_reg0_def)

lemma write_reg0:
  assumes "rv_ok msize (es_vm_state s)" "r < 32"
  shows "(if r \<noteq> 0 then write_reg execution_ctx_ops (ucast (reg_ptr r)) (to_le_bytes v) s else Some s) = Some (put_reg0 r v s)"
    "r = 0 \<or> write_reg execution_ctx_ops (ucast (reg_ptr r)) (to_le_bytes v) s = Some (put_reg0 r v s)"
  using write_reg_pure [OF assms, of v] by (auto simp: put_reg0_def)

lemma refines_set_pc:
  assumes "rv_ok msize (es_vm_state s)" "r < 32" "hnd s = Some (set_pc pc (put_reg0 r v s))"
  shows "refines msize hnd s (Some ((rv_set r v (abs_state (es_vm_state s)))\<lparr>rv_pc := pc\<rparr>))"
  by (rule refines_Some, rule assms(3)) (simp_all add: put_reg0_ok [OF assms(1,2)])

lemma rv_set_pc: "rv_set r v (a\<lparr>rv_pc := pc\<rparr>) = (rv_set r v a)\<lparr>rv_pc := pc\<rparr>"
  by (simp add: rv_set_def)

lemma rv_next_set: "rv_next (rv_set r v a) = (rv_set r v a)\<lparr>rv_pc := rv_pc a + 4\<rparr>"
  by (simp add: rv_set_def rv_next_def)

lemma clear_bit0: "w - (w AND 1) = (w AND NOT 1 :: u32)"
proof -
  have "w - (w AND 1) = w AND NOT (w AND 1)" by (rule disjunctive_diff) (simp add: bit_and_iff)
  also have "\<dots> = w AND NOT 1" by (intro bit_word_eqI) (auto simp: bit_simps)
  finally show ?thesis .
qed

lemma refines_jal:
  assumes "rv_ok msize (es_vm_state s)" "insn_ok (Rrs_J c d)"
  shows "refines msize (insn_handler execution_ctx_ops (Rrs_J c d)) s (rv_step msize (Rrs_J c d) (abs_state (es_vm_state s)))"
proof -
  have r: "jt_rd d < 32" using assms(2) by (simp add: reg_ok_def)
  obtain "c = J_jal" by (cases c)
  have "insn_handler execution_ctx_ops (Rrs_J c d) s =
      Some (set_pc (get_pc s + word_of_int (jt_imm d)) (put_reg0 (jt_rd d) (get_pc s + 4) s))"
    using write_reg0(2) [OF assms(1) r, of "get_pc s + 4"] \<open>c = J_jal\<close>
    by (auto simp: jal_lui_execute_e12_def pc_step_def put_reg0_def Let_def)
  from refines_set_pc [where hnd = "insn_handler execution_ctx_ops (Rrs_J c d)", OF assms(1) r this]
  show ?thesis by (simp add: \<open>c = J_jal\<close> rv_set_pc)
qed

lemma refines_jalr:
  assumes "rv_ok msize (es_vm_state s)" "insn_ok (Rrs_I I_jalr d)"
  shows "refines msize (i_handler execution_ctx_ops I_jalr d) s (rv_i_step msize I_jalr d (abs_state (es_vm_state s)))"
proof -
  have r: "it_rd d < 32" "it_rs1 d < 32" using assms(2) by (simp_all add: reg_ok_def)
  have "i_handler execution_ctx_ops I_jalr d s = Some (set_pc
      ((reg_val (mem_of s) (it_rs1 d) + word_of_int (it_imm d)) AND NOT 1) (put_reg0 (it_rd d) (get_pc s + 4) s))"
    using write_reg0(2) [OF assms(1) r(1), of "get_pc s + 4"]
    by (auto simp: i_handler_def jalr_execute_e12_def read_reg_pure [OF assms(1)] r pc_step_def put_reg0_def
        Let_def clear_bit0)
  from refines_set_pc [where hnd = "i_handler execution_ctx_ops I_jalr d", OF assms(1) r(1) this]
  show ?thesis by (simp add: rv_i_step_def Let_def abs_reg r rv_set_pc)
qed

lemma refines_upper:
  assumes "rv_ok msize (es_vm_state s)" "insn_ok (Rrs_U c d)"
  shows "refines msize (insn_handler execution_ctx_ops (Rrs_U c d)) s (rv_step msize (Rrs_U c d) (abs_state (es_vm_state s)))"
proof (cases "ut_rd d = 0")
  case True
  then show ?thesis using refines_nop [OF assms(1)] by simp
next
  case False
  have r: "ut_rd d < 32" and m: "ut_imm d mod 4096 = 0" using assms(2) by (simp_all add: reg_ok_def)
  have m8: "ut_imm d mod 256 = 0"
    using m dvd_trans [of 256 4096 "ut_imm d"] by (simp add: dvd_eq_mod_eq_0)
  let ?v = "case c of U_lui \<Rightarrow> word_of_int (ut_imm d) | U_auipc \<Rightarrow> get_pc s + word_of_int (ut_imm d)"
  have "insn_handler execution_ctx_ops (Rrs_U c d) s = Some (set_pc (get_pc s + 4) (put_reg0 (ut_rd d) ?v s))"
    using False write_reg0(2) [OF assms(1) r] push_drop [of "ut_imm d" 12] push_drop [of "ut_imm d" 8] m m8
    by (cases c) (simp_all add: jal_lui_execute_e12_def auipc_execute_e12_def run_auipc_def RV32_CELL_BITS_def
        as_u32_def pc_step_def Let_def)
  from refines_set_pc [where hnd = "insn_handler execution_ctx_ops (Rrs_U c d)", OF assms(1) r this]
  show ?thesis by (simp add: rv_next_set cong: u_call.case_cong)
qed

section \<open>Loads and stores\<close>

lemma word_of_addr:
  fixes addr :: u32
  shows "unat (addr mod 4) = unat addr mod 4" "unat (addr - addr mod 4) = unat addr - unat addr mod 4"
    "unat (addr - addr mod 4) mod 4 = 0"
proof -
  show m: "unat (addr mod 4) = unat addr mod 4" by (simp add: unat_mod)
  then have "addr mod 4 \<le> addr" by (simp add: word_le_nat_alt)
  then show s: "unat (addr - addr mod 4) = unat addr - unat addr mod 4" by (simp add: unat_sub m)
  show "unat (addr - addr mod 4) mod 4 = 0" unfolding s by (simp add: minus_mod_eq_mult_div)
qed

lemma aligned_bound: "4 dvd (msize :: nat) \<Longrightarrow> n < msize \<Longrightarrow> n - n mod 4 + 4 \<le> msize"
  by presburger

lemma accessible_word:
  assumes "4 dvd msize" "rv_accessible msize n addr" "0 < n"
  shows "unat (addr - addr mod 4) + 4 \<le> msize"
  using assms aligned_bound [of msize "unat addr"] by (simp add: word_of_addr rv_accessible_def)

lemma bytes_at4: "bytes_at m sp 4 p = [byte_at m sp p, byte_at m sp (p + 1), byte_at m sp (p + 2), byte_at m sp (p + 3)]"
  by (simp add: bytes_at_def upt_rec eval_nat_numeral)

lemma rv_bytes_abs:
  assumes "rv_ok msize (es_vm_state s)" "unat addr + n \<le> msize"
  shows "rv_bytes n addr (abs_state (es_vm_state s)) = bytes_at (mem_of s) 2 n (unat addr)"
  using assms by (auto simp: rv_bytes_def bytes_at_def abs_state_def rv_ok_def mem_ok_def)

lemma short_bytes:
  "from_le_bytes [b0, 0, 0, 0] = (from_le_bytes [b0] :: u32)" "from_le_bytes [b0, b1, 0, 0] = (from_le_bytes [b0, b1] :: u32)"
  by (simp_all add: from_le_bytes_def)

lemma to_short_bytes:
  "to_le_bytes (from_le_bytes [b0] :: u32) = [b0, 0, 0, 0]" "to_le_bytes (from_le_bytes [b0, b1] :: u32) = [b0, b1, 0, 0]"
  using le_bytes32(1) [of "[b0, 0, 0, 0]", unfolded short_bytes(1)] le_bytes32(1) [of "[b0, b1, 0, 0]", unfolded short_bytes(2)]
  by simp_all

text \<open>What the handlers read: the aligned word that holds the address.\<close>

lemma read_aligned:
  assumes "rv_ok msize (es_vm_state s)" "rv_accessible msize n addr" "0 < n"
  shows "vm_read execution_ctx_ops 4 2 (addr - addr mod 4) s =
    Some (bytes_at (mem_of s) 2 4 (unat addr - unat addr mod 4), s)"
  using accessible_word [OF _ assms(2,3)] assms(1) vm_read_pure [of s "addr - addr mod 4" 2]
  by (simp add: rv_ok_def mem_ok_def word_of_addr)

lemma bytes_of_word:
  fixes addr :: u32
  assumes "unat addr mod 4 + n \<le> 4"
  shows "bytes_at m sp n (unat addr) = take n (drop (unat addr mod 4) (bytes_at m sp 4 (unat addr - unat addr mod 4)))"
proof -
  have "unat addr - unat addr mod 4 + unat addr mod 4 = unat addr" by simp
  then show ?thesis using assms by (auto intro!: nth_equalityI simp: bytes_at_def)
qed

definition op_width :: "Rv32LoadStoreOpcode \<Rightarrow> nat" where
  "op_width op =
     (case op of LOADW \<Rightarrow> 4 | STOREW \<Rightarrow> 4 | LOADHU \<Rightarrow> 2 | LOADH \<Rightarrow> 2 | STOREH \<Rightarrow> 2 | _ \<Rightarrow> 1)"

lemma mod_cases: "unat (addr :: u32) mod 2 = 0 \<Longrightarrow> unat addr mod 4 = 0 \<or> unat addr mod 4 = 2"
  by presburger

lemma mod4_cases: "unat (addr :: u32) mod 4 \<in> {0, 1, 2, 3}"
  by auto

lemma load_data:
  fixes addr :: u32
  assumes "op \<in> {LOADW, LOADBU, LOADHU}" "unat addr mod op_width op = 0"
  shows "compute_write_data op (replicate 4 0) (bytes_at m 2 4 (unat addr - unat addr mod 4)) (unat addr mod 4) =
    Some (to_le_bytes (from_le_bytes (bytes_at m 2 (op_width op) (unat addr)) :: u32))"
proof -
  have le: "unat addr mod 4 + op_width op \<le> 4"
    using assms mod_cases [of addr] mod_less_divisor [of 4 "unat addr"] by (auto simp: op_width_def)
  show ?thesis
    unfolding bytes_of_word [OF le]
    using assms mod_cases [of addr] mod4_cases [of addr]
    by (auto simp: op_width_def compute_write_data_def bytes_at4 replicate4 to_short_bytes)
qed

lemma load_normal:
  assumes ok: "rv_ok msize (es_vm_state s)" and r: "it_rd d < 32" "it_rs1 d < 32"
    and op: "op \<in> {LOADW, LOADBU, LOADHU}"
    and addr: "addr = reg_val (mem_of s) (it_rs1 d) + word_of_int (it_imm d)" "rv_accessible msize (op_width op) addr"
  shows "create_handler (load_store_execute_e12 execution_ctx_ops (op, it_rd d \<noteq> 0, load_regs d)) s =
    Some (set_pc (get_pc s + 4) (put_reg0 (it_rd d) (from_le_bytes (bytes_at (mem_of s) 2 (op_width op) (unat addr))) s))"
proof -
  have w: "0 < op_width op" by (simp add: op_width_def split: Rv32LoadStoreOpcode.split)
  have "unat addr mod op_width op = 0" using addr(2) by (simp add: rv_accessible_def)
  from load_data [OF op this, of "mem_of s"] read_aligned [OF ok addr(2) w] show ?thesis
    using op write_reg0 [OF ok r(1), of "from_le_bytes (bytes_at (mem_of s) 2 (op_width op) (unat addr))"]
    by (auto simp: create_handler_def load_store_execute_e12_def load_regs_def read_reg_pure [OF ok] r is_load_op_def
        host_read_op_def RV32_REGISTER_NUM_LIMBS_def pc_step_def word_of_addr Let_def put_reg0_def
        simp flip: addr(1))
qed

lemma load_signed_normal:
  assumes ok: "rv_ok msize (es_vm_state s)" and r: "it_rd d < 32" "it_rs1 d < 32"
    and addr: "addr = reg_val (mem_of s) (it_rs1 d) + word_of_int (it_imm d)" "rv_accessible msize (if byte then 1 else 2) addr"
  shows "create_handler (load_sign_extend_execute_e12 execution_ctx_ops (byte, it_rd d \<noteq> 0, load_regs d)) s =
    Some (set_pc (get_pc s + 4) (put_reg0 (it_rd d) (if byte then scast (bytes_at (mem_of s) 2 1 (unat addr) ! 0)
      else scast (from_le_bytes (bytes_at (mem_of s) 2 2 (unat addr)) :: 16 word)) s))"
proof -
  let ?b = "bytes_at (mem_of s) 2 4 (unat addr - unat addr mod 4)" and ?k = "unat addr mod 4"
  have k: "\<not> byte \<Longrightarrow> ?k = 0 \<or> ?k = 2" using addr(2) mod_cases [of addr] by (auto simp: rv_accessible_def)
  have z: "addr mod 4 = 0 \<longleftrightarrow> ?k = 0" "addr mod 4 = 2 \<longleftrightarrow> ?k = 2"
    by (simp_all add: word_unat_eq_iff word_of_addr)
  have le: "?k + (if byte then 1 else 2) \<le> 4" using k mod_less_divisor [of 4 "unat addr"] by auto
  have b: "bytes_at (mem_of s) 2 1 (unat addr) = [?b ! ?k]" if byte
    using bytes_of_word [of addr 1] le that mod4_cases [of addr] by (auto simp: bytes_at4)
  have h: "bytes_at (mem_of s) 2 2 (unat addr) = [?b ! ?k, ?b ! (?k + 1)]" if "\<not> byte"
    using bytes_of_word [of addr 2] le that k by (auto simp: bytes_at4)
  let ?v = "if byte then scast (?b ! ?k) else scast (from_le_bytes [?b ! ?k, ?b ! (?k + 1)] :: 16 word) :: u32"
  have "create_handler (load_sign_extend_execute_e12 execution_ctx_ops (byte, it_rd d \<noteq> 0, load_regs d)) s =
    Some (set_pc (get_pc s + 4) (put_reg0 (it_rd d) ?v s))"
    using read_aligned [OF ok addr(2)] k write_reg0 [OF ok r(1), of ?v]
    by (auto simp: create_handler_def load_sign_extend_execute_e12_def load_regs_def read_reg_pure [OF ok] r
        RV32_REGISTER_NUM_LIMBS_def pc_step_def word_of_addr z Let_def put_reg0_def simp flip: addr(1))
  then show ?thesis using b h by (cases byte) simp_all
qed

lemma refines_load:
  assumes ok: "rv_ok msize (es_vm_state s)" and "insn_ok (Rrs_I c d)" "c \<in> {I_lb, I_lh, I_lw, I_lbu, I_lhu}"
  shows "refines msize (i_handler execution_ctx_ops c d) s (rv_i_step msize c d (abs_state (es_vm_state s)))"
proof -
  have r: "it_rd d < 32" "it_rs1 d < 32" using assms(2) by (simp_all add: reg_ok_def)
  have load: "refines msize hnd s (rv_load_step msize n ext d (abs_state (es_vm_state s)))"
    if "\<And>addr. addr = reg_val (mem_of s) (it_rs1 d) + word_of_int (it_imm d) \<Longrightarrow> rv_accessible msize n addr \<Longrightarrow>
      hnd s = Some (set_pc (get_pc s + 4) (put_reg0 (it_rd d) (ext (bytes_at (mem_of s) 2 n (unat addr))) s))" for hnd n ext
  proof (cases "rv_accessible msize n (reg_val (mem_of s) (it_rs1 d) + word_of_int (it_imm d))")
    case True
    then have "unat (reg_val (mem_of s) (it_rs1 d) + word_of_int (it_imm d)) + n \<le> msize" by (simp add: rv_accessible_def)
    from refines_set_pc [where hnd = hnd, OF ok r(1) that [OF refl True]] rv_bytes_abs [OF ok this] True
    show ?thesis by (simp add: rv_load_step_def Let_def abs_reg r rv_next_set)
  qed (simp add: rv_load_step_def Let_def abs_reg r refines_def)
  note unsigned = load_normal [OF ok r] and sgn = load_signed_normal [OF ok r]
  show ?thesis
    using assms(3) unsigned [where op = LOADW] unsigned [where op = LOADBU] unsigned [where op = LOADHU]
      sgn [where byte = True] sgn [where byte = False]
    by (auto simp: i_handler_def rv_i_step_def Let_def op_width_def intro!: load)
qed

text \<open>
  Stores replace the aligned word that holds the address: \<open>store_data\<close> says which of its bytes
  change.
\<close>

lemma store_data:
  fixes addr :: u32
  assumes "op \<in> {STOREW, STOREH, STOREB}" "unat addr mod op_width op = 0" "length wd = 4"
  shows "\<exists>data. compute_write_data op wd (to_le_bytes (v :: u32)) (unat addr mod 4) = Some data \<and> length data = 4 \<and>
    (\<forall>i<4. data ! i = (if unat addr mod 4 \<le> i \<and> i < unat addr mod 4 + op_width op
       then to_le_bytes v ! (i - unat addr mod 4) else wd ! i))"
proof -
  have k: "op = STOREH \<Longrightarrow> unat addr mod 4 = 0 \<or> unat addr mod 4 = 2"
    using assms(2) mod_cases [of addr] by (simp add: op_width_def)
  let ?data = "the (compute_write_data op wd (to_le_bytes v) (unat addr mod 4))"
  have "compute_write_data op wd (to_le_bytes v) (unat addr mod 4) = Some ?data"
    using assms(1) k by (auto simp: compute_write_data_def)
  moreover have "length ?data = 4" using assms k by (auto simp: compute_write_data_def)
  moreover have "?data ! i = (if unat addr mod 4 \<le> i \<and> i < unat addr mod 4 + op_width op
       then to_le_bytes v ! (i - unat addr mod 4) else wd ! i)" if "i < 4" for i
    using assms k that
    by (auto simp: compute_write_data_def op_width_def nth_list_update less_Suc_eq numeral_2_eq_2 split: if_splits)
  ultimately show ?thesis by blast
qed

lemma store_normal:
  assumes ok: "rv_ok msize (es_vm_state s)" and r: "st_rs1 d < 32" "st_rs2 d < 32"
    and op: "op \<in> {STOREW, STOREH, STOREB}"
    and addr: "addr = reg_val (mem_of s) (st_rs1 d) + word_of_int (st_imm d)" "rv_accessible msize (op_width op) addr"
    and data: "compute_write_data op (if op = STOREW then replicate 4 0 else bytes_at (mem_of s) 2 4 (unat addr - unat addr mod 4))
      (to_le_bytes (reg_val (mem_of s) (st_rs2 d))) (unat addr mod 4) = Some data" "length data = 4"
  shows "create_handler (load_store_execute_e12 execution_ctx_ops (op, True, store_regs d)) s =
    Some (set_pc (get_pc s + 4) (put_mem (addr - addr mod 4) data s))"
proof -
  have w: "0 < op_width op" by (simp add: op_width_def split: Rv32LoadStoreOpcode.split)
  have b: "unat (addr - addr mod 4) + 4 \<le> msize"
    by (rule accessible_word [OF _ addr(2) w]) (use ok in \<open>simp add: rv_ok_def mem_ok_def\<close>)
  have hr: "host_read 4 2 (addr - addr mod 4) s = Some (bytes_at (mem_of s) 2 4 (unat addr - unat addr mod 4))"
    using b ok by (simp add: host_read_def gm_read_eq rv_ok_def mem_ok_def bytes_at_def word_of_addr)
  have wr: "vm_write execution_ctx_ops 2 (addr - addr mod 4) data s = Some (put_mem (addr - addr mod 4) data s)"
    unfolding put_mem_def by (rule write_pure) (use b ok data(2) in \<open>auto simp: rv_ok_def mem_ok_def\<close>)
  show ?thesis
    using op data hr wr
    by (auto simp: create_handler_def load_store_execute_e12_def store_regs_def read_reg_pure [OF ok] r is_load_op_def
        host_read_op_def RV32_REGISTER_NUM_LIMBS_def pc_step_def word_of_addr Let_def simp flip: addr(1))
qed

lemma overlay_word:
  fixes k n p :: nat
  assumes "k + n \<le> 4" "\<And>i. i < 4 \<Longrightarrow> data ! i = (if k \<le> i \<and> i < k + n then bs ! (i - k) else f (p + i))"
  shows "(if p \<le> i \<and> i < p + 4 then data ! (i - p) else f i) =
    (if p + k \<le> i \<and> i < p + k + n then take n bs ! (i - (p + k)) else f i)"
proof (cases "p \<le> i \<and> i < p + 4")
  case True
  then obtain j where "i = p + j" "j < 4" by (metis add_less_cancel_left le_Suc_ex)
  then show ?thesis using assms(2) [of j] by auto
next
  case False
  then have "\<not> (p + k \<le> i \<and> i < p + k + n)" using assms(1) by linarith
  then show ?thesis using False by auto
qed

lemma rv_store_word:
  fixes addr :: u32
  assumes "length data = 4" "unat addr mod 4 + n \<le> 4" "n \<le> length bs"
    and "\<And>i. i < 4 \<Longrightarrow> data ! i = (if unat addr mod 4 \<le> i \<and> i < unat addr mod 4 + n
       then bs ! (i - unat addr mod 4) else rv_mem a (unat addr - unat addr mod 4 + i))"
  shows "rv_store (addr - addr mod 4) data a = rv_store addr (take n bs) a"
proof -
  have "unat addr - unat addr mod 4 + unat addr mod 4 = unat addr" by simp
  then show ?thesis
    using overlay_word [OF assms(2,4)] assms(1,3) unfolding rv_store_def word_of_addr
    by (simp only: length_take min_absorb2)
qed

lemma refines_store:
  assumes ok: "rv_ok msize (es_vm_state s)" and "insn_ok (Rrs_S c d)"
  shows "refines msize (insn_handler execution_ctx_ops (Rrs_S c d)) s (rv_step msize (Rrs_S c d) (abs_state (es_vm_state s)))"
proof -
  have r: "st_rs1 d < 32" "st_rs2 d < 32" using assms(2) by (simp_all add: reg_ok_def)
  define op where "op = (case c of S_sb \<Rightarrow> STOREB | S_sh \<Rightarrow> STOREH | S_sw \<Rightarrow> STOREW)"
  have op: "op \<in> {STOREW, STOREH, STOREB}" and w: "(case c of S_sb \<Rightarrow> 1 | S_sh \<Rightarrow> 2 | S_sw \<Rightarrow> 4) = op_width op"
    by (cases c; simp add: op_def op_width_def)+
  let ?addr = "reg_val (mem_of s) (st_rs1 d) + word_of_int (st_imm d)" and ?v = "reg_val (mem_of s) (st_rs2 d)"
  let ?p = "unat ?addr - unat ?addr mod 4"
  let ?wd = "if op = STOREW then replicate 4 0 else bytes_at (mem_of s) 2 4 ?p"
  show ?thesis
  proof (cases "rv_accessible msize (op_width op) ?addr")
    case True
    then have al: "unat ?addr mod op_width op = 0" by (simp add: rv_accessible_def)
    have le: "unat ?addr mod 4 + op_width op \<le> 4"
      using op al mod_cases [of ?addr] mod_less_divisor [of 4 "unat ?addr"] by (auto simp: op_width_def)
    have l: "length ?wd = 4" by simp
    obtain data where data: "compute_write_data op ?wd (to_le_bytes ?v) (unat ?addr mod 4) = Some data" "length data = 4"
      and nth: "\<And>i. i < 4 \<Longrightarrow> data ! i = (if unat ?addr mod 4 \<le> i \<and> i < unat ?addr mod 4 + op_width op
         then to_le_bytes ?v ! (i - unat ?addr mod 4) else ?wd ! i)"
      using store_data [OF op al l, of ?v] by blast
    have w0: "0 < op_width op" by (simp add: op_width_def split: Rv32LoadStoreOpcode.split)
    have b: "unat (?addr - ?addr mod 4) + length data \<le> msize"
      unfolding data(2) by (rule accessible_word [OF _ True w0]) (use ok in \<open>simp add: rv_ok_def mem_ok_def\<close>)
    have ne: "data \<noteq> []" using data(2) by auto
    have st: "rv_store (?addr - ?addr mod 4) data (abs_state (es_vm_state s)) =
        rv_store ?addr (take (op_width op) (to_le_bytes ?v)) (abs_state (es_vm_state s))"
    proof (rule rv_store_word [OF data(2) le])
      show "op_width op \<le> length (to_le_bytes ?v)" using op by (auto simp: op_width_def)
      show "data ! i = (if unat ?addr mod 4 \<le> i \<and> i < unat ?addr mod 4 + op_width op
         then to_le_bytes ?v ! (i - unat ?addr mod 4) else rv_mem (abs_state (es_vm_state s)) (?p + i))" if "i < 4" for i
        using nth [OF that] le that b ok al unfolding data(2) word_of_addr
        by (auto simp: op_width_def bytes_at_def abs_state_def rv_ok_def mem_ok_def)
    qed
    have "refines msize (insn_handler execution_ctx_ops (Rrs_S c d)) s
        (Some (rv_next (rv_store (?addr - ?addr mod 4) data (abs_state (es_vm_state s)))))"
      by (rule refines_Some, simp add: op_def [symmetric], rule store_normal [OF ok r op refl True data])
        (simp_all add: put_mem_ok [OF ok b ne] rv_next_def rv_store_def)
    then show ?thesis
      using True unfolding st by (simp add: w rv_store_step_def Let_def abs_reg r)
  qed (simp add: rv_store_step_def Let_def w abs_reg r refines_def)
qed

lemma refines_insn:
  assumes "rv_ok msize (es_vm_state s)" "insn_ok d"
  shows "refines msize (insn_handler execution_ctx_ops d) s (rv_step msize d (abs_state (es_vm_state s)))"
proof (cases d)
  case (Rrs_I c d')
  have ok: "insn_ok (Rrs_I c d')" using assms(2) Rrs_I by simp
  consider "c \<in> {I_addi, I_xori, I_ori, I_andi, I_slti, I_sltui}" | "c \<in> {I_lb, I_lh, I_lw, I_lbu, I_lhu}"
    | "c = I_jalr" | "c = I_fence" by (cases c) auto
  then show ?thesis
  proof cases
    case 1
    then show ?thesis using refines_alu_imm [OF assms(1) ok] Rrs_I by simp
  next
    case 2
    then show ?thesis using refines_load [OF assms(1) ok] Rrs_I by simp
  next
    case 3
    then show ?thesis using refines_jalr [OF assms(1)] ok Rrs_I by simp
  next
    case 4
    then show ?thesis using refines_nop [OF assms(1)] Rrs_I by (simp add: i_handler_def rv_i_step_def Let_def)
  qed
next
  case (Rrs_R c d')
  show ?thesis unfolding Rrs_R by (rule refines_r) (use assms Rrs_R in simp_all)
next
  case (Rrs_Sh c d')
  show ?thesis unfolding Rrs_Sh by (rule refines_shift_imm) (use assms Rrs_Sh in simp_all)
next
  case (Rrs_S c d')
  show ?thesis unfolding Rrs_S by (rule refines_store) (use assms Rrs_S in simp_all)
next
  case (Rrs_B c d')
  show ?thesis unfolding Rrs_B by (rule refines_branch) (use assms Rrs_B in simp_all)
next
  case (Rrs_J c d')
  show ?thesis unfolding Rrs_J by (rule refines_jal) (use assms Rrs_J in simp_all)
next
  case (Rrs_U c d')
  show ?thesis unfolding Rrs_U by (rule refines_upper) (use assms Rrs_U in simp_all)
qed

text \<open>
  C37. The interpreter implements the instruction set. For every RV32IM instruction, every state of
  the VM whose memory is well formed and on which the RISC-V machine takes a step: the handler that
  the transpiler and the RV32IM executors give the instruction returns, its new state represents
  the state after the step of the machine, the invariant holds again (register 0 is still zero),
  and the streams, the random generator, the context and the exit code are untouched.
\<close>

theorem rv32im_step_refines:
  fixes invt :: "('f::field, 'd, 'r) vm_executor executor_inventory"
  assumes "canon_ok canon" "rv32im_create_executors h = Some (Inr invt)" "insn_ok d"
    and "rv_ok msize (es_vm_state s)" "rv_step msize d (abs_state (es_vm_state s)) = Some a"
  shows "\<exists>hnd s'. pre_compute_instruction canon execution_ctx_ops invt i (Some (process_insn d)) = Some (Inr hnd) \<and>
    hnd s = Some s' \<and> abs_state (es_vm_state s') = a \<and> rv_ok msize (es_vm_state s') \<and> env_of s' = env_of s"
  using pre_compute_compiled [OF rv32im_create_executors_eq [OF assms(2)] compile_insn [OF assms(1,3)], of execution_ctx_ops i]
    refines_insn [OF assms(4,3)] assms(5) by (auto simp: refines_def)

text \<open>The witness executes \<open>addi x1, x0, 5\<close> on a machine with 64 bytes of memory.\<close>

lemma demo_state: "\<exists>v :: (bb, unit, unit) vm_state. rv_ok 64 v \<and> vs_pc v = 8 \<and> vs_streams v = streams_new []"
proof -
  obtain am where am: "am_new small_config = Some am" by (simp add: am_new_def small_config_def)
  note ok = am_ok_new [OF am]
  have "bytes_at am 1 4 0 = [0, 0, 0, 0]" using ok by (simp add: bytes_at4 small_config_def)
  then have "mem_ok 64 am" using ok by (simp add: mem_ok_def small_config_def reg_val_def from_const_bytes)
  then show ?thesis
    by (intro exI [of _ "\<lparr>vs_pc = 8, vs_memory = am, vs_streams = streams_new [], vs_rng = ()\<rparr>"]) (simp add: rv_ok_def)
qed

theorem rv32im_step_refines_witness:
  "\<exists>(invt :: (bb, unit, unit) vm_executor executor_inventory) hnd s s'. rv32im_create_executors demo_host = Some (Inr invt) \<and>
     pre_compute_instruction bb_canon execution_ctx_ops invt 2
       (Some (process_insn (Rrs_I I_addi \<lparr>it_imm = 5, it_rs1 = 0, it_funct3 = 0, it_rd = 1\<rparr>))) = Some (Inr hnd) \<and>
     hnd s = Some s' \<and> rv_regs (abs_state (es_vm_state s')) 1 = 5 + rv_regs (abs_state (es_vm_state s)) 0"
proof -
  let ?d = "\<lparr>it_imm = 5, it_rs1 = 0, it_funct3 = 0, it_rd = 1\<rparr> :: IType"
  obtain invt where invt: "rv32im_create_executors demo_host = Some (Inr (invt :: (bb, unit, unit) vm_executor executor_inventory))"
    using rv32im_inventory by blast
  obtain v :: "(bb, unit, unit) vm_state" where v: "rv_ok 64 v" using demo_state by blast
  let ?s = "vm_exec_state_new v (0 :: execution_ctx)"
  have ok: "rv_ok 64 (es_vm_state ?s)" using v by (simp add: vm_exec_state_new_def)
  have st: "rv_step 64 (Rrs_I I_addi ?d) (abs_state (es_vm_state ?s)) =
      Some (rv_next (rv_set 1 (rv_regs (abs_state (es_vm_state ?s)) 0 + 5) (abs_state (es_vm_state ?s))))"
    by (simp add: rv_i_step_def Let_def)
  have "insn_ok (Rrs_I I_addi ?d)" by (simp add: reg_ok_def)
  from rv32im_step_refines [OF bb_canon_ok invt this ok st, of 2] show ?thesis
    using invt by (fastforce simp: rv_next_def rv_set_def add.commute)
qed

end
