(* ===== verification/Rv32_Run.thy ===== *)
theory Rv32_Run
  imports Rv32_Refine
begin

text \<open>
  Whole runs of RV32IM programs: the invariant of the reachable states, and the result of executing
  a program that halts on the RISC-V machine.
\<close>

unbundle bit_operations_syntax

section \<open>The invariant\<close>

text \<open>A handler keeps the invariant when its writes to the registers leave register 0 alone.\<close>

definition keeps :: "nat \<Rightarrow> ('f, 'd, 'r, 'c) handler \<Rightarrow> bool" where
  "keeps msize hnd \<longleftrightarrow> (\<forall>s s'. rv_ok msize (es_vm_state s) \<longrightarrow> hnd s = Some s' \<longrightarrow> rv_ok msize (es_vm_state s'))"

lemma mem_ok_write:
  assumes "mem_ok msize m" "gm_write 1 m sp ptr bs = Some m'" "sp = 1 \<longrightarrow> 4 \<le> unat ptr"
  shows "mem_ok msize m'"
proof -
  have m: "am_ok m" "128 \<le> as_size m 1" using assms(1) by (simp_all add: mem_ok_def)
  note ok = gm_write_Some [OF m(1) assms(2)]
  have "bytes_at m' 1 4 0 = bytes_at m 1 4 0"
    using bytes_at_write [OF m(1) assms(2), of 0 4 1] m(2) assms(3)
    by (auto intro!: nth_equalityI simp: bytes_at_def)
  then show ?thesis using assms(1) ok by (simp add: mem_ok_def reg_val_def)
qed

lemma vm_write_ok:
  assumes "rv_ok msize (es_vm_state s)" "vm_write ops sp ptr bs s = Some s'" "sp = 1 \<longrightarrow> 4 \<le> unat ptr"
  shows "rv_ok msize (es_vm_state s')"
  using assms mem_ok_write
  by (fastforce simp: vm_write_def host_write_def rv_ok_def bind_eq_Some_conv)

lemma vm_read_ok: "vm_read ops n sp ptr s = Some (bs, s') \<Longrightarrow> es_vm_state s' = es_vm_state s"
  by (auto simp: vm_read_def bind_eq_Some_conv Let_def)

lemma read_reg_ok: "read_reg ops ptr s = Some (bs, s') \<Longrightarrow> es_vm_state s' = es_vm_state s"
  unfolding read_reg_def by (rule vm_read_ok)

lemma write_reg_ok:
  "rv_ok msize (es_vm_state s) \<Longrightarrow> write_reg ops (ucast (reg_ptr r)) bs s = Some s' \<Longrightarrow> 0 < r \<Longrightarrow> r < 32 \<Longrightarrow>
   rv_ok msize (es_vm_state s')"
  unfolding write_reg_def by (erule vm_write_ok) (auto simp: unat_reg_ptr)

lemma set_ok [simp]:
  "rv_ok msize (es_vm_state s\<lparr>vs_streams := st\<rparr>) = rv_ok msize (es_vm_state s)"
  "rv_ok msize (es_vm_state s\<lparr>vs_rng := rng\<rparr>) = rv_ok msize (es_vm_state s)"
  by (simp_all add: rv_ok_def)

text \<open>Weakest preconditions for handlers, with a rule for each operation they use.\<close>

definition okst :: "nat \<Rightarrow> ('f, 'd, 'r, 'c) vm_exec_state \<Rightarrow> bool" where
  "okst msize s \<longleftrightarrow> rv_ok msize (es_vm_state s)"

definition wp :: "'a option \<Rightarrow> ('a \<Rightarrow> bool) \<Rightarrow> bool" where
  "wp m P \<longleftrightarrow> (\<forall>x. m = Some x \<longrightarrow> P x)"

named_theorems wp_intros

lemma wp_bind [wp_intros]: "wp m (\<lambda>x. wp (f x) P) \<Longrightarrow> wp (m \<bind> f) P"
  by (auto simp: wp_def bind_eq_Some_conv)

lemma wp_Some [wp_intros]: "P x \<Longrightarrow> wp (Some x) P"
  by (simp add: wp_def)

lemma wp_None [wp_intros]: "wp None P"
  by (simp add: wp_def)

lemma wp_if [wp_intros]: "(b \<Longrightarrow> wp m P) \<Longrightarrow> (\<not> b \<Longrightarrow> wp m' P) \<Longrightarrow> wp (if b then m else m') P"
  by simp

lemma wp_option [wp_intros]:
  "wp m P \<Longrightarrow> (\<And>x. x' = Some x \<Longrightarrow> wp (f x) P) \<Longrightarrow> wp (case x' of None \<Rightarrow> m | Some x \<Rightarrow> f x) P"
  by (cases x') simp_all

lemma wp_let [wp_intros]: "wp (f x) P \<Longrightarrow> wp (Let x f) P"
  by simp

lemma wp_read [wp_intros]:
  "okst msize s \<Longrightarrow> (\<And>bs s'. okst msize s' \<Longrightarrow> P (bs, s')) \<Longrightarrow> wp (vm_read ops n sp ptr s) P"
  by (auto simp: wp_def okst_def dest: vm_read_ok)

lemma wp_host_read [wp_intros]: "(\<And>bs. P bs) \<Longrightarrow> wp (host_read n sp ptr s) P"
  by (auto simp: wp_def)

lemma wp_read_reg [wp_intros]:
  "okst msize s \<Longrightarrow> (\<And>bs s'. okst msize s' \<Longrightarrow> P (bs, s')) \<Longrightarrow> wp (read_reg ops ptr s) P"
  by (auto simp: wp_def okst_def dest: read_reg_ok)

lemma wp_write [wp_intros]:
  "okst msize s \<Longrightarrow> sp \<noteq> 1 \<Longrightarrow> (\<And>s'. okst msize s' \<Longrightarrow> P s') \<Longrightarrow> wp (vm_write ops sp ptr bs s) P"
  by (auto simp: wp_def okst_def dest: vm_write_ok)

lemma wp_write_reg [wp_intros]:
  "okst msize s \<Longrightarrow> 0 < r \<and> r < 32 \<Longrightarrow> (\<And>s'. okst msize s' \<Longrightarrow> P s') \<Longrightarrow>
   wp (write_reg ops (ucast (reg_ptr r)) bs s) P"
  by (auto simp: wp_def okst_def dest: write_reg_ok)

lemma okst_updates [simp]:
  "okst msize (set_pc pc s) = okst msize s"
  "okst msize (s\<lparr>es_exit_code := e\<rparr>) = okst msize s"
  "okst msize (s\<lparr>es_ctx := c\<rparr>) = okst msize s"
  "okst msize (s\<lparr>es_vm_state := es_vm_state s\<lparr>vs_streams := st\<rparr>\<rparr>) = okst msize s"
  "okst msize (s\<lparr>es_vm_state := es_vm_state s\<lparr>vs_streams := st, vs_rng := rng\<rparr>\<rparr>) = okst msize s"
  by (simp_all add: okst_def rv_ok_def set_pc_def)

lemma wp_create_handler [wp_intros]:
  "wp (impl s) (\<lambda>(ret, s). okst msize s) \<Longrightarrow> wp (create_handler impl s) (okst msize)"
proof -
  have "okst msize (case ret of Inl e \<Rightarrow> s\<lparr>es_exit_code := Inl e\<rparr> | Inr _ \<Rightarrow> s) = okst msize s"
    for ret :: "vm_execution_error + unit" and s :: "('a, 'b, 'c, 'd) vm_exec_state"
    by (cases ret) simp_all
  then show "wp (impl s) (\<lambda>(ret, s). okst msize s) \<Longrightarrow> wp (create_handler impl s) (okst msize)"
    for impl :: "('a, 'b, 'c, 'd, unit) fallible_impl" and s
    by (auto simp: wp_def create_handler_def bind_eq_Some_conv)
qed

lemma keepsI: "(\<And>s. okst msize s \<Longrightarrow> wp (hnd s) (okst msize)) \<Longrightarrow> keeps msize hnd"
  by (auto simp: keeps_def wp_def okst_def)

lemma wp_load_store [wp_intros]:
  assumes "okst msize s" "unat (ls_e p) \<noteq> 1" "is_load_op op \<longrightarrow> ls_a p = reg_ptr r" "is_load_op op \<longrightarrow> en \<longrightarrow> 0 < r \<and> r < 32"
  shows "wp (load_store_execute_e12 ops (op, en, p) s) (\<lambda>(ret, s). okst msize s)"
proof (cases "is_load_op op")
  case True
  then show ?thesis using assms
    unfolding load_store_execute_e12_def by (simp add: True Let_def split del: if_split) ((intro wp_intros | simp add: True split del: if_split)+)
next
  case False
  then show ?thesis using assms
    unfolding load_store_execute_e12_def by (simp add: False Let_def split del: if_split) ((intro wp_intros | simp add: False split del: if_split)+)
qed

lemma wp_load_sign_extend [wp_intros]:
  assumes "okst msize s" "ls_a p = reg_ptr r" "en \<longrightarrow> 0 < r \<and> r < 32"
  shows "wp (load_sign_extend_execute_e12 ops (byte, en, p) s) (\<lambda>(ret, s). okst msize s)"
  using assms unfolding load_sign_extend_execute_e12_def
  by (simp add: Let_def split del: if_split) ((intro wp_intros | simp split del: if_split)+)

lemma wp_pop_hint [wp_intros]:
  "okst msize s \<Longrightarrow> (\<And>bs s'. okst msize s' \<Longrightarrow> P (bs, s')) \<Longrightarrow> wp (pop_hint_word canon s) P"
  by (simp add: wp_def pop_hint_word_def Let_def)

lemma wp_hint_words: "okst msize s \<Longrightarrow> wp (hint_store_words canon ops ptr i n s) (okst msize)"
proof (induction n arbitrary: i s)
  case 0
  then show ?case by (simp add: wp_def)
next
  case (Suc n)
  show ?case
    using Suc.prems unfolding hint_store_words.simps
    by ((intro wp_intros | simp add: Suc.IH RV32_MEMORY_AS_def split del: if_split)+)
qed

lemma wp_mono: "wp m P \<Longrightarrow> (\<And>x. P x \<Longrightarrow> Q x) \<Longrightarrow> wp m Q"
  by (simp add: wp_def)

lemma wp_hint_e12:
  assumes "okst msize s"
  shows "wp (hint_store_execute_e12 canon ops (op, p) s) (\<lambda>(ret, s). okst msize s)"
  using assms unfolding hint_store_execute_e12_def
  by (simp add: Let_def split del: if_split)
    ((intro wp_intros | rule wp_hint_words [THEN wp_mono] | simp split del: if_split)+)

lemma wp_hint [wp_intros]:
  assumes "okst msize s"
  shows "wp (hint_store_execute_e1 canon ops (op, p) s) (\<lambda>(ret, s). okst msize s)"
  using wp_hint_e12 [OF assms, of canon ops op p] by (auto simp: wp_def hint_store_execute_e1_def)

lemma wp_phantom [wp_intros]:
  assumes "okst msize s"
  shows "wp (phantom_execute_e12 p s) (\<lambda>(ret, s). okst msize s)"
proof -
  have any: "(\<And>x. P x) \<Longrightarrow> wp m P" for P m by (simp add: wp_def)
  show ?thesis
    unfolding phantom_execute_e12_def Let_def
    by (rule wp_if; (rule wp_bind, rule any)?) (use assms in \<open>auto intro!: wp_Some split: sum.splits\<close>)
qed

lemma keeps_refines:
  assumes "\<And>s. rv_ok msize (es_vm_state s) \<Longrightarrow>
    refines msize hnd s (rv_step msize d (abs_state (es_vm_state s))) \<and> rv_step msize d (abs_state (es_vm_state s)) \<noteq> None"
  shows "keeps msize hnd"
  using assms by (fastforce simp: keeps_def refines_def)

lemma keeps_insn:
  assumes "insn_ok d"
  shows "keeps msize (insn_handler execution_ctx_ops d)"
proof -
  consider (load) c d' where "d = Rrs_I c d'" "c \<in> {I_lb, I_lh, I_lw, I_lbu, I_lhu}"
    | (store) c d' where "d = Rrs_S c d'" | (other) "\<And>a. rv_step msize d a \<noteq> None"
  proof (cases d)
    case (Rrs_I c d')
    then show ?thesis
      using that(1) [of c d'] that(3) by (cases c) (simp_all add: rv_i_step_def Let_def)
  next
    case (Rrs_J c d')
    then show ?thesis using that(3) by (cases c) simp
  qed (use that in auto)
  then show ?thesis
  proof cases
    case load
    then have r: "it_rd d' < 32" "it_rs1 d' < 32" using assms by (simp_all add: reg_ok_def)
    show ?thesis
      using load r by (intro keepsI)
        (auto simp: i_handler_def Let_def load_regs_def is_load_op_def intro!: wp_intros)
  next
    case store
    then show ?thesis
      by (intro keepsI) (auto simp: store_regs_def is_load_op_def intro!: wp_intros split: s_call.split)
  next
    case other
    then show ?thesis using keeps_refines refines_insn [OF _ assms] by metis
  qed
qed

lemma keeps_guest: "guest_handler canon execution_ctx_ops hnd \<Longrightarrow> keeps msize hnd"
proof (induction rule: guest_handler.induct)
  case (Insn d)
  then show ?case by (rule keeps_insn)
next
  case (Reveal p)
  show ?case
    by (rule keepsI, rule wp_create_handler, rule wp_load_store) (use Reveal in \<open>simp_all add: is_load_op_def\<close>)
qed (auto intro!: keepsI wp_intros simp: unreachable_handler_def terminate_execute_e12_def hint_handler_def
    execution_ctx_ops_def Let_def)

section \<open>Reachable states\<close>

inductive reachable ::
  "('f, 'd, 'r, 'c) handler list \<Rightarrow> ('f, 'd, 'r, 'c) vm_exec_state \<Rightarrow> ('f, 'd, 'r, 'c) vm_exec_state \<Rightarrow> bool"
  for hs s0 where
  start: "reachable hs s0 s0"
| step: "reachable hs s0 s \<Longrightarrow> es_exit_code s = Inr None \<Longrightarrow> interp_step hs s = Some s' \<Longrightarrow> reachable hs s0 s'"

lemma run_steps_reachable:
  "run_steps hs n s = Done s' \<Longrightarrow> reachable hs s0 s \<Longrightarrow> reachable hs s0 s'"
  by (induction n arbitrary: s) (auto split: if_splits option.splits intro: reachable.step)

lemma reachable_invariant:
  assumes "reachable hs s0 s" "rv_ok msize (es_vm_state s0)" "\<And>hnd. hnd \<in> set hs \<Longrightarrow> keeps msize hnd"
  shows "rv_ok msize (es_vm_state s)"
  using assms(1)
proof (induction rule: reachable.induct)
  case (step s s')
  show ?case
  proof (cases "get_pc_index (get_pc s) < length hs")
    case True
    then show ?thesis
      using step assms(3) [OF nth_mem [OF True]] by (simp add: interp_step_def keeps_def)
  next
    case False
    then show ?thesis using step by (auto simp: interp_step_def)
  qed
qed (rule assms(2))

text \<open>
  C38. Register 0 is zero, and the registers and the memory keep their sizes, in every state that
  a run of a transpiled program reaches, whatever its instructions are (hints, reveals, phantoms
  and system instructions included) and also when an instruction fails; so the state that
  \<open>execute_from_state\<close> returns, after any number of instructions, satisfies the invariant.
\<close>

theorem rv32im_invariant:
  fixes invt :: "('f::field, 'd, 'r) vm_executor executor_inventory"
  assumes "canon_ok canon" "rrs_contract rrs" "length (elf_instructions elf) < 2 ^ 64"
    and "(from_elf elf (rv32im_transpiler rrs) :: ('e transpiler_error + ('f, 'b) vm_exe) option) = Some (Inr exe)"
    and "rv32im_create_executors h = Some (Inr invt)" "interpreter_new canon execution_ctx_ops invt exe = Some (Inr ii)"
    and "rv_ok msize v"
  shows "(\<forall>s. reachable (ii_pre_compute_insns ii) (vm_exec_state_new v ctx) s \<longrightarrow> rv_ok msize (es_vm_state s)) \<and>
    (\<forall>num_insns v'. execute_from_state ii v num_insns = Some (Done (Inr v')) \<longrightarrow> rv_ok msize v')"
proof -
  have keep: "keeps msize hnd" if "hnd \<in> set (ii_pre_compute_insns ii)" for hnd
    by (rule keeps_guest [OF table_handlers [OF assms(1-6) that]])
  have inv: "reachable (ii_pre_compute_insns ii) (vm_exec_state_new v c) s \<Longrightarrow> rv_ok msize (es_vm_state s)" for c s
    using reachable_invariant [OF _ _ keep] assms(7) by (fastforce simp: vm_exec_state_new_def)
  have "rv_ok msize v'" if ex: "execute_from_state ii v num_insns = Some (Done (Inr v'))" for num_insns v'
  proof -
    let ?s0 = "vm_exec_state_new v (execution_ctx_new num_insns)"
    let ?n = "case num_insns of Some n \<Rightarrow> unat n | None \<Rightarrow> 2 ^ 64 - 1"
    obtain s where s: "run_steps (ii_pre_compute_insns ii) ?n ?s0 = Done s" "v' = es_vm_state s"
    proof (cases "run_steps (ii_pre_compute_insns ii) ?n ?s0")
      case (Done s)
      then show ?thesis
        using ex that [of s] unfolding execute_from_state_run [OF assms(6)]
        by (cases "if num_insns \<noteq> None then check_exit_code (es_exit_code s) else check_termination (es_exit_code s)")
          simp_all
    qed (use ex in \<open>simp add: execute_from_state_run [OF assms(6)]\<close>)
    show ?thesis using inv [OF run_steps_reachable [OF s(1) reachable.start]] s(2) by simp
  qed
  then show ?thesis using inv by blast
qed

section \<open>Programs that halt\<close>

text \<open>The entry of the table for a word of the program.\<close>

lemma table_entry:
  fixes invt :: "('f::field, 'd, 'r) vm_executor executor_inventory" and hnd :: "('f, 'd, 'r, 'c) handler"
  assumes "rrs_contract rrs" "length (elf_instructions elf) < 2 ^ 64"
    and "(from_elf elf (rv32im_transpiler rrs) :: ('e transpiler_error + ('f, 'b) vm_exe) option) = Some (Inr exe)"
    and "rv32im_create_executors h = Some (Inr invt)" "interpreter_new canon ops invt exe = Some (Inr ii)"
    and "k < length (elf_instructions elf)"
    and "rv32im_word rrs (elf_instructions elf ! k) = (Inr inst :: 'e transpiler_error + 'f instr)"
    and "compiles_to canon ops h inst hnd"
  shows "get_pc_index (elf_pc_base elf) + k < length (ii_pre_compute_insns ii)"
    "ii_pre_compute_insns ii ! (get_pc_index (elf_pc_base elf) + k) = hnd"
proof -
  let ?p = "exe_program exe" and ?j = "get_pc_index (elf_pc_base elf) + k"
  note prog = from_elf_program [OF assms(1-3)]
  have inst: "p_instructions ?p ! k = Some inst" using prog(4) [OF assms(6)] assms(7) by auto
  have j: "?j < length (padded_program ?p)" "padded_program ?p ! ?j = Some inst"
    using prog(1,3) inst assms(6) by (simp_all add: padded_program_def nth_append)
  have t: "length (ii_pre_compute_insns ii) = length (padded_program ?p)"
    "pre_compute_instruction canon ops invt ?j (padded_program ?p ! ?j) = Some (Inr (ii_pre_compute_insns ii ! ?j))"
    using interpreter_new_table [OF assms(5)] j(1) by (simp_all add: get_pre_compute_instructions_def collect_table_Inr)
  show "?j < length (ii_pre_compute_insns ii)" using t(1) j(1) by simp
  show "ii_pre_compute_insns ii ! ?j = hnd"
    using t(2) pre_compute_compiled [OF rv32im_create_executors_eq [OF assms(4)] assms(8), of ?j] j(2) by simp
qed

lemma div_offset:
  assumes "4 dvd (a :: nat)" "4 dvd b" "b \<le> a"
  shows "a div 4 = b div 4 + (a - b) div 4"
proof -
  obtain x y where "a = 4 * x" "b = 4 * y" using assms(1,2) by (elim dvdE)
  then show ?thesis using assms(3) by (simp flip: diff_mult_distrib2)
qed

lemma fetch_index:
  assumes "rv_fetch pc_base ws pc = Some w" "unat pc_base mod 4 = 0"
  obtains k where "k < length ws" "w = ws ! k" "get_pc_index pc = get_pc_index pc_base + k"
proof -
  let ?k = "(unat pc - unat pc_base) div 4"
  have f: "unat pc mod 4 = 0" "unat pc_base \<le> unat pc" "?k < length ws" "w = ws ! ?k"
    using assms(1) by (auto simp: rv_fetch_def split: if_splits)
  have "unat pc div 4 = unat pc_base div 4 + ?k" 
    by (rule div_offset) (use f(1,2) assms(2) in \<open>simp_all add: dvd_eq_mod_eq_0\<close>)
  then have "get_pc_index pc = get_pc_index pc_base + ?k"
    by (simp add: get_pc_index_def DEFAULT_PC_STEP_def unat_div)
  then show ?thesis using that f(3,4) by blast
qed

text \<open>One cycle of the machine is one step of the interpreter.\<close>

lemma cycle_sim:
  fixes invt :: "('f::field, 'd, 'r) vm_executor executor_inventory" and s :: "('f, 'd, 'r, execution_ctx) vm_exec_state"
  assumes prog: "rrs_contract rrs" "length (elf_instructions elf) < 2 ^ 64"
      "(from_elf elf (rv32im_transpiler rrs) :: ('e transpiler_error + ('f, 'b) vm_exe) option) = Some (Inr exe)"
      "rv32im_create_executors h = Some (Inr invt)" "interpreter_new canon execution_ctx_ops invt exe = Some (Inr ii)"
    and canon: "canon_ok canon" and base: "unat (elf_pc_base elf) mod 4 = 0" and ok: "rv_ok msize (es_vm_state s)"
    and cycle: "rv_cycle rrs msize (elf_pc_base elf) (elf_instructions elf) (abs_state (es_vm_state s)) = Some out"
  shows "\<exists>s'. interp_step (ii_pre_compute_insns ii) s = Some s' \<and> rv_ok msize (es_vm_state s') \<and>
    vs_streams (es_vm_state s') = vs_streams (es_vm_state s) \<and> vs_rng (es_vm_state s') = vs_rng (es_vm_state s) \<and>
    (case out of
       Running a \<Rightarrow> abs_state (es_vm_state s') = a \<and> es_exit_code s' = es_exit_code s
     | Halted code a \<Rightarrow> abs_state (es_vm_state s') = a \<and> es_exit_code s' = Inr (Some code))"
proof -
  obtain w where w: "rv_fetch (elf_pc_base elf) (elf_instructions elf) (get_pc s) = Some w"
    using cycle by (auto simp: rv_cycle_def split: option.splits)
  obtain k where k: "k < length (elf_instructions elf)" "w = elf_instructions elf ! k"
    "get_pc_index (get_pc s) = get_pc_index (elf_pc_base elf) + k"
    by (rule fetch_index [OF w base])
  have step: "interp_step (ii_pre_compute_insns ii) s = hnd s"
    if "rv32im_word rrs w = (Inr inst :: 'e transpiler_error + 'f instr)" "compiles_to canon execution_ctx_ops h inst hnd"
    for inst hnd
    using table_entry [OF prog k(1) that [unfolded k(2)]] k(3) by (simp add: interp_step_def)
  show ?thesis
  proof (cases "word_opcode w = SYSTEM_OPCODE \<and> word_funct3 w = TERMINATE_FUNCT3")
    case True
    let ?imm = "it_imm (itype_new rrs w)"
    obtain inst where "rv32im_word rrs w = (Inr inst :: 'e transpiler_error + 'f instr)"
      using from_elf_program(4) [OF prog(1-3) k(1)] k(2) by auto
    then have imm: "0 \<le> ?imm" "?imm < 256"
      and tr: "rv32im_word rrs w = (Inr (default_instr\<lparr>i_opcode := TERMINATE_OPCODE, i_c := of_nat (nat ?imm)\<rparr>)
        :: 'e transpiler_error + 'f instr)"
      using True by (auto simp: rv32im_word_def guest_consts split: if_splits)
    have "nat ?imm < 256" using imm by simp
    note st = step [OF tr compile_terminate [OF canon this]]
    have out: "out = Halted (word_of_int ?imm) (abs_state (es_vm_state s))"
      using cycle w True by (simp add: rv_cycle_def)
    show ?thesis
      using ok imm unfolding st out by (simp add: terminate_execute_e12_def execution_ctx_ops_def Let_def)
  next
    case False
    obtain d a where d: "rrs_decode rrs w = Some d" "rv_step msize d (abs_state (es_vm_state s)) = Some a" "out = Running a"
      and nsys: "word_opcode w \<noteq> SYSTEM_OPCODE" "word_opcode w \<noteq> CSR_OPCODE"
      using cycle w False by (auto simp: rv_cycle_def split: if_splits option.splits)
    have "insn_ok d" by (rule rrs_contract.decode_ok [OF prog(1) d(1)])
    moreover have "rv32im_word rrs w = (Inr (process_insn d) :: 'e transpiler_error + 'f instr)"
      using d(1) nsys by (simp add: rv32im_word_def)
    ultimately have st: "interp_step (ii_pre_compute_insns ii) s = insn_handler execution_ctx_ops d s"
      using step compile_insn [OF canon] by blast
    show ?thesis
      using refines_insn [OF ok \<open>insn_ok d\<close>] d(2,3) unfolding st by (auto simp: refines_def env_of_def)
  qed
qed

lemma run_steps_stopped:
  "run_steps hs n s = Done s' \<Longrightarrow> es_exit_code s' \<noteq> Inr None \<Longrightarrow> n \<le> m \<Longrightarrow> run_steps hs m s = Done s'"
proof (induction n arbitrary: s m)
  case 0
  then show ?case by (cases m) auto
next
  case (Suc n)
  then obtain m' where "m = Suc m'" "n \<le> m'" by (cases m) auto
  then show ?case using Suc by (auto split: if_splits option.splits)
qed

lemma run_sim:
  fixes invt :: "('f::field, 'd, 'r) vm_executor executor_inventory" and s :: "('f, 'd, 'r, execution_ctx) vm_exec_state"
  assumes prog: "rrs_contract rrs" "length (elf_instructions elf) < 2 ^ 64"
      "(from_elf elf (rv32im_transpiler rrs) :: ('e transpiler_error + ('f, 'b) vm_exe) option) = Some (Inr exe)"
      "rv32im_create_executors h = Some (Inr invt)" "interpreter_new canon execution_ctx_ops invt exe = Some (Inr ii)"
    and canon: "canon_ok canon" and base: "unat (elf_pc_base elf) mod 4 = 0" and ok: "rv_ok msize (es_vm_state s)"
    and run: "rv_run rrs msize (elf_pc_base elf) (elf_instructions elf) n (abs_state (es_vm_state s)) = Some (Halted code a)"
    and code: "es_exit_code s = Inr None"
  shows "\<exists>s'. run_steps (ii_pre_compute_insns ii) n s = Done s' \<and> abs_state (es_vm_state s') = a \<and>
    rv_ok msize (es_vm_state s') \<and> es_exit_code s' = Inr (Some code) \<and>
    vs_streams (es_vm_state s') = vs_streams (es_vm_state s) \<and> vs_rng (es_vm_state s') = vs_rng (es_vm_state s)"
  using ok run code
proof (induction n arbitrary: s)
  case (Suc n)
  obtain out where out: "rv_cycle rrs msize (elf_pc_base elf) (elf_instructions elf) (abs_state (es_vm_state s)) = Some out"
    using Suc.prems(2) by (auto split: option.splits)
  obtain s1 where s1: "interp_step (ii_pre_compute_insns ii) s = Some s1" "rv_ok msize (es_vm_state s1)"
    and env: "vs_streams (es_vm_state s1) = vs_streams (es_vm_state s)" "vs_rng (es_vm_state s1) = vs_rng (es_vm_state s)"
    and o1: "case out of Running a \<Rightarrow> abs_state (es_vm_state s1) = a \<and> es_exit_code s1 = es_exit_code s
      | Halted code a \<Rightarrow> abs_state (es_vm_state s1) = a \<and> es_exit_code s1 = Inr (Some code)"
    using cycle_sim [OF prog canon base Suc.prems(1) out] by blast
  show ?case
  proof (cases out)
    case (Running a1)
    then show ?thesis using Suc.IH [of s1] Suc.prems out s1 o1 env by auto
  next
    case (Halted code1 a1)
    have "run_steps (ii_pre_compute_insns ii) n s1 = Done s1" using o1 Halted by (cases n) simp_all
    then show ?thesis using Suc.prems out s1 o1 env Halted by auto
  qed
qed simp

text \<open>The initial state of the machine: the words of the ELF file in memory, all registers zero.\<close>

definition rv_initial :: "nat \<Rightarrow> 'b elf \<Rightarrow> rv_state" where
  "rv_initial msize elf =
     \<lparr>rv_pc = elf_pc_start elf, rv_regs = (\<lambda>r. 0),
      rv_mem = (\<lambda>i. if i < msize then
        (case map_of (elf_memory_image elf) (word_of_nat (i - i mod 4)) of
           Some w \<Rightarrow> to_le_bytes w ! (i mod 4) | None \<Rightarrow> 0) else 0)\<rparr>"

definition rv_config :: "nat \<Rightarrow> addr_space_config list \<Rightarrow> bool" where
  "rv_config msize config \<longleftrightarrow> 2 < length config \<and>
     128 \<le> num_cells (config ! 1) * cell_size (layout (config ! 1)) \<and>
     num_cells (config ! 2) * cell_size (layout (config ! 2)) = msize \<and> 4 dvd msize \<and> msize \<le> 2 ^ 32"

lemma byte_index:
  assumes "i < 2 ^ 32"
  shows "unat (word_of_nat i mod 4 :: u32) = i mod 4" "(word_of_nat i - word_of_nat i mod 4 :: u32) = word_of_nat (i - i mod 4)"
proof -
  have u: "unat (word_of_nat i :: u32) = i" using assms by (simp add: unsigned_of_nat take_bit_nat_eq_self)
  then show "unat (word_of_nat i mod 4 :: u32) = i mod 4" by (simp add: word_of_addr)
  have "unat (word_of_nat (i - i mod 4) :: u32) = i - i mod 4"
    using assms by (simp add: unsigned_of_nat take_bit_nat_eq_self less_imp_diff_less del: of_nat_diff)
  then show "(word_of_nat i - word_of_nat i mod 4 :: u32) = word_of_nat (i - i mod 4)"
    by (simp only: word_unat_eq_iff word_of_addr u)
qed

lemma initial_state:
  assumes exe: "exe_init_memory exe = elf_memory_image_to_openvm_memory_image (elf_memory_image elf)"
    "exe_pc_start exe = elf_pc_start elf"
    and img: "bt_ok (elf_memory_image elf)" "\<forall>addr\<in>fst ` set (elf_memory_image elf). unat addr mod 4 = 0"
    and config: "rv_config msize config"
    and v: "vm_state_initial rng config (exe_init_memory exe) (exe_pc_start exe) inputs = Some v"
  shows "rv_ok msize v" "abs_state v = rv_initial msize elf" "vs_streams v = streams_new inputs"
proof -
  let ?img = "elf_memory_image_to_openvm_memory_image (elf_memory_image elf)"
  have dist: "distinct (map fst (elf_memory_image elf))" using img(1) by (simp add: bt_ok_def strict_sorted_iff)
  obtain m where m: "create_memory_image config ?img = Some m"
    "v = \<lparr>vs_pc = elf_pc_start elf, vs_memory = m, vs_streams = streams_new inputs, vs_rng = rng\<rparr>"
    using v exe by (auto simp: vm_state_initial_def split: option.splits)
  have "bt_ok ?img" unfolding elf_image_as_inserts by (rule btree.invar_fold) (simp add: bt_ok_def)
  note b = create_memory_image_bytes [OF this m(1)]
  have sizes: "am_ok m" "128 \<le> as_size m 1" "as_size m 2 = msize" "4 dvd msize" "msize \<le> 2 ^ 32"
    using b config by (auto simp: rv_config_def)
  have "bytes_at m 1 4 p = replicate 4 0" if "p + 4 \<le> 128" for p
    using b sizes(2) that by (auto intro!: nth_equalityI simp: bytes_at_def map_of_elf_image [OF dist img(2)] RV32_MEMORY_AS_def)
  then have regs: "reg_val m r = 0" if "r < 32" for r
    using that unfolding reg_val_def by (simp add: zero_bytes)
  have mem: "byte_at m 2 i = (case map_of (elf_memory_image elf) (word_of_nat (i - i mod 4)) of
      Some w \<Rightarrow> to_le_bytes w ! (i mod 4) | None \<Rightarrow> 0)" if "i < msize" for i
  proof -
    have i: "i < 2 ^ 32" using that sizes(5) by simp
    then show ?thesis
      using b sizes(3) that byte_index [OF i]
      by (simp add: map_of_elf_image [OF dist img(2)] RV32_MEMORY_AS_def split: option.split)
  qed
  show "rv_ok msize v" using sizes regs [of 0] by (simp add: rv_ok_def mem_ok_def m(2))
  show "abs_state v = rv_initial msize elf"
    using regs mem sizes(3) by (auto simp: abs_state_def rv_initial_def m(2) fun_eq_iff)
  show "vs_streams v = streams_new inputs" by (simp add: m(2))
qed

lemma from_elf_memory:
  assumes "from_elf elf (rv32im_transpiler rrs) = Some (Inr exe)"
  shows "exe_init_memory exe = elf_memory_image_to_openvm_memory_image (elf_memory_image elf)"
    "exe_pc_start exe = elf_pc_start elf"
  using assms
  by (auto simp: from_elf_def modify_initial_memory_def rv32im_transpiler_def with_processor_def new_transpiler_def
      rv32_extension_def split: option.splits sum.splits)

lemma interpreter_new_start:
  "interpreter_new canon ops invt exe = Some (Inr ii) \<Longrightarrow>
   ii_init_memory ii = exe_init_memory exe \<and> ii_pc_start ii = exe_pc_start exe"
  by (auto simp: interpreter_new_def bind_eq_Some_conv map_pre_Inr instance_of_def)

text \<open>
  C39. From an ELF file to the result. If the RISC-V machine, started on the words and the memory
  image of the file, halts with an exit code within \<open>n\<close> cycles, then transpiling the file, compiling
  it for the interpreter and calling \<open>execute\<close> with at least \<open>n\<close> instructions (or no limit) returns:
  for the exit code 0, the state whose registers and memory are those of the halted machine, with
  the input untouched; for another exit code, the error \<open>FailedWithExitCode\<close>.
\<close>

theorem rv32im_program_halts:
  fixes invt :: "('f::field, 'd, 'r) vm_executor executor_inventory"
  assumes "canon_ok canon" "rrs_contract rrs" "length (elf_instructions elf) < 2 ^ 64"
    and exe: "(from_elf elf (rv32im_transpiler rrs) :: ('e transpiler_error + ('f, 'b) vm_exe) option) = Some (Inr exe)"
    and "rv32im_create_executors h = Some (Inr invt)" "interpreter_new canon execution_ctx_ops invt exe = Some (Inr ii)"
    and "unat (elf_pc_base elf) mod 4 = 0"
    and "bt_ok (elf_memory_image elf)" "\<forall>addr\<in>fst ` set (elf_memory_image elf). unat addr mod 4 = 0"
    and "rv_config msize config" "create_memory_image config (exe_init_memory exe) \<noteq> None"
    and run: "rv_run rrs msize (elf_pc_base elf) (elf_instructions elf) n (rv_initial msize elf) = Some (Halted code a)"
    and n: "n \<le> (case num_insns of Some k \<Rightarrow> unat k | None \<Rightarrow> 2 ^ 64 - 1)"
  shows "\<exists>v. abs_state v = a \<and> rv_ok msize v \<and> vs_streams v = streams_new inputs \<and>
    execute rng config ii inputs num_insns =
      Some (Done (if code = 0 then Inr v else Inl (FailedWithExitCode code)))"
proof -
  let ?N = "case num_insns of Some k \<Rightarrow> unat k | None \<Rightarrow> 2 ^ 64 - 1"
  obtain v0 :: "('f, 'd, 'r) vm_state"
    where v0: "vm_state_initial rng config (exe_init_memory exe) (exe_pc_start exe) inputs = Some v0"
    using assms(11) by (auto simp: vm_state_initial_def)
  note init = initial_state [OF from_elf_memory [OF exe] assms(8-10) v0]
  let ?s0 = "vm_exec_state_new v0 (execution_ctx_new num_insns)"
  have s0: "es_vm_state ?s0 = v0" "es_exit_code ?s0 = Inr None" by (simp_all add: vm_exec_state_new_def)
  obtain s where s: "run_steps (ii_pre_compute_insns ii) n ?s0 = Done s" "abs_state (es_vm_state s) = a"
    "rv_ok msize (es_vm_state s)" "es_exit_code s = Inr (Some code)" "vs_streams (es_vm_state s) = vs_streams v0"
    using run_sim [OF assms(2-6,1,7), of msize ?s0 n code a] init run s0 by auto
  have "run_steps (ii_pre_compute_insns ii) ?N ?s0 = Done s" using run_steps_stopped [OF s(1) _ n] s(4) by simp
  then have "execute rng config ii inputs num_insns =
      Some (Done (if code = 0 then Inr (es_vm_state s) else Inl (FailedWithExitCode code)))"
    using v0 interpreter_new_start [OF assms(6)] s(4)
    by (simp add: execute_def execute_from_state_run [OF assms(6)] check_exit_code_def check_termination_def)
  then show ?thesis using s init(3) by auto
qed

text \<open>The witnesses run the program of \<open>demo_elf\<close>, which leaves 25 in register 2.\<close>

lemma demo_decoded:
  "riscv_i 0x00500093 = \<lparr>it_imm = 5, it_rs1 = 0, it_funct3 = 0, it_rd = 1\<rparr>"
  "rt_rs1 (riscv_r 0x02108133) = 1" "rt_rs2 (riscv_r 0x02108133) = 1" "rt_rd (riscv_r 0x02108133) = 2"
  by code_simp+

lemma demo_run:
  "\<exists>a. rv_run riscv_rrs 64 8 (elf_instructions demo_elf) 3 (rv_initial 64 demo_elf) = Some (Halted 0 a) \<and> rv_regs a 2 = 25"
proof -
  let ?a0 = "rv_initial 64 demo_elf" and ?ws = "elf_instructions demo_elf"
  have c0: "rv_cycle riscv_rrs 64 8 ?ws ?a0 = Some (Running (rv_next (rv_set 1 5 ?a0)))" (is "_ = Some (Running ?a1)")
    by (simp add: rv_cycle_def rv_fetch_def demo_elf_def rv_initial_def demo_words demo_decoded guest_consts
        riscv_rrs_def rv_i_step_def Let_def)
  have c1: "rv_cycle riscv_rrs 64 8 ?ws ?a1 = Some (Running (rv_next (rv_set 2 25 ?a1)))" (is "_ = Some (Running ?a2)")
    by (simp add: rv_cycle_def rv_fetch_def demo_elf_def rv_initial_def rv_next_def rv_set_def demo_words demo_decoded
        guest_consts riscv_rrs_def)
  have c2: "rv_cycle riscv_rrs 64 8 ?ws ?a2 = Some (Halted 0 ?a2)"
    by (simp add: rv_cycle_def rv_fetch_def demo_elf_def rv_initial_def rv_next_def rv_set_def demo_words
        guest_consts riscv_rrs_def)
  have "rv_run riscv_rrs 64 8 ?ws 3 ?a0 = Some (Halted 0 ?a2)" by (simp add: numeral_3_eq_3 c0 c1 c2 del: One_nat_def)
  then show ?thesis by (simp add: rv_next_def rv_set_def)
qed

lemma demo_config: "rv_config 64 small_config"
  by (simp add: rv_config_def small_config_def)

lemma demo_interpreter:
  obtains exe and invt :: "(bb, unit, unit) vm_executor executor_inventory" and ii
  where "(from_elf demo_elf (rv32im_transpiler riscv_rrs) :: (unit transpiler_error + (bb, unit) vm_exe) option) = Some (Inr exe)"
    "rv32im_create_executors demo_host = Some (Inr invt)"
    "interpreter_new bb_canon execution_ctx_ops invt exe = Some (Inr ii)"
proof -
  obtain exe where exe: "(from_elf demo_elf (rv32im_transpiler riscv_rrs) ::
      (unit transpiler_error + (bb, unit) vm_exe) option) = Some (Inr exe)"
    using demo_exe by blast
  obtain invt where invt: "rv32im_create_executors demo_host =
      Some (Inr (invt :: (bb, unit, unit) vm_executor executor_inventory))"
    using rv32im_inventory by blast
  show ?thesis
    using compile_program [OF bb_canon_ok riscv.rrs_contract_axioms _ _ exe invt,
        of "replicate (length (executors invt)) 0" execution_ctx_ops] that [OF exe invt]
    by (auto simp: demo_elf_def)
qed

theorem rv32im_invariant_witness:
  "\<exists>(ii :: (bb, unit, unit, execution_ctx) interpreted_instance) v. rv_ok 64 v \<and>
     (\<forall>s. reachable (ii_pre_compute_insns ii) (vm_exec_state_new v 7) s \<longrightarrow> rv_ok 64 (es_vm_state s))"
proof -
  obtain exe invt ii where prog: "(from_elf demo_elf (rv32im_transpiler riscv_rrs) ::
      (unit transpiler_error + (bb, unit) vm_exe) option) = Some (Inr exe)"
    "rv32im_create_executors demo_host = Some (Inr (invt :: (bb, unit, unit) vm_executor executor_inventory))"
    "interpreter_new bb_canon execution_ctx_ops invt exe = Some (Inr ii)"
    by (rule demo_interpreter)
  obtain v :: "(bb, unit, unit) vm_state" where v: "rv_ok 64 v" using demo_state by blast
  have "length (elf_instructions demo_elf) < 2 ^ 64" by (simp add: demo_elf_def)
  from rv32im_invariant [OF bb_canon_ok riscv.rrs_contract_axioms this prog v, of 7] show ?thesis using v by blast
qed

theorem rv32im_program_halts_witness:
  "\<exists>(ii :: (bb, unit, unit, execution_ctx) interpreted_instance) v. rv_regs (abs_state v) 2 = 25 \<and>
     execute () small_config ii [] None = Some (Done (Inr v))"
proof -
  obtain exe invt ii where prog: "(from_elf demo_elf (rv32im_transpiler riscv_rrs) ::
      (unit transpiler_error + (bb, unit) vm_exe) option) = Some (Inr exe)"
    "rv32im_create_executors demo_host = Some (Inr (invt :: (bb, unit, unit) vm_executor executor_inventory))"
    "interpreter_new bb_canon execution_ctx_ops invt exe = Some (Inr ii)"
    by (rule demo_interpreter)
  obtain a where a: "rv_run riscv_rrs 64 8 (elf_instructions demo_elf) 3 (rv_initial 64 demo_elf) = Some (Halted 0 a)"
    "rv_regs a 2 = 25"
    using demo_run by blast
  have len: "length (elf_instructions demo_elf) < 2 ^ 64" and base: "elf_pc_base demo_elf = 8" and img: "elf_memory_image demo_elf = []"
    by (simp_all add: demo_elf_def)
  have "exe_init_memory exe = []"
    using from_elf_memory [OF prog(1)] img by (simp add: elf_memory_image_to_openvm_memory_image_def)
  then have mem: "create_memory_image small_config (exe_init_memory exe) \<noteq> None"
    by (simp add: create_memory_image_def am_new_def small_config_def)
  have "\<exists>v. abs_state v = a \<and> rv_ok 64 v \<and> vs_streams v = streams_new [] \<and>
    execute () small_config ii [] None = Some (Done (if (0 :: u32) = 0 then Inr v else Inl (FailedWithExitCode 0)))"
    by (rule rv32im_program_halts [OF bb_canon_ok riscv.rrs_contract_axioms len prog _ _ _ demo_config mem
          a(1) [folded base]])
      (simp_all add: base img bt_ok_def)
  then show ?thesis using a(2) by auto
qed

end
