(* ===== verification/Rv32_Faults.thy ===== *)
theory Rv32_Faults
  imports Rv32_Refine
begin

text \<open>
  Loads and stores where the RISC-V machine raises an exception: what the handlers do outside the
  memory and at addresses that are not naturally aligned.
\<close>

unbundle bit_operations_syntax

text \<open>The width and the address of the access of an instruction.\<close>

fun access_width :: "rrs_insn \<Rightarrow> nat option" where
  "access_width (Rrs_I c d) =
     (case c of I_lb \<Rightarrow> Some 1 | I_lbu \<Rightarrow> Some 1 | I_lh \<Rightarrow> Some 2 | I_lhu \<Rightarrow> Some 2 | I_lw \<Rightarrow> Some 4 | _ \<Rightarrow> None)"
| "access_width (Rrs_S c d) = (case c of S_sb \<Rightarrow> Some 1 | S_sh \<Rightarrow> Some 2 | S_sw \<Rightarrow> Some 4)"
| "access_width _ = None"

fun access_addr :: "rrs_insn \<Rightarrow> rv_state \<Rightarrow> u32" where
  "access_addr (Rrs_I c d) a = rv_regs a (it_rs1 d) + word_of_int (it_imm d)"
| "access_addr (Rrs_S c d) a = rv_regs a (st_rs1 d) + word_of_int (st_imm d)"
| "access_addr _ a = 0"

text \<open>The step of the machine with the address of a word access rounded down.\<close>

fun rv_step_aligned :: "rrs_insn \<Rightarrow> rv_state \<Rightarrow> rv_state" where
  "rv_step_aligned (Rrs_I c d) a =
     (let addr = access_addr (Rrs_I c d) a in
      rv_next (rv_set (it_rd d) (from_le_bytes (rv_bytes 4 (addr - addr mod 4) a)) a))"
| "rv_step_aligned (Rrs_S c d) a =
     (let addr = access_addr (Rrs_S c d) a in
      rv_next (rv_store (addr - addr mod 4) (to_le_bytes (rv_regs a (st_rs2 d))) a))"
| "rv_step_aligned _ a = a"

lemma outside_word:
  fixes addr :: u32
  assumes "4 dvd msize" "msize \<le> unat addr"
  shows "msize < unat (addr - addr mod 4) + 4"
  using assms(2) mod_less_divisor [of 4 "unat addr"] unfolding word_of_addr by linarith

lemma outside_panics:
  assumes ok: "rv_ok msize (es_vm_state s)" and "msize \<le> unat addr"
  shows "vm_read execution_ctx_ops 4 2 (addr - addr mod 4) s = None"
    "host_read 4 2 (addr - addr mod 4) s = None"
    "length bs = 4 \<Longrightarrow> vm_write execution_ctx_ops 2 (addr - addr mod 4) bs s = None"
proof -
  have m: "am_ok (mem_of s)" "as_size (mem_of s) 2 = msize" "4 dvd msize" using ok by (simp_all add: rv_ok_def mem_ok_def)
  note out = outside_word [OF m(3) assms(2)]
  show "host_read 4 2 (addr - addr mod 4) s = None" using out m by (simp add: host_read_def gm_read_eq)
  then show "vm_read execution_ctx_ops 4 2 (addr - addr mod 4) s = None"
    by (simp add: vm_read_def pure_on_memory host_read_def)
  show "vm_write execution_ctx_ops 2 (addr - addr mod 4) bs s = None" if "length bs = 4"
  proof -
    have "bs \<noteq> []" using that by auto
    from gm_write_None [OF m(1) this, of 1 2 "addr - addr mod 4"] out m(2) that show ?thesis
      by (simp add: vm_write_def pure_on_memory host_write_def)
  qed
qed

lemma inside_read:
  assumes ok: "rv_ok msize (es_vm_state s)" and "unat addr < msize"
  shows "vm_read execution_ctx_ops 4 2 (addr - addr mod 4) s = Some (bytes_at (mem_of s) 2 4 (unat addr - unat addr mod 4), s)"
    "host_read 4 2 (addr - addr mod 4) s = Some (bytes_at (mem_of s) 2 4 (unat addr - unat addr mod 4))"
proof -
  have "rv_accessible msize 1 addr" using assms(2) by (simp add: rv_accessible_def)
  from read_aligned [OF ok this] show r: "vm_read execution_ctx_ops 4 2 (addr - addr mod 4) s =
      Some (bytes_at (mem_of s) 2 4 (unat addr - unat addr mod 4), s)" by simp
  then show "host_read 4 2 (addr - addr mod 4) s = Some (bytes_at (mem_of s) 2 4 (unat addr - unat addr mod 4))"
    by (auto simp: vm_read_def pure_on_memory host_read_def bind_eq_Some_conv)
qed

lemma odd_offset: "unat (addr :: u32) mod 2 \<noteq> 0 \<Longrightarrow> addr mod 4 \<noteq> 0 \<and> addr mod 4 \<noteq> 2 \<and> unat addr mod 4 \<noteq> 0 \<and> unat addr mod 4 \<noteq> 2"
proof -
  assume "unat addr mod 2 \<noteq> 0"
  then have "unat addr mod 4 \<noteq> 0 \<and> unat addr mod 4 \<noteq> 2" by presburger
  then show ?thesis by (simp add: word_unat_eq_iff word_of_addr)
qed

lemmas handler_defs = create_handler_def load_store_execute_e12_def load_sign_extend_execute_e12_def i_handler_def
  load_regs_def store_regs_def is_load_op_def host_read_op_def RV32_REGISTER_NUM_LIMBS_def pc_step_def Let_def

text \<open>Outside the memory.\<close>

lemma fault_outside:
  assumes ok: "rv_ok msize (es_vm_state s)" and "insn_ok d" "access_width d \<noteq> None"
    and "msize \<le> unat (access_addr d (abs_state (es_vm_state s)))"
  shows "insn_handler execution_ctx_ops d s = None"
proof (cases d)
  case (Rrs_I c d')
  then have r: "it_rs1 d' < 32" using assms(2) by (simp add: reg_ok_def)
  note out = outside_panics [OF ok assms(4) [unfolded Rrs_I access_addr.simps, folded abs_reg [OF r]]]
  show ?thesis
    using assms(3) Rrs_I out by (cases c) (simp_all add: handler_defs read_reg_pure [OF ok r])
next
  case (Rrs_S c d')
  then have r: "st_rs1 d' < 32" "st_rs2 d' < 32" using assms(2) by (simp_all add: reg_ok_def)
  note out = outside_panics [OF ok assms(4) [unfolded Rrs_S access_addr.simps, folded abs_reg [OF r(1)]]]
  show ?thesis
    using Rrs_S out by (cases c) (simp_all add: handler_defs read_reg_pure [OF ok] r compute_write_data_def)
qed (use assms(3) in simp_all)

text \<open>A halfword at an odd address.\<close>

lemma fault_halfword:
  assumes ok: "rv_ok msize (es_vm_state s)" and "insn_ok d" "access_width d = Some 2"
    and "unat (access_addr d (abs_state (es_vm_state s))) < msize"
    and "unat (access_addr d (abs_state (es_vm_state s))) mod 2 \<noteq> 0"
  shows "\<exists>msg. insn_handler execution_ctx_ops d s = Some (s\<lparr>es_exit_code := Inl (Fail (get_pc s) msg)\<rparr>)"
proof (cases d)
  case (Rrs_I c d')
  then have r: "it_rs1 d' < 32" using assms(2) by (simp add: reg_ok_def)
  note rd = inside_read [OF ok assms(4) [unfolded Rrs_I access_addr.simps, folded abs_reg [OF r]]]
    and odd = odd_offset [OF assms(5) [unfolded Rrs_I access_addr.simps, folded abs_reg [OF r]]]
  show ?thesis
    using assms(3) Rrs_I rd odd
    by (cases c) (auto simp: handler_defs read_reg_pure [OF ok r] compute_write_data_def word_of_addr)
next
  case (Rrs_S c d')
  then have r: "st_rs1 d' < 32" "st_rs2 d' < 32" using assms(2) by (simp_all add: reg_ok_def)
  note rd = inside_read [OF ok assms(4) [unfolded Rrs_S access_addr.simps, folded abs_reg [OF r(1)]]]
    and odd = odd_offset [OF assms(5) [unfolded Rrs_S access_addr.simps, folded abs_reg [OF r(1)]]]
  show ?thesis
    using assms(3) Rrs_S rd odd
    by (cases c) (auto simp: handler_defs read_reg_pure [OF ok] r compute_write_data_def word_of_addr)
qed (use assms(3) in simp_all)

text \<open>A word at any address: the offset in the word is ignored.\<close>

lemma word_rounded:
  assumes ok: "rv_ok msize (es_vm_state s)" and "insn_ok d" "access_width d = Some 4"
    and "unat (access_addr d (abs_state (es_vm_state s))) < msize"
  shows "refines msize (insn_handler execution_ctx_ops d) s (Some (rv_step_aligned d (abs_state (es_vm_state s))))"
proof (cases d)
  case (Rrs_I c d')
  then have r: "it_rs1 d' < 32" "it_rd d' < 32" and c: "c = I_lw"
    using assms(2,3) by (simp_all add: reg_ok_def split: i_call.splits)
  let ?addr = "reg_val (mem_of s) (it_rs1 d') + word_of_int (it_imm d')"
  have lt: "unat ?addr < msize" using assms(4) by (simp add: Rrs_I abs_reg r)
  have b: "rv_bytes 4 (?addr - ?addr mod 4) (abs_state (es_vm_state s)) = bytes_at (mem_of s) 2 4 (unat ?addr - unat ?addr mod 4)"
    using rv_bytes_abs [OF ok, of "?addr - ?addr mod 4" 4] aligned_bound [of msize "unat ?addr"] lt ok
    by (simp add: word_of_addr rv_ok_def mem_ok_def)
  let ?v = "from_le_bytes (bytes_at (mem_of s) 2 4 (unat ?addr - unat ?addr mod 4)) :: u32"
  have "insn_handler execution_ctx_ops d s = Some (set_pc (get_pc s + 4) (put_reg0 (it_rd d') ?v s))"
    using write_reg0(2) [OF ok r(2), of ?v] inside_read(1) [OF ok lt] Rrs_I c
    by (auto simp: handler_defs read_reg_pure [OF ok r(1)] compute_write_data_def put_reg0_def)
  from refines_set_pc [where hnd = "insn_handler execution_ctx_ops d", OF ok r(2) this] show ?thesis
    by (simp add: Rrs_I Let_def rv_next_set abs_reg r b [symmetric] flip: abs_reg)
next
  case (Rrs_S c d')
  then have r: "st_rs1 d' < 32" "st_rs2 d' < 32" and c: "c = S_sw"
    using assms(2,3) by (simp_all add: reg_ok_def split: s_call.splits)
  let ?addr = "reg_val (mem_of s) (st_rs1 d') + word_of_int (st_imm d')" and ?v = "reg_val (mem_of s) (st_rs2 d')"
  have lt: "unat ?addr < msize" using assms(4) by (simp add: Rrs_S abs_reg r)
  have len: "length (to_le_bytes ?v) = 4" by simp
  then have ne: "to_le_bytes ?v \<noteq> []" by fastforce
  have b: "unat (?addr - ?addr mod 4) + length (to_le_bytes ?v) \<le> msize"
    unfolding len using aligned_bound [of msize "unat ?addr"] lt ok by (simp add: word_of_addr rv_ok_def mem_ok_def)
  have wr: "vm_write execution_ctx_ops 2 (?addr - ?addr mod 4) (to_le_bytes ?v) s =
      Some (put_mem (?addr - ?addr mod 4) (to_le_bytes ?v) s)"
    unfolding put_mem_def by (rule write_pure) (use b ok ne in \<open>simp_all add: rv_ok_def mem_ok_def\<close>)
  have "insn_handler execution_ctx_ops d s =
      Some (set_pc (get_pc s + 4) (put_mem (?addr - ?addr mod 4) (to_le_bytes ?v) s))"
    using wr Rrs_S c by (simp add: handler_defs read_reg_pure [OF ok] r compute_write_data_def)
  then show ?thesis
    using put_mem_ok [OF ok b ne]
    by - (rule refines_Some, assumption, simp_all add: Rrs_S Let_def rv_next_def abs_reg r rv_store_def)
qed (use assms(3) in simp_all)

text \<open>
  C40. Loads and stores at any address, compared with the RISC-V machine, which raises an exception
  unless the address is naturally aligned and the access is inside the memory. On such an
  exception the VM behaves in three ways. Outside the memory the handler panics. A halfword at an
  odd address stops the guest with the error \<open>Fail\<close>, and nothing else changes. A word at a misaligned
  address inside the memory is not an error: the low two bits of the address are ignored, and the
  aligned word is loaded or stored.
\<close>

theorem rv32im_access_faults:
  fixes invt :: "('f::field, 'd, 'r) vm_executor executor_inventory"
  assumes "canon_ok canon" "rv32im_create_executors h = Some (Inr invt)" "insn_ok d"
    and "rv_ok msize (es_vm_state s)" "access_width d = Some n"
    and "addr = access_addr d (abs_state (es_vm_state s))"
  shows "\<exists>hnd. pre_compute_instruction canon execution_ctx_ops invt i (Some (process_insn d)) = Some (Inr hnd) \<and>
    (rv_step msize d (abs_state (es_vm_state s)) = None \<longrightarrow>
       (if msize \<le> unat addr then hnd s = None
        else if n = 2 then \<exists>msg. hnd s = Some (s\<lparr>es_exit_code := Inl (Fail (get_pc s) msg)\<rparr>)
        else n = 4 \<and> (\<exists>s'. hnd s = Some s' \<and> es_exit_code s' = es_exit_code s \<and>
          abs_state (es_vm_state s') = rv_step_aligned d (abs_state (es_vm_state s)))))"
proof (intro exI conjI impI)
  let ?a = "abs_state (es_vm_state s)"
  show "pre_compute_instruction canon execution_ctx_ops invt i (Some (process_insn d)) =
      Some (Inr (insn_handler execution_ctx_ops d))"
    by (rule pre_compute_compiled [OF rv32im_create_executors_eq [OF assms(2)] compile_insn [OF assms(1,3)]])
  assume "rv_step msize d ?a = None"
  then have fault: "\<not> rv_accessible msize n addr"
    using assms(5,6)
    by (cases d) (auto simp: rv_i_step_def rv_load_step_def rv_store_step_def Let_def split: i_call.splits s_call.splits if_splits)
  have n: "n \<in> {1, 2, 4}"
    using assms(5) by (cases d) (auto split: i_call.splits s_call.splits)
  have dvd: "4 dvd msize" using assms(4) by (simp add: rv_ok_def mem_ok_def)
  show "if msize \<le> unat addr then insn_handler execution_ctx_ops d s = None
    else if n = 2 then \<exists>msg. insn_handler execution_ctx_ops d s = Some (s\<lparr>es_exit_code := Inl (Fail (get_pc s) msg)\<rparr>)
    else n = 4 \<and> (\<exists>s'. insn_handler execution_ctx_ops d s = Some s' \<and> es_exit_code s' = es_exit_code s \<and>
      abs_state (es_vm_state s') = rv_step_aligned d ?a)"
  proof (cases "msize \<le> unat addr")
    case True
    then show ?thesis using fault_outside [OF assms(4,3), of] assms(5,6) by simp
  next
    case False
    then have lt: "unat (access_addr d ?a) < msize" by (simp add: assms(6))
    show ?thesis
    proof (cases "n = 2")
      case True
      have "unat addr mod 2 \<noteq> 0"
      proof
        assume "unat addr mod 2 = 0"
        moreover from this have "unat addr + 2 \<le> msize" using False dvd by presburger
        ultimately show False using fault True by (simp add: rv_accessible_def)
      qed
      then show ?thesis using fault_halfword [OF assms(4,3) _ lt] assms(5,6) True False by simp
    next
      case n2: False
      have "n \<noteq> 1" using fault False by (auto simp: rv_accessible_def)
      then have "n = 4" using n n2 by simp
      then show ?thesis
        using word_rounded [OF assms(4,3) _ lt] assms(5) False by (auto simp: refines_def env_of_def)
    qed
  qed
qed

text \<open>The witness is \<open>lw x1, 2(x0)\<close>, which loads the word at address 0.\<close>

theorem rv32im_access_faults_witness:
  "\<exists>(invt :: (bb, unit, unit) vm_executor executor_inventory) s hnd s'.
     rv_step 64 (Rrs_I I_lw \<lparr>it_imm = 2, it_rs1 = 0, it_funct3 = 2, it_rd = 1\<rparr>) (abs_state (es_vm_state s)) = None \<and>
     pre_compute_instruction bb_canon execution_ctx_ops invt 0
       (Some (process_insn (Rrs_I I_lw \<lparr>it_imm = 2, it_rs1 = 0, it_funct3 = 2, it_rd = 1\<rparr>))) = Some (Inr hnd) \<and>
     hnd s = Some s' \<and> rv_regs (abs_state (es_vm_state s')) 1 = from_le_bytes (rv_bytes 4 0 (abs_state (es_vm_state s)))"
proof -
  let ?d = "Rrs_I I_lw \<lparr>it_imm = 2, it_rs1 = 0, it_funct3 = 2, it_rd = 1\<rparr>"
  obtain invt where invt: "rv32im_create_executors demo_host = Some (Inr (invt :: (bb, unit, unit) vm_executor executor_inventory))"
    using rv32im_inventory by blast
  obtain v :: "(bb, unit, unit) vm_state" where v: "rv_ok 64 v" using demo_state by blast
  let ?s = "vm_exec_state_new v (0 :: execution_ctx)"
  have ok: "rv_ok 64 (es_vm_state ?s)" using v by (simp add: vm_exec_state_new_def)
  have x0: "rv_regs (abs_state (es_vm_state ?s)) 0 = 0"
    using v by (simp add: vm_exec_state_new_def abs_state_def rv_ok_def mem_ok_def)
  have d: "insn_ok ?d" "access_width ?d = Some 4" "(2 :: u32) = access_addr ?d (abs_state (es_vm_state ?s))"
    by (simp_all add: reg_ok_def x0)
  have none: "rv_step 64 ?d (abs_state (es_vm_state ?s)) = None"
    by (simp add: rv_i_step_def rv_load_step_def rv_accessible_def x0 Let_def)
  have regs: "rv_regs (rv_step_aligned ?d (abs_state (es_vm_state ?s))) 1 = from_le_bytes (rv_bytes 4 0 (abs_state (es_vm_state ?s)))"
    by (simp add: rv_next_def rv_set_def x0 Let_def)
  have c: "64 \<le> unat (2 :: u32) \<longleftrightarrow> False" "(4 :: nat) = 2 \<longleftrightarrow> False" by simp_all
  have "\<exists>hnd. pre_compute_instruction bb_canon execution_ctx_ops invt 0 (Some (process_insn ?d)) = Some (Inr hnd) \<and>
      (\<exists>s'. hnd ?s = Some s' \<and> abs_state (es_vm_state s') = rv_step_aligned ?d (abs_state (es_vm_state ?s)))"
    by (rule ex_forward [OF rv32im_access_faults [OF bb_canon_ok invt d(1) ok d(2,3), of 0]])
      (use none in \<open>simp only: c if_False simp_thms, blast\<close>)
  then obtain hnd s' where h: "pre_compute_instruction bb_canon execution_ctx_ops invt 0 (Some (process_insn ?d)) = Some (Inr hnd)"
    "hnd ?s = Some s'" "abs_state (es_vm_state s') = rv_step_aligned ?d (abs_state (es_vm_state ?s))"
    by (elim exE conjE)
  show ?thesis
    by (rule exI [of _ invt], rule exI [of _ ?s], rule exI [of _ hnd], rule exI [of _ s'])
      (intro conjI none h(1,2), unfold h(3), rule regs)
qed

end
