(* ===== verification/Spec2Isabelle.thy ===== *)
theory Spec2Isabelle
  imports Baby_Bear Base_Alu Less_Than Branch_Eq Range_Tuple Shift DivRem_Fill Rv32_Decode Memory_Bus Exec_Bus Rv32_Run Rv32_Faults
begin

text \<open>
  Verification of the circuits and executors of a RISC-V zkVM.

  The program. A guest program is executed instruction by instruction; the execution is recorded,
  and every instruction becomes a row of the trace of a chip. A chip has an AIR (the constraints on
  its rows and the messages it sends on buses), an executor and a trace filler. An instruction chip
  is split into an adapter (which reads registers and memory and moves the program counter) and a
  core (which relates the operands to the result); they meet in \<open>AdapterAirContext\<close>. Lookup
  chips own a table (range checks, bitwise operations), count the requests that fillers make and
  serve them over a bus.

  Where it is modelled.

    \<^item> \<open>Prelude\<close>: limbs, wrap-around arithmetic of \<open>u8\<close>..\<open>u64\<close>, fields of finite
      characteristic. \<open>Baby_Bear\<close>: the field the VM runs on, as the integers modulo
      \<open>15 * 2 ^ 27 + 1\<close>, with a kernel-checked proof that this number is prime.
    \<^item> \<open>Air\<close>: \<open>crates/vm/src/arch/integration_api.rs\<close> and the assertions and buses of
      the constraint builder; the locales \<open>lookup_bus\<close> and \<open>core_chip\<close>.
    \<^item> \<open>Lookup_Chips\<close>, \<open>Var_Range\<close>, \<open>Range_Tuple\<close>:
      \<open>crates/circuits/primitives/src/bitwise_op_lookup\<close>, \<open>var_range\<close>, \<open>range_tuple\<close>.
    \<^item> \<open>Rv32_Opcodes\<close>: \<open>extensions/rv32im/transpiler/src/instructions.rs\<close> and the
      instruction format of \<open>crates/toolchain/instructions\<close>.
    \<^item> \<open>Executor\<close>: the state, errors and adapter traits of preflight execution
      (\<open>crates/vm/src/arch/execution.rs\<close>).
    \<^item> \<open>Base_Alu\<close>, \<open>Less_Than\<close>, \<open>Branch_Lt\<close>, \<open>Branch_Eq\<close>: \<open>core.rs\<close> of
      the directories \<open>base_alu\<close>, \<open>less_than\<close>, \<open>branch_lt\<close>, \<open>branch_eq\<close> of
      \<open>extensions/rv32im/circuit/src\<close>; \<open>Compare\<close> holds what the comparisons share.
    \<^item> \<open>Shift\<close>, \<open>Mul\<close>, \<open>MulH\<close>, \<open>DivRem\<close> with \<open>DivRem_Fill\<close>: \<open>core.rs\<close> of
      \<open>shift\<close>, \<open>mul\<close>, \<open>mulh\<close>, \<open>divrem\<close>; \<open>Core_Lemmas\<close> holds the sign checks and the
      lookups they share, \<open>Limb_Products\<close> the chains of limb products and carries.
    \<^item> \<open>Transpiler\<close>: \<open>crates/toolchain/transpiler/src\<close> (the loop of \<open>transpile\<close>, the extension
      trait, \<open>from_elf\<close>) and the programs of \<open>crates/toolchain/instructions\<close>;
      \<open>Rv32_Transpile\<close> the I, M and Io extensions of \<open>extensions/rv32im/transpiler/src\<close>, with the
      crate \<open>rrs-lib\<close> as a parameter; \<open>Rv32_Decode\<close> its contract (a locale), a decoder of RV32IM
      that satisfies it and the result of transpiling. \<open>Rust_Std\<close>: little-endian bytes of words
      and \<open>BTreeMap\<close>.
    \<^item> \<open>Guest_Memory\<close>: \<open>crates/vm/src/system/memory/online.rs\<close> with the backends \<open>memmap.rs\<close> and
      \<open>basic.rs\<close>, both interpretations of the locale \<open>linear_memory\<close>; \<open>Tracing_Memory\<close>: the memory of
      preflight execution, which records access timestamps in the vectors of \<open>paged_vec.rs\<close>.
    \<^item> \<open>Vm_State\<close>: the streams, the state and the execution contexts of
      \<open>crates/vm/src/arch\<close> (\<open>state.rs\<close>, \<open>execution_mode\<close>); a context is the record of the hooks of
      \<open>ExecutionCtxTrait\<close>. \<open>Rv32_Exec\<close>, \<open>Rv32_Exec_Mem\<close>: the \<open>execution.rs\<close> files of
      \<open>extensions/rv32im/circuit/src\<close> (what an instruction is compiled to, and the handler that
      runs it) and the phantom sub-executors. \<open>Inventory\<close>: \<open>arch/extensions.rs\<close>, the
      registration of executors under opcodes. \<open>Interpreter\<close>: \<open>arch/interpreter.rs\<close>, the
      compilation of a program to a table of handlers and the trampoline that runs it.
    \<^item> \<open>Ctx_Sim\<close>: locales for relating a run in one context to a run in another, with a
      simulation lemma for every handler; \<open>Interp_Run\<close>: the properties of the interpreter.
    \<^item> \<open>Perm_Bus\<close>: sent and received messages of a balanced permutation bus, and the path they
      form; \<open>Sub_Airs\<close>: the comparison sub-AIRs of \<open>crates/circuits/primitives/src\<close>.
      \<open>Memory_Bus\<close>: the offline memory checker and the boundary AIR
      (\<open>system/memory/offline_checker\<close>, \<open>persistent.rs\<close>). \<open>Exec_Bus\<close>: the execution bus and bridge
      (\<open>arch/execution.rs\<close>), the program AIR and its committed trace (\<open>system/program\<close>) and the
      connector (\<open>system/connector\<close>).
    \<^item> \<open>Rv32_Isa\<close>: the reference, a RISC-V machine with registers and a memory of bytes that
      follows the RV32IM manual and raises an exception on a misaligned or outside access.
      \<open>Rv32_Compile\<close> shows which handler every RV32IM instruction is compiled to,
      \<open>Rv32_Refine\<close> that each handler refines the step of the reference, \<open>Rv32_Run\<close> carries this
      to whole programs, and \<open>Rv32_Faults\<close> describes the accesses on which the reference faults.

  How code becomes definitions. A struct of columns is a record over a field; the AIR's
  \<open>eval\<close> is a function from a row to its assertions, its interactions and its context. The
  \<open>execute\<close> functions pass the state explicitly and return an error or a state. A filler
  returns the columns and the list of requests it makes of the lookup chips. Const generics are
  natural number parameters. Machine integers are naturals with \<open>mod 2 ^ w\<close> written out
  (\<open>wadd\<close>, \<open>wsub\<close>, \<open>wmul\<close>, \<open>wshl\<close>) in the circuits, and words in the transpiler. Where the distance
  of a shift depends on a parameter it is reduced modulo the width, as a release build does
  (\<open>shl_rel\<close>, \<open>shr_rel\<close>), and an intermediate \<open>i32\<close> is read as such (\<open>i32_val\<close>). Debug assertions are
  not part of the model.

  What the theorems show. For each core: every valid row that satisfies the assertions, and whose
  lookups are in the tables, carries the result of the instruction on its operands (soundness);
  the row the filler makes satisfies them, and its active lookups are the requests it made
  (completeness). For each lookup chip: on a balanced bus only table entries can be looked up,
  and the counters and the generated trace balance the requests. Each core interprets
  \<open>core_chip\<close> at the parameters of the RISC-V extension (four limbs of eight bits, Baby Bear),
  which gives determinism of the rows. For the interpreter: the buffer of precomputed operands is
  never overrun; \<open>execute_from_state\<close> runs exactly the steps of the program; running with the
  cost meter gives the same state as running without. For the pipeline from an ELF file to
  a result: what the transpiler produces, the interpreter accepts; each RV32IM instruction does what
  the RISC-V machine does; register 0 stays zero in all reachable states; a program that halts on
  the machine halts in the interpreter with the same registers, memory and exit code. Where the
  machine faults, the behaviour of the code is stated for every case.

  What ties the chips together. A memory access sends and receives messages with timestamps: on a
  balanced memory bus the accesses, ordered by time, are a run of one memory between the two states
  of the boundary. An instruction receives and sends a program counter and a time: on a balanced
  execution bus the instructions are one path between the public program counters, and the lookups of
  the program bus make each an instruction of the committed program. That a chunk of memory occurs
  once in each state of the boundary is a hypothesis, \<open>boundary_labels_ok\<close>: the Merkle AIR, which is
  not modelled, is there to ensure it.

  The interpreter. A handler maps a state and a context to a new state or to \<open>None\<close>, which stands
  for a panic; arithmetic is that of a release build (it wraps). The trampoline is a
  \<open>partial_function\<close>, so a run that does not end is \<open>None\<close> and the theorems that it returns say
  so; \<open>run_steps\<close> is the reference semantics with a number of steps.

  Bounds. The soundness theorems are stated for a field whose characteristic exceeds the numbers
  that occur in one constraint; Baby Bear satisfies them. Loops of the code run over lists, so no
  fuel is needed; the loop of \<open>transpile\<close> may run forever, so it is a \<open>partial_function\<close> and its
  termination a theorem.

  Not modelled: the adapters and the AIRs of the jump, load, store and hint chips (their executors
  are), the Merkle tree and its hash; the proof system (the builder, the STARK backend and the claim that a balanced bus
  follows from a proof), CUDA and ahead-of-time variants, proof recursion, the SDK and the command
  line, guest libraries, and the algebra, elliptic curve and pairing extensions. The manifest lists
  each with its reason.
\<close>

end
